(* ===== verification/Prelude.thy ===== *)
theory Prelude
  imports Main "HOL-Library.Word" "HOL-Library.Monad_Syntax"
begin

text \<open>
  Shared vocabulary of the development: the machine integers of the kernel, the byte
  memory with its little-endian 16- and 32-bit accesses, the page arithmetic of
  \<^verbatim>\<open>src/src/mm/paging.h\<close>, and the lemmas about words, lists and page loops that the
  component theories share.

  Conventions used by every component theory:
  \<^item> a C integer of width w is a word of that width, so arithmetic wraps as on the target
    (i386, 32-bit pointers); a C \<^verbatim>\<open>int\<close> that is only a status code or a small counter is
    an \<open>int\<close> or a \<open>nat\<close>;
  \<^item> a C function that changes static variables takes the record of these variables and
    returns it updated;
  \<^item> a result in \<open>option\<close> is \<open>None\<close> exactly when the C function does not return: it
    panics (\<^verbatim>\<open>panic\<close> halts the machine) or it loops for ever.
\<close>

unbundle bit_operations_syntax

section \<open>Machine integers\<close>

type_synonym u8 = "8 word"
type_synonym u16 = "16 word"
type_synonym u32 = "32 word"
type_synonym u64 = "64 word"

text \<open>A byte buffer or a region of memory seen through a pointer: offset to byte.\<close>

type_synonym bytes = "u32 \<Rightarrow> u8"

named_theorems frame_simps \<open>the effect of bitmap updates on the frames\<close>
named_theorems mem_simps \<open>reads after writes in byte memory\<close>

text \<open>Between 32-bit words and the natural numbers below \<open>2 ^ 32\<close>.\<close>

lemma u32_less: "unat (a :: u32) < 4294967296"
  using unsigned_less [of a, where ?'a = nat] by simp

lemma u16_less: "unat (a :: u16) < 65536"
  using unsigned_less [of a, where ?'a = nat] by simp

lemma u8_less: "unat (a :: u8) < 256"
  using unsigned_less [of a, where ?'a = nat] by simp

lemma unat_ucast_widen [simp]:
  "unat (ucast (a :: u16) :: u32) = unat a"
  "unat (ucast (b :: u8) :: u32) = unat b"
  "unat (ucast (b :: u8) :: u16) = unat b"
  using u16_less [of a] u8_less [of b] by (simp_all add: unsigned_ucast_eq take_bit_nat_eq_self)

lemma unat_of_nat_u32 [simp]: "n < 4294967296 \<Longrightarrow> unat (of_nat n :: u32) = n"
  by (simp add: unat_of_nat)

lemma of_nat_u32_eq: "m < 4294967296 \<Longrightarrow> n < 4294967296 \<Longrightarrow> (of_nat m :: u32) = of_nat n \<longleftrightarrow> m = n"
  using unat_of_nat_u32 by metis

text \<open>A counter that is below a bound can be incremented without wrapping.\<close>

lemma unat_Suc_less: "unat (f + 1) = Suc (unat f)" if "f < e" for f e :: "'a::len word"
proof -
  have "f + 1 \<noteq> 0"
  proof
    assume "f + 1 = 0"
    then have "f = - 1" by (simp add: eq_neg_iff_add_eq_0)
    with that show False using word_n1_ge [of e] by simp
  qed
  then show ?thesis by (simp add: unatSuc add.commute)
qed

lemma count_up: "unat e - unat (f + 1) < unat e - unat f" if "f < e" for f e :: "'a::len word"
  using that unat_Suc_less [OF that] by (simp add: word_less_nat_alt)

text \<open>The first index of a range with a property, as a search from below finds it.\<close>

lemma find_upt_Some:
  "find P [m..<n] = Some k \<longleftrightarrow> m \<le> k \<and> k < n \<and> P k \<and> (\<forall>i. m \<le> i \<and> i < k \<longrightarrow> \<not> P i)"
  for m n k :: nat
proof
  assume "find P [m..<n] = Some k"
  then obtain j where j: "j < n - m" "P (m + j)" "k = m + j" and less: "\<forall>i < j. \<not> P (m + i)"
    by (auto simp: find_Some_iff)
  have "\<not> P i" if "m \<le> i" "i < k" for i
    using less [rule_format, of "i - m"] that j by auto
  with j show "m \<le> k \<and> k < n \<and> P k \<and> (\<forall>i. m \<le> i \<and> i < k \<longrightarrow> \<not> P i)" by auto
next
  assume "m \<le> k \<and> k < n \<and> P k \<and> (\<forall>i. m \<le> i \<and> i < k \<longrightarrow> \<not> P i)"
  then show "find P [m..<n] = Some k"
    by (auto simp: find_Some_iff intro!: exI [of _ "k - m"])
qed

lemma find_upt_None: "find P [m..<n] = None \<longleftrightarrow> (\<forall>i. m \<le> i \<and> i < n \<longrightarrow> \<not> P i)" for m n :: nat
  by (auto simp: find_None_iff)

section \<open>Little-endian access to byte memory\<close>

definition ld16 :: "bytes \<Rightarrow> u32 \<Rightarrow> u16" where
  "ld16 m a = ucast (m a) OR push_bit 8 (ucast (m (a + 1)))"

definition st16 :: "u32 \<Rightarrow> u16 \<Rightarrow> bytes \<Rightarrow> bytes" where
  "st16 a v m = m(a := ucast v, a + 1 := ucast (drop_bit 8 v))"

definition ld32 :: "bytes \<Rightarrow> u32 \<Rightarrow> u32" where
  "ld32 m a = ucast (m a) OR push_bit 8 (ucast (m (a + 1)))
     OR push_bit 16 (ucast (m (a + 2))) OR push_bit 24 (ucast (m (a + 3)))"

definition st32 :: "u32 \<Rightarrow> u32 \<Rightarrow> bytes \<Rightarrow> bytes" where
  "st32 a v m = m(a := ucast v, a + 1 := ucast (drop_bit 8 v),
     a + 2 := ucast (drop_bit 16 v), a + 3 := ucast (drop_bit 24 v))"

lemma ld16_st16 [mem_simps]: "ld16 (st16 a v m) a = v"
  by (rule bit_word_eqI)
    (auto simp: ld16_def st16_def bit_simps less_diff_conv not_less)

lemma ld32_st32 [mem_simps]: "ld32 (st32 a v m) a = v"
proof (rule bit_word_eqI)
  fix n assume "n < LENGTH(32)"
  then consider "n < 8" | "8 \<le> n" "n < 16" | "16 \<le> n" "n < 24" | "24 \<le> n" "n < 32"
    by fastforce
  then show "bit (ld32 (st32 a v m) a) n = bit v n"
    by cases (auto simp: ld32_def st32_def bit_simps less_diff_conv not_less)
qed

lemma ld32_cong:
  assumes "\<And>i. i \<in> {a, a + 1, a + 2, a + 3} \<Longrightarrow> m i = m' i"
  shows "ld32 m a = ld32 m' a"
  using assms by (simp add: ld32_def)

lemma st32_other [mem_simps]: "b \<notin> {a, a + 1, a + 2, a + 3} \<Longrightarrow> st32 a v m b = m b"
  by (simp add: st32_def)

section \<open>Pages\<close>

abbreviation PAGE_SIZE :: u32 where "PAGE_SIZE \<equiv> 0x1000"

definition page_down :: "u32 \<Rightarrow> u32" where
  "page_down a = a AND NOT 0xfff"

definition page_up :: "u32 \<Rightarrow> u32" where
  "page_up a = (a + 0xfff) AND NOT 0xfff"

text \<open>The number of the frame an address lies in, as a natural number.\<close>

definition pgno :: "u32 \<Rightarrow> nat" where
  "pgno a = unat a div 4096"

lemma and_not_mask: "a AND NOT (mask n) = push_bit n (drop_bit n a)" for a :: "'a::len word"
  by (rule bit_word_eqI) (auto simp: bit_simps)

lemma page_mask: "(0xfff :: u32) = mask 12"
  by (simp add: mask_eq_exp_minus_1)

lemma page_down_shift: "page_down a = push_bit 12 (drop_bit 12 a)"
  by (simp only: page_down_def page_mask and_not_mask)

lemma push_drop_div: "unat (push_bit n (drop_bit n a)) = 2 ^ n * (unat a div 2 ^ n)" for a :: u32
proof -
  have "unat (push_bit n (drop_bit n a)) = take_bit 32 (push_bit n (drop_bit n (unat a)))"
    by (simp add: unsigned_push_bit_eq unat_drop_bit_eq)
  also have "\<dots> = push_bit n (drop_bit n (unat a))"
  proof (rule take_bit_nat_eq_self)
    have "push_bit n (drop_bit n (unat a)) \<le> unat a"
      by (simp add: push_bit_eq_mult drop_bit_eq_div)
    also have "\<dots> < 2 ^ 32" using unsigned_less [of a] by simp
    finally show "push_bit n (drop_bit n (unat a)) < 2 ^ 32" .
  qed
  finally show ?thesis by (simp add: push_bit_eq_mult drop_bit_eq_div)
qed

lemma unat_page_down: "unat (page_down a) = 4096 * (unat a div 4096)"
  using push_drop_div [of 12 a] by (simp add: page_down_shift)

text \<open>
  \<^verbatim>\<open>for (uint32_t addr = start; addr < end; addr += PAGE_SIZE) body\<close>: the loop that walks
  a range page by page. The counter may wrap when \<open>end\<close> lies in the last page of the address
  space, and then the C loop never ends: \<open>None\<close>.
\<close>

partial_function (option) page_loop :: "(u32 \<Rightarrow> 's \<Rightarrow> 's) \<Rightarrow> u32 \<Rightarrow> u32 \<Rightarrow> 's \<Rightarrow> 's option" where
  "page_loop f addr end_addr s =
     (if addr < end_addr then page_loop f (addr + PAGE_SIZE) end_addr (f addr s) else Some s)"

text \<open>The addresses the loop visits.\<close>

fun pages_of :: "u32 \<Rightarrow> nat \<Rightarrow> u32 list" where
  "pages_of a 0 = []"
| "pages_of a (Suc n) = a # pages_of (a + PAGE_SIZE) n"

definition page_count :: "u32 \<Rightarrow> u32 \<Rightarrow> nat" where
  "page_count a e = (unat e - unat a + 4095) div 4096"

lemma page_loop_eq:
  assumes "unat e \<le> 0xfffff000"
  shows "page_loop f a e s = Some (fold f (pages_of a (page_count a e)) s)"
proof (induction "page_count a e" arbitrary: a s)
  case 0
  then have "\<not> a < e" by (simp add: page_count_def word_less_nat_alt)
  with 0 show ?case by (simp add: page_loop.simps)
next
  case (Suc n)
  then have lt: "unat a < unat e" by (auto simp: page_count_def)
  have "unat (a + PAGE_SIZE) = unat a + 4096"
    using lt assms by (subst unat_add_lem [THEN iffD1]) auto
  with Suc.hyps(2) lt have n: "n = page_count (a + PAGE_SIZE) e"
    by (auto simp: page_count_def)
  from lt have "a < e" by (simp add: word_less_nat_alt)
  then show ?case
    using Suc.hyps(1) [OF n] Suc.hyps(2) [symmetric] n
    by (simp add: page_loop.simps [of f a])
qed

lemma pgno_pages_of:
  assumes "unat a + 4096 * n \<le> 2 ^ 32"
  shows "pgno ` set (pages_of a n) = {pgno a ..< pgno a + n}"
  using assms
proof (induction n arbitrary: a)
  case 0
  then show ?case by simp
next
  case (Suc n)
  show ?case
  proof (cases n)
    case 0
    then show ?thesis by auto
  next
    case (Suc m)
    with Suc.prems have a: "unat (a + PAGE_SIZE) = unat a + 4096"
      by (subst unat_add_lem [THEN iffD1]) auto
    then have "pgno (a + PAGE_SIZE) = Suc (pgno a)" by (simp add: pgno_def)
    with Suc.IH [of "a + PAGE_SIZE"] Suc.prems a show ?thesis by auto
  qed
qed

end
