(* ===== verification/Pmm.thy ===== *)
theory Pmm
  imports Prelude
begin

text \<open>
  The physical memory manager of \<^verbatim>\<open>src/src/mm/pmm.c\<close>: one bit per 4 KiB frame in the
  array \<^verbatim>\<open>phys_bitmap\<close>, set when the frame is in use. The array is a function from the word
  index, so that the code's unchecked accesses \<^verbatim>\<open>phys_bitmap[index]\<close> keep their meaning at
  every index. The boot information of \<^verbatim>\<open>src/src/boot.h\<close>, the initialisation from it, and the
  single-frame and contiguous allocators with their first-fit specification.
\<close>

section \<open>Boot information\<close>

definition MEM_USABLE :: u8 where "MEM_USABLE = 1"
definition MEM_RESERVED :: u8 where "MEM_RESERVED = 2"

record mem_region =
  mr_base :: u32
  mr_length :: u32
  mr_type :: u8

record raw_boot_info =
  conv_kb :: u16
  ext_kb :: u16
  ebda_segment :: u16

text \<open>\<^verbatim>\<open>regions\<close> holds the entries stored so far, in order; the C array has room for eight.\<close>

record boot_info =
  conv_mem :: u16
  ext_mem :: u16
  ebda_start :: u32
  regions :: "mem_region list"
  region_count :: u8

record pmm_state =
  binfo :: boot_info
  phys_bitmap :: "u32 \<Rightarrow> u32"
  bitmap_virt :: u32
  bitmap_size :: u32

section \<open>Frames and bits\<close>

definition addr_to_frame :: "u32 \<Rightarrow> u32" where
  "addr_to_frame addr = drop_bit 12 addr"

definition frame_to_addr :: "u32 \<Rightarrow> u32" where
  "frame_to_addr frame = push_bit 12 frame"

definition bit_to_addr :: "u32 \<Rightarrow> u32 \<Rightarrow> u32" where
  "bit_to_addr index b = (let frame = push_bit 5 index OR b in frame_to_addr frame)"

definition set_frame :: "u32 \<Rightarrow> pmm_state \<Rightarrow> pmm_state" where
  "set_frame addr s =
     (let frame = addr_to_frame addr;
          index = drop_bit 5 frame;
          b = frame AND 31
      in s\<lparr>phys_bitmap := (phys_bitmap s)(index := phys_bitmap s index OR push_bit (unat b) 1)\<rparr>)"

definition clear_frame :: "u32 \<Rightarrow> pmm_state \<Rightarrow> pmm_state" where
  "clear_frame addr s =
     (let frame = addr_to_frame addr;
          index = drop_bit 5 frame;
          b = frame AND 31
      in s\<lparr>phys_bitmap := (phys_bitmap s)(index := phys_bitmap s index AND NOT (push_bit (unat b) 1))\<rparr>)"

definition test_frame :: "u32 \<Rightarrow> pmm_state \<Rightarrow> bool" where
  "test_frame addr s =
     (let frame = addr_to_frame addr;
          index = drop_bit 5 frame;
          b = frame AND 31
      in phys_bitmap s index AND push_bit (unat b) 1 \<noteq> 0)"

section \<open>Initialisation\<close>

text \<open>The first part of \<^verbatim>\<open>pmm_init\<close>: the memory map built from the BIOS figures.\<close>

definition boot_regions :: "raw_boot_info \<Rightarrow> boot_info" where
  "boot_regions raw =
     (let conv_end = (ucast (conv_kb raw) :: u32) * 1024;
          rs = [\<lparr>mr_base = 0x00000, mr_length = 0x500, mr_type = MEM_RESERVED\<rparr>]
             @ [\<lparr>mr_base = 0x500, mr_length = conv_end - 0x500, mr_type = MEM_USABLE\<rparr>]
             @ (if conv_end < 0xa0000
                then [\<lparr>mr_base = conv_end, mr_length = 0xa0000 - conv_end, mr_type = MEM_RESERVED\<rparr>]
                else [])
             @ [\<lparr>mr_base = 0xa0000, mr_length = 0x20000, mr_type = MEM_RESERVED\<rparr>]
             @ [\<lparr>mr_base = 0xc0000, mr_length = 0x8000, mr_type = MEM_RESERVED\<rparr>]
             @ [\<lparr>mr_base = 0xc8000, mr_length = 0x28000, mr_type = MEM_RESERVED\<rparr>]
             @ [\<lparr>mr_base = 0xf0000, mr_length = 0x10000, mr_type = MEM_RESERVED\<rparr>]
             @ (if ext_kb raw > 0
                then [\<lparr>mr_base = 0x100000, mr_length = ucast (ext_kb raw) * 1024, mr_type = MEM_USABLE\<rparr>]
                else [])
      in \<lparr>conv_mem = conv_kb raw, ext_mem = ext_kb raw,
          ebda_start = ucast (ebda_segment raw) * 16,
          regions = rs, region_count = of_nat (length rs)\<rparr>)"

text \<open>The body of the loop over the regions.\<close>

definition apply_region :: "mem_region \<Rightarrow> pmm_state \<Rightarrow> pmm_state option" where
  "apply_region r s =
     (if mr_type r = MEM_RESERVED then
        page_loop set_frame (mr_base r) (mr_base r + mr_length r) s
      else if mr_type r = MEM_USABLE then
        (let start = (mr_base r + PAGE_SIZE - 1) AND NOT (PAGE_SIZE - 1);
             end_addr = mr_base r + mr_length r
         in page_loop clear_frame start end_addr s)
      else Some s)"

fun apply_regions :: "mem_region list \<Rightarrow> pmm_state \<Rightarrow> pmm_state option" where
  "apply_regions [] s = Some s"
| "apply_regions (r # rs) s =
     (case apply_region r s of None \<Rightarrow> None | Some s' \<Rightarrow> apply_regions rs s')"

definition KERNEL_VIRT_BASE :: u32 where "KERNEL_VIRT_BASE = 0xc0000000"

definition phys_to_virt :: "u32 \<Rightarrow> u32" where
  "phys_to_virt phys = phys + KERNEL_VIRT_BASE"

definition virt_to_phys :: "u32 \<Rightarrow> u32" where
  "virt_to_phys virt = virt - KERNEL_VIRT_BASE"

definition pmm_init :: "raw_boot_info \<Rightarrow> u32 \<Rightarrow> u32 \<Rightarrow> pmm_state \<Rightarrow> pmm_state option" where
  "pmm_init raw kend highest_addr s =
     (let bi = boot_regions raw;
          bitmap_phys = page_up kend;
          total_frames = highest_addr div PAGE_SIZE;
          size = (total_frames + 31) div 32;
          s0 = s\<lparr>binfo := bi, bitmap_virt := phys_to_virt bitmap_phys, bitmap_size := size\<rparr>
      in case apply_regions (regions bi) s0 of
           None \<Rightarrow> None
         | Some s1 \<Rightarrow> page_loop set_frame bitmap_phys (bitmap_phys + size * 4) s1)"

section \<open>Allocation and release\<close>

text \<open>\<^verbatim>\<open>panic\<close> does not return, so running out of memory is \<open>None\<close>.\<close>

function pmm_alloc_loop :: "u32 \<Rightarrow> u32 \<Rightarrow> pmm_state \<Rightarrow> (u32 \<times> pmm_state) option" where
  "pmm_alloc_loop frame limit s =
     (if frame < limit then
        (let addr = frame_to_addr frame in
         if \<not> test_frame addr s then Some (addr, set_frame addr s)
         else pmm_alloc_loop (frame + 1) limit s)
      else None)"
  by pat_completeness auto
termination
  by (relation "measure (\<lambda>(frame, limit, s). unat limit - unat frame)")
    (auto intro: count_up)

definition pmm_alloc_frame :: "pmm_state \<Rightarrow> (u32 \<times> pmm_state) option" where
  "pmm_alloc_frame s = pmm_alloc_loop 0 (bitmap_size s * 32) s"

definition pmm_free_frame :: "u32 \<Rightarrow> pmm_state \<Rightarrow> pmm_state" where
  "pmm_free_frame addr s = clear_frame addr s"

text \<open>\<^verbatim>\<open>for (f = run_start; f < run_start + count; f++) set_frame(frame_to_addr(f))\<close>.\<close>

function set_run :: "u32 \<Rightarrow> u32 \<Rightarrow> pmm_state \<Rightarrow> pmm_state" where
  "set_run f end_frame s =
     (if f < end_frame then set_run (f + 1) end_frame (set_frame (frame_to_addr f) s) else s)"
  by pat_completeness auto
termination
  by (relation "measure (\<lambda>(f, e, s). unat e - unat f)")
    (auto intro: count_up)

function pmm_alloc_frames_loop ::
    "u32 \<Rightarrow> u32 \<Rightarrow> u32 \<Rightarrow> u32 \<Rightarrow> u32 \<Rightarrow> pmm_state \<Rightarrow> (u32 \<times> pmm_state) option" where
  "pmm_alloc_frames_loop frame total_frames run_start run_len count s =
     (if frame < total_frames then
        (if \<not> test_frame (frame_to_addr frame) s then
           (let run_start' = (if run_len = 0 then frame else run_start);
                run_len' = run_len + 1
            in if run_len' = count
               then Some (frame_to_addr run_start', set_run run_start' (run_start' + count) s)
               else pmm_alloc_frames_loop (frame + 1) total_frames run_start' run_len' count s)
         else pmm_alloc_frames_loop (frame + 1) total_frames run_start 0 count s)
      else None)"
  by pat_completeness auto
termination
  by (relation "measure (\<lambda>(frame, total, rs, rl, c, s). unat total - unat frame)")
    (auto intro: count_up)

definition pmm_alloc_frames :: "u32 \<Rightarrow> pmm_state \<Rightarrow> (u32 \<times> pmm_state) option" where
  "pmm_alloc_frames count s = pmm_alloc_frames_loop 0 (bitmap_size s * 32) 0 0 count s"

function pmm_free_frames_loop :: "u32 \<Rightarrow> u32 \<Rightarrow> u32 \<Rightarrow> pmm_state \<Rightarrow> pmm_state" where
  "pmm_free_frames_loop i addr count s =
     (if i < count then pmm_free_frames_loop (i + 1) addr count (clear_frame (addr + i * PAGE_SIZE) s)
      else s)"
  by pat_completeness auto
termination
  by (relation "measure (\<lambda>(i, a, c, s). unat c - unat i)")
    (auto intro: count_up)

definition pmm_free_frames :: "u32 \<Rightarrow> u32 \<Rightarrow> pmm_state \<Rightarrow> pmm_state" where
  "pmm_free_frames addr count s = pmm_free_frames_loop 0 addr count s"

declare pmm_alloc_loop.simps [simp del] set_run.simps [simp del]
  pmm_alloc_frames_loop.simps [simp del] pmm_free_frames_loop.simps [simp del]

section \<open>The set of frames in use\<close>

text \<open>
  The abstract state of the manager: which frames, by number, are in use. Physical addresses
  have 32 bits, so frame numbers are below \<open>2 ^ 20\<close>.
\<close>

definition frame_used :: "pmm_state \<Rightarrow> nat \<Rightarrow> bool" where
  "frame_used s n = bit (phys_bitmap s (of_nat (n div 32))) (n mod 32)"

definition frame_limit :: nat where "frame_limit = 2 ^ 20"

text \<open>The bitmap describes at most the 4 GiB of the address space.\<close>

definition pmm_ok :: "pmm_state \<Rightarrow> bool" where
  "pmm_ok s \<longleftrightarrow> unat (bitmap_size s) \<le> 2 ^ 15"

definition pmm_frames :: "pmm_state \<Rightarrow> nat" where
  "pmm_frames s = 32 * unat (bitmap_size s)"

definition frame_addr :: "nat \<Rightarrow> u32" where
  "frame_addr n = of_nat (4096 * n)"

lemma pgno_less: "pgno a < frame_limit"
  using u32_less [of a] by (simp add: pgno_def frame_limit_def)

lemma pgno_frame_addr [simp]: "n < frame_limit \<Longrightarrow> pgno (frame_addr n) = n"
  by (simp add: pgno_def frame_addr_def frame_limit_def del: of_nat_mult)

lemma unat_frame_addr: "n < frame_limit \<Longrightarrow> unat (frame_addr n) = 4096 * n"
  by (simp add: frame_addr_def frame_limit_def del: of_nat_mult)

lemma frame_to_addr_nat: "unat f < frame_limit \<Longrightarrow> frame_to_addr f = frame_addr (unat f)"
  by (simp add: frame_to_addr_def frame_addr_def push_bit_eq_mult)

lemma frame_index:
  "drop_bit 5 (addr_to_frame a) = of_nat (pgno a div 32)"
  "unat (addr_to_frame a AND 31) = pgno a mod 32"
proof -
  have u: "unat (addr_to_frame a) = pgno a"
    unfolding addr_to_frame_def pgno_def unat_drop_bit_eq by (simp add: drop_bit_eq_div)
  show "drop_bit 5 (addr_to_frame a) = of_nat (pgno a div 32)"
    by (rule word_unat_eq_iff [THEN iffD2], subst unat_drop_bit_eq)
      (use pgno_less [of a] in \<open>simp add: u drop_bit_eq_div frame_limit_def\<close>)
  have "addr_to_frame a AND 31 = take_bit 5 (addr_to_frame a)"
    by (simp add: take_bit_eq_mask mask_eq_exp_minus_1)
  then have "unat (addr_to_frame a AND 31) = take_bit 5 (pgno a)"
    by (simp only: unsigned_take_bit_eq u)
  then show "unat (addr_to_frame a AND 31) = pgno a mod 32"
    by (simp add: take_bit_eq_mod)
qed

lemma same_slot:
  assumes "n < frame_limit" "m < frame_limit"
  shows "(of_nat (n div 32) :: u32) = of_nat (m div 32) \<and> n mod 32 = m mod 32 \<longleftrightarrow> n = m"
proof -
  have "(of_nat (n div 32) :: u32) = of_nat (m div 32) \<longleftrightarrow> n div 32 = m div 32"
    using assms by (subst of_nat_u32_eq) (auto simp: frame_limit_def)
  then show ?thesis by (metis div_mult_mod_eq)
qed

lemma frame_used_set [frame_simps]:
  assumes "n < frame_limit"
  shows "frame_used (set_frame a s) n \<longleftrightarrow> n = pgno a \<or> frame_used s n"
  using same_slot [OF assms pgno_less [of a]]
  by (auto simp: frame_used_def set_frame_def Let_def frame_index bit_simps)

lemma frame_used_clear [frame_simps]:
  assumes "n < frame_limit"
  shows "frame_used (clear_frame a s) n \<longleftrightarrow> n \<noteq> pgno a \<and> frame_used s n"
  using same_slot [OF assms pgno_less [of a]]
  by (auto simp: frame_used_def clear_frame_def Let_def frame_index bit_simps)

lemma test_frame_used: "test_frame a s \<longleftrightarrow> frame_used s (pgno a)"
proof -
  have "w AND push_bit k 1 \<noteq> 0 \<longleftrightarrow> bit w k" if "k < 32" for w :: u32 and k
  proof -
    have "w AND push_bit k 1 = (if bit w k then push_bit k 1 else 0)"
      by (rule bit_word_eqI) (auto simp: bit_simps)
    moreover have "push_bit k 1 \<noteq> (0 :: u32)"
      using that by (simp add: push_bit_eq_mult exp_eq_zero_iff)
    ultimately show ?thesis by simp
  qed
  then show ?thesis
    by (simp add: test_frame_def Let_def frame_index frame_used_def)
qed

lemma set_frame_fields [simp]:
  "bitmap_size (set_frame a s) = bitmap_size s" "bitmap_size (clear_frame a s) = bitmap_size s"
  "binfo (set_frame a s) = binfo s" "binfo (clear_frame a s) = binfo s"
  "bitmap_virt (set_frame a s) = bitmap_virt s" "bitmap_virt (clear_frame a s) = bitmap_virt s"
  by (simp_all add: set_frame_def clear_frame_def Let_def)


section \<open>Single frames\<close>

lemma pmm_alloc_loop_find:
  assumes "unat limit \<le> frame_limit"
  shows "pmm_alloc_loop f limit s =
    (case find (\<lambda>n. \<not> frame_used s n) [unat f ..< unat limit] of
       None \<Rightarrow> None
     | Some n \<Rightarrow> Some (frame_addr n, set_frame (frame_addr n) s))"
  using assms
proof (induction f limit s rule: pmm_alloc_loop.induct)
  case (1 f limit s)
  show ?case
  proof (cases "f < limit")
    case False
    then show ?thesis by (simp add: pmm_alloc_loop.simps [of f] word_less_nat_alt)
  next
    case True
    then have lt: "unat f < unat limit" by (simp add: word_less_nat_alt)
    with "1.prems" have lim: "unat f < frame_limit" by simp
    have "test_frame (frame_to_addr f) s = frame_used s (unat f)"
      by (simp add: test_frame_used frame_to_addr_nat [OF lim] lim)
    with True lt lim "1.IH" [OF True refl] "1.prems" show ?thesis
      by (simp add: pmm_alloc_loop.simps [of f] upt_conv_Cons [OF lt] frame_to_addr_nat
          unat_Suc_less [OF True] Let_def)
  qed
qed

lemma pmm_total_frames:
  "pmm_ok s \<Longrightarrow> unat (bitmap_size s * 32) = pmm_frames s"
  "pmm_ok s \<Longrightarrow> pmm_frames s \<le> frame_limit"
  by (simp_all add: pmm_ok_def pmm_frames_def frame_limit_def unat_word_ariths)

lemma pmm_alloc_frame_find:
  assumes "pmm_ok s"
  shows "pmm_alloc_frame s = map_option (\<lambda>n. (frame_addr n, set_frame (frame_addr n) s))
    (find (\<lambda>n. \<not> frame_used s n) [0 ..< pmm_frames s])"
  using assms
  by (simp add: pmm_alloc_frame_def pmm_alloc_loop_find pmm_total_frames option.case_eq_if map_option_case)

lemma pmm_alloc_frame_SomeE:
  assumes "pmm_ok s" "pmm_alloc_frame s = Some (a, s')"
  obtains n where "n < pmm_frames s" "\<not> frame_used s n" "\<forall>i < n. frame_used s i"
    "a = frame_addr n" "s' = set_frame a s"
  using assms by (auto simp: pmm_alloc_frame_find find_upt_Some)

lemma pmm_alloc_frame_None:
  assumes "pmm_ok s"
  shows "pmm_alloc_frame s = None \<longleftrightarrow> (\<forall>n < pmm_frames s. frame_used s n)"
  using assms by (simp add: pmm_alloc_frame_find find_upt_None)

lemma pmm_ok_frame [simp]:
  "pmm_ok (set_frame a s) = pmm_ok s" "pmm_ok (clear_frame a s) = pmm_ok s"
  "pmm_frames (set_frame a s) = pmm_frames s" "pmm_frames (clear_frame a s) = pmm_frames s"
  by (simp_all add: pmm_ok_def pmm_frames_def)

section \<open>The frame allocator interface\<close>

text \<open>
  What the clients of the manager (the page tables, the program loader, \<^verbatim>\<open>SYS_SBRK\<close>)
  rely on: a frame handed out is page aligned, was not in use and is in use afterwards, and
  releasing a frame makes exactly that frame available again.
\<close>

locale frame_allocator =
  fixes alloc :: "'s \<Rightarrow> (u32 \<times> 's) option"
    and release :: "u32 \<Rightarrow> 's \<Rightarrow> 's"
    and used :: "'s \<Rightarrow> nat \<Rightarrow> bool"
    and wf :: "'s \<Rightarrow> bool"
  assumes alloc_aligned: "wf s \<Longrightarrow> alloc s = Some (a, s') \<Longrightarrow> a = frame_addr (pgno a)"
    and alloc_fresh: "wf s \<Longrightarrow> alloc s = Some (a, s') \<Longrightarrow> \<not> used s (pgno a)"
    and alloc_used: "wf s \<Longrightarrow> alloc s = Some (a, s') \<Longrightarrow> n < frame_limit \<Longrightarrow>
      used s' n \<longleftrightarrow> n = pgno a \<or> used s n"
    and alloc_wf: "wf s \<Longrightarrow> alloc s = Some (a, s') \<Longrightarrow> wf s'"
    and release_used: "wf s \<Longrightarrow> n < frame_limit \<Longrightarrow>
      used (release a s) n \<longleftrightarrow> n \<noteq> pgno a \<and> used s n"
    and release_wf: "wf s \<Longrightarrow> wf (release a s)"

text \<open>A client's run of \<open>k\<close> allocations.\<close>

fun alloc_many :: "('s \<Rightarrow> (u32 \<times> 's) option) \<Rightarrow> nat \<Rightarrow> 's \<Rightarrow> (u32 list \<times> 's) option" where
  "alloc_many al 0 s = Some ([], s)"
| "alloc_many al (Suc k) s =
     (case al s of None \<Rightarrow> None
      | Some (a, s1) \<Rightarrow>
          (case alloc_many al k s1 of None \<Rightarrow> None | Some (as, s2) \<Rightarrow> Some (a # as, s2)))"

context frame_allocator begin

lemma alloc_release: "wf s \<Longrightarrow> alloc s = Some (a, s') \<Longrightarrow> n < frame_limit \<Longrightarrow>
    used (release a s') n = used s n"
  using alloc_fresh alloc_used alloc_wf release_used by blast

lemma alloc_many_used:
  "wf s \<Longrightarrow> alloc_many alloc k s = Some (as, s') \<Longrightarrow>
    wf s' \<and> length as = k \<and> distinct (map pgno as)
    \<and> (\<forall>n < frame_limit. used s' n \<longleftrightarrow> n \<in> pgno ` set as \<or> used s n)
    \<and> (\<forall>a \<in> set as. a = frame_addr (pgno a) \<and> \<not> used s (pgno a))"
proof (induction k arbitrary: s as)
  case 0
  then show ?case by simp
next
  case (Suc k)
  then obtain a s1 bs where a: "alloc s = Some (a, s1)"
    and bs: "alloc_many alloc k s1 = Some (bs, s')" and as: "as = a # bs"
    by (auto split: option.splits prod.splits)
  note a' = alloc_aligned [OF Suc.prems(1) a] alloc_fresh [OF Suc.prems(1) a]
    alloc_used [OF Suc.prems(1) a] alloc_wf [OF Suc.prems(1) a]
  from Suc.IH [OF a'(4) bs] a' show ?case
    by (auto simp: as pgno_less)
qed

lemma alloc_many_release:
  "wf s \<Longrightarrow> alloc_many alloc k s = Some (as, s') \<Longrightarrow> n < frame_limit \<Longrightarrow>
    used (fold release as s') n = used s n"
proof -
  assume w: "wf s" and al: "alloc_many alloc k s = Some (as, s')" and n: "n < frame_limit"
  have fold: "wf t \<Longrightarrow> used (fold release xs t) n \<longleftrightarrow> n \<notin> pgno ` set xs \<and> used t n" for xs t
    by (induction xs arbitrary: t) (auto simp: release_used [OF _ n] release_wf)
  from alloc_many_used [OF w al] n fold [of s' as] show ?thesis by auto
qed

end

interpretation pmm: frame_allocator pmm_alloc_frame pmm_free_frame frame_used pmm_ok
proof unfold_locales
  fix s a s' n assume s: "pmm_ok s" "pmm_alloc_frame s = Some (a, s')"
  then obtain k where k: "k < pmm_frames s" "\<not> frame_used s k" "a = frame_addr k" "s' = set_frame a s"
    by (blast elim: pmm_alloc_frame_SomeE)
  with pmm_total_frames(2) [OF s(1)] have "k < frame_limit" by simp
  then have "pgno a = k" by (simp add: k)
  with k show "a = frame_addr (pgno a)" "\<not> frame_used s (pgno a)" "pmm_ok s'"
    using s(1) by simp_all
  show "n < frame_limit \<Longrightarrow> frame_used s' n \<longleftrightarrow> n = pgno a \<or> frame_used s n"
    by (simp add: k(4) frame_simps)
qed (simp_all add: pmm_free_frame_def frame_simps)


section \<open>Contiguous runs\<close>

text \<open>A run of \<open>k\<close> free frames starting at frame \<open>r\<close>.\<close>

definition free_run :: "pmm_state \<Rightarrow> nat \<Rightarrow> nat \<Rightarrow> bool" where
  "free_run s r k \<longleftrightarrow> (\<forall>i \<in> {r ..< r + k}. \<not> frame_used s i)"

lemma set_run_used:
  assumes "unat e \<le> frame_limit" "n < frame_limit"
  shows "frame_used (set_run f e s) n \<longleftrightarrow> unat f \<le> n \<and> n < unat e \<or> frame_used s n"
  using assms
proof (induction f e s rule: set_run.induct)
  case (1 f e s)
  show ?case
  proof (cases "f < e")
    case False
    then show ?thesis by (auto simp: set_run.simps [of f] word_less_nat_alt)
  next
    case True
    then have lt: "unat f < unat e" by (simp add: word_less_nat_alt)
    with "1.prems" have "unat f < frame_limit" by simp
    with "1.IH" [OF True "1.prems"] True lt "1.prems" show ?thesis
      by (auto simp: set_run.simps [of f] unat_Suc_less [OF True] frame_to_addr_nat frame_simps)
  qed
qed

lemma set_run_fields [simp]:
  "bitmap_size (set_run f e s) = bitmap_size s"
  by (induction f e s rule: set_run.induct) (subst set_run.simps, simp)

text \<open>
  The state of the search before frame \<open>f\<close>: the last \<open>l\<close> frames are free and the run they
  form cannot be extended to the left, it is shorter than \<open>k\<close>, and no run of \<open>k\<close> free
  frames ends before \<open>f\<close>.
\<close>

definition run_search :: "pmm_state \<Rightarrow> nat \<Rightarrow> nat \<Rightarrow> nat \<Rightarrow> bool" where
  "run_search s k f l \<longleftrightarrow> l \<le> f \<and> l < k \<and> free_run s (f - l) l
     \<and> (l < f \<longrightarrow> frame_used s (f - l - 1)) \<and> (\<forall>r. r + k \<le> f \<longrightarrow> \<not> free_run s r k)"

lemma run_search_used: "run_search s k f l \<Longrightarrow> frame_used s f \<Longrightarrow> run_search s k (Suc f) 0"
  by (auto simp: run_search_def free_run_def le_Suc_eq)

lemma run_search_free:
  assumes rs: "run_search s k f l" and f: "\<not> frame_used s f" and l: "Suc l \<noteq> k"
  shows "run_search s k (Suc f) (Suc l)"
proof -
  have "\<not> free_run s r k" if r: "r + k = Suc f" for r
  proof
    assume free: "free_run s r k"
    from rs l have lk: "Suc l < k" by (simp add: run_search_def)
    with r have "l < f" "r \<le> f - l - 1" "f - l - 1 < r + k" by auto
    with rs free show False by (auto simp: run_search_def free_run_def)
  qed
  with assms show ?thesis
    by (auto simp: run_search_def free_run_def le_Suc_eq less_Suc_eq Suc_diff_le)
qed

lemma run_search_done:
  assumes "run_search s k f l" "\<not> frame_used s f" "Suc l = k"
  shows "free_run s (f - l) k" "r < f - l \<Longrightarrow> \<not> free_run s r k"
  using assms by (auto simp: run_search_def free_run_def less_Suc_eq)

lemma pmm_alloc_frames_loop_find:
  assumes "unat tot \<le> frame_limit" "run_search s (unat count) (unat f) (unat l)"
    "l \<noteq> 0 \<longrightarrow> unat rs = unat f - unat l" "unat f \<le> unat tot"
  shows "pmm_alloc_frames_loop f tot rs l count s =
    map_option (\<lambda>r. (frame_addr r, set_run (of_nat r) (of_nat r + count) s))
      (find (\<lambda>r. free_run s r (unat count) \<and> r + unat count \<le> unat tot) [0 ..< unat tot])"
  using assms
proof (induction f tot rs l count s rule: pmm_alloc_frames_loop.induct)
  case (1 f tot rs l count s)
  let ?P = "\<lambda>r. free_run s r (unat count) \<and> r + unat count \<le> unat tot"
  from "1.prems"(2) have lk: "unat l < unat count" and lf: "unat l \<le> unat f"
    by (auto simp: run_search_def)
  show ?case
  proof (cases "f < tot")
    case False
    with "1.prems"(4) have "unat f = unat tot" by (simp add: word_less_nat_alt)
    with "1.prems"(2) have "find ?P [0 ..< unat tot] = None"
      by (auto simp: find_upt_None run_search_def)
    with False show ?thesis by (simp add: pmm_alloc_frames_loop.simps [of f])
  next
    case True
    then have lt: "unat f < unat tot" by (simp add: word_less_nat_alt)
    with "1.prems" have lim: "unat f < frame_limit" by simp
    have test: "test_frame (frame_to_addr f) s = frame_used s (unat f)"
      by (simp add: test_frame_used frame_to_addr_nat [OF lim] lim)
    have l1: "unat (l + 1) = Suc (unat l)"
      using lk by (intro unat_Suc_less [of l count]) (simp add: word_less_nat_alt)
    define rs' where "rs' = (if l = 0 then f else rs)"
    have rs': "unat rs' = unat f - unat l"
      using "1.prems"(3) by (simp add: rs'_def)
    show ?thesis
    proof (cases "frame_used s (unat f)")
      case used: True
      have "run_search s (unat count) (unat (f + 1)) (unat 0)"
        using run_search_used [OF "1.prems"(2) used] unat_Suc_less [OF True] by simp
      with "1.IH"(2) [OF True] used test "1.prems"(1) lt True show ?thesis
        by (simp add: pmm_alloc_frames_loop.simps [of f] unat_Suc_less [OF True])
    next
      case free: False
      show ?thesis
      proof (cases "l + 1 = count")
        case False
        then have "Suc (unat l) \<noteq> unat count" using l1 by (metis word_unat_eq_iff)
        from run_search_free [OF "1.prems"(2) free this]
        have "run_search s (unat count) (unat (f + 1)) (unat (l + 1))"
          by (simp add: l1 unat_Suc_less [OF True])
        moreover have "unat rs' = unat (f + 1) - unat (l + 1)"
          by (simp add: rs' l1 unat_Suc_less [OF True])
        ultimately show ?thesis
          using "1.IH"(1) [OF True _ refl refl] False free test "1.prems"(1) lt True
          by (simp add: pmm_alloc_frames_loop.simps [of f] unat_Suc_less [OF True] rs'_def Let_def)
      next
        case True': True
        then have k: "Suc (unat l) = unat count" using l1 by metis
        have "find ?P [0 ..< unat tot] = Some (unat rs')"
          using run_search_done [OF "1.prems"(2) free k] rs' lf lt
          by (auto simp: find_upt_Some k [symmetric])
        moreover have "frame_to_addr rs' = frame_addr (unat rs')"
          using rs' lim by (intro frame_to_addr_nat) simp
        ultimately show ?thesis
          using True True' free test
          by (simp add: pmm_alloc_frames_loop.simps [of f] Let_def rs'_def)
      qed
    qed
  qed
qed


text \<open>The contiguous allocator finds the lowest run that is long enough.\<close>

lemma pmm_alloc_frames_find:
  assumes "pmm_ok s" "count \<noteq> 0"
  shows "pmm_alloc_frames count s =
    map_option (\<lambda>r. (frame_addr r, set_run (of_nat r) (of_nat r + count) s))
      (find (\<lambda>r. free_run s r (unat count) \<and> r + unat count \<le> pmm_frames s) [0 ..< pmm_frames s])"
proof -
  have "0 < unat count" using assms(2) by (simp add: unat_gt_0)
  then have "run_search s (unat count) (unat 0) (unat 0)"
    by (auto simp: run_search_def free_run_def)
  from pmm_alloc_frames_loop_find [OF _ this] show ?thesis
    using pmm_total_frames [OF assms(1)] by (simp add: pmm_alloc_frames_def)
qed

text \<open>Asked for no frames at all, the loop never meets its exit condition and panics.\<close>

lemma pmm_alloc_frames_loop_zero:
  assumes "unat tot \<le> frame_limit" "unat l \<le> unat f"
  shows "pmm_alloc_frames_loop f tot rs l 0 s = None"
  using assms
proof (induction f tot rs l "0 :: u32" s rule: pmm_alloc_frames_loop.induct)
  case (1 f tot rs l s)
  show ?case
  proof (cases "f < tot")
    case False
    then show ?thesis by (simp add: pmm_alloc_frames_loop.simps [of f])
  next
    case True
    from True "1.prems" have "unat l < 4294967295"
      by (simp add: word_less_nat_alt frame_limit_def)
    then have l1: "unat (l + 1) = Suc (unat l)" "l + 1 \<noteq> 0"
      by (simp_all add: unat_plus_if' word_unat_eq_iff)
    show ?thesis
      using "1.hyps"(1) [OF True _ refl refl l1(2)] "1.hyps"(2) [OF True] "1.prems" l1
        unat_Suc_less [OF True]
      by (simp add: pmm_alloc_frames_loop.simps [of f] Let_def)
  qed
qed

lemma pmm_alloc_frames_SomeE:
  assumes "pmm_ok s" "pmm_alloc_frames count s = Some (a, s')"
  obtains r where "0 < unat count" "r + unat count \<le> pmm_frames s" "free_run s r (unat count)"
    "\<forall>q < r. \<not> free_run s q (unat count)" "a = frame_addr r"
    "\<And>n. n < frame_limit \<Longrightarrow> frame_used s' n \<longleftrightarrow> r \<le> n \<and> n < r + unat count \<or> frame_used s n"
    "bitmap_size s' = bitmap_size s"
proof -
  have c0: "count \<noteq> 0"
    using assms pmm_alloc_frames_loop_zero [of "bitmap_size s * 32" 0 0 0 s] pmm_total_frames
    by (auto simp: pmm_alloc_frames_def)
  with assms obtain r where r: "free_run s r (unat count)" "r + unat count \<le> pmm_frames s"
    and first: "\<forall>q < r. \<not> (free_run s q (unat count) \<and> q + unat count \<le> pmm_frames s)"
    and res: "a = frame_addr r" "s' = set_run (of_nat r) (of_nat r + count) s"
    by (auto simp: pmm_alloc_frames_find find_upt_Some)
  have lim: "r + unat count \<le> frame_limit" using r(2) pmm_total_frames(2) [OF assms(1)] by simp
  then have ur: "unat (of_nat r :: u32) = r" by (simp add: frame_limit_def)
  have "unat (of_nat r + count) = r + unat count"
    using lim unat_add_lem [of "of_nat r" count] by (simp add: ur frame_limit_def)
  with lim ur have "frame_used s' n \<longleftrightarrow> r \<le> n \<and> n < r + unat count \<or> frame_used s n"
    if "n < frame_limit" for n
    using that by (simp add: res(2) set_run_used)
  with r first res c0 show ?thesis
    by (intro that [of r]) (auto simp: unat_gt_0)
qed

lemma pmm_free_frames_used:
  assumes "n < frame_limit" "i \<le> count" "pgno addr + unat count \<le> frame_limit"
  shows "frame_used (pmm_free_frames_loop i addr count s) n \<longleftrightarrow>
    \<not> (pgno addr + unat i \<le> n \<and> n < pgno addr + unat count) \<and> frame_used s n"
  using assms
proof (induction i addr count s rule: pmm_free_frames_loop.induct)
  case (1 i addr count s)
  show ?case
  proof (cases "i < count")
    case False
    with "1.prems" have "i = count" by simp
    then show ?thesis by (simp add: pmm_free_frames_loop.simps [of count])
  next
    case True
    then have lt: "unat i < unat count" by (simp add: word_less_nat_alt)
    have ui: "unat (i * PAGE_SIZE) = unat i * 4096"
      using lt "1.prems"(3) by (subst unat_mult_lem [THEN iffD1]) (auto simp: frame_limit_def)
    have "unat addr < 4096 * Suc (pgno addr)"
      by (simp add: pgno_def)
    then have "unat addr + unat i * 4096 < 4294967296"
      using lt "1.prems"(3) by (simp add: frame_limit_def)
    then have "unat (addr + i * PAGE_SIZE) = unat addr + unat i * 4096"
      by (simp add: unat_plus_if' ui)
    then have pg: "pgno (addr + i * PAGE_SIZE) = pgno addr + unat i"
      by (simp add: pgno_def)
    from True have "i + 1 \<le> count" by (rule inc_le)
    with "1.IH" [OF True "1.prems"(1) this "1.prems"(3)] True lt "1.prems"(1) pg show ?thesis
      by (auto simp: pmm_free_frames_loop.simps [of i] unat_Suc_less [OF True] frame_simps)
  qed
qed

text \<open>The interface of the contiguous allocator, which the kernel heap is built on.\<close>

locale range_allocator = frame_allocator +
  fixes alloc_range :: "u32 \<Rightarrow> 'a \<Rightarrow> (u32 \<times> 'a) option"
    and release_range :: "u32 \<Rightarrow> u32 \<Rightarrow> 'a \<Rightarrow> 'a"
  assumes range_aligned: "wf s \<Longrightarrow> alloc_range k s = Some (a, s') \<Longrightarrow>
      a = frame_addr (pgno a) \<and> 0 < unat k \<and> pgno a + unat k \<le> frame_limit"
    and range_fresh: "wf s \<Longrightarrow> alloc_range k s = Some (a, s') \<Longrightarrow> i < unat k \<Longrightarrow> \<not> used s (pgno a + i)"
    and range_used: "wf s \<Longrightarrow> alloc_range k s = Some (a, s') \<Longrightarrow> n < frame_limit \<Longrightarrow>
      used s' n \<longleftrightarrow> pgno a \<le> n \<and> n < pgno a + unat k \<or> used s n"
    and range_wf: "wf s \<Longrightarrow> alloc_range k s = Some (a, s') \<Longrightarrow> wf s'"
    and range_release: "wf s \<Longrightarrow> n < frame_limit \<Longrightarrow> pgno a + unat k \<le> frame_limit \<Longrightarrow>
      used (release_range a k s) n \<longleftrightarrow> \<not> (pgno a \<le> n \<and> n < pgno a + unat k) \<and> used s n"

context range_allocator begin

lemma range_disjoint:
  "wf s \<Longrightarrow> alloc_range k s = Some (a, s1) \<Longrightarrow> alloc_range j s1 = Some (b, s2) \<Longrightarrow>
    pgno a + unat k \<le> pgno b \<or> pgno b + unat j \<le> pgno a"
proof (rule ccontr)
  assume w: "wf s" and a: "alloc_range k s = Some (a, s1)" and b: "alloc_range j s1 = Some (b, s2)"
    and "\<not> (pgno a + unat k \<le> pgno b \<or> pgno b + unat j \<le> pgno a)"
  then have o: "pgno b < pgno a + unat k" "pgno a < pgno b + unat j" by auto
  note ra = range_aligned [OF w a] and rb = range_aligned [OF range_wf [OF w a] b]
  define n where "n = max (pgno a) (pgno b)"
  have "n < frame_limit" "pgno a \<le> n \<and> n < pgno a + unat k" and nb: "pgno b \<le> n" "n - pgno b < unat j"
    using o ra rb pgno_less by (auto simp: n_def)
  then have "used s1 n" using range_used [OF w a] by blast
  moreover have "\<not> used s1 n"
    using range_fresh [OF range_wf [OF w a] b nb(2)] nb(1) by simp
  ultimately show False by simp
qed

lemma range_release_alloc:
  "wf s \<Longrightarrow> alloc_range k s = Some (a, s') \<Longrightarrow> n < frame_limit \<Longrightarrow>
    used (release_range a k s') n = used s n"
  using range_aligned range_wf range_used range_release range_fresh
  by (metis (no_types, lifting) add_diff_inverse_nat less_diff_conv2 not_less add.commute)

end

interpretation pmm: range_allocator pmm_alloc_frame pmm_free_frame frame_used pmm_ok
    pmm_alloc_frames pmm_free_frames
proof unfold_locales
  fix s k a s' n i assume s: "pmm_ok s" "pmm_alloc_frames k s = Some (a, s')"
  then obtain r where r: "0 < unat k" "r + unat k \<le> pmm_frames s" "free_run s r (unat k)"
    "a = frame_addr r" "bitmap_size s' = bitmap_size s"
    and u: "\<And>n. n < frame_limit \<Longrightarrow> frame_used s' n \<longleftrightarrow> r \<le> n \<and> n < r + unat k \<or> frame_used s n"
    by (blast elim: pmm_alloc_frames_SomeE)
  have "r + unat k \<le> frame_limit" using r(2) pmm_total_frames(2) [OF s(1)] by simp
  with r(1) have pg: "pgno a = r" "r + unat k \<le> frame_limit" by (simp_all add: r(4))
  with r show "a = frame_addr (pgno a) \<and> 0 < unat k \<and> pgno a + unat k \<le> frame_limit" "pmm_ok s'"
    using s(1) by (simp_all add: pmm_ok_def)
  show "i < unat k \<Longrightarrow> \<not> frame_used s (pgno a + i)"
    using r(3) by (simp add: pg free_run_def)
  show "n < frame_limit \<Longrightarrow> frame_used s' n \<longleftrightarrow> pgno a \<le> n \<and> n < pgno a + unat k \<or> frame_used s n"
    by (simp add: u pg)
qed (simp add: pmm_free_frames_def pmm_free_frames_used)


section \<open>What initialisation leaves in the bitmap\<close>

lemma fold_set_frame_used:
  assumes "n < frame_limit" "unat a + 4096 * k \<le> 2 ^ 32"
  shows "frame_used (fold set_frame (pages_of a k) s) n \<longleftrightarrow> pgno a \<le> n \<and> n < pgno a + k \<or> frame_used s n"
proof -
  have "frame_used (fold set_frame xs t) n \<longleftrightarrow> n \<in> pgno ` set xs \<or> frame_used t n" for xs t
    by (induction xs arbitrary: t) (auto simp: frame_simps assms(1))
  then show ?thesis using assms(2) by (auto simp: pgno_pages_of)
qed

lemma fold_clear_frame_used:
  assumes "n < frame_limit" "unat a + 4096 * k \<le> 2 ^ 32"
  shows "frame_used (fold clear_frame (pages_of a k) s) n \<longleftrightarrow> \<not> (pgno a \<le> n \<and> n < pgno a + k) \<and> frame_used s n"
proof -
  have "frame_used (fold clear_frame xs t) n \<longleftrightarrow> n \<notin> pgno ` set xs \<and> frame_used t n" for xs t
    by (induction xs arbitrary: t) (auto simp: frame_simps assms(1))
  then show ?thesis using assms(2) by (auto simp: pgno_pages_of)
qed

lemma fold_frame_fields [simp]:
  "bitmap_size (fold set_frame xs s) = bitmap_size s"
  "bitmap_size (fold clear_frame xs s) = bitmap_size s"
  "bitmap_virt (fold set_frame xs s) = bitmap_virt s"
  "bitmap_virt (fold clear_frame xs s) = bitmap_virt s"
  "binfo (fold set_frame xs s) = binfo s"
  "binfo (fold clear_frame xs s) = binfo s"
  by (induction xs arbitrary: s) simp_all

text \<open>
  One region of the memory map, by what it does to the set of frames in use: a reserved region
  marks every frame it touches, a usable one frees the frames that begin inside it.
\<close>

definition mark :: "u32 \<Rightarrow> u32 \<Rightarrow> pmm_state \<Rightarrow> pmm_state" where
  "mark b e s = fold set_frame (pages_of b (page_count b e)) s"

definition unmark :: "u32 \<Rightarrow> u32 \<Rightarrow> pmm_state \<Rightarrow> pmm_state" where
  "unmark b e s = (let st = page_down (b + 0xfff) in fold clear_frame (pages_of st (page_count st e)) s)"

lemma reserved_region:
  "unat (b + l) \<le> 0xfffff000 \<Longrightarrow>
    apply_region \<lparr>mr_base = b, mr_length = l, mr_type = MEM_RESERVED\<rparr> s = Some (mark b (b + l) s)"
  by (simp add: apply_region_def page_loop_eq mark_def)

lemma usable_region:
  "unat (b + l) \<le> 0xfffff000 \<Longrightarrow>
    apply_region \<lparr>mr_base = b, mr_length = l, mr_type = MEM_USABLE\<rparr> s = Some (unmark b (b + l) s)"
  by (simp add: apply_region_def page_loop_eq unmark_def page_down_def MEM_USABLE_def MEM_RESERVED_def
      add.commute Let_def)

lemma page_count_bound: "unat e \<le> 0xfffff000 \<Longrightarrow> unat b \<le> 0xfffff000 \<Longrightarrow> unat b + 4096 * page_count b e \<le> 2 ^ 32"
  by (simp add: page_count_def)

lemma mark_used:
  assumes "n < frame_limit" "unat e \<le> 0xfffff000" "unat b \<le> 0xfffff000"
  shows "frame_used (mark b e s) n \<longleftrightarrow> pgno b \<le> n \<and> n < pgno b + page_count b e \<or> frame_used s n"
  using assms by (simp add: mark_def fold_set_frame_used page_count_bound del: power_numeral)

lemma unmark_used:
  assumes "n < frame_limit" "unat e \<le> 0xfffff000" "unat b \<le> 0xffffe000"
  shows "frame_used (unmark b e s) n \<longleftrightarrow>
    \<not> ((unat b + 4095) div 4096 \<le> n \<and> 4096 * n < unat e) \<and> frame_used s n"
proof -
  define st where "st = page_down (b + 0xfff)"
  have "unat (b + 0xfff) = unat b + 4095" using assms by (simp add: unat_plus_if')
  then have st: "unat st = 4096 * ((unat b + 4095) div 4096)"
    by (simp add: st_def unat_page_down)
  then have pg: "pgno st = (unat b + 4095) div 4096" by (simp add: pgno_def)
  have "pgno st \<le> n \<and> n < pgno st + page_count st e \<longleftrightarrow> (unat b + 4095) div 4096 \<le> n \<and> 4096 * n < unat e"
    using st unfolding pg page_count_def by auto
  moreover have "unat st \<le> 0xfffff000" using st assms by simp
  ultimately show ?thesis
    using assms pg
    by (simp add: unmark_def Let_def fold_clear_frame_used page_count_bound del: power_numeral flip: st_def)
qed

lemma mark_fields [simp]: "bitmap_size (mark b e s) = bitmap_size s" "bitmap_size (unmark b e s) = bitmap_size s"
  by (simp_all add: mark_def unmark_def Let_def)

text \<open>
  The sizes \<^verbatim>\<open>pmm_init\<close> computes, as numbers: the number of bitmap words and of the frames
  that hold them, and the frame at which the bitmap starts.
\<close>

definition bitmap_words :: "u32 \<Rightarrow> nat" where
  "bitmap_words highest_addr = (unat highest_addr div 4096 + 31) div 32"

definition bitmap_first :: "u32 \<Rightarrow> nat" where
  "bitmap_first kend = (unat kend + 4095) div 4096"

definition bitmap_frames :: "u32 \<Rightarrow> nat" where
  "bitmap_frames highest_addr = (4 * bitmap_words highest_addr + 4095) div 4096"

lemma bitmap_words_unat:
  "unat ((highest_addr div PAGE_SIZE + 31) div 32) = bitmap_words highest_addr"
proof -
  have "unat (highest_addr div PAGE_SIZE) = unat highest_addr div 4096"
    by (simp add: unat_div)
  moreover have "unat highest_addr div 4096 < 1048576" using u32_less [of highest_addr] by simp
  ultimately have "unat (highest_addr div PAGE_SIZE + 31) = unat highest_addr div 4096 + 31"
    by (simp add: unat_plus_if')
  then show ?thesis by (simp add: bitmap_words_def unat_div)
qed

lemma kb_bytes: "unat ((ucast (k :: u16) :: u32) * 1024) = 1024 * unat k"
  using u16_less [of k] by (subst unat_mult_lem [THEN iffD1]) simp_all

text \<open>The whole initialisation, on the set of frames in use.\<close>

definition init_marks :: "raw_boot_info \<Rightarrow> u32 \<Rightarrow> u32 \<Rightarrow> pmm_state \<Rightarrow> pmm_state" where
  "init_marks raw kend highest_addr s =
     (let c = ucast (conv_kb raw) * 1024;
          s1 = unmark 0x500 c (mark 0 0x500 s);
          s2 = if c < 0xa0000 then mark c 0xa0000 s1 else s1;
          s3 = mark 0xf0000 0x100000 (mark 0xc8000 0xf0000 (mark 0xc0000 0xc8000 (mark 0xa0000 0xc0000 s2)));
          s4 = if ext_kb raw > 0 then unmark 0x100000 (0x100000 + ucast (ext_kb raw) * 1024) s3 else s3
      in mark (page_up kend) (page_up kend + (highest_addr div PAGE_SIZE + 31) div 32 * 4) s4)"

lemma bitmap_range:
  assumes "unat kend \<le> 0x40000000"
  shows "unat (page_up kend) = 4096 * bitmap_first kend"
    "unat (page_up kend + (highest_addr div PAGE_SIZE + 31) div 32 * 4) =
       4096 * bitmap_first kend + 4 * bitmap_words highest_addr"
    "bitmap_first kend \<le> 262145" "bitmap_words highest_addr \<le> 32768"
proof -
  have "unat (kend + 0xfff) = unat kend + 4095" using assms by (simp add: unat_plus_if')
  then show pu: "unat (page_up kend) = 4096 * bitmap_first kend"
    using unat_page_down [of "kend + 0xfff"] by (simp add: page_up_def page_down_def bitmap_first_def)
  show bf: "bitmap_first kend \<le> 262145" using assms by (simp add: bitmap_first_def)
  have "unat highest_addr div 4096 < 1048576" using u32_less [of highest_addr] by simp
  then show bw: "bitmap_words highest_addr \<le> 32768" by (simp add: bitmap_words_def)
  have "unat ((highest_addr div PAGE_SIZE + 31) div 32 * 4) = bitmap_words highest_addr * 4"
    using bw by (subst unat_mult_lem [THEN iffD1]) (simp_all add: bitmap_words_unat)
  with pu bf bw show "unat (page_up kend + (highest_addr div PAGE_SIZE + 31) div 32 * 4) =
       4096 * bitmap_first kend + 4 * bitmap_words highest_addr"
    by (simp add: unat_plus_if')
qed

lemma pmm_init_marks:
  assumes "unat kend \<le> 0x40000000"
  shows "pmm_init raw kend highest_addr s =
    Some (init_marks raw kend highest_addr
      (s\<lparr>binfo := boot_regions raw, bitmap_virt := phys_to_virt (page_up kend),
         bitmap_size := (highest_addr div PAGE_SIZE + 31) div 32\<rparr>))"
proof -
  have c: "unat ((ucast (conv_kb raw) :: u32) * 1024) \<le> 0xfffff000"
    "unat (0x100000 + (ucast (ext_kb raw) :: u32) * 1024) \<le> 0xfffff000"
    using u16_less [of "conv_kb raw"] u16_less [of "ext_kb raw"]
    by (simp_all add: kb_bytes unat_plus_if')
  have "unat (page_up kend + (highest_addr div PAGE_SIZE + 31) div 32 * 4) \<le> 0xfffff000"
    using bitmap_range(3) [OF assms] bitmap_range(4) [OF assms, of highest_addr]
    by (simp add: bitmap_range(2) [OF assms])
  then show ?thesis
    using c
    by (simp add: pmm_init_def boot_regions_def Let_def reserved_region usable_region page_loop_eq
      init_marks_def mark_def [of "page_up kend"])
qed


lemma init_marks_used:
  assumes n: "n < frame_limit" and conv: "unat (conv_kb raw) \<le> 640" and ext: "0 < ext_kb raw"
    and kend: "unat kend \<le> 0x40000000"
  shows "frame_used (init_marks raw kend highest_addr s) n \<longleftrightarrow>
    bitmap_first kend \<le> n \<and> n < bitmap_first kend + bitmap_frames highest_addr
    \<or> n = 0 \<or> unat (conv_kb raw) div 4 \<le> n \<and> n < 256
    \<or> 1024 + unat (ext_kb raw) \<le> 4 * n \<and> frame_used s n"
proof -
  define c where "c = (ucast (conv_kb raw) :: u32) * 1024"
  have c: "unat c = 1024 * unat (conv_kb raw)" by (simp add: c_def kb_bytes)
  have e: "unat (0x100000 + (ucast (ext_kb raw) :: u32) * 1024) = 1024 * (1024 + unat (ext_kb raw))"
    using u16_less [of "ext_kb raw"] by (simp add: kb_bytes unat_plus_if')
  note br = bitmap_range(1,3) [OF kend] bitmap_range(2,4) [OF kend, of highest_addr]
  have bits: "pgno (page_up kend) = bitmap_first kend"
    "page_count (page_up kend) (page_up kend + (highest_addr div PAGE_SIZE + 31) div 32 * 4) = bitmap_frames highest_addr"
    by (simp_all add: pgno_def page_count_def br bitmap_frames_def)
  let ?s1 = "unmark 0x500 c (mark 0 0x500 s)"
  have s1: "frame_used ?s1 n \<longleftrightarrow> n = 0 \<or> unat (conv_kb raw) \<le> 4 * n \<and> frame_used s n"
    using n c conv by (auto simp: mark_used unmark_used pgno_def page_count_def)
  define s2 where "s2 = (if c < 0xa0000 then mark c 0xa0000 ?s1 else ?s1)"
  have s2: "frame_used s2 n \<longleftrightarrow> n = 0 \<or> unat (conv_kb raw) div 4 \<le> n \<and> n < 160 \<or> 160 \<le> n \<and> frame_used s n"
  proof (cases "c < 0xa0000")
    case True
    then have "unat (conv_kb raw) < 640" by (simp add: word_less_nat_alt c)
    then have "pgno c + page_count c 0xa0000 = 160"
      by (simp add: pgno_def page_count_def c)
    moreover have "pgno c = unat (conv_kb raw) div 4" by (simp add: pgno_def c)
    ultimately show ?thesis
      using True n c conv s1 by (auto simp: s2_def mark_used)
  next
    case False
    then have "unat (conv_kb raw) = 640" using conv by (simp add: word_less_nat_alt c)
    with False show ?thesis using s1 by (auto simp: s2_def)
  qed
  let ?s3 = "mark 0xf0000 0x100000 (mark 0xc8000 0xf0000 (mark 0xc0000 0xc8000 (mark 0xa0000 0xc0000 s2)))"
  have s3: "frame_used ?s3 n \<longleftrightarrow> n = 0 \<or> unat (conv_kb raw) div 4 \<le> n \<and> n < 256 \<or> 256 \<le> n \<and> frame_used s n"
    using n conv s2 by (auto simp: mark_used pgno_def page_count_def)
  have s4: "frame_used (unmark 0x100000 (0x100000 + ucast (ext_kb raw) * 1024) ?s3) n \<longleftrightarrow>
     n = 0 \<or> unat (conv_kb raw) div 4 \<le> n \<and> n < 256 \<or> 1024 + unat (ext_kb raw) \<le> 4 * n \<and> frame_used s n"
    using n s3 e u16_less [of "ext_kb raw"] by (auto simp: unmark_used)
  show ?thesis
    using n ext s4 br
    by (simp add: init_marks_def Let_def mark_used bits flip: c_def s2_def)
qed


section \<open>Properties of the physical memory manager\<close>

text \<open>
  \<^verbatim>\<open>pmm_alloc_frame\<close> hands out the lowest free frame: it panics only when every frame of
  the bitmap is in use; otherwise the address returned is that of a frame that was free while
  all frames below it were in use, and afterwards exactly this frame has changed.
\<close>

theorem pmm_alloc_frame_first_fit:
  assumes "pmm_ok s"
  shows "case pmm_alloc_frame s of
      None \<Rightarrow> (\<forall>n < pmm_frames s. frame_used s n)
    | Some (a, s') \<Rightarrow> (\<exists>n < pmm_frames s. a = frame_addr n \<and> \<not> frame_used s n
        \<and> (\<forall>i < n. frame_used s i) \<and> bitmap_size s' = bitmap_size s
        \<and> (\<forall>m < frame_limit. frame_used s' m \<longleftrightarrow> m = n \<or> frame_used s m))"
proof (cases "pmm_alloc_frame s")
  case None
  then have "\<forall>n < pmm_frames s. frame_used s n" by (simp add: pmm_alloc_frame_None [OF assms])
  with None show ?thesis by simp
next
  case (Some r)
  obtain a s' where r: "r = (a, s')" by force
  with assms Some obtain n where n: "n < pmm_frames s" "\<not> frame_used s n" "\<forall>i < n. frame_used s i"
    "a = frame_addr n" "s' = set_frame a s"
    by (blast elim: pmm_alloc_frame_SomeE)
  moreover from n(1) pmm_total_frames(2) [OF assms] have "n < frame_limit" by simp
  ultimately show ?thesis
    using Some r by (auto simp: frame_simps)
qed

definition pmm_example :: pmm_state where
  "pmm_example = \<lparr>binfo = \<lparr>conv_mem = 0, ext_mem = 0, ebda_start = 0, regions = [], region_count = 0\<rparr>,
     phys_bitmap = (\<lambda>i. if i = 0 then 0xfffffff5 else 0xffff00ff), bitmap_virt = 0xc0200000, bitmap_size = 2\<rparr>"

lemma pmm_alloc_frame_first_fit_witness:
  "pmm_ok pmm_example \<and> (case pmm_alloc_frame pmm_example of
      None \<Rightarrow> (\<forall>n < pmm_frames pmm_example. frame_used pmm_example n)
    | Some (a, s') \<Rightarrow> (\<exists>n < pmm_frames pmm_example. a = frame_addr n \<and> \<not> frame_used pmm_example n
        \<and> (\<forall>i < n. frame_used pmm_example i) \<and> bitmap_size s' = bitmap_size pmm_example
        \<and> (\<forall>m < frame_limit. frame_used s' m \<longleftrightarrow> m = n \<or> frame_used pmm_example m)))"
proof -
  have ok: "pmm_ok pmm_example" by (simp add: pmm_ok_def pmm_example_def)
  show ?thesis using ok pmm_alloc_frame_first_fit [OF ok] by blast
qed

text \<open>
  C38. \<^verbatim>\<open>pmm_alloc_frames\<close> hands out the lowest run of \<open>count\<close> contiguous free frames: if it
  returns, the run was free, no lower run of that length was, and exactly its frames are in
  use in addition; it panics only when no such run exists (or when asked for no frames).
\<close>

theorem pmm_alloc_frames_first_fit:
  assumes "pmm_ok s"
  shows "case pmm_alloc_frames count s of
      None \<Rightarrow> count = 0 \<or> (\<forall>r. r + unat count \<le> pmm_frames s \<longrightarrow> \<not> free_run s r (unat count))
    | Some (a, s') \<Rightarrow> (\<exists>r. 0 < unat count \<and> r + unat count \<le> pmm_frames s \<and> a = frame_addr r
        \<and> free_run s r (unat count) \<and> (\<forall>q < r. \<not> free_run s q (unat count))
        \<and> (\<forall>n < frame_limit. frame_used s' n \<longleftrightarrow> r \<le> n \<and> n < r + unat count \<or> frame_used s n))"
proof (cases "pmm_alloc_frames count s")
  case None
  show ?thesis
  proof (cases "count = 0")
    case False
    then have "0 < unat count" by (simp add: unat_gt_0)
    with None pmm_alloc_frames_find [OF assms False]
    have "\<not> (free_run s q (unat count) \<and> q + unat count \<le> pmm_frames s)" if "q < pmm_frames s" for q
      using that by (auto simp: find_upt_None)
    then have "\<forall>r. r + unat count \<le> pmm_frames s \<longrightarrow> \<not> free_run s r (unat count)"
      using \<open>0 < unat count\<close> by (metis add_lessD1 less_add_same_cancel1 less_le_trans)
    with None show ?thesis by simp
  next
    case True
    with None show ?thesis by (simp only: option.case simp_thms)
  qed
next
  case (Some p)
  obtain a s' where p: "p = (a, s')" by force
  with Some assms obtain r where r: "0 < unat count" "r + unat count \<le> pmm_frames s"
    "free_run s r (unat count)" "\<forall>q < r. \<not> free_run s q (unat count)" "a = frame_addr r"
    "\<And>n. n < frame_limit \<Longrightarrow> frame_used s' n \<longleftrightarrow> r \<le> n \<and> n < r + unat count \<or> frame_used s n"
    by (blast elim: pmm_alloc_frames_SomeE)
  show ?thesis
    unfolding Some p option.case prod.case by (rule exI [of _ r]) (use r in simp)
qed

lemma pmm_alloc_frames_first_fit_witness:
  "pmm_ok pmm_example \<and> (case pmm_alloc_frames 8 pmm_example of
      None \<Rightarrow> (8 :: u32) = 0 \<or> (\<forall>r. r + unat (8 :: u32) \<le> pmm_frames pmm_example \<longrightarrow> \<not> free_run pmm_example r (unat (8 :: u32)))
    | Some (a, s') \<Rightarrow> (\<exists>r. 0 < unat (8 :: u32) \<and> r + unat (8 :: u32) \<le> pmm_frames pmm_example \<and> a = frame_addr r
        \<and> free_run pmm_example r (unat (8 :: u32)) \<and> (\<forall>q < r. \<not> free_run pmm_example q (unat (8 :: u32)))
        \<and> (\<forall>n < frame_limit. frame_used s' n \<longleftrightarrow> r \<le> n \<and> n < r + unat (8 :: u32) \<or> frame_used pmm_example n)))"
proof -
  have ok: "pmm_ok pmm_example" by (simp add: pmm_ok_def pmm_example_def)
  show ?thesis using ok pmm_alloc_frames_first_fit [OF ok, of 8] by blast
qed

text \<open>
  What \<^verbatim>\<open>pmm_init\<close> establishes, for a machine with at most 640 KiB of conventional and
  some extended memory: it terminates, and a frame is in use afterwards exactly when it holds
  part of the bitmap, is frame 0, lies between the end of conventional memory and 1 MiB, or
  lies beyond extended memory and its bit happened to be set in the memory the bitmap was
  placed in. In particular no frame of \<open>[1 MiB, kend)\<close>, where the kernel image is loaded, is
  reserved, and the bits of the last, partial bitmap word are never initialised.
\<close>

theorem pmm_init_frames:
  assumes "unat (conv_kb raw) \<le> 640" "0 < ext_kb raw" "unat kend \<le> 0x40000000"
  shows "\<exists>s'. pmm_init raw kend highest_addr s = Some s' \<and> pmm_ok s'
    \<and> unat (bitmap_size s') = bitmap_words highest_addr
    \<and> (\<forall>n < frame_limit. frame_used s' n \<longleftrightarrow>
        bitmap_first kend \<le> n \<and> n < bitmap_first kend + bitmap_frames highest_addr
        \<or> n = 0 \<or> unat (conv_kb raw) div 4 \<le> n \<and> n < 256
        \<or> 1024 + unat (ext_kb raw) \<le> 4 * n \<and> frame_used s n)"
proof -
  let ?s0 = "s\<lparr>binfo := boot_regions raw, bitmap_virt := phys_to_virt (page_up kend),
    bitmap_size := (highest_addr div PAGE_SIZE + 31) div 32\<rparr>"
  have init: "pmm_init raw kend highest_addr s = Some (init_marks raw kend highest_addr ?s0)"
    by (rule pmm_init_marks [OF assms(3)])
  have size: "bitmap_size (init_marks raw kend highest_addr ?s0) = (highest_addr div PAGE_SIZE + 31) div 32"
    by (simp add: init_marks_def Let_def)
  have "frame_used ?s0 n = frame_used s n" for n by (simp add: frame_used_def)
  then show ?thesis
    using init size init_marks_used [OF _ assms, of _ highest_addr ?s0] bitmap_range(4) [OF assms(3), of highest_addr]
    by (simp add: pmm_ok_def bitmap_words_unat)
qed

lemma pmm_init_frames_witness:
  "\<exists>s'. pmm_init \<lparr>conv_kb = 639, ext_kb = 15360, ebda_segment = 0x9fc0\<rparr> 0x140000 0x1000000 pmm_example = Some s'
    \<and> pmm_ok s' \<and> \<not> frame_used s' 256 \<and> frame_used s' 320 \<and> frame_used s' 159 \<and> \<not> frame_used s' 1"
  using pmm_init_frames [of "\<lparr>conv_kb = 639, ext_kb = 15360, ebda_segment = 0x9fc0\<rparr>" "0x140000" "0x1000000" pmm_example]
  by (auto simp: frame_limit_def bitmap_first_def bitmap_frames_def bitmap_words_def)

text \<open>
  The memory map never overflows its eight entries: \<^verbatim>\<open>region_count\<close> is the number of
  regions stored and is at most eight for every BIOS answer.
\<close>

theorem boot_regions_fit:
  "length (regions (boot_regions raw)) \<le> 8
   \<and> unat (region_count (boot_regions raw)) = length (regions (boot_regions raw))"
  by (simp add: boot_regions_def Let_def)

text \<open>
  Frames handed out by successive calls of \<^verbatim>\<open>pmm_alloc_frame\<close> are pairwise distinct and
  were free before, and releasing them all restores the set of frames in use.
\<close>

theorem pmm_alloc_many_release:
  assumes "pmm_ok s" "alloc_many pmm_alloc_frame k s = Some (as, s')"
  shows "distinct (map pgno as) \<and> (\<forall>a \<in> set as. \<not> frame_used s (pgno a))
    \<and> (\<forall>n < frame_limit. frame_used (fold pmm_free_frame as s') n = frame_used s n)"
  using pmm.alloc_many_used [OF assms] pmm.alloc_many_release [OF assms] by blast

lemma pmm_alloc_many_release_witness:
  "\<exists>as s'. alloc_many pmm_alloc_frame 2 pmm_example = Some (as, s')
    \<and> distinct (map pgno as) \<and> (\<forall>n < frame_limit. frame_used (fold pmm_free_frame as s') n = frame_used pmm_example n)"
proof -
  have ok: "pmm_ok pmm_example" by (simp add: pmm_ok_def pmm_example_def)
  have u: "frame_used pmm_example 0" "\<not> frame_used pmm_example 1" "\<not> frame_used pmm_example 3"
    "pmm_frames pmm_example = 64"
    by (simp_all add: frame_used_def pmm_example_def pmm_frames_def)
  then obtain a s1 where a: "pmm_alloc_frame pmm_example = Some (a, s1)"
    using pmm_alloc_frame_None [OF ok] by (metis (no_types) one_less_numeral_iff not_Some_eq semiring_norm(76) surj_pair)
  then obtain n where n: "\<forall>i < n. frame_used pmm_example i" "a = frame_addr n" "s1 = set_frame a pmm_example"
    using ok by (blast elim: pmm_alloc_frame_SomeE)
  with u(2) have "n \<le> 1" by (meson not_less)
  then have "pgno a \<noteq> 3" by (simp add: n(2) frame_limit_def)
  with u(3) have "\<not> frame_used s1 3" by (simp add: n(3) frame_simps frame_limit_def)
  then have "pmm_alloc_frame s1 \<noteq> None"
    using u(4) ok by (subst pmm_alloc_frame_None) (auto simp: n(3) intro: exI [of _ 3])
  with a have "alloc_many pmm_alloc_frame 2 pmm_example \<noteq> None"
    by (auto simp: numeral_2_eq_2)
  then obtain as s' where "alloc_many pmm_alloc_frame 2 pmm_example = Some (as, s')" by auto
  with pmm_alloc_many_release [OF ok this] show ?thesis by blast
qed

end
