(* ===== verification/Kheap.thy ===== *)
theory Kheap
  imports Pmm
begin

text \<open>
  The kernel heap of \<^verbatim>\<open>src/src/mm/heap.c\<close>: a first-fit allocator over a singly linked list
  of block headers that lie inside the region they describe. The headers are kept in an
  explicit store from addresses to headers; the payload bytes are not part of this component.
  The allocator is refined to a function on the list of blocks (size and free flag) that tile
  the region, from which the properties of \<^verbatim>\<open>kmalloc\<close> and \<^verbatim>\<open>kfree\<close> follow.
\<close>

section \<open>State and operations\<close>

record block_header =
  bh_size :: u32
  bh_next :: u32
  bh_free :: u8

abbreviation BLOCK_HEADER_SIZE :: u32 where "BLOCK_HEADER_SIZE \<equiv> 12"

record heap_state =
  hdrs :: "u32 \<Rightarrow> block_header"
  free_list :: u32
  heap_start :: u32
  heap_end :: u32
  heap_start_virt :: u32

definition set_hdr :: "u32 \<Rightarrow> block_header \<Rightarrow> heap_state \<Rightarrow> heap_state" where
  "set_hdr a b h = h\<lparr>hdrs := (hdrs h)(a := b)\<rparr>"

definition heap_init :: "u32 \<Rightarrow> pmm_state \<Rightarrow> heap_state \<Rightarrow> (pmm_state \<times> heap_state) option" where
  "heap_init num_frames pm h =
     (case pmm_alloc_frames num_frames pm of
        None \<Rightarrow> None
      | Some (start, pm') \<Rightarrow>
          (let fl = phys_to_virt start;
               sz = num_frames * PAGE_SIZE - BLOCK_HEADER_SIZE;
               h1 = h\<lparr>heap_start := start, heap_start_virt := phys_to_virt start, free_list := fl\<rparr>;
               h2 = set_hdr fl \<lparr>bh_size = sz, bh_next = 0, bh_free = 1\<rparr> h1
           in Some (pm', h2\<lparr>heap_end := fl + sz\<rparr>)))"

text \<open>
  The walk of \<^verbatim>\<open>kmalloc\<close> along the list; it does not end on a cyclic list (\<open>None\<close>). The
  result 0 is the null pointer.
\<close>

partial_function (option) kmalloc_loop :: "u32 \<Rightarrow> u32 \<Rightarrow> heap_state \<Rightarrow> (u32 \<times> heap_state) option" where
  "kmalloc_loop bytes cur h =
     (if cur = 0 then Some (0, h)
      else if bh_free (hdrs h cur) \<noteq> 0 \<and> bytes \<le> bh_size (hdrs h cur) then
        (let c = hdrs h cur;
             h1 = (if bytes + BLOCK_HEADER_SIZE + 4 \<le> bh_size c
                   then (let new_block = cur + BLOCK_HEADER_SIZE + bytes;
                             h' = set_hdr new_block
                               \<lparr>bh_size = bh_size c - bytes - BLOCK_HEADER_SIZE,
                                bh_next = bh_next c, bh_free = 1\<rparr> h
                         in set_hdr cur ((hdrs h' cur)\<lparr>bh_size := bytes, bh_next := new_block\<rparr>) h')
                   else h)
         in Some (cur + BLOCK_HEADER_SIZE, set_hdr cur ((hdrs h1 cur)\<lparr>bh_free := 0\<rparr>) h1))
      else kmalloc_loop bytes (bh_next (hdrs h cur)) h)"

definition kmalloc :: "u32 \<Rightarrow> heap_state \<Rightarrow> (u32 \<times> heap_state) option" where
  "kmalloc bytes h = kmalloc_loop ((bytes + 3) AND NOT 3) (free_list h) h"

text \<open>The branch \<^verbatim>\<open>kfree\<close> takes; the second and third print a warning.\<close>

datatype kfree_result = Kfree_null | Kfree_outside | Kfree_double | Kfree_done

partial_function (option) kfree_loop :: "u32 \<Rightarrow> heap_state \<Rightarrow> heap_state option" where
  "kfree_loop cur h =
     (if cur \<noteq> 0 \<and> bh_next (hdrs h cur) \<noteq> 0 then
        (let c = hdrs h cur; nxt = bh_next c; n = hdrs h nxt in
         if bh_free c \<noteq> 0 \<and> bh_free n \<noteq> 0 \<and> cur + BLOCK_HEADER_SIZE + bh_size c = nxt
         then kfree_loop cur
           (set_hdr cur (c\<lparr>bh_size := bh_size c + (BLOCK_HEADER_SIZE + bh_size n), bh_next := bh_next n\<rparr>) h)
         else kfree_loop nxt h)
      else Some h)"

definition kfree :: "u32 \<Rightarrow> heap_state \<Rightarrow> (kfree_result \<times> heap_state) option" where
  "kfree ptr h =
     (if ptr = 0 then Some (Kfree_null, h)
      else if ptr < heap_start_virt h \<or> heap_end h \<le> ptr then Some (Kfree_outside, h)
      else
        (let block = ptr - BLOCK_HEADER_SIZE in
         if bh_free (hdrs h block) \<noteq> 0 then Some (Kfree_double, h)
         else (case kfree_loop (free_list h) (set_hdr block ((hdrs h block)\<lparr>bh_free := 1\<rparr>) h) of
                 None \<Rightarrow> None
               | Some h' \<Rightarrow> Some (Kfree_done, h'))))"

section \<open>Blocks that tile a region\<close>

text \<open>
  The abstract heap is the list of its blocks in address order, each a payload size and a
  free flag. \<open>tiles m p bs\<close> says that the headers in \<open>m\<close> form the linked list \<open>bs\<close> laid out
  without gaps from address \<open>p\<close>, every block ending below \<open>2 ^ 32\<close>.
\<close>

type_synonym blocks = "(nat \<times> bool) list"

fun span :: "blocks \<Rightarrow> nat" where
  "span [] = 0"
| "span ((sz, fr) # bs) = 12 + sz + span bs"

definition block_ptr :: "nat \<Rightarrow> blocks \<Rightarrow> u32" where
  "block_ptr p bs = (if bs = [] then 0 else of_nat p)"

fun tiles :: "(u32 \<Rightarrow> block_header) \<Rightarrow> nat \<Rightarrow> blocks \<Rightarrow> bool" where
  "tiles m p [] \<longleftrightarrow> True"
| "tiles m p ((sz, fr) # bs) \<longleftrightarrow> 4 \<le> p \<and> p + 12 + sz < 2 ^ 32
     \<and> bh_size (m (of_nat p)) = of_nat sz \<and> (bh_free (m (of_nat p)) \<noteq> 0) = fr
     \<and> bh_next (m (of_nat p)) = block_ptr (p + 12 + sz) bs \<and> tiles m (p + 12 + sz) bs"

text \<open>First fit with splitting, on the list: the offset of the payload and the new list.\<close>

fun alloc_blocks :: "nat \<Rightarrow> blocks \<Rightarrow> (nat \<times> blocks) option" where
  "alloc_blocks n [] = None"
| "alloc_blocks n ((sz, fr) # bs) =
     (if fr \<and> n \<le> sz then
        (if n + 16 \<le> sz then Some (12, (n, False) # (sz - n - 12, True) # bs)
         else Some (12, (sz, False) # bs))
      else map_option (\<lambda>(off, bs'). (12 + sz + off, (sz, fr) # bs')) (alloc_blocks n bs))"

text \<open>Merging of neighbouring free blocks.\<close>

fun coalesce :: "blocks \<Rightarrow> blocks" where
  "coalesce ((a, True) # (b, True) # bs) = coalesce ((a + 12 + b, True) # bs)"
| "coalesce (x # bs) = x # coalesce bs"
| "coalesce [] = []"

lemmas coalesce_induct = coalesce.induct [case_names merge allocated single blocked empty]

lemma tiles_upd [simp]:
  "a < p \<Longrightarrow> a < 2 ^ 32 \<Longrightarrow> tiles (m(of_nat a := x)) p bs = tiles m p bs"
proof (induction bs arbitrary: p)
  case Nil
  then show ?case by simp
next
  case (Cons b bs)
  obtain sz fr where b: "b = (sz, fr)" by force
  show ?case
  proof (cases "p + 12 + sz < 2 ^ 32")
    case True
    with Cons.prems have "(of_nat p :: u32) \<noteq> of_nat a"
      by (subst of_nat_u32_eq) auto
    with Cons b show ?thesis by simp
  next
    case False
    with b show ?thesis by simp
  qed
qed

lemma block_ptr_nonzero: "tiles m p (b # bs) \<Longrightarrow> block_ptr p (b # bs) = of_nat p \<and> (of_nat p :: u32) \<noteq> 0"
  using of_nat_u32_eq [of p 0] by (cases b) (auto simp: block_ptr_def)

lemma kmalloc_loop_tiles:
  assumes "tiles (hdrs h) p bs"
  shows "case alloc_blocks (unat bytes) bs of
      None \<Rightarrow> kmalloc_loop bytes (block_ptr p bs) h = Some (0, h)
    | Some (off, bs') \<Rightarrow> (\<exists>m. kmalloc_loop bytes (block_ptr p bs) h = Some (of_nat (p + off), h\<lparr>hdrs := m\<rparr>)
        \<and> tiles m p bs' \<and> (\<forall>a < p. m (of_nat a) = hdrs h (of_nat a)))"
  using assms
proof (induction bs arbitrary: p)
  case Nil
  then show ?case by (simp add: block_ptr_def kmalloc_loop.simps)
next
  case (Cons b bs)
  obtain sz fr where b: "b = (sz, fr)" by force
  let ?c = "hdrs h (of_nat p)"
  from Cons.prems have p: "4 \<le> p" "p + 12 + sz < 2 ^ 32" and c: "bh_size ?c = of_nat sz" "(bh_free ?c \<noteq> 0) = fr"
    "bh_next ?c = block_ptr (p + 12 + sz) bs" and t: "tiles (hdrs h) (p + 12 + sz) bs"
    by (auto simp: b)
  from block_ptr_nonzero [OF Cons.prems] have ptr: "block_ptr p (b # bs) = of_nat p" "(of_nat p :: u32) \<noteq> 0"
    by simp_all
  have usz: "unat (of_nat sz :: u32) = sz" using p by simp
  have same: "(of_nat a :: u32) \<noteq> of_nat p" if "a < p" for a
    using that p by (subst of_nat_u32_eq) auto
  have fits: "bytes \<le> bh_size ?c \<longleftrightarrow> unat bytes \<le> sz" by (simp add: c word_le_nat_alt usz)
  show ?case
  proof (cases "fr \<and> unat bytes \<le> sz")
    case False
    with fits c(2) have "\<not> (bh_free ?c \<noteq> 0 \<and> bytes \<le> bh_size ?c)" by auto
    then have step: "kmalloc_loop bytes (of_nat p) h = kmalloc_loop bytes (block_ptr (p + 12 + sz) bs) h"
      using ptr(2) by (subst kmalloc_loop.simps) (auto simp: c(3))
    have ab: "alloc_blocks (unat bytes) (b # bs) =
      map_option (\<lambda>(off, bs'). (12 + sz + off, (sz, fr) # bs')) (alloc_blocks (unat bytes) bs)"
      by (simp only: b alloc_blocks.simps if_not_P [OF False])
    show ?thesis
    proof (cases "alloc_blocks (unat bytes) bs")
      case None
      with Cons.IH [OF t] step ptr(1) show ?thesis by (simp add: ab)
    next
      case (Some r)
      obtain off bs' where r: "r = (off, bs')" by force
      with Cons.IH [OF t] Some obtain m where
        m: "kmalloc_loop bytes (block_ptr (p + 12 + sz) bs) h = Some (of_nat (p + 12 + sz + off), h\<lparr>hdrs := m\<rparr>)"
          "tiles m (p + 12 + sz) bs'" "\<forall>a < p + 12 + sz. m (of_nat a) = hdrs h (of_nat a)"
        by auto
      have bp: "block_ptr (p + 12 + sz) bs' = block_ptr (p + 12 + sz) bs"
        using Some r by (cases bs; cases "hd bs") (auto simp: block_ptr_def split: if_splits)
      have "m (of_nat p) = ?c" using m(3) by simp
      with m(2) p c bp have tm: "tiles m p ((sz, fr) # bs')" by simp
      have "kmalloc_loop bytes (block_ptr p (b # bs)) h = Some (of_nat (p + (12 + sz + off)), h\<lparr>hdrs := m\<rparr>)"
        using m(1) step ptr(1) by (simp add: add.assoc)
      with tm m(3) show ?thesis
        unfolding ab Some r by auto
    qed
  next
    case True
    then have h: "bh_free ?c \<noteq> 0" "bytes \<le> bh_size ?c" using fits c(2) by auto
    from True p have nb: "unat bytes + 16 < 2 ^ 32" by simp
    then have u16: "unat (bytes + 12 + 4) = unat bytes + 16" by (simp add: unat_plus_if' add.assoc)
    then have split: "bytes + 12 + 4 \<le> bh_size ?c \<longleftrightarrow> unat bytes + 16 \<le> sz"
      by (simp add: c word_le_nat_alt usz)
    show ?thesis
    proof (cases "unat bytes + 16 \<le> sz")
      case False
      define m where "m = (hdrs h)(of_nat p := ?c\<lparr>bh_free := 0\<rparr>)"
      have "kmalloc_loop bytes (of_nat p) h = Some (of_nat (p + 12), h\<lparr>hdrs := m\<rparr>)"
        using ptr(2) h split False
        by (subst kmalloc_loop.simps) (simp add: set_hdr_def m_def Let_def)
      moreover have "tiles m p ((sz, False) # bs)"
        using p c t by (simp add: m_def)
      ultimately show ?thesis
        using True False ptr(1) same by (auto simp: b m_def)
    next
      case large: True
      define q where "q = p + 12 + unat bytes"
      have q: "of_nat q = of_nat p + 12 + bytes" "(of_nat q :: u32) \<noteq> of_nat p" "q < 2 ^ 32"
        using p large of_nat_u32_eq [of q p] by (auto simp: q_def)
      define m where "m = (hdrs h)(of_nat q := \<lparr>bh_size = bh_size ?c - bytes - 12, bh_next = bh_next ?c, bh_free = 1\<rparr>,
        of_nat p := ?c\<lparr>bh_size := bytes, bh_next := of_nat q, bh_free := 0\<rparr>)"
      have "kmalloc_loop bytes (of_nat p) h = Some (of_nat (p + 12), h\<lparr>hdrs := m\<rparr>)"
        using ptr(2) h split large q(2)
        by (subst kmalloc_loop.simps) (simp add: set_hdr_def m_def Let_def q(1) [symmetric] fun_upd_twist)
      moreover have "tiles m p ((unat bytes, False) # (sz - unat bytes - 12, True) # bs)"
      proof -
        have "p + 12 + sz = q + 12 + (sz - unat bytes - 12)" using large by (simp add: q_def)
        moreover have "(of_nat sz - bytes - 12 :: u32) = of_nat (sz - unat bytes - 12)"
          using large by (simp add: of_nat_diff)
        moreover have "tiles m (p + 12 + sz) bs"
        proof -
          have "q < p + 12 + sz" "p < p + 12 + sz" "p < 2 ^ 32" using large p by (simp_all add: q_def)
          then show ?thesis using t q(3) by (simp only: m_def tiles_upd)
        qed
        ultimately show ?thesis
          using p q c large by (simp add: m_def block_ptr_def q_def [symmetric])
      qed
      moreover have "m (of_nat a) = hdrs h (of_nat a)" if "a < p" for a
        using same [OF that] that q(3) of_nat_u32_eq [of a q] by (auto simp: m_def q_def)
      ultimately show ?thesis
        using True large ptr(1) by (auto simp: b)
    qed
  qed
qed


text \<open>A pair of blocks that is not merged: the loop goes on with the next block.\<close>

lemma coalesce_Nil [simp]: "coalesce bs = [] \<longleftrightarrow> bs = []"
  by (induction bs rule: coalesce_induct) auto

lemma kfree_loop_keep:
  assumes "tiles (hdrs h) p ((a, fr) # bs)" "\<not> (fr \<and> bs \<noteq> [] \<and> snd (hd bs))"
    and IH: "\<exists>m. kfree_loop (block_ptr (p + 12 + a) bs) h = Some (h\<lparr>hdrs := m\<rparr>)
      \<and> tiles m (p + 12 + a) (coalesce bs) \<and> (\<forall>x < p + 12 + a. m (of_nat x) = hdrs h (of_nat x))"
  shows "\<exists>m. kfree_loop (block_ptr p ((a, fr) # bs)) h = Some (h\<lparr>hdrs := m\<rparr>)
    \<and> tiles m p ((a, fr) # coalesce bs) \<and> (\<forall>x < p. m (of_nat x) = hdrs h (of_nat x))"
proof -
  let ?c = "hdrs h (of_nat p)"
  from assms(1) have c: "bh_size ?c = of_nat a" "(bh_free ?c \<noteq> 0) = fr"
    "bh_next ?c = block_ptr (p + 12 + a) bs" "4 \<le> p" "p + 12 + a < 2 ^ 32" and t: "tiles (hdrs h) (p + 12 + a) bs"
    by auto
  have "kfree_loop (of_nat p) h = kfree_loop (block_ptr (p + 12 + a) bs) h"
  proof (cases bs)
    case Nil
    then have "bh_next ?c = 0" using c(3) by (simp add: block_ptr_def)
    then show ?thesis using Nil by (simp add: kfree_loop.simps block_ptr_def)
  next
    case (Cons y ys)
    then have "\<not> (bh_free ?c \<noteq> 0 \<and> bh_free (hdrs h (bh_next ?c)) \<noteq> 0)"
      using assms(2) c t by (cases y) (auto simp: block_ptr_def)
    moreover have "(of_nat p :: u32) \<noteq> 0" "bh_next ?c \<noteq> 0"
      using c(4,5) of_nat_u32_eq [of p 0] block_ptr_nonzero [of "hdrs h" "p + 12 + a" y ys] t
      unfolding c(3) Cons by simp_all
    ultimately show ?thesis
      by (subst kfree_loop.simps) (auto simp: Let_def c(3))
  qed
  with IH c t show ?thesis by (auto simp: block_ptr_def)
qed

lemma kfree_loop_tiles:
  assumes "tiles (hdrs h) p bs"
  shows "\<exists>m. kfree_loop (block_ptr p bs) h = Some (h\<lparr>hdrs := m\<rparr>) \<and> tiles m p (coalesce bs)
    \<and> (\<forall>a < p. m (of_nat a) = hdrs h (of_nat a))"
  using assms
proof (induction bs arbitrary: p h rule: coalesce_induct)
  case (merge a b bs)
  let ?c = "hdrs h (of_nat p)" and ?q = "p + 12 + a"
  let ?n = "hdrs h (of_nat ?q)"
  from merge.prems have p: "4 \<le> p" "?q + 12 + b < 2 ^ 32" and c: "bh_size ?c = of_nat a" "bh_free ?c \<noteq> 0"
    "bh_next ?c = of_nat ?q" and n: "bh_size ?n = of_nat b" "bh_free ?n \<noteq> 0"
    "bh_next ?n = block_ptr (?q + 12 + b) bs" and t: "tiles (hdrs h) (?q + 12 + b) bs"
    by (auto simp: block_ptr_def)
  have nz: "(of_nat p :: u32) \<noteq> 0" "(of_nat ?q :: u32) \<noteq> 0"
    using p of_nat_u32_eq [of p 0] of_nat_u32_eq [of ?q 0] by auto
  define h1 where "h1 = set_hdr (of_nat p)
    (?c\<lparr>bh_size := bh_size ?c + (12 + bh_size ?n), bh_next := bh_next ?n\<rparr>) h"
  have adj: "of_nat p + 12 + bh_size ?c = of_nat ?q" by (simp add: c)
  have step: "kfree_loop (of_nat p) h = kfree_loop (of_nat p) h1"
    using nz c(2,3) n(2) adj by (subst kfree_loop.simps) (simp add: Let_def h1_def)
  have "tiles (hdrs h1) p ((a + 12 + b, True) # bs)"
  proof -
    have "tiles (hdrs h1) (?q + 12 + b) bs"
      using t p by (simp add: h1_def set_hdr_def)
    then show ?thesis
      using p c n by (simp add: h1_def set_hdr_def add.assoc)
  qed
  from merge.IH [OF this] obtain m where m: "kfree_loop (of_nat p) h1 = Some (h1\<lparr>hdrs := m\<rparr>)"
    "tiles m p (coalesce ((a + 12 + b, True) # bs))" "\<forall>a < p. m (of_nat a) = hdrs h1 (of_nat a)"
    by (auto simp: block_ptr_def)
  have "hdrs h1 (of_nat x) = hdrs h (of_nat x)" if "x < p" for x
    using that p of_nat_u32_eq [of x p] by (simp add: h1_def set_hdr_def)
  moreover have "h1\<lparr>hdrs := m\<rparr> = h\<lparr>hdrs := m\<rparr>" by (simp add: h1_def set_hdr_def)
  ultimately show ?case
    using m step by (auto simp: block_ptr_def)
next
  case (allocated a bs)
  show ?case
    unfolding coalesce.simps by (rule kfree_loop_keep) (use allocated in \<open>auto simp: block_ptr_def kfree_loop.simps\<close>)
next
  case (single x)
  obtain a fr where x: "x = (a, fr)" by force
  have "\<exists>m. kfree_loop (block_ptr p ((a, fr) # [])) h = Some (h\<lparr>hdrs := m\<rparr>)
    \<and> tiles m p ((a, fr) # coalesce []) \<and> (\<forall>y < p. m (of_nat y) = hdrs h (of_nat y))"
    by (rule kfree_loop_keep) (use single x in \<open>auto simp: block_ptr_def kfree_loop.simps\<close>)
  then show ?case by (simp add: x)
next
  case (blocked x b bs)
  obtain a fr where x: "x = (a, fr)" by force
  have "\<exists>m. kfree_loop (block_ptr p ((a, fr) # (b, False) # bs)) h = Some (h\<lparr>hdrs := m\<rparr>)
    \<and> tiles m p ((a, fr) # coalesce ((b, False) # bs)) \<and> (\<forall>y < p. m (of_nat y) = hdrs h (of_nat y))"
  proof (rule kfree_loop_keep)
    show "tiles (hdrs h) p ((a, fr) # (b, False) # bs)" using blocked.prems by (simp only: x)
    then have t: "tiles (hdrs h) (p + 12 + a) ((b, False) # bs)" by simp
    show "\<exists>m. kfree_loop (block_ptr (p + 12 + a) ((b, False) # bs)) h = Some (h\<lparr>hdrs := m\<rparr>)
      \<and> tiles m (p + 12 + a) (coalesce ((b, False) # bs)) \<and> (\<forall>x < p + 12 + a. m (of_nat x) = hdrs h (of_nat x))"
      by (rule blocked.IH [OF t])
  qed simp
  then show ?case by (simp add: x)
next
  case empty
  then show ?case by (auto simp: block_ptr_def kfree_loop.simps intro!: exI [of _ "hdrs h"])
qed

section \<open>The well-formed heap\<close>

text \<open>
  \<open>heap_ok h bs\<close>: the heap is the region that the blocks \<open>bs\<close> tile. \<^verbatim>\<open>heap_end\<close> is the value
  the code keeps, which is one header short of the end of the region.
\<close>

definition heap_ok :: "heap_state \<Rightarrow> blocks \<Rightarrow> bool" where
  "heap_ok h bs \<longleftrightarrow> bs \<noteq> [] \<and> tiles (hdrs h) (unat (free_list h)) bs
     \<and> heap_start_virt h = free_list h \<and> unat (heap_end h) + 12 = unat (free_list h) + span bs"

text \<open>The allocated payloads: address and size.\<close>

fun payloads :: "nat \<Rightarrow> blocks \<Rightarrow> (nat \<times> nat) set" where
  "payloads p [] = {}"
| "payloads p ((sz, fr) # bs) = (if fr then {} else {(p + 12, sz)}) \<union> payloads (p + 12 + sz) bs"

lemma tiles_span: "tiles m p bs \<Longrightarrow> bs \<noteq> [] \<Longrightarrow> p + span bs < 2 ^ 32"
proof (induction bs arbitrary: p)
  case (Cons b bs)
  then show ?case by (cases b; cases "bs = []") (force simp: add.assoc)+
qed simp

lemma tiles_unique: "tiles m p bs \<Longrightarrow> tiles m p cs \<Longrightarrow> (bs = [] \<longleftrightarrow> cs = []) \<Longrightarrow> bs = cs"
proof (induction bs arbitrary: p cs)
  case Nil
  then show ?case by simp
next
  case (Cons b bs)
  then obtain c cs' where cs: "cs = c # cs'" by (cases cs) auto
  obtain sz fr sz' fr' where b: "b = (sz, fr)" and c: "c = (sz', fr')" by force
  from Cons.prems have "(of_nat sz :: u32) = of_nat sz'" "sz < 4294967296" "sz' < 4294967296" "fr = fr'"
    by (auto simp: cs b c)
  then have eq: "sz = sz'" "fr = fr'" by (auto simp: of_nat_u32_eq)
  have "block_ptr (p + 12 + sz) bs = block_ptr (p + 12 + sz) cs'"
    and t: "tiles m (p + 12 + sz) bs" "tiles m (p + 12 + sz) cs'"
    using Cons.prems eq by (auto simp: cs b c)
  then have "bs = [] \<longleftrightarrow> cs' = []"
    using block_ptr_nonzero [of m "p + 12 + sz"] by (cases bs; cases cs') (auto simp: block_ptr_def)
  with Cons.IH [OF t] eq show ?case by (simp add: cs b c)
qed

lemma heap_ok_unique: "heap_ok h bs \<Longrightarrow> heap_ok h cs \<Longrightarrow> bs = cs"
  unfolding heap_ok_def using tiles_unique by blast

lemma span_append [simp]: "span (bs @ cs) = span bs + span cs"
  by (induction bs) auto

lemma payloads_append [simp]: "payloads p (bs @ cs) = payloads p bs \<union> payloads (p + span bs) cs"
  by (induction bs arbitrary: p) (auto simp: add.assoc)

lemma span_coalesce [simp]: "span (coalesce bs) = span bs"
  by (induction bs rule: coalesce_induct) auto

lemma payloads_coalesce [simp]: "payloads p (coalesce bs) = payloads p bs"
proof (induction bs arbitrary: p rule: coalesce_induct)
  case (merge a b bs)
  then show ?case by (simp add: add.assoc)
next
  case (blocked x b bs)
  show ?case by (cases x) (use blocked [of "p + 12 + fst x"] in simp)
qed auto

lemma alloc_blocks_span: "alloc_blocks n bs = Some (off, bs') \<Longrightarrow> span bs' = span bs \<and> bs' \<noteq> []"
proof (induction bs arbitrary: off bs')
  case (Cons b bs)
  then show ?case by (cases b) (auto split: if_splits)
qed simp

lemma payload_range: "x \<in> payloads p bs \<Longrightarrow> p + 12 \<le> fst x \<and> fst x + snd x \<le> p + span bs"
  by (induction bs arbitrary: p) (fastforce split: if_splits)+

lemma payloads_disjoint:
  "x \<in> payloads p bs \<Longrightarrow> y \<in> payloads p bs \<Longrightarrow> x \<noteq> y \<Longrightarrow>
    fst x + snd x + 12 \<le> fst y \<or> fst y + snd y + 12 \<le> fst x"
proof (induction bs arbitrary: p)
  case (Cons b bs)
  obtain sz fr where "b = (sz, fr)" by force
  with Cons payload_range [of _ "p + 12 + sz" bs] show ?case
    by (fastforce split: if_splits)
qed simp

lemma alloc_blocks_payloads:
  "alloc_blocks n bs = Some (off, bs') \<Longrightarrow>
    \<exists>sz \<ge> n. payloads p bs' = insert (p + off, sz) (payloads p bs) \<and> (\<forall>k. (p + off, k) \<notin> payloads p bs)
      \<and> 12 \<le> off \<and> off + sz \<le> span bs"
proof (induction bs arbitrary: p off bs')
  case Nil
  then show ?case by simp
next
  case (Cons b bs)
  obtain sz fr where b: "b = (sz, fr)" by force
  note rng = payload_range [of _ "p + 12 + sz" bs]
  show ?case
  proof (cases "fr \<and> n \<le> sz")
    case True
    have "(p + 12, k) \<notin> payloads (p + 12 + sz) bs" for k using rng by fastforce
    with True Cons.prems show ?thesis
      by (auto simp: b add.assoc split: if_splits intro: exI [of _ n] exI [of _ sz])
  next
    case False
    with Cons.prems obtain o1 bs1 where o1: "alloc_blocks n bs = Some (o1, bs1)" "off = 12 + sz + o1" "bs' = (sz, fr) # bs1"
      by (auto simp: b split: if_splits)
    from Cons.IH [OF o1(1), of "p + 12 + sz"] show ?thesis
      by (auto simp: b o1 add.assoc)
  qed
qed

lemma alloc_blocks_None: "alloc_blocks n bs = None \<longleftrightarrow> (\<forall>(sz, fr) \<in> set bs. fr \<longrightarrow> sz < n)"
  by (induction n bs rule: alloc_blocks.induct) (auto simp: not_le)


section \<open>The operations on the well-formed heap\<close>

definition kmalloc_round :: "u32 \<Rightarrow> nat" where
  "kmalloc_round bytes = unat ((bytes + 3) AND NOT 3)"

lemma kmalloc_round_eq:
  "unat bytes \<le> 0xfffffffc \<Longrightarrow> kmalloc_round bytes = 4 * ((unat bytes + 3) div 4)"
proof -
  assume b: "unat bytes \<le> 0xfffffffc"
  have m: "(3 :: u32) = mask 2" by (simp add: mask_eq_exp_minus_1)
  have "(bytes + 3) AND NOT 3 = push_bit 2 (drop_bit 2 (bytes + 3))"
    by (simp only: m and_not_mask)
  moreover have "unat (bytes + 3) = unat bytes + 3" using b by (simp add: unat_plus_if')
  ultimately show ?thesis using push_drop_div [of 2 "bytes + 3"] by (simp add: kmalloc_round_def)
qed

lemma kmalloc_round_ge: "unat bytes \<le> 0xfffffffc \<Longrightarrow> unat bytes \<le> kmalloc_round bytes"
  by (simp add: kmalloc_round_eq)

lemma heap_ok_ptr: "heap_ok h bs \<Longrightarrow> block_ptr (unat (free_list h)) bs = free_list h"
  by (simp add: heap_ok_def block_ptr_def)

lemma kmalloc_refines:
  assumes "heap_ok h bs"
  shows "case alloc_blocks (kmalloc_round bytes) bs of
      None \<Rightarrow> kmalloc bytes h = Some (0, h)
    | Some (off, bs') \<Rightarrow> (\<exists>h'. kmalloc bytes h = Some (free_list h + of_nat off, h') \<and> heap_ok h' bs'
        \<and> free_list h' = free_list h)"
proof -
  let ?n = "(bytes + 3) AND NOT 3"
  have t: "tiles (hdrs h) (unat (free_list h)) bs" using assms by (simp add: heap_ok_def)
  note k = kmalloc_loop_tiles [OF t, of ?n, unfolded heap_ok_ptr [OF assms], folded kmalloc_round_def kmalloc_def]
  show ?thesis
  proof (cases "alloc_blocks (kmalloc_round bytes) bs")
    case None
    with k show ?thesis by simp
  next
    case (Some r)
    obtain off bs' where r: "r = (off, bs')" by force
    with k Some obtain m where m: "kmalloc bytes h = Some (of_nat (unat (free_list h) + off), h\<lparr>hdrs := m\<rparr>)"
      "tiles m (unat (free_list h)) bs'" by auto
    have "heap_ok (h\<lparr>hdrs := m\<rparr>) bs'"
      using assms m(2) alloc_blocks_span [of _ bs off bs'] Some r by (simp add: heap_ok_def)
    with m Some r show ?thesis by (auto simp: of_nat_add)
  qed
qed

lemma tiles_set_free:
  assumes "tiles m p (bs1 @ (sz, fr) # bs2)" and "a = of_nat (p + span bs1)"
  shows "(bh_free (m a) \<noteq> 0) = fr \<and> tiles (m(a := (m a)\<lparr>bh_free := 1\<rparr>)) p (bs1 @ (sz, True) # bs2)"
  using assms
proof (induction bs1 arbitrary: p)
  case Nil
  then have t: "tiles (m(a := x)) (p + 12 + sz) bs2" for x by simp
  show ?case using Nil by (simp add: t del: fun_upd_apply) (simp add: fun_upd_same)
next
  case (Cons b bs1)
  obtain s1 f1 where b: "b = (s1, f1)" by force
  let ?q = "p + 12 + s1"
  have t: "tiles m ?q (bs1 @ (sz, fr) # bs2)" using Cons.prems(1) by (simp add: b)
  have "?q + span (bs1 @ (sz, fr) # bs2) < 2 ^ 32" using tiles_span [OF t] by simp
  then have "(of_nat p :: u32) \<noteq> of_nat (?q + span bs1)"
    by (subst of_nat_u32_eq) auto
  moreover have a: "a = of_nat (?q + span bs1)" using Cons.prems(2) by (simp add: b add.assoc)
  moreover note Cons.IH [OF t a]
  moreover have "block_ptr ?q (bs1 @ (sz, fr) # bs2) = block_ptr ?q (bs1 @ (sz, True) # bs2)"
    by (simp add: block_ptr_def)
  ultimately show ?case
    using Cons.prems(1) by (auto simp: b simp del: of_nat_add)
qed

lemma kfree_refines:
  assumes ok: "heap_ok h (bs1 @ (sz, False) # bs2)"
    and ptr: "unat ptr = unat (free_list h) + span bs1 + 12" "ptr < heap_end h"
  shows "\<exists>h'. kfree ptr h = Some (Kfree_done, h') \<and> heap_ok h' (coalesce (bs1 @ (sz, True) # bs2))
    \<and> free_list h' = free_list h"
proof -
  let ?p = "unat (free_list h)" and ?bs = "bs1 @ (sz, True) # bs2"
  define a :: u32 where "a = of_nat (?p + span bs1)"
  have t: "tiles (hdrs h) ?p (bs1 @ (sz, False) # bs2)" and virt: "heap_start_virt h = free_list h"
    using ok by (simp_all add: heap_ok_def)
  have a: "ptr - 12 = a"
  proof -
    have "ptr = of_nat (?p + span bs1 + 12)" unfolding ptr(1) [symmetric] by simp
    then show ?thesis by (simp add: a_def)
  qed
  note free = tiles_set_free [OF t a_def]
  have "block_ptr ?p ?bs = free_list h" by (simp add: block_ptr_def)
  with free kfree_loop_tiles [of "set_hdr a ((hdrs h a)\<lparr>bh_free := 1\<rparr>) h" ?p ?bs]
  obtain m where m: "kfree_loop (free_list h) (set_hdr a ((hdrs h a)\<lparr>bh_free := 1\<rparr>) h) = Some (h\<lparr>hdrs := m\<rparr>)"
    "tiles m ?p (coalesce ?bs)"
    by (auto simp: set_hdr_def)
  have "ptr \<noteq> 0" "\<not> ptr < heap_start_virt h" using ptr(1) virt by (auto simp: word_less_nat_alt)
  with ptr(2) a free m(1) have "kfree ptr h = Some (Kfree_done, h\<lparr>hdrs := m\<rparr>)"
    by (simp add: kfree_def Let_def not_le)
  moreover have "heap_ok (h\<lparr>hdrs := m\<rparr>) (coalesce ?bs)"
    using ok m(2) by (simp add: heap_ok_def)
  ultimately show ?thesis by auto
qed

lemma coalesced: "coalesce bs = as @ (a, f) # (b, g) # cs \<Longrightarrow> \<not> (f \<and> g)"
proof (induction bs arbitrary: as rule: coalesce_induct)
  case (merge a b bs)
  then show ?case by simp
next
  case (allocated x bs)
  have "coalesce ((x, False) # bs) = (x, False) # coalesce bs" by (cases bs) auto
  with allocated.prems have "(x, False) # coalesce bs = as @ (a, f) # (b, g) # cs" by simp
  then show ?case using allocated.IH by (cases as) auto
next
  case (single x)
  then show ?case by (cases as) auto
next
  case (blocked x y bs)
  have "coalesce (x # (y, False) # bs) = x # (y, False) # coalesce bs"
    and y: "coalesce ((y, False) # bs) = (y, False) # coalesce bs" by simp_all
  with blocked.prems have "x # (y, False) # coalesce bs = as @ (a, f) # (b, g) # cs" by simp
  then show ?case using blocked.IH [unfolded y] by (cases as) auto
qed simp


lemma alloc_blocks_ptr: "alloc_blocks n bs = Some (off, bs') \<Longrightarrow> 12 \<le> off \<and> off \<le> span bs"
  using alloc_blocks_payloads [of n bs off bs' 0] by auto

lemma payloads_split:
  "(p + q, sz) \<in> payloads p bs \<Longrightarrow> \<exists>bs1 bs2. bs = bs1 @ (sz, False) # bs2 \<and> q = span bs1 + 12"
proof (induction bs arbitrary: p q)
  case (Cons b bs)
  obtain s1 f1 where b: "b = (s1, f1)" by force
  show ?case
  proof (cases "(p + q, sz) \<in> payloads (p + 12 + s1) bs")
    case True
    then have "12 + s1 \<le> q" using payload_range [OF True] by simp
    then obtain q' where q: "q = 12 + s1 + q'" by (auto simp: le_iff_add)
    with True have "(p + 12 + s1 + q', sz) \<in> payloads (p + 12 + s1) bs" by (simp add: add.assoc)
    from Cons.IH [OF this] obtain bs1 bs2 where "bs = bs1 @ (sz, False) # bs2" "q' = span bs1 + 12" by auto
    with q b show ?thesis by (intro exI [of _ "b # bs1"] exI [of _ bs2]) simp
  next
    case False
    with Cons.prems have "b = (sz, False)" "q = 12" by (auto simp: b split: if_splits)
    then show ?thesis by (intro exI [of _ "[]"] exI [of _ bs]) simp
  qed
qed simp

lemma payloads_free: "payloads p (bs1 @ (sz, True) # bs2) = payloads p (bs1 @ (sz, False) # bs2) - {(p + span bs1 + 12, sz)}"
proof -
  have "x \<notin> payloads p bs1 \<and> x \<notin> payloads (p + span bs1 + 12 + sz) bs2" if "x = (p + span bs1 + 12, sz)" for x
    using that payload_range [of x p bs1] payload_range [of x "p + span bs1 + 12 + sz" bs2] by fastforce
  then show ?thesis by auto
qed

section \<open>The interface of the heap\<close>

text \<open>
  \<open>rep s L\<close>: the state \<open>s\<close> is well formed and its live allocations are the address and size
  pairs in \<open>L\<close>. \<open>hdr\<close> is the size of the bookkeeping before a payload: a block that is not
  longer than that may be refused by \<open>free\<close> (the model of the kernel's code needs this allowance);
  requests up to \<open>limit\<close> are served, and \<open>released\<close> is what \<open>free\<close> returns for a live block.
\<close>

locale allocator =
  fixes malloc :: "u32 \<Rightarrow> 's \<Rightarrow> (u32 \<times> 's) option"
    and free :: "u32 \<Rightarrow> 's \<Rightarrow> ('r \<times> 's) option"
    and rep :: "'s \<Rightarrow> (nat \<times> nat) set \<Rightarrow> bool"
    and hdr :: nat and limit :: nat and released :: 'r
  assumes malloc_rep: "rep s L \<Longrightarrow> unat n \<le> limit \<Longrightarrow>
      \<exists>p s'. malloc n s = Some (p, s') \<and>
        (if p = 0 then s' = s
         else (\<exists>k \<ge> unat n. rep s' (insert (unat p, k) L) \<and> (\<forall>j. (unat p, j) \<notin> L)))"
    and live_apart: "rep s L \<Longrightarrow> x \<in> L \<Longrightarrow> y \<in> L \<Longrightarrow> x \<noteq> y \<Longrightarrow>
      fst x + snd x \<le> fst y \<or> fst y + snd y \<le> fst x"
    and live_bound: "rep s L \<Longrightarrow> x \<in> L \<Longrightarrow> 0 < fst x \<and> fst x + snd x < 2 ^ 32"
    and free_rep: "rep s L \<Longrightarrow> (unat p, k) \<in> L \<Longrightarrow> hdr < k \<Longrightarrow>
      \<exists>s'. free p s = Some (released, s') \<and> rep s' (L - {(unat p, k)})"
begin

lemma malloc_apart:
  assumes "rep s L" "unat n \<le> limit" "malloc n s = Some (p, s')" "p \<noteq> 0" "x \<in> L"
  shows "\<exists>k \<ge> unat n. rep s' (insert (unat p, k) L)
    \<and> (unat p + k \<le> fst x \<or> fst x + snd x \<le> unat p) \<and> unat p + k < 2 ^ 32"
proof -
  from malloc_rep [OF assms(1,2)] assms(3,4) obtain k where
    k: "unat n \<le> k" "rep s' (insert (unat p, k) L)" "\<forall>j. (unat p, j) \<notin> L" by auto
  then have "(unat p, k) \<noteq> x" using assms(5) by auto
  with live_apart [OF k(2), of "(unat p, k)" x] live_bound [OF k(2), of "(unat p, k)"] k assms(5)
  show ?thesis by auto
qed

lemma malloc_free:
  assumes "rep s L" "unat n \<le> limit" "hdr < unat n" "malloc n s = Some (p, s')" "p \<noteq> 0"
  shows "\<exists>s''. free p s' = Some (released, s'') \<and> rep s'' L"
proof -
  from malloc_rep [OF assms(1,2)] assms(4,5) obtain k where
    k: "unat n \<le> k" "rep s' (insert (unat p, k) L)" "\<forall>j. (unat p, j) \<notin> L" by auto
  from free_rep [OF k(2), of p k] k(1) assms(3) obtain s'' where
    "free p s' = Some (released, s'')" "rep s'' (insert (unat p, k) L - {(unat p, k)})" by auto
  moreover have "insert (unat p, k) L - {(unat p, k)} = L" using k(3) by auto
  ultimately show ?thesis by auto
qed

end

definition heap_rep :: "heap_state \<Rightarrow> (nat \<times> nat) set \<Rightarrow> bool" where
  "heap_rep h L \<longleftrightarrow> (\<exists>bs. heap_ok h bs \<and> L = payloads (unat (free_list h)) bs)"

lemma heap_ok_bound: "heap_ok h bs \<Longrightarrow> 4 \<le> unat (free_list h) \<and> unat (free_list h) + span bs < 2 ^ 32"
  using tiles_span [of "hdrs h" "unat (free_list h)" bs] by (cases bs) (auto simp: heap_ok_def)

text \<open>A request of any size, the ones that the rounding wraps to 0 included.\<close>

lemma kmalloc_live:
  assumes "heap_rep h L"
  shows "\<exists>p h'. kmalloc n h = Some (p, h') \<and>
    (if p = 0 then h' = h else (\<exists>k. (unat n \<le> 0xfffffffc \<longrightarrow> unat n \<le> k) \<and> heap_rep h' (insert (unat p, k) L) \<and> (\<forall>j. (unat p, j) \<notin> L)))"
proof -
  from assms(1) obtain bs where ok: "heap_ok h bs" and L: "L = payloads (unat (free_list h)) bs"
    by (auto simp: heap_rep_def)
  note k = kmalloc_refines [OF ok, of n]
  show ?thesis
  proof (cases "alloc_blocks (kmalloc_round n) bs")
    case None
    with k show ?thesis by auto
  next
    case (Some r)
    obtain off bs' where r: "r = (off, bs')" by force
    with k Some obtain h' where h': "kmalloc n h = Some (free_list h + of_nat off, h')" "heap_ok h' bs'"
      "free_list h' = free_list h" by auto
    from alloc_blocks_payloads [of "kmalloc_round n" bs off bs' "unat (free_list h)"] Some r obtain sz where
      sz: "kmalloc_round n \<le> sz" "payloads (unat (free_list h)) bs' = insert (unat (free_list h) + off, sz) L"
      "\<forall>j. (unat (free_list h) + off, j) \<notin> L" "off + sz \<le> span bs" by (auto simp: L)
    have "unat (free_list h + of_nat off) = unat (free_list h) + off"
      using heap_ok_bound [OF ok] sz(4) by (subst unat_add_lem [THEN iffD1]) auto
    moreover have "free_list h + of_nat off \<noteq> 0"
      using heap_ok_bound [OF ok] calculation by (metis add_is_0 not_numeral_le_zero unat_0)
    moreover have "heap_rep h' (insert (unat (free_list h) + off, sz) L)"
      using h'(2,3) sz(2) by (auto simp: heap_rep_def)
    moreover have "unat n \<le> 0xfffffffc \<longrightarrow> unat n \<le> sz" using sz(1) kmalloc_round_ge [of n] by auto
    ultimately show ?thesis
      using h'(1) sz(3) by (intro exI [of _ "free_list h + of_nat off"] exI [of _ h']) auto
  qed
qed

lemma kmalloc_rep:
  assumes "heap_rep h L" "unat n \<le> 0xfffffffc"
  shows "\<exists>p h'. kmalloc n h = Some (p, h') \<and>
    (if p = 0 then h' = h else (\<exists>k \<ge> unat n. heap_rep h' (insert (unat p, k) L) \<and> (\<forall>j. (unat p, j) \<notin> L)))"
proof -
  from kmalloc_live [OF assms(1), of n] obtain p h' where m: "kmalloc n h = Some (p, h')"
    and l: "if p = 0 then h' = h else (\<exists>k. (unat n \<le> 0xfffffffc \<longrightarrow> unat n \<le> k) \<and> heap_rep h' (insert (unat p, k) L) \<and> (\<forall>j. (unat p, j) \<notin> L))"
    by blast
  show ?thesis using m l assms(2) by (intro exI [of _ p] exI [of _ h']) auto
qed

text \<open>A live block that starts too near to the end of the heap is refused.\<close>

lemma kfree_live:
  assumes "heap_rep h L" "(unat p, k) \<in> L"
  shows "if p < heap_end h then \<exists>h'. kfree p h = Some (Kfree_done, h') \<and> heap_rep h' (L - {(unat p, k)}) else kfree p h = Some (Kfree_outside, h)"
proof -
  from assms(1) obtain bs where ok: "heap_ok h bs" and L: "L = payloads (unat (free_list h)) bs"
    by (auto simp: heap_rep_def)
  let ?p = "unat (free_list h)"
  have rng: "?p + 12 \<le> unat p" "unat p + k \<le> ?p + span bs"
    using payload_range [OF assms(2) [unfolded L]] by auto
  then have "(?p + (unat p - ?p), k) \<in> payloads ?p bs" using assms(2) L by simp
  from payloads_split [OF this] obtain bs1 bs2 where bs: "bs = bs1 @ (k, False) # bs2"
    and q: "unat p - ?p = span bs1 + 12" by auto
  have pt: "unat p = ?p + span bs1 + 12" using q rng by simp
  show ?thesis
  proof (cases "p < heap_end h")
    case True
    from kfree_refines [OF ok [unfolded bs] pt True] obtain h' where
      h': "kfree p h = Some (Kfree_done, h')" "heap_ok h' (coalesce (bs1 @ (k, True) # bs2))" "free_list h' = free_list h"
      by auto
    have "L - {(unat p, k)} = payloads ?p (coalesce (bs1 @ (k, True) # bs2))"
      unfolding payloads_coalesce payloads_free L bs pt ..
    with h' True show ?thesis by (auto simp: heap_rep_def)
  next
    case False
    have "p \<noteq> 0" using rng by auto
    with False show ?thesis by (simp add: kfree_def not_less)
  qed
qed

lemma kfree_rep:
  assumes "heap_rep h L" "(unat p, k) \<in> L" "12 < k"
  shows "\<exists>h'. kfree p h = Some (Kfree_done, h') \<and> heap_rep h' (L - {(unat p, k)})"
proof -
  from assms(1) obtain bs where ok: "heap_ok h bs" and L: "L = payloads (unat (free_list h)) bs"
    by (auto simp: heap_rep_def)
  have "p < heap_end h"
    using ok payload_range [OF assms(2) [unfolded L]] assms(3) by (simp add: heap_ok_def word_less_nat_alt)
  then show ?thesis using kfree_live [OF assms(1,2)] by simp
qed

interpretation kheap: allocator kmalloc kfree heap_rep 12 "0xfffffffc" Kfree_done
proof
  fix s L x y assume "heap_rep s L" "x \<in> L" "y \<in> L" "x \<noteq> y"
  then show "fst x + snd x \<le> fst y \<or> fst y + snd y \<le> fst x"
    using payloads_disjoint [of x _ _ y] by (fastforce simp: heap_rep_def)
next
  fix s L x assume "heap_rep s L" "x \<in> L"
  then show "0 < fst x \<and> fst x + snd x < 2 ^ 32"
    using payload_range [of x] heap_ok_bound by (fastforce simp: heap_rep_def)
qed (blast intro: kmalloc_rep kfree_rep)+


section \<open>Initialisation\<close>

lemma heap_init_ok:
  assumes "pmm_ok pm" "heap_init n pm h = Some (pm', h')"
    and room: "r + unat n < 0x40000" "pmm_alloc_frames n pm = Some (frame_addr r, pm')" "n \<noteq> 0"
  shows "heap_ok h' [(4096 * unat n - 12, True)] \<and> unat (free_list h') = 0xc0000000 + 4096 * r"
proof -
  have n: "0 < unat n" using room(3) by (simp add: unat_gt_0)
  have r: "r < 0x40000" using room(1) n by simp
  have fl: "unat (phys_to_virt (frame_addr r)) = 0xc0000000 + 4096 * r"
  proof -
    have "unat (frame_addr r) = 4096 * r" using r by (simp add: unat_frame_addr frame_limit_def)
    then show ?thesis using r by (simp add: phys_to_virt_def KERNEL_VIRT_BASE_def unat_plus_if')
  qed
  have "unat (n * PAGE_SIZE) = 4096 * unat n"
    using room(1) by (subst unat_mult_lem [THEN iffD1]) auto
  then have sz: "unat (n * PAGE_SIZE - 12) = 4096 * unat n - 12"
    using n by (simp add: unat_sub_if')
  have h': "h' = (set_hdr (phys_to_virt (frame_addr r)) \<lparr>bh_size = n * PAGE_SIZE - 12, bh_next = 0, bh_free = 1\<rparr>
      (h\<lparr>heap_start := frame_addr r, heap_start_virt := phys_to_virt (frame_addr r),
         free_list := phys_to_virt (frame_addr r)\<rparr>))\<lparr>heap_end := phys_to_virt (frame_addr r) + (n * PAGE_SIZE - 12)\<rparr>"
    using assms(2) room(2) by (simp add: heap_init_def Let_def)
  have "unat (phys_to_virt (frame_addr r) + (n * PAGE_SIZE - 12)) = 0xc0000000 + 4096 * r + (4096 * unat n - 12)"
    using room(1) n by (subst unat_add_lem [THEN iffD1]) (auto simp: fl sz)
  moreover have "of_nat (4096 * unat n - 12) = n * PAGE_SIZE - 12" unfolding sz [symmetric] by simp
  moreover have "of_nat (0xc0000000 + 4096 * r) = phys_to_virt (frame_addr r)" unfolding fl [symmetric] by simp
  ultimately show ?thesis
    using room(1) n by (simp add: h' heap_ok_def set_hdr_def fl block_ptr_def del: of_nat_add of_nat_mult)
qed

section \<open>Properties\<close>

text \<open>
  C37. \<^verbatim>\<open>kmalloc\<close> always returns on a well-formed heap, and refines first fit with
  splitting on the list of blocks: the address of the lowest free block that is large enough
  for the rounded request, or 0 with the heap untouched when there is none.
\<close>

theorem kmalloc_first_fit:
  assumes "heap_ok h bs"
  shows "case alloc_blocks (kmalloc_round bytes) bs of
      None \<Rightarrow> kmalloc bytes h = Some (0, h) \<and> (\<forall>(sz, fr) \<in> set bs. fr \<longrightarrow> sz < kmalloc_round bytes)
    | Some (off, bs') \<Rightarrow> (\<exists>h'. kmalloc bytes h = Some (free_list h + of_nat off, h') \<and> heap_ok h' bs'
        \<and> free_list h' = free_list h)"
  using kmalloc_refines [OF assms, of bytes] alloc_blocks_None [of "kmalloc_round bytes" bs]
  by (cases "alloc_blocks (kmalloc_round bytes) bs") auto

definition heap_example :: heap_state where
  "heap_example = \<lparr>hdrs = (\<lambda>_. \<lparr>bh_size = 0, bh_next = 0, bh_free = 0\<rparr>)
     (0xc0100000 := \<lparr>bh_size = 16, bh_next = 0xc010001c, bh_free = 0\<rparr>,
      0xc010001c := \<lparr>bh_size = 84, bh_next = 0, bh_free = 1\<rparr>),
     free_list = 0xc0100000, heap_start = 0x100000, heap_end = 0xc0100070, heap_start_virt = 0xc0100000\<rparr>"

lemma heap_example_ok: "heap_ok heap_example [(16, False), (84, True)]"
  by (simp add: heap_ok_def heap_example_def block_ptr_def)

lemma heap_example_rep: "heap_rep heap_example {(0xc010000c, 16)}"
  unfolding heap_rep_def by (rule exI [of _ "[(16, False), (84, True)]"]) (use heap_example_ok in \<open>simp add: heap_example_def\<close>)

lemma kmalloc_first_fit_witness:
  "\<exists>h'. kmalloc 21 heap_example = Some (0xc0100028, h')
    \<and> heap_ok h' [(16, False), (24, False), (48, True)]"
  using kmalloc_first_fit [OF heap_example_ok, of 21]
  by (auto simp: kmalloc_round_eq) (auto simp: heap_example_def)



text \<open>
  C22. \<^verbatim>\<open>kfree\<close> of a live block below \<^verbatim>\<open>heap_end\<close> terminates, marks that block free, merges
  all neighbouring free blocks (no two of them are left adjacent), and leaves every other live
  block where it is.
\<close>

theorem kfree_coalesces:
  assumes "heap_ok h (bs1 @ (sz, False) # bs2)"
    and "unat ptr = unat (free_list h) + span bs1 + 12" "ptr < heap_end h"
  shows "\<exists>h' cs. kfree ptr h = Some (Kfree_done, h') \<and> heap_ok h' cs
    \<and> cs = coalesce (bs1 @ (sz, True) # bs2)
    \<and> (\<forall>as a f b g ds. cs = as @ (a, f) # (b, g) # ds \<longrightarrow> \<not> (f \<and> g))
    \<and> payloads (unat (free_list h)) cs
        = payloads (unat (free_list h)) (bs1 @ (sz, False) # bs2) - {(unat ptr, sz)}"
proof -
  from kfree_refines [OF assms] obtain h' where
    "kfree ptr h = Some (Kfree_done, h')" "heap_ok h' (coalesce (bs1 @ (sz, True) # bs2))" by auto
  moreover have "payloads (unat (free_list h)) (coalesce (bs1 @ (sz, True) # bs2))
    = payloads (unat (free_list h)) (bs1 @ (sz, False) # bs2) - {(unat ptr, sz)}"
    unfolding payloads_coalesce payloads_free assms(2) ..
  moreover have "\<forall>as a f b g ds. coalesce (bs1 @ (sz, True) # bs2) = as @ (a, f) # (b, g) # ds \<longrightarrow> \<not> (f \<and> g)"
    using coalesced by blast
  ultimately show ?thesis by auto
qed

lemma kfree_coalesces_witness:
  "\<exists>h'. kfree 0xc010000c heap_example = Some (Kfree_done, h') \<and> heap_ok h' [(112, True)]"
proof -
  have "heap_ok heap_example ([] @ (16, False) # [(84, True)])" using heap_example_ok by simp
  from kfree_coalesces [OF this, of "0xc010000c"] show ?thesis
    by (auto simp: heap_example_def)
qed

text \<open>
  \<^verbatim>\<open>heap_init\<close> leaves \<^verbatim>\<open>heap_end\<close> one header short of the region it was given, so a
  live block whose payload starts in the last twelve bytes is never freed: \<^verbatim>\<open>kfree\<close> reports
  it as outside the heap and changes nothing.
\<close>

theorem kfree_last_block:
  assumes "heap_ok h bs" "(unat ptr, sz) \<in> payloads (unat (free_list h)) bs"
    and "unat (free_list h) + span bs \<le> unat ptr + 12"
  shows "kfree ptr h = Some (Kfree_outside, h)"
proof -
  have "heap_end h \<le> ptr" using assms(1,3) by (simp add: heap_ok_def word_le_nat_alt)
  moreover have "ptr \<noteq> 0" using payload_range [OF assms(2)] by auto
  ultimately show ?thesis by (simp add: kfree_def)
qed

lemma kfree_last_block_witness:
  "\<exists>h'. kmalloc 64 heap_example = Some (0xc0100028, h') \<and>
    (\<exists>h''. kmalloc 8 h' = Some (0xc0100074, h'') \<and> kfree 0xc0100074 h'' = Some (Kfree_outside, h''))"
proof -
  obtain h1 where h1: "kmalloc 64 heap_example = Some (0xc0100028, h1)"
    "heap_ok h1 [(16, False), (64, False), (8, True)]" "free_list h1 = 0xc0100000"
    using kmalloc_refines [OF heap_example_ok, of 64]
    by (auto simp: kmalloc_round_eq) (auto simp: heap_example_def)
  from kmalloc_refines [OF h1(2), of 8] h1(3) obtain h2 where
    h2: "kmalloc 8 h1 = Some (0xc0100074, h2)" "heap_ok h2 [(16, False), (64, False), (8, False)]"
      "free_list h2 = 0xc0100000"
    by (auto simp: kmalloc_round_eq)
  from kfree_last_block [OF h2(2), of "0xc0100074" 8] h1(1) h2 show ?thesis by simp
qed

text \<open>
  After \<^verbatim>\<open>heap_init(n)\<close> on frames that the kernel maps, the heap is one free block that
  spans the \<open>n\<close> frames less its header.
\<close>

theorem heap_init_one_block:
  assumes "pmm_ok pm" "heap_init n pm h = Some (pm', h')" "unat (heap_start h') + 4096 * unat n < 0x40000000"
  shows "heap_ok h' [(4096 * unat n - 12, True)] \<and> free_list h' = phys_to_virt (heap_start h')"
proof -
  from assms(2) obtain a where a: "pmm_alloc_frames n pm = Some (a, pm')" "heap_start h' = a"
    and fl: "free_list h' = phys_to_virt a"
    by (auto simp: heap_init_def Let_def set_hdr_def split: option.splits)
  from pmm_alloc_frames_SomeE [OF _ a(1)] assms(1) obtain r where
    r: "a = frame_addr r" "r + unat n \<le> pmm_frames pm" "0 < unat n" by blast
  have "pmm_frames pm \<le> frame_limit" using assms(1) by (simp add: pmm_ok_def pmm_frames_def frame_limit_def)
  then have "unat a = 4096 * r" using r by (simp add: unat_frame_addr)
  then have "r + unat n < 0x40000" using assms(3) a(2) by simp
  from heap_init_ok [OF assms(1,2) this a(1) [unfolded r(1)]] r(3) fl a(2) show ?thesis by (cases "n = 0") auto
qed

lemma heap_init_one_block_witness:
  "\<exists>pm' h'. heap_init 2 pmm_example heap_example = Some (pm', h') \<and> heap_ok h' [(8180, True)]"
proof -
  have ok: "pmm_ok pmm_example" by (simp add: pmm_ok_def pmm_example_def)
  obtain pm' where a: "pmm_alloc_frames 2 pmm_example = Some (0x28000, pm')"
    by (simp add: pmm_alloc_frames_def pmm_alloc_frames_loop.simps test_frame_def addr_to_frame_def
      frame_to_addr_def pmm_example_def)
  then obtain h' where h': "heap_init 2 pmm_example heap_example = Some (pm', h')" "heap_start h' = 0x28000"
    by (simp add: heap_init_def Let_def set_hdr_def)
  with heap_init_one_block [OF ok h'(1)] show ?thesis by auto
qed

end
