(* ===== verification/CMem.thy ===== *)
theory CMem
  imports Prelude
begin

text \<open>
  The memory and string routines of \<^verbatim>\<open>src/src/misc/mem.c\<close> and \<^verbatim>\<open>src/src/misc/util.c\<close>
  on byte memory: every pointer is a 32-bit address, every loop moves its pointers through the
  memory it changes. A loop that scans for a terminating zero byte does not end when the
  memory holds none (\<open>None\<close>).
\<close>

section \<open>Memory blocks\<close>

fun memset_loop :: "u32 \<Rightarrow> u8 \<Rightarrow> nat \<Rightarrow> bytes \<Rightarrow> bytes" where
  "memset_loop p c 0 m = m"
| "memset_loop p c (Suc n) m = memset_loop (p + 1) c n (m(p := c))"

definition memset :: "u32 \<Rightarrow> u32 \<Rightarrow> u32 \<Rightarrow> bytes \<Rightarrow> bytes" where
  "memset dst c n m = memset_loop dst (ucast c) (unat n) m"

fun copy_up :: "u32 \<Rightarrow> u32 \<Rightarrow> nat \<Rightarrow> bytes \<Rightarrow> bytes" where
  "copy_up d s 0 m = m"
| "copy_up d s (Suc n) m = copy_up (d + 1) (s + 1) n (m(d := m s))"

fun copy_down :: "u32 \<Rightarrow> u32 \<Rightarrow> nat \<Rightarrow> bytes \<Rightarrow> bytes" where
  "copy_down d s 0 m = m"
| "copy_down d s (Suc n) m = copy_down (d - 1) (s - 1) n (m(d - 1 := m (s - 1)))"

definition memcpy :: "u32 \<Rightarrow> u32 \<Rightarrow> u32 \<Rightarrow> bytes \<Rightarrow> bytes" where
  "memcpy dst src n m = copy_up dst src (unat n) m"

definition memmove :: "u32 \<Rightarrow> u32 \<Rightarrow> u32 \<Rightarrow> bytes \<Rightarrow> bytes" where
  "memmove dst src n m =
     (if dst < src then copy_up dst src (unat n) m else copy_down (dst + n) (src + n) (unat n) m)"

fun memcmp_loop :: "u32 \<Rightarrow> u32 \<Rightarrow> nat \<Rightarrow> bytes \<Rightarrow> int" where
  "memcmp_loop p q 0 m = 0"
| "memcmp_loop p q (Suc n) m =
     (if m p \<noteq> m q then uint (m p) - uint (m q) else memcmp_loop (p + 1) (q + 1) n m)"

definition memcmp :: "u32 \<Rightarrow> u32 \<Rightarrow> u32 \<Rightarrow> bytes \<Rightarrow> int" where
  "memcmp a b n m = memcmp_loop a b (unat n) m"

section \<open>Strings\<close>

partial_function (option) strlen_loop :: "u32 \<Rightarrow> u32 \<Rightarrow> bytes \<Rightarrow> u32 option" where
  "strlen_loop str len m = (if m (str + len) \<noteq> 0 then strlen_loop str (len + 1) m else Some len)"

definition strlen :: "u32 \<Rightarrow> bytes \<Rightarrow> u32 option" where
  "strlen str m = strlen_loop str 0 m"

function strnlen_loop :: "u32 \<Rightarrow> u32 \<Rightarrow> u32 \<Rightarrow> bytes \<Rightarrow> u32" where
  "strnlen_loop str maxlen len m =
     (if len < maxlen \<and> m (str + len) \<noteq> 0 then strnlen_loop str maxlen (len + 1) m else len)"
  by pat_completeness auto
termination
  by (relation "measure (\<lambda>(str, maxlen, len, m). unat maxlen - unat len)") (auto intro: count_up)

declare strnlen_loop.simps [simp del]

definition strnlen :: "u32 \<Rightarrow> u32 \<Rightarrow> bytes \<Rightarrow> u32" where
  "strnlen str maxlen m = strnlen_loop str maxlen 0 m"

partial_function (option) strcpy :: "u32 \<Rightarrow> u32 \<Rightarrow> bytes \<Rightarrow> bytes option" where
  "strcpy p src m =
     (let m' = m(p := m src) in if m src \<noteq> 0 then strcpy (p + 1) (src + 1) m' else Some m')"

text \<open>The two loops of \<^verbatim>\<open>strncpy\<close>: copy up to the zero byte, then fill with zeros.\<close>

fun strncpy_loop :: "u32 \<Rightarrow> u32 \<Rightarrow> nat \<Rightarrow> bytes \<Rightarrow> bytes" where
  "strncpy_loop p src 0 m = m"
| "strncpy_loop p src (Suc n) m =
     (if m src \<noteq> 0 then strncpy_loop (p + 1) (src + 1) n (m(p := m src))
      else memset_loop p 0 (Suc n) m)"

definition strncpy :: "u32 \<Rightarrow> u32 \<Rightarrow> u32 \<Rightarrow> bytes \<Rightarrow> bytes" where
  "strncpy dst src n m = strncpy_loop dst src (unat n) m"

partial_function (option) strcmp :: "u32 \<Rightarrow> u32 \<Rightarrow> bytes \<Rightarrow> int option" where
  "strcmp s1 s2 m =
     (if m s1 \<noteq> 0 \<and> m s1 = m s2 then strcmp (s1 + 1) (s2 + 1) m
      else Some (uint (m s1) - uint (m s2)))"

text \<open>\<^verbatim>\<open>while (--n && ...)\<close>: the argument is the value of \<^verbatim>\<open>n\<close> before the decrement.\<close>

fun strncmp_loop :: "u32 \<Rightarrow> u32 \<Rightarrow> nat \<Rightarrow> bytes \<Rightarrow> int" where
  "strncmp_loop s1 s2 0 m = uint (m s1) - uint (m s2)"
| "strncmp_loop s1 s2 (Suc n) m =
     (if n \<noteq> 0 \<and> m s1 \<noteq> 0 \<and> m s1 = m s2 then strncmp_loop (s1 + 1) (s2 + 1) n m
      else uint (m s1) - uint (m s2))"

definition strncmp :: "u32 \<Rightarrow> u32 \<Rightarrow> u32 \<Rightarrow> bytes \<Rightarrow> int" where
  "strncmp s1 s2 n m = (if n = 0 then 0 else strncmp_loop s1 s2 (unat n) m)"

text \<open>The result 0 is the null pointer.\<close>

partial_function (option) strchr :: "u32 \<Rightarrow> u8 \<Rightarrow> bytes \<Rightarrow> u32 option" where
  "strchr s ch m = (if m s = ch then Some s else if m s = 0 then Some 0 else strchr (s + 1) ch m)"

partial_function (option) strrchr_loop :: "u32 \<Rightarrow> u8 \<Rightarrow> u32 \<Rightarrow> bytes \<Rightarrow> u32 option" where
  "strrchr_loop s ch found m =
     (let found' = (if m s = ch then s else found)
      in if m s = 0 then Some found' else strrchr_loop (s + 1) ch found' m)"

definition strrchr :: "u32 \<Rightarrow> u8 \<Rightarrow> bytes \<Rightarrow> u32 option" where
  "strrchr s ch m = strrchr_loop s ch 0 m"

definition to_upper :: "u8 \<Rightarrow> u8" where
  "to_upper c = (if 97 \<le> c \<and> c \<le> 122 then c - 32 else c)"

section \<open>Ranges of memory\<close>

text \<open>Address \<open>a\<close> lies in the \<open>n\<close> bytes from \<open>p\<close> (the range may wrap around).\<close>

definition in_range :: "u32 \<Rightarrow> u32 \<Rightarrow> nat \<Rightarrow> bool" where
  "in_range a p n \<longleftrightarrow> unat (a - p) < n"

text \<open>The \<open>n\<close> bytes from \<open>p\<close>.\<close>

definition bytes_at :: "bytes \<Rightarrow> u32 \<Rightarrow> nat \<Rightarrow> u8 list" where
  "bytes_at m p n = map (\<lambda>i. m (p + of_nat i)) [0..<n]"

lemma unat_minus_one: "a \<noteq> 0 \<Longrightarrow> unat (a - 1) = unat a - 1" for a :: u32
  by (simp add: unat_minus_one)

lemma unat_u32_less_Suc: "a \<noteq> p \<Longrightarrow> unat (a - (p + 1)) = unat (a - p) - 1" for a p :: u32
  using unat_minus_one [of "a - p"] by (simp add: diff_diff_eq)

lemma in_range_0 [simp]: "\<not> in_range a p 0"
  by (simp add: in_range_def)

lemma in_range_Suc: "in_range a p (Suc n) \<longleftrightarrow> a = p \<or> (a \<noteq> p \<and> in_range a (p + 1) n)" if "n < 2 ^ 32"
proof (cases "a = p")
  case True
  then show ?thesis by (simp add: in_range_def)
next
  case False
  then have "0 < unat (a - p)" by (simp add: unat_gt_0)
  with False show ?thesis by (auto simp: in_range_def unat_u32_less_Suc)
qed

lemma in_range_start: "n < 2 ^ 32 \<Longrightarrow> \<not> in_range p (p + 1) n"
  using unat_minus_one [of "- 1 :: u32 "] by (simp add: in_range_def unsigned_minus_1_eq_mask mask_eq_exp_minus_1)

lemma memset_loop_at: "n \<le> 2 ^ 32 \<Longrightarrow> memset_loop p c n m a = (if in_range a p n then c else m a)"
proof (induction n arbitrary: p m)
  case (Suc n)
  then show ?case using in_range_Suc [of n a p] by auto
qed simp

lemma memset_at: "memset p c n m a = (if in_range a p (unat n) then ucast c else m a)"
  using u32_less [of n] by (simp add: memset_def memset_loop_at)

text \<open>Copying upwards is right when the destination does not start inside the source after
  its first byte; copying downwards when the source does not start inside the destination.\<close>

lemma copy_up_at:
  assumes "n \<le> 2 ^ 32" "d = s \<or> \<not> in_range d s n"
  shows "copy_up d s n m a = (if in_range a d n then m (s + (a - d)) else m a)"
  using assms
proof (induction n arbitrary: d s m)
  case 0
  then show ?case by simp
next
  case (Suc n)
  have n: "n < 2 ^ 32" using Suc.prems by simp
  show ?case
  proof (cases "d = s")
    case True
    have "copy_up (d + 1) (d + 1) n m a = (if in_range a (d + 1) n then m (d + 1 + (a - (d + 1))) else m a)"
      using Suc.IH [of "d + 1" "d + 1" m] n by simp
    with True show ?thesis by simp
  next
    case False
    with Suc.prems have out: "\<not> in_range d s (Suc n)" by simp
    have "\<not> in_range (d + 1) (s + 1) n"
      using out by (simp add: in_range_def)
    define m' where "m' = m(d := m s)"
    have m': "m' d = m s" "\<And>x. x \<noteq> d \<Longrightarrow> m' x = m x" by (simp_all add: m'_def)
    have IH: "copy_up d s (Suc n) m a = (if in_range a (d + 1) n then m' (s + (a - d)) else m' a)"
    proof -
      have "copy_up d s (Suc n) m a = copy_up (d + 1) (s + 1) n m' a" by (simp only: copy_up.simps m'_def)
      also have "\<dots> = (if in_range a (d + 1) n then m' (s + 1 + (a - (d + 1))) else m' a)"
        using n \<open>\<not> in_range (d + 1) (s + 1) n\<close> by (intro Suc.IH) simp_all
      finally show ?thesis by simp
    qed
    have "s + (a - d) \<noteq> d" if "in_range a (d + 1) n"
    proof
      assume "s + (a - d) = d"
      then have "d - s = a - d" by (metis add_diff_cancel_left')
      with that out in_range_Suc [OF n, of a d] show False by (auto simp: in_range_def)
    qed
    then show ?thesis
      unfolding IH using m' in_range_Suc [OF n, of a d] in_range_start [OF n, of d] by auto
  qed
qed



lemma offset_eq: "a = p + of_nat n \<longleftrightarrow> unat (a - p) = n" if "n < 2 ^ 32" for a p :: u32
proof
  assume "unat (a - p) = n"
  then have "of_nat n = a - p" by auto
  then show "a = p + of_nat n" by simp
qed (use that in simp)

lemma in_range_last: "n < 2 ^ 32 \<Longrightarrow> in_range a p (Suc n) \<longleftrightarrow> a = p + of_nat n \<or> in_range a p n"
  by (auto simp: offset_eq in_range_def)

lemma copy_down_at:
  assumes "n \<le> 2 ^ 32" "d = s \<or> n \<le> unat (s - d)"
  shows "copy_down d s n m a = (if in_range a (d - of_nat n) n then m (s + (a - d)) else m a)"
  using assms
proof (induction n arbitrary: d s m)
  case 0
  then show ?case by simp
next
  case (Suc n)
  have n: "n < 2 ^ 32" using Suc.prems by simp
  define m' where "m' = m(d - 1 := m (s - 1))"
  have m': "m' (d - 1) = m (s - 1)" "\<And>x. x \<noteq> d - 1 \<Longrightarrow> m' x = m x" by (simp_all add: m'_def)
  have IH: "copy_down d s (Suc n) m a = (if in_range a (d - of_nat (Suc n)) n then m' (s + (a - d)) else m' a)"
  proof -
    have "copy_down d s (Suc n) m a = copy_down (d - 1) (s - 1) n m' a" by (simp only: copy_down.simps m'_def)
    also have "\<dots> = (if in_range a (d - 1 - of_nat n) n then m' (s - 1 + (a - (d - 1))) else m' a)"
      using n Suc.prems by (intro Suc.IH) auto
    finally show ?thesis by (simp add: algebra_simps)
  qed
  have last_eq: "d - of_nat (Suc n) + of_nat n = d - 1" by simp
  have rng: "in_range a (d - of_nat (Suc n)) (Suc n) \<longleftrightarrow> a = d - 1 \<or> in_range a (d - of_nat (Suc n)) n"
    using in_range_last [OF n, of a "d - of_nat (Suc n)"] unfolding last_eq .
  have excl: "\<not> in_range (d - 1) (d - of_nat (Suc n)) n"
  proof -
    have "d - 1 - (d - of_nat (Suc n)) = of_nat n" by simp
    then show ?thesis using n by (simp only: in_range_def) simp
  qed
  have "m' (s + (a - d)) = m (s + (a - d))" if r: "in_range a (d - of_nat (Suc n)) n"
  proof (cases "d = s")
    case True
    then show ?thesis using r excl m'(2) [of a] by auto
  next
    case False
    have "s + (a - d) \<noteq> d - 1"
    proof
      assume "s + (a - d) = d - 1"
      then have eq: "a - (d - of_nat (Suc n)) = of_nat n - (s - d)" by (simp add: algebra_simps)
      from False Suc.prems have sd: "Suc n \<le> unat (s - d)" by simp
      have "unat (of_nat n - (s - d)) = n + 2 ^ 32 - unat (s - d)"
        using sd n by (simp add: unat_sub_if_size word_size)
      with r have "n + 2 ^ 32 - unat (s - d) < n" by (simp only: in_range_def eq)
      with u32_less [of "s - d"] show False by simp
    qed
    then show ?thesis by (rule m'(2))
  qed
  then show ?case
    unfolding IH rng using m' excl by (auto simp: algebra_simps)
qed

lemma in_range_not: "unat s + n \<le> 2 ^ 32 \<Longrightarrow> d < s \<Longrightarrow> \<not> in_range d s n"
  by (simp add: in_range_def unat_sub_if_size word_size word_less_nat_alt word_le_nat_alt)

lemma memmove_at:
  assumes "unat src + unat n \<le> 2 ^ 32" "unat dst + unat n \<le> 2 ^ 32"
  shows "memmove dst src n m a = (if in_range a dst (unat n) then m (src + (a - dst)) else m a)"
proof (cases "dst < src")
  case True
  with in_range_not [OF assms(1) True] u32_less [of n] show ?thesis
    by (simp add: memmove_def copy_up_at)
next
  case False
  have c: "dst + n = src + n \<or> unat n \<le> unat (src + n - (dst + n))"
    using False assms(2)
    by (cases "dst = src", simp) (auto simp: unat_sub_if_size word_size not_less word_le_nat_alt word_unat_eq_iff)
  have "src + n + (a - (dst + n)) = src + (a - dst)" "dst + n - of_nat (unat n) = dst" by simp_all
  with False u32_less [of n] copy_down_at [OF _ c, of m a] show ?thesis
    by (simp add: memmove_def)
qed

lemma memcpy_at:
  assumes "dst = src \<or> \<not> in_range dst src (unat n)"
  shows "memcpy dst src n m a = (if in_range a dst (unat n) then m (src + (a - dst)) else m a)"
  using copy_up_at [OF _ assms] u32_less [of n] by (simp add: memcpy_def)

lemma in_range_offset [simp]: "i < n \<Longrightarrow> n \<le> 2 ^ 32 \<Longrightarrow> in_range (p + of_nat i) p n"
  by (simp add: in_range_def)

lemma memcmp_loop_eq: "memcmp_loop p q n m = 0 \<longleftrightarrow> bytes_at m p n = bytes_at m q n"
proof (induction n arbitrary: p q)
  case 0
  then show ?case by (simp add: bytes_at_def)
next
  case (Suc n)
  have "bytes_at m r (Suc n) = m r # bytes_at m (r + 1) n" for r
    by (simp add: bytes_at_def map_upt_Suc add.assoc del: upt_Suc)
  with Suc show ?case by (simp add: word_uint_eq_iff)
qed

section \<open>Zero-terminated strings\<close>

fun cstr :: "bytes \<Rightarrow> u32 \<Rightarrow> u8 list \<Rightarrow> bool" where
  "cstr m p [] \<longleftrightarrow> m p = 0"
| "cstr m p (c # cs) \<longleftrightarrow> c \<noteq> 0 \<and> m p = c \<and> cstr m (p + 1) cs"

lemma cstr_unique: "cstr m p s \<Longrightarrow> cstr m p t \<Longrightarrow> s = t"
proof (induction s arbitrary: p t)
  case Nil
  then show ?case by (cases t) auto
next
  case (Cons c s)
  then show ?case by (cases t) auto
qed

lemma cstr_append: "cstr m p (s @ t) \<Longrightarrow> cstr m (p + of_nat (length s)) t"
proof (induction s arbitrary: p)
  case (Cons c s)
  then show ?case using Cons.IH [of "p + 1"] by (simp add: add.assoc)
qed simp

lemma cstr_at: "cstr m p (s @ t) \<Longrightarrow> m (p + of_nat (length s)) = (case t of [] \<Rightarrow> 0 | c # _ \<Rightarrow> c)"
  using cstr_append [of m p s t] by (cases t) auto

lemma cstr_nonzero: "cstr m p s \<Longrightarrow> 0 \<notin> set s"
  by (induction s arbitrary: p) auto

lemma cstr_nth: "0 \<notin> set t \<Longrightarrow> (\<And>i. i \<le> length t \<Longrightarrow> m (p + of_nat i) = (if i < length t then t ! i else 0)) \<Longrightarrow> cstr m p t"
proof (induction t arbitrary: p)
  case (Cons c t)
  have "cstr m (p + 1) t"
  proof (rule Cons.IH)
    show "0 \<notin> set t" using Cons.prems(1) by simp
    show "m (p + 1 + of_nat i) = (if i < length t then t ! i else 0)" if "i \<le> length t" for i
      using Cons.prems(2) [of "Suc i"] that by (simp add: add.assoc)
  qed
  then show ?case using Cons.prems(1) Cons.prems(2) [of 0] by simp
qed force

lemma strlen_loop_cstr: "cstr m (str + len) s \<Longrightarrow> strlen_loop str len m = Some (len + of_nat (length s))"
proof (induction s arbitrary: len)
  case Nil
  then show ?case by (subst strlen_loop.simps) simp
next
  case (Cons c s)
  then show ?case by (subst strlen_loop.simps) (simp add: add.assoc)
qed

lemma strlen_cstr: "cstr m p s \<Longrightarrow> strlen p m = Some (of_nat (length s))"
  using strlen_loop_cstr [of m p 0 s] by (simp add: strlen_def)

lemma strcmp_cstr:
  "cstr m p s \<Longrightarrow> cstr m q t \<Longrightarrow> \<exists>r. strcmp p q m = Some r \<and> (r = 0 \<longleftrightarrow> s = t)"
proof (induction s arbitrary: p q t)
  case Nil
  then show ?case by (cases t; subst strcmp.simps) (auto simp: word_uint_eq_iff)
next
  case (Cons c s)
  show ?case
  proof (cases t)
    case Nil
    with Cons.prems show ?thesis by (subst strcmp.simps) (auto simp: word_uint_eq_iff)
  next
    case (Cons d t')
    with Cons.prems Cons.IH [of "p + 1" "q + 1" t'] show ?thesis
      by (subst strcmp.simps) (auto simp: word_uint_eq_iff)
  qed
qed

lemma find_shift: "find P [Suc m..<Suc n] = map_option Suc (find (\<lambda>i. P (Suc i)) [m..<n])"
proof -
  have "find P (map Suc xs) = map_option Suc (find (\<lambda>i. P (Suc i)) xs)" for xs
    by (induction xs) auto
  then show ?thesis by (simp only: map_Suc_upt [symmetric])
qed

lemma strchr_cstr: "cstr m p s \<Longrightarrow> ch \<noteq> 0 \<Longrightarrow>
  strchr p ch m = Some (case find (\<lambda>i. s ! i = ch) [0..<length s] of None \<Rightarrow> 0 | Some i \<Rightarrow> p + of_nat i)"
proof (induction s arbitrary: p)
  case Nil
  then show ?case by (subst strchr.simps) simp
next
  case (Cons c s)
  have "find (\<lambda>i. (c # s) ! i = ch) [0..<Suc (length s)] =
    (if c = ch then Some 0 else map_option Suc (find (\<lambda>i. s ! i = ch) [0..<length s]))"
    by (simp add: upt_conv_Cons find_shift del: upt_Suc)
  with Cons show ?case
    by (subst strchr.simps) (auto simp: add.assoc simp del: upt_Suc split: option.splits)
qed

lemma memset_loop_bytes: "n \<le> 2 ^ 32 \<Longrightarrow> bytes_at (memset_loop p c n m) p n = replicate n c"
  by (rule nth_equalityI) (simp_all add: bytes_at_def memset_loop_at)

lemma memset_bytes_at: "bytes_at (memset p c n m) p (unat n) = replicate (unat n) (ucast c)"
  using u32_less [of n] by (simp add: memset_def memset_loop_bytes)

lemma bytes_at_Suc: "bytes_at m r (Suc n) = m r # bytes_at m (r + 1) n"
  by (simp add: bytes_at_def map_upt_Suc add.assoc del: upt_Suc)

lemma bytes_at_cong: "(\<And>a. in_range a p n \<Longrightarrow> m a = m' a) \<Longrightarrow> n \<le> 2 ^ 32 \<Longrightarrow> bytes_at m p n = bytes_at m' p n"
  by (simp add: bytes_at_def)

lemma strncpy_loop_other: "n \<le> 2 ^ 32 \<Longrightarrow> \<not> in_range a p n \<Longrightarrow> strncpy_loop p src n m a = m a"
proof (induction n arbitrary: p src m)
  case (Suc n)
  then show ?case using in_range_Suc [of n a p] by (auto simp: memset_loop_at simp del: memset_loop.simps)
qed simp

text \<open>What \<^verbatim>\<open>strncpy\<close> leaves in a destination apart from the source string.\<close>

lemma cstr_upd: "cstr m p s \<Longrightarrow> \<not> in_range a p (Suc (length s)) \<Longrightarrow> length s < 2 ^ 32 \<Longrightarrow> cstr (m(a := x)) p s"
proof (induction s arbitrary: p)
  case Nil
  then show ?case by (auto simp: in_range_def)
next
  case (Cons c s)
  then have "a \<noteq> p" "\<not> in_range a (p + 1) (Suc (length s))"
    using in_range_Suc [of "Suc (length s)" a p] by auto
  with Cons show ?case by simp
qed

lemma strncpy_loop_at:
  assumes "cstr m src s" "n \<le> 2 ^ 32" "length s < 2 ^ 32 - 1"
    and "\<And>a. in_range a p n \<Longrightarrow> \<not> in_range a src (Suc (length s))"
  shows "bytes_at (strncpy_loop p src n m) p n = take n (s @ replicate n 0)"
  using assms
proof (induction n arbitrary: p src m s)
  case 0
  then show ?case by (simp add: bytes_at_def)
next
  case (Suc n)
  have n: "n < 2 ^ 32" using Suc.prems by simp
  show ?case
  proof (cases s)
    case Nil
    with Suc.prems have "strncpy_loop p src (Suc n) m = memset_loop p 0 (Suc n) m" by simp
    with memset_loop_bytes [OF Suc.prems(2), of p 0 m] Nil show ?thesis
      by (simp del: memset_loop.simps replicate.simps)
  next
    case (Cons c t)
    with Suc.prems have c: "c \<noteq> 0" "m src = c" "cstr m (src + 1) t" by auto
    have t: "length t < 2 ^ 32" using Suc.prems(3) Cons by simp
    have ap: "\<not> in_range a src (Suc (Suc (length t)))" if "in_range a p (Suc n)" for a
      using Suc.prems(4) [OF that] Cons by simp
    have ap': "\<not> in_range a (src + 1) (Suc (length t))" if "in_range a p (Suc n)" for a
      using ap [OF that] Suc.prems(3) Cons in_range_Suc [of "Suc (length t)" a src] by auto
    have p: "in_range p p (Suc n)" by (simp add: in_range_def)
    have "bytes_at (strncpy_loop (p + 1) (src + 1) n (m(p := c))) (p + 1) n = take n (t @ replicate n 0)"
    proof (rule Suc.IH)
      show "cstr (m(p := c)) (src + 1) t" by (rule cstr_upd [OF c(3) ap' [OF p] t])
      show "\<not> in_range a (src + 1) (Suc (length t))" if "in_range a (p + 1) n" for a
        using ap' [of a] that in_range_Suc [OF n, of a p] by blast
    qed (use Suc.prems Cons in auto)
    moreover have "strncpy_loop (p + 1) (src + 1) n (m(p := c)) p = c"
      using strncpy_loop_other [of n p "p + 1" "src + 1" "m(p := c)"] n in_range_start [OF n, of p] by simp
    moreover have "strncpy_loop p src (Suc n) m = strncpy_loop (p + 1) (src + 1) n (m(p := c))"
      using c(1,2) by simp
    moreover have "take n (t @ replicate (Suc n) 0) = take n (t @ replicate n (0 :: u8))"
      by (simp add: min_def del: replicate.simps)
    ultimately show ?thesis
      unfolding Cons by (simp only: bytes_at_Suc) simp
  qed
qed

section \<open>Properties\<close>

text \<open>
  \<^verbatim>\<open>memmove\<close> copies the bytes the source held before the call, however the two ranges
  overlap, and changes nothing outside the destination, as long as neither range wraps
  around the address space.
\<close>

theorem memmove_overlap:
  assumes "unat src + unat n \<le> 2 ^ 32" "unat dst + unat n \<le> 2 ^ 32"
  shows "bytes_at (memmove dst src n m) dst (unat n) = bytes_at m src (unat n)
    \<and> (\<forall>a. \<not> in_range a dst (unat n) \<longrightarrow> memmove dst src n m a = m a)"
  using u32_less [of n] by (auto simp: memmove_at [OF assms] bytes_at_def)

lemma memmove_overlap_witness:
  "bytes_at (memmove 12 10 4 (\<lambda>a. ucast a)) 12 4 = [10, 11, 12, 13]"
proof -
  have "bytes_at (memmove 12 10 4 (\<lambda>a. ucast a)) 12 (unat (4 :: u32)) = bytes_at (\<lambda>a. ucast a) 10 (unat (4 :: u32))"
    using memmove_overlap [of 10 4 12 "\<lambda>a. ucast a"] by simp
  then show ?thesis by (simp add: bytes_at_def upt_rec)
qed

text \<open>
  \<^verbatim>\<open>strncpy\<close> from a string that the destination does not overlap stores the first
  \<^verbatim>\<open>n\<close> characters, pads the rest with zero bytes (so a source of \<^verbatim>\<open>n\<close> or more characters is
  left without a terminator), and changes nothing else.
\<close>

theorem strncpy_pads:
  assumes "cstr m src s" "length s < 2 ^ 32 - 1"
    and "\<forall>a. in_range a dst (unat n) \<longrightarrow> \<not> in_range a src (Suc (length s))"
  shows "bytes_at (strncpy dst src n m) dst (unat n) = take (unat n) (s @ replicate (unat n) 0)
    \<and> (\<forall>a. \<not> in_range a dst (unat n) \<longrightarrow> strncpy dst src n m a = m a)"
proof -
  have n: "unat n \<le> 2 ^ 32" using u32_less [of n] by simp
  show ?thesis
    unfolding strncpy_def
    using strncpy_loop_at [OF assms(1) n assms(2)] assms(3) strncpy_loop_other [OF n] by blast
qed

lemma strncpy_pads_witness:
  "bytes_at (strncpy 100 10 4 ((\<lambda>_. 7)(10 := 104, 11 := 105, 12 := 0))) 100 4 = [104, 105, 0, 0]"
proof -
  let ?m = "(\<lambda>_. 7)(10 := 104, 11 := 105, 12 := 0) :: bytes"
  have "\<not> in_range a 10 (Suc (length [104 :: u8, 105]))" if "in_range a 100 (unat (4 :: u32))" for a
  proof
    assume "in_range a 10 (Suc (length [104 :: u8, 105]))"
    then have "unat (a - 10) < 3" by (simp add: in_range_def)
    moreover have "unat (a - 100) < 4" using that by (simp add: in_range_def)
    then have "unat ((a - 100) + 90) = unat (a - 100) + unat (90 :: u32)"
      by (subst unat_add_lem [THEN iffD1]) auto
    ultimately show False by simp
  qed
  moreover have two: "replicate 2 (0 :: u8) = [0, 0]" by (simp add: numeral_2_eq_2)
  ultimately show ?thesis
    using strncpy_pads [of ?m 10 "[104, 105]" 100 4]
    by simp
qed

end
