(* ===== verification/Paging.thy ===== *)
theory Paging
  imports Pmm CMem
begin

text \<open>
  Virtual memory, \<^verbatim>\<open>src/src/mm/paging.c\<close>: two-level i386 page tables in memory, mapping,
  unmapping, walking and checking user ranges, and the life of an address space.

  The kernel reads and writes page tables and frames through its linear map
  (\<^verbatim>\<open>phys_to_virt\<close>), so the memory \<open>kmem\<close> is indexed by kernel virtual addresses and the
  physical byte at \<open>p\<close> is \<open>kmem (phys_to_virt p)\<close>. The translation cache of the processor is
  part of the state: \<^verbatim>\<open>invlpg\<close> drops one page from it, loading \<^verbatim>\<open>cr3\<close> drops all.
\<close>

declare upt_rec_numeral [simp del]

section \<open>State and accessors\<close>

abbreviation PAGE_PRESENT :: u32 where "PAGE_PRESENT \<equiv> 1"
abbreviation PAGE_RW :: u32 where "PAGE_RW \<equiv> 2"
abbreviation PAGE_USER :: u32 where "PAGE_USER \<equiv> 4"
definition MAX_TABLES :: u32 where "MAX_TABLES = 17"
definition KERNEL_PDE_START :: u32 where "KERNEL_PDE_START = drop_bit 22 KERNEL_VIRT_BASE"

text \<open>\<open>tlb\<close> maps page numbers to the page table entry the processor has cached.\<close>

record vm_state =
  vpm :: pmm_state
  kmem :: bytes
  cr3 :: u32
  kernel_directory_phys :: u32
  tlb :: "u32 \<Rightarrow> u32 option"

text \<open>The 32-bit words of a page table or directory: \<open>phys_to_virt(f)[i]\<close>.\<close>

definition entry :: "bytes \<Rightarrow> u32 \<Rightarrow> u32 \<Rightarrow> u32" where
  "entry m f i = ld32 m (phys_to_virt f + 4 * i)"

definition set_entry :: "u32 \<Rightarrow> u32 \<Rightarrow> u32 \<Rightarrow> bytes \<Rightarrow> bytes" where
  "set_entry f i v m = st32 (phys_to_virt f + 4 * i) v m"

definition pd_index :: "u32 \<Rightarrow> u32" where "pd_index vaddr = drop_bit 22 vaddr"
definition pt_index :: "u32 \<Rightarrow> u32" where "pt_index vaddr = drop_bit 12 vaddr AND 0x3ff"

definition paging_get_current_directory :: "vm_state \<Rightarrow> u32" where
  "paging_get_current_directory s = cr3 s"

definition paging_switch_directory :: "u32 \<Rightarrow> vm_state \<Rightarrow> vm_state" where
  "paging_switch_directory pd_phys s = s\<lparr>cr3 := pd_phys, tlb := (\<lambda>_. None)\<rparr>"

definition invlpg :: "u32 \<Rightarrow> vm_state \<Rightarrow> vm_state" where
  "invlpg vaddr s = s\<lparr>tlb := (tlb s)(drop_bit 12 vaddr := None)\<rparr>"

definition vm_alloc :: "vm_state \<Rightarrow> (u32 \<times> vm_state) option" where
  "vm_alloc s = (case pmm_alloc_frame (vpm s) of None \<Rightarrow> None | Some (a, p) \<Rightarrow> Some (a, s\<lparr>vpm := p\<rparr>))"

definition vm_free :: "u32 \<Rightarrow> vm_state \<Rightarrow> vm_state" where
  "vm_free a s = s\<lparr>vpm := pmm_free_frame a (vpm s)\<rparr>"

section \<open>Operations\<close>

definition paging_create_address_space :: "vm_state \<Rightarrow> (u32 \<times> vm_state) option" where
  "paging_create_address_space s =
     (case vm_alloc s of None \<Rightarrow> None
      | Some (pd_phys, s1) \<Rightarrow>
          (let m1 = memset (phys_to_virt pd_phys) 0 PAGE_SIZE (kmem s1);
               kpd = kernel_directory_phys s1;
               m2 = fold (\<lambda>i m. set_entry pd_phys (of_nat i) (entry m kpd (of_nat i)) m)
                      [unat KERNEL_PDE_START ..< 1024] m1
           in Some (pd_phys, s1\<lparr>kmem := m2\<rparr>)))"

text \<open>The two loops of \<^verbatim>\<open>paging_destroy_address_space\<close>, inner and outer.\<close>

definition free_table :: "u32 \<Rightarrow> vm_state \<Rightarrow> vm_state" where
  "free_table pt_phys s =
     vm_free pt_phys (fold (\<lambda>pte_idx s.
        (let pte = entry (kmem s) pt_phys (of_nat pte_idx)
         in if pte AND PAGE_PRESENT \<noteq> 0 then vm_free (page_down pte) s else s)) [0..<1024] s)"

definition paging_destroy_address_space :: "u32 \<Rightarrow> vm_state \<Rightarrow> vm_state" where
  "paging_destroy_address_space pd_phys s =
     vm_free pd_phys (fold (\<lambda>pde_idx s.
        (let pde = entry (kmem s) pd_phys (of_nat pde_idx)
         in if pde AND PAGE_PRESENT = 0 then s
            else if unat KERNEL_PDE_START \<le> pde_idx then s
            else free_table (page_down pde) s)) [0..<1024] s)"

text \<open>
  The first half of \<^verbatim>\<open>paging_map_page\<close>: a page table for the address. The status is the C
  return value: 0 for success, 1 when the frame allocator returns 0.
\<close>

definition ensure_table :: "u32 \<Rightarrow> u32 \<Rightarrow> u32 \<Rightarrow> vm_state \<Rightarrow> (nat \<times> vm_state) option" where
  "ensure_table pd_phys vaddr flags s =
     (let i = pd_index vaddr;
          pde = entry (kmem s) pd_phys i
      in if pde AND PAGE_PRESENT = 0 then
           (case vm_alloc s of None \<Rightarrow> None
            | Some (pt_phys, s1) \<Rightarrow>
                if pt_phys = 0 then Some (1, s1)
                else Some (0, s1\<lparr>kmem := set_entry pd_phys i (pt_phys OR PAGE_PRESENT OR PAGE_RW OR (flags AND PAGE_USER))
                                   (memset (phys_to_virt pt_phys) 0 PAGE_SIZE (kmem s1))\<rparr>))
         else if flags AND PAGE_USER \<noteq> 0
         then Some (0, s\<lparr>kmem := set_entry pd_phys i (pde OR PAGE_USER) (kmem s)\<rparr>)
         else Some (0, s))"

definition paging_map_page :: "u32 \<Rightarrow> u32 \<Rightarrow> u32 \<Rightarrow> u32 \<Rightarrow> vm_state \<Rightarrow> (nat \<times> vm_state) option" where
  "paging_map_page pd_phys vaddr paddr flags s =
     (case ensure_table pd_phys vaddr flags s of None \<Rightarrow> None
      | Some (st, s1) \<Rightarrow>
          if st \<noteq> 0 then Some (st, s1)
          else (let pt = page_down (entry (kmem s1) pd_phys (pd_index vaddr));
                    s2 = s1\<lparr>kmem := set_entry pt (pt_index vaddr)
                              (page_down paddr OR (flags AND 0xfff) OR PAGE_PRESENT) (kmem s1)\<rparr>
                in Some (0, if pd_phys = paging_get_current_directory s2 then invlpg vaddr s2 else s2)))"

definition paging_unmap_page :: "u32 \<Rightarrow> u32 \<Rightarrow> vm_state \<Rightarrow> vm_state" where
  "paging_unmap_page pd_phys vaddr s =
     (let pde = entry (kmem s) pd_phys (pd_index vaddr)
      in if pde AND PAGE_PRESENT = 0 then s
         else (let s1 = s\<lparr>kmem := set_entry (page_down pde) (pt_index vaddr) 0 (kmem s)\<rparr>
               in if pd_phys = paging_get_current_directory s1 then invlpg vaddr s1 else s1))"

text \<open>\<open>pdir\<close> and \<open>ptabs\<close> are the link-time addresses of \<^verbatim>\<open>page_directory\<close> and \<^verbatim>\<open>page_tables\<close>.\<close>

definition paging_init :: "u32 \<Rightarrow> u32 \<Rightarrow> u32 \<Rightarrow> vm_state \<Rightarrow> vm_state" where
  "paging_init pdir ptabs highest_addr s =
     (let num_tables0 = highest_addr div 0x400000 + 1;
          num_tables = (if num_tables0 > MAX_TABLES then MAX_TABLES else num_tables0);
          m0 = fold (\<lambda>i m. st32 (pdir + 4 * of_nat i) 0 m) [0..<1024] (kmem s);
          m1 = fold (\<lambda>t m.
                 (let table = ptabs + PAGE_SIZE * of_nat t;
                      m' = fold (\<lambda>i m.
                             (let phys_addr = of_nat t * 0x400000 + of_nat i * 0x1000
                              in st32 (table + 4 * of_nat i) (phys_addr OR PAGE_PRESENT OR PAGE_RW) m)) [0..<1024] m;
                      pt_phys = table - KERNEL_VIRT_BASE
                  in st32 (pdir + 4 * (KERNEL_PDE_START + of_nat t)) (pt_phys OR PAGE_PRESENT OR PAGE_RW) m'))
                 [0..<unat num_tables] m0;
          pd_phys = pdir - KERNEL_VIRT_BASE
      in (paging_switch_directory pd_phys (s\<lparr>kmem := m1\<rparr>))\<lparr>kernel_directory_phys := pd_phys\<rparr>)"

definition paging_kernel_directory :: "vm_state \<Rightarrow> u32" where
  "paging_kernel_directory s = kernel_directory_phys s"

text \<open>The physical address, or \<open>None\<close> for the return value 1.\<close>

definition paging_walk :: "u32 \<Rightarrow> u32 \<Rightarrow> bytes \<Rightarrow> u32 option" where
  "paging_walk pd_phys vaddr m =
     (let pde = entry m pd_phys (pd_index vaddr)
      in if pde AND PAGE_PRESENT = 0 then None
         else (let pte = entry m (page_down pde) (pt_index vaddr)
               in if pte AND PAGE_PRESENT = 0 then None
                  else Some (page_down pte OR (vaddr AND 0xfff))))"

function validate_loop :: "u32 \<Rightarrow> u32 \<Rightarrow> u32 \<Rightarrow> bool \<Rightarrow> bytes \<Rightarrow> bool" where
  "validate_loop pd_phys page end_page need_write m =
     (if page \<le> end_page then
        (let pde = entry m pd_phys (pd_index page) in
         if pde AND PAGE_PRESENT = 0 then False
         else if pde AND PAGE_USER = 0 then False
         else (let pte = entry m (page_down pde) (pt_index page) in
               if pte AND PAGE_PRESENT = 0 then False
               else if pte AND PAGE_USER = 0 then False
               else if need_write \<and> pte AND PAGE_RW = 0 then False
               else if page > 0xfffff000 - PAGE_SIZE then True
               else validate_loop pd_phys (page + PAGE_SIZE) end_page need_write m))
      else True)"
  by pat_completeness auto
termination
proof (relation "measure (\<lambda>(pd, page, e, w, m). 2 ^ 32 - unat page)")
  show "((pd, page + PAGE_SIZE, e, w, m), (pd, page, e, w, m)) \<in> measure (\<lambda>(pd, page, e, w, m). 2 ^ 32 - unat page)"
    if "\<not> page > 0xfffff000 - PAGE_SIZE" for pd page e :: u32 and w :: bool and m :: bytes
  proof -
    have "unat (page + PAGE_SIZE) = unat page + 4096"
      using that by (subst unat_add_lem [THEN iffD1]) (auto simp: word_less_nat_alt)
    with u32_less [of page] show ?thesis by simp
  qed
qed simp

declare validate_loop.simps [simp del]

definition paging_validate_user_range :: "u32 \<Rightarrow> u32 \<Rightarrow> u32 \<Rightarrow> bool \<Rightarrow> bytes \<Rightarrow> bool" where
  "paging_validate_user_range pd_phys vaddr sz need_write m =
     (if sz = 0 then True
      else (let start = page_down vaddr;
                end_page = page_down (vaddr + sz - 1)
            in if vaddr + sz < vaddr then False
               else validate_loop pd_phys start end_page need_write m))"

section \<open>Pages and entries in memory\<close>

definition page_aligned :: "u32 \<Rightarrow> bool" where
  "page_aligned f \<longleftrightarrow> unat f mod 4096 = 0"

lemma page_down_aligned [simp]: "page_aligned (page_down a)"
  by (simp add: page_aligned_def unat_page_down)

lemma page_down_id: "page_aligned f \<Longrightarrow> page_down f = f"
  using mult_div_mod_eq [of 4096 "unat f"] by (simp add: page_aligned_def word_unat_eq_iff unat_page_down)

lemma page_down_eq: "page_down a = page_down b \<longleftrightarrow> pgno a = pgno b"
  by (simp add: word_unat_eq_iff unat_page_down pgno_def)

lemma pgno_page_down [simp]: "pgno (page_down a) = pgno a"
  by (simp add: pgno_def unat_page_down)

lemma page_aligned_frame_addr [simp]: "n < frame_limit \<Longrightarrow> page_aligned (frame_addr n)"
  by (simp add: page_aligned_def unat_frame_addr)

lemma page_alignedE:
  assumes "page_aligned f"
  obtains k where "unat f = 4096 * k" "k < 2 ^ 20"
proof -
  have "unat f = 4096 * (unat f div 4096)"
    using assms mult_div_mod_eq [of 4096 "unat f"] by (simp add: page_aligned_def)
  with u32_less [of f] that show thesis by auto
qed

lemma unat_page_offset:
  assumes "page_aligned f" "unat x < 4096"
  shows "unat (f + x) = unat f + unat x"
proof -
  from assms(1) obtain k where "unat f = 4096 * k" "k < 2 ^ 20" by (rule page_alignedE)
  with assms(2) show ?thesis by (subst unat_add_lem [THEN iffD1]) auto
qed

lemma page_split:
  assumes "page_aligned f" "page_aligned g" "unat x < 4096" "unat y < 4096"
  shows "f + x = g + y \<longleftrightarrow> f = g \<and> x = y"
proof
  assume "f + x = g + y"
  then have e: "unat f + unat x = unat g + unat y"
    using assms by (metis unat_page_offset)
  obtain k l where k: "unat f = 4096 * k" "unat g = 4096 * l"
    using assms(1,2) by (metis page_alignedE)
  have d: "(4096 * k + unat x) div 4096 = k" "(4096 * l + unat y) div 4096 = l"
    using assms(3,4) by simp_all
  have "k = l" using e d unfolding k by simp
  with e k show "f = g \<and> x = y" by (simp add: word_unat_eq_iff)
qed simp

text \<open>The byte addresses of a page.\<close>

lemma page_bytes:
  assumes "page_aligned f" "page_aligned g" "f \<noteq> g" "unat x < 4096"
  shows "\<not> in_range (phys_to_virt g + x) (phys_to_virt f) 4096"
proof
  let ?y = "phys_to_virt g + x - phys_to_virt f"
  assume "in_range (phys_to_virt g + x) (phys_to_virt f) 4096"
  then have "unat ?y < 4096" by (simp add: in_range_def)
  moreover have "f + ?y = g + x" by (simp add: phys_to_virt_def)
  ultimately show False using page_split [OF assms(1,2), of ?y x] assms(3,4) by simp
qed

lemma unat_entry_byte:
  assumes "i < 1024" "k < 4"
  shows "unat (4 * i + k :: u32) = 4 * unat i + unat k" "unat (4 * i + k) < 4096"
proof -
  have i: "unat i < 1024" and k: "unat k < 4" using assms by (simp_all add: word_less_nat_alt)
  have "unat (4 * i) = 4 * unat i" using i by (subst unat_mult_lem [THEN iffD1]) auto
  with i k show "unat (4 * i + k) = 4 * unat i + unat k"
    by (subst unat_add_lem [THEN iffD1]) auto
  with i k show "unat (4 * i + k) < 4096" by simp
qed

lemma entry_byte_inj:
  assumes "page_aligned f" "page_aligned g" "i < 1024" "j < 1024" "k < 4" "l < 4"
  shows "phys_to_virt f + 4 * i + k = phys_to_virt g + 4 * j + l \<longleftrightarrow> f = g \<and> i = j \<and> k = l"
proof -
  note e = unat_entry_byte [OF assms(3,5)] unat_entry_byte [OF assms(4,6)]
  have "phys_to_virt f + 4 * i + k = phys_to_virt g + 4 * j + l \<longleftrightarrow> f + (4 * i + k) = g + (4 * j + l)"
    by (simp add: phys_to_virt_def algebra_simps)
  also have "\<dots> \<longleftrightarrow> f = g \<and> 4 * i + k = 4 * j + l"
    using page_split [OF assms(1,2) e(2,4)] .
  also have "4 * i + k = 4 * j + l \<longleftrightarrow> i = j \<and> k = l"
  proof
    assume "4 * i + k = 4 * j + l"
    then have "4 * unat i + unat k = 4 * unat j + unat l" using e by metis
    moreover have "unat k < 4" "unat l < 4" using assms(5,6) by (simp_all add: word_less_nat_alt)
    ultimately have "unat i = unat j \<and> unat k = unat l" by presburger
    then show "i = j \<and> k = l" by (simp add: word_unat_eq_iff)
  qed simp
  finally show ?thesis .
qed

text \<open>Reading an entry after writing one, and after a write elsewhere.\<close>

lemma entry_set_entry [mem_simps]:
  assumes "page_aligned f" "page_aligned g" "i < 1024" "j < 1024"
  shows "entry (set_entry f i v m) g j = (if f = g \<and> i = j then v else entry m g j)"
proof (cases "f = g \<and> i = j")
  case True
  then show ?thesis by (simp add: entry_def set_entry_def mem_simps)
next
  case False
  have "phys_to_virt g + 4 * j + l \<notin> {phys_to_virt f + 4 * i, phys_to_virt f + 4 * i + 1,
    phys_to_virt f + 4 * i + 2, phys_to_virt f + 4 * i + 3}" if "l < 4" for l
    using False that entry_byte_inj [OF assms(2,1,4,3), of l 0] entry_byte_inj [OF assms(2,1,4,3), of l 1]
      entry_byte_inj [OF assms(2,1,4,3), of l 2] entry_byte_inj [OF assms(2,1,4,3), of l 3] by auto
  from this [of 0] this [of 1] this [of 2] this [of 3]
  have "entry (set_entry f i v m) g j = entry m g j"
    unfolding entry_def set_entry_def by (intro ld32_cong) (auto simp: st32_other)
  with False show ?thesis by auto
qed

lemma entry_memset_page [mem_simps]:
  assumes "page_aligned f" "page_aligned g" "j < 1024"
  shows "entry (memset (phys_to_virt f) 0 PAGE_SIZE m) g j = (if f = g then 0 else entry m g j)"
proof (cases "f = g")
  case True
  have "in_range (phys_to_virt f + 4 * j + l) (phys_to_virt f) 4096" if "l < 4" for l
    using unat_entry_byte(2) [OF assms(3) that] by (simp add: in_range_def algebra_simps)
  from this [of 0] this [of 1] this [of 2] this [of 3] True show ?thesis
    by (simp add: entry_def ld32_def memset_at)
next
  case False
  have "\<not> in_range (phys_to_virt g + 4 * j + l) (phys_to_virt f) 4096" if "l < 4" for l
    using page_bytes [OF assms(1,2) False unat_entry_byte(2) [OF assms(3) that]] by (simp add: add.assoc)
  from this [of 0] this [of 1] this [of 2] this [of 3] False show ?thesis
    by (simp add: entry_def ld32_def memset_at)
qed

lemma pd_index_less [simp]: "pd_index va < 1024"
  using u32_less [of va] by (simp add: pd_index_def word_less_nat_alt unat_drop_bit_eq) (simp add: drop_bit_eq_div)

lemma pt_index_less [simp]: "pt_index va < 1024"
proof -
  have "pt_index va \<le> 0x3ff" by (simp add: pt_index_def word_and_le1)
  then show ?thesis by (simp add: word_le_nat_alt word_less_nat_alt)
qed

lemma flag_bits [simp]:
  "x AND 1 = 0 \<longleftrightarrow> \<not> bit x 0" "x AND 2 = 0 \<longleftrightarrow> \<not> bit x 1" "x AND 4 = 0 \<longleftrightarrow> \<not> bit x 2" for x :: u32
  using and_exp_eq_0_iff_not_bit [of x 0] and_exp_eq_0_iff_not_bit [of x 1] and_exp_eq_0_iff_not_bit [of x 2]
  by simp_all

lemma page_down_or [simp]: "page_down (a OR b) = page_down a OR page_down b"
  by (simp add: page_down_def word_ao_dist)

lemma page_down_flags [simp]:
  "page_down 0 = 0" "page_down 1 = 0" "page_down 2 = 0" "page_down 4 = 0" "page_down (x AND 0xfff) = 0" "page_down (x AND 4) = 0"
  by (simp_all add: page_down_def word_bw_assocs)

lemma page_down_twice [simp]: "page_down (page_down a) = page_down a"
  by (simp add: page_down_id)

lemma bit_page_down: "bit (page_down a) k \<longleftrightarrow> bit a k \<and> 12 \<le> k"
  using bit_imp_le_length [of a k] by (auto simp: page_down_def page_mask bit_simps)

lemma page_aligned_bit: "page_aligned a \<Longrightarrow> k < 12 \<Longrightarrow> \<not> bit a k"
  using bit_page_down [of a k] by (simp add: page_down_id)

lemma page_of_indices: "pd_index a = pd_index b \<and> pt_index a = pt_index b \<longleftrightarrow> pgno a = pgno b"
proof -
  have d: "unat (pd_index x) = pgno x div 1024" for x
    by (simp add: pd_index_def pgno_def unat_drop_bit_eq) (simp add: drop_bit_eq_div div_mult2_eq [symmetric])
  have t: "unat (pt_index x) = pgno x mod 1024" for x
  proof -
    have "pt_index x = take_bit 10 (drop_bit 12 x)"
      by (simp add: pt_index_def take_bit_eq_mask mask_eq_exp_minus_1)
    then show ?thesis
      by (simp add: pgno_def unat_drop_bit_eq unsigned_take_bit_eq) (simp add: drop_bit_eq_div take_bit_eq_mod)
  qed
  have "pgno a = pgno b" if "pgno a div 1024 = pgno b div 1024" "pgno a mod 1024 = pgno b mod 1024"
    using that by (metis div_mult_mod_eq)
  then show ?thesis by (auto simp: word_unat_eq_iff d t)
qed

section \<open>Well-formed address spaces\<close>

text \<open>
  \<open>aspace_ok s pd\<close>: \<open>pd\<close> is an allocated frame, the tables of its present entries are
  allocated, distinct, and other than \<open>pd\<close> itself.
\<close>

definition pd_present :: "bytes \<Rightarrow> u32 \<Rightarrow> u32 \<Rightarrow> bool" where
  "pd_present m pd i \<longleftrightarrow> bit (entry m pd i) 0"

definition table_at :: "bytes \<Rightarrow> u32 \<Rightarrow> u32 \<Rightarrow> u32" where
  "table_at m pd i = page_down (entry m pd i)"

lemma table_at_aligned [simp]: "page_aligned (table_at m pd i)"
  by (simp add: table_at_def)

definition tables_ok :: "bytes \<Rightarrow> u32 \<Rightarrow> bool" where
  "tables_ok m pd \<longleftrightarrow> page_aligned pd \<and> (\<forall>i < 1024. pd_present m pd i \<longrightarrow> table_at m pd i \<noteq> pd
     \<and> (\<forall>j < 1024. pd_present m pd j \<longrightarrow> table_at m pd i = table_at m pd j \<longrightarrow> i = j))"

definition aspace_ok :: "vm_state \<Rightarrow> u32 \<Rightarrow> bool" where
  "aspace_ok s pd \<longleftrightarrow> pmm_ok (vpm s) \<and> tables_ok (kmem s) pd \<and> frame_used (vpm s) (pgno pd)
     \<and> (\<forall>i < 1024. pd_present (kmem s) pd i \<longrightarrow> frame_used (vpm s) (pgno (table_at (kmem s) pd i)))"

lemma paging_walk_table:
  "paging_walk pd va m =
     (if pd_present m pd (pd_index va) \<and> bit (entry m (table_at m pd (pd_index va)) (pt_index va)) 0
      then Some (page_down (entry m (table_at m pd (pd_index va)) (pt_index va)) OR (va AND 0xfff)) else None)"
  by (simp add: paging_walk_def pd_present_def table_at_def Let_def)

lemma tables_ok_aligned: "tables_ok m pd \<Longrightarrow> page_aligned pd"
  by (simp add: tables_ok_def)

lemma tables_ok_apart: "tables_ok m pd \<Longrightarrow> pd_present m pd i \<Longrightarrow> i < 1024 \<Longrightarrow> table_at m pd i \<noteq> pd"
  by (simp add: tables_ok_def)

lemma tables_ok_inj: "tables_ok m pd \<Longrightarrow> pd_present m pd i \<Longrightarrow> pd_present m pd j \<Longrightarrow> i < 1024 \<Longrightarrow> j < 1024 \<Longrightarrow>
  table_at m pd i = table_at m pd j \<longleftrightarrow> i = j"
  by (auto simp: tables_ok_def)

lemma page_aligned_pgno: "page_aligned f \<Longrightarrow> page_aligned g \<Longrightarrow> pgno f = pgno g \<longleftrightarrow> f = g"
  by (metis page_down_eq page_down_id)

text \<open>Writing an entry of a table leaves the directory as it is.\<close>

lemma set_table_entry:
  assumes "tables_ok m pd" "pd_present m pd i" "i < 1024" "k < 1024" and m': "m' = set_entry (table_at m pd i) k v m"
  shows "tables_ok m' pd" "j < 1024 \<Longrightarrow> pd_present m' pd j = pd_present m pd j"
    "j < 1024 \<Longrightarrow> table_at m' pd j = table_at m pd j"
    "pd_present m pd j \<Longrightarrow> j < 1024 \<Longrightarrow> l < 1024 \<Longrightarrow>
      entry m' (table_at m pd j) l = (if j = i \<and> l = k then v else entry m (table_at m pd j) l)"
proof -
  have "entry m' pd j = entry m pd j" if "j < 1024" for j
    using that assms tables_ok_aligned [OF assms(1)] tables_ok_apart [OF assms(1-3)] by (simp add: m' mem_simps)
  then show same: "j < 1024 \<Longrightarrow> pd_present m' pd j = pd_present m pd j"
    "j < 1024 \<Longrightarrow> table_at m' pd j = table_at m pd j" for j
    by (simp_all add: pd_present_def table_at_def)
  then show "tables_ok m' pd" using assms(1) by (simp add: tables_ok_def)
  show "entry m' (table_at m pd j) l = (if j = i \<and> l = k then v else entry m (table_at m pd j) l)"
    if "pd_present m pd j" "j < 1024" "l < 1024"
    using that assms tables_ok_inj [OF assms(1,2) that(1) assms(3) that(2)] by (auto simp: m' mem_simps)
qed

text \<open>The page table entry of an address, 0 when there is no table.\<close>

definition leaf :: "bytes \<Rightarrow> u32 \<Rightarrow> u32 \<Rightarrow> u32" where
  "leaf m pd va = (if pd_present m pd (pd_index va) then entry m (table_at m pd (pd_index va)) (pt_index va) else 0)"

lemma paging_walk_leaf:
  "paging_walk pd va m = (if bit (leaf m pd va) 0 then Some (page_down (leaf m pd va) OR (va AND 0xfff)) else None)"
  by (simp add: paging_walk_table leaf_def)

lemma leaf_cong: "pgno a = pgno b \<Longrightarrow> leaf m pd a = leaf m pd b"
  using page_of_indices [of a b] by (simp add: leaf_def)

lemma leaf_set_table_entry:
  assumes "tables_ok m pd" "pd_present m pd (pd_index va)"
  shows "leaf (set_entry (table_at m pd (pd_index va)) (pt_index va) v m) pd vb
    = (if pgno vb = pgno va then v else leaf m pd vb)"
proof -
  note S = set_table_entry [OF assms pd_index_less pt_index_less refl]
  show ?thesis
    using S(2,3) [where j = "pd_index vb"] S(4) [where j = "pd_index vb" and l = "pt_index vb"] assms(2)
      page_of_indices [of vb va]
    by (auto simp: leaf_def)
qed

lemma vm_alloc_SomeE:
  assumes "vm_alloc s = Some (a, s1)" "pmm_ok (vpm s)"
  obtains p where "s1 = s\<lparr>vpm := p\<rparr>" "pmm_ok p" "page_aligned a" "\<not> frame_used (vpm s) (pgno a)"
    "\<And>n. n < frame_limit \<Longrightarrow> frame_used p n \<longleftrightarrow> n = pgno a \<or> frame_used (vpm s) n"
proof -
  from assms(1) obtain p where p: "pmm_alloc_frame (vpm s) = Some (a, p)" "s1 = s\<lparr>vpm := p\<rparr>"
    by (auto simp: vm_alloc_def split: option.splits)
  have "page_aligned a"
    using pmm.alloc_aligned [OF assms(2) p(1)] page_aligned_frame_addr [OF pgno_less, of a] by simp
  with p pmm.alloc_fresh [OF assms(2) p(1)] pmm.alloc_used [OF assms(2) p(1)] pmm.alloc_wf [OF assms(2) p(1)] that
  show thesis by blast
qed

text \<open>The bits of a directory entry that the processor checks.\<close>

definition tables_rw :: "bytes \<Rightarrow> u32 \<Rightarrow> bool" where
  "tables_rw m pd \<longleftrightarrow> (\<forall>i < 1024. pd_present m pd i \<longrightarrow> bit (entry m pd i) 1)"

lemma new_table:
  assumes "tables_ok m pd" "page_aligned a" "a \<noteq> pd" "i < 1024" "\<not> pd_present m pd i"
    and fresh: "\<forall>j < 1024. pd_present m pd j \<longrightarrow> table_at m pd j \<noteq> a"
    and e: "bit e 0" "page_down e = a" and m': "m' = set_entry pd i e (memset (phys_to_virt a) 0 PAGE_SIZE m)"
  shows "j < 1024 \<Longrightarrow> entry m' pd j = (if j = i then e else entry m pd j)" "tables_ok m' pd"
    "leaf m' pd va = leaf m pd va"
proof -
  note al = tables_ok_aligned [OF assms(1)]
  have d: "entry m' pd j = (if j = i then e else entry m pd j)" if "j < 1024" for j
    using that al assms(2-4) by (simp add: m' mem_simps)
  then show "j < 1024 \<Longrightarrow> entry m' pd j = (if j = i then e else entry m pd j)" .
  have p: "pd_present m' pd j = (j = i \<or> pd_present m pd j)" "table_at m' pd j = (if j = i then a else table_at m pd j)"
    if "j < 1024" for j
    using d [OF that] e by (auto simp: pd_present_def table_at_def)
  show "tables_ok m' pd"
    using assms(1,3) fresh by (auto simp: tables_ok_def p)
  have l: "entry m' (table_at m pd j) k = entry m (table_at m pd j) k" if "j < 1024" "k < 1024" "pd_present m pd j" for j k
    using that al assms(2,4) fresh tables_ok_apart [OF assms(1) that(3,1)] by (auto simp: m' mem_simps)
  have z: "entry m' a k = 0" if "k < 1024" for k
    using that al assms(2-4) by (simp add: m' mem_simps)
  show "leaf m' pd va = leaf m pd va"
    using assms(5) l [OF pd_index_less pt_index_less] z [OF pt_index_less]
    by (auto simp: leaf_def p [OF pd_index_less])
qed

lemma set_dir_flag:
  assumes "tables_ok m pd" "i < 1024" "pd_present m pd i" and m': "m' = set_entry pd i (entry m pd i OR 4) m"
  shows "j < 1024 \<Longrightarrow> entry m' pd j = (if j = i then entry m pd i OR 4 else entry m pd j)" "tables_ok m' pd"
    "leaf m' pd va = leaf m pd va"
proof -
  note al = tables_ok_aligned [OF assms(1)]
  have d: "entry m' pd j = (if j = i then entry m pd i OR 4 else entry m pd j)" if "j < 1024" for j
    using that al assms(2) by (simp add: m' mem_simps)
  then show "j < 1024 \<Longrightarrow> entry m' pd j = (if j = i then entry m pd i OR 4 else entry m pd j)" .
  have p: "pd_present m' pd j = pd_present m pd j" "table_at m' pd j = table_at m pd j" if "j < 1024" for j
    using d [OF that] assms(3) by (auto simp: pd_present_def table_at_def bit_simps)
  show "tables_ok m' pd"
    using assms(1) by (simp add: tables_ok_def p)
  have l: "entry m' (table_at m pd j) k = entry m (table_at m pd j) k" if "j < 1024" "k < 1024" "pd_present m pd j" for j k
    using that al assms(2) tables_ok_apart [OF assms(1) that(3,1)] by (simp add: m' mem_simps)
  show "leaf m' pd va = leaf m pd va"
    using l [OF pd_index_less pt_index_less] by (auto simp: leaf_def p [OF pd_index_less])
qed

section \<open>The frames an address space owns\<close>

text \<open>
  The frames that \<^verbatim>\<open>paging_destroy_address_space\<close> gives back: the directory, the tables below
  \<^verbatim>\<open>KERNEL_PDE_START\<close>, and the frames those tables map. \<open>kept\<close> are the frames in use that
  the address space does not own.
\<close>

definition owned :: "bytes \<Rightarrow> u32 \<Rightarrow> nat set" where
  "owned m pd = insert (pgno pd)
     ({pgno (table_at m pd i) |i. i < KERNEL_PDE_START \<and> pd_present m pd i}
      \<union> {pgno (leaf m pd va) |va. va < KERNEL_VIRT_BASE \<and> bit (leaf m pd va) 0})"

definition kept :: "vm_state \<Rightarrow> u32 \<Rightarrow> nat \<Rightarrow> bool" where
  "kept s pd n \<longleftrightarrow> frame_used (vpm s) n \<and> n \<notin> owned (kmem s) pd"

lemma kernel_pde_start: "KERNEL_PDE_START = 768"
  by (simp add: KERNEL_PDE_START_def KERNEL_VIRT_BASE_def drop_bit_eq_div)

lemma pd_index_kernel: "pd_index va < KERNEL_PDE_START \<longleftrightarrow> va < KERNEL_VIRT_BASE"
  by (simp add: kernel_pde_start KERNEL_VIRT_BASE_def pd_index_def word_less_nat_alt unat_drop_bit_eq)
    (simp add: drop_bit_eq_div less_mult_imp_div_less div_less_iff_less_mult)

lemma owned_new_table:
  assumes "\<And>j. j < 1024 \<Longrightarrow> entry m' pd j = (if j = i then e else entry m pd j)" "\<not> pd_present m pd i"
    and "bit e 0" "page_down e = a" "\<And>va. leaf m' pd va = leaf m pd va" "i < KERNEL_PDE_START"
  shows "owned m' pd = insert (pgno a) (owned m pd)"
proof -
  have lt: "j < 1024" if "j < KERNEL_PDE_START" for j using that by (simp add: kernel_pde_start word_less_nat_alt)
  have "pd_present m' pd j = (j = i \<or> pd_present m pd j)" "table_at m' pd j = (if j = i then a else table_at m pd j)"
    if "j < KERNEL_PDE_START" for j
    using assms(1) [OF lt [OF that]] assms(3,4) by (auto simp: pd_present_def table_at_def)
  then show ?thesis using assms(2,5,6) by (auto simp: owned_def) metis+
qed

lemma owned_same:
  assumes "\<And>j. j < 1024 \<Longrightarrow> pd_present m' pd j = pd_present m pd j"
    and "\<And>j. j < 1024 \<Longrightarrow> table_at m' pd j = table_at m pd j" and "\<And>va. leaf m' pd va = leaf m pd va"
  shows "owned m' pd = owned m pd"
proof -
  have lt: "j < 1024" if "j < KERNEL_PDE_START" for j using that by (simp add: kernel_pde_start word_less_nat_alt)
  show ?thesis unfolding owned_def assms(3) using assms(1,2) lt by (auto 4 4)
qed

lemma owned_leaf:
  assumes "\<And>j. j < 1024 \<Longrightarrow> entry m' pd j = entry m pd j"
    and l: "\<And>vb. leaf m' pd vb = (if pgno vb = pgno va then v else leaf m pd vb)"
    and "\<not> bit (leaf m pd va) 0" "bit v 0" "va < KERNEL_VIRT_BASE"
  shows "owned m' pd = insert (pgno v) (owned m pd)"
proof -
  have lt: "j < 1024" if "j < KERNEL_PDE_START" for j using that by (simp add: kernel_pde_start word_less_nat_alt)
  have *: "pd_present m' pd j = pd_present m pd j" "table_at m' pd j = table_at m pd j" if "j < KERNEL_PDE_START" for j
    using assms(1) [OF lt [OF that]] by (simp_all add: pd_present_def table_at_def)
  have old: "\<not> bit (leaf m pd vb) 0" if "pgno vb = pgno va" for vb
    using assms(3) leaf_cong [OF that] by simp
  show ?thesis
    using assms(4,5) old by (auto simp: owned_def * l)
qed

section \<open>Mapping\<close>

definition upper_user :: "bytes \<Rightarrow> u32 \<Rightarrow> u32 \<Rightarrow> bool" where
  "upper_user m pd va \<longleftrightarrow> pd_present m pd (pd_index va) \<and> bit (entry m pd (pd_index va)) 2"

text \<open>The step from \<open>s\<close> to \<open>s1\<close> prepares a table: it maps nothing and frees nothing.\<close>

definition prepares :: "u32 \<Rightarrow> u32 \<Rightarrow> vm_state \<Rightarrow> vm_state \<Rightarrow> bool" where
  "prepares pd va s s1 \<longleftrightarrow> aspace_ok s1 pd
     \<and> (\<forall>vb. leaf (kmem s1) pd vb = leaf (kmem s) pd vb)
     \<and> (tables_rw (kmem s) pd \<longrightarrow> tables_rw (kmem s1) pd)
     \<and> cr3 s1 = cr3 s \<and> tlb s1 = tlb s \<and> kernel_directory_phys s1 = kernel_directory_phys s
     \<and> (\<forall>n < frame_limit. frame_used (vpm s) n \<longrightarrow> frame_used (vpm s1) n)"

lemma ensure_table_new:
  assumes ok: "aspace_ok s pd" and np: "\<not> pd_present (kmem s) pd (pd_index va)"
    and al: "vm_alloc s = Some (a, s0)" and e: "e = a OR 1 OR 2 OR (flags AND 4)"
    and s1: "s1 = s0\<lparr>kmem := set_entry pd (pd_index va) e (memset (phys_to_virt a) 0 PAGE_SIZE (kmem s0))\<rparr>"
  shows "prepares pd va s s1" "pd_present (kmem s1) pd (pd_index va)"
    "upper_user (kmem s1) pd vb \<longleftrightarrow> upper_user (kmem s) pd vb \<or> pd_index vb = pd_index va \<and> bit flags 2"
    "va < KERNEL_VIRT_BASE \<Longrightarrow> n < frame_limit \<Longrightarrow> kept s1 pd n = kept s pd n"
proof -
  from ok have pm: "pmm_ok (vpm s)" and tabs: "tables_ok (kmem s) pd" and pd: "frame_used (vpm s) (pgno pd)"
    and tu: "\<And>i. i < 1024 \<Longrightarrow> pd_present (kmem s) pd i \<Longrightarrow> frame_used (vpm s) (pgno (table_at (kmem s) pd i))"
    by (auto simp: aspace_ok_def)
  from al pm obtain p where p: "s0 = s\<lparr>vpm := p\<rparr>" "pmm_ok p" "page_aligned a" "\<not> frame_used (vpm s) (pgno a)"
    "\<And>n. n < frame_limit \<Longrightarrow> frame_used p n \<longleftrightarrow> n = pgno a \<or> frame_used (vpm s) n"
    by (rule vm_alloc_SomeE) blast
  have b: "\<not> bit a 0" "\<not> bit a 1" "\<not> bit a 2" using page_aligned_bit [OF p(3)] by simp_all
  have ne: "a \<noteq> pd" "\<forall>j < 1024. pd_present (kmem s) pd j \<longrightarrow> table_at (kmem s) pd j \<noteq> a"
    using p(4) pd tu by auto
  have eb: "bit e 0" "bit e 1" "bit e 2 \<longleftrightarrow> bit flags 2" "page_down e = a"
    using b page_down_id [OF p(3)] by (auto simp: e bit_simps)
  note N = new_table [OF tabs p(3) ne(1) pd_index_less np ne(2) eb(1,4), where m' = "kmem s1"]
  have m1: "kmem s1 = set_entry pd (pd_index va) e (memset (phys_to_virt a) 0 PAGE_SIZE (kmem s))"
    by (simp add: s1 p(1))
  note E = N(1) [OF m1] and T = N(2) [OF m1] and L = N(3) [OF m1]
  have P: "pd_present (kmem s1) pd j = (j = pd_index va \<or> pd_present (kmem s) pd j)"
    "table_at (kmem s1) pd j = (if j = pd_index va then a else table_at (kmem s) pd j)" if "j < 1024" for j
    using E [OF that] eb by (auto simp: pd_present_def table_at_def)
  show "pd_present (kmem s1) pd (pd_index va)" by (simp add: P)
  show "kept s1 pd n = kept s pd n" if "va < KERNEL_VIRT_BASE" "n < frame_limit"
  proof -
    have "owned (kmem s1) pd = insert (pgno a) (owned (kmem s) pd)"
      using that(1) by (intro owned_new_table [OF E np eb(1,4) L]) (simp_all add: pd_index_kernel)
    with p(4,5) that(2) show ?thesis by (auto simp: kept_def s1 p(1))
  qed
  show "upper_user (kmem s1) pd vb \<longleftrightarrow> upper_user (kmem s) pd vb \<or> pd_index vb = pd_index va \<and> bit flags 2"
    using np eb E [OF pd_index_less, of vb] by (auto simp: upper_user_def P)
  have "aspace_ok s1 pd"
    using T p(2,5) pd tu by (auto simp: aspace_ok_def s1 p(1) P [unfolded s1 p(1), simplified] pgno_less)
  moreover have "tables_rw (kmem s) pd \<longrightarrow> tables_rw (kmem s1) pd"
    using eb E by (auto simp: tables_rw_def P)
  ultimately show "prepares pd va s s1"
    using L p(5) by (simp add: prepares_def) (simp add: s1 p(1))
qed

lemma ensure_table_ok:
  assumes ok: "aspace_ok s pd" and "ensure_table pd va flags s = Some (st, s1)"
  shows "prepares pd va s s1" "st = 0 \<Longrightarrow> pd_present (kmem s1) pd (pd_index va)"
    "st = 0 \<Longrightarrow> upper_user (kmem s1) pd vb \<longleftrightarrow> upper_user (kmem s) pd vb \<or> pd_index vb = pd_index va \<and> bit flags 2"
    "st = 0 \<Longrightarrow> va < KERNEL_VIRT_BASE \<Longrightarrow> n < frame_limit \<Longrightarrow> kept s1 pd n = kept s pd n"
proof -
  let ?i = "pd_index va" and ?e = "entry (kmem s) pd (pd_index va)"
  from ok have tabs: "tables_ok (kmem s) pd" by (simp add: aspace_ok_def)
  have "prepares pd va s s1 \<and> (st = 0 \<longrightarrow> pd_present (kmem s1) pd ?i \<and>
    (upper_user (kmem s1) pd vb \<longleftrightarrow> upper_user (kmem s) pd vb \<or> pd_index vb = ?i \<and> bit flags 2)
    \<and> (va < KERNEL_VIRT_BASE \<longrightarrow> n < frame_limit \<longrightarrow> kept s1 pd n = kept s pd n))"
  proof (cases "pd_present (kmem s) pd ?i")
    case False
    with assms(2) obtain a s0 where a: "vm_alloc s = Some (a, s0)"
      "if a = 0 then st = 1 \<and> s1 = s0 else st = 0 \<and> s1 = s0\<lparr>kmem := set_entry pd ?i (a OR 1 OR 2 OR (flags AND 4))
         (memset (phys_to_virt a) 0 PAGE_SIZE (kmem s0))\<rparr>"
      by (auto simp: ensure_table_def Let_def pd_present_def split: option.splits if_splits)
    show ?thesis
    proof (cases "a = 0")
      case True
      with ok a show ?thesis
        by (auto simp: prepares_def aspace_ok_def elim!: vm_alloc_SomeE) (auto simp: pgno_less)
    next
      case nz: False
      with a(2) have s1: "s1 = s0\<lparr>kmem := set_entry pd ?i (a OR 1 OR 2 OR (flags AND 4))
        (memset (phys_to_virt a) 0 PAGE_SIZE (kmem s0))\<rparr>" by simp
      show ?thesis
        using ensure_table_new(1,2) [OF ok False a(1) refl s1] ensure_table_new(3) [OF ok False a(1) refl s1, of vb]
          ensure_table_new(4) [OF ok False a(1) refl s1, of n]
        by simp
    qed
  next
    case True
    show ?thesis
    proof (cases "bit flags 2")
      case False
      with True assms(2) have "s1 = s" by (simp add: ensure_table_def Let_def pd_present_def)
      with ok True False show ?thesis by (simp add: prepares_def)
    next
      case user: True
      define m1 where "m1 = set_entry pd ?i (?e OR 4) (kmem s)"
      from True user assms(2) have s1: "s1 = s\<lparr>kmem := m1\<rparr>"
        by (simp add: ensure_table_def Let_def pd_present_def m1_def)
      note F = set_dir_flag [OF tabs pd_index_less True m1_def]
      have P: "pd_present m1 pd j = pd_present (kmem s) pd j" "table_at m1 pd j = table_at (kmem s) pd j"
        "bit (entry m1 pd j) (Suc 0) = bit (entry (kmem s) pd j) (Suc 0)"
        "bit (entry m1 pd j) 2 = (j = ?i \<or> bit (entry (kmem s) pd j) 2)" if "j < 1024" for j
        using F(1) [OF that] True by (auto simp: pd_present_def table_at_def bit_simps)
      have "aspace_ok s1 pd" using ok F(2) by (simp add: aspace_ok_def s1 P)
      moreover have "owned m1 pd = owned (kmem s) pd" by (rule owned_same [OF P(1,2) F(3)])
      ultimately show ?thesis
        using F(3) True user by (auto simp: prepares_def s1 tables_rw_def upper_user_def kept_def P)
    qed
  qed
  then show "prepares pd va s s1" "st = 0 \<Longrightarrow> pd_present (kmem s1) pd ?i"
    "st = 0 \<Longrightarrow> upper_user (kmem s1) pd vb \<longleftrightarrow> upper_user (kmem s) pd vb \<or> pd_index vb = ?i \<and> bit flags 2"
    "st = 0 \<Longrightarrow> va < KERNEL_VIRT_BASE \<Longrightarrow> n < frame_limit \<Longrightarrow> kept s1 pd n = kept s pd n"
    by simp_all
qed

text \<open>Writing the entry of an address that has a table.\<close>

lemma aspace_set_entry:
  assumes ok: "aspace_ok s pd" and pr: "pd_present (kmem s) pd (pd_index va)"
    and s1: "kmem s1 = set_entry (table_at (kmem s) pd (pd_index va)) (pt_index va) v (kmem s)" "vpm s1 = vpm s"
  shows "aspace_ok s1 pd" "leaf (kmem s1) pd vb = (if pgno vb = pgno va then v else leaf (kmem s) pd vb)"
    "j < 1024 \<Longrightarrow> entry (kmem s1) pd j = entry (kmem s) pd j"
proof -
  from ok have tabs: "tables_ok (kmem s) pd" by (simp add: aspace_ok_def)
  note S = set_table_entry [OF tabs pr pd_index_less pt_index_less s1(1)]
  show "aspace_ok s1 pd" using ok S(1-3) by (simp add: aspace_ok_def s1(2))
  show "leaf (kmem s1) pd vb = (if pgno vb = pgno va then v else leaf (kmem s) pd vb)"
    unfolding s1(1) by (rule leaf_set_table_entry [OF tabs pr])
  show "entry (kmem s1) pd j = entry (kmem s) pd j" if "j < 1024"
    using that tables_ok_aligned [OF tabs] tables_ok_apart [OF tabs pr pd_index_less]
    by (simp add: s1(1) mem_simps)
qed

lemma map_page:
  assumes ok: "aspace_ok s pd" and map: "paging_map_page pd va pa flags s = Some (0, s')"
  shows "aspace_ok s' pd"
    "leaf (kmem s') pd vb = (if pgno vb = pgno va then page_down pa OR (flags AND 0xfff) OR 1 else leaf (kmem s) pd vb)"
    "cr3 s' = cr3 s" "tlb s' = (if pd = cr3 s then (tlb s)(drop_bit 12 va := None) else tlb s)"
    "kernel_directory_phys s' = kernel_directory_phys s"
    "tables_rw (kmem s) pd \<Longrightarrow> tables_rw (kmem s') pd"
    "upper_user (kmem s') pd vb \<longleftrightarrow> upper_user (kmem s) pd vb \<or> pd_index vb = pd_index va \<and> bit flags 2"
    "n < frame_limit \<Longrightarrow> frame_used (vpm s) n \<Longrightarrow> frame_used (vpm s') n"
    "va < KERNEL_VIRT_BASE \<Longrightarrow> \<not> bit (leaf (kmem s) pd va) 0 \<Longrightarrow> n < frame_limit \<Longrightarrow>
      kept s' pd n \<longleftrightarrow> kept s pd n \<and> n \<noteq> pgno pa"
proof -
  from map obtain s1 where en: "ensure_table pd va flags s = Some (0, s1)"
    by (auto simp: paging_map_page_def split: option.splits if_splits)
  let ?v = "page_down pa OR (flags AND 0xfff) OR 1"
  let ?pt = "table_at (kmem s1) pd (pd_index va)"
  define s2 where "s2 = s1\<lparr>kmem := set_entry ?pt (pt_index va) ?v (kmem s1)\<rparr>"
  have s': "s' = (if pd = cr3 s2 then invlpg va s2 else s2)"
    using map en
    by (auto simp: paging_map_page_def Let_def table_at_def s2_def paging_get_current_directory_def split: if_splits)
  have k: "kmem s' = set_entry ?pt (pt_index va) ?v (kmem s1)" "vpm s' = vpm s1" "cr3 s' = cr3 s1"
    "kernel_directory_phys s' = kernel_directory_phys s1"
    by (simp_all add: s' s2_def invlpg_def)
  note E = ensure_table_ok [OF ok en]
  from E(1) have ok1: "aspace_ok s1 pd" and pr: "prepares pd va s s1" by (simp_all add: prepares_def)
  note A = aspace_set_entry [OF ok1 E(2) k(1,2), simplified]
  show "aspace_ok s' pd" by (rule A)
  show "leaf (kmem s') pd vb = (if pgno vb = pgno va then ?v else leaf (kmem s) pd vb)"
    using A(2) pr by (simp add: prepares_def)
  show "cr3 s' = cr3 s" "tlb s' = (if pd = cr3 s then (tlb s)(drop_bit 12 va := None) else tlb s)"
    "kernel_directory_phys s' = kernel_directory_phys s"
    using pr by (simp_all add: s' s2_def invlpg_def prepares_def)
  show "tables_rw (kmem s) pd \<Longrightarrow> tables_rw (kmem s') pd"
    using pr A(3) by (simp add: prepares_def tables_rw_def pd_present_def)
  show "upper_user (kmem s') pd vb \<longleftrightarrow> upper_user (kmem s) pd vb \<or> pd_index vb = pd_index va \<and> bit flags 2"
    using E(3) [of vb] A(3) by (simp add: upper_user_def pd_present_def)
  show "n < frame_limit \<Longrightarrow> frame_used (vpm s) n \<Longrightarrow> frame_used (vpm s') n"
    using pr by (simp add: prepares_def k(2))
  show "kept s' pd n \<longleftrightarrow> kept s pd n \<and> n \<noteq> pgno pa"
    if va: "va < KERNEL_VIRT_BASE" "\<not> bit (leaf (kmem s) pd va) 0" "n < frame_limit"
  proof -
    have "owned (kmem s') pd = insert (pgno ?v) (owned (kmem s1) pd)"
      using va pr by (intro owned_leaf [OF A(3) A(2)]) (auto simp: prepares_def bit_simps)
    moreover have "pgno ?v = pgno pa" by (simp flip: page_down_eq)
    ultimately show ?thesis using E(4) [OF refl va(1,3)] by (auto simp: kept_def k(2))
  qed
qed

lemma unmap_page:
  assumes ok: "aspace_ok s pd"
  shows "aspace_ok (paging_unmap_page pd va s) pd"
    "leaf (kmem (paging_unmap_page pd va s)) pd vb = (if pgno vb = pgno va then 0 else leaf (kmem s) pd vb)"
    "vpm (paging_unmap_page pd va s) = vpm s"
proof -
  let ?s = "paging_unmap_page pd va s"
  have "aspace_ok ?s pd \<and> leaf (kmem ?s) pd vb = (if pgno vb = pgno va then 0 else leaf (kmem s) pd vb) \<and> vpm ?s = vpm s"
  proof (cases "pd_present (kmem s) pd (pd_index va)")
    case True
    have k: "kmem ?s = set_entry (table_at (kmem s) pd (pd_index va)) (pt_index va) 0 (kmem s)" "vpm ?s = vpm s"
      using True by (simp_all add: paging_unmap_page_def Let_def table_at_def pd_present_def invlpg_def)
    show ?thesis using aspace_set_entry(1,2) [OF ok True k] k(2) by simp
  next
    case False
    then have "?s = s" by (simp add: paging_unmap_page_def Let_def pd_present_def)
    moreover have "leaf (kmem s) pd vb = 0" if "pgno vb = pgno va"
      using False leaf_cong [OF that] by (simp add: leaf_def)
    ultimately show ?thesis using ok by simp
  qed
  then show "aspace_ok ?s pd" "leaf (kmem ?s) pd vb = (if pgno vb = pgno va then 0 else leaf (kmem s) pd vb)"
    "vpm ?s = vpm s" by simp_all
qed

section \<open>What the processor permits\<close>

text \<open>
  The access check of the i386 in user mode: present and user in both levels, and writable in
  both levels for a write.
\<close>

definition user_access :: "bytes \<Rightarrow> u32 \<Rightarrow> bool \<Rightarrow> u32 \<Rightarrow> bool" where
  "user_access m pd write va \<longleftrightarrow> upper_user m pd va \<and> bit (leaf m pd va) 0 \<and> bit (leaf m pd va) 2
     \<and> (write \<longrightarrow> bit (entry m pd (pd_index va)) 1 \<and> bit (leaf m pd va) 1)"

lemma user_access_cong: "pgno a = pgno b \<Longrightarrow> user_access m pd w a = user_access m pd w b"
  using page_of_indices [of a b] leaf_cong [of a b m pd] by (simp add: user_access_def upper_user_def)

lemma validate_loop_step:
  assumes "tables_rw m pd"
  shows "validate_loop pd page e w m \<longleftrightarrow> (page \<le> e \<longrightarrow> user_access m pd w page
    \<and> (page \<le> 0xfffff000 - PAGE_SIZE \<longrightarrow> validate_loop pd (page + PAGE_SIZE) e w m))"
  using assms pd_index_less [of page]
  by (subst validate_loop.simps)
    (auto simp: user_access_def upper_user_def pd_present_def leaf_def table_at_def tables_rw_def Let_def not_less not_le)

lemma validate_loop_pages:
  assumes "tables_rw m pd" "page_aligned page" "page_aligned e"
  shows "validate_loop pd page e w m \<longleftrightarrow>
    (\<forall>va. pgno page \<le> pgno va \<and> pgno va \<le> pgno e \<longrightarrow> user_access m pd w va)"
  using assms
proof (induction "Suc (pgno e) - pgno page" arbitrary: page)
  case 0
  then have "pgno e < pgno page" by simp
  moreover from this have "\<not> page \<le> e"
    by (metis div_le_mono leD pgno_def word_le_nat_alt)
  ultimately show ?case using validate_loop_step [OF assms(1), of page e w] by auto
next
  case (Suc n)
  from Suc.prems obtain k l where kl: "unat page = 4096 * k" "unat e = 4096 * l" by (metis page_alignedE)
  with Suc.hyps(2) have le: "page \<le> e" by (simp add: word_le_nat_alt pgno_def)
  show ?case
  proof (cases "page \<le> 0xfffff000 - PAGE_SIZE")
    case True
    then have np: "unat (page + PAGE_SIZE) = 4096 * Suc k"
      using kl(1) by (subst unat_add_lem [THEN iffD1]) (auto simp: word_le_nat_alt)
    then have "page_aligned (page + PAGE_SIZE)" "pgno (page + PAGE_SIZE) = Suc (pgno page)"
      using kl(1) by (simp_all add: page_aligned_def pgno_def)
    moreover have "n = Suc (pgno e) - pgno (page + PAGE_SIZE)" using Suc.hyps(2) calculation(2) by simp
    ultimately have IH: "validate_loop pd (page + PAGE_SIZE) e w m \<longleftrightarrow>
        (\<forall>va. Suc (pgno page) \<le> pgno va \<and> pgno va \<le> pgno e \<longrightarrow> user_access m pd w va)"
      using Suc.hyps(1) [of "page + PAGE_SIZE"] Suc.prems by simp
    have "(\<forall>va. pgno page \<le> pgno va \<and> pgno va \<le> pgno e \<longrightarrow> user_access m pd w va) \<longleftrightarrow>
      user_access m pd w page \<and> (\<forall>va. Suc (pgno page) \<le> pgno va \<and> pgno va \<le> pgno e \<longrightarrow> user_access m pd w va)"
      using Suc.hyps(2) user_access_cong [of _ page m pd w] by (metis Suc_leI Suc_le_lessD le_neq_implies_less
        less_Suc_eq_le less_imp_le order_refl zero_less_Suc zero_less_diff)
    then show ?thesis
      using validate_loop_step [OF assms(1), of page e w] le True IH by auto
  next
    case False
    then have "k = 2 ^ 20 - 1" using kl(1) u32_less [of page] by (simp add: word_le_nat_alt)
    then have top: "pgno page = 2 ^ 20 - 1" using kl(1) by (simp add: pgno_def)
    then have "pgno va = pgno page" if "pgno page \<le> pgno va" for va
      using that pgno_less [of va] by (simp add: frame_limit_def)
    then show ?thesis
      using validate_loop_step [OF assms(1), of page e w] le False Suc.hyps(2) user_access_cong [of _ page m pd w]
      by (metis less_Suc_eq_le order_refl zero_less_Suc zero_less_diff)
  qed
qed

text \<open>The range is \<open>vaddr .. vaddr + size - 1\<close>; a range that reaches the top of the address
  space is refused.\<close>

lemma validate_user_range:
  assumes "tables_rw m pd"
  shows "paging_validate_user_range pd va sz w m \<longleftrightarrow> sz = 0 \<or>
    unat va + unat sz < 2 ^ 32 \<and> (\<forall>a. in_range a va (unat sz) \<longrightarrow> user_access m pd w a)"
proof (cases "sz = 0")
  case True
  then show ?thesis by (simp add: paging_validate_user_range_def)
next
  case False
  then have sz: "0 < unat sz" by (simp add: unat_gt_0)
  show ?thesis
  proof (cases "unat va + unat sz < 2 ^ 32")
    case False
    then have "va + sz < va"
      using u32_less [of va] u32_less [of sz] by (simp add: word_less_nat_alt unat_plus_if')
    with False \<open>sz \<noteq> 0\<close> show ?thesis by (simp add: paging_validate_user_range_def)
  next
    case True
    then have u: "unat (va + sz) = unat va + unat sz" by (simp add: unat_plus_if')
    then have nw: "\<not> va + sz < va" by (simp add: word_less_nat_alt)
    have e: "unat (va + sz - 1) = unat va + unat sz - 1"
      using u sz by (subst CMem.unat_minus_one) auto
    have "(\<forall>a. pgno va \<le> pgno a \<and> pgno a \<le> pgno (va + sz - 1) \<longrightarrow> user_access m pd w a) \<longleftrightarrow>
      (\<forall>a. in_range a va (unat sz) \<longrightarrow> user_access m pd w a)" (is "?P \<longleftrightarrow> ?Q")
    proof
      assume P: ?P
      show ?Q
      proof (intro allI impI)
        fix a assume "in_range a va (unat sz)"
        then have "unat (a - va) < unat sz" by (simp add: in_range_def)
        moreover from this have "unat (va + (a - va)) = unat va + unat (a - va)"
          using True by (subst unat_add_lem [THEN iffD1]) auto
        ultimately have "unat va \<le> unat a" "unat a \<le> unat (va + sz - 1)" by (simp_all add: e)
        then have "pgno va \<le> pgno a" "pgno a \<le> pgno (va + sz - 1)" by (simp_all add: pgno_def div_le_mono)
        with P show "user_access m pd w a" by blast
      qed
    next
      assume Q: ?Q
      show ?P
      proof (intro allI impI, elim conjE)
        fix a assume a: "pgno va \<le> pgno a" "pgno a \<le> pgno (va + sz - 1)"
        text \<open>An address of the range in the page of \<open>a\<close>.\<close>
        define b where "b = (if unat a < unat va then va else if unat va + unat sz \<le> unat a then va + sz - 1 else a)"
        have "pgno b = pgno a \<and> unat va \<le> unat b \<and> unat b < unat va + unat sz"
          using a sz e by (auto simp: b_def pgno_def intro: antisym div_le_mono)
        moreover from this have "in_range b va (unat sz)"
          by (auto simp: in_range_def unat_sub_if_size)
        ultimately show "user_access m pd w a" using Q user_access_cong [of b a] by blast
      qed
    qed
    with True nw \<open>sz \<noteq> 0\<close> validate_loop_pages [OF assms page_down_aligned page_down_aligned, of va "va + sz - 1" w]
    show ?thesis by (simp add: paging_validate_user_range_def)
  qed
qed

section \<open>Creating and destroying an address space\<close>

lemma copy_entries:
  assumes "page_aligned pd" "page_aligned kpd" "pd \<noteq> kpd" "b \<le> 1024"
  defines "copy \<equiv> \<lambda>i m. set_entry pd (of_nat i) (entry m kpd (of_nat i)) m"
  shows "a \<le> b \<Longrightarrow> page_aligned f \<Longrightarrow> j < 1024 \<Longrightarrow>
    entry (fold copy [a..<b] m) f j = (if f = pd \<and> a \<le> unat j \<and> unat j < b then entry m kpd j else entry m f j)"
  using assms(4)
proof (induction b arbitrary: f j)
  case 0
  then show ?case by simp
next
  case (Suc b)
  show ?case
  proof (cases "a = Suc b")
    case False
    then have ab: "a \<le> b" using Suc.prems by simp
    have b: "(of_nat b :: u32) < 1024" "unat (of_nat b :: u32) = b"
      using Suc.prems by (simp_all add: word_less_nat_alt)
    have IH: "entry (fold copy [a..<b] m) g k =
      (if g = pd \<and> a \<le> unat k \<and> unat k < b then entry m kpd k else entry m g k)" if "page_aligned g" "k < 1024" for g k
      using Suc.IH [OF ab that] Suc.prems by simp
    have j: "j = of_nat b \<longleftrightarrow> unat j = b" using b(2) by (auto simp: word_unat_eq_iff)
    have "entry (fold copy [a..<Suc b] m) f j = (if f = pd \<and> j = of_nat b then entry m kpd j else entry (fold copy [a..<b] m) f j)"
    proof -
      define M where "M = fold copy [a..<b] m"
      have "fold copy [a..<Suc b] m = set_entry pd (of_nat b) (entry M kpd (of_nat b)) M"
        using ab by (simp add: M_def) (simp add: copy_def)
      moreover have "entry M kpd (of_nat b) = entry m kpd (of_nat b)"
        using IH [OF assms(2) b(1)] assms(3) by (simp add: M_def)
      ultimately show ?thesis
        using entry_set_entry [OF assms(1) Suc.prems(2) b(1) Suc.prems(3)] unfolding M_def by auto
    qed
    then show ?thesis using IH [OF Suc.prems(2,3)] j ab by auto
  qed auto
qed

lemma set_entry_off:
  assumes "i < 1024" "\<not> in_range a (phys_to_virt f) 4096"
  shows "set_entry f i v m a = m a"
proof -
  have "in_range (phys_to_virt f + 4 * i + l) (phys_to_virt f) 4096" if "l < 4" for l
    using unat_entry_byte(2) [OF assms(1) that] by (simp add: in_range_def add.assoc)
  from this [of 0] this [of 1] this [of 2] this [of 3] assms(2) show ?thesis
    unfolding set_entry_def by (intro st32_other) auto
qed

lemma copy_entries_off:
  assumes "\<not> in_range a (phys_to_virt pd) 4096" "n \<le> 1024"
  shows "fold (\<lambda>i m. set_entry pd (of_nat i) (e i m) m) [k..<n] m a = m a"
  using assms(2)
proof (induction n)
  case (Suc n)
  have "(of_nat n :: u32) < 1024" using Suc.prems by (simp add: word_less_nat_alt)
  then show ?case using Suc set_entry_off [OF _ assms(1)] by simp
qed simp

lemma create_address_space:
  assumes ok: "aspace_ok s (kernel_directory_phys s)" and cr: "paging_create_address_space s = Some (pd, s')"
  shows "aspace_ok s' pd" "pd \<noteq> kernel_directory_phys s"
    "leaf (kmem s') pd va = (if va < KERNEL_VIRT_BASE then 0 else leaf (kmem s) (kernel_directory_phys s) va)"
    "tables_rw (kmem s) (kernel_directory_phys s) \<Longrightarrow> tables_rw (kmem s') pd"
    "owned (kmem s') pd = {pgno pd}" "\<not> frame_used (vpm s) (pgno pd)"
    "n < frame_limit \<Longrightarrow> frame_used (vpm s') n \<longleftrightarrow> n = pgno pd \<or> frame_used (vpm s) n"
    "page_aligned f \<Longrightarrow> f \<noteq> pd \<Longrightarrow> j < 1024 \<Longrightarrow> entry (kmem s') f j = entry (kmem s) f j"
    "cr3 s' = cr3 s" "kernel_directory_phys s' = kernel_directory_phys s"
    "j < 1024 \<Longrightarrow> pd_present (kmem s') pd j \<longleftrightarrow> KERNEL_PDE_START \<le> j \<and> pd_present (kmem s) (kernel_directory_phys s) j"
    "j < 1024 \<Longrightarrow> KERNEL_PDE_START \<le> j \<Longrightarrow> entry (kmem s') pd j = entry (kmem s) (kernel_directory_phys s) j"
    "\<not> in_range a (phys_to_virt pd) 4096 \<Longrightarrow> kmem s' a = kmem s a"
proof -
  let ?k = "kernel_directory_phys s"
  from ok have pm: "pmm_ok (vpm s)" and tabs: "tables_ok (kmem s) ?k" and ku: "frame_used (vpm s) (pgno ?k)"
    and tu: "\<And>i. i < 1024 \<Longrightarrow> pd_present (kmem s) ?k i \<Longrightarrow> frame_used (vpm s) (pgno (table_at (kmem s) ?k i))"
    by (auto simp: aspace_ok_def)
  from cr obtain s0 where al: "vm_alloc s = Some (pd, s0)" and s'0: "s' = s0\<lparr>kmem := fold (\<lambda>i m. set_entry pd (of_nat i)
      (entry m (kernel_directory_phys s0) (of_nat i)) m) [768..<1024] (memset (phys_to_virt pd) 0 PAGE_SIZE (kmem s0))\<rparr>"
    by (auto simp only: paging_create_address_space_def Let_def kernel_pde_start split: option.splits prod.splits) simp
  from al pm obtain p where p: "s0 = s\<lparr>vpm := p\<rparr>" "pmm_ok p" "page_aligned pd" "\<not> frame_used (vpm s) (pgno pd)"
    "\<And>n. n < frame_limit \<Longrightarrow> frame_used p n \<longleftrightarrow> n = pgno pd \<or> frame_used (vpm s) n"
    by (rule vm_alloc_SomeE) blast
  show ne: "pd \<noteq> ?k" and "\<not> frame_used (vpm s) (pgno pd)" using p(4) ku by auto
  show used: "n < frame_limit \<Longrightarrow> frame_used (vpm s') n \<longleftrightarrow> n = pgno pd \<or> frame_used (vpm s) n" for n
    using p(5) by (simp add: s'0 p(1))
  show "cr3 s' = cr3 s" "kernel_directory_phys s' = ?k" by (simp_all add: s'0 p(1))
  have kal: "page_aligned ?k" using tabs by (rule tables_ok_aligned)
  have E: "entry (kmem s') f j = (if f = pd then if 768 \<le> unat j then entry (kmem s) ?k j else 0 else entry (kmem s) f j)"
    if "page_aligned f" "j < 1024" for f j
    using copy_entries [OF p(3) kal ne order_refl _ that, of 768 "memset (phys_to_virt pd) 0 PAGE_SIZE (kmem s)"] that p(3) ne kal
    by (simp add: s'0 p(1) entry_memset_page word_less_nat_alt)
  then show "page_aligned f \<Longrightarrow> f \<noteq> pd \<Longrightarrow> j < 1024 \<Longrightarrow> entry (kmem s') f j = entry (kmem s) f j" by simp
  have P: "pd_present (kmem s') pd j \<longleftrightarrow> KERNEL_PDE_START \<le> j \<and> pd_present (kmem s) ?k j"
    "KERNEL_PDE_START \<le> j \<Longrightarrow> entry (kmem s') pd j = entry (kmem s) ?k j"
    "KERNEL_PDE_START \<le> j \<Longrightarrow> table_at (kmem s') pd j = table_at (kmem s) ?k j" if "j < 1024" for j
    using E [OF p(3) that] by (auto simp: pd_present_def table_at_def kernel_pde_start word_le_nat_alt)
  show "j < 1024 \<Longrightarrow> pd_present (kmem s') pd j \<longleftrightarrow> KERNEL_PDE_START \<le> j \<and> pd_present (kmem s) ?k j"
    "j < 1024 \<Longrightarrow> KERNEL_PDE_START \<le> j \<Longrightarrow> entry (kmem s') pd j = entry (kmem s) ?k j" using P by blast+
  show "kmem s' a = kmem s a" if "\<not> in_range a (phys_to_virt pd) 4096"
    using that by (simp add: s'0 p(1) copy_entries_off memset_at)
  have tne: "table_at (kmem s) ?k j \<noteq> pd" if "j < 1024" "pd_present (kmem s) ?k j" for j
    using tu [OF that] p(4) by auto
  have L: "leaf (kmem s') pd va = (if va < KERNEL_VIRT_BASE then 0 else leaf (kmem s) ?k va)" for va
    using P [OF pd_index_less, of va] tne [OF pd_index_less, of va] E [of "table_at (kmem s) ?k (pd_index va)" "pt_index va"]
      pd_index_kernel [of va]
    by (auto simp: leaf_def not_less)
  show "leaf (kmem s') pd va = (if va < KERNEL_VIRT_BASE then 0 else leaf (kmem s) ?k va)" by (rule L)
  have "tables_ok (kmem s') pd"
    using p(3) P tne tabs by (simp add: tables_ok_def)
  then show "aspace_ok s' pd"
    using p(2) used P tu by (simp add: aspace_ok_def pgno_less) (simp add: s'0 p(1))
  show "tables_rw (kmem s) ?k \<Longrightarrow> tables_rw (kmem s') pd"
    using P by (simp add: tables_rw_def)
  have "\<not> pd_present (kmem s') pd i" if "i < KERNEL_PDE_START" for i
    using P(1) [of i] that by (simp add: kernel_pde_start word_less_nat_alt word_le_nat_alt)
  then show "owned (kmem s') pd = {pgno pd}"
    using L by (auto simp: owned_def)
qed

text \<open>\<open>frees f m F\<close>: on a state with memory \<open>m\<close>, \<open>f\<close> releases the frames \<open>F\<close> and does nothing else.\<close>

definition frees :: "(vm_state \<Rightarrow> vm_state) \<Rightarrow> bytes \<Rightarrow> nat set \<Rightarrow> bool" where
  "frees f m F \<longleftrightarrow> (\<forall>s. kmem s = m \<longrightarrow> pmm_ok (vpm s) \<longrightarrow>
     (\<exists>p. f s = s\<lparr>vpm := p\<rparr> \<and> pmm_ok p \<and> (\<forall>n < frame_limit. frame_used p n \<longleftrightarrow> n \<notin> F \<and> frame_used (vpm s) n)))"

lemma frees_free: "frees (vm_free a) m {pgno a}"
  using pmm.release_used pmm.release_wf by (auto simp: frees_def vm_free_def)

lemma frees_skip: "frees (\<lambda>s. s) m {}"
  unfolding frees_def by (auto intro!: exI [of _ "vpm _"])

lemma frees_comp:
  assumes "frees f m F" "frees g m G"
  shows "frees (\<lambda>s. g (f s)) m (F \<union> G)"
  unfolding frees_def
proof (intro allI impI)
  fix s :: vm_state assume s: "kmem s = m" "pmm_ok (vpm s)"
  from assms(1) s obtain p where p: "f s = s\<lparr>vpm := p\<rparr>" "pmm_ok p"
    "\<forall>n < frame_limit. frame_used p n \<longleftrightarrow> n \<notin> F \<and> frame_used (vpm s) n" unfolding frees_def by blast
  have "kmem (s\<lparr>vpm := p\<rparr>) = m" "pmm_ok (vpm (s\<lparr>vpm := p\<rparr>))" using s p by simp_all
  with assms(2) obtain q where q: "g (s\<lparr>vpm := p\<rparr>) = s\<lparr>vpm := p\<rparr>\<lparr>vpm := q\<rparr>" "pmm_ok q"
    "\<forall>n < frame_limit. frame_used q n \<longleftrightarrow> n \<notin> G \<and> frame_used p n" unfolding frees_def by fastforce
  with p show "\<exists>q. g (f s) = s\<lparr>vpm := q\<rparr> \<and> pmm_ok q \<and>
    (\<forall>n < frame_limit. frame_used q n \<longleftrightarrow> n \<notin> F \<union> G \<and> frame_used (vpm s) n)"
    by (intro exI [of _ q]) auto
qed

lemma frees_fold:
  assumes "\<And>i. i \<in> set xs \<Longrightarrow> frees (f i) m (F i)"
  shows "frees (fold f xs) m (\<Union>i \<in> set xs. F i)"
  using assms
proof (induction xs)
  case Nil
  then show ?case using frees_skip [of m] by (simp add: id_def)
next
  case (Cons i xs)
  then show ?case using frees_comp [of "f i" m "F i" "fold f xs"] by (simp add: comp_def)
qed

lemma frees_cong:
  assumes "frees g m F" "\<And>s. kmem s = m \<Longrightarrow> f s = g s"
  shows "frees f m F"
  using assms unfolding frees_def by simp

lemma frees_if: "frees (if b then f else (\<lambda>s. s)) m (if b then F else {})" if "b \<Longrightarrow> frees f m F"
  using that frees_skip by simp

definition table_frames :: "bytes \<Rightarrow> u32 \<Rightarrow> nat set" where
  "table_frames m pt = insert (pgno pt) {pgno (entry m pt j) |j. j < 1024 \<and> bit (entry m pt j) 0}"

lemma less_1024_nat: "(\<exists>k < 1024. P (of_nat k)) \<longleftrightarrow> (\<exists>j < 1024. P j)" for P :: "u32 \<Rightarrow> bool"
proof
  assume "\<exists>j < 1024. P j"
  then obtain j where "j < 1024" "P j" by blast
  then have "unat j < 1024 \<and> P (of_nat (unat j))" by (simp add: word_less_nat_alt)
  then show "\<exists>k < 1024. P (of_nat k)" by blast
next
  assume "\<exists>k < 1024. P (of_nat k)"
  then obtain k where "k < 1024" "P (of_nat k)" by blast
  then have "(of_nat k :: u32) < 1024 \<and> P (of_nat k)" by (simp add: word_less_nat_alt)
  then show "\<exists>j < 1024. P j" by blast
qed

lemma frees_free_table: "frees (free_table pt) m (table_frames m pt)"
proof -
  let ?f = "\<lambda>i s. if entry (kmem s) pt (of_nat i) AND 1 \<noteq> 0 then vm_free (page_down (entry (kmem s) pt (of_nat i))) s else s"
  let ?F = "\<lambda>i. if bit (entry m pt (of_nat i)) 0 then {pgno (entry m pt (of_nat i))} else {}"
  have "frees (?f i) m (?F i)" for i
    by (rule frees_cong [OF frees_if [of "bit (entry m pt (of_nat i)) 0" "vm_free (page_down (entry m pt (of_nat i)))"]])
      (use frees_free [of "page_down (entry m pt (of_nat i))" m] in simp_all)
  then have "frees (fold ?f [0..<1024]) m (\<Union>i \<in> set [0..<1024]. ?F i)" by (rule frees_fold)
  then have "frees (\<lambda>s. vm_free pt (fold ?f [0..<1024] s)) m ((\<Union>i \<in> set [0..<1024]. ?F i) \<union> {pgno pt})"
    by (rule frees_comp [OF _ frees_free])
  moreover have "(\<Union>i \<in> set [0..<1024]. ?F i) \<union> {pgno pt} = table_frames m pt"
  proof -
    have "(\<Union>i \<in> set [0..<1024]. ?F i) = {x. \<exists>k < 1024. bit (entry m pt (of_nat k)) 0 \<and> x = pgno (entry m pt (of_nat k))}"
      by (auto split: if_splits)
    then have U: "(\<Union>i \<in> set [0..<1024]. ?F i) = {x. \<exists>j < 1024. bit (entry m pt j) 0 \<and> x = pgno (entry m pt j)}"
      by (simp only: less_1024_nat [of "\<lambda>j. bit (entry m pt j) 0 \<and> _ = pgno (entry m pt j)"])
    show ?thesis unfolding U table_frames_def by blast
  qed
  ultimately show ?thesis by (simp add: free_table_def [abs_def] Let_def)
qed

lemma indices_surj:
  assumes "i < KERNEL_PDE_START" "j < 1024"
  shows "\<exists>va < KERNEL_VIRT_BASE. pd_index va = i \<and> pt_index va = j"
proof -
  let ?n = "unat i * 2 ^ 22 + unat j * 4096"
  have i: "unat i < 768" and j: "unat j < 1024" using assms by (simp_all add: kernel_pde_start word_less_nat_alt)
  then have "?n < 4294967296" by simp
  define va :: u32 where "va = of_nat ?n"
  have u: "unat va = ?n" unfolding va_def by (rule unat_of_nat_u32 [OF \<open>?n < 4294967296\<close>])
  have "pd_index va = i"
    using j by (simp add: word_unat_eq_iff pd_index_def unat_drop_bit_eq u) (simp add: drop_bit_eq_div)
  moreover have "pt_index va = j"
  proof -
    have "pt_index va = take_bit 10 (drop_bit 12 va)"
      by (simp add: pt_index_def take_bit_eq_mask mask_eq_exp_minus_1)
    moreover have "?n div 4096 mod 1024 = unat j"
    proof -
      have "?n = (unat i * 1024 + unat j) * 4096" by simp
      then have "?n div 4096 = unat i * 1024 + unat j" by (simp only: nonzero_mult_div_cancel_right)
      then show ?thesis using j by simp
    qed
    ultimately show ?thesis
      by (simp add: word_unat_eq_iff unat_drop_bit_eq unsigned_take_bit_eq u) (simp add: drop_bit_eq_div take_bit_eq_mod)
  qed
  ultimately show ?thesis
    using pd_index_kernel [of va] assms(1) by auto
qed

lemma owned_tables:
  "owned m pd = insert (pgno pd) (\<Union>i \<in> {i. i < KERNEL_PDE_START \<and> pd_present m pd i}. table_frames m (table_at m pd i))"
  (is "?L = ?R")
proof (rule set_eqI)
  fix n
  have "(\<exists>va < KERNEL_VIRT_BASE. bit (leaf m pd va) 0 \<and> n = pgno (leaf m pd va)) \<longleftrightarrow>
    (\<exists>i < KERNEL_PDE_START. pd_present m pd i \<and> (\<exists>j < 1024. bit (entry m (table_at m pd i) j) 0 \<and> n = pgno (entry m (table_at m pd i) j)))"
    (is "?A \<longleftrightarrow> ?B")
  proof
    assume ?A
    then obtain va where "va < KERNEL_VIRT_BASE" "bit (leaf m pd va) 0" "n = pgno (leaf m pd va)" by blast
    then show ?B
    proof -
      assume va: "va < KERNEL_VIRT_BASE" "bit (leaf m pd va) 0" "n = pgno (leaf m pd va)"
      then have pr: "pd_present m pd (pd_index va)" by (simp add: leaf_def split: if_splits)
      then have "leaf m pd va = entry m (table_at m pd (pd_index va)) (pt_index va)" by (simp add: leaf_def)
      with va pr show ?B using pd_index_kernel [of va] pt_index_less [of va] by metis
    qed
  next
    assume ?B
    then obtain i j where ij: "i < KERNEL_PDE_START" "j < 1024" "pd_present m pd i"
      "bit (entry m (table_at m pd i) j) 0" "n = pgno (entry m (table_at m pd i) j)" by blast
    with indices_surj [OF ij(1,2)] show ?A by (auto simp: leaf_def)
  qed
  then show "n \<in> ?L \<longleftrightarrow> n \<in> ?R" by (auto simp: owned_def table_frames_def)
qed

lemma frees_destroy: "frees (paging_destroy_address_space pd) m (owned m pd)"
proof -
  let ?f = "\<lambda>i s. if entry (kmem s) pd (of_nat i) AND 1 = 0 then s else if unat KERNEL_PDE_START \<le> i then s
    else free_table (page_down (entry (kmem s) pd (of_nat i))) s"
  let ?b = "\<lambda>i. pd_present m pd (of_nat i) \<and> i < unat KERNEL_PDE_START"
  let ?F = "\<lambda>i. if ?b i then table_frames m (table_at m pd (of_nat i)) else {}"
  have "frees (?f i) m (?F i)" for i
    by (rule frees_cong [OF frees_if [of "?b i" "free_table (table_at m pd (of_nat i))"]])
      (use frees_free_table in \<open>auto simp: pd_present_def table_at_def\<close>)
  then have "frees (fold ?f [0..<1024]) m (\<Union>i \<in> set [0..<1024]. ?F i)" by (rule frees_fold)
  then have "frees (\<lambda>s. vm_free pd (fold ?f [0..<1024] s)) m ((\<Union>i \<in> set [0..<1024]. ?F i) \<union> {pgno pd})"
    by (rule frees_comp [OF _ frees_free])
  moreover have "(\<Union>i \<in> set [0..<1024]. ?F i) \<union> {pgno pd} = owned m pd"
  proof -
    have "(of_nat k :: u32) < KERNEL_PDE_START \<longleftrightarrow> k < 768" if "k < 1024" for k
      using that by (simp add: kernel_pde_start word_less_nat_alt)
    moreover have "x \<in> (\<Union>i \<in> set [0..<1024]. ?F i) \<longleftrightarrow>
      (\<exists>k < 1024. pd_present m pd (of_nat k) \<and> k < 768 \<and> x \<in> table_frames m (table_at m pd (of_nat k)))" for x
      by (simp add: kernel_pde_start Bex_def)
    ultimately have "(\<Union>i \<in> set [0..<1024]. ?F i) = {x. \<exists>k < 1024. pd_present m pd (of_nat k)
      \<and> (of_nat k :: u32) < KERNEL_PDE_START \<and> x \<in> table_frames m (table_at m pd (of_nat k))}"
      by blast
    then have U: "(\<Union>i \<in> set [0..<1024]. ?F i) = {x. \<exists>i < 1024. pd_present m pd i \<and> i < KERNEL_PDE_START
      \<and> x \<in> table_frames m (table_at m pd i)}"
      by (simp only: less_1024_nat [of "\<lambda>i. pd_present m pd i \<and> i < KERNEL_PDE_START \<and> _ \<in> table_frames m (table_at m pd i)"])
    have "i < 1024" if "i < KERNEL_PDE_START" for i using that by (simp add: kernel_pde_start word_less_nat_alt)
    then show ?thesis unfolding U owned_tables by blast
  qed
  ultimately show ?thesis by (simp add: paging_destroy_address_space_def [abs_def] Let_def)
qed

lemma destroy_address_space:
  assumes "pmm_ok (vpm s)"
  obtains p where "paging_destroy_address_space pd s = s\<lparr>vpm := p\<rparr>" "pmm_ok p"
    "\<And>n. n < frame_limit \<Longrightarrow> frame_used p n \<longleftrightarrow> kept s pd n"
  using frees_destroy [of pd "kmem s"] assms that unfolding frees_def kept_def by blast

text \<open>The way the kernel fills an address space: a fresh frame for every page it maps.\<close>

fun map_fresh :: "u32 \<Rightarrow> (u32 \<times> u32) list \<Rightarrow> vm_state \<Rightarrow> vm_state option" where
  "map_fresh pd [] s = Some s"
| "map_fresh pd ((va, flags) # vs) s =
     (case vm_alloc s of None \<Rightarrow> None
      | Some (f, s1) \<Rightarrow>
          (case paging_map_page pd va f flags s1 of None \<Rightarrow> None
           | Some (st, s2) \<Rightarrow> if st = 0 then map_fresh pd vs s2 else None))"

lemma map_fresh_ok:
  assumes "aspace_ok s pd" "map_fresh pd vs s = Some s'" "distinct (map (pgno \<circ> fst) vs)"
    and "\<forall>v \<in> set vs. fst v < KERNEL_VIRT_BASE \<and> \<not> bit (leaf (kmem s) pd (fst v)) 0"
  shows "aspace_ok s' pd \<and> (\<forall>n < frame_limit. kept s' pd n = kept s pd n)"
  using assms
proof (induction vs arbitrary: s)
  case Nil
  then show ?case by simp
next
  case (Cons v vs)
  obtain va flags where v: "v = (va, flags)" by force
  from Cons.prems(2) obtain f s1 s2 where al: "vm_alloc s = Some (f, s1)"
    and mp: "paging_map_page pd va f flags s1 = Some (0, s2)" and rest: "map_fresh pd vs s2 = Some s'"
    by (auto simp: v split: option.splits if_splits)
  from Cons.prems(1) have "pmm_ok (vpm s)" by (simp add: aspace_ok_def)
  with al obtain p where p: "s1 = s\<lparr>vpm := p\<rparr>" "pmm_ok p" "page_aligned f" "\<not> frame_used (vpm s) (pgno f)"
    "\<And>n. n < frame_limit \<Longrightarrow> frame_used p n \<longleftrightarrow> n = pgno f \<or> frame_used (vpm s) n"
    by (rule vm_alloc_SomeE) blast
  have ok1: "aspace_ok s1 pd" using Cons.prems(1) p by (simp add: aspace_ok_def pgno_less)
  have va: "va < KERNEL_VIRT_BASE" "\<not> bit (leaf (kmem s1) pd va) 0" using Cons.prems(4) by (simp_all add: v p(1))
  note M = map_page [OF ok1 mp]
  have "kept s2 pd n = kept s pd n" if "n < frame_limit" for n
    using M(9) [OF va that] p(4) p(5) [OF that] by (auto simp: kept_def p(1))
  moreover have "aspace_ok s' pd \<and> (\<forall>n < frame_limit. kept s' pd n = kept s2 pd n)"
  proof (rule Cons.IH [OF M(1) rest])
    show "distinct (map (pgno \<circ> fst) vs)" using Cons.prems(3) by (simp add: comp_def)
    show "\<forall>w \<in> set vs. fst w < KERNEL_VIRT_BASE \<and> \<not> bit (leaf (kmem s2) pd (fst w)) 0"
      using Cons.prems(3,4) by (auto simp: M(2) v p(1) image_iff)
  qed
  ultimately show ?case by simp
qed

section \<open>The kernel's linear map\<close>

lemma fill_entries:
  assumes "page_aligned f" "page_aligned g" "j < 1024" "b \<le> 1024"
  shows "entry (fold (\<lambda>i m. set_entry f (of_nat i) (v i) m) [0..<b] m) g j =
    (if f = g \<and> unat j < b then v (unat j) else entry m g j)"
  using assms(4)
proof (induction b)
  case 0
  then show ?case by simp
next
  case (Suc b)
  then have b: "(of_nat b :: u32) < 1024" "unat (of_nat b :: u32) = b"
    by (simp_all add: word_less_nat_alt)
  have j: "of_nat b = j \<longleftrightarrow> unat j = b" using b(2) by (auto simp: word_unat_eq_iff)
  show ?case
    using Suc entry_set_entry [OF assms(1,2) b(1) assms(3)] j by auto
qed

lemma page_down_or_offset: "page_down a OR (a AND 0xfff) = a"
  by (rule bit_word_eqI) (auto simp: bit_page_down page_mask bit_simps)

text \<open>The memory after the first \<open>k\<close> tables of \<^verbatim>\<open>paging_init\<close>, as entries.\<close>

definition init_table :: "u32 \<Rightarrow> u32 \<Rightarrow> nat \<Rightarrow> bytes \<Rightarrow> bytes" where
  "init_table pd pt0 t m = set_entry pd (768 + of_nat t) (pt0 + 4096 * of_nat t OR 1 OR 2)
     (fold (\<lambda>i m. set_entry (pt0 + 4096 * of_nat t) (of_nat i) (of_nat t * 0x400000 + of_nat i * 0x1000 OR 1 OR 2) m) [0..<1024] m)"

lemma paging_init_tables:
  "kmem (paging_init pdir ptabs highest s) =
     fold (init_table (pdir - KERNEL_VIRT_BASE) (ptabs - KERNEL_VIRT_BASE))
       [0..<unat (min (highest div 0x400000 + 1) MAX_TABLES)]
       (fold (\<lambda>i m. set_entry (pdir - KERNEL_VIRT_BASE) (of_nat i) 0 m) [0..<1024] (kmem s))"
  by (simp add: paging_init_def Let_def paging_switch_directory_def init_table_def [abs_def] set_entry_def [abs_def]
    phys_to_virt_def kernel_pde_start min_def not_less algebra_simps)

lemma init_tables_entry:
  assumes pd: "page_aligned pd" and pt: "page_aligned pt0" "unat pt0 + 17 * 4096 \<le> 2 ^ 32"
    and apart: "unat pd < unat pt0 \<or> unat pt0 + 17 * 4096 \<le> unat pd"
    and "k \<le> 17" "page_aligned g" "j < 1024"
  shows "entry (fold (init_table pd pt0) [0..<k] m) g j =
    (if g = pd then if 768 \<le> unat j \<and> unat j < 768 + k then pt0 + 4096 * (j - 768) OR 3 else entry m g j
     else if unat pt0 \<le> unat g \<and> unat g < unat pt0 + 4096 * k then (g - pt0) * 0x400 + j * 0x1000 OR 3
     else entry m g j)"
  using assms(5)
proof (induction k)
  case 0
  then show ?case by auto
next
  case (Suc k)
  define T where "T = pt0 + 4096 * of_nat k"
  have k: "unat (4096 * of_nat k :: u32) = 4096 * k"
    using Suc.prems by (subst unat_mult_lem [THEN iffD1]) auto
  have T: "unat T = unat pt0 + 4096 * k"
    unfolding T_def using Suc.prems pt(2) k by (subst unat_add_lem [THEN iffD1]) auto
  have Tal: "page_aligned T" using pt(1) T by (simp add: page_aligned_def)
  have ne: "T \<noteq> pd" using T apart Suc.prems by auto
  have i: "(768 + of_nat k :: u32) < 1024" "unat (768 + of_nat k :: u32) = 768 + k"
    using Suc.prems by (simp_all add: word_less_nat_alt unat_plus_if')
  have j: "768 + of_nat k = j \<longleftrightarrow> unat j = 768 + k" using i(2) by (auto simp: word_unat_eq_iff)
  let ?M = "fold (init_table pd pt0) [0..<k] m"
  have step: "fold (init_table pd pt0) [0..<Suc k] m = init_table pd pt0 k ?M" by simp
  have tab: "of_nat k * 0x400000 + of_nat i * 0x1000 OR 1 OR 2 = ((T - pt0) * 0x400 + of_nat i * 0x1000 OR 3 :: u32)" for i
    by (simp add: T_def or.assoc algebra_simps)
  have "entry (init_table pd pt0 k ?M) g j =
    (if g = pd \<and> unat j = 768 + k then T OR 3 else if g = T then (T - pt0) * 0x400 + j * 0x1000 OR 3 else entry ?M g j)"
    unfolding init_table_def T_def [symmetric] tab
    using assms(6,7) ne j Tal pd i(1)
    by (auto simp: entry_set_entry fill_entries or.assoc word_less_nat_alt)
  moreover have "g = T \<longleftrightarrow> unat pt0 + 4096 * k \<le> unat g \<and> unat g < unat pt0 + 4096 * Suc k"
  proof
    assume "unat pt0 + 4096 * k \<le> unat g \<and> unat g < unat pt0 + 4096 * Suc k"
    moreover obtain a b where ab: "unat g = 4096 * a" "unat pt0 = 4096 * b" using assms(6) pt(1) by (metis page_alignedE)
    ultimately have "4096 * (b + k) \<le> 4096 * a" "4096 * a < 4096 * (b + k + 1)" by simp_all
    then have "a = b + k" unfolding mult_le_cancel1 mult_less_cancel1 by simp
    then have "unat g = unat T" using T ab by simp
    then show "g = T" by (simp add: word_unat_eq_iff)
  qed (simp add: T)
  moreover have "pt0 + 4096 * (j - 768) = T" if "unat j = 768 + k"
  proof -
    have "j - 768 = of_nat k" using that j by auto
    then show ?thesis by (simp add: T_def)
  qed
  ultimately show ?case
    unfolding step using Suc.IH Suc.prems apart ne by auto
qed

definition num_tables :: "u32 \<Rightarrow> nat" where
  "num_tables highest = unat (min (highest div 0x400000 + 1) MAX_TABLES)"

lemma num_tables_le: "num_tables highest \<le> 17"
  by (simp add: num_tables_def MAX_TABLES_def min_def word_le_nat_alt)

lemma init_entry:
  assumes "page_aligned pd" "page_aligned pt0" "unat pt0 + 17 * 4096 \<le> 2 ^ 32"
    and "unat pd < unat pt0 \<or> unat pt0 + 17 * 4096 \<le> unat pd" "pd = pdir - KERNEL_VIRT_BASE" "pt0 = ptabs - KERNEL_VIRT_BASE"
    and "page_aligned g" "j < 1024"
  shows "entry (kmem (paging_init pdir ptabs highest s)) g j =
    (if g = pd then if 768 \<le> unat j \<and> unat j < 768 + num_tables highest then pt0 + 4096 * (j - 768) OR 3 else 0
     else if unat pt0 \<le> unat g \<and> unat g < unat pt0 + 4096 * num_tables highest then (g - pt0) * 0x400 + j * 0x1000 OR 3
     else entry (kmem s) g j)"
proof -
  have "unat j < 1024" using assms(8) by (simp add: word_less_nat_alt)
  then show ?thesis
    using init_tables_entry [OF assms(1-4) num_tables_le assms(7,8), of highest]
      fill_entries [OF assms(1,7,8) order_refl, of "\<lambda>_. 0"]
    by (auto simp: paging_init_tables assms(5,6) [symmetric] num_tables_def [symmetric])
qed

lemma linear_walk:
  assumes dir: "\<And>j. j < 1024 \<Longrightarrow> entry m pd j =
      (if 768 \<le> unat j \<and> unat j < 768 + N then pt0 + 4096 * (j - 768) OR 3 else 0)"
    and tab: "\<And>t j. t < N \<Longrightarrow> j < 1024 \<Longrightarrow> entry m (pt0 + 4096 * of_nat t) j = of_nat t * 0x400000 + j * 0x1000 OR 3"
    and pt: "page_aligned pt0" "unat pt0 + 17 * 4096 \<le> 2 ^ 32" and N: "N \<le> 17"
  shows "paging_walk pd va m =
    (if KERNEL_VIRT_BASE \<le> va \<and> unat (virt_to_phys va) < N * 2 ^ 22 then Some (virt_to_phys va) else None)"
proof -
  let ?p = "virt_to_phys va" and ?i = "pd_index va"
  have i: "unat ?i = unat va div 2 ^ 22"
    by (simp add: pd_index_def unat_drop_bit_eq) (simp add: drop_bit_eq_div)
  have present: "pd_present m pd ?i \<longleftrightarrow> 768 \<le> unat ?i \<and> unat ?i < 768 + N"
    using dir [OF pd_index_less] by (simp add: pd_present_def bit_simps)
  show ?thesis
  proof (cases "768 \<le> unat ?i \<and> unat ?i < 768 + N")
    case False
    have "\<not> (KERNEL_VIRT_BASE \<le> va \<and> unat ?p < N * 2 ^ 22)"
    proof
      assume a: "KERNEL_VIRT_BASE \<le> va \<and> unat ?p < N * 2 ^ 22"
      then have "unat va = 0xc0000000 + unat ?p"
        by (simp add: virt_to_phys_def unat_sub KERNEL_VIRT_BASE_def word_le_nat_alt)
      with a have "unat va div 2 ^ 22 = 768 + unat ?p div 2 ^ 22" "unat ?p div 2 ^ 22 < N"
        by (simp_all add: less_mult_imp_div_less)
      with False i show False by simp
    qed
    with False present show ?thesis by (auto simp: paging_walk_table)
  next
    case True
    then have "768 * 2 ^ 22 \<le> unat va" using i by (simp add: le_div_geq less_eq_div_iff_mult_less_eq)
    then have base: "KERNEL_VIRT_BASE \<le> va" "unat va = 0xc0000000 + unat ?p"
      by (simp_all add: virt_to_phys_def unat_sub KERNEL_VIRT_BASE_def word_le_nat_alt)
    define t where "t = unat ?p div 2 ^ 22"
    have it: "unat ?i = 768 + t" using i base(2) by (simp add: t_def)
    with True have tN: "t < N" by simp
    have lt: "unat ?p < N * 2 ^ 22" using tN unfolding t_def by (simp add: div_less_iff_less_mult)
    have ti: "?i - 768 = of_nat t" using it by (metis add_diff_cancel_left' of_nat_add of_nat_numeral of_nat_unat ucast_id)
    define T where "T = pt0 + 4096 * of_nat t"
    have "unat (4096 * of_nat t :: u32) = 4096 * t"
      using tN N by (subst unat_mult_lem [THEN iffD1]) auto
    then have "unat T = unat pt0 + 4096 * t"
      unfolding T_def using tN N pt(2) by (subst unat_add_lem [THEN iffD1]) auto
    then have Tal: "page_aligned T" using pt(1) by (simp add: page_aligned_def)
    have "table_at m pd ?i = T"
      using dir [OF pd_index_less, of va] True page_down_id [OF Tal]
      by (simp add: table_at_def ti T_def) (simp add: page_down_def)
    moreover have leaf: "entry m T (pt_index va) = page_down ?p OR 3"
    proof -
      have "unat (pt_index va) = unat ?p div 4096 mod 1024"
      proof -
        have "pt_index va = take_bit 10 (drop_bit 12 va)"
          by (simp add: pt_index_def take_bit_eq_mask mask_eq_exp_minus_1)
        then have "unat (pt_index va) = unat va div 4096 mod 1024"
          by (simp add: unat_drop_bit_eq unsigned_take_bit_eq) (simp add: drop_bit_eq_div take_bit_eq_mod)
        also have "unat va div 4096 = unat ?p div 4096 + 768 * 1024" using base(2) by simp
        finally show ?thesis by (simp only: mod_mult_self1)
      qed
      moreover have "t = unat ?p div 4096 div 1024" by (simp add: t_def div_mult2_eq [symmetric])
      ultimately have "t * 0x400000 + unat (pt_index va) * 0x1000 = 4096 * (unat ?p div 4096)"
        using div_mult_mod_eq [of "unat ?p div 4096" 1024] by linarith
      then have "of_nat (t * 0x400000 + unat (pt_index va) * 0x1000) = page_down ?p"
        by (simp only: unat_page_down [symmetric]) simp
      then show ?thesis using tab [OF tN pt_index_less, of va] by (simp add: T_def)
    qed
    moreover have "va AND 0xfff = ?p AND 0xfff"
    proof -
      have "unat va = unat ?p + 786432 * 4096" using base(2) by simp
      then have "unat va mod 4096 = unat ?p mod 4096" by (simp only: mod_mult_self1)
      then show ?thesis
        by (simp only: page_mask take_bit_eq_mask [symmetric] word_unat_eq_iff unsigned_take_bit_eq take_bit_eq_mod)
          (simp add: unat_mod)
    qed
    ultimately show ?thesis
      using True present base(1) lt page_down_or_offset [of ?p]
      by (simp add: paging_walk_table bit_simps) (simp add: page_down_def)
  qed
qed

section \<open>An example state\<close>

definition vm_example :: vm_state where
  "vm_example = \<lparr>vpm = pmm_example\<lparr>phys_bitmap := (\<lambda>_. 0xffff0001)\<rparr>, kmem = (\<lambda>_. 0),
     cr3 = 0x14000, kernel_directory_phys = 0x14000, tlb = (\<lambda>_. None)\<rparr>"

lemma vm_example_ok: "aspace_ok vm_example 0x14000"
  by (simp add: aspace_ok_def vm_example_def pmm_ok_def pmm_example_def tables_ok_def page_aligned_def
    pd_present_def entry_def ld32_def frame_used_def pgno_def)

lemmas alloc_eval = vm_alloc_def pmm_alloc_frame_def pmm_alloc_loop.simps test_frame_def set_frame_def addr_to_frame_def frame_to_addr_def

lemma vm_example_walk: "paging_walk 0x14000 va (kmem vm_example) = None"
  by (simp add: paging_walk_def vm_example_def entry_def ld32_def)

lemma vm_example_alloc: "\<exists>s'. vm_alloc vm_example = Some (0x1000, s')"
  by (simp add: alloc_eval vm_example_def pmm_example_def)

lemma map_page_ok: "vm_alloc s = Some (a, s1) \<Longrightarrow> a \<noteq> 0 \<Longrightarrow> \<exists>s'. paging_map_page pd va pa flags s = Some (0, s')"
  by (simp add: paging_map_page_def ensure_table_def Let_def)

section \<open>Properties\<close>

text \<open>
  C8. \<^verbatim>\<open>paging_map_page\<close> with status 0, in a well-formed address space: \<^verbatim>\<open>paging_walk\<close> then
  takes every address of the page to the given frame and every other address where it went
  before, the address space stays well formed, no frame is released, and no stale
  translation of the page is left in the processor when the space is the current one.
\<close>

theorem paging_map_walk:
  assumes "aspace_ok s pd" "paging_map_page pd va pa flags s = Some (0, s')"
  shows "aspace_ok s' pd
    \<and> (\<forall>vb. paging_walk pd vb (kmem s') =
        (if pgno vb = pgno va then Some (page_down pa OR (vb AND 0xfff)) else paging_walk pd vb (kmem s)))
    \<and> (\<forall>n < frame_limit. frame_used (vpm s) n \<longrightarrow> frame_used (vpm s') n)
    \<and> (pd = cr3 s \<longrightarrow> tlb s' (drop_bit 12 va) = None)"
proof -
  note M = map_page [OF assms]
  have "paging_walk pd vb (kmem s') =
      (if pgno vb = pgno va then Some (page_down pa OR (vb AND 0xfff)) else paging_walk pd vb (kmem s))" for vb
    unfolding paging_walk_leaf M(2) by (simp add: bit_simps)
  with M(1,4,8) show ?thesis by auto
qed

lemma paging_map_walk_witness:
  "\<exists>s'. paging_map_page 0x14000 0x400000 0x7000 7 vm_example = Some (0, s')
    \<and> paging_walk 0x14000 0x400123 (kmem s') = Some 0x7123 \<and> paging_walk 0x14000 0x401000 (kmem s') = None"
proof -
  have "\<not> pd_present (kmem vm_example) 0x14000 (pd_index 0x400000)"
    by (simp add: pd_present_def vm_example_def entry_def ld32_def)
  with vm_example_alloc obtain s' where s': "paging_map_page 0x14000 0x400000 0x7000 7 vm_example = Some (0, s')"
    by (auto simp: paging_map_page_def ensure_table_def Let_def pd_present_def)
  from paging_map_walk [OF vm_example_ok s'] have
    "paging_walk 0x14000 vb (kmem s') = (if pgno vb = pgno 0x400000 then Some (page_down 0x7000 OR (vb AND 0xfff)) else None)" for vb
    by (simp add: vm_example_walk)
  from this [of "0x400123"] this [of "0x401000"] s' show ?thesis
    by (simp add: pgno_def page_down_def)
qed

text \<open>
  \<^verbatim>\<open>paging_unmap_page\<close> makes exactly the page of its address unmapped.
\<close>

theorem paging_unmap_walk:
  assumes "aspace_ok s pd"
  shows "aspace_ok (paging_unmap_page pd va s) pd
    \<and> paging_walk pd vb (kmem (paging_unmap_page pd va s)) =
        (if pgno vb = pgno va then None else paging_walk pd vb (kmem s))"
  using unmap_page [OF assms] by (simp add: paging_walk_leaf)

lemma paging_unmap_walk_witness: "paging_walk 0x14000 0x400000 (kmem (paging_unmap_page 0x14000 0x400000 vm_example)) = None"
  using paging_unmap_walk [OF vm_example_ok, of "0x400000" "0x400000"] by simp

text \<open>
  C9. \<^verbatim>\<open>paging_validate_user_range\<close> accepts a range exactly when it does not reach the top of
  the address space and the processor would permit user mode to access every byte of it, in
  an address space whose directory entries are writable (which \<^verbatim>\<open>paging_map_page\<close> keeps).
\<close>

theorem paging_validate_access:
  assumes "tables_rw m pd"
  shows "paging_validate_user_range pd va sz w m \<longleftrightarrow> sz = 0 \<or>
    unat va + unat sz < 2 ^ 32 \<and> (\<forall>a. in_range a va (unat sz) \<longrightarrow> user_access m pd w a)"
  by (rule validate_user_range [OF assms])

lemma paging_validate_access_witness:
  "tables_rw (kmem vm_example) 0x14000 \<and> \<not> paging_validate_user_range 0x14000 0x400000 4 True (kmem vm_example)"
proof -
  have rw: "tables_rw (kmem vm_example) 0x14000"
    by (simp add: tables_rw_def pd_present_def vm_example_def entry_def ld32_def)
  moreover have "\<not> user_access (kmem vm_example) 0x14000 True 0x400000"
    by (simp add: user_access_def upper_user_def pd_present_def vm_example_def entry_def ld32_def)
  moreover have "in_range 0x400000 0x400000 (unat (4 :: u32))" by (simp add: in_range_def)
  ultimately show ?thesis using paging_validate_access [OF rw, of "0x400000" 4 True] by auto
qed

text \<open>
  C11. No frame leaks over the life of an address space: creating it, mapping fresh frames at
  any distinct user pages (page tables are allocated on the way) and destroying it leaves
  exactly the frames in use that were in use before.
\<close>

theorem address_space_no_leak:
  assumes "aspace_ok s (kernel_directory_phys s)" "paging_create_address_space s = Some (pd, s1)"
    and "map_fresh pd vs s1 = Some s2"
    and "distinct (map (pgno \<circ> fst) vs)" "\<forall>v \<in> set vs. fst v < KERNEL_VIRT_BASE" "n < frame_limit"
  shows "frame_used (vpm (paging_destroy_address_space pd s2)) n = frame_used (vpm s) n"
proof -
  note C = create_address_space [OF assms(1,2)]
  have "\<forall>v \<in> set vs. fst v < KERNEL_VIRT_BASE \<and> \<not> bit (leaf (kmem s1) pd (fst v)) 0"
    using assms(5) by (simp add: C(3))
  with map_fresh_ok [OF C(1) assms(3,4)] have M: "aspace_ok s2 pd" "kept s2 pd n = kept s1 pd n"
    using assms(6) by auto
  obtain p where "paging_destroy_address_space pd s2 = s2\<lparr>vpm := p\<rparr>" "frame_used p n \<longleftrightarrow> kept s2 pd n"
    using destroy_address_space [of s2 pd] M(1) assms(6) by (metis aspace_ok_def)
  then show ?thesis using M(2) C(5-7) assms(6) by (auto simp: kept_def)
qed

lemma address_space_no_leak_witness:
  "\<exists>pd s1 s2. paging_create_address_space vm_example = Some (pd, s1) \<and> map_fresh pd [(0x400000, 7)] s1 = Some s2
    \<and> frame_used (vpm (paging_destroy_address_space pd s2)) 2 = frame_used (vpm vm_example) 2"
proof -
  have k: "kernel_directory_phys vm_example = 0x14000" by (simp add: vm_example_def)
  define p1 where "p1 = vpm (snd (the (vm_alloc vm_example)))"
  obtain pd s1 where c: "paging_create_address_space vm_example = Some (pd, s1)" "vpm s1 = p1"
    using vm_example_alloc by (auto simp: paging_create_address_space_def Let_def p1_def)
  have p1: "p1 = pmm_example\<lparr>phys_bitmap := (\<lambda>_. 0xffff0001)(0 := 0xffff0003)\<rparr>"
    by (simp add: p1_def alloc_eval vm_example_def pmm_example_def)
  obtain f s2 where f: "vm_alloc s1 = Some (f, s2)" "vpm s2 = pmm_example\<lparr>phys_bitmap := (\<lambda>_. 0xffff0001)(0 := 0xffff0007)\<rparr>"
    by (simp add: alloc_eval c(2) p1 pmm_example_def)
  obtain a s3 where "vm_alloc s2 = Some (a, s3)" "a \<noteq> 0"
    by (simp add: alloc_eval f(2) pmm_example_def)
  from map_page_ok [OF this] obtain s4 where "paging_map_page pd 0x400000 f 7 s2 = Some (0, s4)" by blast
  with f(1) have m: "map_fresh pd [(0x400000, 7)] s1 = Some s4" by simp
  from address_space_no_leak [OF _ c(1) m, of 2] vm_example_ok k c(1) m show ?thesis
    by (auto simp: pgno_def KERNEL_VIRT_BASE_def frame_limit_def)
qed

text \<open>
  After \<^verbatim>\<open>paging_init\<close> the kernel directory maps \<^verbatim>\<open>KERNEL_VIRT_BASE + p\<close> to \<open>p\<close> for every
  physical address \<open>p\<close> below the memory it covers (at most \<^verbatim>\<open>MAX_TABLES\<close> times 4 MiB), and
  maps nothing else; it is the current directory.
\<close>

theorem paging_init_linear_map:
  assumes "page_aligned (pdir - KERNEL_VIRT_BASE)" "page_aligned (ptabs - KERNEL_VIRT_BASE)"
    and "unat (ptabs - KERNEL_VIRT_BASE) + 17 * 4096 \<le> 2 ^ 32"
    and "unat (pdir - KERNEL_VIRT_BASE) < unat (ptabs - KERNEL_VIRT_BASE)
      \<or> unat (ptabs - KERNEL_VIRT_BASE) + 17 * 4096 \<le> unat (pdir - KERNEL_VIRT_BASE)"
    and "s' = paging_init pdir ptabs highest_addr s"
  shows "paging_walk (kernel_directory_phys s') va (kmem s') =
      (if KERNEL_VIRT_BASE \<le> va \<and> unat (virt_to_phys va) < num_tables highest_addr * 2 ^ 22
       then Some (virt_to_phys va) else None)
    \<and> cr3 s' = kernel_directory_phys s'"
proof -
  let ?pd = "pdir - KERNEL_VIRT_BASE" and ?pt = "ptabs - KERNEL_VIRT_BASE"
  note E = init_entry [OF assms(1-4) refl refl, of _ _ highest_addr s, folded assms(5)]
  have T: "unat (?pt + 4096 * of_nat t) = unat ?pt + 4096 * t" if "t < 17" for t
  proof -
    have "unat (4096 * of_nat t :: u32) = 4096 * t"
      using that by (subst unat_mult_lem [THEN iffD1]) auto
    then show ?thesis using that assms(3) by (subst unat_add_lem [THEN iffD1]) auto
  qed
  have "paging_walk ?pd va (kmem s') =
    (if KERNEL_VIRT_BASE \<le> va \<and> unat (virt_to_phys va) < num_tables highest_addr * 2 ^ 22 then Some (virt_to_phys va) else None)"
  proof (rule linear_walk [OF _ _ assms(2,3) num_tables_le])
    show "entry (kmem s') ?pd j = (if 768 \<le> unat j \<and> unat j < 768 + num_tables highest_addr then ?pt + 4096 * (j - 768) OR 3 else 0)"
      if "j < 1024" for j using E [OF assms(1) that] by simp
    show "entry (kmem s') (?pt + 4096 * of_nat t) j = of_nat t * 0x400000 + j * 0x1000 OR 3"
      if "t < num_tables highest_addr" "j < 1024" for t j
    proof -
      have t: "t < 17" using that(1) num_tables_le [of highest_addr] by simp
      have "page_aligned (?pt + 4096 * of_nat t)" using T [OF t] assms(2) by (simp add: page_aligned_def)
      moreover have "?pt + 4096 * of_nat t \<noteq> ?pd"
      proof
        assume "?pt + 4096 * of_nat t = ?pd"
        with T [OF t] have "unat ?pd = unat ?pt + 4096 * t" by metis
        with assms(4) t show False by linarith
      qed
      ultimately show ?thesis using E [of "?pt + 4096 * of_nat t" j] that T [OF t] by (simp add: algebra_simps)
    qed
  qed
  moreover have "kernel_directory_phys s' = ?pd" "cr3 s' = ?pd"
    by (simp_all add: assms(5) paging_init_def Let_def paging_switch_directory_def)
  ultimately show ?thesis by simp
qed

lemma paging_init_linear_map_witness:
  "paging_walk (kernel_directory_phys (paging_init 0xc0120000 0xc0121000 0x500000 vm_example)) 0xc0500123
     (kmem (paging_init 0xc0120000 0xc0121000 0x500000 vm_example)) = Some 0x500123"
  using paging_init_linear_map [of "0xc0120000" "0xc0121000" _ "0x500000" vm_example "0xc0500123", OF _ _ _ _ refl]
  by (simp add: page_aligned_def KERNEL_VIRT_BASE_def virt_to_phys_def num_tables_def MAX_TABLES_def)

end
