(* ===== verification/Ata.thy ===== *)
theory Ata
  imports CMem
begin

text \<open>
  The disk driver of \<^verbatim>\<open>src/src/devices/ata.c\<close> and the sector access of
  \<^verbatim>\<open>src/src/fs/fat.c\<close> on top of it (\<^verbatim>\<open>read_lba\<close>, \<^verbatim>\<open>write_lba\<close>).

  The drive is hardware: a medium of 512-byte sectors addressed by cylinder, head and sector,
  and the sectors whose transfer it reports as failed. The waiting for its status bits is not
  modelled. Within one command the drive goes on to the next sector of the track, then to the
  next head, then to the next cylinder.
\<close>

section \<open>The drive\<close>

type_synonym chs = "u16 \<times> u8 \<times> u8"

record ata_disk =
  media :: "chs \<Rightarrow> bytes"
  bad_read :: "chs \<Rightarrow> bool"
  bad_write :: "chs \<Rightarrow> bool"

definition SECTORS_PER_TRACK :: u32 where "SECTORS_PER_TRACK = 63"
definition HEADS_PER_CYLINDER :: u32 where "HEADS_PER_CYLINDER = 16"

fun next_chs :: "chs \<Rightarrow> chs" where
  "next_chs (c, h, s) =
     (if s < 63 then (c, h, s + 1) else if h < 15 then (c, h + 1, 1) else (c + 1, 0, 1))"

text \<open>Copying \<open>n\<close> bytes between two separate objects: from \<open>src\<close> at \<open>so\<close> to \<open>dst\<close> at \<open>ds\<close>.\<close>

definition copy_bytes :: "bytes \<Rightarrow> u32 \<Rightarrow> nat \<Rightarrow> bytes \<Rightarrow> u32 \<Rightarrow> bytes" where
  "copy_bytes src so n dst ds = (\<lambda>a. if unat (a - ds) < n then src (so + (a - ds)) else dst a)"

section \<open>The driver\<close>

text \<open>The loop over the sectors of a command: status 1 as soon as the drive reports an error.\<close>

fun ata_read_loop :: "nat \<Rightarrow> chs \<Rightarrow> ata_disk \<Rightarrow> bytes \<Rightarrow> u32 \<Rightarrow> nat \<times> bytes" where
  "ata_read_loop 0 x d buf off = (0, buf)"
| "ata_read_loop (Suc n) x d buf off =
     (if bad_read d x then (1, buf)
      else ata_read_loop n (next_chs x) d (copy_bytes (media d x) 0 512 buf off) (off + 512))"

definition ata_read_sectors :: "u16 \<Rightarrow> u8 \<Rightarrow> u8 \<Rightarrow> u8 \<Rightarrow> ata_disk \<Rightarrow> bytes \<Rightarrow> u32 \<Rightarrow> nat \<times> bytes" where
  "ata_read_sectors cylinder head sector count d buf off =
     ata_read_loop (unat count) (cylinder, head AND 0x0f, sector) d buf off"

fun ata_write_loop :: "nat \<Rightarrow> chs \<Rightarrow> bytes \<Rightarrow> u32 \<Rightarrow> ata_disk \<Rightarrow> nat \<times> ata_disk" where
  "ata_write_loop 0 x buf off d = (0, d)"
| "ata_write_loop (Suc n) x buf off d =
     (if bad_write d x then (1, d)
      else ata_write_loop n (next_chs x) buf (off + 512)
             (d\<lparr>media := (media d)(x := copy_bytes buf off 512 (media d x) 0)\<rparr>))"

definition ata_write_sectors :: "u16 \<Rightarrow> u8 \<Rightarrow> u8 \<Rightarrow> u8 \<Rightarrow> bytes \<Rightarrow> u32 \<Rightarrow> ata_disk \<Rightarrow> nat \<times> ata_disk" where
  "ata_write_sectors cylinder head sector count buf off d =
     ata_write_loop (unat count) (cylinder, head AND 0x0f, sector) buf off d"

definition lba_to_chs :: "u32 \<Rightarrow> chs" where
  "lba_to_chs lba =
     (ucast (lba div SECTORS_PER_TRACK div HEADS_PER_CYLINDER),
      ucast (lba div SECTORS_PER_TRACK mod HEADS_PER_CYLINDER),
      ucast (lba mod SECTORS_PER_TRACK + 1))"

text \<open>\<^verbatim>\<open>read_lba\<close> and \<^verbatim>\<open>write_lba\<close>: one command per sector.\<close>

fun read_lba_loop :: "nat \<Rightarrow> u32 \<Rightarrow> ata_disk \<Rightarrow> bytes \<Rightarrow> u32 \<Rightarrow> nat \<times> bytes" where
  "read_lba_loop 0 lba d p off = (0, p)"
| "read_lba_loop (Suc n) lba d p off =
     (case lba_to_chs lba of (cyl, head, sect) \<Rightarrow>
        (case ata_read_sectors cyl head sect 1 d p off of (st, p') \<Rightarrow>
           if st \<noteq> 0 then (1, p') else read_lba_loop n (lba + 1) d p' (off + 512)))"

definition read_lba :: "u32 \<Rightarrow> u8 \<Rightarrow> ata_disk \<Rightarrow> bytes \<Rightarrow> u32 \<Rightarrow> nat \<times> bytes" where
  "read_lba lba count d buf off = read_lba_loop (unat count) lba d buf off"

fun write_lba_loop :: "nat \<Rightarrow> u32 \<Rightarrow> bytes \<Rightarrow> u32 \<Rightarrow> ata_disk \<Rightarrow> nat \<times> ata_disk" where
  "write_lba_loop 0 lba p off d = (0, d)"
| "write_lba_loop (Suc n) lba p off d =
     (case lba_to_chs lba of (cyl, head, sect) \<Rightarrow>
        (case ata_write_sectors cyl head sect 1 p off d of (st, d') \<Rightarrow>
           if st \<noteq> 0 then (1, d') else write_lba_loop n (lba + 1) p (off + 512) d'))"

definition write_lba :: "u32 \<Rightarrow> u8 \<Rightarrow> bytes \<Rightarrow> u32 \<Rightarrow> ata_disk \<Rightarrow> nat \<times> ata_disk" where
  "write_lba lba count buf off d = write_lba_loop (unat count) lba buf off d"

section \<open>Addresses\<close>

text \<open>The number of sectors that a 16-bit cylinder can address.\<close>

definition lba_limit :: nat where "lba_limit = 63 * 16 * 65536"

definition chs_lba :: "chs \<Rightarrow> nat" where
  "chs_lba x = (case x of (c, h, s) \<Rightarrow> (unat c * 16 + unat h) * 63 + unat s - 1)"

lemma lba_parts:
  "unat (lba div SECTORS_PER_TRACK div HEADS_PER_CYLINDER) = unat lba div 63 div 16"
  "unat (lba div SECTORS_PER_TRACK mod HEADS_PER_CYLINDER) = unat lba div 63 mod 16"
  "unat (lba mod SECTORS_PER_TRACK + 1) = unat lba mod 63 + 1"
proof -
  show "unat (lba div SECTORS_PER_TRACK div HEADS_PER_CYLINDER) = unat lba div 63 div 16"
    "unat (lba div SECTORS_PER_TRACK mod HEADS_PER_CYLINDER) = unat lba div 63 mod 16"
    by (simp_all add: SECTORS_PER_TRACK_def HEADS_PER_CYLINDER_def unat_div unat_mod)
  have m: "unat (lba mod SECTORS_PER_TRACK) = unat lba mod 63" by (simp add: SECTORS_PER_TRACK_def unat_mod)
  have "unat lba mod 63 < 63" by simp
  then show "unat (lba mod SECTORS_PER_TRACK + 1) = unat lba mod 63 + 1"
    by (subst unat_add_lem [THEN iffD1]) (auto simp: m)
qed

lemma chs_lba_to_chs: "unat lba < lba_limit \<Longrightarrow> chs_lba (lba_to_chs lba) = unat lba"
proof -
  assume l: "unat lba < lba_limit"
  have c: "unat lba div 63 div 16 < 65536"
    using l by (simp add: lba_limit_def less_mult_imp_div_less div_mult2_eq [symmetric])
  have h: "unat lba div 63 mod 16 < 16" and s: "unat lba mod 63 + 1 < 256" by simp_all
  have "unat (ucast (lba div SECTORS_PER_TRACK div HEADS_PER_CYLINDER) :: u16) = unat lba div 63 div 16"
    "unat (ucast (lba div SECTORS_PER_TRACK mod HEADS_PER_CYLINDER) :: u8) = unat lba div 63 mod 16"
    "unat (ucast (lba mod SECTORS_PER_TRACK + 1) :: u8) = unat lba mod 63 + 1"
    using c h s by (simp_all add: unsigned_ucast_eq lba_parts take_bit_nat_eq_self)
  then have "chs_lba (lba_to_chs lba) = (unat lba div 63 div 16 * 16 + unat lba div 63 mod 16) * 63 + unat lba mod 63"
    by (simp only: chs_lba_def lba_to_chs_def prod.case) simp
  then show ?thesis by (simp only: div_mult_mod_eq)
qed

lemma lba_to_chs_inj: "unat a < lba_limit \<Longrightarrow> unat b < lba_limit \<Longrightarrow> lba_to_chs a = lba_to_chs b \<longleftrightarrow> a = b"
  by (metis chs_lba_to_chs word_unat_eq_iff)

lemma lba_head: "fst (snd (lba_to_chs lba)) AND 0x0f = fst (snd (lba_to_chs lba))"
proof -
  have "unat (fst (snd (lba_to_chs lba))) < 16"
    by (simp add: lba_to_chs_def unsigned_ucast_eq lba_parts) (metis mod_less_divisor take_bit_nat_less_eq_self
      order_le_less_trans zero_less_numeral)
  then have "take_bit 4 (fst (snd (lba_to_chs lba))) = fst (snd (lba_to_chs lba))"
    by (simp add: word_unat_eq_iff unsigned_take_bit_eq take_bit_nat_eq_self)
  then show ?thesis by (simp add: take_bit_eq_mask mask_eq_exp_minus_1)
qed

lemma read_lba_loop_Suc:
  "read_lba_loop (Suc n) lba d p off =
     (if bad_read d (lba_to_chs lba) then (1, p)
      else read_lba_loop n (lba + 1) d (copy_bytes (media d (lba_to_chs lba)) 0 512 p off) (off + 512))"
  using lba_head [of lba] by (cases "lba_to_chs lba") (simp add: ata_read_sectors_def)

lemma write_lba_loop_Suc:
  "write_lba_loop (Suc n) lba p off d =
     (if bad_write d (lba_to_chs lba) then (1, d)
      else write_lba_loop n (lba + 1) p (off + 512)
             (d\<lparr>media := (media d)(lba_to_chs lba := copy_bytes p off 512 (media d (lba_to_chs lba)) 0)\<rparr>))"
  using lba_head [of lba] by (cases "lba_to_chs lba") (simp add: ata_write_sectors_def)

declare read_lba_loop.simps(2) [simp del] write_lba_loop.simps(2) [simp del]

section \<open>The disk as one array of bytes\<close>

definition healthy :: "ata_disk \<Rightarrow> bool" where
  "healthy d \<longleftrightarrow> (\<forall>x. \<not> bad_read d x \<and> \<not> bad_write d x)"

definition dbyte :: "ata_disk \<Rightarrow> nat \<Rightarrow> u8" where
  "dbyte d n = media d (lba_to_chs (of_nat (n div 512))) (of_nat (n mod 512))"

abbreviation disk_limit :: nat where "disk_limit \<equiv> 512 * lba_limit"

lemma in_range_split: "m + n \<le> 2 ^ 32 \<Longrightarrow>
  in_range a p (m + n) \<longleftrightarrow> in_range a p m \<or> in_range a (p + of_nat m) n"
proof -
  assume mn: "m + n \<le> 2 ^ 32"
  show ?thesis
  proof (cases "unat (a - p) < m")
    case True
    then show ?thesis by (simp add: in_range_def)
  next
    case False
    show ?thesis
    proof (cases "n = 0")
      case True
      with False show ?thesis by (simp add: in_range_def)
    next
      case nz: False
      with mn have m: "unat (of_nat m :: u32) = m" by simp
      with False have "unat (a - p - of_nat m) = unat (a - p) - m"
        by (subst unat_sub) (simp_all add: word_le_nat_alt)
      then have "unat (a - (p + of_nat m)) = unat (a - p) - m" by (simp add: diff_diff_eq)
      with False show ?thesis by (auto simp: in_range_def)
    qed
  qed
qed

lemma dbyte_sector:
  "i < 512 \<Longrightarrow> dbyte d (512 * unat lba + i) = media d (lba_to_chs lba) (of_nat i)"
  by (simp add: dbyte_def)

lemma read_lba_loop_at:
  assumes "healthy d" "512 * n \<le> 2 ^ 32 - 512" "unat lba + n \<le> lba_limit"
  shows "read_lba_loop n lba d p off =
    (0, \<lambda>a. if in_range a off (512 * n) then dbyte d (512 * unat lba + unat (a - off)) else p a)"
  using assms(2,3)
proof (induction n arbitrary: lba p off)
  case 0
  then show ?case by simp
next
  case (Suc n)
  let ?p = "copy_bytes (media d (lba_to_chs lba)) 0 512 p off"
  have lba: "unat (lba + 1) = unat lba + 1"
    using Suc.prems by (subst unat_add_lem [THEN iffD1]) (auto simp: lba_limit_def)
  have IH: "read_lba_loop n (lba + 1) d ?p (off + 512) = (0, \<lambda>a. if in_range a (off + 512) (512 * n)
      then dbyte d (512 * unat (lba + 1) + unat (a - (off + 512))) else ?p a)"
    using Suc.prems lba by (intro Suc.IH) auto
  have "(if in_range a (off + 512) (512 * n) then dbyte d (512 * unat (lba + 1) + unat (a - (off + 512))) else ?p a)
    = (if in_range a off (512 * Suc n) then dbyte d (512 * unat lba + unat (a - off)) else p a)" for a
  proof -
    have sp: "in_range a off (512 * Suc n) \<longleftrightarrow> in_range a off 512 \<or> in_range a (off + 512) (512 * n)"
      using in_range_split [of 512 "512 * n" a off] Suc.prems by simp
    show ?thesis
    proof (cases "in_range a off 512")
      case True
      then have i: "unat (a - off) < 512" by (simp add: in_range_def)
      have "\<not> in_range a (off + 512) (512 * n)"
      proof -
        have "unat (x - 512) = 2 ^ 32 + unat x - 512" if "unat x < 512" for x :: u32
          using that by (simp add: unat_sub_if_size word_size)
        from this [OF i] have "unat (a - (off + 512)) = 2 ^ 32 + unat (a - off) - 512"
          by (simp add: diff_diff_eq)
        then show ?thesis using Suc.prems by (simp add: in_range_def)
      qed
      with True sp dbyte_sector [OF i, of d lba] i show ?thesis
        by (simp add: copy_bytes_def)
    next
      case False
      then have "512 \<le> unat (a - off)" by (simp add: in_range_def)
      then have "unat (a - off - 512) = unat (a - off) - 512"
        by (subst unat_sub) (simp_all add: word_le_nat_alt)
      then have "unat (a - (off + 512)) = unat (a - off) - 512" by (simp add: diff_diff_eq)
      with False sp \<open>512 \<le> unat (a - off)\<close> show ?thesis
        by (auto simp: lba copy_bytes_def in_range_def)
    qed
  qed
  moreover have "\<not> bad_read d (lba_to_chs lba)" using assms(1) unfolding healthy_def by blast
  ultimately show ?case
    using IH by (simp add: read_lba_loop_Suc)
qed

lemma write_lba_loop_at:
  assumes "healthy d" "unat lba + n \<le> lba_limit"
  shows "\<exists>d'. write_lba_loop n lba p off d = (0, d') \<and> healthy d' \<and>
    (\<forall>b < disk_limit. dbyte d' b = (if 512 * unat lba \<le> b \<and> b < 512 * (unat lba + n)
       then p (off + of_nat (b - 512 * unat lba)) else dbyte d b))"
  using assms
proof (induction n arbitrary: lba off d)
  case 0
  then show ?case by auto
next
  case (Suc n)
  let ?d = "d\<lparr>media := (media d)(lba_to_chs lba := copy_bytes p off 512 (media d (lba_to_chs lba)) 0)\<rparr>"
  have lba: "unat (lba + 1) = unat lba + 1"
    using Suc.prems by (subst unat_add_lem [THEN iffD1]) (auto simp: lba_limit_def)
  have h: "healthy ?d" using Suc.prems(1) by (simp add: healthy_def)
  have b1: "dbyte ?d b = (if 512 * unat lba \<le> b \<and> b < 512 * unat lba + 512
      then p (off + of_nat (b - 512 * unat lba)) else dbyte d b)" if "b < disk_limit" for b
  proof -
    have q: "b div 512 < lba_limit" using that by (simp add: less_mult_imp_div_less mult.commute)
    then have qu: "unat (of_nat (b div 512) :: u32) = b div 512" by (simp add: lba_limit_def)
    have eq: "lba_to_chs (of_nat (b div 512)) = lba_to_chs lba \<longleftrightarrow> b div 512 = unat lba"
      using lba_to_chs_inj [of "of_nat (b div 512)" lba] q qu Suc.prems(2) by (auto simp: word_unat_eq_iff)
    have iff: "b div 512 = unat lba \<longleftrightarrow> 512 * unat lba \<le> b \<and> b < 512 * unat lba + 512"
      by (auto simp: div_nat_eqI)
    have u: "unat (of_nat (b mod 512) :: u32) < 512" by simp
    show ?thesis
    proof (cases "b div 512 = unat lba")
      case True
      then have "b - 512 * unat lba = b mod 512" by (metis minus_mult_div_eq_mod)
      with True eq iff u show ?thesis by (simp add: dbyte_def copy_bytes_def)
    next
      case False
      with eq iff show ?thesis by (auto simp: dbyte_def)
    qed
  qed
  have "unat (lba + 1) + n \<le> lba_limit" using Suc.prems lba by simp
  from Suc.IH [OF h this, of "off + 512"] obtain d' where
    d': "write_lba_loop n (lba + 1) p (off + 512) ?d = (0, d')" "healthy d'"
      "\<forall>b < disk_limit. dbyte d' b = (if 512 * unat (lba + 1) \<le> b \<and> b < 512 * (unat (lba + 1) + n)
         then p (off + 512 + of_nat (b - 512 * unat (lba + 1))) else dbyte ?d b)" by blast
  have "dbyte d' b = (if 512 * unat lba \<le> b \<and> b < 512 * (unat lba + Suc n)
       then p (off + of_nat (b - 512 * unat lba)) else dbyte d b)" if "b < disk_limit" for b
  proof (cases "512 * (unat lba + 1) \<le> b \<and> b < 512 * (unat lba + Suc n)")
    case True
    then have "off + 512 + of_nat (b - 512 * (unat lba + 1)) = off + of_nat (b - 512 * unat lba)"
      by (auto simp: of_nat_diff)
    with True d'(3) that lba show ?thesis by simp
  next
    case False
    with d'(3) that lba b1 [OF that] show ?thesis by auto
  qed
  moreover have "\<not> bad_write d (lba_to_chs lba)" using Suc.prems(1) unfolding healthy_def by blast
  ultimately show ?case
    using d'(1,2) by (auto simp: write_lba_loop_Suc)
qed

lemma read_lba_at:
  assumes "healthy d" "unat lba + unat count \<le> lba_limit"
  shows "read_lba lba count d p off = (0, \<lambda>a. if in_range a off (512 * unat count)
    then dbyte d (512 * unat lba + unat (a - off)) else p a)"
  using read_lba_loop_at [OF assms(1) _ assms(2), of p off] u8_less [of count] by (simp add: read_lba_def)

lemma write_lba_at:
  assumes "healthy d" "unat lba + unat count \<le> lba_limit"
  obtains d' where "write_lba lba count p off d = (0, d')" "healthy d'"
    "\<And>b. b < disk_limit \<Longrightarrow> dbyte d' b = (if 512 * unat lba \<le> b \<and> b < 512 * (unat lba + unat count)
       then p (off + of_nat (b - 512 * unat lba)) else dbyte d b)"
  using write_lba_loop_at [OF assms, of p off] that unfolding write_lba_def by blast

text \<open>The interface the file system is written against: a device of bytes in sectors.\<close>

locale block_device =
  fixes rd :: "u32 \<Rightarrow> u8 \<Rightarrow> 'd \<Rightarrow> bytes \<Rightarrow> u32 \<Rightarrow> nat \<times> bytes"
    and wr :: "u32 \<Rightarrow> u8 \<Rightarrow> bytes \<Rightarrow> u32 \<Rightarrow> 'd \<Rightarrow> nat \<times> 'd"
    and byte :: "'d \<Rightarrow> nat \<Rightarrow> u8" and ok :: "'d \<Rightarrow> bool" and limit :: nat
  assumes rd_at: "ok d \<Longrightarrow> unat lba + unat count \<le> limit \<Longrightarrow> rd lba count d p off =
      (0, \<lambda>a. if in_range a off (512 * unat count) then byte d (512 * unat lba + unat (a - off)) else p a)"
    and wr_at: "ok d \<Longrightarrow> unat lba + unat count \<le> limit \<Longrightarrow> \<exists>d'. wr lba count p off d = (0, d') \<and> ok d' \<and>
      (\<forall>b < 512 * limit. byte d' b = (if 512 * unat lba \<le> b \<and> b < 512 * (unat lba + unat count)
         then p (off + of_nat (b - 512 * unat lba)) else byte d b))"
begin

lemma read_written:
  assumes "ok d" "unat lba + unat count \<le> limit" "wr lba count p off d = (0, d')" "rd lba count d' q off' = (st, q')"
  shows "st = 0 \<and> (\<forall>i < 512 * unat count. q' (off' + of_nat i) = p (off + of_nat i))"
proof -
  from wr_at [OF assms(1,2), of p off] assms(3) have d': "ok d'" and b: "\<forall>b < 512 * limit. byte d' b =
    (if 512 * unat lba \<le> b \<and> b < 512 * (unat lba + unat count) then p (off + of_nat (b - 512 * unat lba)) else byte d b)"
    by auto
  from rd_at [OF d' assms(2), of q off'] assms(4) have st: "st = 0"
    and q': "q' a = (if in_range a off' (512 * unat count) then byte d' (512 * unat lba + unat (a - off')) else q a)" for a
    by auto
  have "q' (off' + of_nat i) = p (off + of_nat i)" if "i < 512 * unat count" for i
  proof -
    have i: "unat (of_nat i :: u32) = i" using that u8_less [of count] by simp
    have "512 * unat lba + i < 512 * limit" using that assms(2) by simp
    with that show ?thesis by (simp add: q' in_range_def i b)
  qed
  with st show ?thesis by simp
qed

lemma read_other:
  assumes "ok d" "unat lba + unat count \<le> limit" "wr lba count p off d = (0, d')"
    and "unat lba2 + unat count2 \<le> limit" "unat lba + unat count \<le> unat lba2 \<or> unat lba2 + unat count2 \<le> unat lba"
  shows "rd lba2 count2 d' q off2 = rd lba2 count2 d q off2"
proof -
  from wr_at [OF assms(1,2), of p off] assms(3) have d': "ok d'" and b: "\<forall>b < 512 * limit. byte d' b =
    (if 512 * unat lba \<le> b \<and> b < 512 * (unat lba + unat count) then p (off + of_nat (b - 512 * unat lba)) else byte d b)"
    by auto
  have "byte d' (512 * unat lba2 + i) = byte d (512 * unat lba2 + i)" if "i < 512 * unat count2" for i
  proof -
    have "512 * unat lba2 + i < 512 * (unat lba2 + unat count2)" using that by simp
    moreover from this have "512 * unat lba2 + i < 512 * limit"
      using assms(4) by (meson less_le_trans mult_le_mono2)
    ultimately show ?thesis using b assms(5) by auto
  qed
  then show ?thesis
    unfolding rd_at [OF d' assms(4)] rd_at [OF assms(1,4)] by (auto simp: in_range_def fun_eq_iff)
qed

end

interpretation ata: block_device read_lba write_lba dbyte healthy lba_limit
proof
  fix d and lba :: u32 and count :: u8 and p :: bytes and off :: u32
  assume "healthy d" "unat lba + unat count \<le> lba_limit"
  then show "\<exists>d'. write_lba lba count p off d = (0, d') \<and> healthy d' \<and>
      (\<forall>b < 512 * lba_limit. dbyte d' b = (if 512 * unat lba \<le> b \<and> b < 512 * (unat lba + unat count)
         then p (off + of_nat (b - 512 * unat lba)) else dbyte d b))"
    unfolding write_lba_def by (rule write_lba_loop_at)
qed (rule read_lba_at)

section \<open>Property\<close>

text \<open>
  C39. On a drive that reports no errors, sectors written with \<^verbatim>\<open>write_lba\<close> are read back by
  \<^verbatim>\<open>read_lba\<close> byte for byte, and reads of other sectors return what they returned before, for
  all sectors that cylinder, head and sector can address (\<^verbatim>\<open>lba_to_chs\<close> is one to one there).
\<close>

theorem disk_read_after_write:
  assumes "healthy d" "unat lba + unat count \<le> lba_limit" "write_lba lba count p off d = (0, d')"
    and "read_lba lba count d' q off' = (st, q')"
    and "unat lba2 + unat count2 \<le> lba_limit" "unat lba + unat count \<le> unat lba2 \<or> unat lba2 + unat count2 \<le> unat lba"
  shows "st = 0 \<and> (\<forall>i < 512 * unat count. q' (off' + of_nat i) = p (off + of_nat i))
    \<and> read_lba lba2 count2 d' q off2 = read_lba lba2 count2 d q off2"
  using ata.read_written [OF assms(1-4)] ata.read_other [OF assms(1-3,5,6)] by blast

definition disk_example :: ata_disk where
  "disk_example = \<lparr>media = (\<lambda>_ _. 0), bad_read = (\<lambda>_. False), bad_write = (\<lambda>_. False)\<rparr>"

lemma disk_read_after_write_witness:
  "\<exists>d' st q'. write_lba 70 2 (\<lambda>a. ucast a) 5 disk_example = (0, d') \<and> read_lba 70 2 d' (\<lambda>_. 0) 0 = (st, q')
    \<and> st = 0 \<and> q' (of_nat 600) = ucast (605 :: u32)"
proof -
  have h: "healthy disk_example" by (simp add: healthy_def disk_example_def)
  obtain d' where d': "write_lba 70 2 (\<lambda>a. ucast a) 5 disk_example = (0, d')"
    using write_lba_at [OF h, of 70 2 "\<lambda>a. ucast a" 5] by (auto simp: lba_limit_def)
  obtain st q' where q': "read_lba 70 2 d' (\<lambda>_. 0) 0 = (st, q')" by (meson surj_pair)
  have "st = 0 \<and> (\<forall>i < 512 * unat (2 :: u8). q' (0 + of_nat i) = ucast (5 + of_nat i :: u32))"
    using disk_read_after_write [OF h _ d' q', of 0 1] by (simp add: lba_limit_def)
  then have "st = 0" "q' (of_nat 600) = ucast (5 + of_nat 600 :: u32)" by (auto simp del: of_nat_numeral)
  with d' q' show ?thesis by auto
qed

end
