(* ===== verification/Fat_Table.thy ===== *)
theory Fat_Table
  imports Ata Kheap
begin

text \<open>
  The data of the FAT12 file system \<^verbatim>\<open>src/src/fs/fat.c\<close>: on-disk structures, the state of the
  driver, the packed 12-bit file allocation table with its allocation and release of cluster
  chains, and 8.3 names.

  Objects in memory (\<^verbatim>\<open>sector_buf\<close>, \<^verbatim>\<open>fat_buf\<close>, \<^verbatim>\<open>cluster_buf\<close>, the buffer of a caller) are
  functions from the offset to the byte. An offset beyond the end of \<^verbatim>\<open>fat_buf\<close> reads or writes
  whatever follows it in memory, as in the code, which has no check.
\<close>

section \<open>On-disk structures\<close>

record fat12_bpb =
  jmp :: "u8 list"
  oem :: "u8 list"
  bytes_per_sector :: u16
  sectors_per_cluster :: u8
  reserved_sectors :: u16
  fat_count :: u8
  root_entry_count :: u16
  total_sectors_16 :: u16
  media_descriptor :: u8
  sectors_per_fat :: u16
  sectors_per_track :: u16
  head_count :: u16
  hidden_sectors :: u32
  total_sectors_32 :: u32
  drive_number :: u8
  bpb_reserved1 :: u8
  boot_signature :: u8
  volume_id :: u32
  volume_label :: "u8 list"
  fs_type :: "u8 list"

record fat12_dirent =
  de_name :: "u8 list"
  de_attr :: u8
  de_reserved :: u8
  create_time_tenths :: u8
  create_time :: u16
  create_date :: u16
  access_date :: u16
  first_cluster_high :: u16
  write_time :: u16
  write_date :: u16
  first_cluster_low :: u16
  file_size :: u32

definition get_bpb :: "bytes \<Rightarrow> fat12_bpb" where
  "get_bpb m = \<lparr>jmp = bytes_at m 0 3, oem = bytes_at m 3 8, bytes_per_sector = ld16 m 11,
     sectors_per_cluster = m 13, reserved_sectors = ld16 m 14, fat_count = m 16,
     root_entry_count = ld16 m 17, total_sectors_16 = ld16 m 19, media_descriptor = m 21,
     sectors_per_fat = ld16 m 22, sectors_per_track = ld16 m 24, head_count = ld16 m 26,
     hidden_sectors = ld32 m 28, total_sectors_32 = ld32 m 32, drive_number = m 36,
     bpb_reserved1 = m 37, boot_signature = m 38, volume_id = ld32 m 39,
     volume_label = bytes_at m 43 11, fs_type = bytes_at m 54 8\<rparr>"

definition get_dirent :: "bytes \<Rightarrow> u32 \<Rightarrow> fat12_dirent" where
  "get_dirent m p = \<lparr>de_name = bytes_at m p 11, de_attr = m (p + 11), de_reserved = m (p + 12),
     create_time_tenths = m (p + 13), create_time = ld16 m (p + 14), create_date = ld16 m (p + 16),
     access_date = ld16 m (p + 18), first_cluster_high = ld16 m (p + 20), write_time = ld16 m (p + 22),
     write_date = ld16 m (p + 24), first_cluster_low = ld16 m (p + 26), file_size = ld32 m (p + 28)\<rparr>"

text \<open>Storing a list of bytes, and the 32 bytes of an entry.\<close>

fun store_bytes :: "u32 \<Rightarrow> u8 list \<Rightarrow> bytes \<Rightarrow> bytes" where
  "store_bytes p [] m = m"
| "store_bytes p (x # xs) m = store_bytes (p + 1) xs (m(p := x))"

definition le16 :: "u16 \<Rightarrow> u8 list" where "le16 v = [ucast v, ucast (drop_bit 8 v)]"

definition le32 :: "u32 \<Rightarrow> u8 list" where
  "le32 v = [ucast v, ucast (drop_bit 8 v), ucast (drop_bit 16 v), ucast (drop_bit 24 v)]"

definition dirent_bytes :: "fat12_dirent \<Rightarrow> u8 list" where
  "dirent_bytes e = de_name e @ [de_attr e, de_reserved e, create_time_tenths e] @ le16 (create_time e)
     @ le16 (create_date e) @ le16 (access_date e) @ le16 (first_cluster_high e) @ le16 (write_time e)
     @ le16 (write_date e) @ le16 (first_cluster_low e) @ le32 (file_size e)"

definition put_dirent :: "u32 \<Rightarrow> fat12_dirent \<Rightarrow> bytes \<Rightarrow> bytes" where
  "put_dirent p e m = store_bytes p (dirent_bytes e) m"

section \<open>The state of the driver\<close>

abbreviation SECTOR_SIZE :: u32 where "SECTOR_SIZE \<equiv> 512"
abbreviation DIRENT_SIZE :: u32 where "DIRENT_SIZE \<equiv> 32"
abbreviation ATTR_LONG_NAME :: u8 where "ATTR_LONG_NAME \<equiv> 0x0f"
abbreviation ATTR_VOLUME_ID :: u8 where "ATTR_VOLUME_ID \<equiv> 0x08"
abbreviation ATTR_DIRECTORY :: u8 where "ATTR_DIRECTORY \<equiv> 0x10"
abbreviation FAT12_EOC :: u16 where "FAT12_EOC \<equiv> 0x0ff8"
abbreviation FAT12_FREE :: u16 where "FAT12_FREE \<equiv> 0"
abbreviation FAT12_EOC_MARK :: u16 where "FAT12_EOC_MARK \<equiv> 0x0fff"

record fat_state =
  bpb :: fat12_bpb
  fat_start :: u32
  root_start :: u32
  root_sectors :: u32
  data_start :: u32
  sector_buf :: bytes
  fat_buf :: bytes
  cluster_buf_ptr :: u32
  cluster_buf :: bytes
  cluster_size :: u32
  disk :: ata_disk

section \<open>The file allocation table\<close>

definition fat_offset :: "u16 \<Rightarrow> u32" where
  "fat_offset cluster = ucast cluster + ucast (cluster div 2)"

definition fat_next :: "bytes \<Rightarrow> u16 \<Rightarrow> u16" where
  "fat_next fb cluster =
     (let off = fat_offset cluster;
          val = (ucast (fb off) :: u16) OR push_bit 8 (ucast (fb (off + 1)))
      in if cluster AND 1 \<noteq> 0 then drop_bit 4 val else val AND 0x0fff)"

definition fat_set_entry :: "u16 \<Rightarrow> u16 \<Rightarrow> bytes \<Rightarrow> bytes" where
  "fat_set_entry cluster value0 fb =
     (let off = fat_offset cluster;
          value = value0 AND 0x0fff
      in if cluster AND 1 \<noteq> 0
         then (let fb1 = fb(off := (fb off AND 0x0f) OR ucast (push_bit 4 (value AND 0x0f)))
               in fb1(off + 1 := ucast (drop_bit 4 value AND 0xff)))
         else (let fb1 = fb(off := ucast (value AND 0xff))
               in fb1(off + 1 := (fb1 (off + 1) AND 0xf0) OR ucast (drop_bit 8 value AND 0x0f))))"

text \<open>\<open>None\<close> is the division by zero of a volume with no sectors in a cluster.\<close>

definition fat_total_clusters :: "fat_state \<Rightarrow> u32 option" where
  "fat_total_clusters s =
     (let total_sectors = (if total_sectors_16 (bpb s) \<noteq> 0 then ucast (total_sectors_16 (bpb s))
                           else total_sectors_32 (bpb s));
          data_sectors = total_sectors - data_start s
      in if sectors_per_cluster (bpb s) = 0 then None
         else Some (data_sectors div ucast (sectors_per_cluster (bpb s)) + 2))"

text \<open>
  The search counts in 16 bits: with a bound above \<open>0xffff\<close> and no free entry it does not
  end. The result 0 says that no cluster is free.
\<close>

partial_function (option) fat_alloc_loop :: "u16 \<Rightarrow> u32 \<Rightarrow> bytes \<Rightarrow> (u16 \<times> bytes) option" where
  "fat_alloc_loop c max_c fb =
     (if (ucast c :: u32) < max_c then
        (if fat_next fb c = FAT12_FREE then Some (c, fat_set_entry c FAT12_EOC_MARK fb)
         else fat_alloc_loop (c + 1) max_c fb)
      else Some (0, fb))"

definition fat_alloc_cluster :: "fat_state \<Rightarrow> (u16 \<times> fat_state) option" where
  "fat_alloc_cluster s =
     (case fat_total_clusters s of None \<Rightarrow> None
      | Some max_c \<Rightarrow>
          (case fat_alloc_loop 2 max_c (fat_buf s) of None \<Rightarrow> None
           | Some (c, fb) \<Rightarrow> Some (c, s\<lparr>fat_buf := fb\<rparr>)))"

partial_function (option) fat_free_loop :: "u16 \<Rightarrow> bytes \<Rightarrow> bytes option" where
  "fat_free_loop cluster fb =
     (if 2 \<le> cluster \<and> cluster < FAT12_EOC then
        (let nxt = fat_next fb cluster in fat_free_loop nxt (fat_set_entry cluster FAT12_FREE fb))
      else Some fb)"

definition fat_free_chain :: "u16 \<Rightarrow> fat_state \<Rightarrow> fat_state option" where
  "fat_free_chain cluster s = map_option (\<lambda>fb. s\<lparr>fat_buf := fb\<rparr>) (fat_free_loop cluster (fat_buf s))"

fun fat_flush_loop :: "nat \<Rightarrow> u32 \<Rightarrow> fat_state \<Rightarrow> nat \<times> fat_state" where
  "fat_flush_loop 0 i s = (0, s)"
| "fat_flush_loop (Suc n) i s =
     (let lba = fat_start s + i * ucast (sectors_per_fat (bpb s))
      in case write_lba lba (ucast (sectors_per_fat (bpb s))) (fat_buf s) 0 (disk s) of
           (st, d) \<Rightarrow> if st \<noteq> 0 then (1, s\<lparr>disk := d\<rparr>) else fat_flush_loop n (i + 1) (s\<lparr>disk := d\<rparr>))"

definition fat_flush :: "fat_state \<Rightarrow> nat \<times> fat_state" where
  "fat_flush s = fat_flush_loop (unat (fat_count (bpb s))) 0 s"

section \<open>Names\<close>

definition fat_entry_basename :: "fat12_dirent \<Rightarrow> u8 list" where
  "fat_entry_basename e = de_name e"

definition fat_entry_ext :: "fat12_dirent \<Rightarrow> u8 list" where
  "fat_entry_ext e = drop 8 (de_name e)"

text \<open>
  A C string is the list of its characters. \<open>pad\<close> is \<^verbatim>\<open>memset(out, ' ', n)\<close> followed by the
  stores of a loop that runs from the start of \<^verbatim>\<open>out\<close>.
\<close>

definition pad :: "nat \<Rightarrow> u8 list \<Rightarrow> u8 list" where
  "pad n xs = xs @ replicate (n - length xs) 32"

definition to_fat_name :: "u8 list \<Rightarrow> u8 list" where
  "to_fat_name name =
     (let base = take 8 (takeWhile (\<lambda>c. c \<noteq> 46) name);
          rest = drop (length base) name;
          ext = (case rest of c # cs \<Rightarrow> if c = 46 then take 3 cs else [] | [] \<Rightarrow> [])
      in pad 8 (map to_upper base) @ pad 3 (map to_upper ext))"

definition from_fat_name :: "u8 list \<Rightarrow> u8 list" where
  "from_fat_name raw =
     (let base = takeWhile (\<lambda>c. c \<noteq> 32) (take 8 raw)
      in if raw ! 8 \<noteq> 32 then base @ [46] @ takeWhile (\<lambda>c. c \<noteq> 32) (take 3 (drop 8 raw)) else base)"

text \<open>The next component of a path, of at most twelve characters, and the rest of the path.\<close>

definition split_next :: "u8 list \<Rightarrow> (u8 list \<times> u8 list) option" where
  "split_next pp =
     (let p = dropWhile (\<lambda>c. c = 47) pp
      in if p = [] then None
         else (let comp = take 12 (takeWhile (\<lambda>c. c \<noteq> 47) p) in Some (comp, drop (length comp) p)))"

section \<open>The table as an array of 12-bit entries\<close>

text \<open>Two entries share three bytes.\<close>

definition even_entry :: "u8 \<Rightarrow> u8 \<Rightarrow> u16" where
  "even_entry a b = (ucast a OR push_bit 8 (ucast b)) AND 0x0fff"

definition odd_entry :: "u8 \<Rightarrow> u8 \<Rightarrow> u16" where
  "odd_entry b c = drop_bit 4 (ucast b OR push_bit 8 (ucast c))"

lemma even_entry_bit: "bit (even_entry a b) n \<longleftrightarrow> (if n < 8 then bit a n else n < 12 \<and> bit b (n - 8))"
proof -
  have m: "(0x0fff :: u16) = mask 12" by (simp add: mask_eq_exp_minus_1)
  show ?thesis unfolding even_entry_def m
    using bit_imp_le_length [of a n] by (auto simp: bit_simps less_diff_conv not_less)
qed

lemma odd_entry_bit: "bit (odd_entry b c) n \<longleftrightarrow> (if n < 4 then bit b (n + 4) else n < 12 \<and> bit c (n - 4))"
  using bit_imp_le_length [of b "n + 4"] bit_imp_le_length [of c "n - 4"]
  by (auto simp: odd_entry_def bit_simps less_diff_conv not_less add.commute)

lemma cluster_cases:
  fixes c :: u16
  obtains k where "k < 2 ^ 15" "unat c = 2 * k" "\<not> bit c 0" "fat_offset c = of_nat (3 * k)"
  | k where "k < 2 ^ 15" "unat c = 2 * k + 1" "bit c 0" "fat_offset c = of_nat (3 * k + 1)"
proof -
  define k where "k = unat c div 2"
  have k: "k < 2 ^ 15" using u16_less [of c] by (simp add: k_def)
  have "unat (fat_offset c) = unat c + unat c div 2"
    using u16_less [of c] unfolding fat_offset_def by (subst unat_add_lem [THEN iffD1]) (auto simp: unat_div)
  then have "fat_offset c = of_nat (unat c + unat c div 2)" by (metis of_nat_unat ucast_id)
  moreover have "bit c 0 \<longleftrightarrow> odd (unat c)"
  proof -
    have "bit (unat c) 0 \<longleftrightarrow> bit c 0" by (simp only: bit_unsigned_iff possible_bit_nat simp_thms)
    then show ?thesis by (simp only: bit_0)
  qed
  ultimately have off: "fat_offset c = of_nat (unat c + k)" and b: "bit c 0 \<longleftrightarrow> odd (unat c)" by (simp_all only: k_def)
  show thesis
  proof (cases "even (unat c)")
    case True
    then have "unat c = 2 * k" by (simp add: k_def)
    with off have "fat_offset c = of_nat (3 * k)" by simp
    with that(1) [OF k \<open>unat c = 2 * k\<close>] b True show thesis by blast
  next
    case False
    then have c: "unat c = 2 * k + 1" by (simp add: k_def)
    then have "unat c + k = 3 * k + 1" by simp
    with off have "fat_offset c = of_nat (3 * k + 1)" by (simp only:)
    with that(2) [OF k c] b False show thesis by blast
  qed
qed

lemma fat_next_even: "fat_offset c = p \<Longrightarrow> \<not> bit c 0 \<Longrightarrow> fat_next fb c = even_entry (fb p) (fb (p + 1))"
  using and_exp_eq_0_iff_not_bit [of c 0] by (simp add: fat_next_def even_entry_def Let_def)

lemma fat_next_odd: "fat_offset c = p \<Longrightarrow> bit c 0 \<Longrightarrow> fat_next fb c = odd_entry (fb p) (fb (p + 1))"
  using and_exp_eq_0_iff_not_bit [of c 0] by (simp add: fat_next_def odd_entry_def Let_def)

definition low_nibble :: "u8 \<Rightarrow> u16 \<Rightarrow> u8" where
  "low_nibble b v = (b AND 0x0f) OR ucast (push_bit 4 (v AND 0x0f))"

definition high_nibble :: "u8 \<Rightarrow> u16 \<Rightarrow> u8" where
  "high_nibble b v = (b AND 0xf0) OR ucast (drop_bit 8 v AND 0x0f)"

lemma fat_set_even: "fat_offset c = p \<Longrightarrow> \<not> bit c 0 \<Longrightarrow>
  fat_set_entry c v fb = fb(p := ucast (v AND 0x0fff), p + 1 := high_nibble (fb (p + 1)) (v AND 0x0fff))"
proof -
  have "ucast ((v AND 0x0fff) AND 0xff) = (ucast (v AND 0x0fff) :: u8)"
  proof -
    have m: "(0xff :: u16) = mask 8" by (simp add: mask_eq_exp_minus_1)
    show ?thesis unfolding m by (rule bit_word_eqI) (auto simp: bit_simps)
  qed
  then show "fat_offset c = p \<Longrightarrow> \<not> bit c 0 \<Longrightarrow> ?thesis"
    using and_exp_eq_0_iff_not_bit [of c 0] by (simp add: fat_set_entry_def high_nibble_def Let_def)
qed

lemma fat_set_odd: "fat_offset c = p \<Longrightarrow> bit c 0 \<Longrightarrow>
  fat_set_entry c v fb = fb(p := low_nibble (fb p) (v AND 0x0fff), p + 1 := ucast (drop_bit 4 (v AND 0x0fff)))"
proof -
  have "ucast (drop_bit 4 (v AND 0x0fff) AND 0xff) = (ucast (drop_bit 4 (v AND 0x0fff)) :: u8)"
  proof -
    have m: "(0xff :: u16) = mask 8" by (simp add: mask_eq_exp_minus_1)
    show ?thesis unfolding m by (rule bit_word_eqI) (auto simp: bit_simps)
  qed
  then show "fat_offset c = p \<Longrightarrow> bit c 0 \<Longrightarrow> ?thesis"
    using and_exp_eq_0_iff_not_bit [of c 0] by (simp add: fat_set_entry_def low_nibble_def Let_def)
qed

lemma low_nibble_bit: "bit (low_nibble b v) n \<longleftrightarrow> (if n < 4 then bit b n else n < 8 \<and> bit v (n - 4))"
proof -
  have m: "(0x0f :: u8) = mask 4" "(0x0f :: u16) = mask 4" by (simp_all add: mask_eq_exp_minus_1)
  show ?thesis unfolding low_nibble_def m
    by (auto simp: bit_simps less_diff_conv not_less)
qed

lemma high_nibble_bit: "bit (high_nibble b v) n \<longleftrightarrow> (if n < 4 then bit v (n + 8) else bit b n)"
proof -
  have m: "(0xf0 :: u8) = push_bit 4 (mask 4)" "(0x0f :: u16) = mask 4" by (simp_all add: mask_eq_exp_minus_1)
  show ?thesis unfolding high_nibble_def m
    using bit_imp_le_length [of b n] by (auto simp: bit_simps less_diff_conv not_less add.commute)
qed

lemma mask12_bit: "bit (v AND 0x0fff) n \<longleftrightarrow> n < 12 \<and> bit v n" for v :: u16
proof -
  have m: "(0x0fff :: u16) = mask 12" by (simp add: mask_eq_exp_minus_1)
  show ?thesis unfolding m by (auto simp: bit_simps)
qed

lemma entry_laws:
  assumes "\<And>n. bit v n \<Longrightarrow> n < 12"
  shows "even_entry (ucast v) (high_nibble b v) = v" "odd_entry (low_nibble b v) (ucast (drop_bit 4 v)) = v"
proof -
  have "n - 8 < 4" if "bit v n" for n using assms [OF that] by simp
  with assms show "even_entry (ucast v) (high_nibble b v) = v"
    by (intro bit_word_eqI) (auto simp: even_entry_bit high_nibble_bit bit_simps)
  have "n - 4 < 8" if "bit v n" for n using assms [OF that] by simp
  with assms show "odd_entry (low_nibble b v) (ucast (drop_bit 4 v)) = v"
    by (intro bit_word_eqI) (auto simp: odd_entry_bit low_nibble_bit bit_simps)
qed

lemma entry_other: "even_entry a (low_nibble b w) = even_entry a b" "odd_entry (high_nibble b w) c = odd_entry b c"
proof -
  show "even_entry a (low_nibble b w) = even_entry a b"
    by (rule bit_word_eqI) (auto simp: even_entry_bit low_nibble_bit)
  show "odd_entry (high_nibble b w) c = odd_entry b c"
    by (rule bit_word_eqI) (auto simp: odd_entry_bit high_nibble_bit)
qed

lemma of_nat_upd: "x < 2 ^ 17 \<Longrightarrow> y < 2 ^ 17 \<Longrightarrow> (f(of_nat x := b)) (of_nat y :: u32) = (if x = y then b else f (of_nat y))"
  using of_nat_u32_eq [of x y] by auto

lemma fat_get_set: "fat_next (fat_set_entry c v fb) d = (if c = d then v AND 0x0fff else fat_next fb d)"
proof -
  obtain w where w: "v AND 0x0fff = w" by blast
  have v: "n < 12" if "bit w n" for n using that unfolding w [symmetric] by (simp add: mask12_bit)
  have cd: "c = d \<longleftrightarrow> unat c = unat d" by (simp add: word_unat_eq_iff)
  have suc: "(of_nat x :: u32) + 1 = of_nat (Suc x)" for x by simp
  show ?thesis
  proof (cases rule: cluster_cases [of c])
    case c: (1 k)
    show ?thesis
    proof (cases rule: cluster_cases [of d])
      case d: (1 l)
      show ?thesis
        using c(1) d(1) unfolding cd c(2) d(2) fat_set_even [OF c(4,3)] fat_next_even [OF d(4,3)] suc w
        by ((simp add: of_nat_upd entry_laws [OF v] del: of_nat_Suc of_nat_mult fun_upd_apply), (arith)?)
    next
      case d: (2 l)
      show ?thesis
        using c(1) d(1) unfolding cd c(2) d(2) fat_set_even [OF c(4,3)] fat_next_odd [OF d(4,3)] suc w
        by ((simp add: of_nat_upd entry_other del: of_nat_Suc of_nat_mult of_nat_add fun_upd_apply), (arith)?)
    qed
  next
    case c: (2 k)
    show ?thesis
    proof (cases rule: cluster_cases [of d])
      case d: (1 l)
      show ?thesis
        using c(1) d(1) unfolding cd c(2) d(2) fat_set_odd [OF c(4,3)] fat_next_even [OF d(4,3)] suc w
        by ((simp add: of_nat_upd entry_other del: of_nat_Suc of_nat_mult of_nat_add fun_upd_apply), (arith)?)
    next
      case d: (2 l)
      show ?thesis
        using c(1) d(1) unfolding cd c(2) d(2) fat_set_odd [OF c(4,3)] fat_next_odd [OF d(4,3)] suc w
        by ((simp add: of_nat_upd entry_laws [OF v] del: of_nat_Suc of_nat_mult of_nat_add fun_upd_apply), (arith)?)
    qed
  qed
qed

lemma fat_next_set: "fat_next (fat_set_entry c v fb) = (fat_next fb)(c := v AND 0x0fff)"
  by (rule ext) (auto simp: fat_get_set)

section \<open>Cluster chains\<close>

text \<open>
  \<open>chain f c cs\<close>: following the table \<open>f\<close> from \<open>c\<close> visits the clusters \<open>cs\<close> and then an end
  mark (or a free or reserved value).
\<close>

definition in_data :: "u16 \<Rightarrow> bool" where
  "in_data c \<longleftrightarrow> 2 \<le> c \<and> c < FAT12_EOC"

fun chain :: "(u16 \<Rightarrow> u16) \<Rightarrow> u16 \<Rightarrow> u16 list \<Rightarrow> bool" where
  "chain f c [] \<longleftrightarrow> \<not> in_data c"
| "chain f c (x # xs) \<longleftrightarrow> x = c \<and> in_data c \<and> chain f (f c) xs"

lemma chain_unique: "chain f c xs \<Longrightarrow> chain f c ys \<Longrightarrow> xs = ys"
proof (induction xs arbitrary: c ys)
  case Nil
  then show ?case by (cases ys) auto
next
  case (Cons x xs)
  then show ?case by (cases ys) auto
qed

lemma chain_suffix: "chain f c (xs @ x # ys) \<Longrightarrow> chain f x (x # ys)"
  by (induction xs arbitrary: c) auto

lemma chain_distinct: "chain f c xs \<Longrightarrow> distinct xs"
proof (induction xs arbitrary: c)
  case (Cons x xs)
  have "x \<notin> set xs"
  proof
    assume "x \<in> set xs"
    then obtain ys zs where "xs = ys @ x # zs" by (meson split_list)
    then have "chain f c ((x # ys) @ x # zs)" using Cons.prems by (simp only: append_Cons)
    then have "chain f x (x # zs)" by (rule chain_suffix)
    moreover have "chain f x (x # xs)" using Cons.prems by simp
    ultimately have "x # zs = x # xs" by (rule chain_unique)
    with \<open>xs = ys @ x # zs\<close> show False by simp
  qed
  with Cons show ?case by auto
qed simp

lemma chain_in_data: "chain f c xs \<Longrightarrow> x \<in> set xs \<Longrightarrow> in_data x"
  by (induction xs arbitrary: c) auto

lemma chain_cong: "chain f c xs \<Longrightarrow> (\<And>x. x \<in> set xs \<Longrightarrow> g x = f x) \<Longrightarrow> chain g c xs"
  by (induction xs arbitrary: c) auto

lemma chain_upd: "chain f c xs \<Longrightarrow> x \<notin> set xs \<Longrightarrow> chain (f(x := v)) c xs"
  by (rule chain_cong [of f]) auto

section \<open>Releasing a chain\<close>

definition freed :: "(u16 \<Rightarrow> u16) \<Rightarrow> u16 set \<Rightarrow> u16 \<Rightarrow> u16" where
  "freed f C d = (if d \<in> C then 0 else f d)"

lemma fat_free_loop_step:
  "in_data c \<Longrightarrow> fat_free_loop c fb = fat_free_loop (fat_next fb c) (fat_set_entry c FAT12_FREE fb)"
  "\<not> in_data c \<Longrightarrow> fat_free_loop c fb = Some fb"
  using fat_free_loop.simps [of c fb] by (auto simp: in_data_def Let_def)

lemma freed_simps [simp]: "freed f {} = f" "(freed f C)(c := 0) = freed f (insert c C)" "f(c := 0) = freed f {c}"
  "freed (freed f C) D = freed f (C \<union> D)"
  by (auto simp: freed_def fun_eq_iff)

text \<open>The loop ends on every table, cyclic or not: each round clears an entry that was not zero,
  except that a zero entry is the last one visited.\<close>

lemma fat_free_loop_total:
  "\<exists>fb' C. fat_free_loop c fb = Some fb' \<and> fat_next fb' = freed (fat_next fb) C"
proof (induction "card {d. fat_next fb d \<noteq> 0}" arbitrary: c fb rule: less_induct)
  case less
  show ?case
  proof (cases "in_data c")
    case False
    then show ?thesis by (auto simp: fat_free_loop_step intro!: exI [of _ "{}"])
  next
    case True
    let ?fb = "fat_set_entry c FAT12_FREE fb"
    have nx: "fat_next ?fb = freed (fat_next fb) {c}" by (simp add: fat_next_set)
    show ?thesis
    proof (cases "fat_next fb c = 0")
      case zero: True
      then have "\<not> in_data (fat_next fb c)" by (simp add: in_data_def)
      with True nx show ?thesis
        by (auto simp: fat_free_loop_step intro!: exI [of _ "{c}"])
    next
      case False
      then have "{d. fat_next ?fb d \<noteq> 0} \<subset> {d. fat_next fb d \<noteq> 0}"
        by (auto simp: nx freed_def)
      then have "card {d. fat_next ?fb d \<noteq> 0} < card {d. fat_next fb d \<noteq> 0}"
        by (intro psubset_card_mono) simp_all
      from less [OF this, of "fat_next fb c"] obtain fb' C where
        "fat_free_loop (fat_next fb c) ?fb = Some fb'" "fat_next fb' = freed (fat_next ?fb) C" by blast
      with True nx show ?thesis
        by (auto simp: fat_free_loop_step intro!: exI [of _ "insert c C"])
    qed
  qed
qed

lemma fat_free_loop_chain:
  "chain (fat_next fb) c cs \<Longrightarrow> \<exists>fb'. fat_free_loop c fb = Some fb' \<and> fat_next fb' = freed (fat_next fb) (set cs)"
proof (induction cs arbitrary: c fb)
  case Nil
  then show ?case by (simp add: fat_free_loop_step)
next
  case (Cons x cs)
  let ?fb = "fat_set_entry c FAT12_FREE fb"
  have c: "x = c" "in_data c" "chain (fat_next fb) (fat_next fb c) cs" "c \<notin> set cs"
    using Cons.prems chain_distinct [OF Cons.prems] by auto
  have nx: "fat_next ?fb = freed (fat_next fb) {c}" by (simp add: fat_next_set)
  have "chain (fat_next ?fb) (fat_next fb c) cs" using chain_upd [OF c(3,4), of 0] by (simp add: nx)
  from Cons.IH [OF this] obtain fb' where
    "fat_free_loop (fat_next fb c) ?fb = Some fb'" "fat_next fb' = freed (fat_next ?fb) (set cs)" by blast
  with c nx show ?case
    by (auto simp: fat_free_loop_step)
qed

section \<open>Allocating a cluster\<close>

definition free_clusters :: "(u16 \<Rightarrow> u16) \<Rightarrow> nat \<Rightarrow> u16 set" where
  "free_clusters f m = {c. 2 \<le> c \<and> unat c < m \<and> f c = 0}"

lemma fat_alloc_loop_spec:
  assumes "unat m \<le> 0xffff"
  shows "\<exists>r fb'. fat_alloc_loop c m fb = Some (r, fb') \<and>
    ((\<exists>d \<ge> c. unat d < unat m \<and> fat_next fb d = 0 \<and> (\<forall>e. c \<le> e \<and> e < d \<longrightarrow> fat_next fb e \<noteq> 0)
        \<and> r = d \<and> fb' = fat_set_entry d FAT12_EOC_MARK fb)
     \<or> (\<forall>d \<ge> c. unat d < unat m \<longrightarrow> fat_next fb d \<noteq> 0) \<and> r = 0 \<and> fb' = fb)"
proof (induction "unat m - unat c" arbitrary: c)
  case 0
  then have "fat_alloc_loop c m fb = Some (0, fb)"
    by (subst fat_alloc_loop.simps) (simp add: word_less_nat_alt)
  moreover have "\<forall>d \<ge> c. unat d < unat m \<longrightarrow> fat_next fb d \<noteq> 0"
    using 0 by (auto simp: word_le_nat_alt)
  ultimately show ?case by blast
next
  case (Suc n)
  then have lt: "unat c < unat m" by simp
  show ?case
  proof (cases "fat_next fb c = 0")
    case True
    then have "fat_alloc_loop c m fb = Some (c, fat_set_entry c FAT12_EOC_MARK fb)"
      using lt by (subst fat_alloc_loop.simps) (simp add: word_less_nat_alt)
    with True lt show ?thesis by (auto intro!: exI [of _ c])
  next
    case False
    then have step: "fat_alloc_loop c m fb = fat_alloc_loop (c + 1) m fb"
      using lt by (subst fat_alloc_loop.simps) (simp add: word_less_nat_alt)
    have c1: "unat (c + 1) = unat c + 1"
      using lt assms by (subst unat_add_lem [THEN iffD1]) auto
    have ge: "c \<le> d \<longleftrightarrow> d = c \<or> c + 1 \<le> d" for d
      using c1 by (auto simp: word_le_nat_alt word_unat_eq_iff)
    have "n = unat m - unat (c + 1)" using Suc.hyps(2) c1 by simp
    from Suc.hyps(1) [OF this] step False lt show ?thesis
      unfolding ge by (metis (no_types, lifting) ge order_less_irrefl)
  qed
qed

section \<open>Directory entries in memory\<close>

lemma store_bytes_at: "length xs < 2 ^ 32 \<Longrightarrow>
  store_bytes p xs m a = (if in_range a p (length xs) then xs ! unat (a - p) else m a)"
proof (induction xs arbitrary: p m)
  case Nil
  then show ?case by simp
next
  case (Cons x xs)
  show ?case
  proof (cases "a = p")
    case True
    have "\<not> in_range p (p + 1) (length xs)" using Cons.prems by (intro in_range_start) simp
    with True Cons show ?thesis by (simp add: in_range_def)
  next
    case False
    then have "unat (a - p) = Suc (unat (a - (p + 1)))"
      using unat_u32_less_Suc [of a p] by (simp add: unat_gt_0)
    with False Cons show ?thesis by (simp add: in_range_def)
  qed
qed

lemma dirent_bytes_length: "length (de_name e) = 11 \<Longrightarrow> length (dirent_bytes e) = 32"
  by (simp add: dirent_bytes_def le16_def le32_def)

lemma put_dirent_at:
  "length (de_name e) = 11 \<Longrightarrow> k < 32 \<Longrightarrow> put_dirent p e m (p + of_nat k) = dirent_bytes e ! k"
  by (simp add: put_dirent_def store_bytes_at dirent_bytes_length in_range_def)

lemma put_dirent_other: "length (de_name e) = 11 \<Longrightarrow> \<not> in_range a p 32 \<Longrightarrow> put_dirent p e m a = m a"
  by (simp add: put_dirent_def store_bytes_at dirent_bytes_length)

lemma le16_join: "(ucast (ucast v :: u8) :: u16) OR push_bit 8 (ucast (ucast (drop_bit 8 v) :: u8)) = v"
  by (rule bit_word_eqI) (auto simp: bit_simps less_diff_conv not_less)

lemma le32_join: "(ucast (ucast v :: u8) :: u32) OR push_bit 8 (ucast (ucast (drop_bit 8 v) :: u8))
  OR push_bit 16 (ucast (ucast (drop_bit 16 v) :: u8)) OR push_bit 24 (ucast (ucast (drop_bit 24 v) :: u8)) = v"
  using ld32_st32 [of 0 v "\<lambda>_. 0"] by (simp add: ld32_def st32_def)

lemma get_put_dirent:
  assumes n: "length (de_name e) = 11"
  shows "get_dirent (put_dirent p e m) p = e"
proof -
  let ?m = "put_dirent p e m"
  note at = put_dirent_at [OF n, of _ p m]
  have name: "bytes_at ?m p 11 = de_name e"
    by (rule nth_equalityI) (simp_all add: bytes_at_def at n dirent_bytes_def nth_append)
  have b: "?m (p + numeral k) = dirent_bytes e ! numeral k" if "numeral k < (32 :: nat)" for k
    using at [of "numeral k"] that by simp
  have l16: "ld16 ?m (p + numeral k) = v"
    if "numeral k + 1 < (32 :: nat)" "dirent_bytes e ! numeral k = ucast v" "dirent_bytes e ! (numeral k + 1) = ucast (drop_bit 8 v)" for k v
  proof -
    have "?m (p + numeral k + 1) = dirent_bytes e ! (numeral k + 1)" using at [of "numeral k + 1"] that(1) by (simp add: add.assoc)
    moreover have "numeral k < (32 :: nat)" using that(1) by linarith
    then have "?m (p + numeral k) = ucast v" using b [of k] that(2) by (simp only:)
    ultimately show ?thesis by (simp only: ld16_def that(3) le16_join)
  qed
  have l32: "ld32 ?m (p + 28) = file_size e"
    by (simp add: ld32_def b add.assoc le32_join n dirent_bytes_def nth_append le16_def le32_def)
  have f: "ld16 ?m (p + 14) = create_time e" "ld16 ?m (p + 16) = create_date e" "ld16 ?m (p + 18) = access_date e"
    "ld16 ?m (p + 20) = first_cluster_high e" "ld16 ?m (p + 22) = write_time e" "ld16 ?m (p + 24) = write_date e"
    "ld16 ?m (p + 26) = first_cluster_low e"
    by (rule l16; simp add: n dirent_bytes_def nth_append le16_def)+
  show ?thesis
    by (rule fat12_dirent.equality) (simp_all add: get_dirent_def name b f l32, simp_all add: n dirent_bytes_def nth_append)
qed

section \<open>8.3 names\<close>

text \<open>A name that the code can represent: what may stand before and after the dot.\<close>

definition name_ok :: "u8 list \<Rightarrow> u8 list \<Rightarrow> bool" where
  "name_ok base ext \<longleftrightarrow> base \<noteq> [] \<and> length base \<le> 8 \<and> length ext \<le> 3
     \<and> set (base @ ext) \<inter> {0, 32, 46, 47} = {}"

definition dotted :: "u8 list \<Rightarrow> u8 list \<Rightarrow> u8 list" where
  "dotted base ext = (if ext = [] then base else base @ [46] @ ext)"

lemma to_upper_eq: "to_upper c = d \<longleftrightarrow> c = d" if "d \<in> {0, 32, 46, 47}"
  using that by (auto simp: to_upper_def word_le_nat_alt word_unat_eq_iff unat_sub_if')

lemma takeWhile_all: "\<forall>x \<in> set xs. P x \<Longrightarrow> takeWhile P xs = xs"
  by (simp add: takeWhile_eq_all_conv)

lemma takeWhile_pad: "32 \<notin> set xs \<Longrightarrow> takeWhile (\<lambda>c. c \<noteq> 32) (pad n xs) = xs"
  by (cases "n - length xs") (auto simp: pad_def takeWhile_append)

lemma to_fat_name_dotted:
  assumes "name_ok base ext"
  shows "to_fat_name (dotted base ext) = pad 8 (map to_upper base) @ pad 3 (map to_upper ext)"
proof -
  have b: "\<forall>c \<in> set base. c \<noteq> 46" "length base \<le> 8" "length ext \<le> 3" using assms by (auto simp: name_ok_def)
  have "take 8 (takeWhile (\<lambda>c. c \<noteq> 46) (dotted base ext)) = base"
    using b by (simp add: dotted_def takeWhile_all takeWhile_append2)
  moreover have "drop (length base) (dotted base ext) = (if ext = [] then [] else 46 # ext)"
    by (simp add: dotted_def)
  ultimately show ?thesis
    using b by (simp add: to_fat_name_def Let_def)
qed

lemma pad_length: "length xs \<le> n \<Longrightarrow> length (pad n xs) = n"
  by (simp add: pad_def)

lemma from_to_fat_name:
  assumes "name_ok base ext"
  shows "from_fat_name (to_fat_name (dotted base ext)) = map to_upper (dotted base ext)"
proof -
  let ?b = "map to_upper base" and ?e = "map to_upper ext"
  have nosp: "32 \<notin> set ?b" "32 \<notin> set ?e" using assms to_upper_eq [of 32] by (auto simp: name_ok_def)
  have len: "length (pad 8 ?b) = 8" "length (pad 3 ?e) = 3" using assms by (simp_all add: pad_length name_ok_def)
  have up: "to_upper 46 = 46" using to_upper_eq [of 46 46] by simp
  have ext: "pad 3 ?e ! 0 \<noteq> 32 \<longleftrightarrow> ext \<noteq> []"
    using nosp(2) by (cases ext) (auto simp: pad_def)
  have "(pad 8 ?b @ pad 3 ?e) ! 8 = pad 3 ?e ! 0" by (simp add: nth_append len)
  then show ?thesis
    unfolding to_fat_name_dotted [OF assms] from_fat_name_def Let_def
    using ext takeWhile_pad [OF nosp(1), of 8] takeWhile_pad [OF nosp(2), of 3] by (simp add: len dotted_def up)
qed

text \<open>Every component of a path that is short enough is returned whole.\<close>

lemma split_next_component:
  assumes "c \<noteq> []" "length c \<le> 12" "47 \<notin> set c" "rest = [] \<or> hd rest = 47"
  shows "split_next (47 # c @ rest) = Some (c, rest)"
proof -
  have "hd c \<noteq> 47" using assms(1,3) by (metis hd_in_set)
  then have "dropWhile (\<lambda>x. x = 47) (47 # c @ rest) = c @ rest"
    using assms(1) by (cases c) auto
  moreover have "takeWhile (\<lambda>x. x \<noteq> 47) (c @ rest) = c"
    using assms(3,4) by (subst takeWhile_append2) (auto simp: takeWhile_eq_Nil_iff)
  ultimately show ?thesis
    using assms(1,2) by (simp add: split_next_def)
qed

function split_all :: "u8 list \<Rightarrow> u8 list list" where
  "split_all p = (case split_next p of None \<Rightarrow> [] | Some (c, q) \<Rightarrow> c # split_all q)"
  by pat_completeness auto

lemma split_next_shorter: "split_next p = Some (c, q) \<Longrightarrow> c \<noteq> [] \<and> length q < length p"
proof -
  assume a: "split_next p = Some (c, q)"
  let ?p = "dropWhile (\<lambda>c. c = 47) p"
  from a have ne: "?p \<noteq> []" and c: "c = take 12 (takeWhile (\<lambda>c. c \<noteq> 47) ?p)" and q: "q = drop (length c) ?p"
    by (auto simp: split_next_def Let_def split: if_splits)
  from ne have "hd ?p \<noteq> 47" using hd_dropWhile [of "\<lambda>c. c = 47" p] by blast
  with ne have "c \<noteq> []" by (cases ?p) (auto simp: c)
  moreover have "length ?p \<le> length p" by (rule length_dropWhile_le)
  moreover have "0 < length p" using ne by (cases p) auto
  moreover have "0 < length c" using \<open>c \<noteq> []\<close> by simp
  moreover have "length q = length ?p - length c" by (simp add: q)
  ultimately have "length q < length p" by linarith
  with \<open>c \<noteq> []\<close> show ?thesis by simp
qed

termination split_all
  by (relation "measure length") (auto simp: split_next_shorter)

declare split_all.simps [simp del]

lemma split_all_path:
  assumes "\<forall>c \<in> set cs. c \<noteq> [] \<and> length c \<le> 12 \<and> 47 \<notin> set c"
  shows "split_all (concat (map ((#) 47) cs)) = cs"
  using assms
proof (induction cs)
  case Nil
  then show ?case by (subst split_all.simps) (simp add: split_next_def)
next
  case (Cons c cs)
  have "concat (map ((#) 47) cs) = [] \<or> hd (concat (map ((#) 47) cs)) = 47" by (cases cs) auto
  with split_next_component [of c] Cons show ?case
    by (subst split_all.simps) auto
qed

section \<open>Properties\<close>

text \<open>
  C26. The packed table is an array of 12-bit entries: \<^verbatim>\<open>fat_set_entry\<close> changes what
  \<^verbatim>\<open>fat_next\<close> returns for its own cluster, to the low twelve bits of the value, and for no
  other, although neighbouring entries share a byte.
\<close>

theorem fat_entry_get_set:
  "fat_next (fat_set_entry c v fb) d = (if c = d then v AND 0x0fff else fat_next fb d)"
  by (rule fat_get_set)

text \<open>
  C21. \<^verbatim>\<open>fat_free_chain\<close> ends on every table, even on a cyclic chain, and only ever clears
  entries; on a proper chain it clears exactly the clusters of the chain.
\<close>

theorem fat_free_chain_frees:
  "(\<exists>s' C. fat_free_chain c s = Some s' \<and> fat_next (fat_buf s') = freed (fat_next (fat_buf s)) C)
   \<and> (chain (fat_next (fat_buf s)) c cs \<longrightarrow>
      (\<exists>s'. fat_free_chain c s = Some s' \<and> fat_next (fat_buf s') = freed (fat_next (fat_buf s)) (set cs)))"
proof -
  have "\<exists>s' C. fat_free_chain c s = Some s' \<and> fat_next (fat_buf s') = freed (fat_next (fat_buf s)) C"
    using fat_free_loop_total [of c "fat_buf s"] by (force simp: fat_free_chain_def)
  moreover have "\<exists>s'. fat_free_chain c s = Some s' \<and> fat_next (fat_buf s') = freed (fat_next (fat_buf s)) (set cs)"
    if "chain (fat_next (fat_buf s)) c cs"
    using fat_free_loop_chain [OF that] by (force simp: fat_free_chain_def)
  ultimately show ?thesis by blast
qed

definition bpb_example :: fat12_bpb where
  "bpb_example = \<lparr>jmp = [], oem = [], bytes_per_sector = 512, sectors_per_cluster = 1, reserved_sectors = 1,
     fat_count = 2, root_entry_count = 16, total_sectors_16 = 44, media_descriptor = 0, sectors_per_fat = 1,
     sectors_per_track = 63, head_count = 16, hidden_sectors = 0, total_sectors_32 = 0, drive_number = 0,
     bpb_reserved1 = 0, boot_signature = 0, volume_id = 0, volume_label = [], fs_type = []\<rparr>"

definition fat_example :: fat_state where
  "fat_example = \<lparr>bpb = bpb_example, fat_start = 1, root_start = 3, root_sectors = 1, data_start = 4,
     sector_buf = (\<lambda>_. 0), fat_buf = (\<lambda>_. 0), cluster_buf_ptr = 0xc0300000, cluster_buf = (\<lambda>_. 0),
     cluster_size = 512, disk = disk_example\<rparr>"

lemma fat_free_chain_frees_witness:
  "\<exists>s'. fat_free_chain 5 (fat_example\<lparr>fat_buf := fat_set_entry 5 9 (fat_set_entry 9 0xfff (\<lambda>_. 0))\<rparr>) = Some s'
    \<and> fat_next (fat_buf s') 9 = 0"
proof -
  let ?s = "fat_example\<lparr>fat_buf := fat_set_entry 5 9 (fat_set_entry 9 0xfff (\<lambda>_. 0))\<rparr>"
  have "chain (fat_next (fat_buf ?s)) 5 [5, 9]"
    by (simp add: in_data_def fat_get_set)
  with fat_free_chain_frees [of 5 ?s "[5, 9]"] show ?thesis by (auto simp: freed_def)
qed

text \<open>
  \<^verbatim>\<open>fat_alloc_cluster\<close> returns on every volume of fewer than \<open>2 ^ 16\<close> clusters with the
  lowest free cluster, marked as the end of a chain with every other entry unchanged, or with
  0 and nothing changed exactly when no cluster of the volume is free.
\<close>

theorem fat_alloc_cluster_first:
  assumes "fat_total_clusters s = Some m" "unat m \<le> 0xffff"
  shows "\<exists>c s'. fat_alloc_cluster s = Some (c, s') \<and>
    (if c = 0 then s' = s \<and> free_clusters (fat_next (fat_buf s)) (unat m) = {}
     else c \<in> free_clusters (fat_next (fat_buf s)) (unat m)
       \<and> (\<forall>d \<in> free_clusters (fat_next (fat_buf s)) (unat m). c \<le> d)
       \<and> s' = s\<lparr>fat_buf := fat_set_entry c FAT12_EOC_MARK (fat_buf s)\<rparr>
       \<and> fat_next (fat_buf s') = (fat_next (fat_buf s))(c := 0x0fff))"
proof -
  let ?f = "fat_next (fat_buf s)"
  from fat_alloc_loop_spec [OF assms(2), of 2 "fat_buf s"] obtain r fb' where
    a: "fat_alloc_loop 2 m (fat_buf s) = Some (r, fb')"
    and r: "(\<exists>d \<ge> 2. unat d < unat m \<and> ?f d = 0 \<and> (\<forall>e. 2 \<le> e \<and> e < d \<longrightarrow> ?f e \<noteq> 0)
        \<and> r = d \<and> fb' = fat_set_entry d FAT12_EOC_MARK (fat_buf s))
     \<or> (\<forall>d \<ge> 2. unat d < unat m \<longrightarrow> ?f d \<noteq> 0) \<and> r = 0 \<and> fb' = fat_buf s" by blast
  have al: "fat_alloc_cluster s = Some (r, s\<lparr>fat_buf := fb'\<rparr>)"
    using a by (simp add: fat_alloc_cluster_def assms(1))
  from r show ?thesis
  proof
    assume "\<exists>d \<ge> 2. unat d < unat m \<and> ?f d = 0 \<and> (\<forall>e. 2 \<le> e \<and> e < d \<longrightarrow> ?f e \<noteq> 0)
        \<and> r = d \<and> fb' = fat_set_entry d FAT12_EOC_MARK (fat_buf s)"
    then have d: "2 \<le> r" "unat r < unat m" "?f r = 0" "\<forall>e. 2 \<le> e \<and> e < r \<longrightarrow> ?f e \<noteq> 0"
      "fb' = fat_set_entry r FAT12_EOC_MARK (fat_buf s)" by auto
    then have "r \<noteq> 0" by auto
    with d al show ?thesis
      by (intro exI [of _ r] exI [of _ "s\<lparr>fat_buf := fb'\<rparr>"]) (auto simp: free_clusters_def fat_next_set not_le [symmetric])
  next
    assume "(\<forall>d \<ge> 2. unat d < unat m \<longrightarrow> ?f d \<noteq> 0) \<and> r = 0 \<and> fb' = fat_buf s"
    with al show ?thesis
      by (intro exI [of _ r] exI [of _ s]) (auto simp: free_clusters_def)
  qed
qed

lemma fat_alloc_cluster_first_witness:
  "\<exists>c s'. fat_alloc_cluster fat_example = Some (c, s') \<and> fat_next (fat_buf s') c = 0x0fff \<and> c \<noteq> 0"
proof -
  have m: "fat_total_clusters fat_example = Some 42"
    by (simp add: fat_total_clusters_def fat_example_def bpb_example_def)
  have "(2 :: u16) \<in> free_clusters (fat_next (fat_buf fat_example)) 42"
    by (simp add: free_clusters_def fat_example_def fat_next_def)
  with fat_alloc_cluster_first [OF m] show ?thesis
    by (auto split: if_splits)
qed

text \<open>
  Names and paths: a name of one to eight characters with an extension of at most three,
  none of them a dot, a blank or a slash, survives the conversion to the 11-byte form and back
  up to upper case; and every path of components of at most twelve characters is split into
  exactly these components.
\<close>

theorem fat_names_roundtrip:
  assumes "name_ok base ext" "\<forall>c \<in> set cs. c \<noteq> [] \<and> length c \<le> 12 \<and> 47 \<notin> set c"
  shows "from_fat_name (to_fat_name (dotted base ext)) = map to_upper (dotted base ext)
    \<and> length (to_fat_name (dotted base ext)) = 11
    \<and> split_all (concat (map ((#) 47) cs)) = cs"
  using from_to_fat_name [OF assms(1)] split_all_path [OF assms(2)] assms(1)
  by (simp add: to_fat_name_dotted pad_length name_ok_def)

lemma fat_names_roundtrip_witness:
  "from_fat_name (to_fat_name [105, 110, 105, 116, 46, 98, 105, 110]) = [73, 78, 73, 84, 46, 66, 73, 78]
   \<and> split_all [47, 98, 105, 110, 47, 108, 115] = [[98, 105, 110], [108, 115]]"
proof -
  have "name_ok [105, 110, 105, 116] [98, 105, 110]" by (simp add: name_ok_def)
  from fat_names_roundtrip [OF this, of "[[98, 105, 110], [108, 115]]"] show ?thesis
    by (simp add: dotted_def to_upper_def)
qed

text \<open>
  Directory entries are stored and read back exactly.
\<close>

theorem dirent_roundtrip:
  assumes "length (de_name e) = 11"
  shows "get_dirent (put_dirent p e m) p = e \<and> (\<forall>a. \<not> in_range a p 32 \<longrightarrow> put_dirent p e m a = m a)"
  using get_put_dirent [OF assms] put_dirent_other [OF assms] by blast

lemma dirent_roundtrip_witness:
  "get_dirent (put_dirent 64 (get_dirent (\<lambda>a. ucast a) 3) (\<lambda>_. 0)) 64 = get_dirent (\<lambda>a. ucast a) 3"
  using dirent_roundtrip [of "get_dirent (\<lambda>a. ucast a) 3" 64 "\<lambda>_. 0"] by (simp add: get_dirent_def bytes_at_def)

end
