(* ===== verification/Fat.thy ===== *)
theory Fat
  imports Fat_Table
begin

text \<open>
  The operations of the FAT12 file system \<^verbatim>\<open>src/src/fs/fat.c\<close>: directory lookup and path
  resolution, and every \<^verbatim>\<open>fat_*\<close> function of its interface. Status values are the C return
  values. \<open>None\<close> is a call that does not return: a cyclic chain of clusters that is followed
  for ever, or a division by zero on a volume with no sectors per cluster.

  A path is the list of its characters. A local variable that C leaves uninitialised and that a
  path of the code can read is a parameter (\<open>junk\<close>).
\<close>

section \<open>Sector access\<close>

definition read_sec :: "u32 \<Rightarrow> fat_state \<Rightarrow> nat \<times> fat_state" where
  "read_sec lba s = (case read_lba lba 1 (disk s) (sector_buf s) 0 of (st, b) \<Rightarrow> (st, s\<lparr>sector_buf := b\<rparr>))"

definition write_sec :: "u32 \<Rightarrow> fat_state \<Rightarrow> nat \<times> fat_state" where
  "write_sec lba s = (case write_lba lba 1 (sector_buf s) 0 (disk s) of (st, d) \<Rightarrow> (st, s\<lparr>disk := d\<rparr>))"

definition read_cluster :: "u32 \<Rightarrow> fat_state \<Rightarrow> nat \<times> fat_state" where
  "read_cluster lba s =
     (case read_lba lba (sectors_per_cluster (bpb s)) (disk s) (cluster_buf s) 0 of (st, b) \<Rightarrow> (st, s\<lparr>cluster_buf := b\<rparr>))"

definition write_cluster :: "u32 \<Rightarrow> fat_state \<Rightarrow> nat \<times> fat_state" where
  "write_cluster lba s =
     (case write_lba lba (sectors_per_cluster (bpb s)) (cluster_buf s) 0 (disk s) of (st, d) \<Rightarrow> (st, s\<lparr>disk := d\<rparr>))"

definition cluster_lba :: "u16 \<Rightarrow> fat_state \<Rightarrow> u32" where
  "cluster_lba cluster s = data_start s + (ucast cluster - 2) * ucast (sectors_per_cluster (bpb s))"

definition set_fat :: "u16 \<Rightarrow> u16 \<Rightarrow> fat_state \<Rightarrow> fat_state" where
  "set_fat c v s = s\<lparr>fat_buf := fat_set_entry c v (fat_buf s)\<rparr>"

section \<open>Directory lookup\<close>

record dir_slot =
  ds_sector :: u32
  ds_offset :: u32
  ds_exists :: bool

text \<open>
  The loop over the sixteen entries of a sector: the end-of-directory mark, the entry found, or
  neither, with the first free slot met so far.
\<close>

datatype scan = Scan_end dir_slot | Scan_found dir_slot | Scan_more "dir_slot option"

fun scan_entries :: "nat \<Rightarrow> u32 \<Rightarrow> u32 \<Rightarrow> u8 list \<Rightarrow> dir_slot option \<Rightarrow> bytes \<Rightarrow> scan" where
  "scan_entries 0 i lba target free m = Scan_more free"
| "scan_entries (Suc n) i lba target free m =
     (let p = i * DIRENT_SIZE;
          free_slot = (case free of None \<Rightarrow> \<lparr>ds_sector = lba, ds_offset = p, ds_exists = False\<rparr> | Some f \<Rightarrow> f)
      in if m p = 0 then Scan_end free_slot
         else if m p = 0xe5 then scan_entries n (i + 1) lba target (Some free_slot) m
         else if m (p + 11) = ATTR_LONG_NAME then scan_entries n (i + 1) lba target free m
         else if m (p + 11) AND ATTR_VOLUME_ID \<noteq> 0 then scan_entries n (i + 1) lba target free m
         else if bytes_at m p 11 = target
         then Scan_found \<lparr>ds_sector = lba, ds_offset = p, ds_exists = True\<rparr>
         else scan_entries n (i + 1) lba target free m)"

text \<open>Consecutive sectors; \<open>None\<close> in the result is a read error.\<close>

fun scan_sectors :: "nat \<Rightarrow> u32 \<Rightarrow> u8 list \<Rightarrow> dir_slot option \<Rightarrow> fat_state \<Rightarrow> scan option \<times> fat_state" where
  "scan_sectors 0 lba target free s = (Some (Scan_more free), s)"
| "scan_sectors (Suc n) lba target free s =
     (case read_sec lba s of (st, s1) \<Rightarrow>
        if st \<noteq> 0 then (None, s1)
        else (case scan_entries 16 0 lba target free (sector_buf s1) of
                Scan_more free' \<Rightarrow> scan_sectors n (lba + 1) target free' s1
              | r \<Rightarrow> (Some r, s1)))"

text \<open>A new cluster at the end of a directory that is full.\<close>

definition dir_extend :: "u16 \<Rightarrow> dir_slot \<Rightarrow> fat_state \<Rightarrow> (nat \<times> dir_slot \<times> fat_state) option" where
  "dir_extend cluster slot s =
     (case fat_alloc_cluster s of None \<Rightarrow> None
      | Some (newc, s1) \<Rightarrow>
          if newc = 0 then Some (3, slot, s1)
          else (let s2 = set_fat cluster newc s1;
                    s3 = s2\<lparr>cluster_buf := memset 0 0 (cluster_size s2) (cluster_buf s2)\<rparr>;
                    lba0 = cluster_lba newc s3
                in case write_cluster lba0 s3 of (st, s4) \<Rightarrow>
                     if st \<noteq> 0 then Some (1, slot, s4)
                     else (case fat_flush s4 of (st, s5) \<Rightarrow>
                             if st \<noteq> 0 then Some (1, slot, s5)
                             else Some (0, \<lparr>ds_sector = lba0, ds_offset = 0, ds_exists = False\<rparr>, s5))))"

text \<open>
  The end of a scan without a match: the free slot, or the error 2 with the slot of the caller
  unchanged.
\<close>

partial_function (option) dir_chain_lookup ::
    "u16 \<Rightarrow> u8 list \<Rightarrow> dir_slot option \<Rightarrow> bool \<Rightarrow> dir_slot \<Rightarrow> fat_state \<Rightarrow> (nat \<times> dir_slot \<times> fat_state) option" where
  "dir_chain_lookup cluster target free create slot s =
     (case scan_sectors (unat (sectors_per_cluster (bpb s))) (cluster_lba cluster s) target free s of (r, s1) \<Rightarrow>
        (case r of
           None \<Rightarrow> Some (1, slot, s1)
         | Some (Scan_end f) \<Rightarrow> Some (0, f, s1)
         | Some (Scan_found f) \<Rightarrow> Some (0, f, s1)
         | Some (Scan_more free') \<Rightarrow>
             (let nxt = fat_next (fat_buf s1) cluster in
              if 2 \<le> nxt \<and> nxt < FAT12_EOC then dir_chain_lookup nxt target free' create slot s1
              else (case free' of
                      Some f \<Rightarrow> Some (0, f, s1)
                    | None \<Rightarrow> if \<not> create then Some (2, slot, s1) else dir_extend cluster slot s1))))"

definition dir_lookup ::
    "u16 \<Rightarrow> u8 list \<Rightarrow> bool \<Rightarrow> dir_slot \<Rightarrow> fat_state \<Rightarrow> (nat \<times> dir_slot \<times> fat_state) option" where
  "dir_lookup dir_cluster target create slot s =
     (if dir_cluster = 0 then
        (case scan_sectors (unat (root_sectors s)) (root_start s) target None s of (r, s1) \<Rightarrow>
           (case r of
              None \<Rightarrow> Some (1, slot, s1)
            | Some (Scan_end f) \<Rightarrow> Some (0, f, s1)
            | Some (Scan_found f) \<Rightarrow> Some (0, f, s1)
            | Some (Scan_more (Some f)) \<Rightarrow> Some (0, f, s1)
            | Some (Scan_more None) \<Rightarrow> Some (2, slot, s1)))
      else dir_chain_lookup dir_cluster target None create slot s)"

text \<open>A slot that is never read: lookups that do not create return 0 with the slot set, or fail.\<close>

definition no_slot :: dir_slot where
  "no_slot = \<lparr>ds_sector = 0, ds_offset = 0, ds_exists = False\<rparr>"

definition entry_skipped :: "bytes \<Rightarrow> u32 \<Rightarrow> bool" where
  "entry_skipped m p \<longleftrightarrow> m p = 0 \<or> m p = 0xe5 \<or> m (p + 11) = ATTR_LONG_NAME"

definition entry_dots :: "bytes \<Rightarrow> u32 \<Rightarrow> bool" where
  "entry_dots m p \<longleftrightarrow> m p = 46 \<and> m (p + 1) = 32 \<or> m p = 46 \<and> m (p + 1) = 46 \<and> m (p + 2) = 32"

fun entries_empty :: "nat \<Rightarrow> u32 \<Rightarrow> bytes \<Rightarrow> bool" where
  "entries_empty 0 i m \<longleftrightarrow> True"
| "entries_empty (Suc n) i m \<longleftrightarrow>
     (if entry_skipped m (i * DIRENT_SIZE) \<or> entry_dots m (i * DIRENT_SIZE) then entries_empty n (i + 1) m else False)"

fun sectors_empty :: "nat \<Rightarrow> u32 \<Rightarrow> fat_state \<Rightarrow> int \<times> fat_state" where
  "sectors_empty 0 lba s = (1, s)"
| "sectors_empty (Suc n) lba s =
     (case read_sec lba s of (st, s1) \<Rightarrow>
        if st \<noteq> 0 then (- 1, s1)
        else if \<not> entries_empty 16 0 (sector_buf s1) then (0, s1)
        else sectors_empty n (lba + 1) s1)"

partial_function (option) dir_is_empty :: "u16 \<Rightarrow> fat_state \<Rightarrow> (int \<times> fat_state) option" where
  "dir_is_empty cluster s =
     (if 2 \<le> cluster \<and> cluster < FAT12_EOC then
        (case sectors_empty (unat (sectors_per_cluster (bpb s))) (cluster_lba cluster s) s of (r, s1) \<Rightarrow>
           if r \<noteq> 1 then Some (r, s1) else dir_is_empty (fat_next (fat_buf s1) cluster) s1)
      else Some (1, s))"

section \<open>Paths\<close>

text \<open>
  The loop of \<^verbatim>\<open>resolve_path\<close>: status, directory, and the 11-byte name of the last component,
  which there is none of for the root. \<open>pending\<close> is the component read before this one.
\<close>

partial_function (option) resolve_loop ::
    "u16 \<Rightarrow> u8 list \<Rightarrow> u8 list option \<Rightarrow> fat_state \<Rightarrow> (nat \<times> u16 \<times> u8 list option \<times> fat_state) option" where
  "resolve_loop cur p pending s =
     (case split_next p of
        None \<Rightarrow> Some (0, (case pending of None \<Rightarrow> 0 | Some c \<Rightarrow> cur), map_option to_fat_name pending, s)
      | Some (name, p') \<Rightarrow>
          (case pending of
             None \<Rightarrow> resolve_loop cur p' (Some name) s
           | Some c \<Rightarrow>
               (case dir_lookup cur (to_fat_name c) False no_slot s of
                  None \<Rightarrow> None
                | Some (r, slot, s1) \<Rightarrow>
                    if r = 1 then Some (1, cur, None, s1)
                    else if r = 2 \<or> \<not> ds_exists slot then Some (2, cur, None, s1)
                    else (case read_sec (ds_sector slot) s1 of (st, s2) \<Rightarrow>
                            if st \<noteq> 0 then Some (1, cur, None, s2)
                            else if sector_buf s2 (ds_offset slot + 11) AND ATTR_DIRECTORY = 0 then Some (3, cur, None, s2)
                            else resolve_loop (ld16 (sector_buf s2) (ds_offset slot + 26)) p' (Some name) s2))))"

definition resolve_path :: "u8 list \<Rightarrow> fat_state \<Rightarrow> (nat \<times> u16 \<times> u8 list option \<times> fat_state) option" where
  "resolve_path path s = resolve_loop 0 path None s"

section \<open>The interface\<close>

record fat_stat_t =
  fs_name :: "u8 list"
  fs_size :: u32
  fs_first_cluster :: u16
  fs_attr :: u8

type_synonym fat_dirent_info = fat_stat_t

definition entry_info :: "bytes \<Rightarrow> u32 \<Rightarrow> fat_stat_t" where
  "entry_info m p = \<lparr>fs_name = from_fat_name (bytes_at m p 11), fs_size = ld32 m (p + 28),
     fs_first_cluster = ld16 m (p + 26), fs_attr = m (p + 11)\<rparr>"

definition fat_init :: "fat_state \<Rightarrow> heap_state \<Rightarrow> (nat \<times> fat_state \<times> heap_state) option" where
  "fat_init s h =
     (case read_sec 0 s of (st, s1) \<Rightarrow>
        if st \<noteq> 0 then Some (1, s1, h)
        else
          (let b = get_bpb (sector_buf s1);
               s2 = s1\<lparr>bpb := b\<rparr>
           in if bytes_per_sector b \<noteq> 512 then Some (2, s2, h)
              else
                (let fs = ucast (reserved_sectors b);
                     rs = fs + ucast (fat_count b) * ucast (sectors_per_fat b);
                     rn = (ucast (root_entry_count b) * DIRENT_SIZE + SECTOR_SIZE - 1) div SECTOR_SIZE;
                     s3 = s2\<lparr>fat_start := fs, root_start := rs, root_sectors := rn, data_start := rs + rn\<rparr>
                 in if ucast (sectors_per_fat b) * SECTOR_SIZE > 4608 then Some (3, s3, h)
                    else
                      (let cs = ucast (sectors_per_cluster b) * SECTOR_SIZE in
                       case kmalloc cs h of None \<Rightarrow> None
                       | Some (ptr, h1) \<Rightarrow>
                           (let s4 = s3\<lparr>cluster_size := cs, cluster_buf_ptr := ptr\<rparr>
                            in if ptr = 0 then Some (5, s4, h1)
                               else (case read_lba fs (ucast (sectors_per_fat b)) (disk s4) (fat_buf s4) 0 of
                                       (r, fb) \<Rightarrow> Some (if r \<noteq> 0 then 4 else 0, s4\<lparr>fat_buf := fb\<rparr>, h1)))))))"

text \<open>The loop of \<^verbatim>\<open>fat_read_file\<close> stores whole clusters into the buffer of the caller.\<close>

partial_function (option) read_chain :: "u16 \<Rightarrow> bytes \<Rightarrow> u32 \<Rightarrow> fat_state \<Rightarrow> (nat \<times> bytes) option" where
  "read_chain cluster dest out s =
     (if cluster < FAT12_EOC \<and> 2 \<le> cluster then
        (case read_lba (cluster_lba cluster s) (sectors_per_cluster (bpb s)) (disk s) dest out of (st, dest') \<Rightarrow>
           if st \<noteq> 0 then Some (2, dest')
           else read_chain (fat_next (fat_buf s) cluster) dest'
                  (out + ucast (sectors_per_cluster (bpb s)) * SECTOR_SIZE) s)
      else Some (0, dest))"

text \<open>
  The steps that the operations on a path begin with: resolving it, and looking its last
  component up (\<open>create\<close> is the argument of the lookup).
\<close>

datatype location = Path_error | Path_root | Path_slot nat dir_slot u16 "u8 list"

definition locate :: "bool \<Rightarrow> dir_slot \<Rightarrow> u8 list \<Rightarrow> fat_state \<Rightarrow> (location \<times> fat_state) option" where
  "locate create junk path s =
     (case resolve_path path s of None \<Rightarrow> None
      | Some (st, dir, name, s1) \<Rightarrow>
          if st \<noteq> 0 then Some (Path_error, s1)
          else (case name of None \<Rightarrow> Some (Path_root, s1)
                | Some target \<Rightarrow>
                    (case dir_lookup dir target create junk s1 of None \<Rightarrow> None
                     | Some (r, slot, s2) \<Rightarrow> Some (Path_slot r slot dir target, s2))))"

text \<open>Result: status, size written to \<^verbatim>\<open>size_out\<close> if any, and the buffer at \<^verbatim>\<open>dest\<close>.\<close>

definition fat_read_file :: "u8 list \<Rightarrow> bytes \<Rightarrow> fat_state \<Rightarrow> (nat \<times> u32 option \<times> bytes \<times> fat_state) option" where
  "fat_read_file path dest s =
     (case locate False no_slot path s of
        None \<Rightarrow> None
      | Some (Path_error, s1) \<Rightarrow> Some (1, None, dest, s1)
      | Some (Path_root, s1) \<Rightarrow> Some (3, None, dest, s1)
      | Some (Path_slot r slot dir target, s1) \<Rightarrow>
          if r \<noteq> 0 \<or> \<not> ds_exists slot then Some (1, None, dest, s1)
          else (case read_sec (ds_sector slot) s1 of (st, s2) \<Rightarrow>
                  if st \<noteq> 0 then Some (1, None, dest, s2)
                  else (let ent = get_dirent (sector_buf s2) (ds_offset slot) in
                        case read_chain (first_cluster_low ent) dest 0 s2 of None \<Rightarrow> None
                        | Some (st, dest') \<Rightarrow> Some (st, Some (file_size ent), dest', s2))))"

text \<open>The loop of \<^verbatim>\<open>fat_write_file\<close>: status, first and last cluster of the new chain.\<close>

partial_function (option) write_clusters ::
    "u16 \<Rightarrow> u16 \<Rightarrow> bytes \<Rightarrow> u32 \<Rightarrow> u32 \<Rightarrow> fat_state \<Rightarrow> (nat \<times> u16 \<times> u16 \<times> fat_state) option" where
  "write_clusters first_c prev data src remaining s =
     (if remaining > 0 then
        (case fat_alloc_cluster s of None \<Rightarrow> None
         | Some (c, s1) \<Rightarrow>
             if c = 0 then
               (case (if first_c \<noteq> 0 then fat_free_chain first_c s1 else Some s1) of
                  None \<Rightarrow> None | Some s2 \<Rightarrow> Some (3, first_c, prev, s2))
             else
               (let s2 = (if prev \<noteq> 0 then set_fat prev c s1 else s1);
                    first' = (if prev \<noteq> 0 then first_c else c);
                    chunk = (if remaining < cluster_size s2 then remaining else cluster_size s2);
                    s3 = s2\<lparr>cluster_buf := copy_bytes data src (unat chunk) (memset 0 0 (cluster_size s2) (cluster_buf s2)) 0\<rparr>
                in case write_cluster (cluster_lba c s3) s3 of (st, s4) \<Rightarrow>
                     if st \<noteq> 0 then Some (1, first', c, s4)
                     else write_clusters first' c data (src + chunk) (remaining - chunk) s4))
      else Some (0, first_c, prev, s))"

text \<open>The directory entry that \<^verbatim>\<open>fat_write_file\<close> stores, in place in \<^verbatim>\<open>sector_buf\<close>.\<close>

definition fill_entry :: "u32 \<Rightarrow> u8 list \<Rightarrow> u8 \<Rightarrow> u16 \<Rightarrow> u32 \<Rightarrow> bytes \<Rightarrow> bytes" where
  "fill_entry p target attr first_c sz b =
     (let b1 = memset p 0 32 b;
          b2 = store_bytes p target b1;
          b3 = b2(p + 11 := attr);
          b4 = st16 (p + 26) first_c b3
      in st32 (p + 28) sz b4)"

text \<open>The second half of \<^verbatim>\<open>fat_write_file\<close>: table and directory entry after the data.\<close>

definition finish_write :: "dir_slot \<Rightarrow> u8 list \<Rightarrow> u16 \<Rightarrow> u16 \<Rightarrow> u32 \<Rightarrow> fat_state \<Rightarrow> nat \<times> fat_state" where
  "finish_write slot target first_c prev sz s =
     (let s1 = (if prev \<noteq> 0 then set_fat prev FAT12_EOC_MARK s else s) in
      case fat_flush s1 of (st, s2) \<Rightarrow>
        if st \<noteq> 0 then (1, s2)
        else (case read_sec (ds_sector slot) s2 of (st, s3) \<Rightarrow>
                if st \<noteq> 0 then (1, s3)
                else write_sec (ds_sector slot)
                       (s3\<lparr>sector_buf := fill_entry (ds_offset slot) target 0x20 first_c sz (sector_buf s3)\<rparr>)))"

text \<open>\<open>junk\<close> is the uninitialised \<^verbatim>\<open>slot\<close>, which is read when the lookup returns 3.\<close>

definition fat_write_file :: "dir_slot \<Rightarrow> u8 list \<Rightarrow> bytes \<Rightarrow> u32 \<Rightarrow> fat_state \<Rightarrow> (nat \<times> fat_state) option" where
  "fat_write_file junk path data sz s =
     (case locate True junk path s of
        None \<Rightarrow> None
      | Some (Path_error, s1) \<Rightarrow> Some (1, s1)
      | Some (Path_root, s1) \<Rightarrow> Some (4, s1)
      | Some (Path_slot r slot dir target, s1) \<Rightarrow>
          if r = 1 then Some (1, s1)
          else if r = 2 then Some (2, s1)
          else
            (case (if ds_exists slot then read_sec (ds_sector slot) s1 else (0, s1)) of (st, s2) \<Rightarrow>
               if st \<noteq> 0 then Some (1, s2)
               else
                 (let old = ld16 (sector_buf s2) (ds_offset slot + 26) in
                  case (if ds_exists slot \<and> 2 \<le> old then fat_free_chain old s2 else Some s2) of
                    None \<Rightarrow> None
                  | Some s3 \<Rightarrow>
                      (case write_clusters 0 0 data 0 sz s3 of None \<Rightarrow> None
                       | Some (st, first_c, prev, s4) \<Rightarrow>
                           if st \<noteq> 0 then Some (st, s4)
                           else Some (finish_write slot target first_c prev sz s4)))))"

text \<open>
  The two loops of \<^verbatim>\<open>fat_write_at\<close>: going to the first cluster of the range, and writing
  cluster by cluster. Both take the next cluster of the chain, or extend the chain.
\<close>

definition next_or_alloc :: "u16 \<Rightarrow> fat_state \<Rightarrow> (u16 \<times> fat_state) option" where
  "next_or_alloc cluster s =
     (let nxt = fat_next (fat_buf s) cluster in
      if nxt = FAT12_FREE \<or> FAT12_EOC \<le> nxt then
        (case fat_alloc_cluster s of None \<Rightarrow> None
         | Some (n, s1) \<Rightarrow> Some (n, if n = 0 then s1 else set_fat cluster n s1))
      else Some (nxt, s))"

fun seek_chain :: "nat \<Rightarrow> u16 \<Rightarrow> fat_state \<Rightarrow> (nat \<times> u16 \<times> fat_state) option" where
  "seek_chain 0 cluster s = Some (0, cluster, s)"
| "seek_chain (Suc n) cluster s =
     (case next_or_alloc cluster s of None \<Rightarrow> None
      | Some (nxt, s1) \<Rightarrow> if nxt = 0 then Some (3, cluster, s1) else seek_chain n nxt s1)"

text \<open>The first argument is the number of clusters of the range still to write.\<close>

fun write_span :: "nat \<Rightarrow> u16 \<Rightarrow> bytes \<Rightarrow> u32 \<Rightarrow> u32 \<Rightarrow> u32 \<Rightarrow> fat_state \<Rightarrow> (nat \<times> fat_state) option" where
  "write_span 0 cluster data src bytes_left cur_off s = Some (0, s)"
| "write_span (Suc n) cluster data src bytes_left cur_off s =
     (let lba = cluster_lba cluster s;
          space = cluster_size s - cur_off;
          chunk = (if bytes_left < space then bytes_left else space);
          partial = (cur_off \<noteq> 0 \<or> chunk < cluster_size s)
      in case (if partial then read_cluster lba s else (0, s)) of (st, s1) \<Rightarrow>
           if st \<noteq> 0 then Some (1, s1)
           else
             (let s2 = s1\<lparr>cluster_buf := copy_bytes data src (unat chunk) (cluster_buf s1) cur_off\<rparr> in
              case write_cluster lba s2 of (st, s3) \<Rightarrow>
                if st \<noteq> 0 then Some (1, s3)
                else if n = 0 then Some (0, s3)
                else (case next_or_alloc cluster s3 of None \<Rightarrow> None
                      | Some (nxt, s4) \<Rightarrow>
                          if nxt = 0 then Some (3, s4)
                          else write_span n nxt data (src + chunk) (bytes_left - chunk) 0 s4)))"

definition new_entry :: "u8 list \<Rightarrow> fat12_dirent" where
  "new_entry target = \<lparr>de_name = target, de_attr = 0x20, de_reserved = 0, create_time_tenths = 0,
     create_time = 0, create_date = 0, access_date = 0, first_cluster_high = 0, write_time = 0,
     write_date = 0, first_cluster_low = 0, file_size = 0\<rparr>"

text \<open>The second half of \<^verbatim>\<open>fat_write_at\<close>, for the entry \<open>ent\<close> at \<open>slot\<close>.\<close>

definition write_range :: "dir_slot \<Rightarrow> fat12_dirent \<Rightarrow> u32 \<Rightarrow> bytes \<Rightarrow> u32 \<Rightarrow> fat_state \<Rightarrow> (nat \<times> fat_state) option" where
  "write_range slot ent offset data len s =
     (let start_idx = offset div cluster_size s;
          end_idx = (offset + len - 1) div cluster_size s
      in case (if first_cluster_low ent < 2 then fat_alloc_cluster s else Some (first_cluster_low ent, s)) of
           None \<Rightarrow> None
         | Some (first_c, s1) \<Rightarrow>
             if first_c = 0 then Some (3, s1)
             else
               (case seek_chain (unat start_idx) first_c s1 of None \<Rightarrow> None
                | Some (st, cluster, s2) \<Rightarrow>
                    if st \<noteq> 0 then Some (st, s2)
                    else
                      (case write_span (unat end_idx + 1 - unat start_idx) cluster data 0 len (offset mod cluster_size s2) s2 of
                         None \<Rightarrow> None
                       | Some (st, s3) \<Rightarrow>
                           if st \<noteq> 0 then Some (st, s3)
                           else
                             (let new_size0 = offset + len;
                                  new_size = (if new_size0 < file_size ent then file_size ent else new_size0);
                                  ent' = ent\<lparr>first_cluster_low := first_c, file_size := new_size\<rparr>
                              in case fat_flush s3 of (st, s4) \<Rightarrow>
                                   if st \<noteq> 0 then Some (1, s4)
                                   else (case read_sec (ds_sector slot) s4 of (st, s5) \<Rightarrow>
                                           if st \<noteq> 0 then Some (1, s5)
                                           else Some (write_sec (ds_sector slot)
                                                  (s5\<lparr>sector_buf := put_dirent (ds_offset slot) ent' (sector_buf s5)\<rparr>)))))))"

definition fat_write_at :: "dir_slot \<Rightarrow> u8 list \<Rightarrow> u32 \<Rightarrow> bytes \<Rightarrow> u32 \<Rightarrow> fat_state \<Rightarrow> (nat \<times> fat_state) option" where
  "fat_write_at junk path offset data len s =
     (if len = 0 then Some (0, s)
      else
        (case locate True junk path s of
           None \<Rightarrow> None
         | Some (Path_error, s1) \<Rightarrow> Some (1, s1)
         | Some (Path_root, s1) \<Rightarrow> Some (4, s1)
         | Some (Path_slot r slot dir target, s1) \<Rightarrow>
             if r = 1 then Some (1, s1)
             else if r = 2 then Some (2, s1)
             else
               (case (if ds_exists slot then read_sec (ds_sector slot) s1 else (0, s1)) of (st, s2) \<Rightarrow>
                  if st \<noteq> 0 then Some (1, s2)
                  else
                    (let ent = (if ds_exists slot then get_dirent (sector_buf s2) (ds_offset slot) else new_entry target)
                     in if cluster_size s2 = 0 then None
                        else write_range slot ent offset data len s2))))"

text \<open>
  What the remaining operations do with an entry that must exist: the status is 2 when there is
  none.
\<close>

definition existing_entry :: "u8 list \<Rightarrow> fat_state \<Rightarrow> ((nat + dir_slot option) \<times> fat_state) option" where
  "existing_entry path s =
     (case locate False no_slot path s of
        None \<Rightarrow> None
      | Some (Path_error, s1) \<Rightarrow> Some (Inl 1, s1)
      | Some (Path_root, s1) \<Rightarrow> Some (Inr None, s1)
      | Some (Path_slot r slot dir target, s1) \<Rightarrow>
          if r = 1 then Some (Inl 1, s1)
          else if r = 2 \<or> r = 3 \<or> \<not> ds_exists slot then Some (Inl 2, s1)
          else (case read_sec (ds_sector slot) s1 of (st, s2) \<Rightarrow>
                  if st \<noteq> 0 then Some (Inl 1, s2) else Some (Inr (Some slot), s2)))"

definition fat_delete_file :: "u8 list \<Rightarrow> fat_state \<Rightarrow> (nat \<times> fat_state) option" where
  "fat_delete_file path s =
     (case existing_entry path s of
        None \<Rightarrow> None
      | Some (Inl st, s1) \<Rightarrow> Some (st, s1)
      | Some (Inr None, s1) \<Rightarrow> Some (4, s1)
      | Some (Inr (Some slot), s1) \<Rightarrow>
          (let ent = get_dirent (sector_buf s1) (ds_offset slot) in
           if de_attr ent AND ATTR_DIRECTORY \<noteq> 0 then Some (3, s1)
           else
             (case (if 2 \<le> first_cluster_low ent then fat_free_chain (first_cluster_low ent) s1 else Some s1) of
                None \<Rightarrow> None
              | Some s2 \<Rightarrow>
                  (case write_sec (ds_sector slot) (s2\<lparr>sector_buf := (sector_buf s2)(ds_offset slot := 0xe5)\<rparr>) of (st, s3) \<Rightarrow>
                     if st \<noteq> 0 then Some (1, s3) else Some (fat_flush s3)))))"

text \<open>Every failure of \<^verbatim>\<open>fat_stat\<close> is status 1, and then nothing is stored.\<close>

definition fat_stat :: "u8 list \<Rightarrow> fat_state \<Rightarrow> (nat \<times> fat_stat_t option \<times> fat_state) option" where
  "fat_stat path s =
     (case existing_entry path s of
        None \<Rightarrow> None
      | Some (Inl st, s1) \<Rightarrow> Some (1, None, s1)
      | Some (Inr None, s1) \<Rightarrow>
          Some (0, Some \<lparr>fs_name = [47], fs_size = 0, fs_first_cluster = 0, fs_attr = ATTR_DIRECTORY\<rparr>, s1)
      | Some (Inr (Some slot), s1) \<Rightarrow> Some (0, Some (entry_info (sector_buf s1) (ds_offset slot)), s1))"

text \<open>The two entries \<^verbatim>\<open>.\<close> and \<^verbatim>\<open>..\<close> of a new directory.\<close>

definition dot_entries :: "u16 \<Rightarrow> u16 \<Rightarrow> bytes \<Rightarrow> bytes" where
  "dot_entries newc parent b =
     (let b1 = store_bytes 0 (46 # replicate 10 32) b;
          b2 = st16 26 newc (b1(11 := ATTR_DIRECTORY));
          b3 = store_bytes 32 (46 # 46 # replicate 9 32) b2
      in st16 58 parent (b3(43 := ATTR_DIRECTORY)))"

definition fat_mkdir :: "u8 list \<Rightarrow> fat_state \<Rightarrow> (nat \<times> fat_state) option" where
  "fat_mkdir path s =
     (case locate True no_slot path s of
        None \<Rightarrow> None
      | Some (Path_error, s1) \<Rightarrow> Some (1, s1)
      | Some (Path_root, s1) \<Rightarrow> Some (5, s1)
      | Some (Path_slot r slot parent target, s1) \<Rightarrow>
          if r = 1 then Some (1, s1)
          else if r = 2 \<or> r = 3 then Some (2, s1)
          else if ds_exists slot then Some (3, s1)
          else
            (case fat_alloc_cluster s1 of None \<Rightarrow> None
             | Some (newc, s2) \<Rightarrow>
                 if newc = 0 then Some (4, s2)
                 else
                   (let s3 = set_fat newc FAT12_EOC_MARK s2;
                        s4 = s3\<lparr>cluster_buf := dot_entries newc parent (memset 0 0 (cluster_size s3) (cluster_buf s3))\<rparr>
                    in case write_cluster (cluster_lba newc s4) s4 of (st, s5) \<Rightarrow>
                         if st \<noteq> 0 then Some (1, s5)
                         else (case fat_flush s5 of (st, s6) \<Rightarrow>
                                 if st \<noteq> 0 then Some (1, s6)
                                 else (case read_sec (ds_sector slot) s6 of (st, s7) \<Rightarrow>
                                         if st \<noteq> 0 then Some (1, s7)
                                         else Some (write_sec (ds_sector slot) (s7\<lparr>sector_buf :=
                                                fill_entry (ds_offset slot) target ATTR_DIRECTORY newc 0 (sector_buf s7)\<rparr>)))))))"

definition fat_rmdir :: "u8 list \<Rightarrow> fat_state \<Rightarrow> (nat \<times> fat_state) option" where
  "fat_rmdir path s =
     (case existing_entry path s of
        None \<Rightarrow> None
      | Some (Inl st, s1) \<Rightarrow> Some (st, s1)
      | Some (Inr None, s1) \<Rightarrow> Some (6, s1)
      | Some (Inr (Some slot), s1) \<Rightarrow>
          (let ent = get_dirent (sector_buf s1) (ds_offset slot);
               target = first_cluster_low ent
           in if de_attr ent AND ATTR_DIRECTORY = 0 then Some (3, s1)
              else if target < 2 then Some (4, s1)
              else (case dir_is_empty target s1 of None \<Rightarrow> None
                    | Some (e, s2) \<Rightarrow>
                        if e < 0 then Some (1, s2)
                        else if e = 0 then Some (5, s2)
                        else (case fat_free_chain target s2 of None \<Rightarrow> None
                              | Some s3 \<Rightarrow>
                                  (case fat_flush s3 of (st, s4) \<Rightarrow>
                                     if st \<noteq> 0 then Some (1, s4)
                                     else (case read_sec (ds_sector slot) s4 of (st, s5) \<Rightarrow>
                                             if st \<noteq> 0 then Some (1, s5)
                                             else Some (write_sec (ds_sector slot)
                                                    (s5\<lparr>sector_buf := (sector_buf s5)(ds_offset slot := 0xe5)\<rparr>))))))))"

definition fat_opendir :: "u8 list \<Rightarrow> fat_state \<Rightarrow> (nat \<times> u16 option \<times> fat_state) option" where
  "fat_opendir path s =
     (if dropWhile (\<lambda>c. c = 47) path = [] then Some (0, Some 0, s)
      else
        (case existing_entry path s of
           None \<Rightarrow> None
         | Some (Inl st, s1) \<Rightarrow> Some (st, None, s1)
         | Some (Inr None, s1) \<Rightarrow> Some (0, Some 0, s1)
         | Some (Inr (Some slot), s1) \<Rightarrow>
             (let ent = get_dirent (sector_buf s1) (ds_offset slot) in
              if de_attr ent AND ATTR_DIRECTORY = 0 then Some (3, None, s1)
              else Some (0, Some (first_cluster_low ent), s1))))"

text \<open>
  \<^verbatim>\<open>fat_readdir\<close>: the entry number \<open>index\<close> of a directory. \<open>Inl\<close> is the offset of the entry
  in the sector, \<open>Inr\<close> the count of the entries seen.
\<close>

fun readdir_entries :: "bool \<Rightarrow> nat \<Rightarrow> u32 \<Rightarrow> u32 \<Rightarrow> u32 \<Rightarrow> bytes \<Rightarrow> u32 + u32" where
  "readdir_entries sub 0 i seen index m = Inr seen"
| "readdir_entries sub (Suc n) i seen index m =
     (let p = i * DIRENT_SIZE in
      if entry_skipped m p \<or> m (p + 11) AND ATTR_VOLUME_ID \<noteq> 0 \<or> sub \<and> entry_dots m p
      then readdir_entries sub n (i + 1) seen index m
      else if seen = index then Inl p
      else readdir_entries sub n (i + 1) (seen + 1) index m)"

text \<open>Status 0 with the entry, 1 for a read error, or 2 with the count so far.\<close>

fun readdir_sectors :: "bool \<Rightarrow> nat \<Rightarrow> u32 \<Rightarrow> u32 \<Rightarrow> u32 \<Rightarrow> fat_state \<Rightarrow> nat \<times> fat_stat_t option \<times> u32 \<times> fat_state" where
  "readdir_sectors sub 0 lba seen index s = (2, None, seen, s)"
| "readdir_sectors sub (Suc n) lba seen index s =
     (case read_sec lba s of (st, s1) \<Rightarrow>
        if st \<noteq> 0 then (1, None, seen, s1)
        else (case readdir_entries sub 16 0 seen index (sector_buf s1) of
                Inl p \<Rightarrow> (0, Some (entry_info (sector_buf s1) p), seen, s1)
              | Inr seen' \<Rightarrow> readdir_sectors sub n (lba + 1) seen' index s1))"

partial_function (option) readdir_chain :: "u16 \<Rightarrow> u32 \<Rightarrow> u32 \<Rightarrow> fat_state \<Rightarrow> (nat \<times> fat_stat_t option \<times> fat_state) option" where
  "readdir_chain cluster seen index s =
     (if 2 \<le> cluster \<and> cluster < FAT12_EOC then
        (case readdir_sectors True (unat (sectors_per_cluster (bpb s))) (cluster_lba cluster s) seen index s of
           (st, e, seen', s1) \<Rightarrow>
             if st \<noteq> 2 then Some (st, e, s1)
             else readdir_chain (fat_next (fat_buf s1) cluster) seen' index s1)
      else Some (2, None, s))"

definition fat_readdir :: "u16 \<Rightarrow> u32 \<Rightarrow> fat_state \<Rightarrow> (nat \<times> fat_stat_t option \<times> fat_state) option" where
  "fat_readdir dir_cluster index s =
     (if dir_cluster = 0 then
        (case readdir_sectors False (unat (root_sectors s)) (root_start s) 0 index s of (st, e, seen, s1) \<Rightarrow> Some (st, e, s1))
      else readdir_chain dir_cluster 0 index s)"

definition fat_read_alloc_size :: "u32 \<Rightarrow> fat_state \<Rightarrow> u32" where
  "fat_read_alloc_size sz s =
     (let cs = ucast (sectors_per_cluster (bpb s)) * SECTOR_SIZE
      in (sz + cs - 1) AND NOT (cs - 1))"

end
