(* ===== verification/Fat_Volume.thy ===== *)
theory Fat_Volume
  imports Fat
begin

text \<open>
  The file system on a mounted volume: which bytes of the disk each operation of \<^verbatim>\<open>fat.c\<close>
  touches, the contents of chains of clusters, and directories as lists of entries. From these
  follows that a file written is read back, and that other files keep their contents.
\<close>

section \<open>Mounted volumes\<close>

definition spc :: "fat_state \<Rightarrow> nat" where
  "spc s = unat (sectors_per_cluster (bpb s))"

text \<open>
  The geometry that the operations rely on: a healthy drive, the areas of the volume in order
  and inside what the driver can address, and cluster numbers below the reserved ones.
\<close>

definition mounted :: "fat_state \<Rightarrow> u32 \<Rightarrow> bool" where
  "mounted s m \<longleftrightarrow> healthy (disk s) \<and> 0 < spc s \<and> cluster_size s = of_nat (512 * spc s)
     \<and> fat_total_clusters s = Some m \<and> 2 \<le> unat m \<and> unat m \<le> 0xff7
     \<and> unat (fat_start s) + unat (fat_count (bpb s)) * unat (sectors_per_fat (bpb s)) \<le> unat (root_start s)
     \<and> unat (sectors_per_fat (bpb s)) \<le> 9
     \<and> unat (root_start s) + unat (root_sectors s) \<le> unat (data_start s)
     \<and> unat (data_start s) + (unat m - 2) * spc s \<le> lba_limit"

text \<open>The first byte of a cluster on the disk.\<close>

definition cluster_base :: "fat_state \<Rightarrow> u16 \<Rightarrow> nat" where
  "cluster_base s c = 512 * (unat (data_start s) + (unat c - 2) * spc s)"

definition volume_cluster :: "u32 \<Rightarrow> u16 \<Rightarrow> bool" where
  "volume_cluster m c \<longleftrightarrow> 2 \<le> c \<and> unat c < unat m"

text \<open>What stays the same when only buffers, table and disk change.\<close>

definition same_volume :: "fat_state \<Rightarrow> fat_state \<Rightarrow> bool" where
  "same_volume s s' \<longleftrightarrow> bpb s' = bpb s \<and> fat_start s' = fat_start s \<and> root_start s' = root_start s
     \<and> root_sectors s' = root_sectors s \<and> data_start s' = data_start s \<and> cluster_size s' = cluster_size s"

lemma same_volume_refl [simp]: "same_volume s s"
  by (simp add: same_volume_def)

lemma same_volume_trans: "same_volume s t \<Longrightarrow> same_volume t u \<Longrightarrow> same_volume s u"
  by (simp add: same_volume_def)

lemma same_volume_simps [simp]:
  "same_volume s (s\<lparr>sector_buf := a\<rparr>)" "same_volume s (s\<lparr>fat_buf := a\<rparr>)" "same_volume s (s\<lparr>cluster_buf := a\<rparr>)"
  "same_volume s (s\<lparr>disk := d\<rparr>)"
  by (simp_all add: same_volume_def)

lemma same_volume_geometry:
  assumes "same_volume s s'"
  shows "spc s' = spc s" "cluster_base s' = cluster_base s" "fat_total_clusters s' = fat_total_clusters s"
    "cluster_lba c s' = cluster_lba c s"
  using assms by (auto simp: same_volume_def spc_def cluster_base_def fat_total_clusters_def cluster_lba_def fun_eq_iff)

lemma same_volume_mounted: "same_volume s s' \<Longrightarrow> healthy (disk s') \<Longrightarrow> mounted s m \<Longrightarrow> mounted s' m"
  using same_volume_geometry [of s s'] by (simp add: mounted_def same_volume_def)

lemma cluster_lba_unat:
  assumes "mounted s m" "volume_cluster m c"
  shows "512 * unat (cluster_lba c s) = cluster_base s c" "unat (cluster_lba c s) + spc s \<le> lba_limit"
proof -
  have c: "2 \<le> unat c" "unat c < unat m" using assms(2) by (auto simp: volume_cluster_def word_le_nat_alt)
  have le: "(unat c - 2) * spc s + spc s \<le> (unat m - 2) * spc s"
  proof -
    have "(unat c - 2) + 1 \<le> unat m - 2" using c by linarith
    then have "((unat c - 2) + 1) * spc s \<le> (unat m - 2) * spc s" by (rule mult_le_mono1)
    then show ?thesis by simp
  qed
  have lim: "unat (data_start s) + (unat m - 2) * spc s < 2 ^ 32"
    using assms(1) by (simp add: mounted_def lba_limit_def)
  have a: "unat (ucast c - 2 :: u32) = unat c - 2"
    using c by (subst unat_sub) (simp_all add: word_le_nat_alt)
  have b: "unat ((ucast c - 2) * ucast (sectors_per_cluster (bpb s)) :: u32) = (unat c - 2) * spc s"
    using le lim by (subst unat_mult_lem [THEN iffD1]) (auto simp: a spc_def)
  have u: "unat (cluster_lba c s) = unat (data_start s) + (unat c - 2) * spc s"
    unfolding cluster_lba_def using le lim by (subst unat_add_lem [THEN iffD1]) (auto simp: b)
  then show "512 * unat (cluster_lba c s) = cluster_base s c" by (simp add: cluster_base_def)
  show "unat (cluster_lba c s) + spc s \<le> lba_limit" using u le assms(1) by (simp add: mounted_def)
qed

text \<open>Different clusters are different parts of the disk, after the table and the root directory.\<close>

lemma clusters_apart:
  assumes "mounted s m" "volume_cluster m c" "volume_cluster m d" "c \<noteq> d"
  shows "cluster_base s c + 512 * spc s \<le> cluster_base s d \<or> cluster_base s d + 512 * spc s \<le> cluster_base s c"
proof -
  have "unat c \<noteq> unat d" "2 \<le> unat c" "2 \<le> unat d"
    using assms(2-4) by (auto simp: word_unat_eq_iff volume_cluster_def word_le_nat_alt)
  then consider "unat c - 2 + 1 \<le> unat d - 2" | "unat d - 2 + 1 \<le> unat c - 2" by linarith
  then show ?thesis
  proof cases
    case 1
    then have "(unat c - 2 + 1) * spc s \<le> (unat d - 2) * spc s" by (rule mult_le_mono1)
    then show ?thesis by (simp add: cluster_base_def)
  next
    case 2
    then have "(unat d - 2 + 1) * spc s \<le> (unat c - 2) * spc s" by (rule mult_le_mono1)
    then show ?thesis by (simp add: cluster_base_def)
  qed
qed

section \<open>Sectors\<close>

text \<open>The sector at \<open>lba\<close> as the sector buffer shows it.\<close>

definition sector_view :: "ata_disk \<Rightarrow> u32 \<Rightarrow> bytes \<Rightarrow> bytes" where
  "sector_view d lba b = (\<lambda>a. if unat a < 512 then dbyte d (512 * unat lba + unat a) else b a)"

lemma read_sec_ok:
  assumes "healthy (disk s)" "unat lba < lba_limit"
  shows "read_sec lba s = (0, s\<lparr>sector_buf := sector_view (disk s) lba (sector_buf s)\<rparr>)"
  using read_lba_at [OF assms(1), of lba 1 "sector_buf s" 0] assms(2)
  by (simp add: read_sec_def sector_view_def in_range_def cong: if_cong)

lemma write_sec_ok:
  assumes "healthy (disk s)" "unat lba < lba_limit"
  obtains d where "write_sec lba s = (0, s\<lparr>disk := d\<rparr>)" "healthy d"
    "\<And>b. b < disk_limit \<Longrightarrow> dbyte d b = (if 512 * unat lba \<le> b \<and> b < 512 * unat lba + 512
       then sector_buf s (of_nat (b - 512 * unat lba)) else dbyte (disk s) b)"
proof -
  have "unat lba + unat (1 :: u8) \<le> lba_limit" using assms(2) by simp
  from write_lba_at [OF assms(1) this, of "sector_buf s" 0] obtain d where
    "write_lba lba 1 (sector_buf s) 0 (disk s) = (0, d)" "healthy d"
    "\<And>b. b < disk_limit \<Longrightarrow> dbyte d b = (if 512 * unat lba \<le> b \<and> b < 512 * (unat lba + 1)
       then sector_buf s (of_nat (b - 512 * unat lba)) else dbyte (disk s) b)" unfolding unsigned_1 add_0 by blast
  with that show thesis by (simp add: write_sec_def)
qed

lemma write_cluster_ok:
  assumes "mounted s m" "volume_cluster m c"
  obtains d where "write_cluster (cluster_lba c s) s = (0, s\<lparr>disk := d\<rparr>)" "healthy d"
    "\<And>b. b < disk_limit \<Longrightarrow> dbyte d b = (if cluster_base s c \<le> b \<and> b < cluster_base s c + 512 * spc s
       then cluster_buf s (of_nat (b - cluster_base s c)) else dbyte (disk s) b)"
proof -
  note L = cluster_lba_unat [OF assms]
  have h: "healthy (disk s)" using assms(1) by (simp add: mounted_def)
  have "unat (cluster_lba c s) + unat (sectors_per_cluster (bpb s)) \<le> lba_limit" using L(2) by (simp add: spc_def)
  from write_lba_at [OF h this, of "cluster_buf s" 0] obtain d where
    "write_lba (cluster_lba c s) (sectors_per_cluster (bpb s)) (cluster_buf s) 0 (disk s) = (0, d)" "healthy d"
    "\<And>b. b < disk_limit \<Longrightarrow> dbyte d b = (if cluster_base s c \<le> b \<and> b < cluster_base s c + 512 * spc s
       then cluster_buf s (of_nat (b - cluster_base s c)) else dbyte (disk s) b)"
    unfolding L(1) [symmetric] spc_def distrib_left add_0 by blast
  with that show thesis by (simp add: write_cluster_def)
qed

lemma fat_flush_loop_ok:
  assumes "healthy (disk s)" "unat (fat_start s) + (unat i + n) * unat (sectors_per_fat (bpb s)) \<le> lba_limit"
    "unat (sectors_per_fat (bpb s)) \<le> 9" "unat i + n \<le> 255"
  shows "\<exists>d. fat_flush_loop n i s = (0, s\<lparr>disk := d\<rparr>) \<and> healthy d \<and>
    (\<forall>b < disk_limit. 512 * (unat (fat_start s) + (unat i + n) * unat (sectors_per_fat (bpb s))) \<le> b \<longrightarrow> dbyte d b = dbyte (disk s) b)"
  using assms
proof (induction n arbitrary: i s)
  case 0
  then show ?case by (auto intro!: exI [of _ "disk s"])
next
  case (Suc n)
  let ?k = "unat (sectors_per_fat (bpb s))" and ?lba = "fat_start s + i * ucast (sectors_per_fat (bpb s))"
  have i1: "unat (i + 1) = unat i + 1"
    using Suc.prems(4) by (subst unat_add_lem [THEN iffD1]) auto
  have cnt: "unat (ucast (sectors_per_fat (bpb s)) :: u8) = ?k"
    using Suc.prems(3) by (simp add: unsigned_ucast_eq take_bit_nat_eq_self)
  have bnd: "unat i * ?k + ?k + n * ?k + unat (fat_start s) \<le> lba_limit" "lba_limit < 2 ^ 32"
    using Suc.prems(2) by (simp_all add: algebra_simps lba_limit_def)
  have "unat (i * ucast (sectors_per_fat (bpb s))) = unat i * ?k"
    using bnd by (subst unat_mult_lem [THEN iffD1]) auto
  then have lba: "unat ?lba = unat (fat_start s) + unat i * ?k"
    using bnd by (subst unat_add_lem [THEN iffD1]) auto
  have "unat ?lba + unat (ucast (sectors_per_fat (bpb s)) :: u8) \<le> lba_limit" using bnd by (simp add: lba cnt)
  from write_lba_at [OF Suc.prems(1) this, of "fat_buf s" 0] obtain d where
    d: "write_lba ?lba (ucast (sectors_per_fat (bpb s))) (fat_buf s) 0 (disk s) = (0, d)" "healthy d"
    "\<And>b. b < disk_limit \<Longrightarrow> dbyte d b = (if 512 * unat ?lba \<le> b \<and> b < 512 * (unat ?lba + ?k)
       then fat_buf s (of_nat (b - 512 * unat ?lba)) else dbyte (disk s) b)"
    unfolding cnt add_0 by blast
  from Suc.IH [of "s\<lparr>disk := d\<rparr>" "i + 1"] Suc.prems d(2) i1 obtain d' where
    d': "fat_flush_loop n (i + 1) (s\<lparr>disk := d\<rparr>) = (0, s\<lparr>disk := d'\<rparr>)" "healthy d'"
    "\<forall>b < disk_limit. 512 * (unat (fat_start s) + (unat i + 1 + n) * ?k) \<le> b \<longrightarrow> dbyte d' b = dbyte d b"
    by (auto simp: add.assoc)
  have "dbyte d' b = dbyte (disk s) b" if "b < disk_limit" "512 * (unat (fat_start s) + (unat i + Suc n) * ?k) \<le> b" for b
  proof -
    have "512 * (unat ?lba + ?k) \<le> b" using that(2) by (simp add: lba algebra_simps)
    with d(3) [OF that(1)] d'(3) that show ?thesis by simp
  qed
  with d(1) d'(1,2) show ?case by (auto simp: Let_def)
qed

lemma fat_flush_ok:
  assumes "mounted s m"
  obtains d where "fat_flush s = (0, s\<lparr>disk := d\<rparr>)" "healthy d"
    "\<And>b. b < disk_limit \<Longrightarrow> 512 * unat (root_start s) \<le> b \<Longrightarrow> dbyte d b = dbyte (disk s) b"
proof -
  have "unat (fat_start s) + (unat (0 :: u32) + unat (fat_count (bpb s))) * unat (sectors_per_fat (bpb s)) \<le> lba_limit"
    using assms by (simp add: mounted_def)
  from fat_flush_loop_ok [OF _ this] assms u8_less [of "fat_count (bpb s)"] obtain d where
    d: "fat_flush s = (0, s\<lparr>disk := d\<rparr>)" "healthy d"
    "\<forall>b < disk_limit. 512 * (unat (fat_start s) + unat (fat_count (bpb s)) * unat (sectors_per_fat (bpb s))) \<le> b \<longrightarrow> dbyte d b = dbyte (disk s) b"
    unfolding fat_flush_def mounted_def by force
  have "512 * (unat (fat_start s) + unat (fat_count (bpb s)) * unat (sectors_per_fat (bpb s))) \<le> 512 * unat (root_start s)"
    using assms by (intro mult_le_mono2) (simp add: mounted_def)
  with d that show thesis by (meson order_trans)
qed

section \<open>Directories as lists of entries\<close>

text \<open>An entry is given by its bytes. A lookup compares names with the entries that are in use.\<close>

type_synonym dir_entry = "nat \<Rightarrow> u8"

definition entry_free :: "dir_entry \<Rightarrow> bool" where
  "entry_free e \<longleftrightarrow> e 0 = 0 \<or> e 0 = 0xe5"

definition entry_matches :: "u8 list \<Rightarrow> dir_entry \<Rightarrow> bool" where
  "entry_matches target e \<longleftrightarrow> \<not> entry_free e \<and> e 11 \<noteq> ATTR_LONG_NAME \<and> e 11 AND ATTR_VOLUME_ID = 0
     \<and> map e [0..<11] = target"

text \<open>The scan of \<^verbatim>\<open>dir_lookup\<close> over a list of entries with their slots.\<close>

fun scan_list :: "u8 list \<Rightarrow> dir_slot option \<Rightarrow> (dir_slot \<times> dir_entry) list \<Rightarrow> scan" where
  "scan_list target free [] = Scan_more free"
| "scan_list target free ((sl, e) # xs) =
     (let free_slot = (case free of None \<Rightarrow> sl | Some f \<Rightarrow> f) in
      if e 0 = 0 then Scan_end free_slot
      else if e 0 = 0xe5 then scan_list target (Some free_slot) xs
      else if entry_matches target e then Scan_found (sl\<lparr>ds_exists := True\<rparr>)
      else scan_list target free xs)"

lemma scan_list_append:
  "scan_list t free (xs @ ys) = (case scan_list t free xs of Scan_more free' \<Rightarrow> scan_list t free' ys | r \<Rightarrow> r)"
proof (induction xs arbitrary: free)
  case (Cons x xs)
  then show ?case by (cases x) (simp add: Let_def)
qed simp

lemma scan_list_found:
  "\<forall>x \<in> set xs. snd x 0 \<noteq> 0 \<and> \<not> entry_matches t (snd x) \<Longrightarrow> entry_matches t e \<Longrightarrow>
   scan_list t free (xs @ (sl, e) # ys) = Scan_found (sl\<lparr>ds_exists := True\<rparr>)"
proof (induction xs arbitrary: free)
  case Nil
  then show ?case by (simp add: entry_matches_def entry_free_def)
next
  case (Cons x xs)
  then show ?case by (cases x) (simp add: Let_def)
qed

text \<open>
  A scan of the entries \<open>x 0, \<dots>, x (n - 1)\<close> ends at the first match before the end mark; or it
  gives the first free entry; or there is neither.
\<close>

definition first_match :: "u8 list \<Rightarrow> (nat \<Rightarrow> dir_entry) \<Rightarrow> nat \<Rightarrow> nat \<Rightarrow> bool" where
  "first_match t x n k \<longleftrightarrow> k < n \<and> entry_matches t (x k) \<and> (\<forall>i < k. x i 0 \<noteq> 0 \<and> \<not> entry_matches t (x i))"

definition no_match :: "u8 list \<Rightarrow> (nat \<Rightarrow> dir_entry) \<Rightarrow> nat \<Rightarrow> bool" where
  "no_match t x n \<longleftrightarrow> (\<forall>k. \<not> first_match t x n k)"

definition first_free :: "(nat \<Rightarrow> dir_entry) \<Rightarrow> nat \<Rightarrow> nat \<Rightarrow> bool" where
  "first_free x n k \<longleftrightarrow> k < n \<and> entry_free (x k) \<and> (\<forall>i < k. \<not> entry_free (x i))"

lemma first_match_list:
  assumes "first_match t x n k"
  shows "scan_list t free (map (\<lambda>k. (sl k, x k)) [0..<n]) = Scan_found ((sl k)\<lparr>ds_exists := True\<rparr>)"
proof -
  have "[0..<n] = [0..<k] @ k # [Suc k..<n]"
    using assms upt_add_eq_append [of 0 k "n - k"] by (simp add: first_match_def upt_conv_Cons)
  then show ?thesis
    using assms by (simp add: scan_list_found first_match_def)
qed

lemma no_match_mono: "no_match t x (Suc n) \<Longrightarrow> no_match t x n"
  by (auto simp: no_match_def first_match_def less_Suc_eq)

lemma scan_list_no_match:
  assumes "no_match t x n"
  shows "let r = scan_list t None (map (\<lambda>k. (sl k, x k)) [0..<n]);
      open_scan = (\<forall>i < n. x i 0 \<noteq> 0 \<and> \<not> entry_matches t (x i))
    in (\<exists>k. first_free x n k \<and> (r = Scan_end (sl k) \<or> r = Scan_more (Some (sl k)) \<and> open_scan))
       \<or> (\<forall>i < n. \<not> entry_free (x i)) \<and> r = Scan_more None \<and> open_scan"
  using assms
proof (induction n)
  case 0
  then show ?case by simp
next
  case (Suc n)
  let ?r = "scan_list t None (map (\<lambda>k. (sl k, x k)) [0..<n])"
  have fm: "first_match t x (Suc n) n" if "\<forall>i < n. x i 0 \<noteq> 0 \<and> \<not> entry_matches t (x i)" "entry_matches t (x n)"
    using that by (simp add: first_match_def)
  have ff: "first_free x n k \<Longrightarrow> first_free x (Suc n) k" for k by (simp add: first_free_def)
  have ffn: "\<forall>i < n. \<not> entry_free (x i) \<Longrightarrow> entry_free (x n) \<Longrightarrow> first_free x (Suc n) n"
    by (simp add: first_free_def)
  have nm: "no_match t x n" "\<not> first_match t x (Suc n) n"
    using Suc.prems no_match_mono by (auto simp: no_match_def)
  from Suc.IH [OF nm(1)] consider
    (stop) k where "first_free x n k" "?r = Scan_end (sl k)"
  | (free) k where "first_free x n k" "?r = Scan_more (Some (sl k))" "\<forall>i < n. x i 0 \<noteq> 0 \<and> \<not> entry_matches t (x i)"
  | (none) "\<forall>i < n. \<not> entry_free (x i)" "?r = Scan_more None" "\<forall>i < n. x i 0 \<noteq> 0 \<and> \<not> entry_matches t (x i)"
    unfolding Let_def by blast
  then show ?case
  proof cases
    case stop
    then show ?thesis using ff by (auto simp: scan_list_append Let_def)
  next
    case (free k)
    from free(3) nm(2) fm have "\<not> entry_matches t (x n)" by blast
    with free ff [OF free(1)] show ?thesis by (auto simp: scan_list_append Let_def less_Suc_eq)
  next
    case none
    from none(3) nm(2) fm have "\<not> entry_matches t (x n)" by blast
    moreover have "entry_free (x n) \<longleftrightarrow> x n 0 = 0 \<or> x n 0 = 0xe5" by (simp add: entry_free_def)
    ultimately show ?thesis using none ffn by (auto simp: scan_list_append Let_def less_Suc_eq)
  qed
qed

section \<open>The directory in the root area\<close>

definition slot_at :: "u32 \<Rightarrow> nat \<Rightarrow> dir_slot" where
  "slot_at lba k = \<lparr>ds_sector = lba + of_nat (k div 16), ds_offset = of_nat (32 * (k mod 16)), ds_exists = False\<rparr>"

definition entry_view :: "(nat \<Rightarrow> u8) \<Rightarrow> nat \<Rightarrow> nat \<Rightarrow> dir_entry" where
  "entry_view v base k = (\<lambda>j. v (base + 32 * k + j))"

lemma scan_entries_list:
  "scan_entries n i lba t free m =
   scan_list t free (map (\<lambda>k. (\<lparr>ds_sector = lba, ds_offset = (i + of_nat k) * 32, ds_exists = False\<rparr>,
                               \<lambda>j. m ((i + of_nat k) * 32 + of_nat j))) [0..<n])"
proof (induction n arbitrary: i free)
  case 0
  then show ?case by simp
next
  case (Suc n)
  have map_Suc: "map f [0..<Suc n] = f 0 # map (\<lambda>k. f (Suc k)) [0..<n]" for f :: "nat \<Rightarrow> dir_slot \<times> dir_entry"
    by (simp add: map_upt_Suc del: upt_Suc)
  show ?case
    unfolding map_Suc
    by (simp add: Suc.IH Let_def entry_matches_def entry_free_def bytes_at_def add.assoc split: option.split)
qed

lemma entry_cong:
  assumes "\<forall>j < 12. e j = f j"
  shows "entry_free e = entry_free f" "entry_matches t e = entry_matches t f" "e 0 = f 0"
proof -
  have "map e [0..<11] = map f [0..<11]" using assms by (intro map_cong) auto
  moreover have "e 0 = f 0" "e 11 = f 11" using assms by simp_all
  ultimately show "entry_free e = entry_free f" "entry_matches t e = entry_matches t f" "e 0 = f 0"
    by (simp_all only: entry_free_def entry_matches_def)
qed

lemma scan_list_cong:
  "\<forall>k \<in> set ks. a k = b k \<and> (\<forall>j < 12. e k j = f k j) \<Longrightarrow>
   scan_list t free (map (\<lambda>k. (a k, e k)) ks) = scan_list t free (map (\<lambda>k. (b k, f k)) ks)"
proof (induction ks arbitrary: free)
  case (Cons k ks)
  then show ?case using entry_cong [of "e k" "f k"] by (simp add: Let_def)
qed simp

lemma slot_at_next: "slot_at (lba + 1) k = slot_at lba (16 + k)"
proof -
  have "(16 + k) div 16 = 1 + k div 16" "(16 + k) mod 16 = k mod 16" by simp_all
  then show ?thesis by (simp only: slot_at_def of_nat_add of_nat_1 add.assoc)
qed

lemma map_shift: "map f [a..<a + n] = map (\<lambda>k. f (a + k)) [0..<n]" for a n :: nat
  by (rule nth_equalityI) simp_all

lemma scan_sector_view:
  "scan_entries 16 0 lba t free (sector_view d lba b) =
   scan_list t free (map (\<lambda>k. (slot_at lba k, entry_view (dbyte d) (512 * unat lba) k)) [0..<16])"
proof -
  have "sector_view d lba b (of_nat k * 32 + of_nat j) = entry_view (dbyte d) (512 * unat lba) k j"
    if "k < 16" "j < 12" for k j
  proof -
    have "of_nat k * 32 + of_nat j = (of_nat (32 * k + j) :: u32)" by simp
    then have "unat (of_nat k * 32 + of_nat j :: u32) = 32 * k + j"
      using that by (simp only: unat_of_nat_u32)
    with that show ?thesis by (simp add: sector_view_def entry_view_def add.assoc)
  qed
  then show ?thesis
    unfolding scan_entries_list by (intro scan_list_cong) (auto simp: slot_at_def)
qed

lemma scan_sectors_list:
  assumes "healthy (disk s)" "unat lba + n \<le> lba_limit"
  shows "\<exists>b. scan_sectors n lba t free s = (Some (scan_list t free
    (map (\<lambda>k. (slot_at lba k, entry_view (dbyte (disk s)) (512 * unat lba) k)) [0..<16 * n])), s\<lparr>sector_buf := b\<rparr>)"
  using assms
proof (induction n arbitrary: lba free s)
  case 0
  then show ?case by (auto intro: exI [of _ "sector_buf s"])
next
  case (Suc n)
  let ?x = "\<lambda>k. (slot_at lba k, entry_view (dbyte (disk s)) (512 * unat lba) k)"
  let ?s1 = "s\<lparr>sector_buf := sector_view (disk s) lba (sector_buf s)\<rparr>"
  have split: "map ?x [0..<16 * Suc n] = map ?x [0..<16] @ map (\<lambda>k. ?x (16 + k)) [0..<16 * n]"
    using upt_add_eq_append [of 0 16 "16 * n"] by (simp add: map_shift)
  have lba: "unat (lba + 1) = unat lba + 1"
    using Suc.prems(2) by (subst unat_add_lem [THEN iffD1]) (auto simp: lba_limit_def)
  have rd: "read_sec lba s = (0, ?s1)" using Suc.prems by (intro read_sec_ok) auto
  have tail: "map (\<lambda>k. ?x (16 + k)) [0..<16 * n] =
    map (\<lambda>k. (slot_at (lba + 1) k, entry_view (dbyte (disk ?s1)) (512 * unat (lba + 1)) k)) [0..<16 * n]"
    unfolding slot_at_next by (simp add: lba entry_view_def add.assoc add.left_commute distrib_left)
  have IH: "\<exists>b. scan_sectors n (lba + 1) t f ?s1 = (Some (scan_list t f (map (\<lambda>k. ?x (16 + k)) [0..<16 * n])), s\<lparr>sector_buf := b\<rparr>)" for f
    unfolding tail using Suc.IH [of ?s1 "lba + 1" f] Suc.prems lba by simp
  show ?case
    unfolding split scan_list_append
    using IH by (auto simp: rd scan_sector_view split: scan.split simp del: upt_rec_numeral)
qed

section \<open>Chains of fresh clusters\<close>

text \<open>The table after the clusters \<open>cs\<close> have been allocated in order and hung behind \<open>prev\<close>.\<close>

fun link :: "(u16 \<Rightarrow> u16) \<Rightarrow> u16 \<Rightarrow> u16 list \<Rightarrow> u16 \<Rightarrow> u16" where
  "link f prev [] = f"
| "link f prev (c # cs) = link (if prev = 0 then f(c := 0x0fff) else f(c := 0x0fff, prev := c)) c cs"

lemma link_other: "d \<notin> set cs \<Longrightarrow> d \<noteq> prev \<Longrightarrow> link f prev cs d = f d"
  by (induction cs arbitrary: f prev) auto

lemma link_last: "cs \<noteq> [] \<Longrightarrow> distinct cs \<Longrightarrow> prev \<notin> set cs \<Longrightarrow> link f prev cs (last cs) = 0x0fff"
proof (induction cs arbitrary: f prev)
  case (Cons c cs)
  then show ?case by (cases "cs = []") auto
qed simp

lemma link_chain:
  assumes "cs \<noteq> []" "distinct cs" "prev \<notin> set cs" "\<forall>c \<in> set cs. in_data c"
  shows "chain (link f prev cs) (hd cs) cs \<and> (prev \<noteq> 0 \<longrightarrow> link f prev cs prev = hd cs)"
  using assms
proof (induction cs arbitrary: f prev)
  case (Cons c cs)
  let ?g = "if prev = 0 then f(c := 0x0fff) else f(c := 0x0fff, prev := c)"
  have pc: "prev \<noteq> c" "prev \<notin> set cs" "c \<notin> set cs" using Cons.prems by auto
  show ?case
  proof (cases "cs = []")
    case True
    with pc Cons.prems show ?thesis by (simp add: in_data_def)
  next
    case False
    with Cons.IH [of c ?g] Cons.prems pc have
      "chain (link ?g c cs) (hd cs) cs" "c \<noteq> 0 \<longrightarrow> link ?g c cs c = hd cs" by auto
    moreover have "c \<noteq> 0" using Cons.prems by (auto simp: in_data_def)
    moreover have "link ?g c cs prev = ?g prev" using pc by (intro link_other) auto
    ultimately show ?thesis using Cons.prems pc by (cases "prev = 0") simp_all
  qed
qed simp

lemma volume_clusterD:
  assumes "mounted s m" "volume_cluster m c"
  shows "c \<noteq> 0" "in_data c" "c AND 0x0fff = c" "c \<in> {2..<0xff7}"
proof -
  have c: "2 \<le> unat c" "unat c < 0xff7"
    using assms by (auto simp: mounted_def volume_cluster_def word_le_nat_alt)
  then show "c \<noteq> 0" "in_data c" "c \<in> {2..<0xff7}" by (auto simp: in_data_def word_le_nat_alt word_less_nat_alt)
  have m: "(0x0fff :: u16) = mask 12" by (simp add: mask_eq_exp_minus_1)
  have "take_bit 12 c = c" using c by (simp add: word_unat_eq_iff unsigned_take_bit_eq take_bit_nat_eq_self)
  then show "c AND 0x0fff = c" unfolding m by (simp add: take_bit_eq_mask [symmetric])
qed

lemma spc_less: "spc s < 256"
  using u8_less by (simp add: spc_def)

lemma mounted_cluster_size: "mounted s m \<Longrightarrow> unat (cluster_size s) = 512 * spc s"
  using spc_less [of s] by (simp add: mounted_def del: of_nat_mult)

text \<open>The number of clusters that \<open>n\<close> bytes take.\<close>

definition clusters_for :: "fat_state \<Rightarrow> nat \<Rightarrow> nat" where
  "clusters_for s n = (n + 512 * spc s - 1) div (512 * spc s)"

lemma clusters_for_0: "0 < spc s \<Longrightarrow> clusters_for s 0 = 0"
  by (simp add: clusters_for_def)

lemma clusters_for_step:
  assumes n: "0 < n" "0 < spc s"
  shows "clusters_for s n = Suc (clusters_for s (n - min n (512 * spc s)))"
proof -
  let ?c = "512 * spc s"
  have "n + ?c - 1 = (n - 1) + ?c" using n by simp
  then have e: "clusters_for s n = Suc ((n - 1) div ?c)"
    using n unfolding clusters_for_def by (simp only: div_add_self2)
  show ?thesis
  proof (cases "n \<le> ?c")
    case True
    with n have "(n - 1) div ?c = 0" by (intro div_less) linarith
    with True n e show ?thesis by (simp add: clusters_for_def)
  next
    case False
    then have "n - ?c + ?c - 1 = n - 1" by simp
    with False e show ?thesis by (simp add: clusters_for_def min_def)
  qed
qed

text \<open>Byte \<open>i\<close> of a chain, and what a file of \<open>n\<close> bytes looks like in its chain.\<close>

definition in_cluster :: "fat_state \<Rightarrow> u16 \<Rightarrow> nat \<Rightarrow> bool" where
  "in_cluster s c b \<longleftrightarrow> cluster_base s c \<le> b \<and> b < cluster_base s c + 512 * spc s"

definition chain_byte :: "fat_state \<Rightarrow> ata_disk \<Rightarrow> u16 list \<Rightarrow> nat \<Rightarrow> u8" where
  "chain_byte s d cs i = dbyte d (cluster_base s (cs ! (i div (512 * spc s))) + i mod (512 * spc s))"

lemma fat_alloc_mounted:
  assumes "mounted s m"
  obtains (free) c where "volume_cluster m c" "c \<in> free_clusters (fat_next (fat_buf s)) (unat m)"
    "fat_alloc_cluster s = Some (c, set_fat c FAT12_EOC_MARK s)"
  | (full) "free_clusters (fat_next (fat_buf s)) (unat m) = {}" "fat_alloc_cluster s = Some (0, s)"
proof -
  let ?f = "fat_next (fat_buf s)"
  have m: "unat m \<le> 0xffff" "fat_total_clusters s = Some m" using assms by (auto simp: mounted_def)
  from fat_alloc_loop_spec [OF m(1), of 2 "fat_buf s"] consider
    d where "2 \<le> d" "unat d < unat m" "?f d = 0" "fat_alloc_loop 2 m (fat_buf s) = Some (d, fat_set_entry d FAT12_EOC_MARK (fat_buf s))"
  | "\<forall>d \<ge> 2. unat d < unat m \<longrightarrow> ?f d \<noteq> 0" "fat_alloc_loop 2 m (fat_buf s) = Some (0, fat_buf s)" by auto
  then show thesis
  proof cases
    case 1
    then show thesis using m by (intro free [of d]) (auto simp: volume_cluster_def free_clusters_def fat_alloc_cluster_def set_fat_def)
  next
    case 2
    then show thesis using m by (intro full) (auto simp: free_clusters_def fat_alloc_cluster_def)
  qed
qed

lemma free_clusters_finite [simp]: "finite (free_clusters f n)"
  by simp

lemma table_set_fat: "mounted s m \<Longrightarrow> volume_cluster m c \<Longrightarrow> fat_next (fat_buf (set_fat d c s)) = (fat_next (fat_buf s))(d := c)"
  using volume_clusterD(3) [of s m c] by (simp add: set_fat_def fat_next_set)

lemma table_set_eoc: "fat_next (fat_buf (set_fat d FAT12_EOC_MARK s)) = (fat_next (fat_buf s))(d := FAT12_EOC_MARK)"
  by (simp add: set_fat_def fat_next_set)

lemma free_clusters_link:
  assumes "c \<in> free_clusters f n" "prev = 0 \<or> f prev \<noteq> 0"
  shows "free_clusters (if prev = 0 then f(c := 0x0fff) else f(c := 0x0fff, prev := c)) n = free_clusters f n - {c}"
  using assms by (auto simp: free_clusters_def)

text \<open>The body of the loop when a cluster is free: allocation, link, and the data of one cluster.\<close>

definition store_chunk :: "u16 \<Rightarrow> u16 \<Rightarrow> bytes \<Rightarrow> u32 \<Rightarrow> u32 \<Rightarrow> fat_state \<Rightarrow> fat_state" where
  "store_chunk c prev data src chunk s =
     (let s2 = (if prev \<noteq> 0 then set_fat prev c (set_fat c FAT12_EOC_MARK s) else set_fat c FAT12_EOC_MARK s)
      in s2\<lparr>cluster_buf := copy_bytes data src (unat chunk) (memset 0 0 (cluster_size s2) (cluster_buf s2)) 0\<rparr>)"

lemma store_chunk_frame:
  "same_volume s (store_chunk c prev data src chunk s)" "sector_buf (store_chunk c prev data src chunk s) = sector_buf s"
  "disk (store_chunk c prev data src chunk s) = disk s"
  by (simp_all add: store_chunk_def Let_def set_fat_def same_volume_def)

lemma store_chunk_table:
  assumes "mounted s m" "volume_cluster m c"
  shows "fat_next (fat_buf (store_chunk c prev data src chunk s)) = (if prev = 0 then (fat_next (fat_buf s))(c := 0x0fff)
    else (fat_next (fat_buf s))(c := 0x0fff, prev := c))"
proof -
  have "mounted (set_fat c FAT12_EOC_MARK s) m" using assms(1) by (rule same_volume_mounted [rotated 2]) (auto simp: set_fat_def mounted_def assms(1)[unfolded mounted_def])
  then show ?thesis
    using assms(2) by (simp add: store_chunk_def Let_def table_set_fat table_set_eoc)
qed

lemma store_chunk_buf:
  assumes "i < unat (cluster_size s)" "unat chunk \<le> unat (cluster_size s)"
  shows "cluster_buf (store_chunk c prev data src chunk s) (of_nat i) = (if i < unat chunk then data (src + of_nat i) else 0)"
proof -
  have "unat (of_nat i :: u32) = i" using assms(1) u32_less [of "cluster_size s"] by simp
  then show ?thesis
    using assms by (simp add: store_chunk_def Let_def copy_bytes_def memset_at in_range_def set_fat_def)
qed

text \<open>The bytes outside some clusters are the same on two disks.\<close>

definition untouched :: "fat_state \<Rightarrow> u16 set \<Rightarrow> ata_disk \<Rightarrow> ata_disk \<Rightarrow> bool" where
  "untouched s C d d' \<longleftrightarrow> (\<forall>b < disk_limit. (\<forall>c \<in> C. \<not> in_cluster s c b) \<longrightarrow> dbyte d' b = dbyte d b)"

lemma untouched_refl [simp]: "untouched s C d d"
  by (simp add: untouched_def)

lemma untouched_trans: "untouched s C d1 d2 \<Longrightarrow> untouched s D d2 d3 \<Longrightarrow> untouched s (C \<union> D) d1 d3"
  by (simp add: untouched_def)

lemma untouched_mono: "untouched s C d1 d2 \<Longrightarrow> C \<subseteq> D \<Longrightarrow> untouched s D d1 d2"
  by (auto simp: untouched_def)

lemma chain_byte_Cons:
  "0 < spc s \<Longrightarrow> chain_byte s d (c # cs) i =
    (if i < 512 * spc s then dbyte d (cluster_base s c + i) else chain_byte s d cs (i - 512 * spc s))"
  by (simp add: chain_byte_def le_div_geq le_mod_geq)

lemma in_cluster_limit: "mounted s m \<Longrightarrow> volume_cluster m c \<Longrightarrow> in_cluster s c b \<Longrightarrow> b < disk_limit"
  using cluster_lba_unat [of s m c] by (auto simp: in_cluster_def)

lemma in_cluster_apart:
  "mounted s m \<Longrightarrow> volume_cluster m c \<Longrightarrow> volume_cluster m d \<Longrightarrow> in_cluster s c b \<Longrightarrow> in_cluster s d b \<Longrightarrow> c = d"
  using clusters_apart [of s m c d] by (auto simp: in_cluster_def)

lemma free_volume_cluster: "c \<in> free_clusters f (unat m) \<Longrightarrow> volume_cluster m c"
  by (simp add: free_clusters_def volume_cluster_def)

text \<open>What the loop of \<^verbatim>\<open>fat_write_file\<close> achieves.\<close>

definition clusters_written ::
    "fat_state \<Rightarrow> u32 \<Rightarrow> u16 \<Rightarrow> u16 \<Rightarrow> bytes \<Rightarrow> u32 \<Rightarrow> u32 \<Rightarrow> u16 list \<Rightarrow> u16 \<Rightarrow> u16 \<Rightarrow> fat_state \<Rightarrow> bool" where
  "clusters_written s m first_c prev data src r cs first_c' prev' s' \<longleftrightarrow>
     length cs = clusters_for s (unat r) \<and> distinct cs \<and> set cs \<subseteq> free_clusters (fat_next (fat_buf s)) (unat m)
     \<and> fat_next (fat_buf s') = link (fat_next (fat_buf s)) prev cs
     \<and> first_c' = (if prev = 0 \<and> cs \<noteq> [] then hd cs else first_c) \<and> prev' = (if cs = [] then prev else last cs)
     \<and> (\<forall>i < length cs * (512 * spc s). chain_byte s (disk s') cs i = (if i < unat r then data (src + of_nat i) else 0))
     \<and> untouched s (set cs) (disk s) (disk s')"

lemma clusters_written_step:
  assumes M: "mounted s m" and c: "c \<in> free_clusters (fat_next (fat_buf s)) (unat m)"
    and prev: "prev = 0 \<or> fat_next (fat_buf s) prev \<noteq> 0"
    and chunk: "chunk = (if r < cluster_size s then r else cluster_size s)" "0 < r"
    and s1: "s1 = (store_chunk c prev data src chunk s)\<lparr>disk := d\<rparr>" "healthy d"
    and d: "\<And>b. b < disk_limit \<Longrightarrow> dbyte d b = (if in_cluster s c b
      then cluster_buf (store_chunk c prev data src chunk s) (of_nat (b - cluster_base s c)) else dbyte (disk s) b)"
    and cw: "clusters_written s1 m (if prev \<noteq> 0 then first_c else c) c data (src + chunk) (r - chunk) cs first_c' prev' s'"
  shows "clusters_written s m first_c prev data src r (c # cs) first_c' prev' s'"
proof -
  let ?F = "fat_next (fat_buf s)" and ?n = "512 * spc s"
  let ?G = "if prev = 0 then ?F(c := 0x0fff) else ?F(c := 0x0fff, prev := c)"
  have v: "volume_cluster m c" by (rule free_volume_cluster [OF c])
  have sv: "same_volume s s1" using store_chunk_frame(1) [of s c prev data src chunk] by (simp add: s1(1) same_volume_def)
  note geo = same_volume_geometry [OF sv]
  have spc: "0 < spc s" using M by (simp add: mounted_def)
  have size: "unat (cluster_size s) = ?n" by (rule mounted_cluster_size [OF M])
  have un: "unat chunk = min (unat r) ?n"
    using size by (auto simp: chunk(1) word_less_nat_alt min_def)
  have ur: "unat (r - chunk) = unat r - unat chunk"
    by (rule unat_sub) (simp add: chunk(1) not_less)
  have r: "0 < unat r" using chunk(2) by (simp add: word_less_nat_alt)
  have G: "fat_next (fat_buf s1) = ?G" using store_chunk_table [OF M v] by (simp add: s1)
  have fc: "free_clusters ?G (unat m) = free_clusters ?F (unat m) - {c}" by (rule free_clusters_link [OF c prev])
  note cw' = cw [unfolded clusters_written_def, unfolded G fc]
  have cs: "distinct cs" "set cs \<subseteq> free_clusters ?F (unat m) - {c}" using cw' by auto
  have c0: "c \<noteq> 0" using volume_clusterD(1) [OF M v] .
  have len: "length (c # cs) = clusters_for s (unat r)"
    using cw' clusters_for_step [OF r spc] by (simp add: clusters_for_def geo un ur)
  have unt: "untouched s (set cs) (disk s1) (disk s')"
    using cw' by (simp add: untouched_def in_cluster_def geo)
  have "untouched s {c} (disk s) (disk s1)"
    using d by (simp add: untouched_def s1)
  then have unt': "untouched s (set (c # cs)) (disk s) (disk s')"
    using untouched_trans [OF _ unt, of "{c}" "disk s"] by simp
  have head: "dbyte (disk s') (cluster_base s c + i) = (if i < unat r then data (src + of_nat i) else 0)" if i: "i < ?n" for i
  proof -
    have b: "in_cluster s c (cluster_base s c + i)" using i by (simp add: in_cluster_def)
    have "\<not> in_cluster s x (cluster_base s c + i)" if "x \<in> set cs" for x
      using in_cluster_apart [OF M v _ b, of x] that cs(2) free_volume_cluster [of x] by blast
    with unt in_cluster_limit [OF M v b] have "dbyte (disk s') (cluster_base s c + i) = dbyte d (cluster_base s c + i)"
      by (simp add: untouched_def s1)
    also have "\<dots> = cluster_buf (store_chunk c prev data src chunk s) (of_nat i)"
      using d [OF in_cluster_limit [OF M v b]] b by simp
    also have "\<dots> = (if i < unat chunk then data (src + of_nat i) else 0)"
      using i un size by (intro store_chunk_buf) simp_all
    finally show ?thesis using i by (simp add: un)
  qed
  have bytes: "chain_byte s (disk s') (c # cs) i = (if i < unat r then data (src + of_nat i) else 0)"
    if i: "i < length (c # cs) * ?n" for i
  proof (cases "i < ?n")
    case True
    with head spc show ?thesis by (simp add: chain_byte_Cons)
  next
    case False
    then have k: "i - ?n < length cs * ?n" using i by simp
    have "chain_byte s (disk s') cs (i - ?n) =
      (if i - ?n < unat (r - chunk) then data (src + chunk + of_nat (i - ?n)) else 0)"
      using cw' k by (simp add: chain_byte_def geo)
    moreover have "src + chunk + of_nat (i - ?n) = src + of_nat i" if "i < unat r"
    proof -
      have "unat chunk = ?n" using False that un by simp
      then have "chunk = of_nat ?n" by (metis of_nat_unat ucast_id)
      moreover have "of_nat i = of_nat ?n + (of_nat (i - ?n) :: u32)" using False by (simp flip: of_nat_add)
      ultimately show ?thesis by (simp only: add.assoc)
    qed
    ultimately show ?thesis
      using False spc un by (auto simp: chain_byte_Cons ur)
  qed
  show ?thesis
    using cw' c cs c0 len unt' bytes unfolding clusters_written_def by auto
qed

lemma write_clusters_unfold:
  assumes "fat_alloc_cluster s = Some (c, set_fat c FAT12_EOC_MARK s)" "c \<noteq> 0" "0 < r"
    and "chunk = (if r < cluster_size s then r else cluster_size s)"
    and "write_cluster (cluster_lba c (store_chunk c prev data src chunk s)) (store_chunk c prev data src chunk s) = (0, s1)"
  shows "write_clusters first_c prev data src r s =
    write_clusters (if prev \<noteq> 0 then first_c else c) c data (src + chunk) (r - chunk) s1"
proof -
  have "cluster_size (set_fat x y s) = cluster_size s" for x y s by (simp add: set_fat_def)
  then show ?thesis
    using assms unfolding store_chunk_def by (subst write_clusters.simps) (auto simp: Let_def)
qed

lemma write_clusters_spec:
  assumes "mounted s m" "first_c = 0 \<longleftrightarrow> prev = 0" "prev = 0 \<or> fat_next (fat_buf s) prev \<noteq> 0"
  shows "\<exists>st first_c' prev' s'. write_clusters first_c prev data src r s = Some (st, first_c', prev', s')
    \<and> same_volume s s' \<and> healthy (disk s') \<and> sector_buf s' = sector_buf s
    \<and> untouched s (free_clusters (fat_next (fat_buf s)) (unat m)) (disk s) (disk s')
    \<and> (if clusters_for s (unat r) \<le> card (free_clusters (fat_next (fat_buf s)) (unat m))
       then st = 0 \<and> (\<exists>cs. clusters_written s m first_c prev data src r cs first_c' prev' s') else st = 3)"
  using assms
proof (induction "unat r" arbitrary: r src first_c prev s rule: less_induct)
  case less
  let ?F = "fat_next (fat_buf s)"
  let ?free = "free_clusters ?F (unat m)"
  have M: "mounted s m" and h: "healthy (disk s)" and spc: "0 < spc s" using less.prems(1) by (auto simp: mounted_def)
  show ?case
  proof (cases "r = 0")
    case True
    then have "write_clusters first_c prev data src r s = Some (0, first_c, prev, s)" by (subst write_clusters.simps) simp
    moreover have "clusters_written s m first_c prev data src r [] first_c prev s"
      using True spc by (simp add: clusters_written_def clusters_for_0)
    ultimately show ?thesis using True h spc by (auto simp: clusters_for_0)
  next
    case False
    then have r: "0 < r" "0 < unat r" by (auto simp: word_gt_0 unat_gt_0)
    show ?thesis
      using M
    proof (cases rule: fat_alloc_mounted)
      case full
      obtain fb C where "fat_free_loop first_c (fat_buf s) = Some fb" using fat_free_loop_total by blast
      then have "\<exists>fb. write_clusters first_c prev data src r s = Some (3, first_c, prev, s\<lparr>fat_buf := fb\<rparr>)"
        using r full by (subst write_clusters.simps) (auto simp: fat_free_chain_def intro: exI [of _ "fat_buf s"])
      then obtain fb where "write_clusters first_c prev data src r s = Some (3, first_c, prev, s\<lparr>fat_buf := fb\<rparr>)" ..
      then show ?thesis using clusters_for_step [OF r(2) spc] full h by simp
    next
      case (free c)
      define chunk where "chunk = (if r < cluster_size s then r else cluster_size s)"
      let ?s3 = "store_chunk c prev data src chunk s"
      note v = free(1)
      have sv3: "same_volume s ?s3" by (rule store_chunk_frame)
      have M3: "mounted ?s3 m" using same_volume_mounted [OF sv3 _ M] h by (simp add: store_chunk_frame)
      from write_cluster_ok [OF M3 v] obtain d where
        w: "write_cluster (cluster_lba c ?s3) ?s3 = (0, ?s3\<lparr>disk := d\<rparr>)" and hd: "healthy d"
        and db: "\<And>b. b < disk_limit \<Longrightarrow> dbyte d b = (if in_cluster s c b
          then cluster_buf ?s3 (of_nat (b - cluster_base s c)) else dbyte (disk s) b)"
        unfolding in_cluster_def same_volume_geometry [OF sv3] store_chunk_frame(2,3) by blast
      define s1 where "s1 = ?s3\<lparr>disk := d\<rparr>"
      have sv: "same_volume s s1" using sv3 by (simp add: s1_def same_volume_def)
      note geo = same_volume_geometry [OF sv]
      have M1: "mounted s1 m" using same_volume_mounted [OF sv _ M] hd by (simp add: s1_def)
      have G: "fat_next (fat_buf s1) = (if prev = 0 then ?F(c := 0x0fff) else ?F(c := 0x0fff, prev := c))"
        using store_chunk_table [OF M v] by (simp add: s1_def)
      have c0: "c \<noteq> 0" using volume_clusterD(1) [OF M v] .
      have Gc: "fat_next (fat_buf s1) c \<noteq> 0" using c0 by (simp add: G)
      have fc: "free_clusters (fat_next (fat_buf s1)) (unat m) = ?free - {c}"
        unfolding G by (rule free_clusters_link [OF free(2) less.prems(3)])
      have un: "unat chunk = min (unat r) (512 * spc s)"
        using mounted_cluster_size [OF M] by (auto simp: chunk_def word_less_nat_alt min_def)
      have ur: "unat (r - chunk) = unat r - unat chunk" by (rule unat_sub) (simp add: chunk_def not_less)
      have lt: "unat (r - chunk) < unat r" using un ur r spc by simp
      have step: "write_clusters first_c prev data src r s =
        write_clusters (if prev \<noteq> 0 then first_c else c) c data (src + chunk) (r - chunk) s1"
        unfolding s1_def by (rule write_clusters_unfold [OF free(3) c0 r(1) chunk_def w])
      have "(if prev \<noteq> 0 then first_c else c) = 0 \<longleftrightarrow> c = 0" using less.prems(2) c0 by auto
      from less.hyps [OF lt M1 this, of "src + chunk"] Gc obtain st first_c' prev' s' where
        IH: "write_clusters (if prev \<noteq> 0 then first_c else c) c data (src + chunk) (r - chunk) s1 = Some (st, first_c', prev', s')"
        "same_volume s1 s'" "healthy (disk s')" "sector_buf s' = sector_buf s1"
        "untouched s1 (free_clusters (fat_next (fat_buf s1)) (unat m)) (disk s1) (disk s')"
        "if clusters_for s1 (unat (r - chunk)) \<le> card (free_clusters (fat_next (fat_buf s1)) (unat m))
         then st = 0 \<and> (\<exists>cs. clusters_written s1 m (if prev \<noteq> 0 then first_c else c) c data (src + chunk) (r - chunk) cs first_c' prev' s')
         else st = 3" by blast
      have enough: "clusters_for s1 (unat (r - chunk)) \<le> card (free_clusters (fat_next (fat_buf s1)) (unat m))
        \<longleftrightarrow> clusters_for s (unat r) \<le> card ?free"
      proof -
        have "clusters_for s1 (unat (r - chunk)) = clusters_for s (unat r - min (unat r) (512 * spc s))"
          by (simp add: ur un clusters_for_def geo)
        moreover have "card ?free = Suc (card (?free - {c}))"
          using free(2) card_Suc_Diff1 [of ?free c] by simp
        ultimately show ?thesis using clusters_for_step [OF r(2) spc] by (simp add: fc)
      qed
      have "untouched s {c} (disk s) (disk s1)" using db by (simp add: untouched_def s1_def)
      from untouched_trans [OF this, of "?free - {c}" "disk s'"] IH(5) have
        unt: "untouched s ?free (disk s) (disk s')"
        using free(2) by (simp add: fc untouched_def in_cluster_def geo insert_absorb)
      have cw: "clusters_written s m first_c prev data src r (c # cs) first_c' prev' s'"
        if "clusters_written s1 m (if prev \<noteq> 0 then first_c else c) c data (src + chunk) (r - chunk) cs first_c' prev' s'" for cs
        using clusters_written_step [OF M free(2) less.prems(3) chunk_def r(1) s1_def hd db that] by blast
      have "if clusters_for s (unat r) \<le> card ?free
        then st = 0 \<and> (\<exists>cs. clusters_written s m first_c prev data src r cs first_c' prev' s') else st = 3"
        using IH(6) enough cw by (auto split: if_splits)
      then show ?thesis
        unfolding step using IH(1,3) unt same_volume_trans [OF sv IH(2)] IH(4)
        by (auto simp: s1_def store_chunk_frame)
    qed
  qed
qed

section \<open>Reading a chain\<close>

lemma chain_size:
  assumes "mounted s m" "distinct cs" "\<forall>c \<in> set cs. volume_cluster m c"
  shows "length cs * (512 * spc s) < 2 ^ 30"
proof -
  have "unat ` set cs \<subseteq> {2..<unat m}"
    using assms(3) by (auto simp: volume_cluster_def word_le_nat_alt)
  then have "card (unat ` set cs) \<le> card {2..<unat m}" by (intro card_mono) auto
  moreover have "card (unat ` set cs) = length cs"
    using assms(2) by (subst card_image) (auto simp: distinct_card inj_on_def word_unat_eq_iff)
  moreover have "unat m \<le> 0xff7" using assms(1) by (simp add: mounted_def)
  ultimately have "length cs \<le> 0xff5" by simp
  then have "length cs * (512 * spc s) \<le> 0xff5 * (512 * 255)"
    using spc_less [of s] by (intro mult_le_mono) simp_all
  then show ?thesis by simp
qed

lemma read_chain_at:
  assumes "mounted s m" "chain (fat_next (fat_buf s)) c cs" "\<forall>c \<in> set cs. volume_cluster m c"
    "length cs * (512 * spc s) < 2 ^ 32"
  shows "read_chain c dest out s = Some (0, \<lambda>a. if in_range a out (length cs * (512 * spc s))
    then chain_byte s (disk s) cs (unat (a - out)) else dest a)"
  using assms(2-4)
proof (induction cs arbitrary: c dest out)
  case Nil
  then show ?case by (subst read_chain.simps) (auto simp: in_data_def)
next
  case (Cons x cs)
  let ?n = "512 * spc s" and ?step = "ucast (sectors_per_cluster (bpb s)) * SECTOR_SIZE :: u32"
  have x: "x = c" "in_data c" "chain (fat_next (fat_buf s)) (fat_next (fat_buf s) c) cs" "volume_cluster m c"
    using Cons.prems by auto
  have h: "healthy (disk s)" "0 < spc s" using assms(1) by (auto simp: mounted_def)
  note L = cluster_lba_unat [OF assms(1) x(4)]
  have step: "unat ?step = ?n"
    using spc_less [of s] by (subst unat_mult_lem [THEN iffD1]) (auto simp: spc_def)
  then have ofn: "?step = of_nat ?n" by (metis of_nat_unat ucast_id)
  define dest1 where "dest1 = (\<lambda>a. if in_range a out ?n then dbyte (disk s) (cluster_base s c + unat (a - out)) else dest a)"
  have rd: "read_lba (cluster_lba c s) (sectors_per_cluster (bpb s)) (disk s) dest out = (0, dest1)"
    using read_lba_at [OF h(1), of "cluster_lba c s" "sectors_per_cluster (bpb s)" dest out] L(2)
    unfolding dest1_def L(1) by (simp add: spc_def)
  have "length (x # cs) * ?n = ?n + length cs * ?n" by simp
  then have small: "length cs * ?n < 2 ^ 32" "?n + length cs * ?n \<le> 2 ^ 32" using Cons.prems(3) by linarith+
  have "read_chain c dest out s = read_chain (fat_next (fat_buf s) c) dest1 (out + ?step) s"
    using x(2) by (subst read_chain.simps) (simp add: rd in_data_def)
  also have "\<dots> = Some (0, \<lambda>a. if in_range a (out + ?step) (length cs * ?n)
    then chain_byte s (disk s) cs (unat (a - (out + ?step))) else dest1 a)"
    using Cons.prems small by (intro Cons.IH x(3)) auto
  also have "(\<lambda>a. if in_range a (out + ?step) (length cs * ?n)
    then chain_byte s (disk s) cs (unat (a - (out + ?step))) else dest1 a) =
    (\<lambda>a. if in_range a out (length (x # cs) * ?n) then chain_byte s (disk s) (x # cs) (unat (a - out)) else dest a)"
    (is "?l = ?r")
  proof
    fix a
    have sp: "in_range a out (length (x # cs) * ?n) \<longleftrightarrow> in_range a out ?n \<or> in_range a (out + ?step) (length cs * ?n)"
      using in_range_split [OF small(2), of a out] by (simp add: ofn)
    show "?l a = ?r a"
    proof (cases "in_range a out ?n")
      case True
      have "\<not> in_range a (out + ?step) (length cs * ?n)"
      proof
        assume b: "in_range a (out + ?step) (length cs * ?n)"
        have e: "a - out = (a - (out + ?step)) + ?step" by simp
        have "unat (a - out) = unat (a - (out + ?step)) + unat ?step"
          unfolding e using b small step by (subst unat_add_lem [THEN iffD1]) (auto simp: in_range_def)
        with True step show False by (simp add: in_range_def)
      qed
      with True sp h(2) x(1) show ?thesis by (simp add: chain_byte_Cons dest1_def in_range_def)
    next
      case False
      show ?thesis
      proof (cases "in_range a (out + ?step) (length cs * ?n)")
        case True
        have "unat (a - out - ?step) = unat (a - out) - ?n"
          using False step by (subst unat_sub) (auto simp: in_range_def word_le_nat_alt)
        then have "unat (a - (out + ?step)) = unat (a - out) - ?n" by (simp add: diff_diff_eq)
        with True False sp h(2) show ?thesis by (simp add: chain_byte_Cons in_range_def)
      next
        case out: False
        with False sp show ?thesis by (simp add: dest1_def)
      qed
    qed
  qed
  finally show ?case .
qed

section \<open>Looking a name up in the root directory\<close>

definition root_entry :: "fat_state \<Rightarrow> ata_disk \<Rightarrow> nat \<Rightarrow> dir_entry" where
  "root_entry s d k = entry_view (dbyte d) (512 * unat (root_start s)) k"

definition root_size :: "fat_state \<Rightarrow> nat" where
  "root_size s = 16 * unat (root_sectors s)"

lemma dir_lookup_root:
  assumes "mounted s m"
  shows "\<exists>b. dir_lookup 0 t create junk s =
    (case scan_list t None (map (\<lambda>k. (slot_at (root_start s) k, root_entry s (disk s) k)) [0..<root_size s]) of
       Scan_end f \<Rightarrow> Some (0, f, s\<lparr>sector_buf := b\<rparr>) | Scan_found f \<Rightarrow> Some (0, f, s\<lparr>sector_buf := b\<rparr>)
     | Scan_more (Some f) \<Rightarrow> Some (0, f, s\<lparr>sector_buf := b\<rparr>) | Scan_more None \<Rightarrow> Some (2, junk, s\<lparr>sector_buf := b\<rparr>))"
proof -
  have "healthy (disk s)" "unat (root_start s) + unat (root_sectors s) \<le> lba_limit" using assms by (auto simp: mounted_def)
  from scan_sectors_list [OF this, of t None] obtain b where
    "scan_sectors (unat (root_sectors s)) (root_start s) t None s = (Some (scan_list t None
      (map (\<lambda>k. (slot_at (root_start s) k, root_entry s (disk s) k)) [0..<root_size s])), s\<lparr>sector_buf := b\<rparr>)"
    unfolding root_entry_def root_size_def by blast
  then show ?thesis
    by (intro exI [of _ b]) (simp add: dir_lookup_def split: scan.split option.split)
qed

text \<open>Paths of one component.\<close>

definition root_path :: "u8 list \<Rightarrow> u8 list \<Rightarrow> bool" where
  "root_path path t \<longleftrightarrow> (\<exists>name rest. split_next path = Some (name, rest) \<and> split_next rest = None \<and> to_fat_name name = t)"

lemma resolve_root: "root_path path t \<Longrightarrow> resolve_path path s = Some (0, 0, Some t, s)"
  unfolding root_path_def resolve_path_def
  by (elim exE conjE, subst resolve_loop.simps, simp, subst resolve_loop.simps, simp)

text \<open>What \<open>locate\<close> returns for a name in the root directory.\<close>

lemma locate_root:
  assumes "mounted s m" "root_path path t"
  shows "\<exists>b. (\<forall>k. first_match t (root_entry s (disk s)) (root_size s) k \<longrightarrow>
        locate create junk path s = Some (Path_slot 0 ((slot_at (root_start s) k)\<lparr>ds_exists := True\<rparr>) 0 t, s\<lparr>sector_buf := b\<rparr>))
    \<and> (no_match t (root_entry s (disk s)) (root_size s) \<longrightarrow>
        (\<exists>k. first_free (root_entry s (disk s)) (root_size s) k
           \<and> locate create junk path s = Some (Path_slot 0 (slot_at (root_start s) k) 0 t, s\<lparr>sector_buf := b\<rparr>))
        \<or> (\<forall>k < root_size s. \<not> entry_free (root_entry s (disk s) k))
           \<and> locate create junk path s = Some (Path_slot 2 junk 0 t, s\<lparr>sector_buf := b\<rparr>))"
proof -
  from dir_lookup_root [OF assms(1), of t create junk] obtain b where b: "dir_lookup 0 t create junk s =
    (case scan_list t None (map (\<lambda>k. (slot_at (root_start s) k, root_entry s (disk s) k)) [0..<root_size s]) of
       Scan_end f \<Rightarrow> Some (0, f, s\<lparr>sector_buf := b\<rparr>) | Scan_found f \<Rightarrow> Some (0, f, s\<lparr>sector_buf := b\<rparr>)
     | Scan_more (Some f) \<Rightarrow> Some (0, f, s\<lparr>sector_buf := b\<rparr>) | Scan_more None \<Rightarrow> Some (2, junk, s\<lparr>sector_buf := b\<rparr>))" by blast
  have loc: "locate create junk path s = (case dir_lookup 0 t create junk s of None \<Rightarrow> None
    | Some (r, slot, s2) \<Rightarrow> Some (Path_slot r slot 0 t, s2))"
    by (simp add: locate_def resolve_root [OF assms(2)])
  show ?thesis
  proof (intro exI [of _ b] conjI allI impI)
    fix k assume "first_match t (root_entry s (disk s)) (root_size s) k"
    then show "locate create junk path s = Some (Path_slot 0 ((slot_at (root_start s) k)\<lparr>ds_exists := True\<rparr>) 0 t, s\<lparr>sector_buf := b\<rparr>)"
      unfolding loc b by (simp add: first_match_list)
  next
    assume "no_match t (root_entry s (disk s)) (root_size s)"
    from scan_list_no_match [OF this, of "slot_at (root_start s)"]
    show "(\<exists>k. first_free (root_entry s (disk s)) (root_size s) k
           \<and> locate create junk path s = Some (Path_slot 0 (slot_at (root_start s) k) 0 t, s\<lparr>sector_buf := b\<rparr>))
        \<or> (\<forall>k < root_size s. \<not> entry_free (root_entry s (disk s) k))
           \<and> locate create junk path s = Some (Path_slot 2 junk 0 t, s\<lparr>sector_buf := b\<rparr>)"
      unfolding loc b Let_def by auto
  qed
qed

end
