(* ===== verification/Fat_Files.thy ===== *)
theory Fat_Files
  imports Fat_Volume
begin

text \<open>
  Files in the root directory of a mounted volume: what \<^verbatim>\<open>fat_write_file\<close>, \<^verbatim>\<open>fat_read_file\<close>,
  \<^verbatim>\<open>fat_stat\<close> and \<^verbatim>\<open>fat_delete_file\<close> do there, from the lookup to the data on the disk.
\<close>

section \<open>Storing a directory entry\<close>

definition file_entry :: "u8 list \<Rightarrow> u8 \<Rightarrow> u16 \<Rightarrow> u32 \<Rightarrow> fat12_dirent" where
  "file_entry t attr c sz = (new_entry t)\<lparr>de_attr := attr, first_cluster_low := c, file_size := sz\<rparr>"

lemma file_entry_name [simp]: "de_name (file_entry t attr c sz) = t"
  by (simp add: file_entry_def new_entry_def)

lemma less_32_cases: "k < 32 \<Longrightarrow> (\<And>j. j < 11 \<Longrightarrow> P j) \<Longrightarrow>
  P 11 \<Longrightarrow> P 12 \<Longrightarrow> P 13 \<Longrightarrow> P 14 \<Longrightarrow> P 15 \<Longrightarrow> P 16 \<Longrightarrow> P 17 \<Longrightarrow> P 18 \<Longrightarrow> P 19 \<Longrightarrow> P 20 \<Longrightarrow> P 21 \<Longrightarrow> P 22
  \<Longrightarrow> P 23 \<Longrightarrow> P 24 \<Longrightarrow> P 25 \<Longrightarrow> P 26 \<Longrightarrow> P 27 \<Longrightarrow> P 28 \<Longrightarrow> P 29 \<Longrightarrow> P 30 \<Longrightarrow> P 31 \<Longrightarrow> P k" for k :: nat
proof -
  assume k: "k < 32" and P: "\<And>j. j < 11 \<Longrightarrow> P j" "P 11" "P 12" "P 13" "P 14" "P 15" "P 16" "P 17" "P 18"
    "P 19" "P 20" "P 21" "P 22" "P 23" "P 24" "P 25" "P 26" "P 27" "P 28" "P 29" "P 30" "P 31"
  show "P k"
  proof (cases "k < 11")
    case False
    with k have "k \<in> set [11..<32]" by (simp only: set_upt atLeastLessThan_iff not_less)
    also have "set [11..<32] = {11 :: nat, 12, 13, 14, 15, 16, 17, 18, 19, 20, 21, 22, 23, 24, 25, 26, 27, 28, 29, 30, 31}"
      by (simp only: upt_rec_numeral) simp
    finally show ?thesis using P by auto
  qed (rule P(1))
qed

lemma fill_entry_at:
  assumes "length t = 11" "k < 32"
  shows "fill_entry p t attr c sz b (p + of_nat k) = dirent_bytes (file_entry t attr c sz) ! k"
  using assms(2)
proof (rule less_32_cases)
  show "fill_entry p t attr c sz b (p + of_nat j) = dirent_bytes (file_entry t attr c sz) ! j" if "j < 11" for j
  proof -
    have j: "unat (of_nat j :: u32) = j" using that by simp
    have ne: "(of_nat j :: u32) \<noteq> w" if "11 \<le> unat w" for w
      using that j \<open>j < 11\<close> by auto
    with ne j that assms(1) show ?thesis
      by (simp add: fill_entry_def Let_def st32_def st16_def store_bytes_at in_range_def add.assoc dirent_bytes_def nth_append)
  qed
qed (simp_all add: assms fill_entry_def Let_def st32_def st16_def store_bytes_at memset_at in_range_def add.assoc
  dirent_bytes_def nth_append file_entry_def new_entry_def le16_def le32_def)

lemma fill_entry_other: "length t = 11 \<Longrightarrow> \<not> in_range a p 32 \<Longrightarrow> fill_entry p t attr c sz b a = b a"
proof -
  assume t: "length t = 11" and a: "\<not> in_range a p 32"
  have "a \<noteq> p + of_nat k" if "k < 32" for k using a that by auto
  from this [of 11] this [of 26] this [of 27] this [of 28] this [of 29] this [of 30] this [of 31]
  have "a \<noteq> p + 11" "a \<noteq> p + 26" "a \<noteq> p + 27" "a \<noteq> p + 28" "a \<noteq> p + 29" "a \<noteq> p + 30" "a \<noteq> p + 31" by simp_all
  moreover have "\<not> in_range a p 11" using a by (simp add: in_range_def)
  ultimately show ?thesis
    using t a by (simp add: fill_entry_def Let_def st32_def st16_def store_bytes_at memset_at add.assoc)
qed

lemma get_dirent_cong:
  assumes "\<And>k. k < 32 \<Longrightarrow> m (p + of_nat k) = m' (q + of_nat k)"
  shows "get_dirent m p = get_dirent m' q"
proof -
  have n: "m (p + numeral w) = m' (q + numeral w)" if "numeral w < (32 :: nat)" for w using assms [OF that] by simp
  have "m p = m' q" using assms [of 0] by simp
  moreover have "bytes_at m p 11 = bytes_at m' q 11" using assms by (simp add: bytes_at_def)
  ultimately show ?thesis by (simp add: get_dirent_def ld16_def ld32_def add.assoc n)
qed

text \<open>The bytes of an entry of the root directory on the disk, and its place in its sector.\<close>

definition entry_base :: "fat_state \<Rightarrow> nat \<Rightarrow> nat" where
  "entry_base s k = 512 * unat (root_start s) + 32 * k"

lemma slot_at_place:
  assumes "mounted s m" "k < root_size s"
  shows "unat (ds_sector (slot_at (root_start s) k)) = unat (root_start s) + k div 16"
    "unat (root_start s) + k div 16 < lba_limit" "unat (ds_offset (slot_at (root_start s) k)) = 32 * (k mod 16)"
    "entry_base s k = 512 * (unat (root_start s) + k div 16) + 32 * (k mod 16)"
    "entry_base s k + 32 \<le> 512 * unat (data_start s)"
proof -
  have k: "k div 16 < unat (root_sectors s)" using assms(2) by (auto simp: root_size_def)
  have r: "unat (root_start s) + unat (root_sectors s) \<le> unat (data_start s)" "unat (data_start s) \<le> lba_limit"
    using assms(1) by (auto simp: mounted_def)
  with k show lim: "unat (root_start s) + k div 16 < lba_limit" by linarith
  have "unat (of_nat (k div 16) :: u32) = k div 16" using k u32_less [of "root_sectors s"] by simp
  with lim show "unat (ds_sector (slot_at (root_start s) k)) = unat (root_start s) + k div 16"
    unfolding slot_at_def by (simp add: lba_limit_def) (subst unat_add_lem [THEN iffD1], simp_all)
  have "32 * (k mod 16) < 4294967296" by (rule le_less_trans [of _ "32 * 16"]) simp_all
  then show "unat (ds_offset (slot_at (root_start s) k)) = 32 * (k mod 16)"
    unfolding slot_at_def by (simp only: dir_slot.simps unat_of_nat_u32)
  have "32 * k = 512 * (k div 16) + 32 * (k mod 16)" using div_mult_mod_eq [of k 16] by linarith
  then show e: "entry_base s k = 512 * (unat (root_start s) + k div 16) + 32 * (k mod 16)"
    by (simp add: entry_base_def)
  have "unat (root_start s) + k div 16 + 1 \<le> unat (data_start s)" using k r by linarith
  then have "512 * (unat (root_start s) + k div 16 + 1) \<le> 512 * unat (data_start s)" by (rule mult_le_mono2)
  moreover have "32 * (k mod 16) + 32 \<le> 512" by simp
  moreover obtain r where r: "32 * (k mod 16) = r" by blast
  moreover obtain q where q: "unat (root_start s) + k div 16 = q" by blast
  ultimately show "entry_base s k + 32 \<le> 512 * unat (data_start s)"
    unfolding e by (simp add: distrib_left)
qed

lemma slot_exists [simp]: "ds_sector (sl\<lparr>ds_exists := x\<rparr>) = ds_sector sl" "ds_offset (sl\<lparr>ds_exists := x\<rparr>) = ds_offset sl"
  by simp_all

lemma root_entry_byte: "root_entry s d k j = dbyte d (entry_base s k + j)"
  by (simp add: root_entry_def entry_view_def entry_base_def)

text \<open>The sector of an entry as it is read, and the disk after it is written back.\<close>

lemma entry_in_sector:
  assumes "mounted s m" "k < root_size s" "j < 32" "sl = slot_at (root_start s) k"
  shows "sector_view d (ds_sector sl) b (ds_offset sl + of_nat j) = dbyte d (entry_base s k + j)"
proof -
  note P = slot_at_place [OF assms(1,2), folded assms(4)]
  have "32 * (k mod 16) \<le> 480" by simp
  then have "unat (ds_offset sl + of_nat j) = 32 * (k mod 16) + j"
    using assms(3) P(3) by (subst unat_add_lem [THEN iffD1]) auto
  moreover from \<open>32 * (k mod 16) \<le> 480\<close> assms(3) have "32 * (k mod 16) + j < 512" by linarith
  ultimately show ?thesis by (simp add: sector_view_def P(1,4) add.assoc)
qed

lemma write_entry_ok:
  assumes M: "mounted s m" "k < root_size s" "sl = slot_at (root_start s) k" and h: "healthy (disk s1)"
    and b: "\<And>a. \<not> in_range a (ds_offset sl) 32 \<Longrightarrow> sector_buf s1 a = sector_view (disk s1) (ds_sector sl) b0 a"
  obtains d where "write_sec (ds_sector sl) s1 = (0, s1\<lparr>disk := d\<rparr>)" "healthy d"
    "\<And>b. b < disk_limit \<Longrightarrow> dbyte d b = (if entry_base s k \<le> b \<and> b < entry_base s k + 32
       then sector_buf s1 (ds_offset sl + of_nat (b - entry_base s k)) else dbyte (disk s1) b)"
proof -
  note P = slot_at_place [OF M(1,2), folded M(3)]
  have lt: "unat (ds_sector sl) < lba_limit" using P(1,2) by simp
  from write_sec_ok [OF h lt] obtain d where d: "write_sec (ds_sector sl) s1 = (0, s1\<lparr>disk := d\<rparr>)" "healthy d"
    "\<And>b. b < disk_limit \<Longrightarrow> dbyte d b = (if 512 * unat (ds_sector sl) \<le> b \<and> b < 512 * unat (ds_sector sl) + 512
       then sector_buf s1 (of_nat (b - 512 * unat (ds_sector sl))) else dbyte (disk s1) b)" by blast
  have o: "32 * (k mod 16) + 32 \<le> 512" by simp
  have "dbyte d b = (if entry_base s k \<le> b \<and> b < entry_base s k + 32
       then sector_buf s1 (ds_offset sl + of_nat (b - entry_base s k)) else dbyte (disk s1) b)" if bl: "b < disk_limit" for b
  proof (cases "512 * unat (ds_sector sl) \<le> b \<and> b < 512 * unat (ds_sector sl) + 512")
    case False
    with d(3) [OF bl] P o show ?thesis by auto
  next
    case True
    define j where "j = b - 512 * unat (ds_sector sl)"
    have j: "j < 512" "b = 512 * unat (ds_sector sl) + j" using True by (auto simp: j_def)
    have db: "dbyte d b = sector_buf s1 (of_nat j)" using d(3) [OF bl] True by (simp add: j_def)
    show ?thesis
    proof (cases "entry_base s k \<le> b \<and> b < entry_base s k + 32")
      case True
      obtain q where q: "512 * (unat (root_start s) + k div 16) = q" by blast
      obtain r where r: "32 * (k mod 16) = r" by blast
      have "j = r + (b - entry_base s k)"
        using True j(2) unfolding P(4) P(1) q r by linarith
      then have "j = 32 * (k mod 16) + (b - entry_base s k)" by (simp only: r)
      then have "(of_nat j :: u32) = of_nat (32 * (k mod 16)) + of_nat (b - entry_base s k)" by (simp only: of_nat_add)
      then have "of_nat j = ds_offset sl + of_nat (b - entry_base s k)"
        by (simp add: M(3) slot_at_def)
      with True db show ?thesis by simp
    next
      case out: False
      have "\<not> in_range (of_nat j) (ds_offset sl) 32"
      proof
        assume a: "in_range (of_nat j) (ds_offset sl) 32"
        have e: "(of_nat j :: u32) = (of_nat j - ds_offset sl) + ds_offset sl" by simp
        have "unat (of_nat j :: u32) = unat (of_nat j - ds_offset sl) + unat (ds_offset sl)"
          using a o P(3) by (subst e, subst unat_add_lem [THEN iffD1]) (auto simp: in_range_def)
        with a j(1) P(3) have "32 * (k mod 16) \<le> j \<and> j < 32 * (k mod 16) + 32" by (auto simp: in_range_def)
        moreover obtain q where q: "512 * (unat (root_start s) + k div 16) = q" by blast
        moreover obtain r where r: "32 * (k mod 16) = r" by blast
        ultimately show False using out j(2) unfolding P(4) P(1) q r by linarith
      qed
      from b [OF this] db j have "dbyte d b = dbyte (disk s1) b" by (simp add: sector_view_def)
      then show ?thesis unfolding if_not_P [OF out] .
    qed
  qed
  with d that show thesis by blast
qed

section \<open>Writing a file\<close>

lemma finish_write_exists [simp]: "finish_write (sl\<lparr>ds_exists := x\<rparr>) t c prev sz s = finish_write sl t c prev sz s"
  by (simp only: finish_write_def slot_exists)

lemma finish_write_ok:
  assumes M: "mounted s m" "k < root_size s" "sl = slot_at (root_start s) k" and t: "length t = 11"
  obtains s' where "finish_write sl t c prev sz s = (0, s')" "same_volume s s'" "healthy (disk s')"
    "fat_next (fat_buf s') = (if prev = 0 then fat_next (fat_buf s) else (fat_next (fat_buf s))(prev := FAT12_EOC_MARK))"
    "\<And>b. b < disk_limit \<Longrightarrow> 512 * unat (root_start s) \<le> b \<Longrightarrow> dbyte (disk s') b =
      (if entry_base s k \<le> b \<and> b < entry_base s k + 32 then dirent_bytes (file_entry t 0x20 c sz) ! (b - entry_base s k)
       else dbyte (disk s) b)"
proof -
  define s1 where "s1 = (if prev \<noteq> 0 then set_fat prev FAT12_EOC_MARK s else s)"
  have s1: "same_volume s s1" "disk s1 = disk s" "sector_buf s1 = sector_buf s"
    "fat_next (fat_buf s1) = (if prev = 0 then fat_next (fat_buf s) else (fat_next (fat_buf s))(prev := FAT12_EOC_MARK))"
    by (auto simp: s1_def same_volume_def set_fat_def fat_next_set)
  have "mounted s1 m" using same_volume_mounted [OF s1(1) _ M(1)] M(1) by (simp add: s1(2) mounted_def)
  then obtain d where d: "fat_flush s1 = (0, s1\<lparr>disk := d\<rparr>)" "healthy d"
    "\<And>b. b < disk_limit \<Longrightarrow> 512 * unat (root_start s1) \<le> b \<Longrightarrow> dbyte d b = dbyte (disk s1) b"
    using fat_flush_ok by blast
  note P = slot_at_place [OF M(1,2), folded M(3)]
  have lt: "unat (ds_sector sl) < lba_limit" using P(1,2) by simp
  define s3 where "s3 = s1\<lparr>disk := d, sector_buf := sector_view d (ds_sector sl) (sector_buf s)\<rparr>"
  have rd: "read_sec (ds_sector sl) (s1\<lparr>disk := d\<rparr>) = (0, s3)"
    using read_sec_ok [of "s1\<lparr>disk := d\<rparr>" "ds_sector sl"] d(2) lt by (simp add: s3_def s1)
  define s4 where "s4 = s3\<lparr>sector_buf := fill_entry (ds_offset sl) t 0x20 c sz (sector_buf s3)\<rparr>"
  have h4: "healthy (disk s4)" using d(2) by (simp add: s4_def s3_def)
  have "sector_buf s4 a = sector_view (disk s4) (ds_sector sl) (sector_buf s) a" if "\<not> in_range a (ds_offset sl) 32" for a
    using fill_entry_other [OF t that] by (simp add: s4_def s3_def)
  from write_entry_ok [OF M h4 this] obtain d' where w: "write_sec (ds_sector sl) s4 = (0, s4\<lparr>disk := d'\<rparr>)" "healthy d'"
    "\<And>b. b < disk_limit \<Longrightarrow> dbyte d' b = (if entry_base s k \<le> b \<and> b < entry_base s k + 32
       then sector_buf s4 (ds_offset sl + of_nat (b - entry_base s k)) else dbyte (disk s4) b)" by blast
  have run: "finish_write sl t c prev sz s = (0, s4\<lparr>disk := d'\<rparr>)"
    unfolding finish_write_def Let_def s1_def [symmetric] by (simp add: d(1) rd w(1) s4_def [symmetric])
  show thesis
  proof (rule that [OF run])
    show "same_volume s (s4\<lparr>disk := d'\<rparr>)" using s1(1) by (simp add: s4_def s3_def same_volume_def)
    show "fat_next (fat_buf (s4\<lparr>disk := d'\<rparr>)) =
      (if prev = 0 then fat_next (fat_buf s) else (fat_next (fat_buf s))(prev := FAT12_EOC_MARK))"
      using s1(4) by (simp add: s4_def s3_def)
    fix b assume b: "b < disk_limit" "512 * unat (root_start s) \<le> b"
    have "root_start s1 = root_start s" using s1(1) by (simp add: same_volume_def)
    with d(3) b s1(2) have "dbyte (disk s4) b = dbyte (disk s) b" by (simp add: s4_def s3_def)
    then show "dbyte (disk (s4\<lparr>disk := d'\<rparr>)) b =
      (if entry_base s k \<le> b \<and> b < entry_base s k + 32 then dirent_bytes (file_entry t 0x20 c sz) ! (b - entry_base s k)
       else dbyte (disk s) b)"
      using w(3) [OF b(1)] fill_entry_at [OF t, of "b - entry_base s k"] by (auto simp: s4_def)
  qed (simp add: w(2))
qed

text \<open>What a volume looks like after a file has been stored: its entry, its chain, the rest.\<close>

definition file_stored ::
    "fat_state \<Rightarrow> u32 \<Rightarrow> (u16 \<Rightarrow> u16) \<Rightarrow> nat \<Rightarrow> u8 list \<Rightarrow> bytes \<Rightarrow> u32 \<Rightarrow> u16 list \<Rightarrow> fat_state \<Rightarrow> bool" where
  "file_stored s m table k t data sz cs s' \<longleftrightarrow>
     same_volume s s' \<and> healthy (disk s') \<and> fat_next (fat_buf s') = link table 0 cs
     \<and> distinct cs \<and> set cs \<subseteq> free_clusters table (unat m) \<and> length cs = clusters_for s (unat sz)
     \<and> (\<forall>j < 32. dbyte (disk s') (entry_base s k + j) = dirent_bytes (file_entry t 0x20 (if cs = [] then 0 else hd cs) sz) ! j)
     \<and> (\<forall>i < unat sz. chain_byte s (disk s') cs i = data (of_nat i))
     \<and> (\<forall>b < disk_limit. 512 * unat (root_start s) \<le> b \<and> \<not> (entry_base s k \<le> b \<and> b < entry_base s k + 32)
          \<and> (\<forall>c \<in> set cs. \<not> in_cluster s c b) \<longrightarrow> dbyte (disk s') b = dbyte (disk s) b)"

lemma clusters_for_enough: "0 < spc s \<Longrightarrow> n \<le> clusters_for s n * (512 * spc s)"
proof -
  assume spc: "0 < spc s"
  let ?c = "512 * spc s"
  have "n + ?c - 1 < ?c + (n + ?c - 1) div ?c * ?c" using spc by (intro dividend_less_div_times) simp
  with spc show ?thesis unfolding clusters_for_def by linarith
qed

lemma write_tail_ok:
  assumes M: "mounted s m" "k < root_size s" "sl = slot_at (root_start s) k" and t: "length t = 11"
    and tail: "tail = (case write_clusters 0 0 data 0 sz s of None \<Rightarrow> None
      | Some (st, first_c, prev, s4) \<Rightarrow> if st \<noteq> 0 then Some (st, s4) else Some (finish_write sl t first_c prev sz s4))"
  shows "\<exists>st s'. tail = Some (st, s') \<and>
    (if clusters_for s (unat sz) \<le> card (free_clusters (fat_next (fat_buf s)) (unat m))
     then st = 0 \<and> (\<exists>cs. file_stored s m (fat_next (fat_buf s)) k t data sz cs s') else st = 3)"
proof -
  let ?F = "fat_next (fat_buf s)"
  from write_clusters_spec [OF M(1), of 0 0 data 0 sz] obtain st first_c prev s4 where
    w: "write_clusters 0 0 data 0 sz s = Some (st, first_c, prev, s4)" "same_volume s s4" "healthy (disk s4)"
    and r: "if clusters_for s (unat sz) \<le> card (free_clusters ?F (unat m))
       then st = 0 \<and> (\<exists>cs. clusters_written s m 0 0 data 0 sz cs first_c prev s4) else st = 3" by blast
  show ?thesis
  proof (cases "clusters_for s (unat sz) \<le> card (free_clusters ?F (unat m))")
    case False
    with w r show ?thesis by (simp add: tail)
  next
    case True
    with r obtain cs where st: "st = 0" and cw: "clusters_written s m 0 0 data 0 sz cs first_c prev s4" by auto
    note cw = cw [unfolded clusters_written_def]
    have M4: "mounted s4 m" using same_volume_mounted [OF w(2,3) M(1)] .
    have geo: "root_start s4 = root_start s" "root_size s4 = root_size s" "entry_base s4 = entry_base s"
      using w(2) by (auto simp: same_volume_def root_size_def entry_base_def fun_eq_iff)
    from finish_write_ok [of s4 m k sl t first_c prev sz] M4 M t geo obtain s' where
      f: "finish_write sl t first_c prev sz s4 = (0, s')" "same_volume s4 s'" "healthy (disk s')"
      "fat_next (fat_buf s') = (if prev = 0 then fat_next (fat_buf s4) else (fat_next (fat_buf s4))(prev := FAT12_EOC_MARK))"
      "\<And>b. b < disk_limit \<Longrightarrow> 512 * unat (root_start s) \<le> b \<Longrightarrow> dbyte (disk s') b =
        (if entry_base s k \<le> b \<and> b < entry_base s k + 32 then dirent_bytes (file_entry t 0x20 first_c sz) ! (b - entry_base s k)
         else dbyte (disk s4) b)" by (metis (no_types, lifting))
    have v: "\<forall>c \<in> set cs. volume_cluster m c" using cw free_volume_cluster by blast
    then have z: "0 \<notin> set cs" using volume_clusterD(1) [OF M(1)] by blast
    have eoc: "cs \<noteq> [] \<Longrightarrow> link ?F 0 cs (last cs) = 0x0fff" using link_last [of cs 0 ?F] cw z by blast
    have tab: "fat_next (fat_buf s') = link ?F 0 cs" using f(4) cw eoc by (auto simp: fun_upd_idem)
    have fc: "first_c = (if cs = [] then 0 else hd cs)" using cw by auto
    note P = slot_at_place [OF M(1,2)]
    have data0: "512 * unat (data_start s) \<le> disk_limit" using M(1) by (auto simp: mounted_def)
    have ent: "dbyte (disk s') (entry_base s k + j) = dirent_bytes (file_entry t 0x20 first_c sz) ! j" if "j < 32" for j
      using f(5) [of "entry_base s k + j"] that P(5) data0 by (simp add: entry_base_def)
    have above: "dbyte (disk s') b = dbyte (disk s4) b" if "in_cluster s c b" "c \<in> set cs" for b c
    proof -
      have "512 * unat (data_start s) \<le> b" using that(1) by (simp add: in_cluster_def cluster_base_def distrib_left)
      moreover have "512 * unat (root_start s) \<le> 512 * unat (data_start s)" using M(1) by (simp add: mounted_def)
      ultimately show ?thesis
        using f(5) [of b] in_cluster_limit [OF M(1) _ that(1)] v that(2) P(5) by auto
    qed
    have spc: "0 < spc s" using M(1) by (simp add: mounted_def)
    have cb: "chain_byte s (disk s') cs i = data (of_nat i)" if i: "i < unat sz" for i
    proof -
      have il: "i < length cs * (512 * spc s)"
        using i clusters_for_enough [OF spc, of "unat sz"] cw by simp
      then have "i div (512 * spc s) < length cs" by (simp add: div_less_iff_less_mult spc)
      then have mem: "cs ! (i div (512 * spc s)) \<in> set cs" by simp
      have "in_cluster s (cs ! (i div (512 * spc s))) (cluster_base s (cs ! (i div (512 * spc s))) + i mod (512 * spc s))"
        using spc by (simp add: in_cluster_def)
      from above [OF this mem] have "chain_byte s (disk s') cs i = chain_byte s (disk s4) cs i"
        by (simp add: chain_byte_def)
      with cw il i show ?thesis by simp
    qed
    have rest: "dbyte (disk s') b = dbyte (disk s) b"
      if "b < disk_limit" "512 * unat (root_start s) \<le> b" "\<not> (entry_base s k \<le> b \<and> b < entry_base s k + 32)"
        "\<forall>c \<in> set cs. \<not> in_cluster s c b" for b
      using f(5) [OF that(1,2)] that(3,4) cw by (simp add: untouched_def that(1))
    have "file_stored s m ?F k t data sz cs s'"
      unfolding file_stored_def using same_volume_trans [OF w(2) f(2)] f(3) tab cw ent cb rest
      by (auto simp: fc)
    with True w(1) st f(1) show ?thesis by (auto simp: tail)
  qed
qed

text \<open>The first cluster of an entry, and the chain that a write or a deletion releases.\<close>

definition entry_cluster :: "dir_entry \<Rightarrow> u16" where
  "entry_cluster e = ucast (e 26) OR push_bit 8 (ucast (e 27))"

abbreviation root_entries :: "fat_state \<Rightarrow> nat \<Rightarrow> dir_entry" where
  "root_entries s \<equiv> root_entry s (disk s)"

abbreviation table :: "fat_state \<Rightarrow> u16 \<Rightarrow> u16" where
  "table s \<equiv> fat_next (fat_buf s)"

definition file_at :: "fat_state \<Rightarrow> u8 list \<Rightarrow> nat \<Rightarrow> u16 list \<Rightarrow> bool" where
  "file_at s t k cs \<longleftrightarrow> first_match t (root_entries s) (root_size s) k \<and> chain (table s) (entry_cluster (root_entries s k)) cs"

definition no_file :: "fat_state \<Rightarrow> u8 list \<Rightarrow> bool" where
  "no_file s t \<longleftrightarrow> no_match t (root_entries s) (root_size s)"

definition old_chain :: "fat_state \<Rightarrow> u8 list \<Rightarrow> u16 list \<Rightarrow> bool" where
  "old_chain s t cs \<longleftrightarrow> (no_file s t \<and> cs = []) \<or> (\<exists>k. file_at s t k cs)"

definition root_full :: "fat_state \<Rightarrow> bool" where
  "root_full s \<longleftrightarrow> (\<forall>k < root_size s. \<not> entry_free (root_entries s k))"

lemma to_fat_name_length: "length (to_fat_name name) = 11"
proof -
  have "length (map to_upper (take 8 xs)) \<le> 8" "length (map to_upper (take 3 xs)) \<le> 3" for xs by simp_all
  then show ?thesis
    unfolding to_fat_name_def Let_def by (auto simp: pad_def split: list.split)
qed

lemma root_path_length: "root_path path t \<Longrightarrow> length t = 11"
  by (auto simp: root_path_def to_fat_name_length)

lemma ld16_entry:
  assumes "mounted s m" "k < root_size s" "sl = slot_at (root_start s) k"
  shows "ld16 (sector_view d (ds_sector sl) b) (ds_offset sl + 26) = entry_cluster (root_entry s d k)"
proof -
  have "sector_view d (ds_sector sl) b (ds_offset sl + 26) = dbyte d (entry_base s k + 26)"
    "sector_view d (ds_sector sl) b (ds_offset sl + 27) = dbyte d (entry_base s k + 27)"
    using entry_in_sector [OF assms(1,2) _ assms(3), of 26] entry_in_sector [OF assms(1,2) _ assms(3), of 27] by simp_all
  then show ?thesis by (simp add: ld16_def entry_cluster_def root_entry_byte add.assoc)
qed

lemma read_entry_sec:
  assumes "mounted s m" "k < root_size s" "sl = slot_at (root_start s) k"
  shows "read_sec (ds_sector sl) (s\<lparr>sector_buf := b\<rparr>) = (0, s\<lparr>sector_buf := sector_view (disk s) (ds_sector sl) b\<rparr>)"
proof -
  have "healthy (disk s)" using assms(1) by (simp add: mounted_def)
  moreover have "unat (ds_sector sl) < lba_limit" using slot_at_place(1,2) [OF assms(1,2)] assms(3) by simp
  ultimately show ?thesis using read_sec_ok [of "s\<lparr>sector_buf := b\<rparr>" "ds_sector sl"] by simp
qed

lemma fat_free_chain_spec:
  "chain (fat_next (fat_buf s)) c cs \<Longrightarrow>
   \<exists>fb. (if 2 \<le> c then fat_free_chain c s else Some s) = Some (s\<lparr>fat_buf := fb\<rparr>) \<and> fat_next fb = freed (fat_next (fat_buf s)) (set cs)"
proof (cases "2 \<le> c")
  case True
  moreover assume "chain (fat_next (fat_buf s)) c cs"
  ultimately show ?thesis using fat_free_loop_chain [of "fat_buf s" c cs] by (force simp: fat_free_chain_def)
next
  case False
  moreover assume c: "chain (fat_next (fat_buf s)) c cs"
  ultimately have "cs = []" by (cases cs) (auto simp: in_data_def)
  with False show ?thesis by (auto intro: exI [of _ "fat_buf s"])
qed

lemma fat_write_file_spec:
  assumes M: "mounted s m" and p: "root_path path t" and old: "old_chain s t old"
  shows "\<exists>st s'. fat_write_file junk path data sz s = Some (st, s') \<and>
    (if no_file s t \<and> root_full s then st = 2
     else if clusters_for s (unat sz) \<le> card (free_clusters (freed (table s) (set old)) (unat m))
     then st = 0 \<and> (\<exists>k cs. (first_match t (root_entries s) (root_size s) k
           \<or> no_file s t \<and> first_free (root_entries s) (root_size s) k)
         \<and> file_stored s m (freed (table s) (set old)) k t data sz cs s')
     else st = 3)"
proof -
  from locate_root [OF M p, of True junk] obtain b where
    hit: "\<And>k. first_match t (root_entries s) (root_size s) k \<Longrightarrow>
      locate True junk path s = Some (Path_slot 0 ((slot_at (root_start s) k)\<lparr>ds_exists := True\<rparr>) 0 t, s\<lparr>sector_buf := b\<rparr>)"
    and miss: "no_file s t \<Longrightarrow> (\<exists>k. first_free (root_entries s) (root_size s) k
        \<and> locate True junk path s = Some (Path_slot 0 (slot_at (root_start s) k) 0 t, s\<lparr>sector_buf := b\<rparr>))
      \<or> root_full s \<and> locate True junk path s = Some (Path_slot 2 junk 0 t, s\<lparr>sector_buf := b\<rparr>)"
    unfolding no_file_def root_full_def by blast
  have t: "length t = 11" by (rule root_path_length [OF p])
  from old consider (new) "no_file s t" "old = []" | (found) k where "file_at s t k old" by (auto simp: old_chain_def)
  then show ?thesis
  proof cases
    case found
    then have k: "first_match t (root_entries s) (root_size s) k" "chain (table s) (entry_cluster (root_entries s k)) old"
      by (auto simp: file_at_def)
    define sl where "sl = slot_at (root_start s) k"
    have kN: "k < root_size s" using k(1) by (simp add: first_match_def)
    let ?s2 = "s\<lparr>sector_buf := sector_view (disk s) (ds_sector sl) b\<rparr>"
    from fat_free_chain_spec [of ?s2 "entry_cluster (root_entries s k)" old] k(2) obtain fb where
      fr: "(if 2 \<le> entry_cluster (root_entries s k) then fat_free_chain (entry_cluster (root_entries s k)) ?s2 else Some ?s2)
        = Some (?s2\<lparr>fat_buf := fb\<rparr>)" "fat_next fb = freed (table s) (set old)" by auto
    let ?s3 = "?s2\<lparr>fat_buf := fb\<rparr>"
    have M3: "mounted ?s3 m" using M by (intro same_volume_mounted [OF _ _ M]) (simp_all add: same_volume_def mounted_def)
    have run: "fat_write_file junk path data sz s = (case write_clusters 0 0 data 0 sz ?s3 of None \<Rightarrow> None
      | Some (st, first_c, prev, s4) \<Rightarrow> if st \<noteq> 0 then Some (st, s4) else Some (finish_write sl t first_c prev sz s4))"
      unfolding fat_write_file_def hit [OF k(1)] sl_def [symmetric]
      using read_entry_sec [OF M kN sl_def, of b] ld16_entry [OF M kN sl_def, of "disk s" b] fr(1)
      by (simp add: Let_def cong del: if_weak_cong option.case_cong_weak prod.case_cong_weak)
    have nf: "\<not> no_file s t" using k(1) by (auto simp: no_file_def no_match_def)
    have geo: "root_size ?s3 = root_size s" "clusters_for ?s3 = clusters_for s" "sl = slot_at (root_start ?s3) k"
      by (simp_all add: root_size_def clusters_for_def fun_eq_iff spc_def sl_def)
    have fs: "file_stored ?s3 m tb k t data sz cs s' \<longleftrightarrow> file_stored s m tb k t data sz cs s'" for tb cs s'
      by (simp add: file_stored_def same_volume_def clusters_for_def spc_def entry_base_def chain_byte_def cluster_base_def in_cluster_def)
    from write_tail_ok [OF M3, of k sl t, OF _ geo(3) t run] kN geo nf k(1) fr(2) show ?thesis
      unfolding fs by (auto split: if_splits)
  next
    case new
    show ?thesis
    proof (cases "root_full s")
      case True
      have "\<not> first_free (root_entries s) (root_size s) k" for k using True by (auto simp: root_full_def first_free_def)
      with miss [OF new(1)] have "locate True junk path s = Some (Path_slot 2 junk 0 t, s\<lparr>sector_buf := b\<rparr>)" by blast
      with True new show ?thesis by (simp add: fat_write_file_def)
    next
      case False
      with miss [OF new(1)] obtain k where k: "first_free (root_entries s) (root_size s) k"
        "locate True junk path s = Some (Path_slot 0 (slot_at (root_start s) k) 0 t, s\<lparr>sector_buf := b\<rparr>)" by blast
      define sl where "sl = slot_at (root_start s) k"
      have kN: "k < root_size s" using k(1) by (simp add: first_free_def)
      let ?s3 = "s\<lparr>sector_buf := b\<rparr>"
      have M3: "mounted ?s3 m" using M by (intro same_volume_mounted [OF _ _ M]) (simp_all add: same_volume_def mounted_def)
      have "\<not> ds_exists sl" by (simp add: sl_def slot_at_def)
      then have run: "fat_write_file junk path data sz s = (case write_clusters 0 0 data 0 sz ?s3 of None \<Rightarrow> None
        | Some (st, first_c, prev, s4) \<Rightarrow> if st \<noteq> 0 then Some (st, s4) else Some (finish_write sl t first_c prev sz s4))"
        unfolding fat_write_file_def k(2) sl_def [symmetric] by (simp add: Let_def)
      have geo: "root_size ?s3 = root_size s" "clusters_for ?s3 = clusters_for s" "sl = slot_at (root_start ?s3) k"
        by (simp_all add: root_size_def clusters_for_def fun_eq_iff spc_def sl_def)
      have fs: "file_stored ?s3 m tb k t data sz cs s' \<longleftrightarrow> file_stored s m tb k t data sz cs s'" for tb cs s'
        by (simp add: file_stored_def same_volume_def clusters_for_def spc_def entry_base_def chain_byte_def cluster_base_def in_cluster_def)
      from write_tail_ok [OF M3, of k sl t, OF _ geo(3) t run] kN geo False k(1) new show ?thesis
        unfolding fs by (auto split: if_splits)
    qed
  qed
qed

section \<open>Reading a file back\<close>

definition entry_size :: "dir_entry \<Rightarrow> u32" where
  "entry_size e = ucast (e 28) OR push_bit 8 (ucast (e 29)) OR push_bit 16 (ucast (e 30)) OR push_bit 24 (ucast (e 31))"

lemma get_root_dirent:
  assumes "mounted s m" "k < root_size s" "sl = slot_at (root_start s) k"
  shows "first_cluster_low (get_dirent (sector_view d (ds_sector sl) b) (ds_offset sl)) = entry_cluster (root_entry s d k)"
    "file_size (get_dirent (sector_view d (ds_sector sl) b) (ds_offset sl)) = entry_size (root_entry s d k)"
    "de_attr (get_dirent (sector_view d (ds_sector sl) b) (ds_offset sl)) = root_entry s d k 11"
proof -
  have n: "sector_view d (ds_sector sl) b (ds_offset sl + numeral w) = dbyte d (entry_base s k + numeral w)"
    if "numeral w < (32 :: nat)" for w
    using entry_in_sector [OF assms(1,2) that assms(3)] by simp
  show "first_cluster_low (get_dirent (sector_view d (ds_sector sl) b) (ds_offset sl)) = entry_cluster (root_entry s d k)"
    using ld16_entry [OF assms] by (simp add: get_dirent_def)
  show "file_size (get_dirent (sector_view d (ds_sector sl) b) (ds_offset sl)) = entry_size (root_entry s d k)"
    by (simp add: get_dirent_def ld32_def entry_size_def root_entry_byte add.assoc n)
  show "de_attr (get_dirent (sector_view d (ds_sector sl) b) (ds_offset sl)) = root_entry s d k 11"
    by (simp add: get_dirent_def root_entry_byte n)
qed

lemma fat_read_file_spec:
  assumes M: "mounted s m" and p: "root_path path t" and f: "file_at s t k cs" and v: "\<forall>c \<in> set cs. volume_cluster m c"
  shows "\<exists>s2. fat_read_file path dest s = Some (0, Some (entry_size (root_entries s k)),
    \<lambda>a. if in_range a 0 (length cs * (512 * spc s)) then chain_byte s (disk s) cs (unat a) else dest a, s2)"
proof -
  have k: "first_match t (root_entries s) (root_size s) k" "chain (table s) (entry_cluster (root_entries s k)) cs"
    using f by (auto simp: file_at_def)
  then have kN: "k < root_size s" by (simp add: first_match_def)
  define sl where "sl = slot_at (root_start s) k"
  obtain b where loc: "locate False no_slot path s = Some (Path_slot 0 (sl\<lparr>ds_exists := True\<rparr>) 0 t, s\<lparr>sector_buf := b\<rparr>)"
    using locate_root [OF M p, of False no_slot] k(1) by (auto simp: sl_def)
  let ?s2 = "s\<lparr>sector_buf := sector_view (disk s) (ds_sector sl) b\<rparr>"
  have M2: "mounted ?s2 m" using M by (intro same_volume_mounted [OF _ _ M]) (simp_all add: same_volume_def mounted_def)
  have "length cs * (512 * spc s) < 2 ^ 30" by (rule chain_size [OF M chain_distinct [OF k(2)] v])
  with read_chain_at [OF M2, of "entry_cluster (root_entries s k)" cs dest 0] k(2) v have
    rd: "read_chain (entry_cluster (root_entries s k)) dest 0 ?s2 = Some (0,
      \<lambda>a. if in_range a 0 (length cs * (512 * spc s)) then chain_byte s (disk s) cs (unat a) else dest a)"
    by (simp add: spc_def chain_byte_def cluster_base_def cong: if_cong)
  show ?thesis
    unfolding fat_read_file_def loc
    using read_entry_sec [OF M kN sl_def, of b] get_root_dirent [OF M kN sl_def, of "disk s" b] rd by (simp add: Let_def)
qed

section \<open>What a stored file leaves in the directory\<close>

lemma no_match_below_free:
  assumes "no_match t x n" "first_free x n k" "i < k"
  shows "\<not> entry_matches t (x i)"
proof
  assume "entry_matches t (x i)"
  define j where "j = (LEAST j. entry_matches t (x j))"
  have j: "entry_matches t (x j)" "j \<le> i" unfolding j_def
    using \<open>entry_matches t (x i)\<close> by (auto intro: LeastI Least_le)
  have "\<not> entry_matches t (x l) \<and> x l 0 \<noteq> 0" if "l < j" for l
  proof -
    have "\<not> entry_free (x l)" using that j(2) assms(2,3) by (simp add: first_free_def)
    with not_less_Least [of l "\<lambda>j. entry_matches t (x j)"] that show ?thesis by (simp add: j_def entry_free_def)
  qed
  with j assms(2,3) have "first_match t x n j" by (auto simp: first_match_def first_free_def)
  with assms(1) show False by (simp add: no_match_def)
qed

text \<open>The entry to be written is where the lookup of the name will end.\<close>

definition writable_slot :: "fat_state \<Rightarrow> u8 list \<Rightarrow> nat \<Rightarrow> bool" where
  "writable_slot s t k \<longleftrightarrow> first_match t (root_entries s) (root_size s) k
     \<or> no_file s t \<and> first_free (root_entries s) (root_size s) k"

lemma writable_slotD:
  assumes "writable_slot s t k"
  shows "k < root_size s" "i < k \<Longrightarrow> root_entries s i 0 \<noteq> 0 \<and> \<not> entry_matches t (root_entries s i)"
    "t2 \<noteq> t \<Longrightarrow> \<not> entry_matches t2 (root_entries s k)"
proof -
  show "k < root_size s" using assms by (auto simp: writable_slot_def first_match_def first_free_def)
  show "i < k \<Longrightarrow> root_entries s i 0 \<noteq> 0 \<and> \<not> entry_matches t (root_entries s i)"
    using assms no_match_below_free [of t "root_entries s" "root_size s" k i]
    by (auto simp: writable_slot_def first_match_def first_free_def no_file_def entry_free_def)
  show "t2 \<noteq> t \<Longrightarrow> \<not> entry_matches t2 (root_entries s k)"
    using assms by (auto simp: writable_slot_def first_match_def first_free_def entry_matches_def)
qed

lemma same_volume_entry: "same_volume s s' \<Longrightarrow> root_entry s' = root_entry s \<and> root_size s' = root_size s \<and> entry_base s' = entry_base s"
  by (auto simp: same_volume_def root_entry_def root_size_def entry_base_def fun_eq_iff)

lemma stored_entries:
  assumes M: "mounted s m" and F: "file_stored s m tab k t data sz cs s'" and i: "i < root_size s" "j < 32" and k: "k < root_size s"
  shows "root_entries s' i j = (if i = k then dirent_bytes (file_entry t 0x20 (if cs = [] then 0 else hd cs) sz) ! j
    else root_entries s i j)"
proof -
  have sv: "same_volume s s'" using F by (simp add: file_stored_def)
  have e: "root_entries s' i j = dbyte (disk s') (entry_base s i + j)"
    using same_volume_entry [OF sv] by (simp add: root_entry_byte)
  show ?thesis
  proof (cases "i = k")
    case True
    with e F i(2) show ?thesis by (simp add: file_stored_def)
  next
    case False
    have b: "entry_base s i + j < 512 * unat (data_start s)" using slot_at_place(5) [OF M i(1)] i(2) by linarith
    then have lim: "entry_base s i + j < disk_limit" using M by (auto simp: mounted_def)
    have "\<not> (entry_base s k \<le> entry_base s i + j \<and> entry_base s i + j < entry_base s k + 32)"
      using False i(2) unfolding entry_base_def by linarith
    moreover have "\<not> in_cluster s c (entry_base s i + j)" for c
      using b by (simp add: in_cluster_def cluster_base_def distrib_left)
    moreover have "512 * unat (root_start s) \<le> entry_base s i + j" by (simp add: entry_base_def)
    ultimately have "dbyte (disk s') (entry_base s i + j) = dbyte (disk s) (entry_base s i + j)"
      using F lim unfolding file_stored_def by blast
    with e False show ?thesis by (simp add: root_entry_byte)
  qed
qed

lemma file_entry_bytes:
  assumes "length t = 11" "\<And>j. j < 32 \<Longrightarrow> e j = dirent_bytes (file_entry t 0x20 c sz) ! j"
  shows "entry_cluster e = c" "entry_size e = sz" "e 0 = t ! 0" "entry_matches t2 e \<longleftrightarrow> t ! 0 \<notin> {0, 0xe5} \<and> t2 = t"
proof -
  have b: "e j = t ! j" if "j < 11" for j
    using assms that by (simp add: dirent_bytes_def nth_append)
  have n: "map e [0..<11] = t" using b assms(1) by (intro nth_equalityI) simp_all
  have "e 26 = ucast c" "e 27 = ucast (drop_bit 8 c)" "e 28 = ucast sz" "e 29 = ucast (drop_bit 8 sz)"
    "e 30 = ucast (drop_bit 16 sz)" "e 31 = ucast (drop_bit 24 sz)" "e 11 = 0x20"
    using assms by (simp_all add: dirent_bytes_def nth_append file_entry_def new_entry_def le16_def le32_def)
  note f = this
  show "entry_cluster e = c" by (simp add: entry_cluster_def f le16_join)
  show "entry_size e = sz" by (simp only: entry_size_def f le32_join)
  show "e 0 = t ! 0" using b by simp
  show "entry_matches t2 e \<longleftrightarrow> t ! 0 \<notin> {0, 0xe5} \<and> t2 = t"
    unfolding entry_matches_def entry_free_def n using b [of 0] f(7) by auto
qed

lemma stored_file_at:
  assumes M: "mounted s m" and F: "file_stored s m tab k t data sz cs s'" and w: "writable_slot s t k"
    and t: "length t = 11" "t ! 0 \<notin> {0, 0xe5}"
  shows "mounted s' m" "file_at s' t k cs" "entry_size (root_entries s' k) = sz" "\<forall>c \<in> set cs. volume_cluster m c"
proof -
  have sv: "same_volume s s'" "healthy (disk s')" using F by (auto simp: file_stored_def)
  show "mounted s' m" by (rule same_volume_mounted [OF sv M])
  note k = writable_slotD [OF w]
  note E = stored_entries [OF M F _ _ k(1)]
  have ek: "root_entries s' k j = dirent_bytes (file_entry t 0x20 (if cs = [] then 0 else hd cs) sz) ! j" if "j < 32" for j
    using E [OF k(1) that] by simp
  note fe = file_entry_bytes [of t "root_entries s' k", OF t(1) ek]
  have before: "root_entries s' i 0 \<noteq> 0 \<and> \<not> entry_matches t (root_entries s' i)" if "i < k" for i
  proof -
    have "\<forall>j < 12. root_entries s' i j = root_entries s i j" using E [of i] that k(1) by simp
    from entry_cong [OF this] k(2) [OF that] show ?thesis by simp
  qed
  have "first_match t (root_entries s') (root_size s') k"
    unfolding first_match_def using before fe(4) t(2) k(1) same_volume_entry [OF sv(1)] by simp
  moreover
  show v: "\<forall>c \<in> set cs. volume_cluster m c" using F free_volume_cluster by (auto simp: file_stored_def)
  have "chain (table s') (entry_cluster (root_entries s' k)) cs"
  proof (cases "cs = []")
    case True
    then show ?thesis by (simp add: fe(1) in_data_def)
  next
    case False
    have "\<forall>c \<in> set cs. in_data c" "0 \<notin> set cs" using v volume_clusterD(1,2) [OF M] by auto
    with link_chain [OF False, of 0 tab] F False show ?thesis by (simp add: fe(1) file_stored_def)
  qed
  ultimately show "file_at s' t k cs" by (simp add: file_at_def)
  show "entry_size (root_entries s' k) = sz" by (rule fe(2))
qed

lemma stored_keeps_file:
  assumes M: "mounted s m" and F: "file_stored s m (freed (table s) (set old)) k t data sz cs s'" and w: "writable_slot s t k"
    and t: "length t = 11" "t ! 0 \<notin> {0, 0xe5}"
    and f2: "t2 \<noteq> t" "file_at s t2 k2 cs2" "\<forall>c \<in> set cs2. volume_cluster m c \<and> table s c \<noteq> 0 \<and> c \<notin> set old"
  shows "file_at s' t2 k2 cs2" "entry_size (root_entries s' k2) = entry_size (root_entries s k2)"
    "i < length cs2 * (512 * spc s) \<Longrightarrow> chain_byte s (disk s') cs2 i = chain_byte s (disk s) cs2 i"
proof -
  have sv: "same_volume s s'" using F by (simp add: file_stored_def)
  have m2: "first_match t2 (root_entries s) (root_size s) k2" "chain (table s) (entry_cluster (root_entries s k2)) cs2"
    using f2(2) by (auto simp: file_at_def)
  then have k2: "k2 < root_size s" "entry_matches t2 (root_entries s k2)" by (auto simp: first_match_def)
  note k = writable_slotD [OF w]
  have ne: "k2 \<noteq> k" using k(3) [OF f2(1)] k2(2) by blast
  note E = stored_entries [OF M F _ _ k(1)]
  have other: "root_entries s' i j = root_entries s i j" if "i < root_size s" "i \<noteq> k" "j < 32" for i j
    using E [OF that(1,3)] that(2) by simp
  have ek: "root_entries s' k j = dirent_bytes (file_entry t 0x20 (if cs = [] then 0 else hd cs) sz) ! j" if "j < 32" for j
    using E [OF k(1) that] by simp
  note fe = file_entry_bytes [of t "root_entries s' k", OF t(1) ek]
  have keep: "root_entries s' i 0 = root_entries s i 0" "entry_matches t2 (root_entries s' i) = entry_matches t2 (root_entries s i)"
    if "i < root_size s" "i \<noteq> k" for i
    using entry_cong [of "root_entries s' i" "root_entries s i"] other [OF that] by simp_all
  have "root_entries s' i 0 \<noteq> 0 \<and> \<not> entry_matches t2 (root_entries s' i)" if "i < k2" for i
  proof (cases "i = k")
    case True
    then show ?thesis using fe(3,4) t(2) f2(1) by auto
  next
    case False
    with keep [of i] that k2(1) m2(1) show ?thesis by (simp add: first_match_def)
  qed
  then have fm: "first_match t2 (root_entries s') (root_size s') k2"
    using keep [OF k2(1) ne] k2 same_volume_entry [OF sv] by (simp add: first_match_def)
  have cl: "entry_cluster (root_entries s' k2) = entry_cluster (root_entries s k2)"
    using other [OF k2(1) ne] by (simp add: entry_cluster_def)
  have apart: "c \<notin> set cs" if "c \<in> set cs2" for c
    using f2(3) that F by (auto simp: file_stored_def free_clusters_def freed_def)
  have tab: "table s' c = table s c" if "c \<in> set cs2" for c
  proof -
    have "c \<noteq> 0" using f2(3) that volume_clusterD(1) [OF M] by blast
    with F apart [OF that] f2(3) that show ?thesis by (simp add: file_stored_def link_other freed_def)
  qed
  have "chain (table s') (entry_cluster (root_entries s' k2)) cs2"
    unfolding cl by (rule chain_cong [OF m2(2) tab])
  with fm show "file_at s' t2 k2 cs2" by (simp add: file_at_def)
  show "entry_size (root_entries s' k2) = entry_size (root_entries s k2)"
    using other [OF k2(1) ne] by (simp add: entry_size_def)
  show "chain_byte s (disk s') cs2 i = chain_byte s (disk s) cs2 i" if i: "i < length cs2 * (512 * spc s)"
  proof -
    let ?c = "cs2 ! (i div (512 * spc s))" and ?b = "cluster_base s (cs2 ! (i div (512 * spc s))) + i mod (512 * spc s)"
    have spc: "0 < spc s" using M by (simp add: mounted_def)
    have mem: "?c \<in> set cs2" using i spc by (simp add: div_less_iff_less_mult)
    then have v: "volume_cluster m ?c" using f2(3) by blast
    have b: "in_cluster s ?c ?b" using spc by (simp add: in_cluster_def)
    have lim: "?b < disk_limit" by (rule in_cluster_limit [OF M v b])
    have data: "512 * unat (data_start s) \<le> ?b" by (simp add: cluster_base_def distrib_left)
    with slot_at_place(5) [OF M k(1)] have 1: "\<not> (entry_base s k \<le> ?b \<and> ?b < entry_base s k + 32)" by linarith
    have "512 * unat (root_start s) \<le> 512 * unat (data_start s)" using M by (simp add: mounted_def)
    with data have 2: "512 * unat (root_start s) \<le> ?b" by linarith
    have 3: "\<forall>c \<in> set cs. \<not> in_cluster s c ?b"
    proof
      fix c assume c: "c \<in> set cs"
      then have "volume_cluster m c" using F free_volume_cluster by (auto simp: file_stored_def)
      with in_cluster_apart [OF M v _ b, of c] apart [OF mem] c show "\<not> in_cluster s c ?b" by blast
    qed
    show ?thesis unfolding chain_byte_def using F lim 1 2 3 by (simp add: file_stored_def)
  qed
qed

section \<open>Deleting a file\<close>

lemma existing_entry_root:
  assumes M: "mounted s m" and p: "root_path path t" and k: "first_match t (root_entries s) (root_size s) k"
    and sl: "sl = slot_at (root_start s) k"
  shows "\<exists>b. existing_entry path s = Some (Inr (Some (sl\<lparr>ds_exists := True\<rparr>)), s\<lparr>sector_buf := sector_view (disk s) (ds_sector sl) b\<rparr>)"
proof -
  obtain b where loc: "locate False no_slot path s = Some (Path_slot 0 (sl\<lparr>ds_exists := True\<rparr>) 0 t, s\<lparr>sector_buf := b\<rparr>)"
    using locate_root [OF M p, of False no_slot] k by (auto simp: sl)
  have kN: "k < root_size s" using k by (simp add: first_match_def)
  show ?thesis
    unfolding existing_entry_def loc using read_entry_sec [OF M kN sl, of b] by auto
qed

lemma existing_entry_none:
  assumes "mounted s m" "root_path path t" "no_file s t"
  shows "\<exists>s1. existing_entry path s = Some (Inl 2, s1)"
proof -
  from locate_root [OF assms(1,2), of False no_slot] assms(3) obtain b r sl where
    "locate False no_slot path s = Some (Path_slot r sl 0 t, s\<lparr>sector_buf := b\<rparr>)" "r \<noteq> 1" "\<not> ds_exists sl"
    unfolding no_file_def by (auto simp: slot_at_def no_slot_def)
  then show ?thesis by (auto simp: existing_entry_def)
qed

lemma fat_delete_file_spec:
  assumes M: "mounted s m" and p: "root_path path t" and f: "file_at s t k cs"
    and a: "root_entries s k 11 AND ATTR_DIRECTORY = 0"
  shows "\<exists>s'. fat_delete_file path s = Some (0, s') \<and> same_volume s s' \<and> healthy (disk s')
    \<and> table s' = freed (table s) (set cs)
    \<and> (\<forall>i < root_size s. \<forall>j < 32. root_entries s' i j = (if i = k \<and> j = 0 then 0xe5 else root_entries s i j))"
proof -
  have k: "first_match t (root_entries s) (root_size s) k" "chain (table s) (entry_cluster (root_entries s k)) cs"
    using f by (auto simp: file_at_def)
  then have kN: "k < root_size s" by (simp add: first_match_def)
  define sl where "sl = slot_at (root_start s) k"
  from existing_entry_root [OF M p k(1) sl_def] obtain b where
    ex: "existing_entry path s = Some (Inr (Some (sl\<lparr>ds_exists := True\<rparr>)), s\<lparr>sector_buf := sector_view (disk s) (ds_sector sl) b\<rparr>)" ..
  let ?s1 = "s\<lparr>sector_buf := sector_view (disk s) (ds_sector sl) b\<rparr>"
  note ge = get_root_dirent [OF M kN sl_def, of "disk s" b]
  from fat_free_chain_spec [of ?s1 "entry_cluster (root_entries s k)" cs] k(2) obtain fb where
    fr: "(if 2 \<le> entry_cluster (root_entries s k) then fat_free_chain (entry_cluster (root_entries s k)) ?s1 else Some ?s1)
      = Some (?s1\<lparr>fat_buf := fb\<rparr>)" "fat_next fb = freed (table s) (set cs)" by auto
  define s3 where "s3 = ?s1\<lparr>fat_buf := fb, sector_buf := (sector_view (disk s) (ds_sector sl) b)(ds_offset sl := 0xe5)\<rparr>"
  have h3: "healthy (disk s3)" using M by (simp add: s3_def mounted_def)
  have "sector_buf s3 x = sector_view (disk s3) (ds_sector sl) b x" if "\<not> in_range x (ds_offset sl) 32" for x
    using that by (auto simp: s3_def in_range_def)
  from write_entry_ok [OF M kN sl_def h3 this] obtain d where w: "write_sec (ds_sector sl) s3 = (0, s3\<lparr>disk := d\<rparr>)" "healthy d"
    "\<And>b. b < disk_limit \<Longrightarrow> dbyte d b = (if entry_base s k \<le> b \<and> b < entry_base s k + 32
       then sector_buf s3 (ds_offset sl + of_nat (b - entry_base s k)) else dbyte (disk s3) b)" by blast
  have sv3: "same_volume s (s3\<lparr>disk := d\<rparr>)" by (simp add: s3_def same_volume_def)
  have "mounted (s3\<lparr>disk := d\<rparr>) m" using same_volume_mounted [OF sv3 _ M] w(2) by simp
  from fat_flush_ok [OF this] obtain d' where fl: "fat_flush (s3\<lparr>disk := d\<rparr>) = (0, s3\<lparr>disk := d'\<rparr>)" "healthy d'"
    "\<And>b. b < disk_limit \<Longrightarrow> 512 * unat (root_start s) \<le> b \<Longrightarrow> dbyte d' b = dbyte d b"
    using sv3 by (auto simp: same_volume_def)
  have run: "fat_delete_file path s = Some (0, s3\<lparr>disk := d'\<rparr>)"
    unfolding fat_delete_file_def ex using ge fr(1) a w(1) fl(1)
    by (simp add: Let_def s3_def cong del: if_weak_cong option.case_cong_weak prod.case_cong_weak)
  have "root_entries (s3\<lparr>disk := d'\<rparr>) i j = (if i = k \<and> j = 0 then 0xe5 else root_entries s i j)"
    if "i < root_size s" "j < 32" for i j
  proof -
    let ?b = "entry_base s i + j"
    have lt: "?b < 512 * unat (data_start s)" using slot_at_place(5) [OF M that(1)] that(2) by linarith
    then have lim: "?b < disk_limit" using M by (auto simp: mounted_def)
    have e: "root_entries (s3\<lparr>disk := d'\<rparr>) i j = dbyte d ?b"
      using same_volume_entry [OF sv3] fl(3) [OF lim] by (simp add: root_entry_byte entry_base_def s3_def)
    show ?thesis
    proof (cases "i = k")
      case False
      then have "\<not> (entry_base s k \<le> ?b \<and> ?b < entry_base s k + 32)" using that(2) unfolding entry_base_def by linarith
      with e w(3) [OF lim] False show ?thesis by (simp add: s3_def root_entry_byte)
    next
      case True
      have j0: "(of_nat j :: u32) = 0 \<longleftrightarrow> j = 0" using of_nat_u32_eq [of j 0] that(2) by simp
      have "dbyte d ?b = (if j = 0 then 0xe5 else sector_view (disk s) (ds_sector sl) b (ds_offset sl + of_nat j))"
        using w(3) [OF lim] True that(2) j0 by (simp add: s3_def)
      then show ?thesis using entry_in_sector [OF M kN that(2) sl_def, of "disk s" b] e True by (simp add: root_entry_byte)
    qed
  qed
  moreover have "same_volume s (s3\<lparr>disk := d'\<rparr>)" by (simp add: s3_def same_volume_def)
  moreover have "table (s3\<lparr>disk := d'\<rparr>) = freed (table s) (set cs)" using fr(2) by (simp add: s3_def)
  ultimately show ?thesis using run fl(2) by (intro exI [of _ "s3\<lparr>disk := d'\<rparr>"]) simp
qed

section \<open>Properties\<close>

text \<open>
  C1. Writing a file to the root directory of a mounted volume always returns, replacing the file of
  that name if there is one. It fails with 2 exactly when the directory has no entry for it, with
  3 exactly when too few clusters are free once the old ones are released, and otherwise
  succeeds, and then \<^verbatim>\<open>fat_read_file\<close> on the new volume returns the size and the data.
\<close>

theorem fat_write_read_back:
  assumes "mounted s m" "root_path path t" "t ! 0 \<notin> {0, 0xe5}" "old_chain s t old"
  shows "\<exists>st s'. fat_write_file junk path data sz s = Some (st, s') \<and>
    (if no_file s t \<and> root_full s then st = 2
     else if card (free_clusters (freed (table s) (set old)) (unat m)) < clusters_for s (unat sz) then st = 3
     else st = 0 \<and> (\<exists>dest' s2. fat_read_file path dest s' = Some (0, Some sz, dest', s2)
       \<and> (\<forall>i < unat sz. dest' (of_nat i) = data (of_nat i))))"
proof -
  from fat_write_file_spec [OF assms(1,2,4), of junk data sz] obtain st s' where w: "fat_write_file junk path data sz s = Some (st, s')"
    and r: "if no_file s t \<and> root_full s then st = 2
     else if clusters_for s (unat sz) \<le> card (free_clusters (freed (table s) (set old)) (unat m))
     then st = 0 \<and> (\<exists>k cs. writable_slot s t k \<and> file_stored s m (freed (table s) (set old)) k t data sz cs s')
     else st = 3" unfolding writable_slot_def by blast
  have "\<exists>dest' s2. fat_read_file path dest s' = Some (0, Some sz, dest', s2) \<and> (\<forall>i < unat sz. dest' (of_nat i) = data (of_nat i))"
    if k: "writable_slot s t k" and F: "file_stored s m (freed (table s) (set old)) k t data sz cs s'" for k cs
  proof -
    note S = stored_file_at [OF assms(1) F k root_path_length [OF assms(2)] assms(3)]
    have sv: "same_volume s s'" using F by (simp add: file_stored_def)
    have cb: "chain_byte s' = chain_byte s" "spc s' = spc s"
      using same_volume_geometry [OF sv] by (simp_all add: chain_byte_def fun_eq_iff)
    obtain s2 where rd: "fat_read_file path dest s' = Some (0, Some sz,
      \<lambda>a. if in_range a 0 (length cs * (512 * spc s)) then chain_byte s (disk s') cs (unat a) else dest a, s2)"
      using fat_read_file_spec [OF S(1) assms(2) S(2) S(4), of dest] unfolding S(3) cb by blast
    have "unat sz \<le> length cs * (512 * spc s)"
      using F clusters_for_enough [of s "unat sz"] assms(1) by (simp add: file_stored_def mounted_def)
    moreover have "unat (of_nat i :: u32) = i" if "i < unat sz" for i using that u32_less [of sz] by simp
    moreover have "\<forall>i < unat sz. chain_byte s (disk s') cs i = data (of_nat i)" using F by (simp add: file_stored_def)
    ultimately show ?thesis using rd by (simp add: in_range_def)
  qed
  with w r show ?thesis by (auto split: if_splits simp: not_less)
qed

lemma example_mounted: "mounted fat_example 42"
  by (simp add: mounted_def healthy_def disk_example_def fat_example_def bpb_example_def spc_def fat_total_clusters_def lba_limit_def)

lemma example_empty: "no_file fat_example t" "\<not> root_full fat_example" "table fat_example c = 0"
  by (simp_all add: no_file_def no_match_def first_match_def root_full_def root_entry_byte entry_matches_def entry_free_def
    dbyte_def fat_example_def disk_example_def root_size_def fat_next_def exI [of _ 0])

lemma example_path: "root_path [47, 97] (to_fat_name [97])" "root_path [98] (to_fat_name [98])"
  "to_fat_name [97] ! 0 = 65" "to_fat_name [98] ! 0 = 66"
  by (simp_all add: root_path_def split_next_def to_fat_name_def pad_def to_upper_def)

lemma example_entry: "root_entries fat_example i j = 0"
  by (simp add: root_entry_byte dbyte_def fat_example_def disk_example_def)

lemma example_space:
  "clusters_for fat_example (unat (600 :: u32)) \<le> card (free_clusters (freed (table fat_example) (set [])) (unat (42 :: u32)))"
proof -
  have "card {2 :: u16, 3} \<le> card (free_clusters (freed (table fat_example) (set [])) (unat (42 :: u32)))"
    by (rule card_mono) (auto simp: free_clusters_def example_empty)
  then show ?thesis by (simp add: clusters_for_def spc_def fat_example_def bpb_example_def)
qed

lemma example_file:
  obtains s1 k cs where "fat_write_file no_slot [47, 97] (\<lambda>_. 7) 600 fat_example = Some (0, s1)"
    "writable_slot fat_example (to_fat_name [97]) k"
    "file_stored fat_example 42 (table fat_example) k (to_fat_name [97]) (\<lambda>_. 7) 600 cs s1"
proof -
  have "old_chain fat_example (to_fat_name [97]) []" by (simp add: old_chain_def example_empty)
  from fat_write_file_spec [OF example_mounted example_path(1) this, of no_slot "\<lambda>_. 7" 600] example_space that show thesis
    unfolding writable_slot_def by (auto simp: example_empty)
qed

lemma fat_write_read_back_witness:
  "\<exists>s' d s2. fat_write_file no_slot [47, 97] (\<lambda>a. ucast a) 600 fat_example = Some (0, s')
    \<and> fat_read_file [47, 97] (\<lambda>_. 0) s' = Some (0, Some 600, d, s2) \<and> d 599 = ucast (599 :: u32)"
proof -
  have "clusters_for fat_example (unat (600 :: u32)) \<le> card (free_clusters (freed (table fat_example) (set [])) (unat (42 :: u32)))"
    by (rule example_space)
  moreover have "old_chain fat_example (to_fat_name [97]) []" by (simp add: old_chain_def example_empty)
  ultimately obtain s' d s2 where "fat_write_file no_slot [47, 97] (\<lambda>a. ucast a) 600 fat_example = Some (0, s')"
    "fat_read_file [47, 97] (\<lambda>_. 0) s' = Some (0, Some 600, d, s2)"
    and d: "\<forall>i < unat (600 :: u32). d (of_nat i) = ucast (of_nat i :: u32)"
    using fat_write_read_back [OF example_mounted example_path(1), of "[]" no_slot "\<lambda>a. ucast a" 600 "\<lambda>_. 0"]
    by (auto simp: example_empty example_path)
  moreover have "d 599 = ucast (599 :: u32)" using d [rule_format, of 599] by simp
  ultimately show ?thesis by blast
qed

text \<open>
  C4. Writing a file leaves the other files of the directory as they were: whatever
  \<^verbatim>\<open>fat_read_file\<close> returned for a file whose clusters are in use, and not shared with the file
  that is replaced, it returns again after the write.
\<close>

theorem fat_write_keeps_others:
  assumes "mounted s m" "root_path path t" "t ! 0 \<notin> {0, 0xe5}" "old_chain s t old"
    and "fat_write_file junk path data sz s = Some (0, s')"
    and "root_path path2 t2" "t2 \<noteq> t" "file_at s t2 k2 cs2"
    and "\<forall>c \<in> set cs2. volume_cluster m c \<and> table s c \<noteq> 0 \<and> c \<notin> set old"
  shows "\<exists>sz2 dest2 s2 s3. fat_read_file path2 dest s = Some (0, Some sz2, dest2, s2)
    \<and> fat_read_file path2 dest s' = Some (0, Some sz2, dest2, s3)"
proof -
  from fat_write_file_spec [OF assms(1,2,4), of junk data sz] assms(5) obtain k cs where w: "writable_slot s t k"
    and F: "file_stored s m (freed (table s) (set old)) k t data sz cs s'"
    unfolding writable_slot_def by (auto split: if_splits)
  note K = stored_keeps_file [OF assms(1) F w root_path_length [OF assms(2)] assms(3,7-9)]
  note M' = stored_file_at(1) [OF assms(1) F w root_path_length [OF assms(2)] assms(3)]
  have v: "\<forall>c \<in> set cs2. volume_cluster m c" using assms(9) by blast
  have sv: "same_volume s s'" using F by (simp add: file_stored_def)
  have cb: "chain_byte s' = chain_byte s" "spc s' = spc s"
    using same_volume_geometry [OF sv] by (simp_all add: chain_byte_def fun_eq_iff)
  obtain s2 where 1: "fat_read_file path2 dest s = Some (0, Some (entry_size (root_entries s k2)),
    \<lambda>a. if in_range a 0 (length cs2 * (512 * spc s)) then chain_byte s (disk s) cs2 (unat a) else dest a, s2)"
    using fat_read_file_spec [OF assms(1,6,8) v] by blast
  obtain s3 where 2: "fat_read_file path2 dest s' = Some (0, Some (entry_size (root_entries s k2)),
    \<lambda>a. if in_range a 0 (length cs2 * (512 * spc s)) then chain_byte s (disk s') cs2 (unat a) else dest a, s3)"
    using fat_read_file_spec [OF M' assms(6) K(1) v, of dest] unfolding K(2) cb by blast
  have "(\<lambda>a. if in_range a 0 (length cs2 * (512 * spc s)) then chain_byte s (disk s') cs2 (unat a) else dest a) =
    (\<lambda>a. if in_range a 0 (length cs2 * (512 * spc s)) then chain_byte s (disk s) cs2 (unat a) else dest a)"
    using K(3) by (auto simp: in_range_def)
  with 1 2 show ?thesis by auto
qed

lemma example_two_files:
  obtains s1 s2 k cs where "fat_write_file no_slot [47, 97] (\<lambda>_. 7) 600 fat_example = Some (0, s1)" "mounted s1 42"
    "file_at s1 (to_fat_name [97]) k cs" "\<forall>c \<in> set cs. volume_cluster 42 c \<and> table s1 c \<noteq> 0"
    "no_file s1 (to_fat_name [98])" "fat_write_file no_slot [98] (\<lambda>_. 8) 9 s1 = Some (0, s2)"
proof -
  let ?ta = "to_fat_name [97]" and ?tb = "to_fat_name [98]"
  from example_file obtain s1 k cs where
    w1: "fat_write_file no_slot [47, 97] (\<lambda>_. 7) 600 fat_example = Some (0, s1)"
    and k: "writable_slot fat_example ?ta k"
    and F: "file_stored fat_example 42 (table fat_example) k ?ta (\<lambda>_. 7) 600 cs s1" .
  have t1: "?ta ! 0 \<notin> {0, 0xe5}" by (simp add: example_path)
  have ne: "?tb \<noteq> ?ta"
  proof
    assume "?tb = ?ta"
    then have "?tb ! 0 = ?ta ! 0" by (rule arg_cong)
    then show False by (simp add: example_path(3,4))
  qed
  note S = stored_file_at [OF example_mounted F k to_fat_name_length t1]
  have nz: "table s1 c \<noteq> 0" if "c \<in> set cs" for c
  proof -
    have cs: "cs \<noteq> []" "distinct cs" "0 \<notin> set cs" "table s1 = link (table fat_example) 0 cs"
      using F that volume_clusterD(1) [OF example_mounted] S(4) by (auto simp: file_stored_def)
    have "chain (table s1) (hd cs) cs" "table s1 (last cs) = 0x0fff"
      using link_chain [OF cs(1,2), of 0 "table fat_example"] link_last [OF cs(1,2), of 0 "table fat_example"] cs(3,4)
        volume_clusterD(2) [OF example_mounted] S(4) by auto
    then show ?thesis using that
    proof (induction cs arbitrary: c rule: list.induct)
      case (Cons x xs)
      then show ?case by (cases xs) (auto simp: in_data_def)
    qed simp
  qed
  have v: "\<forall>c \<in> set cs. volume_cluster 42 c \<and> table s1 c \<noteq> 0" using nz S(4) by blast
  have sv: "same_volume fat_example s1" using F by (simp add: file_stored_def)
  note kN = writable_slotD(1) [OF k]
  note E = stored_entries [OF example_mounted F _ _ kN]
  have size: "root_size s1 = 16" using same_volume_entry [OF sv] by (simp add: root_size_def fat_example_def)
  have size0: "root_size fat_example = 16" by (simp add: root_size_def fat_example_def)
  note e0 = example_entry
  have "\<not> entry_matches ?tb (root_entries s1 i)" if "i < 16" for i
  proof (cases "i = k")
    case True
    have "root_entries s1 k j = dirent_bytes (file_entry ?ta 0x20 (if cs = [] then 0 else hd cs) 600) ! j" if "j < 32" for j
      using E [OF kN that] by simp
    from file_entry_bytes(4) [of ?ta "root_entries s1 k", OF to_fat_name_length this, of ?tb] True ne show ?thesis
      by simp
  next
    case False
    then show ?thesis using E [of i 0] that e0 by (simp add: entry_matches_def entry_free_def size0)
  qed
  then have nf: "no_file s1 ?tb" by (auto simp: no_file_def no_match_def first_match_def size)
  have nfull: "\<not> root_full s1"
  proof -
    have "\<exists>i < 16. i \<noteq> k" by (rule exI [of _ "if k = 0 then 1 else 0"]) simp
    then obtain i where i: "i < 16" "i \<noteq> k" by blast
    then have "entry_free (root_entries s1 i)" using E [of i 0] e0 by (simp add: entry_free_def size0)
    with i(1) show ?thesis by (auto simp: root_full_def size)
  qed
  have "length cs = 2" using F by (simp add: file_stored_def clusters_for_def spc_def fat_example_def bpb_example_def)
  then have "card (set cs) \<le> 2" using card_length [of cs] by simp
  moreover have "card {2 :: u16, 3, 4} \<le> card (set cs)" if "{2, 3, 4} \<subseteq> set cs" using that by (intro card_mono) simp_all
  moreover have "card {2 :: u16, 3, 4} = 3" by simp
  ultimately have "\<not> {2, 3, 4} \<subseteq> set cs" by linarith
  then obtain c where c: "c \<in> {2 :: u16, 3, 4}" "c \<notin> set cs" by blast
  have "table s1 c = 0" using F c by (auto simp: file_stored_def link_other example_empty)
  with c(1) have "c \<in> free_clusters (table s1) (unat (42 :: u32))" by (auto simp: free_clusters_def)
  then have "1 \<le> card (free_clusters (table s1) (unat (42 :: u32)))" by (simp add: card_gt_0_iff Suc_le_eq) auto
  moreover have "clusters_for s1 9 = 1" using same_volume_geometry(1) [OF sv]
    by (simp add: clusters_for_def) (simp add: spc_def fat_example_def bpb_example_def)
  moreover have "old_chain s1 ?tb []" using nf by (simp add: old_chain_def)
  from fat_write_file_spec [OF S(1) example_path(2) this, of no_slot "\<lambda>_. 8" 9] nfull obtain st s2 where
    "fat_write_file no_slot [98] (\<lambda>_. 8) 9 s1 = Some (st, s2)"
    "clusters_for s1 (unat (9 :: u32)) \<le> card (free_clusters (freed (table s1) (set [])) (unat (42 :: u32))) \<Longrightarrow> st = 0"
    by (auto split: if_splits)
  ultimately have w2: "fat_write_file no_slot [98] (\<lambda>_. 8) 9 s1 = Some (0, s2)" by simp
  show thesis by (rule that [OF w1 S(1,2) v nf w2])
qed

lemma fat_write_keeps_others_witness:
  "\<exists>s1 s2 sz d s3 s4. fat_write_file no_slot [47, 97] (\<lambda>_. 7) 600 fat_example = Some (0, s1)
    \<and> fat_write_file no_slot [98] (\<lambda>_. 8) 9 s1 = Some (0, s2)
    \<and> fat_read_file [47, 97] (\<lambda>_. 0) s1 = Some (0, Some sz, d, s3) \<and> fat_read_file [47, 97] (\<lambda>_. 0) s2 = Some (0, Some sz, d, s4)"
proof (rule example_two_files)
  fix s1 s2 k cs
  assume a: "fat_write_file no_slot [47, 97] (\<lambda>_. 7) 600 fat_example = Some (0, s1)" "mounted s1 42"
    "file_at s1 (to_fat_name [97]) k cs" "\<forall>c \<in> set cs. volume_cluster 42 c \<and> table s1 c \<noteq> 0"
    "no_file s1 (to_fat_name [98])" "fat_write_file no_slot [98] (\<lambda>_. 8) 9 s1 = Some (0, s2)"
  have "to_fat_name [97] \<noteq> to_fat_name [98]"
  proof
    assume "to_fat_name [97] = to_fat_name [98]"
    then have "to_fat_name [97] ! 0 = to_fat_name [98] ! 0" by (rule arg_cong)
    then show False by (simp add: example_path(3,4))
  qed
  with fat_write_keeps_others [OF a(2) example_path(2) _ _ a(6) example_path(1) _ a(3), of "[]" "\<lambda>_. 0"] a
  show ?thesis by (auto simp: example_path old_chain_def)
qed



end
