(* ===== verification/Process.thy ===== *)
theory Process
  imports Paging
begin

text \<open>
  Processes and the scheduler: \<^verbatim>\<open>src/src/multi/process.h\<close>, \<^verbatim>\<open>src/src/multi/scheduler.c\<close> and the
  list operations of \<^verbatim>\<open>src/src/multi/process.c\<close>. Process structures live in a store from
  addresses to records; they are linked through \<open>p_next\<close>, with 0 for \<^verbatim>\<open>NULL\<close>. The names in a
  process are the lists of their characters.

  \<open>schedule\<close> ends with \<^verbatim>\<open>context_switch\<close>, which is assembly: the model stops where the other
  process starts to run, with its directory and kernel stack loaded.
\<close>

section \<open>Process structures\<close>

datatype proc_state = PROC_READY | PROC_RUNNING | PROC_BLOCKED | PROC_DEAD

datatype proc_block = PROC_PID | PROC_INPUT | PROC_SLEEP | PROC_NONE

record dir_handle =
  dh_cluster :: u16
  dh_index :: u32
  dh_in_use :: bool

record process =
  p_pid :: u32
  p_ppid :: u32
  p_target_pid :: u32
  p_pd_phys :: u32
  p_esp0 :: u32
  p_kstack :: u32
  p_entry_point :: u32
  p_user_stack_top :: u32
  p_saved_esp :: u32
  p_heap_start :: u32
  p_heap_break :: u32
  p_heap_max :: u32
  p_resume_tick :: u32
  p_fds :: "nat \<Rightarrow> int"
  p_dirs :: "nat \<Rightarrow> dir_handle"
  p_exit_code :: u32
  p_state :: proc_state
  p_block :: proc_block
  p_name :: "u8 list"
  p_cwd :: "u8 list"
  p_cleaned_up :: bool
  p_next :: u32

abbreviation MAX_FDS_PER_PROC :: nat where "MAX_FDS_PER_PROC \<equiv> 16"
abbreviation MAX_DIRS_PER_PROC :: nat where "MAX_DIRS_PER_PROC \<equiv> 8"
abbreviation NO_PID :: u32 where "NO_PID \<equiv> - 1"

record sched_state =
  procs :: "u32 \<Rightarrow> process"
  proc_list :: u32
  curr_proc :: u32
  idle_proc :: u32
  scheduler_ready :: bool
  tss_esp0 :: u32
  vm :: vm_state

definition upd_proc :: "u32 \<Rightarrow> (process \<Rightarrow> process) \<Rightarrow> 'a sched_state_scheme \<Rightarrow> 'a sched_state_scheme" where
  "upd_proc p f s = s\<lparr>procs := (procs s)(p := f (procs s p))\<rparr>"

definition set_state :: "u32 \<Rightarrow> proc_state \<Rightarrow> 'a sched_state_scheme \<Rightarrow> 'a sched_state_scheme" where
  "set_state p st s = upd_proc p (p_state_update (\<lambda>_. st)) s"

section \<open>The scheduler\<close>

definition scheduler_add :: "u32 \<Rightarrow> 'a sched_state_scheme \<Rightarrow> 'a sched_state_scheme" where
  "scheduler_add p s = (upd_proc p (p_next_update (\<lambda>_. proc_list s)) s)\<lparr>proc_list := p\<rparr>"

text \<open>The successor of a process in the ring that \<^verbatim>\<open>pick_next\<close> walks.\<close>

definition ring_next :: "'a sched_state_scheme \<Rightarrow> u32 \<Rightarrow> u32" where
  "ring_next s p = (if p_next (procs s p) \<noteq> 0 then p_next (procs s p) else proc_list s)"

text \<open>The loop of \<^verbatim>\<open>pick_next\<close>: the process found, or 0 when it runs out.\<close>

partial_function (option) pick_loop :: "u32 \<Rightarrow> u32 \<Rightarrow> 'a sched_state_scheme \<Rightarrow> u32 option" where
  "pick_loop start p s =
     (if p = 0 then Some 0
      else if p_state (procs s p) = PROC_READY then Some p
      else (let p' = ring_next s p in if p' = start then Some 0 else pick_loop start p' s))"

definition pick_next :: "'a sched_state_scheme \<Rightarrow> u32 option" where
  "pick_next s =
     (if curr_proc s = 0 then Some (if proc_list s \<noteq> 0 then proc_list s else idle_proc s)
      else (let start = ring_next s (curr_proc s) in
            case pick_loop start start s of None \<Rightarrow> None
            | Some p \<Rightarrow> if p \<noteq> 0 then Some p else if idle_proc s = 0 then None else Some (idle_proc s)))"

definition load_proc :: "u32 \<Rightarrow> 'a sched_state_scheme \<Rightarrow> 'a sched_state_scheme" where
  "load_proc p s = s\<lparr>tss_esp0 := p_esp0 (procs s p), vm := paging_switch_directory (p_pd_phys (procs s p)) (vm s)\<rparr>"

definition schedule :: "'a sched_state_scheme \<Rightarrow> 'a sched_state_scheme option" where
  "schedule s =
     (if \<not> scheduler_ready s then Some s
      else case pick_next s of None \<Rightarrow> None
      | Some nxt \<Rightarrow>
          (let prev = curr_proc s in
           if nxt = prev then Some s
           else (let s1 = (if prev \<noteq> 0 \<and> p_state (procs s prev) = PROC_RUNNING then set_state prev PROC_READY s else s);
                     s2 = set_state nxt PROC_RUNNING (s1\<lparr>curr_proc := nxt\<rparr>)
                 in Some (load_proc nxt s2))))"

definition process_run :: "u32 \<Rightarrow> 'a sched_state_scheme \<Rightarrow> 'a sched_state_scheme" where
  "process_run p s = load_proc p (set_state p PROC_RUNNING (s\<lparr>curr_proc := p\<rparr>))"

section \<open>The list of processes\<close>

partial_function (option) find_loop :: "u32 \<Rightarrow> u32 \<Rightarrow> 'a sched_state_scheme \<Rightarrow> u32 option" where
  "find_loop pid p s =
     (if p = 0 then Some 0 else if p_pid (procs s p) = pid then Some p else find_loop pid (p_next (procs s p)) s)"

definition process_find :: "u32 \<Rightarrow> 'a sched_state_scheme \<Rightarrow> u32 option" where
  "process_find pid s = find_loop pid (proc_list s) s"

partial_function (option) unlink_loop :: "u32 \<Rightarrow> u32 \<Rightarrow> 'a sched_state_scheme \<Rightarrow> 'a sched_state_scheme option" where
  "unlink_loop proc p s =
     (if p = 0 then Some s
      else if p_next (procs s p) = proc then Some (upd_proc p (p_next_update (\<lambda>_. p_next (procs s proc))) s)
      else unlink_loop proc (p_next (procs s p)) s)"

definition proc_unlink :: "u32 \<Rightarrow> 'a sched_state_scheme \<Rightarrow> 'a sched_state_scheme option" where
  "proc_unlink proc s =
     (if proc_list s = proc then Some (s\<lparr>proc_list := p_next (procs s proc)\<rparr>) else unlink_loop proc (proc_list s) s)"

text \<open>\<^verbatim>\<open>for (process_t *proc = proc_list; proc != NULL; proc = proc->next)\<close> over a body.\<close>

partial_function (option) for_procs ::
    "(u32 \<Rightarrow> 'a sched_state_scheme \<Rightarrow> 'a sched_state_scheme option) \<Rightarrow> u32 \<Rightarrow> 'a sched_state_scheme \<Rightarrow> 'a sched_state_scheme option" where
  "for_procs body p s =
     (if p = 0 then Some s
      else case body p s of None \<Rightarrow> None | Some s1 \<Rightarrow> for_procs body (p_next (procs s1 p)) s1)"

text \<open>The loop over the waiting processes when a process ends, in \<^verbatim>\<open>SYS_EXIT\<close> and \<^verbatim>\<open>SYS_KILL\<close>.\<close>

definition wake_waiter :: "u32 \<Rightarrow> u32 \<Rightarrow> 'a sched_state_scheme \<Rightarrow> 'a sched_state_scheme option" where
  "wake_waiter pid p s =
     (if p_state (procs s p) \<noteq> PROC_BLOCKED \<or> p_block (procs s p) \<noteq> PROC_PID then Some s
      else if p_target_pid (procs s p) \<noteq> pid then Some s
      else Some (upd_proc p (\<lambda>x. x\<lparr>p_state := PROC_READY, p_block := PROC_NONE, p_target_pid := NO_PID\<rparr>) s))"

definition wake_waiters :: "u32 \<Rightarrow> 'a sched_state_scheme \<Rightarrow> 'a sched_state_scheme option" where
  "wake_waiters pid s = for_procs (wake_waiter pid) (proc_list s) s"

section \<open>Names\<close>

text \<open>The part of a path after its last slash.\<close>

fun base_loop :: "u8 list \<Rightarrow> u8 list \<Rightarrow> u8 list" where
  "base_loop base [] = base"
| "base_loop base (c # cs) = base_loop (if c = 47 then cs else base) cs"

definition set_proc_name :: "u8 list \<Rightarrow> process \<Rightarrow> process" where
  "set_proc_name path x = x\<lparr>p_name := take 31 (base_loop path path)\<rparr>"

text \<open>\<open>None\<close> is \<^verbatim>\<open>NULL\<close>.\<close>

definition set_proc_cwd :: "u8 list option \<Rightarrow> process \<Rightarrow> process" where
  "set_proc_cwd cwd x =
     (case cwd of None \<Rightarrow> x\<lparr>p_cwd := [47]\<rparr>
      | Some c \<Rightarrow> if c = [] then x\<lparr>p_cwd := [47]\<rparr> else x\<lparr>p_cwd := take 127 c\<rparr>)"

end
