(* ===== verification/Scheduler.thy ===== *)
theory Scheduler
  imports Process
begin

text \<open>
  The scheduler as a round robin over the list of processes: the process that \<^verbatim>\<open>pick_next\<close>
  returns, the invariant that \<^verbatim>\<open>schedule\<close> and the events between its calls keep, and the
  bound on the wait of a ready process.
\<close>

section \<open>The linked list\<close>

fun plist :: "(u32 \<Rightarrow> process) \<Rightarrow> u32 \<Rightarrow> u32 list \<Rightarrow> bool" where
  "plist P p [] \<longleftrightarrow> p = 0"
| "plist P p (x # xs) \<longleftrightarrow> p = x \<and> p \<noteq> 0 \<and> plist P (p_next (P p)) xs"

lemma plist_unique: "plist P p xs \<Longrightarrow> plist P p ys \<Longrightarrow> xs = ys"
proof (induction xs arbitrary: p ys)
  case Nil
  then show ?case by (cases ys) auto
next
  case (Cons x xs)
  then show ?case by (cases ys) auto
qed

lemma plist_cong: "(\<And>x. x \<in> set xs \<Longrightarrow> p_next (Q x) = p_next (P x)) \<Longrightarrow> plist Q p xs = plist P p xs"
  by (induction xs arbitrary: p) auto

lemma plist_zero: "plist P p xs \<Longrightarrow> 0 \<notin> set xs"
  by (induction xs arbitrary: p) auto

lemma plist_suffix: "plist P p (xs @ y # ys) \<Longrightarrow> plist P y (y # ys)"
  by (induction xs arbitrary: p) auto

lemma plist_distinct: "plist P p xs \<Longrightarrow> distinct xs"
proof (induction xs arbitrary: p)
  case (Cons x xs)
  have "x \<notin> set xs"
  proof
    assume "x \<in> set xs"
    then obtain ys zs where e: "xs = ys @ x # zs" by (meson split_list)
    with Cons.prems have "plist P p ((x # ys) @ x # zs)" by auto
    then have "plist P x (x # zs)" by (rule plist_suffix)
    moreover have "plist P x (x # xs)" using Cons.prems by auto
    ultimately have "x # zs = x # xs" by (rule plist_unique)
    with e show False by simp
  qed
  with Cons show ?case by auto
qed simp

lemma plist_nth:
  assumes "plist P p xs" "i < length xs"
  shows "p_next (P (xs ! i)) = (if Suc i < length xs then xs ! Suc i else 0)"
  using assms
proof (induction xs arbitrary: p i)
  case (Cons x xs)
  then show ?case
    by (cases i; cases xs) auto
qed simp

lemma plist_hd: "plist P p xs \<Longrightarrow> xs \<noteq> [] \<Longrightarrow> p = xs ! 0"
  by (cases xs) auto

text \<open>The walk of \<^verbatim>\<open>pick_next\<close> goes around the list.\<close>

lemma ring_next_nth:
  assumes "plist (procs s) (proc_list s) ps" "i < length ps"
  shows "ring_next s (ps ! i) = ps ! (Suc i mod length ps)"
proof -
  have nz: "ps ! Suc i \<noteq> 0" if "Suc i < length ps" using plist_zero [OF assms(1)] nth_mem [OF that] by auto
  show ?thesis
  proof (cases "Suc i < length ps")
    case True
    then show ?thesis using plist_nth [OF assms] nz by (simp add: ring_next_def)
  next
    case False
    with assms(2) have "Suc i = length ps" by simp
    then show ?thesis
      using plist_nth [OF assms] plist_hd [OF assms(1)] assms(2) by (cases "ps = []") (auto simp: ring_next_def)
  qed
qed

definition ready :: "'a sched_state_scheme \<Rightarrow> u32 \<Rightarrow> bool" where
  "ready s p \<longleftrightarrow> p_state (procs s p) = PROC_READY"

lemma pick_loop_ring:
  assumes P: "plist (procs s) (proc_list s) ps" and k: "e < length ps" and start: "start = ps ! (k mod length ps)"
  shows "pick_loop start (ps ! ((k + e) mod length ps)) s =
    Some (case find (ready s) (map (\<lambda>d. ps ! ((k + d) mod length ps)) [e..<length ps]) of None \<Rightarrow> 0 | Some q \<Rightarrow> q)"
  using k
proof (induction "length ps - e" arbitrary: e)
  case 0
  then show ?case by simp
next
  case (Suc n)
  let ?n = "length ps" and ?q = "ps ! ((k + e) mod length ps)"
  have n0: "0 < ?n" "e < ?n" using Suc.prems by auto
  have i: "(k + e) mod ?n < ?n" using n0 by simp
  have nz: "?q \<noteq> 0" using plist_zero [OF P] nth_mem [OF i] by auto
  have upt: "[e..<?n] = e # [Suc e..<?n]" using n0 by (simp add: upt_conv_Cons)
  show ?case
  proof (cases "ready s ?q")
    case True
    then show ?thesis using nz by (subst pick_loop.simps) (simp add: upt ready_def)
  next
    case False
    have nx: "ring_next s ?q = ps ! ((k + Suc e) mod ?n)"
      using ring_next_nth [OF P i] by (simp add: mod_Suc_eq)
    show ?thesis
    proof (cases "Suc e < ?n")
      case True
      have "ps ! ((k + Suc e) mod ?n) \<noteq> start"
      proof
        assume "ps ! ((k + Suc e) mod ?n) = start"
        then have "(k + Suc e) mod ?n = k mod ?n"
          unfolding start using plist_distinct [OF P] n0 by (simp add: nth_eq_iff_index_eq)
        then have "?n dvd Suc e" using mod_eq_dvd_iff_nat [of k "k + Suc e" ?n] by simp
        with True show False by (auto dest: dvd_imp_le)
      qed
      then have "pick_loop start ?q s = pick_loop start (ps ! ((k + Suc e) mod ?n)) s"
        using False nz by (subst pick_loop.simps) (simp add: nx ready_def)
      also have "\<dots> = Some (case find (ready s) (map (\<lambda>d. ps ! ((k + d) mod ?n)) [Suc e..<?n]) of None \<Rightarrow> 0 | Some q \<Rightarrow> q)"
        using Suc.hyps(2) True by (intro Suc.hyps(1)) simp_all
      finally show ?thesis using False by (simp add: upt)
    next
      case last: False
      with n0 have "Suc e = ?n" by simp
      then have "ring_next s ?q = start" by (simp add: nx start)
      then show ?thesis using False nz last by (subst pick_loop.simps) (simp add: upt ready_def)
    qed
  qed
qed

text \<open>
  The order in which \<^verbatim>\<open>pick_next\<close> considers the processes: from the one after the current
  process around to the current one, or from the head when the current one is not in the list.
\<close>

definition ring_pos :: "'a sched_state_scheme \<Rightarrow> u32 list \<Rightarrow> nat" where
  "ring_pos s ps = (if curr_proc s \<in> set ps then Suc (length (takeWhile (\<lambda>x. x \<noteq> curr_proc s) ps)) else 0)"

definition ring :: "'a sched_state_scheme \<Rightarrow> u32 list \<Rightarrow> u32 list" where
  "ring s ps = rotate (ring_pos s ps) ps"

lemma ring_nth: "d < length ps \<Longrightarrow> ring s ps ! d = ps ! ((ring_pos s ps + d) mod length ps)"
  by (simp add: ring_def nth_rotate)

lemma ring_map: "map (\<lambda>d. ps ! ((ring_pos s ps + d) mod length ps)) [0..<length ps] = ring s ps"
  by (rule nth_equalityI) (simp_all add: ring_def nth_rotate)

lemma set_ring [simp]: "set (ring s ps) = set ps" "length (ring s ps) = length ps"
  by (simp_all add: ring_def)

text \<open>The list of processes, a current process, and the idle process outside the list.\<close>

definition sched_list :: "'a sched_state_scheme \<Rightarrow> u32 list \<Rightarrow> bool" where
  "sched_list s ps \<longleftrightarrow> plist (procs s) (proc_list s) ps \<and> idle_proc s \<noteq> 0 \<and> idle_proc s \<notin> set ps
     \<and> p_next (procs s (idle_proc s)) = 0 \<and> (curr_proc s \<in> set ps \<or> curr_proc s = idle_proc s) \<and> scheduler_ready s"

lemma ring_start:
  assumes "sched_list s ps"
  shows "ring_next s (curr_proc s) = (if ps = [] then 0 else ps ! (ring_pos s ps mod length ps))"
proof (cases "curr_proc s \<in> set ps")
  case True
  let ?i = "length (takeWhile (\<lambda>x. x \<noteq> curr_proc s) ps)"
  obtain ys zs where e: "ps = ys @ curr_proc s # zs" "curr_proc s \<notin> set ys" using split_list_first [OF True] by blast
  have "takeWhile (\<lambda>x. x \<noteq> curr_proc s) (ys @ curr_proc s # zs) = ys" using e(2) by (subst takeWhile_append2) auto
  with e(1) have i: "?i < length ps" by simp
  then have "ps ! ?i = curr_proc s" using nth_length_takeWhile by blast
  with ring_next_nth [OF _ i, of s] assms True show ?thesis by (auto simp: ring_pos_def sched_list_def)
next
  case False
  then have "p_next (procs s (curr_proc s)) = 0" using assms by (auto simp: sched_list_def)
  with False assms plist_hd [of "procs s" "proc_list s" ps] show ?thesis
    by (auto simp: ring_next_def ring_pos_def sched_list_def)
qed

lemma pick_next_ring:
  assumes "sched_list s ps"
  shows "pick_next s = Some (case find (ready s) (ring s ps) of None \<Rightarrow> idle_proc s | Some q \<Rightarrow> q)"
proof -
  have P: "plist (procs s) (proc_list s) ps" and idle: "idle_proc s \<noteq> 0" using assms by (auto simp: sched_list_def)
  have c: "curr_proc s \<noteq> 0" using assms plist_zero [OF P] by (auto simp: sched_list_def)
  show ?thesis
  proof (cases "ps = []")
    case True
    have "pick_loop 0 0 s = Some 0" by (subst pick_loop.simps) simp
    with True c idle ring_start [OF assms] show ?thesis by (simp add: pick_next_def ring_def)
  next
    case False
    define st where "st = ps ! (ring_pos s ps mod length ps)"
    have "pick_loop st st s = Some (case find (ready s) (ring s ps) of None \<Rightarrow> 0 | Some q \<Rightarrow> q)"
      using pick_loop_ring [OF P, of 0 st "ring_pos s ps"] False by (simp add: ring_map st_def)
    moreover have "ring_next s (curr_proc s) = st" using ring_start [OF assms] False by (simp add: st_def)
    moreover have "q \<noteq> 0" if "find (ready s) (ring s ps) = Some q" for q
      using that plist_zero [OF P] by (auto simp: find_Some_iff) (metis nth_mem set_ring)
    ultimately show ?thesis using c idle by (auto simp: pick_next_def Let_def split: option.splits)
  qed
qed

section \<open>The invariant of the scheduler\<close>

text \<open>
  On top of the list: only the current process is marked as running, and the processor has its
  address space and its kernel stack loaded.
\<close>

definition sched_ok :: "'a sched_state_scheme \<Rightarrow> u32 list \<Rightarrow> bool" where
  "sched_ok s ps \<longleftrightarrow> sched_list s ps
     \<and> (\<forall>p \<in> insert (idle_proc s) (set ps). p_state (procs s p) = PROC_RUNNING \<longrightarrow> p = curr_proc s)
     \<and> cr3 (vm s) = p_pd_phys (procs s (curr_proc s)) \<and> tss_esp0 s = p_esp0 (procs s (curr_proc s))"

text \<open>What happens between two calls of \<^verbatim>\<open>schedule\<close>: the current process blocks or ends, others wake up.\<close>

datatype sched_event = Schedule | Block proc_block | Exit | Wake u32

fun event :: "sched_event \<Rightarrow> sched_state \<Rightarrow> sched_state option" where
  "event Schedule s = schedule s"
| "event (Block b) s = Some (upd_proc (curr_proc s) (\<lambda>x. x\<lparr>p_state := PROC_BLOCKED, p_block := b\<rparr>) s)"
| "event Exit s = Some (set_state (curr_proc s) PROC_DEAD s)"
| "event (Wake p) s = Some (if p_state (procs s p) = PROC_BLOCKED then set_state p PROC_READY s else s)"

fun events :: "sched_event list \<Rightarrow> sched_state \<Rightarrow> sched_state option" where
  "events [] s = Some s"
| "events (e # es) s = (case event e s of None \<Rightarrow> None | Some s1 \<Rightarrow> events es s1)"

lemma upd_proc_simps [simp]:
  "proc_list (upd_proc p f s) = proc_list s" "curr_proc (upd_proc p f s) = curr_proc s" "idle_proc (upd_proc p f s) = idle_proc s"
  "scheduler_ready (upd_proc p f s) = scheduler_ready s" "tss_esp0 (upd_proc p f s) = tss_esp0 s" "vm (upd_proc p f s) = vm s"
  "procs (upd_proc p f s) q = (if q = p then f (procs s p) else procs s q)"
  by (simp_all add: upd_proc_def)

lemma set_state_simps [simp]:
  "proc_list (set_state p x s) = proc_list s" "curr_proc (set_state p x s) = curr_proc s" "idle_proc (set_state p x s) = idle_proc s"
  "scheduler_ready (set_state p x s) = scheduler_ready s" "tss_esp0 (set_state p x s) = tss_esp0 s" "vm (set_state p x s) = vm s"
  "procs (set_state p x s) q = (if q = p then (procs s p)\<lparr>p_state := x\<rparr> else procs s q)"
  by (simp_all add: set_state_def)

text \<open>What a call of \<^verbatim>\<open>schedule\<close> does when the process to run is \<open>q\<close>.\<close>

definition switched :: "u32 \<Rightarrow> 'a sched_state_scheme \<Rightarrow> 'a sched_state_scheme" where
  "switched q s =
     (if q = curr_proc s then s
      else load_proc q (set_state q PROC_RUNNING
        ((if p_state (procs s (curr_proc s)) = PROC_RUNNING then set_state (curr_proc s) PROC_READY s else s)\<lparr>curr_proc := q\<rparr>)))"

definition chosen :: "'a sched_state_scheme \<Rightarrow> u32 list \<Rightarrow> u32" where
  "chosen s ps = (case find (ready s) (ring s ps) of None \<Rightarrow> idle_proc s | Some q \<Rightarrow> q)"

lemma schedule_switched:
  assumes "sched_list s ps"
  shows "schedule s = Some (switched (chosen s ps) s)"
proof -
  have "curr_proc s \<noteq> 0" using assms plist_zero by (fastforce simp: sched_list_def)
  moreover have "scheduler_ready s" using assms by (simp add: sched_list_def)
  ultimately show ?thesis
    using pick_next_ring [OF assms] by (simp add: schedule_def switched_def chosen_def Let_def)
qed

lemma chosen_cases: "chosen s ps = idle_proc s \<and> (\<forall>q \<in> set ps. \<not> ready s q) \<or> chosen s ps \<in> set ps \<and> ready s (chosen s ps)"
proof (cases "find (ready s) (ring s ps)")
  case None
  then have "\<forall>q \<in> set ps. \<not> ready s q" by (simp add: find_None_iff)
  with None show ?thesis by (simp add: chosen_def)
next
  case (Some q)
  then have "ready s q" "q \<in> set (ring s ps)" unfolding find_Some_iff by (metis nth_mem)+
  with Some show ?thesis by (simp add: chosen_def)
qed

lemma switched_simps [simp]:
  "curr_proc (switched q s) = q" "proc_list (switched q s) = proc_list s" "idle_proc (switched q s) = idle_proc s"
  "scheduler_ready (switched q s) = scheduler_ready s" "p_next (procs (switched q s) p) = p_next (procs s p)"
  "p_pd_phys (procs (switched q s) p) = p_pd_phys (procs s p)" "p_esp0 (procs (switched q s) p) = p_esp0 (procs s p)"
  "p_state (procs (switched q s) p) = (if q = curr_proc s then p_state (procs s p) else if p = q then PROC_RUNNING
     else if p = curr_proc s \<and> p_state (procs s p) = PROC_RUNNING then PROC_READY else p_state (procs s p))"
  by (auto simp: switched_def load_proc_def)

lemma plist_switched [simp]: "plist (procs (switched q s)) p ps = plist (procs s) p ps"
  by (rule plist_cong) simp

lemma switched_ok:
  assumes ok: "sched_ok s ps" and q: "q \<in> set ps \<or> q = idle_proc s"
  shows "sched_ok (switched q s) ps"
proof -
  have "sched_list (switched q s) ps" using assms by (auto simp: sched_ok_def sched_list_def)
  moreover have "cr3 (vm (switched q s)) = p_pd_phys (procs s q) \<and> tss_esp0 (switched q s) = p_esp0 (procs s q)"
    using ok by (auto simp: switched_def load_proc_def paging_switch_directory_def sched_ok_def)
  moreover have "p = q" if "p \<in> insert (idle_proc s) (set ps)" "p_state (procs (switched q s) p) = PROC_RUNNING" for p
    using that ok unfolding sched_ok_def by (auto split: if_splits)
  ultimately show ?thesis by (simp add: sched_ok_def)
qed

lemma schedule_ok:
  assumes "sched_ok s ps"
  shows "\<exists>s'. schedule s = Some s' \<and> sched_ok s' ps"
proof -
  have "sched_list s ps" using assms by (simp add: sched_ok_def)
  moreover have "sched_ok (switched (chosen s ps) s) ps" using switched_ok [OF assms] chosen_cases by blast
  ultimately show ?thesis using schedule_switched by blast
qed

lemma sched_ok_upd:
  assumes "sched_ok s ps" "\<And>x. p_next (f x) = p_next x \<and> p_pd_phys (f x) = p_pd_phys x \<and> p_esp0 (f x) = p_esp0 x"
    "\<And>x. p_state (f x) = PROC_RUNNING \<Longrightarrow> p_state x = PROC_RUNNING"
  shows "sched_ok (upd_proc p f s) ps"
proof -
  have "plist (procs (upd_proc p f s)) q ps = plist (procs s) q ps" for q
    using assms(2) by (intro plist_cong) auto
  then have "sched_list (upd_proc p f s) ps" using assms(1,2) by (auto simp: sched_ok_def sched_list_def)
  moreover have "r = curr_proc s" if "r \<in> insert (idle_proc s) (set ps)" "p_state (procs (upd_proc p f s) r) = PROC_RUNNING" for r
    using that assms(1,3) unfolding sched_ok_def by (auto split: if_splits)
  moreover have "p_pd_phys (procs (upd_proc p f s) r) = p_pd_phys (procs s r)" "p_esp0 (procs (upd_proc p f s) r) = p_esp0 (procs s r)" for r
    using assms(2) by simp_all
  ultimately show ?thesis using assms(1) by (simp add: sched_ok_def)
qed

lemma event_ok: "sched_ok s ps \<Longrightarrow> \<exists>s'. event e s = Some s' \<and> sched_ok s' ps"
proof (cases e)
  case Schedule
  assume "sched_ok s ps"
  with Schedule show ?thesis using schedule_ok by simp
qed (auto simp: set_state_def intro!: sched_ok_upd)

lemma events_ok: "sched_ok s ps \<Longrightarrow> \<exists>s'. events es s = Some s' \<and> sched_ok s' ps"
proof (induction es arbitrary: s)
  case (Cons e es)
  from event_ok [OF Cons.prems] obtain s1 where "event e s = Some s1" "sched_ok s1 ps" by blast
  with Cons.IH show ?case by simp
qed simp

section \<open>Distance in the ring\<close>

definition ahead :: "'a sched_state_scheme \<Rightarrow> u32 list \<Rightarrow> u32 \<Rightarrow> nat \<Rightarrow> bool" where
  "ahead s ps q e \<longleftrightarrow> e < length ps \<and> ring s ps ! e = q"

lemma ahead_exists: "q \<in> set ps \<Longrightarrow> \<exists>e. ahead s ps q e"
  by (metis ahead_def in_set_conv_nth set_ring)

lemma ring_pos_nth:
  assumes "distinct ps" "i < length ps" "curr_proc s = ps ! i"
  shows "ring_pos s ps = Suc i"
proof -
  have "takeWhile (\<lambda>x. x \<noteq> ps ! i) (take i ps @ ps ! i # drop (Suc i) ps) = take i ps"
    using assms(1,2) by (subst takeWhile_append2) (auto simp: in_set_conv_nth nth_eq_iff_index_eq)
  then have "takeWhile (\<lambda>x. x \<noteq> ps ! i) ps = take i ps" using assms(2) by (simp add: id_take_nth_drop [symmetric])
  with assms show ?thesis by (simp add: ring_pos_def)
qed

text \<open>A call of \<^verbatim>\<open>schedule\<close> runs the waiting process or brings it nearer.\<close>

lemma schedule_nearer:
  assumes ok: "sched_ok s ps" and q: "ready s q" and a: "ahead s ps q e" and sch: "schedule s = Some s'"
  shows "curr_proc s' = q \<or> ready s' q \<and> (\<exists>e' < e. ahead s' ps q e')"
proof -
  have L: "sched_list s ps" using ok by (simp add: sched_ok_def)
  have P: "distinct ps" using L plist_distinct by (auto simp: sched_list_def)
  have s': "s' = switched (chosen s ps) s" using schedule_switched [OF L] sch by simp
  have e: "e < length ps" "ring s ps ! e = q" using a by (auto simp: ahead_def)
  then have "q \<in> set ps" using nth_mem [of e "ring s ps"] by simp
  with q have "find (ready s) (ring s ps) \<noteq> None" by (auto simp: find_None_iff)
  then obtain r where r: "find (ready s) (ring s ps) = Some r" by blast
  then obtain d where d: "d < length ps" "ready s r" "r = ring s ps ! d" "\<forall>j < d. \<not> ready s (ring s ps ! j)"
    by (auto simp: find_Some_iff)
  have ch: "chosen s ps = r" using r by (simp add: chosen_def)
  have de: "d \<le> e" using d(4) e(2) q by (meson not_le)
  show ?thesis
  proof (cases "d = e")
    case True
    then show ?thesis using d(3) e(2) by (simp add: s' ch)
  next
    case False
    with de have lt: "d < e" by simp
    let ?n = "length ps" and ?i = "(ring_pos s ps + d) mod length ps"
    have n: "0 < ?n" using e(1) by linarith
    have i: "?i < ?n" "r = ps ! ?i" using d n by (simp_all add: ring_nth)
    have rp: "ring_pos s' ps = Suc ?i" using i by (intro ring_pos_nth [OF P]) (simp_all add: s' ch)
    have "ring s' ps ! (e - d - 1) = ps ! ((Suc ?i + (e - d - 1)) mod ?n)"
      using e(1) by (simp add: ring_nth rp)
    also have "(Suc ?i + (e - d - 1)) mod ?n = (ring_pos s ps + d + Suc (e - d - 1)) mod ?n"
      by (metis add_Suc add_Suc_right mod_add_left_eq)
    also have "ring_pos s ps + d + Suc (e - d - 1) = ring_pos s ps + e" using lt by simp
    also have "ps ! ((ring_pos s ps + e) mod ?n) = q" using e by (simp add: ring_nth)
    finally have "ahead s' ps q (e - d - 1)" using e(1) by (simp add: ahead_def)
    moreover have "q \<noteq> r"
      using lt d(1,3) e P by (auto simp: ring_def nth_eq_iff_index_eq)
    then have "ready s' q" using q by (auto simp: ready_def s' ch)
    moreover have "e - d - 1 < e" using lt by simp
    ultimately show ?thesis by blast
  qed
qed

lemma event_ready:
  assumes "ready s q" "q \<noteq> curr_proc s" "e \<noteq> Schedule" "event e s = Some s'"
  shows "ready s' q" "curr_proc s' = curr_proc s" "ahead s' ps q d = ahead s ps q d"
proof -
  show "ready s' q" "curr_proc s' = curr_proc s" using assms by (cases e; auto simp: ready_def)+
  then show "ahead s' ps q d = ahead s ps q d" by (simp add: ahead_def ring_def ring_pos_def)
qed

lemma no_starvation:
  assumes "sched_ok s ps" "ready s q" "ahead s ps q e" "e < count_list es Schedule"
  shows "\<exists>es1 es2 s'. es = es1 @ es2 \<and> events es1 s = Some s' \<and> curr_proc s' = q"
  using assms
proof (induction es arbitrary: s e)
  case Nil
  then show ?case by simp
next
  case (Cons x es)
  show ?case
  proof (cases "curr_proc s = q")
    case True
    then show ?thesis by (intro exI [of _ "[]"] exI [of _ "x # es"] exI [of _ s]) simp
  next
    case False
    from event_ok [OF Cons.prems(1)] obtain s1 where s1: "event x s = Some s1" "sched_ok s1 ps" by blast
    have "curr_proc s1 = q \<or> (\<exists>e'. ready s1 q \<and> ahead s1 ps q e' \<and> e' < count_list es Schedule)"
    proof (cases "x = Schedule")
      case True
      with schedule_nearer [OF Cons.prems(1-3)] s1(1) Cons.prems(4) show ?thesis by fastforce
    next
      case x: False
      with event_ready(1) [OF Cons.prems(2) False [symmetric] x s1(1)] event_ready(3) [OF Cons.prems(2) False [symmetric] x s1(1), of ps]
          Cons.prems show ?thesis by auto
    qed
    then show ?thesis
    proof
      assume "curr_proc s1 = q"
      with s1(1) show ?thesis by (intro exI [of _ "[x]"] exI [of _ es] exI [of _ s1]) simp
    next
      assume "\<exists>e'. ready s1 q \<and> ahead s1 ps q e' \<and> e' < count_list es Schedule"
      with Cons.IH [OF s1(2)] obtain es1 es2 s' where "es = es1 @ es2" "events es1 s1 = Some s'" "curr_proc s' = q" by blast
      with s1(1) show ?thesis by (intro exI [of _ "x # es1"] exI [of _ es2] exI [of _ s']) simp
    qed
  qed
qed

section \<open>Properties\<close>

text \<open>
  Round robin: \<^verbatim>\<open>schedule\<close> always returns, and the process that runs then is the first ready
  one in the ring that starts behind the current process, or the idle process when no process
  of the list is ready; its address space and kernel stack are loaded.
\<close>

theorem schedule_round_robin:
  assumes "sched_ok s ps"
  shows "\<exists>s'. schedule s = Some s' \<and>
    curr_proc s' = (case find (\<lambda>p. p_state (procs s p) = PROC_READY) (ring s ps) of None \<Rightarrow> idle_proc s | Some p \<Rightarrow> p)
    \<and> cr3 (vm s') = p_pd_phys (procs s' (curr_proc s')) \<and> tss_esp0 s' = p_esp0 (procs s' (curr_proc s'))"
proof -
  have L: "sched_list s ps" using assms by (simp add: sched_ok_def)
  from schedule_ok [OF assms] obtain s' where s': "schedule s = Some s'" "sched_ok s' ps" by blast
  have "ready s = (\<lambda>p. p_state (procs s p) = PROC_READY)" by (simp add: ready_def fun_eq_iff)
  with s' schedule_switched [OF L] show ?thesis by (auto simp: chosen_def sched_ok_def)
qed

definition proc_example :: "proc_state \<Rightarrow> u32 \<Rightarrow> process" where
  "proc_example st nxt = \<lparr>p_pid = 0, p_ppid = 0, p_target_pid = NO_PID, p_pd_phys = 0x5000, p_esp0 = 0, p_kstack = 0,
     p_entry_point = 0, p_user_stack_top = 0, p_saved_esp = 0, p_heap_start = 0, p_heap_break = 0, p_heap_max = 0,
     p_resume_tick = 0, p_fds = (\<lambda>_. - 1), p_dirs = (\<lambda>_. \<lparr>dh_cluster = 0, dh_index = 0, dh_in_use = False\<rparr>),
     p_exit_code = 0, p_state = st, p_block = PROC_NONE, p_name = [], p_cwd = [47], p_cleaned_up = False, p_next = nxt\<rparr>"

text \<open>Three processes at 0x100, 0x200 and 0x300, the first of them running, and the idle process.\<close>

definition sched_example :: sched_state where
  "sched_example = \<lparr>procs = (\<lambda>_. proc_example PROC_READY 0)(0x100 := proc_example PROC_RUNNING 0x200,
      0x200 := proc_example PROC_BLOCKED 0x300, 0x300 := proc_example PROC_READY 0),
     proc_list = 0x100, curr_proc = 0x100, idle_proc = 0x400, scheduler_ready = True, tss_esp0 = 0,
     vm = vm_example\<lparr>cr3 := 0x5000\<rparr>\<rparr>"

lemma sched_example_ok: "sched_ok sched_example [0x100, 0x200, 0x300]"
  by (simp add: sched_ok_def sched_list_def sched_example_def proc_example_def)

lemma schedule_round_robin_witness: "\<exists>s'. schedule sched_example = Some s' \<and> curr_proc s' = 0x300"
proof -
  have "find (\<lambda>p. p_state (procs sched_example p) = PROC_READY) (ring sched_example [0x100, 0x200, 0x300]) = Some 0x300"
    by (simp add: ring_def ring_pos_def sched_example_def proc_example_def)
  with schedule_round_robin [OF sched_example_ok] show ?thesis by auto
qed

text \<open>
  C16. Over every sequence of scheduler calls, with the current process blocking or ending and
  others waking up in between, the list stays intact, no process but the current one is marked
  as running, and the processor has the address space and the kernel stack of the current
  process.
\<close>

theorem sched_invariant:
  assumes "sched_ok s ps"
  shows "\<exists>s'. events es s = Some s' \<and> sched_ok s' ps"
  using assms by (rule events_ok)

lemma sched_invariant_witness:
  "\<exists>s'. events [Schedule, Block PROC_INPUT, Schedule, Wake 0x300] sched_example = Some s' \<and> sched_ok s' [0x100, 0x200, 0x300]"
  by (rule sched_invariant [OF sched_example_ok])

text \<open>
  C12. No starvation: a process that is ready runs after at most as many calls of \<^verbatim>\<open>schedule\<close> as
  there are processes, whatever the others do in between.
\<close>

theorem schedule_no_starvation:
  assumes "sched_ok s ps" "q \<in> set ps" "p_state (procs s q) = PROC_READY" "length ps \<le> count_list es Schedule"
  shows "\<exists>es1 es2 s'. es = es1 @ es2 \<and> events es1 s = Some s' \<and> curr_proc s' = q"
proof -
  from ahead_exists [OF assms(2)] obtain e where a: "ahead s ps q e" by blast
  then have "e < count_list es Schedule" using assms(4) by (simp add: ahead_def)
  with no_starvation [OF assms(1) _ a] assms(3) show ?thesis by (simp add: ready_def)
qed

lemma schedule_no_starvation_witness:
  "\<exists>es1 es2 s'. [Schedule, Exit, Schedule, Wake 0x200, Schedule] = es1 @ es2 \<and> events es1 sched_example = Some s' \<and> curr_proc s' = 0x300"
  by (rule schedule_no_starvation [OF sched_example_ok]) (simp_all add: sched_example_def proc_example_def)

text \<open>
  A process that is running does not count as ready: when it is the only one that could go on,
  every call of \<^verbatim>\<open>schedule\<close> switches to the idle process and the next one back.
\<close>

theorem lone_process_alternates:
  assumes "sched_ok s ps" "curr_proc s = p" "p \<in> set ps" "p_state (procs s p) = PROC_RUNNING"
    and "\<forall>x \<in> set ps. x \<noteq> p \<longrightarrow> p_state (procs s x) \<in> {PROC_BLOCKED, PROC_DEAD}"
  shows "\<exists>s1 s2. schedule s = Some s1 \<and> curr_proc s1 = idle_proc s \<and> schedule s1 = Some s2 \<and> curr_proc s2 = p"
proof -
  have L: "sched_list s ps" using assms(1) by (simp add: sched_ok_def)
  have nr: "\<not> ready s x" if "x \<in> set ps" for x
    using assms(4) bspec [OF assms(5) that] by (cases "x = p") (auto simp: ready_def)
  with chosen_cases [of s ps] have c: "chosen s ps = idle_proc s" by blast
  let ?s1 = "switched (idle_proc s) s"
  have ne: "idle_proc s \<noteq> p" using assms(3) L by (auto simp: sched_list_def)
  have s1: "schedule s = Some ?s1" using schedule_switched [OF L] c by simp
  have ok1: "sched_ok ?s1 ps" by (rule switched_ok [OF assms(1)]) simp
  then have L1: "sched_list ?s1 ps" by (simp add: sched_ok_def)
  have r1: "ready ?s1 p" using assms(2,4) ne by (simp add: ready_def)
  have n1: "\<not> ready ?s1 x" if "x \<in> set ps" "x \<noteq> p" for x
    using bspec [OF assms(5) that(1)] that(2) assms(2) ne by (auto simp: ready_def)
  from chosen_cases [of ?s1 ps] r1 n1 assms(3) have "chosen ?s1 ps = p" by blast
  then have "schedule ?s1 = Some (switched p ?s1)" using schedule_switched [OF L1] by simp
  with s1 show ?thesis by (intro exI conjI) (assumption | simp)+
qed

end
