(* ===== verification/Kbd.thy ===== *)
theory Kbd
  imports Scheduler
begin

text \<open>
  The keyboard driver \<^verbatim>\<open>src/src/devices/kbd.c\<close>: scan codes to characters, the circular buffer
  between the interrupt handler and the readers, and the wake-up of a reader.
\<close>

section \<open>The driver\<close>

abbreviation KBD_BUFFER_SIZE :: u32 where "KBD_BUFFER_SIZE \<equiv> 256"

record kbd_state =
  kbd_buffer :: bytes
  kbd_read_pos :: u32
  kbd_write_pos :: u32
  shift_pressed :: bool

text \<open>The tables have 128 entries; those that are not listed are 0.\<close>

definition scancode_table :: "u8 list" where
  "scancode_table =
    [0, 27, 49, 50, 51, 52, 53, 54, 55, 56, 57, 48, 45, 61, 8, 9, 113, 119, 101, 114, 116, 121, 117,
     105, 111, 112, 91, 93, 10, 0, 97, 115, 100, 102, 103, 104, 106, 107, 108, 59, 39, 96, 0, 92, 122,
     120, 99, 118, 98, 110, 109, 44, 46, 47, 0, 42, 0, 32, 0]"

definition scancode_table_shift :: "u8 list" where
  "scancode_table_shift =
    [0, 27, 33, 64, 35, 36, 37, 94, 38, 42, 40, 41, 95, 43, 8, 9, 81, 87, 69, 82, 84, 89, 85, 73, 79,
     80, 123, 125, 10, 0, 65, 83, 68, 70, 71, 72, 74, 75, 76, 58, 34, 126, 0, 124, 90, 88, 67, 86, 66,
     78, 77, 60, 62, 63, 0, 42, 0, 32, 0]"

definition lookup_scancode :: "u8 list \<Rightarrow> u8 \<Rightarrow> u8" where
  "lookup_scancode tab code = (if unat code < length tab then tab ! unat code else 0)"

definition kbd_push :: "u8 \<Rightarrow> kbd_state \<Rightarrow> kbd_state" where
  "kbd_push c k = k\<lparr>kbd_buffer := (kbd_buffer k)(kbd_write_pos k := c),
     kbd_write_pos := (kbd_write_pos k + 1) mod KBD_BUFFER_SIZE\<rparr>"

text \<open>The loop that wakes the first process of the list that waits for input.\<close>

partial_function (option) wake_reader :: "u32 \<Rightarrow> 'a sched_state_scheme \<Rightarrow> 'a sched_state_scheme option" where
  "wake_reader p s =
     (if p = 0 then Some s
      else if p_state (procs s p) = PROC_BLOCKED \<and> p_block (procs s p) = PROC_INPUT
      then Some (upd_proc p (\<lambda>x. x\<lparr>p_state := PROC_READY, p_block := PROC_NONE\<rparr>) s)
      else wake_reader (p_next (procs s p)) s)"

text \<open>\<open>scancode\<close> is what the data port of the keyboard delivers.\<close>

definition kbd_handler :: "u8 \<Rightarrow> kbd_state \<Rightarrow> 'a sched_state_scheme \<Rightarrow> (kbd_state \<times> 'a sched_state_scheme) option" where
  "kbd_handler scancode k s =
     (if scancode = 0x2a \<or> scancode = 0x36 then Some (k\<lparr>shift_pressed := True\<rparr>, s)
      else if scancode = 0xaa \<or> scancode = 0xb6 then Some (k\<lparr>shift_pressed := False\<rparr>, s)
      else if scancode AND 0x80 \<noteq> 0 then Some (k, s)
      else (let c = lookup_scancode (if shift_pressed k then scancode_table_shift else scancode_table) scancode in
            if c = 0 then Some (k, s)
            else map_option (Pair (kbd_push c k)) (wake_reader (proc_list s) s)))"

text \<open>\<open>- 1\<close> when the buffer is empty.\<close>

definition kbd_getchar :: "kbd_state \<Rightarrow> u32 \<times> kbd_state" where
  "kbd_getchar k =
     (if kbd_read_pos k = kbd_write_pos k then (- 1, k)
      else (scast (kbd_buffer k (kbd_read_pos k)), k\<lparr>kbd_read_pos := (kbd_read_pos k + 1) mod KBD_BUFFER_SIZE\<rparr>))"

section \<open>The buffer as a queue\<close>

text \<open>A bounded queue: what a producer and a consumer may rely on.\<close>

locale bounded_queue =
  fixes push :: "'c \<Rightarrow> 's \<Rightarrow> 's" and pop :: "'s \<Rightarrow> ('c \<times> 's) option"
    and items :: "'s \<Rightarrow> 'c list" and ok :: "'s \<Rightarrow> bool" and capacity :: nat
  assumes push: "ok s \<Longrightarrow> length (items s) < capacity \<Longrightarrow> ok (push c s) \<and> items (push c s) = items s @ [c]"
    and pop: "ok s \<Longrightarrow> (case items s of [] \<Rightarrow> pop s = None | c # cs \<Rightarrow> \<exists>s'. pop s = Some (c, s') \<and> ok s' \<and> items s' = cs)"
begin

fun push_all :: "'c list \<Rightarrow> 's \<Rightarrow> 's" where
  "push_all [] s = s"
| "push_all (c # cs) s = push_all cs (push c s)"

fun pop_many :: "nat \<Rightarrow> 's \<Rightarrow> ('c list \<times> 's) option" where
  "pop_many 0 s = Some ([], s)"
| "pop_many (Suc n) s = (case pop s of None \<Rightarrow> None
     | Some (c, s1) \<Rightarrow> (case pop_many n s1 of None \<Rightarrow> None | Some (cs, s2) \<Rightarrow> Some (c # cs, s2)))"

lemma push_all_items:
  "ok s \<Longrightarrow> length (items s) + length cs \<le> capacity \<Longrightarrow> ok (push_all cs s) \<and> items (push_all cs s) = items s @ cs"
proof (induction cs arbitrary: s)
  case (Cons c cs)
  then have "ok (push c s) \<and> items (push c s) = items s @ [c]" by (intro push) simp_all
  with Cons show ?case by simp
qed simp

lemma pop_many_items:
  "ok s \<Longrightarrow> items s = xs @ ys \<Longrightarrow> \<exists>s'. pop_many (length xs) s = Some (xs, s') \<and> ok s' \<and> items s' = ys"
proof (induction xs arbitrary: s)
  case (Cons c xs)
  then obtain s1 where s1: "pop s = Some (c, s1)" "ok s1" "items s1 = xs @ ys" using pop [of s] by auto
  from Cons.IH [OF s1(2,3)] s1(1) show ?case by auto
qed simp

text \<open>First in, first out: what is put in behind the old items comes out behind them.\<close>

lemma first_in_first_out:
  assumes "ok s" "length (items s) + length cs \<le> capacity"
  shows "\<exists>s'. pop_many (length (items s @ cs)) (push_all cs s) = Some (items s @ cs, s') \<and> items s' = []"
  using push_all_items [OF assms] pop_many_items [of "push_all cs s" "items s @ cs" "[]"] by auto

end

text \<open>The characters in the buffer, oldest first.\<close>

definition kbd_count :: "kbd_state \<Rightarrow> nat" where
  "kbd_count k = (unat (kbd_write_pos k) + 256 - unat (kbd_read_pos k)) mod 256"

definition kbd_items :: "kbd_state \<Rightarrow> u8 list" where
  "kbd_items k = map (\<lambda>i. kbd_buffer k (of_nat ((unat (kbd_read_pos k) + i) mod 256))) [0..<kbd_count k]"

definition kbd_ok :: "kbd_state \<Rightarrow> bool" where
  "kbd_ok k \<longleftrightarrow> kbd_read_pos k < KBD_BUFFER_SIZE \<and> kbd_write_pos k < KBD_BUFFER_SIZE"

definition kbd_pop :: "kbd_state \<Rightarrow> (u8 \<times> kbd_state) option" where
  "kbd_pop k = (if kbd_items k = [] then None else Some (hd (kbd_items k), snd (kbd_getchar k)))"

lemma kbd_next:
  assumes "p < KBD_BUFFER_SIZE"
  shows "unat ((p + 1) mod KBD_BUFFER_SIZE) = Suc (unat p) mod 256" "(p + 1) mod KBD_BUFFER_SIZE < KBD_BUFFER_SIZE"
proof -
  have "unat p < 256" using assms by (simp add: word_less_nat_alt)
  then have "unat (p + 1) = Suc (unat p)" by (subst unat_add_lem [THEN iffD1]) auto
  then show "unat ((p + 1) mod KBD_BUFFER_SIZE) = Suc (unat p) mod 256" by (simp add: unat_mod)
  then show "(p + 1) mod KBD_BUFFER_SIZE < KBD_BUFFER_SIZE" by (simp add: word_less_nat_alt)
qed

lemma mod_wrap: "a < 512 \<Longrightarrow> a mod 256 = (if a < 256 then a else a - 256)" for a :: nat
  by (simp add: le_mod_geq)

lemma kbd_count_if:
  assumes "kbd_ok k"
  shows "kbd_count k = (if unat (kbd_read_pos k) \<le> unat (kbd_write_pos k) then unat (kbd_write_pos k) - unat (kbd_read_pos k)
    else unat (kbd_write_pos k) + 256 - unat (kbd_read_pos k))"
proof -
  have "unat (kbd_read_pos k) < 256" "unat (kbd_write_pos k) < 256" using assms by (auto simp: kbd_ok_def word_less_nat_alt)
  then show ?thesis by (subst kbd_count_def, subst mod_wrap) auto
qed

lemma kbd_count_0: "kbd_ok k \<Longrightarrow> kbd_count k = 0 \<longleftrightarrow> kbd_read_pos k = kbd_write_pos k"
proof -
  assume "kbd_ok k"
  then have "unat (kbd_read_pos k) < 256" "unat (kbd_write_pos k) < 256" by (auto simp: kbd_ok_def word_less_nat_alt)
  then show ?thesis unfolding kbd_count_if [OF \<open>kbd_ok k\<close>] word_unat_eq_iff by (auto split: if_splits)
qed

lemma kbd_push_items:
  assumes "kbd_ok k" "kbd_count k < 255"
  shows "kbd_ok (kbd_push c k)" "kbd_items (kbd_push c k) = kbd_items k @ [c]"
proof -
  let ?R = "unat (kbd_read_pos k)" and ?W = "unat (kbd_write_pos k)"
  have lt: "?R < 256" "?W < 256" using assms(1) by (auto simp: kbd_ok_def word_less_nat_alt)
  note nx = kbd_next [of "kbd_write_pos k"]
  show "kbd_ok (kbd_push c k)" using assms(1) nx(2) by (simp add: kbd_ok_def kbd_push_def)
  have W: "unat (kbd_write_pos (kbd_push c k)) = Suc ?W mod 256" using assms(1) nx(1) by (simp add: kbd_ok_def kbd_push_def)
  have R: "unat (kbd_read_pos (kbd_push c k)) = ?R" by (simp add: kbd_push_def)
  have n: "kbd_count (kbd_push c k) = Suc (kbd_count k)"
    using assms(2) lt unfolding kbd_count_if [OF \<open>kbd_ok (kbd_push c k)\<close>] kbd_count_if [OF assms(1)] W R
    by (subst (1 2 3) mod_wrap) (auto split: if_splits)
  have idx: "(of_nat ((?R + i) mod 256) :: u32) = kbd_write_pos k \<longleftrightarrow> i = kbd_count k" if "i \<le> kbd_count k" for i
  proof -
    have "(of_nat ((?R + i) mod 256) :: u32) = kbd_write_pos k \<longleftrightarrow> (?R + i) mod 256 = ?W"
      using of_nat_u32_eq [of "(?R + i) mod 256" ?W] lt(2) by simp
    also have "\<dots> \<longleftrightarrow> i = kbd_count k"
      using that lt assms(2) unfolding kbd_count_if [OF assms(1)] by (subst mod_wrap) (auto split: if_splits)
    finally show ?thesis .
  qed
  show "kbd_items (kbd_push c k) = kbd_items k @ [c]"
    unfolding kbd_items_def n using idx by (auto simp: kbd_push_def)
qed

lemma kbd_pop_items:
  assumes "kbd_ok k" "0 < kbd_count k"
  shows "kbd_ok (snd (kbd_getchar k))" "kbd_items k = kbd_buffer k (kbd_read_pos k) # kbd_items (snd (kbd_getchar k))"
proof -
  let ?R = "unat (kbd_read_pos k)" and ?W = "unat (kbd_write_pos k)"
  have lt: "?R < 256" "?W < 256" using assms(1) by (auto simp: kbd_ok_def word_less_nat_alt)
  have g: "snd (kbd_getchar k) = k\<lparr>kbd_read_pos := (kbd_read_pos k + 1) mod KBD_BUFFER_SIZE\<rparr>"
    using kbd_count_0 [OF assms(1)] assms(2) by (simp add: kbd_getchar_def)
  note nx = kbd_next [of "kbd_read_pos k"]
  show "kbd_ok (snd (kbd_getchar k))" unfolding g using assms(1) nx(2) by (simp add: kbd_ok_def)
  have R: "unat (kbd_read_pos (snd (kbd_getchar k))) = Suc ?R mod 256" unfolding g using assms(1) nx(1) by (simp add: kbd_ok_def)
  have W: "unat (kbd_write_pos (snd (kbd_getchar k))) = ?W" by (simp add: g)
  have n: "kbd_count k = Suc (kbd_count (snd (kbd_getchar k)))"
    using assms(2) lt unfolding kbd_count_if [OF \<open>kbd_ok (snd (kbd_getchar k))\<close>] kbd_count_if [OF assms(1)] W R
    by (subst (1 2 3) mod_wrap) (auto split: if_splits)
  have "(Suc ?R mod 256 + i) mod 256 = (?R + Suc i) mod 256" for i by (simp add: mod_add_left_eq)
  then have "kbd_items k = kbd_buffer k (of_nat (?R mod 256)) # kbd_items (snd (kbd_getchar k))"
    unfolding kbd_items_def n R by (simp add: map_upt_Suc g del: upt_Suc)
  then show "kbd_items k = kbd_buffer k (kbd_read_pos k) # kbd_items (snd (kbd_getchar k))" using lt by simp
qed

interpretation kbd: bounded_queue kbd_push kbd_pop kbd_items kbd_ok 255
proof
  fix k and c :: u8
  assume ok: "kbd_ok k"
  show "length (kbd_items k) < 255 \<Longrightarrow> kbd_ok (kbd_push c k) \<and> kbd_items (kbd_push c k) = kbd_items k @ [c]"
    using kbd_push_items [OF ok] by (simp add: kbd_items_def)
  show "case kbd_items k of [] \<Rightarrow> kbd_pop k = None | c # cs \<Rightarrow> \<exists>s'. kbd_pop k = Some (c, s') \<and> kbd_ok s' \<and> kbd_items s' = cs"
  proof (cases "kbd_count k = 0")
    case True
    then show ?thesis by (simp add: kbd_items_def kbd_pop_def)
  next
    case False
    with kbd_pop_items [OF ok] show ?thesis by (simp add: kbd_pop_def)
  qed
qed

text \<open>A key typed into a full buffer makes it look empty.\<close>

lemma kbd_overrun:
  assumes "kbd_ok k" "kbd_count k = 255"
  shows "kbd_items (kbd_push c k) = []"
proof -
  have lt: "unat (kbd_read_pos k) < 256" "unat (kbd_write_pos k) < 256" using assms(1) by (auto simp: kbd_ok_def word_less_nat_alt)
  have W: "unat (kbd_write_pos (kbd_push c k)) = Suc (unat (kbd_write_pos k)) mod 256"
    using assms(1) kbd_next(1) [of "kbd_write_pos k"] by (simp add: kbd_ok_def kbd_push_def)
  have ok: "kbd_ok (kbd_push c k)" using assms(1) kbd_next(2) by (simp add: kbd_ok_def kbd_push_def)
  have "unat (kbd_read_pos (kbd_push c k)) = unat (kbd_read_pos k)" by (simp add: kbd_push_def)
  with assms(2) lt have "kbd_count (kbd_push c k) = 0"
    unfolding kbd_count_if [OF ok] kbd_count_if [OF assms(1)] W by (subst (1 2 3) mod_wrap) (auto split: if_splits)
  then show ?thesis by (simp add: kbd_items_def)
qed

section \<open>The reader that is woken\<close>

definition waits_for_input :: "'a sched_state_scheme \<Rightarrow> u32 \<Rightarrow> bool" where
  "waits_for_input s p \<longleftrightarrow> p_state (procs s p) = PROC_BLOCKED \<and> p_block (procs s p) = PROC_INPUT"

definition wake :: "u32 \<Rightarrow> 'a sched_state_scheme \<Rightarrow> 'a sched_state_scheme" where
  "wake p s = upd_proc p (\<lambda>x. x\<lparr>p_state := PROC_READY, p_block := PROC_NONE\<rparr>) s"

lemma wake_reader_step:
  "wake_reader p s = (if p = 0 then Some s else if waits_for_input s p then Some (wake p s) else wake_reader (p_next (procs s p)) s)"
  by (subst wake_reader.simps) (simp add: waits_for_input_def wake_def)

lemma wake_reader_find:
  "plist (procs s) p ps \<Longrightarrow> wake_reader p s = Some (case find (waits_for_input s) ps of None \<Rightarrow> s | Some q \<Rightarrow> wake q s)"
proof (induction ps arbitrary: p)
  case Nil
  then show ?case by (subst wake_reader_step) simp
next
  case (Cons x ps)
  then show ?case by (subst wake_reader_step) auto
qed

lemma wake_reader_total:
  assumes "plist (procs s) (proc_list s) ps"
  shows "\<exists>s'. wake_reader (proc_list s) s = Some s' \<and> plist (procs s') (proc_list s') ps"
proof -
  have "plist (procs (wake q s)) (proc_list (wake q s)) ps" for q
    using assms by (subst plist_cong [of ps _ "procs s"]) (auto simp: wake_def)
  with wake_reader_find [OF assms] assms show ?thesis by (auto split: option.splits)
qed

section \<open>Properties\<close>

text \<open>A sequence of keyboard interrupts, the characters they stand for, and a sequence of reads.\<close>

fun kbd_interrupts :: "u8 list \<Rightarrow> kbd_state \<Rightarrow> 'a sched_state_scheme \<Rightarrow> (kbd_state \<times> 'a sched_state_scheme) option" where
  "kbd_interrupts [] k s = Some (k, s)"
| "kbd_interrupts (c # cs) k s = (case kbd_handler c k s of None \<Rightarrow> None | Some (k1, s1) \<Rightarrow> kbd_interrupts cs k1 s1)"

fun typed :: "bool \<Rightarrow> u8 list \<Rightarrow> u8 list" where
  "typed shift [] = []"
| "typed shift (c # cs) =
     (if c \<in> {0x2a, 0x36} then typed True cs
      else if c \<in> {0xaa, 0xb6} then typed False cs
      else if c AND 0x80 \<noteq> 0 then typed shift cs
      else (let ch = lookup_scancode (if shift then scancode_table_shift else scancode_table) c
            in (if ch = 0 then [] else [ch]) @ typed shift cs))"

fun kbd_getchars :: "nat \<Rightarrow> kbd_state \<Rightarrow> u32 list" where
  "kbd_getchars 0 k = []"
| "kbd_getchars (Suc n) k = (case kbd_getchar k of (c, k1) \<Rightarrow> c # kbd_getchars n k1)"

lemma kbd_shift [simp]: "kbd_items (k\<lparr>shift_pressed := b\<rparr>) = kbd_items k" "kbd_ok (k\<lparr>shift_pressed := b\<rparr>) = kbd_ok k"
  by (simp_all add: kbd_items_def kbd_count_def kbd_ok_def)

lemma kbd_interrupts_items:
  "kbd_ok k \<Longrightarrow> plist (procs s) (proc_list s) ps \<Longrightarrow> length (kbd_items k) + length (typed (shift_pressed k) cs) \<le> 255 \<Longrightarrow>
   \<exists>k' s'. kbd_interrupts cs k s = Some (k', s') \<and> kbd_ok k' \<and> kbd_items k' = kbd_items k @ typed (shift_pressed k) cs
     \<and> plist (procs s') (proc_list s') ps"
proof (induction cs arbitrary: k s)
  case Nil
  then show ?case by simp
next
  case (Cons c cs)
  let ?ch = "lookup_scancode (if shift_pressed k then scancode_table_shift else scancode_table) c"
  let ?down = "c = 0x2a \<or> c = 0x36" and ?up = "c = 0xaa \<or> c = 0xb6" and ?rel = "c AND 0x80 \<noteq> 0"
  consider "?down" | "\<not> ?down" "?up" | "\<not> ?down" "\<not> ?up" "?rel \<or> ?ch = 0" | "\<not> ?down" "\<not> ?up" "\<not> ?rel" "?ch \<noteq> 0" by blast
  then show ?case
  proof cases
    case 1
    with Cons.prems Cons.IH [of "k\<lparr>shift_pressed := True\<rparr>" s] show ?thesis by (auto simp: kbd_handler_def)
  next
    case 2
    with Cons.prems Cons.IH [of "k\<lparr>shift_pressed := False\<rparr>" s] show ?thesis by (auto simp: kbd_handler_def)
  next
    case 3
    then have "kbd_handler c k s = Some (k, s)" "typed (shift_pressed k) (c # cs) = typed (shift_pressed k) cs"
      by (auto simp: kbd_handler_def Let_def)
    with Cons.prems Cons.IH [of k s] show ?thesis by simp
  next
    case 4
    from wake_reader_total [OF Cons.prems(2)] obtain s1 where s1: "wake_reader (proc_list s) s = Some s1"
      "plist (procs s1) (proc_list s1) ps" by blast
    have h: "kbd_handler c k s = Some (kbd_push ?ch k, s1)" using 4 s1 by (simp add: kbd_handler_def Let_def)
    have t: "typed (shift_pressed k) (c # cs) = ?ch # typed (shift_pressed k) cs" using 4 by (simp add: Let_def)
    have p: "kbd_ok (kbd_push ?ch k)" "kbd_items (kbd_push ?ch k) = kbd_items k @ [?ch]"
      using kbd.push [OF Cons.prems(1), of ?ch] Cons.prems(3) t by simp_all
    have sh: "shift_pressed (kbd_push ?ch k) = shift_pressed k" by (simp add: kbd_push_def)
    have "length (kbd_items (kbd_push ?ch k)) + length (typed (shift_pressed (kbd_push ?ch k)) cs) \<le> 255"
      using Cons.prems(3) unfolding t p(2) sh by simp
    from Cons.IH [OF p(1) s1(2) this] h t p(2) sh show ?thesis by auto
  qed
qed

lemma kbd_getchars_items: "kbd_ok k \<Longrightarrow> kbd_getchars (length (kbd_items k)) k = map scast (kbd_items k)"
proof (induction "kbd_items k" arbitrary: k)
  case Nil
  then show ?case by (metis kbd_getchars.simps(1) list.size(3) list.simps(8))
next
  case (Cons c cs)
  have n: "0 < kbd_count k" using Cons.hyps(2) by (simp add: kbd_items_def) (metis gr0I list.distinct(1) list.simps(8) upt_0)
  note p = kbd_pop_items [OF Cons.prems n]
  have g: "kbd_getchar k = (scast (kbd_buffer k (kbd_read_pos k)), snd (kbd_getchar k))"
    using n kbd_count_0 [OF Cons.prems] by (simp add: kbd_getchar_def)
  have "cs = kbd_items (snd (kbd_getchar k))" using Cons.hyps(2) p(2) by (metis list.inject)
  from Cons.hyps(1) [OF this p(1)] have IH: "kbd_getchars (length (kbd_items (snd (kbd_getchar k)))) (snd (kbd_getchar k)) =
    map scast (kbd_items (snd (kbd_getchar k)))" .
  have "kbd_getchars (Suc m) k = scast (kbd_buffer k (kbd_read_pos k)) # kbd_getchars m (snd (kbd_getchar k))" for m
    by (subst kbd_getchars.simps, subst g) simp
  with IH show ?case unfolding p(2) by simp
qed

text \<open>
  C28. What is typed is read: as long as the buffer has room, the characters of the pressed keys,
  with the shift state applied, come out of \<^verbatim>\<open>kbd_getchar\<close> in the order they were typed behind
  those that were waiting.
\<close>

theorem kbd_delivers_typed:
  assumes "kbd_ok k" "plist (procs s) (proc_list s) ps"
    and "length (kbd_items k) + length (typed (shift_pressed k) codes) \<le> 255"
  shows "\<exists>k' s'. kbd_interrupts codes k s = Some (k', s')
    \<and> kbd_getchars (length (kbd_items k) + length (typed (shift_pressed k) codes)) k'
      = map scast (kbd_items k @ typed (shift_pressed k) codes)"
proof -
  from kbd_interrupts_items [OF assms] obtain k' s' where k': "kbd_interrupts codes k s = Some (k', s')" "kbd_ok k'"
    "kbd_items k' = kbd_items k @ typed (shift_pressed k) codes" by blast
  with kbd_getchars_items [OF k'(2)] show ?thesis by simp
qed

definition kbd_example :: kbd_state where
  "kbd_example = \<lparr>kbd_buffer = (\<lambda>_. 0), kbd_read_pos = 254, kbd_write_pos = 254, shift_pressed = False\<rparr>"

text \<open>Shift and \<^verbatim>\<open>h\<close>, then \<^verbatim>\<open>i\<close> and the key 2, with the releases in between.\<close>

lemma kbd_delivers_typed_witness:
  "\<exists>k' s'. kbd_interrupts [0x2a, 0x23, 0xa3, 0xaa, 0x17, 0x97, 0x03] kbd_example sched_example = Some (k', s')
    \<and> kbd_getchars 3 k' = [72, 105, 50]"
proof -
  have t: "typed False [0x2a, 0x23, 0xa3, 0xaa, 0x17, 0x97, 0x03] = [72, 105, 50]"
    by (simp add: lookup_scancode_def scancode_table_def scancode_table_shift_def)
  have e: "kbd_ok kbd_example" "kbd_items kbd_example = []" "shift_pressed kbd_example = False"
    by (simp_all add: kbd_example_def kbd_ok_def kbd_items_def kbd_count_def)
  have "plist (procs sched_example) (proc_list sched_example) [0x100, 0x200, 0x300]"
    using sched_example_ok unfolding sched_ok_def sched_list_def by blast
  from kbd_delivers_typed [OF e(1) this, of "[0x2a, 0x23, 0xa3, 0xaa, 0x17, 0x97, 0x03]"] show ?thesis
    unfolding e t by (simp add: numeral_3_eq_3)
qed

end
