(* ===== verification/Rtc.thy ===== *)
theory Rtc
  imports Prelude
begin

text \<open>
  The clock \<^verbatim>\<open>src/src/devices/rtc.c\<close>: reading the CMOS registers, calendar time to seconds since
  1970 and back, and the current time from the timer ticks. The programmable timer's divisor
  (\<^verbatim>\<open>src/src/devices/pit.c\<close>) is here too.

  \<open>None\<close> stands for an endless loop or an access outside the table of month lengths.
\<close>

section \<open>Calendar time\<close>

record rtc_time =
  rt_seconds :: u8
  rt_minutes :: u8
  rt_hours :: u8
  rt_day :: u8
  rt_month :: u8
  rt_year :: u16

definition days_in_month :: "bool \<Rightarrow> nat \<Rightarrow> u16 option" where
  "days_in_month leap i =
     (if i < 12 then Some ([31, if leap then 29 else 28, 31, 30, 31, 30, 31, 31, 30, 31, 30, 31] ! i) else None)"

definition bcd_to_bin :: "u8 \<Rightarrow> u8" where
  "bcd_to_bin bcd = (bcd AND 0x0f) + drop_bit 4 bcd * 10"

definition is_leap :: "u16 \<Rightarrow> bool" where
  "is_leap year \<longleftrightarrow> year mod 4 = 0 \<and> year mod 100 \<noteq> 0 \<or> year mod 400 = 0"

function days_loop :: "u16 \<Rightarrow> u16 \<Rightarrow> u32 \<Rightarrow> u32" where
  "days_loop y year days =
     (if y < year then days_loop (y + 1) year (days + (if is_leap y then 366 else 365)) else days)"
  by pat_completeness auto

termination
  by (relation "measure (\<lambda>(y, year, _). unat year - unat y)") (auto intro: count_up)

declare days_loop.simps [simp del]

definition days_since_epoch_to_year :: "u16 \<Rightarrow> u32" where
  "days_since_epoch_to_year year = days_loop 1970 year 0"

text \<open>The registers are a function; the wait for the end of an update ends at once or never.\<close>

definition rtc_read :: "(u8 \<Rightarrow> u8) \<Rightarrow> rtc_time option" where
  "rtc_read cmos =
     (if cmos 0x0a AND 0x80 \<noteq> 0 then None
      else (let conv = (if cmos 0x0b AND 0x04 = 0 then bcd_to_bin else (\<lambda>x. x)) in
            Some \<lparr>rt_seconds = conv (cmos 0x00), rt_minutes = conv (cmos 0x02), rt_hours = conv (cmos 0x04),
                  rt_day = conv (cmos 0x07), rt_month = conv (cmos 0x08),
                  rt_year = ucast (conv (cmos 0x09)) + 2000\<rparr>))"

function month_sum :: "bool \<Rightarrow> u8 \<Rightarrow> u8 \<Rightarrow> u32 \<Rightarrow> u32 option" where
  "month_sum leap m month days =
     (if m < month then
        (case days_in_month leap (unat m - 1) of None \<Rightarrow> None
         | Some d \<Rightarrow> month_sum leap (m + 1) month (days + ucast d))
      else Some days)"
  by pat_completeness auto

termination
  by (relation "measure (\<lambda>(_, m, month, _). unat month - unat m)") (auto intro: count_up)

declare month_sum.simps [simp del]

definition rtc_to_epoch :: "rtc_time \<Rightarrow> u32 option" where
  "rtc_to_epoch t =
     (case month_sum (is_leap (rt_year t)) 1 (rt_month t) (days_since_epoch_to_year (rt_year t)) of None \<Rightarrow> None
      | Some days0 \<Rightarrow>
          (let days = days0 + (ucast (rt_day t) - 1)
           in Some (days * 86400 + ucast (rt_hours t) * 3600 + ucast (rt_minutes t) * 60 + ucast (rt_seconds t))))"

function year_loop :: "u32 \<Rightarrow> u16 \<Rightarrow> u32 \<times> u16" where
  "year_loop days year =
     (let days_in_year = (if is_leap year then 366 else 365) in
      if days < days_in_year then (days, year) else year_loop (days - days_in_year) (year + 1))"
  by pat_completeness auto

termination
  by (relation "measure (\<lambda>(days, _). unat days)") (auto simp: not_less word_le_nat_alt unat_sub split: if_splits)

declare year_loop.simps [simp del]

partial_function (option) month_loop :: "bool \<Rightarrow> u32 \<Rightarrow> u8 \<Rightarrow> (u32 \<times> u8) option" where
  "month_loop leap days month =
     (case days_in_month leap (unat month - 1) of None \<Rightarrow> None
      | Some d \<Rightarrow> if ucast d \<le> days then month_loop leap (days - ucast d) (month + 1) else Some (days, month))"

definition epoch_to_rtc :: "u32 \<Rightarrow> rtc_time option" where
  "epoch_to_rtc epoch =
     (let seconds = epoch mod 60; epoch1 = epoch div 60;
          minutes = epoch1 mod 60; epoch2 = epoch1 div 60;
          hours = epoch2 mod 24; epoch3 = epoch2 div 24
      in case year_loop epoch3 1970 of (days, year) \<Rightarrow>
           (case month_loop (is_leap year) days 1 of None \<Rightarrow> None
            | Some (days', month) \<Rightarrow>
                Some \<lparr>rt_seconds = ucast seconds, rt_minutes = ucast minutes, rt_hours = ucast hours,
                      rt_day = ucast (days' + 1), rt_month = month, rt_year = year\<rparr>))"

section \<open>The clock\<close>

record rtc_state =
  boot_time :: rtc_time
  boot_epoch :: u32
  boot_ticks :: u32

definition rtc_sync :: "(u8 \<Rightarrow> u8) \<Rightarrow> u32 \<Rightarrow> rtc_state option" where
  "rtc_sync cmos ticks =
     (case rtc_read cmos of None \<Rightarrow> None
      | Some t \<Rightarrow> (case rtc_to_epoch t of None \<Rightarrow> None
          | Some e \<Rightarrow> Some \<lparr>boot_time = t, boot_epoch = e, boot_ticks = ticks\<rparr>))"

definition rtc_init :: "(u8 \<Rightarrow> u8) \<Rightarrow> u32 \<Rightarrow> rtc_state option" where
  "rtc_init cmos ticks = rtc_sync cmos ticks"

definition rtc_now_epoch :: "(u8 \<Rightarrow> u8) \<Rightarrow> u32 \<Rightarrow> rtc_state \<Rightarrow> (u32 \<times> rtc_state) option" where
  "rtc_now_epoch cmos ticks r =
     (let elapsed_sec = (ticks - boot_ticks r) div 100 in
      if 60 \<le> elapsed_sec then map_option (\<lambda>r'. (boot_epoch r', r')) (rtc_sync cmos ticks)
      else Some (boot_epoch r + elapsed_sec, r))"

definition rtc_now :: "(u8 \<Rightarrow> u8) \<Rightarrow> u32 \<Rightarrow> rtc_state \<Rightarrow> (rtc_time \<times> rtc_state) option" where
  "rtc_now cmos ticks r =
     (case rtc_now_epoch cmos ticks r of None \<Rightarrow> None
      | Some (e, r') \<Rightarrow> map_option (\<lambda>t. (t, r')) (epoch_to_rtc e))"

text \<open>The writes to the ports of the timer; \<open>None\<close> is a division by zero.\<close>

definition pit_init :: "u32 \<Rightarrow> (u16 \<times> u8) list option" where
  "pit_init frequency =
     (if frequency = 0 then None
      else (let divisor = 1193182 div frequency
            in Some [(0x43, 0x36), (0x40, ucast (divisor AND 0xff)), (0x40, ucast (drop_bit 8 divisor AND 0xff))]))"

section \<open>Days of years and months as natural numbers\<close>

definition leap_year :: "nat \<Rightarrow> bool" where
  "leap_year y \<longleftrightarrow> y mod 4 = 0 \<and> y mod 100 \<noteq> 0 \<or> y mod 400 = 0"

definition year_length :: "nat \<Rightarrow> nat" where
  "year_length y = (if leap_year y then 366 else 365)"

fun days_before_year :: "nat \<Rightarrow> nat \<Rightarrow> nat" where
  "days_before_year y 0 = 0"
| "days_before_year y (Suc k) = days_before_year y k + year_length (y + k)"

definition month_length :: "bool \<Rightarrow> nat \<Rightarrow> nat" where
  "month_length leap i = [31, if leap then 29 else 28, 31, 30, 31, 30, 31, 31, 30, 31, 30, 31] ! i"

fun days_before_month :: "bool \<Rightarrow> nat \<Rightarrow> nat" where
  "days_before_month leap 0 = 0"
| "days_before_month leap (Suc i) = days_before_month leap i + month_length leap i"

lemma is_leap_nat: "is_leap y = leap_year (unat y)"
  by (simp add: is_leap_def leap_year_def word_unat_eq_iff unat_mod)

lemma leap_days: "(if is_leap y then 366 else 365) = (of_nat (year_length (unat y)) :: u32)"
  by (simp add: is_leap_nat year_length_def)

lemma year_length_bounds: "365 \<le> year_length y" "year_length y \<le> 366"
  by (simp_all add: year_length_def)

lemma days_before_year_shift: "days_before_year y (Suc k) = year_length y + days_before_year (Suc y) k"
  by (induction k) simp_all

lemma days_before_year_mono: "j \<le> k \<Longrightarrow> days_before_year y j \<le> days_before_year y k"
  by (induction k) (auto simp: le_Suc_eq)

lemma days_before_year_ge: "365 * k \<le> days_before_year y k"
proof (induction k)
  case (Suc k)
  then show ?case using year_length_bounds(1) [of "y + k"] by simp
qed simp

lemma days_before_month_year: "days_before_month (leap_year y) 12 = year_length y"
  by (simp add: year_length_def month_length_def eval_nat_numeral)

lemma days_before_month_mono: "i \<le> j \<Longrightarrow> days_before_month leap i \<le> days_before_month leap j"
  by (induction j) (auto simp: le_Suc_eq)

lemma u16_Suc: "unat y < 65535 \<Longrightarrow> unat (y + 1 :: u16) = Suc (unat y)"
  by (subst unat_add_lem [THEN iffD1]) auto

lemma days_loop_eq: "days_loop y year d = d + of_nat (days_before_year (unat y) (unat year - unat y))"
proof (induction y year d rule: days_loop.induct)
  case (1 y year d)
  show ?case
  proof (cases "y < year")
    case False
    then have "unat year \<le> unat y" by (simp add: not_less word_le_nat_alt)
    with False show ?thesis by (subst days_loop.simps) simp
  next
    case True
    then have lt: "unat y < unat year" by (simp add: word_less_nat_alt)
    then have s: "unat (y + 1) = Suc (unat y)" using u16_less [of year] by (intro u16_Suc) simp
    from lt have k: "unat year - unat y = Suc (unat year - Suc (unat y))" by simp
    have "days_loop y year d = days_loop (y + 1) year (d + of_nat (year_length (unat y)))"
      using True by (subst days_loop.simps) (simp only: leap_days if_True)
    also have "\<dots> = d + of_nat (year_length (unat y)) + of_nat (days_before_year (Suc (unat y)) (unat year - Suc (unat y)))"
      using 1 [OF True] unfolding leap_days s .
    finally show ?thesis unfolding k days_before_year_shift by (simp add: add.assoc)
  qed
qed

lemma year_loop_eq:
  assumes "unat y + unat d < 65535"
  shows "\<exists>k. year_loop d y = (d - of_nat (days_before_year (unat y) k), y + of_nat k)
    \<and> days_before_year (unat y) k \<le> unat d \<and> unat d < days_before_year (unat y) (Suc k) \<and> k \<le> unat d"
  using assms
proof (induction d y rule: year_loop.induct)
  case (1 d y)
  let ?l = "(if is_leap y then 366 else 365) :: u32"
  have l: "unat ?l = year_length (unat y)" by (simp add: is_leap_nat year_length_def)
  show ?case
  proof (cases "d < ?l")
    case True
    then have "unat d < year_length (unat y)" using l by (simp add: word_less_nat_alt)
    with True show ?thesis by (subst year_loop.simps) (auto intro!: exI [of _ 0])
  next
    case False
    then have le: "year_length (unat y) \<le> unat d" using l by (simp add: word_less_nat_alt)
    have d: "unat (d - ?l) = unat d - year_length (unat y)"
      using False l by (subst unat_sub) (simp_all add: not_less)
    have y: "unat (y + 1) = Suc (unat y)" using "1.prems" le year_length_bounds(1) [of "unat y"] by (intro u16_Suc) simp
    have "unat (y + 1) + unat (d - ?l) < 65535" using "1.prems" le year_length_bounds(1) [of "unat y"] by (simp add: d y)
    from "1.IH" [OF refl False this] obtain k where k: "year_loop (d - ?l) (y + 1) =
      (d - ?l - of_nat (days_before_year (Suc (unat y)) k), y + 1 + of_nat k)"
      "days_before_year (Suc (unat y)) k \<le> unat d - year_length (unat y)"
      "unat d - year_length (unat y) < days_before_year (Suc (unat y)) (Suc k)" "k \<le> unat d - year_length (unat y)"
      unfolding d y by blast
    have ofl: "?l = of_nat (year_length (unat y))" by (simp add: is_leap_nat year_length_def)
    have "year_loop d y = year_loop (d - ?l) (y + 1)" using False by (subst year_loop.simps) (simp only: Let_def if_False)
    from trans [OF this k(1)]
    have "year_loop d y = (d - of_nat (days_before_year (unat y) (Suc k)), y + of_nat (Suc k))"
      unfolding days_before_year_shift ofl by (simp only: of_nat_add of_nat_Suc add.assoc diff_diff_eq)
    moreover have "days_before_year (unat y) (Suc k) \<le> unat d" "unat d < days_before_year (unat y) (Suc (Suc k))" "Suc k \<le> unat d"
      using days_before_year_shift [of "unat y" k] days_before_year_shift [of "unat y" "Suc k"]
        k(2-4) le year_length_bounds(1) [of "unat y"] by linarith+
    ultimately show ?thesis by blast
  qed
qed

lemma dim_Some: "i < 12 \<Longrightarrow> \<exists>d. days_in_month leap i = Some d \<and> unat d = month_length leap i \<and> (ucast d :: u32) = of_nat (month_length leap i)"
proof -
  assume "i < 12"
  then have "i = 0 \<or> i = 1 \<or> i = 2 \<or> i = 3 \<or> i = 4 \<or> i = 5 \<or> i = 6 \<or> i = 7 \<or> i = 8 \<or> i = 9 \<or> i = 10 \<or> i = 11"
    by presburger
  then show ?thesis by (auto simp: days_in_month_def month_length_def)
qed

lemma u8_Suc: "unat m < 255 \<Longrightarrow> unat (m + 1 :: u8) = Suc (unat m)"
  by (subst unat_add_lem [THEN iffD1]) auto

lemma month_sum_eq:
  assumes "1 \<le> unat m" "unat m \<le> unat month" "unat month \<le> 12"
  shows "month_sum leap m month d =
    Some (d + of_nat (days_before_month leap (unat month - 1) - days_before_month leap (unat m - 1)))"
  using assms
proof (induction leap m month d rule: month_sum.induct)
  case (1 leap m month d)
  show ?case
  proof (cases "m < month")
    case False
    then have "unat m = unat month" using "1.prems" by (simp add: not_less word_le_nat_alt)
    with False show ?thesis by (subst month_sum.simps) simp
  next
    case True
    then have lt: "unat m < unat month" by (simp add: word_less_nat_alt)
    have "unat m - 1 < 12" using "1.prems" lt by linarith
    from dim_Some [OF this] obtain dm where dm: "days_in_month leap (unat m - 1) = Some dm"
      "(ucast dm :: u32) = of_nat (month_length leap (unat m - 1))" by blast
    have s: "unat (m + 1) = Suc (unat m)" using lt "1.prems"(3) by (intro u8_Suc) simp
    have "month_sum leap m month d = month_sum leap (m + 1) month (d + ucast dm)"
      using True dm by (subst month_sum.simps) simp
    also have "\<dots> = Some (d + ucast dm + of_nat (days_before_month leap (unat month - 1) - days_before_month leap (unat m)))"
      using "1.IH" [OF True dm(1)] "1.prems" lt s by simp
    also have "d + ucast dm + of_nat (days_before_month leap (unat month - 1) - days_before_month leap (unat m)) =
      d + of_nat (days_before_month leap (unat month - 1) - days_before_month leap (unat m - 1))"
    proof -
      have "unat m = Suc (unat m - 1)" using "1.prems"(1) by simp
      then have e: "days_before_month leap (unat m) = days_before_month leap (unat m - 1) + month_length leap (unat m - 1)"
        by (metis days_before_month.simps(2))
      have "days_before_month leap (unat m) \<le> days_before_month leap (unat month - 1)"
        using lt by (intro days_before_month_mono) simp
      then have "days_before_month leap (unat month - 1) - days_before_month leap (unat m - 1) =
        month_length leap (unat m - 1) + (days_before_month leap (unat month - 1) - days_before_month leap (unat m))"
        using e by simp
      then show ?thesis unfolding dm(2) by (simp only: of_nat_add add.assoc)
    qed
    finally show ?thesis .
  qed
qed

lemma month_loop_eq:
  assumes "1 \<le> unat m" "unat m \<le> 12" "days_before_month leap (unat m - 1) + unat d < days_before_month leap 12"
  shows "\<exists>k. unat m + k \<le> 12 \<and> month_loop leap d m =
      Some (d - of_nat (days_before_month leap (unat m - 1 + k) - days_before_month leap (unat m - 1)), m + of_nat k)
    \<and> days_before_month leap (unat m - 1 + k) \<le> days_before_month leap (unat m - 1) + unat d
    \<and> days_before_month leap (unat m - 1) + unat d < days_before_month leap (unat m + k)"
  using assms
proof (induction "12 - unat m" arbitrary: m d)
  case 0
  then have m: "unat m = 12" by simp
  obtain dm where dm: "days_in_month leap 11 = Some dm" "unat dm = month_length leap 11" using dim_Some [of 11] by auto
  have "days_before_month leap 12 = days_before_month leap 11 + month_length leap 11" by (simp add: eval_nat_numeral)
  with 0 m have "unat d < month_length leap 11" by simp
  then have "month_loop leap d m = Some (d, m)"
    using m dm by (subst month_loop.simps) (simp add: word_le_nat_alt)
  with 0 m show ?case by (intro exI [of _ 0]) simp
next
  case (Suc n)
  define i where "i = unat m - 1"
  have i: "unat m = Suc i" using Suc.prems(1) by (simp add: i_def)
  obtain dm where dm: "days_in_month leap i = Some dm" "unat dm = month_length leap i" "(ucast dm :: u32) = of_nat (month_length leap i)"
    using dim_Some [of i leap] Suc.prems(2) i by auto
  show ?case
  proof (cases "ucast dm \<le> d")
    case False
    then have "unat d < month_length leap i" using dm(2) by (simp add: word_le_nat_alt)
    moreover from False have "month_loop leap d m = Some (d, m)" using dm(1) i by (subst month_loop.simps) simp
    ultimately show ?thesis using Suc.prems(2) i by (intro exI [of _ 0]) simp
  next
    case True
    then have le: "month_length leap i \<le> unat d" using dm(2) by (simp add: word_le_nat_alt)
    have d: "unat (d - ucast dm) = unat d - month_length leap i" using True dm(2) by (subst unat_sub) simp_all
    have m1: "unat (m + 1) = Suc (Suc i)" using Suc.hyps(2) i by (subst u8_Suc) simp_all
    have b: "days_before_month leap (Suc i) = days_before_month leap i + month_length leap i" by simp
    have "n = 12 - unat (m + 1)" "1 \<le> unat (m + 1)" "unat (m + 1) \<le> 12"
      "days_before_month leap (unat (m + 1) - 1) + unat (d - ucast dm) < days_before_month leap 12"
      using Suc.hyps(2) Suc.prems(3) i m1 d le b by (simp_all del: days_before_month.simps)
    from Suc.hyps(1) [OF this] obtain k where k: "Suc (Suc i) + k \<le> 12"
      "month_loop leap (d - ucast dm) (m + 1) =
        Some (d - ucast dm - of_nat (days_before_month leap (Suc i + k) - days_before_month leap (Suc i)), m + 1 + of_nat k)"
      "days_before_month leap (Suc i + k) \<le> days_before_month leap (Suc i) + unat (d - ucast dm)"
      "days_before_month leap (Suc i) + unat (d - ucast dm) < days_before_month leap (Suc (Suc i) + k)"
      unfolding m1 by (auto simp del: days_before_month.simps)
    have step: "month_loop leap d m = month_loop leap (d - ucast dm) (m + 1)"
      using True dm(1) i by (subst month_loop.simps) simp
    have mono: "days_before_month leap (Suc i) \<le> days_before_month leap (Suc i + k)" by (rule days_before_month_mono) simp
    then have sum: "days_before_month leap (Suc i + k) - days_before_month leap i =
      month_length leap i + (days_before_month leap (Suc i + k) - days_before_month leap (Suc i))" using b by simp
    from trans [OF step k(2)]
    have "month_loop leap d m = Some (d - of_nat (days_before_month leap (Suc i + k) - days_before_month leap i), m + of_nat (Suc k))"
      unfolding sum dm(3) by (simp only: of_nat_add of_nat_Suc add.assoc diff_diff_eq)
    then show ?thesis
      using k(1,3,4) b d le i by (intro exI [of _ "Suc k"]) (simp del: days_before_month.simps)
  qed
qed

section \<open>Calendar time and seconds\<close>

definition valid_time :: "rtc_time \<Rightarrow> bool" where
  "valid_time t \<longleftrightarrow> rt_seconds t < 60 \<and> rt_minutes t < 60 \<and> rt_hours t < 24 \<and> 1970 \<le> rt_year t
     \<and> 1 \<le> rt_month t \<and> rt_month t \<le> 12 \<and> 1 \<le> rt_day t
     \<and> unat (rt_day t) \<le> month_length (leap_year (unat (rt_year t))) (unat (rt_month t) - 1)"

definition time_days :: "rtc_time \<Rightarrow> nat" where
  "time_days t = days_before_year 1970 (unat (rt_year t) - 1970)
     + days_before_month (leap_year (unat (rt_year t))) (unat (rt_month t) - 1) + (unat (rt_day t) - 1)"

definition time_seconds :: "rtc_time \<Rightarrow> nat" where
  "time_seconds t = time_days t * 86400 + unat (rt_hours t) * 3600 + unat (rt_minutes t) * 60 + unat (rt_seconds t)"

lemma ucast_of_nat: "(ucast (a :: u8) :: u32) = of_nat (unat a)"
  by simp

lemma rtc_to_epoch_eq:
  assumes "valid_time t"
  shows "rtc_to_epoch t = Some (of_nat (time_seconds t))"
proof -
  let ?leap = "leap_year (unat (rt_year t))"
  have m: "1 \<le> unat (rt_month t)" "unat (rt_month t) \<le> 12" "1 \<le> unat (rt_day t)"
    using assms by (simp_all add: valid_time_def word_le_nat_alt)
  have ms: "month_sum (is_leap (rt_year t)) 1 (rt_month t) d = Some (d + of_nat (days_before_month ?leap (unat (rt_month t) - 1)))" for d
    using month_sum_eq [of 1 "rt_month t" "is_leap (rt_year t)" d] m by (simp add: is_leap_nat)
  have dy: "days_since_epoch_to_year (rt_year t) = of_nat (days_before_year 1970 (unat (rt_year t) - 1970))"
    by (simp add: days_since_epoch_to_year_def days_loop_eq)
  have "(ucast (rt_day t) - 1 :: u32) = of_nat (unat (rt_day t) - 1)"
    using m(3) by (simp add: of_nat_diff)
  then have "of_nat (days_before_year 1970 (unat (rt_year t) - 1970)) + of_nat (days_before_month ?leap (unat (rt_month t) - 1))
    + (ucast (rt_day t) - 1 :: u32) = of_nat (time_days t)" by (simp only: time_days_def of_nat_add)
  then show ?thesis
    unfolding rtc_to_epoch_def ms dy by (simp add: time_seconds_def)
qed

lemma word_div_mod_u32: "unat (a div of_nat n :: u32) = unat a div n" "unat (a mod of_nat n :: u32) = unat a mod n" if "n < 2 ^ 32"
  using that by (simp_all add: unat_div unat_mod)

lemma unat_ucast_small: "unat (a :: u32) < 256 \<Longrightarrow> unat (ucast a :: u8) = unat a"
  by (simp add: unsigned_ucast_eq take_bit_nat_eq_self)

lemma split_seconds:
  "E div 60 div 60 div 24 * 86400 + E div 60 div 60 mod 24 * 3600 + E div 60 mod 60 * 60 + E mod 60 = E" for E :: nat
  using div_mult_mod_eq [of E 60] div_mult_mod_eq [of "E div 60" 60] div_mult_mod_eq [of "E div 60 div 60" 24] by linarith

lemma radix: "a * k + s = b * k + s' \<Longrightarrow> s < k \<Longrightarrow> s' < k \<Longrightarrow> a = b \<and> s = s'" for a b k s s' :: nat
proof -
  assume e: "a * k + s = b * k + s'" and s: "s < k" "s' < k"
  have "(a * k + s) div k = a" "(a * k + s) mod k = s" "(b * k + s') div k = b" "(b * k + s') mod k = s'" using s by simp_all
  with e show ?thesis by metis
qed

lemma epoch_to_rtc_spec: "\<exists>t. epoch_to_rtc e = Some t \<and> valid_time t \<and> time_seconds t = unat e"
proof -
  define E where "E = unat e"
  have E: "E < 4294967296" using u32_less [of e] by (simp add: E_def)
  have u: "unat (e mod 60) = E mod 60" "unat (e div 60 mod 60) = E div 60 mod 60"
    "unat (e div 60 div 60 mod 24) = E div 60 div 60 mod 24" "unat (e div 60 div 60 div 24) = E div 60 div 60 div 24"
    by (simp_all add: unat_div unat_mod E_def)
  define D where "D = E div 60 div 60 div 24"
  have D: "D < 50000" using E unfolding D_def by (simp add: div_mult2_eq [symmetric] div_less_iff_less_mult)
  have "unat (1970 :: u16) + unat (e div 60 div 60 div 24) < 65535" using D by (simp add: u D_def)
  from year_loop_eq [OF this] obtain k where
    yl: "year_loop (e div 60 div 60 div 24) 1970 = (e div 60 div 60 div 24 - of_nat (days_before_year 1970 k), 1970 + of_nat k)"
    and k: "days_before_year 1970 k \<le> D" "D < days_before_year 1970 (Suc k)" unfolding u D_def by auto
  have "365 * k \<le> D" using days_before_year_ge [of k 1970] k(1) by linarith
  then have kl: "k < 1000" using D by linarith
  have y: "unat (1970 + of_nat k :: u16) = 1970 + k"
    using kl by (subst unat_add_lem [THEN iffD1]) (simp_all add: unat_of_nat)
  let ?r = "e div 60 div 60 div 24 - of_nat (days_before_year 1970 k)" and ?leap = "leap_year (1970 + k)"
  have dby: "unat (of_nat (days_before_year 1970 k) :: u32) = days_before_year 1970 k" using k(1) D by (intro unat_of_nat_u32) simp
  have r: "unat ?r = D - days_before_year 1970 k"
    using k(1) by (subst unat_sub) (simp_all add: word_le_nat_alt dby u D_def)
  have rl: "unat ?r < days_before_month ?leap 12" using k r by (simp add: days_before_month_year)
  from month_loop_eq [of 1 ?leap ?r] rl obtain j where j: "1 + j \<le> 12"
    and ml: "month_loop ?leap ?r 1 = Some (?r - of_nat (days_before_month ?leap j), 1 + of_nat j)"
    and jb: "days_before_month ?leap j \<le> unat ?r" "unat ?r < days_before_month ?leap (Suc j)" by auto
  have dbm: "unat (of_nat (days_before_month ?leap j) :: u32) = days_before_month ?leap j"
    using jb(1) r D by (intro unat_of_nat_u32) simp
  have q: "unat (?r - of_nat (days_before_month ?leap j)) = unat ?r - days_before_month ?leap j"
    using jb(1) by (subst unat_sub) (simp_all add: word_le_nat_alt dbm)
  have q31: "unat ?r - days_before_month ?leap j < month_length ?leap j" using jb by simp
  have ml31: "month_length ?leap j \<le> 31" using j dim_Some [of j ?leap]
    by (cases "j = 1") (auto simp: month_length_def nth_Cons' split: if_splits)
  let ?q = "?r - of_nat (days_before_month ?leap j)"
  have q1: "unat (?q + 1) = unat ?q + 1" using q q31 ml31 by (subst unat_add_lem [THEN iffD1]) auto
  have mo: "unat (1 + of_nat j :: u8) = 1 + j" using j by (subst unat_add_lem [THEN iffD1]) (simp_all add: unat_of_nat)
  define t where "t = \<lparr>rt_seconds = ucast (e mod 60), rt_minutes = ucast (e div 60 mod 60), rt_hours = ucast (e div 60 div 60 mod 24),
    rt_day = ucast (?q + 1), rt_month = 1 + of_nat j, rt_year = 1970 + of_nat k\<rparr>"
  have run: "epoch_to_rtc e = Some t"
    using ml by (simp add: epoch_to_rtc_def Let_def yl is_leap_nat y t_def)
  have f: "unat (rt_seconds t) = E mod 60" "unat (rt_minutes t) = E div 60 mod 60" "unat (rt_hours t) = E div 60 div 60 mod 24"
    "unat (rt_day t) = unat ?q + 1" "unat (rt_month t) = 1 + j" "unat (rt_year t) = 1970 + k"
    unfolding t_def rtc_time.simps using q q31 ml31 by (simp_all add: unat_ucast_small u q1 mo y)
  have "valid_time t"
    using f j q q31 by (simp add: valid_time_def word_less_nat_alt word_le_nat_alt)
  moreover have "time_days t = D"
    using f q jb(1) k(1) r by (simp add: time_days_def) linarith
  then have "time_seconds t = E"
    unfolding time_seconds_def f D_def by (simp only: split_seconds)
  ultimately show ?thesis using run by (auto simp: E_def)
qed

lemma days_before_year_unique:
  assumes "a + days_before_year y j = b + days_before_year y k" "a < year_length (y + j)" "b < year_length (y + k)"
  shows "j = k"
proof (rule ccontr)
  assume "j \<noteq> k"
  then consider "Suc j \<le> k" | "Suc k \<le> j" by linarith
  then show False
  proof cases
    case 1
    from days_before_year_mono [OF 1, of y] assms show False by simp
  next
    case 2
    from days_before_year_mono [OF 2, of y] assms show False by simp
  qed
qed

lemma days_before_month_unique:
  assumes "a + days_before_month l i = b + days_before_month l j" "a < month_length l i" "b < month_length l j"
  shows "i = j"
proof (rule ccontr)
  assume "i \<noteq> j"
  then consider "Suc i \<le> j" | "Suc j \<le> i" by linarith
  then show False
  proof cases
    case 1
    from days_before_month_mono [OF 1, of l] assms show False by simp
  next
    case 2
    from days_before_month_mono [OF 2, of l] assms show False by simp
  qed
qed

lemma valid_timeD:
  assumes "valid_time t"
  shows "unat (rt_seconds t) < 60" "unat (rt_minutes t) < 60" "unat (rt_hours t) < 24" "1970 \<le> unat (rt_year t)"
    "1 \<le> unat (rt_month t)" "unat (rt_month t) \<le> 12" "1 \<le> unat (rt_day t)"
    "unat (rt_day t) - 1 < month_length (leap_year (unat (rt_year t))) (unat (rt_month t) - 1)"
    "days_before_month (leap_year (unat (rt_year t))) (unat (rt_month t) - 1) + (unat (rt_day t) - 1) < year_length (unat (rt_year t))"
proof -
  show a: "unat (rt_seconds t) < 60" "unat (rt_minutes t) < 60" "unat (rt_hours t) < 24" "1970 \<le> unat (rt_year t)"
    "1 \<le> unat (rt_month t)" "unat (rt_month t) \<le> 12" "1 \<le> unat (rt_day t)"
    using assms by (simp_all add: valid_time_def word_le_nat_alt word_less_nat_alt)
  show b: "unat (rt_day t) - 1 < month_length (leap_year (unat (rt_year t))) (unat (rt_month t) - 1)"
    using assms a(7) unfolding valid_time_def by linarith
  let ?l = "leap_year (unat (rt_year t))"
  have "days_before_month ?l (Suc (unat (rt_month t) - 1)) \<le> days_before_month ?l 12"
    using a(5,6) by (intro days_before_month_mono) simp
  with b show "days_before_month ?l (unat (rt_month t) - 1) + (unat (rt_day t) - 1) < year_length (unat (rt_year t))"
    by (simp add: days_before_month_year)
qed

lemma time_seconds_inj:
  assumes "valid_time t" "valid_time u" "time_seconds t = time_seconds u"
  shows "t = u"
proof -
  note T = valid_timeD [OF assms(1)] and U = valid_timeD [OF assms(2)]
  have parts: "n * 86400 + h * 3600 + m * 60 + s = n' * 86400 + h' * 3600 + m' * 60 + s' \<Longrightarrow> h < 24 \<Longrightarrow> m < 60 \<Longrightarrow> s < 60
    \<Longrightarrow> h' < 24 \<Longrightarrow> m' < 60 \<Longrightarrow> s' < 60 \<Longrightarrow> n = n' \<and> h = h' \<and> m = m' \<and> s = s'" for n h m s n' h' m' s' :: nat
  proof -
    assume e: "n * 86400 + h * 3600 + m * 60 + s = n' * 86400 + h' * 3600 + m' * 60 + s'"
      and b: "h < 24" "m < 60" "s < 60" "h' < 24" "m' < 60" "s' < 60"
    have "(n * 1440 + h * 60 + m) * 60 + s = (n' * 1440 + h' * 60 + m') * 60 + s'" using e by simp
    from radix [OF this] b have 1: "(n * 24 + h) * 60 + m = (n' * 24 + h') * 60 + m'" "s = s'" by auto
    from radix [OF 1(1)] b have 2: "n * 24 + h = n' * 24 + h'" "m = m'" by auto
    from radix [OF 2(1)] b 1(2) 2(2) show ?thesis by auto
  qed
  from parts [OF assms(3) [unfolded time_seconds_def] T(3,2,1) U(3,2,1)]
  have eq: "time_days t = time_days u" "unat (rt_hours t) = unat (rt_hours u)" "unat (rt_minutes t) = unat (rt_minutes u)"
    "unat (rt_seconds t) = unat (rt_seconds u)" by auto
  have y: "unat (rt_year t) - 1970 = unat (rt_year u) - 1970"
  proof (rule days_before_year_unique)
    show "days_before_month (leap_year (unat (rt_year t))) (unat (rt_month t) - 1) + (unat (rt_day t) - 1)
      + days_before_year 1970 (unat (rt_year t) - 1970) =
      days_before_month (leap_year (unat (rt_year u))) (unat (rt_month u) - 1) + (unat (rt_day u) - 1)
      + days_before_year 1970 (unat (rt_year u) - 1970)"
      using eq(1) unfolding time_days_def by linarith
  qed (use T U in simp_all)
  with T(4) U(4) have y': "unat (rt_year t) = unat (rt_year u)" by simp
  have d: "unat (rt_day t) - 1 + days_before_month (leap_year (unat (rt_year u))) (unat (rt_month t) - 1) =
    unat (rt_day u) - 1 + days_before_month (leap_year (unat (rt_year u))) (unat (rt_month u) - 1)"
    using eq(1) unfolding time_days_def y' by linarith
  have m: "unat (rt_month t) - 1 = unat (rt_month u) - 1"
    by (rule days_before_month_unique [OF d]) (use T(8) U(8) y' in simp_all)
  with d have "unat (rt_day t) - 1 = unat (rt_day u) - 1" by simp
  with m T(5,7) U(5,7) have "unat (rt_month t) = unat (rt_month u)" "unat (rt_day t) = unat (rt_day u)" by simp_all
  with eq y' show ?thesis by (simp add: rtc_time.equality word_unat_eq_iff)
qed

section \<open>Properties\<close>

text \<open>
  C29. Seconds and calendar time: \<^verbatim>\<open>epoch_to_rtc\<close> turns every 32-bit number of seconds into a
  valid calendar time that \<^verbatim>\<open>rtc_to_epoch\<close> turns back into it, and every valid calendar time
  that fits into 32 bits is the result for its own number of seconds.
\<close>

theorem rtc_epoch_roundtrip:
  "(\<exists>t. epoch_to_rtc e = Some t \<and> valid_time t \<and> rtc_to_epoch t = Some e)
   \<and> (valid_time u \<and> time_seconds u < 2 ^ 32 \<longrightarrow> (\<exists>e. rtc_to_epoch u = Some e \<and> epoch_to_rtc e = Some u))"
proof
  from epoch_to_rtc_spec [of e] obtain t where t: "epoch_to_rtc e = Some t" "valid_time t" "time_seconds t = unat e" by blast
  with rtc_to_epoch_eq [OF t(2)] show "\<exists>t. epoch_to_rtc e = Some t \<and> valid_time t \<and> rtc_to_epoch t = Some e" by auto
  show "valid_time u \<and> time_seconds u < 2 ^ 32 \<longrightarrow> (\<exists>e. rtc_to_epoch u = Some e \<and> epoch_to_rtc e = Some u)"
  proof
    assume u: "valid_time u \<and> time_seconds u < 2 ^ 32"
    then have n: "unat (of_nat (time_seconds u) :: u32) = time_seconds u" by simp
    from epoch_to_rtc_spec [of "of_nat (time_seconds u)"] obtain t where
      t: "epoch_to_rtc (of_nat (time_seconds u)) = Some t" "valid_time t" "time_seconds t = time_seconds u" unfolding n by blast
    with time_seconds_inj [of t u] u rtc_to_epoch_eq [of u]
    show "\<exists>e. rtc_to_epoch u = Some e \<and> epoch_to_rtc e = Some u" by auto
  qed
qed

text \<open>The last second of a leap day.\<close>

lemma rtc_epoch_roundtrip_witness:
  "\<exists>e. rtc_to_epoch \<lparr>rt_seconds = 59, rt_minutes = 59, rt_hours = 23, rt_day = 29, rt_month = 2, rt_year = 1972\<rparr> = Some e
    \<and> epoch_to_rtc e = Some \<lparr>rt_seconds = 59, rt_minutes = 59, rt_hours = 23, rt_day = 29, rt_month = 2, rt_year = 1972\<rparr>"
proof -
  let ?u = "\<lparr>rt_seconds = 59, rt_minutes = 59, rt_hours = 23, rt_day = 29, rt_month = 2, rt_year = 1972\<rparr>"
  have "valid_time ?u" by (simp add: valid_time_def month_length_def leap_year_def)
  moreover have "time_seconds ?u < 2 ^ 32"
  proof -
    have "days_before_year 1970 2 = 730" by (simp add: numeral_2_eq_2 year_length_def leap_year_def)
    moreover have "days_before_month l (Suc 0) = 31" for l by (simp add: month_length_def)
    ultimately show ?thesis by (simp add: time_seconds_def time_days_def)
  qed
  ultimately show ?thesis using rtc_epoch_roundtrip [of 0 ?u] by blast
qed

end
