(* ===== verification/Vga.thy ===== *)
theory Vga
  imports Prelude
begin

text \<open>
  The text terminal \<^verbatim>\<open>src/src/vga.c\<close>: a screen of 25 rows of 80 cells, control characters and the
  escape sequences for cursor, erasing and colours. The screen memory is a function from the
  cell number; the two bytes of the hardware cursor are one 16-bit register.

  A C \<^verbatim>\<open>int\<close> is a 32-bit word that is compared with its sign; a character is a byte.
\<close>

section \<open>The terminal\<close>

abbreviation VGA_WIDTH :: u32 where "VGA_WIDTH \<equiv> 80"
abbreviation VGA_HEIGHT :: u32 where "VGA_HEIGHT \<equiv> 25"
abbreviation ESC_MAX_PARAMS :: nat where "ESC_MAX_PARAMS \<equiv> 10"
abbreviation VGA_COLOR_BLACK :: u8 where "VGA_COLOR_BLACK \<equiv> 0"
abbreviation VGA_COLOR_WHITE :: u8 where "VGA_COLOR_WHITE \<equiv> 15"

datatype esc_state = ESC_NONE | ESC_START | ESC_PARAMS

record term_state =
  esc_mode :: esc_state
  esc_params :: "nat \<Rightarrow> u32"
  esc_param_count :: nat
  esc_cur_param :: u32
  esc_param_active :: bool
  term_row :: u32
  term_column :: u32
  term_color :: u8
  term_buffer :: "u32 \<Rightarrow> u16"
  hw_cursor :: u16

definition vga_entry :: "u8 \<Rightarrow> u8 \<Rightarrow> u16" where
  "vga_entry uc color = ucast uc OR push_bit 8 (ucast color)"

text \<open>Moving cells up one row, and filling cells with blanks, \<open>n\<close> cells from cell \<open>i\<close> on.\<close>

fun move_up :: "nat \<Rightarrow> u32 \<Rightarrow> (u32 \<Rightarrow> u16) \<Rightarrow> (u32 \<Rightarrow> u16)" where
  "move_up 0 i b = b"
| "move_up (Suc n) i b = move_up n (i + 1) (b(i := b (i + VGA_WIDTH)))"

fun fill_cells :: "nat \<Rightarrow> u32 \<Rightarrow> u16 \<Rightarrow> (u32 \<Rightarrow> u16) \<Rightarrow> (u32 \<Rightarrow> u16)" where
  "fill_cells 0 i v b = b"
| "fill_cells (Suc n) i v b = fill_cells n (i + 1) v (b(i := v))"

definition term_scroll :: "term_state \<Rightarrow> term_state" where
  "term_scroll s = s\<lparr>term_buffer :=
     fill_cells 80 ((VGA_HEIGHT - 1) * VGA_WIDTH) (vga_entry 32 (term_color s)) (move_up (24 * 80) 0 (term_buffer s))\<rparr>"

definition term_advance_row :: "term_state \<Rightarrow> term_state" where
  "term_advance_row s =
     (let s1 = s\<lparr>term_row := term_row s + 1\<rparr>
      in if VGA_HEIGHT \<le> term_row s1 then (term_scroll s1)\<lparr>term_row := VGA_HEIGHT - 1\<rparr> else s1)"

definition term_putentryat :: "u8 \<Rightarrow> u8 \<Rightarrow> u32 \<Rightarrow> u32 \<Rightarrow> term_state \<Rightarrow> term_state" where
  "term_putentryat c color x y s = s\<lparr>term_buffer := (term_buffer s)(y * VGA_WIDTH + x := vga_entry c color)\<rparr>"

definition term_update_cursor :: "term_state \<Rightarrow> term_state" where
  "term_update_cursor s = s\<lparr>hw_cursor := ucast (term_row s * VGA_WIDTH + term_column s)\<rparr>"

definition ansi_to_vga_color :: "u32 \<Rightarrow> u8" where
  "ansi_to_vga_color code = ucast (code AND 0x7)"

definition term_setcolor :: "u8 \<Rightarrow> u8 \<Rightarrow> term_state \<Rightarrow> term_state" where
  "term_setcolor fg bg s = s\<lparr>term_color := fg OR push_bit 4 bg\<rparr>"

definition term_clear :: "term_state \<Rightarrow> term_state" where
  "term_clear s = s\<lparr>term_column := 0, term_row := 0,
     term_buffer := fill_cells (25 * 80) 0 (vga_entry 32 (term_color s)) (term_buffer s)\<rparr>"

text \<open>Clamping a coordinate to 1 .. limit.\<close>

definition clamp :: "u32 \<Rightarrow> u32 \<Rightarrow> u32" where
  "clamp limit v = (let v1 = (if sint v < 1 then 1 else v) in if sint limit < sint v1 then limit else v1)"

text \<open>The loop over the parameters of a colour sequence.\<close>

fun sgr_loop :: "u32 list \<Rightarrow> u8 \<Rightarrow> u8 \<Rightarrow> u8 \<times> u8" where
  "sgr_loop [] fg bg = (fg, bg)"
| "sgr_loop (p # ps) fg bg =
     (if p = 0 then sgr_loop ps VGA_COLOR_WHITE VGA_COLOR_BLACK
      else if 30 \<le> sint p \<and> sint p \<le> 37 then sgr_loop ps (ansi_to_vga_color (p - 30)) bg
      else if 40 \<le> sint p \<and> sint p \<le> 47 then sgr_loop ps fg (ansi_to_vga_color (p - 40))
      else sgr_loop ps fg bg)"

text \<open>The body of \<^verbatim>\<open>esc_execute\<close> without the cursor update at its end; \<open>fin\<close> is \<^verbatim>\<open>final\<close>.\<close>

definition esc_apply :: "u8 \<Rightarrow> term_state \<Rightarrow> term_state" where
  "esc_apply fin s =
     (if fin = 72 then
        (let row = clamp VGA_HEIGHT (if 0 < esc_param_count s then esc_params s 0 else 1);
             col = clamp VGA_WIDTH (if 1 < esc_param_count s then esc_params s 1 else 1)
         in s\<lparr>term_row := row - 1, term_column := col - 1\<rparr>)
      else if fin = 74 then
        (let mode = (if 0 < esc_param_count s then esc_params s 0 else 0)
         in if mode = 2 \<or> mode = 3 then term_clear s else s)
      else if fin = 75 then
        s\<lparr>term_buffer := fill_cells (80 - unat (term_column s)) (term_row s * VGA_WIDTH + term_column s)
            (vga_entry 32 (term_color s)) (term_buffer s)\<rparr>
      else if fin = 109 then
        (if esc_param_count s = 0 then term_setcolor VGA_COLOR_WHITE VGA_COLOR_BLACK s
         else (case sgr_loop (map (esc_params s) [0..<esc_param_count s]) (term_color s AND 0x0f) (drop_bit 4 (term_color s) AND 0x0f) of
                 (fg, bg) \<Rightarrow> s\<lparr>term_color := fg OR push_bit 4 bg\<rparr>))
      else s)"

definition esc_execute :: "u8 \<Rightarrow> term_state \<Rightarrow> term_state" where
  "esc_execute fin s = term_update_cursor (esc_apply fin s)"

definition push_param :: "term_state \<Rightarrow> term_state" where
  "push_param s =
     (if esc_param_count s < ESC_MAX_PARAMS
      then s\<lparr>esc_params := (esc_params s)(esc_param_count s := (if esc_param_active s then esc_cur_param s else 0)),
             esc_param_count := esc_param_count s + 1\<rparr>
      else s)"

text \<open>A character of an escape sequence, behind its start.\<close>

definition esc_param_char :: "u8 \<Rightarrow> term_state \<Rightarrow> term_state" where
  "esc_param_char c s =
     (if 48 \<le> c \<and> c \<le> 57 then s\<lparr>esc_cur_param := esc_cur_param s * 10 + ucast (c - 48), esc_param_active := True\<rparr>
      else if c = 59 then (push_param s)\<lparr>esc_cur_param := 0, esc_param_active := False\<rparr>
      else if 64 \<le> c \<and> c \<le> 90 \<or> 97 \<le> c \<and> c \<le> 122 then esc_execute c ((push_param s)\<lparr>esc_mode := ESC_NONE\<rparr>)
      else s)"

text \<open>A character outside of escape sequences.\<close>

definition plain_char :: "u8 \<Rightarrow> term_state \<Rightarrow> term_state" where
  "plain_char c s =
     (if c = 10 then term_advance_row (s\<lparr>term_column := 0\<rparr>)
      else if c = 9 then
        (let s1 = s\<lparr>term_column := (term_column s + 4) AND NOT 3\<rparr>
         in if VGA_WIDTH \<le> term_column s1 then term_advance_row (s1\<lparr>term_column := 0\<rparr>) else s1)
      else if c = 8 then
        (let s1 = (if term_column s = 0
                   then (if 0 < term_row s then s\<lparr>term_row := term_row s - 1\<rparr> else s)\<lparr>term_column := VGA_WIDTH - 1\<rparr>
                   else s\<lparr>term_column := term_column s - 1\<rparr>)
         in term_putentryat 32 (term_color s1) (term_column s1) (term_row s1) s1)
      else
        (let s1 = term_putentryat c (term_color s) (term_column s) (term_row s) s;
             s2 = s1\<lparr>term_column := term_column s1 + 1\<rparr>
         in if VGA_WIDTH \<le> term_column s2 then term_advance_row (s2\<lparr>term_column := 0\<rparr>) else s2))"

definition term_putchar :: "u8 \<Rightarrow> term_state \<Rightarrow> term_state" where
  "term_putchar c s =
     (case esc_mode s of
        ESC_START \<Rightarrow> if c = 91 then s\<lparr>esc_mode := ESC_PARAMS, esc_param_count := 0, esc_cur_param := 0, esc_param_active := False\<rparr>
                     else s\<lparr>esc_mode := ESC_NONE\<rparr>
      | ESC_PARAMS \<Rightarrow> esc_param_char c s
      | ESC_NONE \<Rightarrow> if c = 0x1b then s\<lparr>esc_mode := ESC_START\<rparr> else term_update_cursor (plain_char c s))"

text \<open>The argument is the list of the characters of a string.\<close>

fun term_write :: "u8 list \<Rightarrow> term_state \<Rightarrow> term_state" where
  "term_write [] s = s"
| "term_write (c # cs) s = term_write cs (term_putchar c s)"

definition term_init :: "term_state \<Rightarrow> term_state" where
  "term_init s = term_clear (term_setcolor VGA_COLOR_WHITE VGA_COLOR_BLACK (s\<lparr>term_row := 0, term_column := 0\<rparr>))"

section \<open>Cells\<close>

lemma fill_cells_at: "n \<le> 2 ^ 32 \<Longrightarrow> fill_cells n i v b a = (if unat (a - i) < n then v else b a)"
proof (induction n arbitrary: i b)
  case 0
  then show ?case by simp
next
  case (Suc n)
  have s: "unat (a - (i + 1)) = unat (a - i) - 1" if "a \<noteq> i"
    using that unat_minus_one [of "a - i"] by (simp add: diff_diff_eq)
  show ?case
  proof (cases "a = i")
    case True
    have "i - (i + 1) = (4294967295 :: u32)" by simp
    then have "unat (i - (i + 1)) = 4294967295" by (simp only: unat_numeral) simp
    with Suc True show ?thesis by simp
  next
    case False
    then have "0 < unat (a - i)" by (simp add: unat_gt_0)
    with Suc False s show ?thesis by auto
  qed
qed

lemma move_up_at:
  "unat i + n + 80 \<le> 2 ^ 32 \<Longrightarrow> move_up n i b a = (if unat i \<le> unat a \<and> unat a < unat i + n then b (a + 80) else b a)"
proof (induction n arbitrary: i b)
  case 0
  then show ?case by auto
next
  case (Suc n)
  have i1: "unat (i + 1) = unat i + 1" using Suc.prems by (subst unat_add_lem [THEN iffD1]) auto
  show ?case
  proof (cases "a = i")
    case True
    with Suc i1 show ?thesis by auto
  next
    case False
    then have ne: "unat a \<noteq> unat i" by (simp add: word_unat_eq_iff)
    have "a + 80 \<noteq> i" if "unat i < unat a" "unat a < unat i + Suc n"
    proof
      assume "a + 80 = i"
      moreover have "unat (a + 80) = unat a + 80" using that Suc.prems by (subst unat_add_lem [THEN iffD1]) auto
      ultimately show False using that by simp
    qed
    then show ?thesis using Suc i1 ne False by (auto simp: less_Suc_eq_le)
  qed
qed

lemma unat_cell: "i < 2 ^ 32 \<Longrightarrow> unat (of_nat i :: u32) = i"
  by (simp add: unat_of_nat)

lemma fill_cells_nat:
  assumes "i + n \<le> 2 ^ 32" "j < 2 ^ 32"
  shows "fill_cells n (of_nat i) v b (of_nat j) = (if i \<le> j \<and> j < i + n then v else b (of_nat j))"
proof (cases "n = 0")
  case False
  have i: "i < 2 ^ 32" using False assms by simp
  show ?thesis
  proof (cases "i \<le> j")
    case True
    then have "unat (of_nat j - of_nat i :: u32) = j - i" using assms by (simp flip: of_nat_diff add: unat_of_nat)
    then show ?thesis using True assms by (auto simp: fill_cells_at)
  next
    case False
    have "(of_nat j - of_nat i :: u32) = of_nat (2 ^ 32 + j - i)" using i by (simp add: of_nat_diff)
    moreover have "unat (of_nat (2 ^ 32 + j - i) :: u32) = 2 ^ 32 + j - i" using False i by (intro unat_cell) simp
    ultimately have "unat (of_nat j - of_nat i :: u32) = 2 ^ 32 + j - i" by simp
    then show ?thesis using False assms by (auto simp: fill_cells_at)
  qed
qed auto

lemma move_up_nat:
  assumes "i + n + 80 \<le> 2 ^ 32" "j < 2 ^ 32"
  shows "move_up n (of_nat i) b (of_nat j) = (if i \<le> j \<and> j < i + n then b (of_nat (j + 80)) else b (of_nat j))"
  using assms by (auto simp: move_up_at unat_cell)

section \<open>The cursor and the parameters stay in bounds\<close>

definition on_screen :: "term_state \<Rightarrow> bool" where
  "on_screen s \<longleftrightarrow> term_row s < 25 \<and> term_column s < 80 \<and> esc_param_count s \<le> ESC_MAX_PARAMS"

text \<open>The two coordinates as one cell number, and what two states share beside the 2000 cells.\<close>

definition cell_pos :: "term_state \<Rightarrow> nat" where
  "cell_pos s = unat (term_row s) * 80 + unat (term_column s)"

definition same_beyond :: "term_state \<Rightarrow> term_state \<Rightarrow> bool" where
  "same_beyond s t \<longleftrightarrow> (\<forall>j. 2000 \<le> j \<and> j < 2 ^ 32 \<longrightarrow> term_buffer t (of_nat j) = term_buffer s (of_nat j))"

lemma same_beyond_refl [simp]: "same_beyond s s"
  by (simp add: same_beyond_def)

lemma same_beyond_trans: "same_beyond s t \<Longrightarrow> same_beyond t u \<Longrightarrow> same_beyond s u"
  by (simp add: same_beyond_def)

lemma same_beyondI: "term_buffer t = term_buffer s \<Longrightarrow> same_beyond s t"
  by (simp add: same_beyond_def)

lemma on_screen_nat: "on_screen s \<longleftrightarrow> unat (term_row s) < 25 \<and> unat (term_column s) < 80 \<and> esc_param_count s \<le> 10"
  by (simp add: on_screen_def word_less_nat_alt)

lemma cell_index: "on_screen s \<Longrightarrow> term_row s * VGA_WIDTH + term_column s = of_nat (cell_pos s)"
  by (simp add: cell_pos_def)

lemma cell_pos_less: "on_screen s \<Longrightarrow> cell_pos s < 2000"
  by (auto simp: on_screen_nat cell_pos_def)

section \<open>The screen as a list of cells\<close>

text \<open>
  The abstract terminal: the 2000 cells in reading order and the number of the cell the cursor is
  on. Running over the last cell drops the first row and appends a blank one.
\<close>

definition screen :: "term_state \<Rightarrow> u16 list" where
  "screen s = map (\<lambda>j. term_buffer s (of_nat j)) [0..<2000]"

definition tty_of :: "term_state \<Rightarrow> u16 list \<times> nat" where
  "tty_of s = (screen s, cell_pos s)"

definition tty_scroll :: "u8 \<Rightarrow> u16 list \<times> nat \<Rightarrow> u16 list \<times> nat" where
  "tty_scroll color t = (if snd t < 2000 then t else (drop 80 (fst t) @ replicate 80 (vga_entry 32 color), snd t - 80))"

definition tty_char :: "u8 \<Rightarrow> u8 \<Rightarrow> u16 list \<times> nat \<Rightarrow> u16 list \<times> nat" where
  "tty_char color c t =
     (let cs = fst t; p = snd t
      in if c = 10 then tty_scroll color (cs, (p div 80 + 1) * 80)
         else if c = 9 then tty_scroll color (cs, (p div 4 + 1) * 4)
         else if c = 8 then (let q = (if p = 0 then 79 else p - 1) in (cs[q := vga_entry 32 color], q))
         else tty_scroll color (cs[p := vga_entry c color], p + 1))"

fun tty_write :: "u8 \<Rightarrow> u8 list \<Rightarrow> u16 list \<times> nat \<Rightarrow> u16 list \<times> nat" where
  "tty_write color [] t = t"
| "tty_write color (c # cs) t = tty_write color cs (tty_char color c t)"

lemma screen_nth [simp]: "j < 2000 \<Longrightarrow> screen s ! j = term_buffer s (of_nat j)"
  by (simp add: screen_def)

lemma screen_length [simp]: "length (screen s) = 2000"
  by (simp add: screen_def)

lemma screen_eqI: "length xs = 2000 \<Longrightarrow> (\<And>j. j < 2000 \<Longrightarrow> term_buffer s (of_nat j) = xs ! j) \<Longrightarrow> screen s = xs"
  by (rule nth_equalityI) simp_all

lemma scroll_buffer:
  assumes "j < 2 ^ 32"
  shows "term_buffer (term_scroll s) (of_nat j) =
    (if j < 1920 then term_buffer s (of_nat (j + 80)) else if j < 2000 then vga_entry 32 (term_color s) else term_buffer s (of_nat j))"
proof -
  have f: "fill_cells 80 1920 v b (of_nat j) = (if 1920 \<le> j \<and> j < 2000 then v else b (of_nat j))" for v b
    using fill_cells_nat [of 1920 80 j v b] assms by simp
  have m: "move_up 1920 0 b (of_nat j) = (if j < 1920 then b (of_nat (j + 80)) else b (of_nat j))" for b
    using move_up_nat [of 0 1920 j b] assms by simp
  show ?thesis by (simp add: term_scroll_def f m)
qed

lemma scroll_screen: "screen (term_scroll s) = drop 80 (screen s) @ replicate 80 (vga_entry 32 (term_color s))"
  by (rule screen_eqI) (auto simp: scroll_buffer nth_append add.commute)

lemma scroll_same: "same_beyond s (term_scroll s)"
  by (simp add: same_beyond_def scroll_buffer)

lemma scroll_fields [simp]:
  "term_row (term_scroll s) = term_row s" "term_column (term_scroll s) = term_column s" "term_color (term_scroll s) = term_color s"
  "esc_mode (term_scroll s) = esc_mode s" "esc_param_count (term_scroll s) = esc_param_count s"
  by (simp_all add: term_scroll_def)

text \<open>The terminal's registers, beside the cells, as one value.\<close>

lemma screen_upd [simp]:
  "screen (s\<lparr>term_row := r\<rparr>) = screen s" "screen (s\<lparr>term_column := c\<rparr>) = screen s"
  "screen (s\<lparr>hw_cursor := h\<rparr>) = screen s" "screen (s\<lparr>esc_mode := m\<rparr>) = screen s"
  by (simp_all add: screen_def)

lemma row_suc: "r < 25 \<Longrightarrow> unat (r + 1 :: u32) = unat r + 1"
  by (subst unat_add_lem [THEN iffD1]) (auto simp: word_less_nat_alt)

lemma advance_row:
  assumes "term_row s < 25" "term_column s = 0" "esc_param_count s \<le> 10"
  shows "on_screen (term_advance_row s)" "same_beyond s (term_advance_row s)"
    "tty_of (term_advance_row s) = tty_scroll (term_color s) (screen s, unat (term_row s) * 80 + 80)"
    "term_color (term_advance_row s) = term_color s" "esc_mode (term_advance_row s) = esc_mode s"
proof -
  let ?s = "s\<lparr>term_row := term_row s + 1\<rparr>"
  have r: "unat (term_row s + 1) = unat (term_row s) + 1" using assms(1) by (rule row_suc)
  have le: "(25 \<le> term_row s + 1) = (unat (term_row s) = 24)"
    using assms(1) r by (auto simp: word_le_nat_alt word_less_nat_alt)
  have sc: "same_beyond s (term_scroll ?s)"
    using scroll_same [of ?s] by (simp add: same_beyond_def)
  show "on_screen (term_advance_row s)"
    using assms le r by (auto simp: term_advance_row_def Let_def on_screen_def word_less_nat_alt)
  show "same_beyond s (term_advance_row s)"
    using sc by (auto simp: term_advance_row_def Let_def same_beyond_def)
  show "tty_of (term_advance_row s) = tty_scroll (term_color s) (screen s, unat (term_row s) * 80 + 80)"
    using assms le r
    by (auto simp: term_advance_row_def Let_def tty_of_def tty_scroll_def scroll_screen cell_pos_def word_less_nat_alt)
  show "term_color (term_advance_row s) = term_color s" "esc_mode (term_advance_row s) = esc_mode s"
    by (simp_all add: term_advance_row_def Let_def)
qed

lemma put_screen:
  assumes "on_screen s"
  shows "screen (term_putentryat c color (term_column s) (term_row s) s) = (screen s)[cell_pos s := vga_entry c color]"
    "same_beyond s (term_putentryat c color (term_column s) (term_row s) s)"
proof -
  have p: "cell_pos s < 2000" using assms by (rule cell_pos_less)
  have eq: "(of_nat j :: u32) = of_nat (cell_pos s) \<longleftrightarrow> j = cell_pos s" if "j < 2 ^ 32" for j
  proof
    assume "(of_nat j :: u32) = of_nat (cell_pos s)"
    then have "unat (of_nat j :: u32) = unat (of_nat (cell_pos s) :: u32)" by (rule arg_cong)
    moreover have "cell_pos s < 2 ^ 32" using p by simp
    ultimately show "j = cell_pos s" using that unat_cell by metis
  qed simp
  have b: "term_buffer (term_putentryat c color (term_column s) (term_row s) s) (of_nat j) =
    (if j = cell_pos s then vga_entry c color else term_buffer s (of_nat j))" if "j < 2 ^ 32" for j
    using that eq [OF that] by (simp add: term_putentryat_def cell_index [OF assms] del: of_nat_add of_nat_mult)
  show "screen (term_putentryat c color (term_column s) (term_row s) s) = (screen s)[cell_pos s := vga_entry c color]"
    by (rule screen_eqI) (auto simp: b nth_list_update p)
  show "same_beyond s (term_putentryat c color (term_column s) (term_row s) s)"
    using p by (auto simp: same_beyond_def b)
qed

lemma put_fields [simp]:
  "term_row (term_putentryat c color x y s) = term_row s" "term_column (term_putentryat c color x y s) = term_column s"
  "term_color (term_putentryat c color x y s) = term_color s" "esc_mode (term_putentryat c color x y s) = esc_mode s"
  "esc_param_count (term_putentryat c color x y s) = esc_param_count s"
  by (simp_all add: term_putentryat_def)

lemma tab_column:
  fixes x :: u32
  assumes "x < 80"
  shows "unat ((x + 4) AND NOT 3) = (unat x div 4 + 1) * 4"
proof -
  have m: "(3 :: u32) = mask 2" by (simp add: mask_eq_exp_minus_1)
  have x: "unat (x + 4) = unat x + 4" using assms by (subst unat_add_lem [THEN iffD1]) (auto simp: word_less_nat_alt)
  have "(x + 4) AND NOT 3 = push_bit 2 (drop_bit 2 (x + 4))" by (simp only: m and_not_mask)
  then have "unat ((x + 4) AND NOT 3) = 4 * ((unat x + 4) div 4)" using push_drop_div [of 2 "x + 4"] by (simp add: x)
  moreover have "(unat x + 4) div 4 = unat x div 4 + 1" by simp
  ultimately show ?thesis by simp
qed

lemma column_suc: "x < 80 \<Longrightarrow> unat (x + 1 :: u32) = unat x + 1"
  by (subst unat_add_lem [THEN iffD1]) (auto simp: word_less_nat_alt)

text \<open>What a step may change: it leads to a state on the screen that shows the abstract terminal \<open>a\<close>.\<close>

definition draws :: "term_state \<Rightarrow> term_state \<Rightarrow> u16 list \<times> nat \<Rightarrow> bool" where
  "draws s t a \<longleftrightarrow> on_screen t \<and> same_beyond s t \<and> tty_of t = a \<and> term_color t = term_color s \<and> esc_mode t = esc_mode s"

lemma on_screen_advance:
  assumes "on_screen t" "same_beyond s t" "term_color t = term_color s" "esc_mode t = esc_mode s"
  shows "draws s (term_advance_row (t\<lparr>term_column := 0\<rparr>)) (tty_scroll (term_color s) (screen t, (unat (term_row t) + 1) * 80))"
  using assms advance_row [of "t\<lparr>term_column := 0\<rparr>"]
  by (auto simp: draws_def on_screen_def add.commute same_beyond_def)

text \<open>One character outside of escape sequences, on the concrete and the abstract terminal.\<close>

lemma cell_pos_row: "on_screen s \<Longrightarrow> cell_pos s div 80 = unat (term_row s)"
  by (simp add: cell_pos_def on_screen_nat)

lemma plain_newline: "on_screen s \<Longrightarrow> draws s (plain_char 10 s) (tty_char (term_color s) 10 (tty_of s))"
  using on_screen_advance [of s s]
  by (simp add: plain_char_def tty_char_def tty_of_def cell_pos_row)

lemma plain_tab:
  assumes "on_screen s"
  shows "draws s (plain_char 9 s) (tty_char (term_color s) 9 (tty_of s))"
proof -
  let ?x = "(term_column s + 4) AND NOT 3"
  have x: "unat ?x = (unat (term_column s) div 4 + 1) * 4" using assms by (intro tab_column) (simp add: on_screen_def)
  have q: "(cell_pos s div 4 + 1) * 4 = unat (term_row s) * 80 + unat ?x" unfolding x cell_pos_def by presburger
  have le: "80 \<le> ?x \<longleftrightarrow> unat ?x = 80" using assms x by (auto simp: word_le_nat_alt on_screen_nat)
  show ?thesis
  proof (cases "unat ?x = 80")
    case True
    have "on_screen s" by (rule assms)
    then have "draws s (term_advance_row (s\<lparr>term_column := 0\<rparr>)) (tty_scroll (term_color s) (screen s, (unat (term_row s) + 1) * 80))"
      by (intro on_screen_advance) simp_all
    then show ?thesis using True le q by (simp add: plain_char_def tty_char_def tty_of_def add.commute)
  next
    case False
    have l: "unat ?x < 80" using False x assms by (auto simp: on_screen_nat)
    have "(cell_pos s div 4 + 1) * 4 < 2000" using q l assms by (simp add: on_screen_nat)
    then have t: "tty_char (term_color s) 9 (tty_of s) = (screen s, unat (term_row s) * 80 + unat ?x)"
      using q by (simp add: tty_char_def tty_of_def tty_scroll_def)
    have "plain_char 9 s = s\<lparr>term_column := ?x\<rparr>" using False le by (simp add: plain_char_def)
    then show ?thesis using t l assms by (simp add: draws_def on_screen_nat tty_of_def cell_pos_def same_beyond_def)
  qed
qed

lemma plain_backspace:
  assumes "on_screen s"
  shows "draws s (plain_char 8 s) (tty_char (term_color s) 8 (tty_of s))"
proof -
  obtain t where t_def: "t = (if term_column s = 0
     then (if 0 < term_row s then s\<lparr>term_row := term_row s - 1\<rparr> else s)\<lparr>term_column := VGA_WIDTH - 1\<rparr>
     else s\<lparr>term_column := term_column s - 1\<rparr>)" by blast
  have dec: "x \<noteq> 0 \<Longrightarrow> unat (x - 1) = unat x - 1" for x :: u32 by (rule unat_minus_one)
  have pos: "cell_pos t = (if cell_pos s = 0 then 79 else cell_pos s - 1)"
    using dec [of "term_row s"] dec [of "term_column s"]
      unat_gt_0 [of "term_row s"] unat_gt_0 [of "term_column s"]
    by (cases "unat (term_row s)"; cases "unat (term_column s)")
      (auto simp: t_def cell_pos_def word_gt_0 unat_eq_0)
  have on: "on_screen t"
    using assms dec [of "term_row s"] dec [of "term_column s"] by (auto simp: t_def on_screen_nat word_gt_0)
  have f: "term_buffer t = term_buffer s" "term_color t = term_color s" "esc_mode t = esc_mode s" "screen t = screen s"
    by (auto simp: t_def screen_def)
  have e: "plain_char 8 s = term_putentryat 32 (term_color t) (term_column t) (term_row t) t"
    by (simp add: plain_char_def t_def Let_def)
  show ?thesis
    using put_screen [OF on, of 32 "term_color t"] on pos f
    by (simp add: e draws_def tty_char_def tty_of_def same_beyond_def on_screen_def cell_pos_def Let_def)
qed

lemma plain_printable:
  assumes "on_screen s" "c \<notin> {8, 9, 10}"
  shows "draws s (plain_char c s) (tty_char (term_color s) c (tty_of s))"
proof -
  let ?t = "term_putentryat c (term_color s) (term_column s) (term_row s) s"
  have x: "unat (term_column s + 1) = unat (term_column s) + 1" using assms by (intro column_suc) (simp add: on_screen_def)
  have le: "80 \<le> term_column s + 1 \<longleftrightarrow> unat (term_column s) = 79" using assms x by (auto simp: word_le_nat_alt on_screen_nat)
  have t: "tty_char (term_color s) c (tty_of s) = tty_scroll (term_color s) (screen ?t, cell_pos s + 1)"
    using assms put_screen [OF assms(1)] by (simp add: tty_char_def tty_of_def Let_def)
  show ?thesis
  proof (cases "unat (term_column s) = 79")
    case True
    have "draws s (term_advance_row (?t\<lparr>term_column := 0\<rparr>)) (tty_scroll (term_color s) (screen ?t, (unat (term_row ?t) + 1) * 80))"
      using assms put_screen [OF assms(1)] by (intro on_screen_advance) (simp_all add: on_screen_def)
    then show ?thesis using True le t assms by (simp add: plain_char_def Let_def cell_pos_def add.commute)
  next
    case False
    have "cell_pos s + 1 < 2000" using False assms by (simp add: on_screen_nat cell_pos_def)
    moreover have "plain_char c s = ?t\<lparr>term_column := term_column s + 1\<rparr>" using False le assms by (simp add: plain_char_def Let_def)
    ultimately show ?thesis using t x False assms put_screen [OF assms(1)]
      by (simp add: draws_def tty_scroll_def tty_of_def cell_pos_def on_screen_nat same_beyond_def)
  qed
qed

lemma plain_char_draws: "on_screen s \<Longrightarrow> draws s (plain_char c s) (tty_char (term_color s) c (tty_of s))"
  by (cases "c \<in> {8, 9, 10}") (use plain_newline plain_tab plain_backspace plain_printable in auto)

section \<open>Escape sequences\<close>

lemma clamp_range: "1 \<le> sint limit \<Longrightarrow> 1 \<le> sint (clamp limit v) \<and> sint (clamp limit v) \<le> sint limit"
  by (auto simp: clamp_def Let_def)

lemma sint_small: "0 \<le> sint x \<Longrightarrow> int (unat x) = sint x" for x :: u32
  using sint_lt [of x] by (simp add: uint_sint take_bit_int_eq_self flip: uint_nat)

lemma clamp_less:
  assumes "1 \<le> sint limit"
  shows "clamp limit v - 1 < limit" "unat (clamp limit v - 1) + 1 = unat (clamp limit v)"
proof -
  let ?c = "clamp limit v"
  have c: "1 \<le> sint ?c" "sint ?c \<le> sint limit" using clamp_range [OF assms] by auto
  then have u: "int (unat ?c) = sint ?c" "int (unat limit) = sint limit" using sint_small [of ?c] sint_small [of limit] assms by linarith+
  then have "?c \<noteq> 0" using c by auto
  then have "unat (?c - 1) = unat ?c - 1" by (rule unat_minus_one)
  moreover have "1 \<le> unat ?c" "unat ?c \<le> unat limit" using u c by linarith+
  ultimately show "?c - 1 < limit" "unat (?c - 1) + 1 = unat ?c" by (auto simp: word_less_nat_alt)
qed

lemma push_param_on_screen: "on_screen s \<Longrightarrow> on_screen (push_param s)"
  by (simp add: push_param_def on_screen_def)

lemma push_param_fields [simp]:
  "term_buffer (push_param s) = term_buffer s" "term_color (push_param s) = term_color s" "hw_cursor (push_param s) = hw_cursor s"
  "term_row (push_param s) = term_row s" "term_column (push_param s) = term_column s" "esc_mode (push_param s) = esc_mode s"
  by (simp_all add: push_param_def)

lemma clear_buffer:
  "j < 2 ^ 32 \<Longrightarrow> term_buffer (term_clear s) (of_nat j) = (if j < 2000 then vga_entry 32 (term_color s) else term_buffer s (of_nat j))"
  using fill_cells_nat [of 0 2000 j] by (simp add: term_clear_def)

lemma clear_on_screen: "esc_param_count s \<le> 10 \<Longrightarrow> on_screen (term_clear s) \<and> same_beyond s (term_clear s)"
  by (auto simp: on_screen_def same_beyond_def clear_buffer) (simp_all add: term_clear_def)

lemma erase_same:
  assumes "on_screen s"
  shows "same_beyond s (s\<lparr>term_buffer := fill_cells (80 - unat (term_column s)) (term_row s * VGA_WIDTH + term_column s) v (term_buffer s)\<rparr>)"
proof -
  have "cell_pos s + (80 - unat (term_column s)) = (unat (term_row s) + 1) * 80" using assms by (simp add: on_screen_nat cell_pos_def)
  moreover have "(unat (term_row s) + 1) * 80 \<le> 2000" using assms by (simp add: on_screen_nat)
  ultimately show ?thesis
    unfolding same_beyond_def cell_index [OF assms] by (auto simp: fill_cells_nat simp del: of_nat_add of_nat_mult)
qed

lemma esc_apply_ok:
  assumes "on_screen s"
  shows "on_screen (esc_apply f s) \<and> same_beyond s (esc_apply f s) \<and> hw_cursor (esc_apply f s) = hw_cursor s \<and> esc_mode (esc_apply f s) = esc_mode s"
proof -
  consider "f = 72" | "f = 74" | "f = 75" | "f = 109" | "f \<notin> {72, 74, 75, 109}" by auto
  then show ?thesis
  proof cases
    case 1
    then show ?thesis using assms clamp_less [of VGA_HEIGHT] clamp_less [of VGA_WIDTH]
      by (simp add: esc_apply_def Let_def on_screen_def same_beyond_def)
  next
    case 2
    then show ?thesis using assms clear_on_screen [of s]
      by (simp add: esc_apply_def Let_def on_screen_def) (simp add: term_clear_def)
  next
    case 3
    then show ?thesis using assms erase_same [of s] by (simp add: esc_apply_def on_screen_def)
  next
    case 4
    then show ?thesis using assms
      by (simp add: esc_apply_def on_screen_def term_setcolor_def same_beyond_def split: prod.split)
  next
    case 5
    then show ?thesis using assms by (simp add: esc_apply_def)
  qed
qed

lemma cursor_less: "on_screen s \<Longrightarrow> unat (hw_cursor (term_update_cursor s)) = cell_pos s"
  using cell_pos_less [of s]
  by (simp only: term_update_cursor_def cell_index term_state.select_convs term_state.update_convs)
    (simp add: unsigned_ucast_eq unat_of_nat take_bit_nat_eq_self)

lemma update_cursor_ok: "on_screen s \<Longrightarrow> on_screen (term_update_cursor s) \<and> same_beyond s (term_update_cursor s)"
  by (simp add: term_update_cursor_def on_screen_def same_beyond_def)

lemma putchar_ok:
  assumes "on_screen s" "unat (hw_cursor s) < 2000"
  shows "on_screen (term_putchar c s) \<and> same_beyond s (term_putchar c s) \<and> unat (hw_cursor (term_putchar c s)) < 2000"
proof -
  have upd: "on_screen (term_update_cursor t) \<and> same_beyond s (term_update_cursor t) \<and> unat (hw_cursor (term_update_cursor t)) < 2000"
    if "on_screen t" "same_beyond s t" for t
    using that update_cursor_ok [of t] cursor_less [of t] cell_pos_less [of t] same_beyond_trans by auto
  show ?thesis
  proof (cases "esc_mode s")
    case ESC_NONE
    then show ?thesis using assms upd plain_char_draws [of s c]
      by (auto simp: term_putchar_def draws_def on_screen_def same_beyond_def)
  next
    case ESC_START
    then show ?thesis using assms by (simp add: term_putchar_def on_screen_def same_beyond_def)
  next
    case ESC_PARAMS
    let ?p = "(push_param s)\<lparr>esc_mode := ESC_NONE\<rparr>"
    have p: "on_screen ?p" "same_beyond s ?p" using push_param_on_screen [OF assms(1)] by (simp_all add: on_screen_def same_beyond_def)
    then have "on_screen (esc_apply c ?p)" "same_beyond s (esc_apply c ?p)"
      using esc_apply_ok [of ?p c] same_beyond_trans by auto
    then have "on_screen (esc_execute c ?p) \<and> same_beyond s (esc_execute c ?p) \<and> unat (hw_cursor (esc_execute c ?p)) < 2000"
      unfolding esc_execute_def by (rule upd)
    then show ?thesis using assms push_param_on_screen [OF assms(1)] ESC_PARAMS
      by (simp add: term_putchar_def esc_param_char_def on_screen_def same_beyond_def)
  qed
qed

text \<open>
  C27. The terminal never leaves the screen: for every text, control characters and malformed escape
  sequences included, the cursor stays on the 25 rows of 80 columns, the count of parameters within
  its array, the hardware cursor on a cell, and no memory behind the 2000 cells is written.
\<close>

theorem term_stays_on_screen:
  assumes "on_screen s" "unat (hw_cursor s) < 2000"
  shows "on_screen (term_write cs s) \<and> same_beyond s (term_write cs s) \<and> unat (hw_cursor (term_write cs s)) < 2000"
  using assms
proof (induction cs s rule: term_write.induct)
  case (2 c cs s)
  then show ?case using putchar_ok [of s c] same_beyond_trans by auto
qed simp

definition term_example :: term_state where
  "term_example = \<lparr>esc_mode = ESC_NONE, esc_params = \<lambda>_. 0, esc_param_count = 0, esc_cur_param = 0, esc_param_active = False,
     term_row = 24, term_column = 79, term_color = 0x0f, term_buffer = \<lambda>_. 0x0f20, hw_cursor = 1999\<rparr>"

theorem term_stays_on_screen_witness:
  "on_screen (term_write [27, 91, 57, 57, 59, 72, 9, 65, 10] term_example)"
  using term_stays_on_screen [of term_example "[27, 91, 57, 57, 59, 72, 9, 65, 10]"]
  by (simp add: term_example_def on_screen_def)

section \<open>Text without escape sequences\<close>

lemma putchar_draws:
  assumes "on_screen s" "esc_mode s = ESC_NONE" "c \<noteq> 27"
  shows "draws s (term_putchar c s) (tty_char (term_color s) c (tty_of s))" "unat (hw_cursor (term_putchar c s)) = cell_pos (term_putchar c s)"
proof -
  let ?p = "plain_char c s"
  have p: "term_putchar c s = term_update_cursor ?p" using assms by (simp add: term_putchar_def)
  have d: "draws s ?p (tty_char (term_color s) c (tty_of s))" using assms by (intro plain_char_draws)
  have k: "tty_of (term_update_cursor ?p) = tty_of ?p" "cell_pos (term_update_cursor ?p) = cell_pos ?p"
    by (simp_all add: term_update_cursor_def tty_of_def screen_def cell_pos_def)
  show "draws s (term_putchar c s) (tty_char (term_color s) c (tty_of s))"
    using d k by (simp add: p draws_def) (simp add: term_update_cursor_def on_screen_def same_beyond_def)
  show "unat (hw_cursor (term_putchar c s)) = cell_pos (term_putchar c s)"
    using d by (simp add: p k cursor_less draws_def)
qed

text \<open>
  C40. Text without escape sequences drives the terminal as a teletype of 2000 cells: characters fill the
  cells in reading order, tabs go to the next multiple of four, newlines to the next row, backspace
  blanks the cell before, and running over the end scrolls by one row. The hardware cursor follows.
\<close>

theorem term_refines_teletype:
  assumes "on_screen s" "esc_mode s = ESC_NONE" "27 \<notin> set cs" "unat (hw_cursor s) = cell_pos s"
  shows "draws s (term_write cs s) (tty_write (term_color s) cs (tty_of s)) \<and> unat (hw_cursor (term_write cs s)) = cell_pos (term_write cs s)"
  using assms
proof (induction cs s rule: term_write.induct)
  case (1 s)
  then show ?case by (simp add: draws_def)
next
  case (2 c cs s)
  then have d: "draws s (term_putchar c s) (tty_char (term_color s) c (tty_of s))"
    "unat (hw_cursor (term_putchar c s)) = cell_pos (term_putchar c s)" using putchar_draws [of s c] by auto
  then have "draws (term_putchar c s) (term_write cs (term_putchar c s))
      (tty_write (term_color (term_putchar c s)) cs (tty_of (term_putchar c s))) \<and>
    unat (hw_cursor (term_write cs (term_putchar c s))) = cell_pos (term_write cs (term_putchar c s))"
    using 2 by (auto simp: draws_def)
  then show ?case using d(1) same_beyond_trans by (auto simp: draws_def)
qed

theorem term_refines_teletype_witness:
  "draws term_example (term_write [65, 9, 8] term_example) (tty_write 0x0f [65, 9, 8] (tty_of term_example))"
  using term_refines_teletype [of term_example "[65, 9, 8]"]
  by (simp add: term_example_def on_screen_def cell_pos_def)

section \<open>The cursor sequence\<close>

definition digits :: "u8 list \<Rightarrow> bool" where
  "digits ds \<longleftrightarrow> (\<forall>d \<in> set ds. 48 \<le> d \<and> d \<le> 57)"

definition dec_value :: "u8 list \<Rightarrow> u32 \<Rightarrow> u32" where
  "dec_value ds v = foldl (\<lambda>v d. v * 10 + ucast (d - 48)) v ds"

lemma term_write_append: "term_write (xs @ ys) s = term_write ys (term_write xs s)"
  by (induction xs s rule: term_write.induct) simp_all

lemma write_digits:
  "esc_mode s = ESC_PARAMS \<Longrightarrow> digits ds \<Longrightarrow>
   term_write ds s = s\<lparr>esc_cur_param := dec_value ds (esc_cur_param s), esc_param_active := (esc_param_active s \<or> ds \<noteq> [])\<rparr>"
  by (induction ds s rule: term_write.induct)
    (auto simp: digits_def dec_value_def term_putchar_def esc_param_char_def)

text \<open>
  ESC [ row ; column H with any digits, none included, moves the cursor to that row and column,
  counted from one and clamped to the screen, and changes nothing that is shown.
\<close>

theorem term_cursor_sequence:
  assumes "esc_mode s = ESC_NONE" "digits ds" "digits es"
  shows "let t = term_write ([27, 91] @ ds @ [59] @ es @ [72]) s
         in term_row t = clamp VGA_HEIGHT (dec_value ds 0) - 1 \<and> term_column t = clamp VGA_WIDTH (dec_value es 0) - 1
            \<and> term_buffer t = term_buffer s \<and> term_color t = term_color s \<and> esc_mode t = ESC_NONE
            \<and> unat (hw_cursor t) + 81 = unat (clamp VGA_HEIGHT (dec_value ds 0)) * 80 + unat (clamp VGA_WIDTH (dec_value es 0))"
proof -
  let ?s1 = "s\<lparr>esc_mode := ESC_PARAMS, esc_param_count := 0, esc_cur_param := 0, esc_param_active := False\<rparr>"
  let ?r = "clamp VGA_HEIGHT (dec_value ds 0)" and ?c = "clamp VGA_WIDTH (dec_value es 0)"
  have e: "dec_value [] 0 = 0" by (simp add: dec_value_def)
  have 1: "term_write [27, 91] s = ?s1" using assms by (simp add: term_putchar_def)
  let ?s2 = "?s1\<lparr>esc_cur_param := dec_value ds 0, esc_param_active := (ds \<noteq> [])\<rparr>"
  have 2: "term_write ds ?s1 = ?s2" using write_digits [of ?s1 ds] assms by simp
  let ?s3 = "(push_param ?s2)\<lparr>esc_cur_param := 0, esc_param_active := False\<rparr>"
  have 3: "term_write [59] ?s2 = ?s3" by (simp add: term_putchar_def esc_param_char_def)
  let ?s4 = "?s3\<lparr>esc_cur_param := dec_value es 0, esc_param_active := (es \<noteq> [])\<rparr>"
  have 4: "term_write es ?s3 = ?s4" using write_digits [of ?s3 es] assms by simp
  obtain u where u: "u = (push_param ?s4)\<lparr>esc_mode := ESC_NONE\<rparr>" by blast
  have 5: "term_write [72] ?s4 = term_update_cursor (esc_apply 72 u)"
    by (simp add: u term_putchar_def esc_param_char_def esc_execute_def)
  have t: "term_write ([27, 91] @ ds @ [59] @ es @ [72]) s = term_update_cursor (esc_apply 72 u)"
    by (simp only: term_write_append 1 2 3 4 5)
  have p: "esc_params u 0 = dec_value ds 0" "esc_params u 1 = dec_value es 0" "esc_param_count u = 2"
    "term_buffer u = term_buffer s" "term_color u = term_color s" "esc_mode u = ESC_NONE"
    using e by (auto simp: u push_param_def)
  obtain v where v: "v = esc_apply 72 u" by blast
  have v': "term_row v = ?r - 1" "term_column v = ?c - 1" "term_buffer v = term_buffer s" "term_color v = term_color s"
    "esc_mode v = ESC_NONE" "esc_param_count v = 2"
    using p by (simp_all add: v esc_apply_def Let_def)
  have on: "on_screen v" using clamp_less [of VGA_HEIGHT] clamp_less [of VGA_WIDTH] by (simp add: on_screen_def v')
  have "cell_pos v + 81 = unat ?r * 80 + unat ?c"
    using clamp_less(2) [of VGA_HEIGHT "dec_value ds 0"] clamp_less(2) [of VGA_WIDTH "dec_value es 0"]
    unfolding cell_pos_def v' by simp
  then have "unat (hw_cursor (term_update_cursor v)) + 81 = unat ?r * 80 + unat ?c" by (simp only: cursor_less [OF on])
  then show ?thesis by (simp only: t v [symmetric] Let_def) (simp add: term_update_cursor_def v')
qed

theorem term_cursor_sequence_witness:
  "term_row (term_write [27, 91, 49, 50, 59, 57, 57, 72] term_example) = 11 \<and> term_column (term_write [27, 91, 49, 50, 59, 57, 57, 72] term_example) = 79"
  using term_cursor_sequence [of term_example "[49, 50]" "[57, 57]"]
  by (simp add: term_example_def digits_def dec_value_def Let_def clamp_def)

end
