(* ===== verification/Fmt.thy ===== *)
theory Fmt
  imports Vga
begin

text \<open>
  Formatted output: \<^verbatim>\<open>itoa\<close> and \<^verbatim>\<open>utoa\<close> of \<^verbatim>\<open>src/src/misc/util.c\<close>, and \<^verbatim>\<open>src/src/misc/printf.c\<close>;
  \<^verbatim>\<open>atoi\<close> of \<^verbatim>\<open>src/src/libc/stdlib.c\<close>, their inverse in user programs. A string is the list
  of its characters. The variable arguments are the words the caller pushed; string arguments are
  pointers into the memory \<open>m\<close>, where a string ends at the first zero.

  \<open>None\<close> stands for undefined behaviour: a division by zero, an access outside of an array, the end of
  the format string inside of a conversion, or a missing argument.
\<close>

section \<open>Integers to digits\<close>

definition digit_chars :: "u8 list" where
  "digit_chars = [48, 49, 50, 51, 52, 53, 54, 55, 56, 57, 97, 98, 99, 100, 101, 102]"

text \<open>\<^verbatim>\<open>digits[i]\<close>: the array also has the terminating zero.\<close>

definition digit_at :: "nat \<Rightarrow> u8 option" where
  "digit_at i = (if i < 16 then Some (digit_chars ! i) else if i = 16 then Some 0 else None)"

text \<open>
  The loop that stores the digits, lowest first. \<open>tmp\<close> is what the array holds already, as the list
  the copy at the end reverses it to; \<open>cap\<close> is the size of the array.
\<close>

partial_function (option) digits_loop :: "nat \<Rightarrow> u32 \<Rightarrow> u32 \<Rightarrow> u8 list \<Rightarrow> u8 list option" where
  "digits_loop cap base value tmp =
     (if value = 0 then Some tmp
      else if base = 0 \<or> cap \<le> length tmp then None
      else (case digit_at (unat (value mod base)) of None \<Rightarrow> None
            | Some d \<Rightarrow> digits_loop cap base (value div base) (d # tmp)))"

definition utoa :: "u32 \<Rightarrow> u32 \<Rightarrow> u8 list option" where
  "utoa value base = (if value = 0 then Some [48] else digits_loop 64 base value [])"

text \<open>The loop of \<^verbatim>\<open>itoa\<close> runs while the value is positive as a signed number; the base is positive.\<close>

definition itoa :: "u32 \<Rightarrow> u32 \<Rightarrow> u8 list option" where
  "itoa value base =
     (if value = 0 then Some [48]
      else (let neg = (sint value < 0 \<and> base = 10);
                v = (if neg then - value else value)
            in case (if 0 < sint v then digits_loop 32 base v [] else Some []) of None \<Rightarrow> None
               | Some ds \<Rightarrow> if neg then (if length ds < 32 then Some (45 # ds) else None) else Some ds))"

text \<open>\<^verbatim>\<open>atoi\<close>: blanks, a sign, digits.\<close>

fun atoi_digits :: "u8 list \<Rightarrow> u32 \<Rightarrow> u32" where
  "atoi_digits [] r = r"
| "atoi_digits (c # cs) r = (if 48 \<le> c \<and> c \<le> 57 then atoi_digits cs (r * 10 + ucast (c - 48)) else r)"

definition atoi :: "u8 list \<Rightarrow> u32" where
  "atoi str =
     (let s = dropWhile (\<lambda>c. c = 32 \<or> c = 9 \<or> c = 10) str in
      case s of
        [] \<Rightarrow> 0
      | c # cs \<Rightarrow> if c = 45 then atoi_digits cs 0 * (- 1)
                  else if c = 43 then atoi_digits cs 0 * 1
                  else atoi_digits s 0 * 1)"

section \<open>Formats\<close>

record fmt_spec =
  left_align :: bool
  zero_pad :: bool
  width :: u32
  precision :: u32
  is_long :: bool

text \<open>The loop over the flags.\<close>

fun fmt_flags :: "u8 list \<Rightarrow> bool \<Rightarrow> bool \<Rightarrow> bool \<times> bool \<times> u8 list" where
  "fmt_flags [] l z = (l, z, [])"
| "fmt_flags (c # cs) l z = (if c = 45 then fmt_flags cs True z else if c = 48 then fmt_flags cs l True else (l, z, c # cs))"

text \<open>The loop over the digits of a width or precision.\<close>

fun fmt_number :: "u8 list \<Rightarrow> u32 \<Rightarrow> u32 \<times> u8 list" where
  "fmt_number [] n = (n, [])"
| "fmt_number (c # cs) n = (if 48 \<le> c \<and> c \<le> 57 then fmt_number cs (n * 10 + ucast (c - 48)) else (n, c # cs))"

definition va_arg :: "u32 list \<Rightarrow> (u32 \<times> u32 list) option" where
  "va_arg args = (case args of [] \<Rightarrow> None | a # as \<Rightarrow> Some (a, as))"

text \<open>A number or a star.\<close>

definition fmt_size :: "u8 list \<Rightarrow> u32 list \<Rightarrow> (u32 \<times> u8 list \<times> u32 list) option" where
  "fmt_size fmt args =
     (case fmt of
        [] \<Rightarrow> Some (0, [], args)
      | c # cs \<Rightarrow> if c = 42 then (case va_arg args of None \<Rightarrow> None | Some (a, as) \<Rightarrow> Some (a, cs, as))
                  else (case fmt_number fmt 0 of (n, rest) \<Rightarrow> Some (n, rest, args)))"

text \<open>Everything between the percent sign and the conversion.\<close>

definition fmt_parse :: "u8 list \<Rightarrow> u32 list \<Rightarrow> (fmt_spec \<times> u8 list \<times> u32 list) option" where
  "fmt_parse fmt args =
     (case fmt_flags fmt False False of (l, z, f1) \<Rightarrow>
        (case fmt_size f1 args of None \<Rightarrow> None
         | Some (w, f2, args2) \<Rightarrow>
             (case (if f2 \<noteq> [] \<and> hd f2 = 46 then fmt_size (tl f2) args2 else Some (- 1, f2, args2)) of None \<Rightarrow> None
              | Some (p, f3, args3) \<Rightarrow>
                  (let lng = (f3 \<noteq> [] \<and> hd f3 = 108)
                   in Some (\<lparr>left_align = l, zero_pad = z \<and> \<not> l, width = w, precision = p, is_long = lng\<rparr>,
                        if lng then tl f3 else f3, args3)))))"

text \<open>\<^verbatim>\<open>PUT\<close>: characters that do not fit are dropped.\<close>

definition put :: "u32 \<Rightarrow> u8 \<Rightarrow> u8 list \<Rightarrow> u8 list" where
  "put cap c out = (if of_nat (length out) < cap - 1 then out @ [c] else out)"

definition puts :: "u32 \<Rightarrow> u8 list \<Rightarrow> u8 list \<Rightarrow> u8 list" where
  "puts cap cs out = fold (put cap) cs out"

text \<open>\<^verbatim>\<open>PAD_AND_PUT\<close>; the padding is a signed number.\<close>

definition pad_and_put :: "u32 \<Rightarrow> fmt_spec \<Rightarrow> u8 list \<Rightarrow> u8 list \<Rightarrow> u8 list" where
  "pad_and_put cap sp tmp out =
     (let pad = nat (sint (width sp - of_nat (length tmp)));
          pc = (if zero_pad sp then 48 else 32)
      in if left_align sp then puts cap (replicate pad 32) (puts cap tmp out)
         else puts cap tmp (puts cap (replicate pad pc) out))"

text \<open>
  Filling up digits to the precision, with \<open>neg\<close> characters in front of them; \<open>tmp\<close> is an array of 32
  characters with a zero at its end.
\<close>

definition extend_digits :: "u32 \<Rightarrow> nat \<Rightarrow> u8 list \<Rightarrow> u8 list option" where
  "extend_digits prec neg tmp =
     (if 31 < length tmp then None
      else if int (length tmp - neg) < sint prec then
        (let needed = nat (sint prec) - (length tmp - neg)
         in if 31 < length tmp + needed then None
            else Some (take neg tmp @ replicate needed 48 @ drop neg tmp))
      else Some tmp)"

text \<open>The 64-bit argument of \<^verbatim>\<open>%lu\<close> and \<^verbatim>\<open>%lx\<close>, cut to the 32 bits of the parameter of \<^verbatim>\<open>utoa\<close>.\<close>

definition va_unsigned :: "bool \<Rightarrow> u32 list \<Rightarrow> (u32 \<times> u32 list) option" where
  "va_unsigned lng args =
     (case va_arg args of None \<Rightarrow> None
      | Some (lo, args1) \<Rightarrow> if lng then (case va_arg args1 of None \<Rightarrow> None | Some (hi, args2) \<Rightarrow> Some (lo, args2)) else Some (lo, args1))"

text \<open>A string in memory.\<close>

partial_function (option) read_cstr :: "bytes \<Rightarrow> u32 \<Rightarrow> u8 list option" where
  "read_cstr m p = (if m p = 0 then Some [] else do {cs \<leftarrow> read_cstr m (p + 1); Some (m p # cs)})"

text \<open>The conversions; the result is what the output holds then, and the arguments left.\<close>

definition convert :: "bytes \<Rightarrow> u32 \<Rightarrow> fmt_spec \<Rightarrow> u8 \<Rightarrow> u32 list \<Rightarrow> u8 list \<Rightarrow> (u8 list \<times> u32 list) option" where
  "convert m cap sp c args out =
     (if c = 99 then
        (case va_arg args of None \<Rightarrow> None
         | Some (a, args1) \<Rightarrow> Some (pad_and_put cap sp [ucast a] out, args1))
      else if c = 115 then
        (case va_arg args of None \<Rightarrow> None
         | Some (a, args1) \<Rightarrow>
             (case (if a = 0 then Some [40, 110, 117, 108, 108, 41] else read_cstr m a) of None \<Rightarrow> None
              | Some s \<Rightarrow>
                  (let s' = (if 0 \<le> sint (precision sp) \<and> sint (precision sp) < int (length s)
                             then take (unat (precision sp)) s else s)
                   in Some (pad_and_put cap sp s' out, args1))))
      else if c = 100 then
        (case va_arg args of None \<Rightarrow> None
         | Some (a, args1) \<Rightarrow>
             (let neg = sint a < 0 in
              case utoa (if neg then - a else a) 10 of None \<Rightarrow> None
              | Some ds \<Rightarrow>
                  (case extend_digits (precision sp) (if neg then 1 else 0) ((if neg then [45] else []) @ ds) of None \<Rightarrow> None
                   | Some tmp \<Rightarrow> Some (pad_and_put cap sp tmp out, args1))))
      else if c = 117 \<or> c = 120 then
        (case va_unsigned (is_long sp) args of None \<Rightarrow> None
         | Some (a, args1) \<Rightarrow>
             (case utoa a (if c = 117 then 10 else 16) of None \<Rightarrow> None
              | Some ds \<Rightarrow>
                  (case extend_digits (precision sp) 0 ds of None \<Rightarrow> None
                   | Some tmp \<Rightarrow> Some (pad_and_put cap sp tmp out, args1))))
      else if c = 112 then
        (case va_arg args of None \<Rightarrow> None
         | Some (a, args1) \<Rightarrow>
             (case utoa a 16 of None \<Rightarrow> None
              | Some ds \<Rightarrow> Some (pad_and_put cap sp ([48, 120] @ ds) out, args1)))
      else if c = 37 then Some (put cap 37 out, args)
      else Some (out, args))"

text \<open>
  The main loop; \<open>n\<close> bounds the number of its rounds, each of which consumes a character of the format.
\<close>

fun format_loop :: "nat \<Rightarrow> bytes \<Rightarrow> u32 \<Rightarrow> u8 list \<Rightarrow> u32 list \<Rightarrow> u8 list \<Rightarrow> u8 list option" where
  "format_loop n m cap [] args out = Some out"
| "format_loop 0 m cap (c # cs) args out = None"
| "format_loop (Suc n) m cap (c # cs) args out =
     (if c \<noteq> 37 then format_loop n m cap cs args (put cap c out)
      else (case fmt_parse cs args of None \<Rightarrow> None
            | Some (sp, rest, args1) \<Rightarrow>
                (case rest of [] \<Rightarrow> None
                 | d # rest' \<Rightarrow>
                     (case convert m cap sp d args1 out of None \<Rightarrow> None
                      | Some (out', args2) \<Rightarrow> format_loop n m cap rest' args2 out'))))"

text \<open>The string the buffer holds at the end; its length is the result of the function.\<close>

definition vsnprintf :: "bytes \<Rightarrow> u32 \<Rightarrow> u8 list \<Rightarrow> u32 list \<Rightarrow> u8 list option" where
  "vsnprintf m cap fmt args = format_loop (length fmt) m cap fmt args []"

definition snprintf :: "bytes \<Rightarrow> u32 \<Rightarrow> u8 list \<Rightarrow> u32 list \<Rightarrow> u8 list option" where
  "snprintf m cap fmt args = vsnprintf m cap fmt args"

text \<open>Printing: the number of characters and the terminal.\<close>

definition vprintf :: "bytes \<Rightarrow> u8 list \<Rightarrow> u32 list \<Rightarrow> term_state \<Rightarrow> (u32 \<times> term_state) option" where
  "vprintf m fmt args t =
     (case vsnprintf m 1024 fmt args of None \<Rightarrow> None
      | Some out \<Rightarrow> Some (of_nat (length out), term_write (takeWhile (\<lambda>c. c \<noteq> 0) out) t))"

definition printf :: "bytes \<Rightarrow> u8 list \<Rightarrow> u32 list \<Rightarrow> term_state \<Rightarrow> (u32 \<times> term_state) option" where
  "printf m fmt args t = vprintf m fmt args t"

text \<open>\<^verbatim>\<open>panic\<close>: what the screen shows when the machine halts.\<close>

definition panic_screen :: "bytes \<Rightarrow> u8 list \<Rightarrow> u32 list \<Rightarrow> term_state \<Rightarrow> term_state option" where
  "panic_screen m fmt args t =
     (case printf m [91, 80, 65, 78, 73, 67, 93, 32] [] (term_clear (term_setcolor VGA_COLOR_WHITE 1 t)) of None \<Rightarrow> None
      | Some (_, t1) \<Rightarrow> map_option snd (vprintf m fmt args t1))"

section \<open>Digits\<close>

text \<open>The digits of a number in a base, highest first; none for 0.\<close>

function digs :: "nat \<Rightarrow> nat \<Rightarrow> nat list" where
  "digs b n = (if n = 0 \<or> b < 2 then [] else digs b (n div b) @ [n mod b])"
  by pat_completeness auto
termination
  by (relation "measure snd") auto

declare digs.simps [simp del]

lemma digs_less: "2 \<le> b \<Longrightarrow> d \<in> set (digs b n) \<Longrightarrow> d < b"
  by (induction b n rule: digs.induct) (subst (asm) digs.simps, auto split: if_splits)

lemma digs_length: "n < b ^ k \<Longrightarrow> length (digs b n) \<le> k"
proof (induction k arbitrary: n)
  case 0
  then show ?case by (simp add: digs.simps)
next
  case (Suc k)
  then have "n div b < b ^ k" by (simp add: less_mult_imp_div_less mult.commute)
  with Suc.IH show ?case by (subst digs.simps) auto
qed

lemma digs_value: "2 \<le> b \<Longrightarrow> foldl (\<lambda>v d. v * b + d) 0 (digs b n) = n"
proof (induction b n rule: digs.induct)
  case (1 b n)
  then show ?case by (subst digs.simps) auto
qed

lemma digs_32: "2 \<le> b \<Longrightarrow> n < 2 ^ 32 \<Longrightarrow> length (digs b n) \<le> 32"
  using power_mono [of 2 b 32] by (intro digs_length) simp

lemma digits_loop_digs:
  assumes "2 \<le> unat base" "unat base \<le> 16" "length (digs (unat base) (unat val)) + length tmp \<le> cap"
  shows "digits_loop cap base val tmp = Some (map (\<lambda>d. digit_chars ! d) (digs (unat base) (unat val)) @ tmp)"
  using assms(3)
proof (induction "unat val" arbitrary: val tmp rule: less_induct)
  case less
  show ?case
  proof (cases "val = 0")
    case True
    then show ?thesis by (simp add: digits_loop.simps digs.simps)
  next
    case False
    then have pos: "0 < unat val" by (simp add: unat_gt_0)
    let ?b = "unat base" and ?n = "unat val"
    have d: "digs ?b ?n = digs ?b (?n div ?b) @ [?n mod ?b]" using pos assms(1) by (subst digs.simps) auto
    have lt: "?n div ?b < ?n" using pos assms(1) by (simp add: div_less_dividend)
    have "?n mod ?b < ?b" using assms(1) by (intro mod_less_divisor) simp
    then have m: "?n mod ?b < 16" using assms(2) by linarith
    have "digits_loop cap base (val div base) (digit_chars ! (?n mod ?b) # tmp) =
      Some (map (\<lambda>d. digit_chars ! d) (digs ?b (?n div ?b)) @ digit_chars ! (?n mod ?b) # tmp)"
      using less.hyps [of "val div base" "digit_chars ! (?n mod ?b) # tmp"] less.prems lt
      by (simp add: unat_div d)
    moreover have "base \<noteq> 0" using assms(1) by auto
    moreover have "length tmp < cap" using less.prems by (simp add: d)
    ultimately show ?thesis using False m
      by (subst digits_loop.simps) (simp add: digit_at_def unat_mod d)
  qed
qed

lemma utoa_digs:
  assumes "2 \<le> unat base" "unat base \<le> 16" "val \<noteq> 0"
  shows "utoa val base = Some (map (\<lambda>d. digit_chars ! d) (digs (unat base) (unat val)))"
  using digits_loop_digs [OF assms(1,2), of val "[]" 64] digs_32 [OF assms(1), of "unat val"] u32_less [of val] assms(3)
  by (simp add: utoa_def)

lemma utoa_base_10: "utoa val 10 = Some (if val = 0 then [48] else map (\<lambda>d. digit_chars ! d) (digs 10 (unat val)))"
  using utoa_digs [of 10 val] by (auto simp: utoa_def)

lemma below_ten: "d < (10 :: nat) \<Longrightarrow> d = 0 \<or> d = 1 \<or> d = 2 \<or> d = 3 \<or> d = 4 \<or> d = 5 \<or> d = 6 \<or> d = 7 \<or> d = 8 \<or> d = 9"
  by presburger

lemma digit_char_range: "d < 10 \<Longrightarrow> 48 \<le> digit_chars ! d \<and> digit_chars ! d \<le> 57 \<and> ucast (digit_chars ! d - 48) = (of_nat d :: u32)"
  by (drule below_ten, elim disjE) (simp_all add: digit_chars_def)

lemma atoi_digits_digs:
  "\<forall>d \<in> set ds. d < 10 \<Longrightarrow> atoi_digits (map (\<lambda>d. digit_chars ! d) ds) (of_nat v) = of_nat (foldl (\<lambda>v d. v * 10 + d) v ds)"
proof (induction ds arbitrary: v)
  case (Cons d ds)
  then show ?case using Cons.IH [of "v * 10 + d"] digit_char_range [of d] by simp
qed simp

lemma atoi_digits_unat: "atoi_digits (map (\<lambda>d. digit_chars ! d) (digs 10 (unat v))) 0 = v"
  using atoi_digits_digs [of "digs 10 (unat v)" 0] digs_less [of 10] digs_value [of 10 "unat v"] by auto

lemma sint_neg: "v \<noteq> 0x80000000 \<Longrightarrow> sint (- v) = - sint v" for v :: u32
proof -
  assume v: "v \<noteq> 0x80000000"
  have "sint v \<noteq> - (2 ^ 31)"
  proof
    assume "sint v = - (2 ^ 31)"
    moreover have "of_int (sint v) = v" by simp
    ultimately have "of_int (- (2 ^ 31)) = v" by metis
    with v show False by simp
  qed
  moreover have "- (2 ^ 31) \<le> sint v" "sint v < 2 ^ 31" using sint_ge [of v] sint_lt [of v] by simp_all
  ultimately have "signed_take_bit 31 (- sint v) = - sint v" by (intro signed_take_bit_int_eq_self) auto
  moreover have "- v = of_int (- sint v)" by simp
  moreover have "sint (of_int (- sint v) :: u32) = signed_take_bit 31 (- sint v)" using sint_sbintrunc' [of "- sint v", where ?'a = 32] by simp
  ultimately show ?thesis by metis
qed

lemma atoi_digit_string:
  assumes "v \<noteq> 0"
  shows "atoi (map (\<lambda>d. digit_chars ! d) (digs 10 (unat v))) = v" "atoi (45 # map (\<lambda>d. digit_chars ! d) (digs 10 (unat v))) = - v"
proof -
  have "digs 10 (unat v) \<noteq> []" using assms by (subst digs.simps) (simp add: unat_eq_0)
  then obtain d ds where ds: "digs 10 (unat v) = d # ds" by (cases "digs 10 (unat v)") auto
  have "d < 10" using digs_less [of 10 d "unat v"] ds by simp
  then have d: "digit_chars ! d \<notin> {32, 9, 10, 43, 45}"
    by (drule_tac below_ten, elim disjE) (simp_all add: digit_chars_def)
  note v = atoi_digits_unat [of v]
  show "atoi (map (\<lambda>d. digit_chars ! d) (digs 10 (unat v))) = v"
    using d v by (simp add: atoi_def ds Let_def del: atoi_digits.simps)
  show "atoi (45 # map (\<lambda>d. digit_chars ! d) (digs 10 (unat v))) = - v"
    using v by (simp add: atoi_def Let_def del: atoi_digits.simps)
qed

text \<open>
  Numbers survive printing and reading: for every 32-bit integer but the smallest, \<^verbatim>\<open>itoa\<close> in base
  ten returns a string of at most eleven characters, and \<^verbatim>\<open>atoi\<close> turns it back into the number.
\<close>

theorem itoa_atoi_roundtrip:
  assumes "v \<noteq> 0x80000000"
  shows "\<exists>str. itoa v 10 = Some str \<and> length str \<le> 11 \<and> atoi str = v"
proof -
  consider "v = 0" | "v \<noteq> 0" "0 < sint v" | "sint v < 0" by (cases "sint v = 0"; cases "0 < sint v") (auto simp: not_less signed_eq_0_iff)
  then show ?thesis
  proof cases
    case 1
    then show ?thesis by (simp add: itoa_def atoi_def Let_def)
  next
    case 2
    have l: "length (digs 10 (unat v)) \<le> 10" using u32_less [of v] by (intro digs_length) simp
    then have "itoa v 10 = Some (map (\<lambda>d. digit_chars ! d) (digs 10 (unat v)))"
      using 2 digits_loop_digs [of 10 v "[]" 32] by (simp add: itoa_def)
    then show ?thesis using l 2 atoi_digit_string(1) by simp
  next
    case 3
    then have nz: "- v \<noteq> 0" by auto
    have l: "length (digs 10 (unat (- v))) \<le> 10" using u32_less [of "- v"] by (intro digs_length) simp
    then have "itoa v 10 = Some (45 # map (\<lambda>d. digit_chars ! d) (digs 10 (unat (- v))))"
      using 3 nz sint_neg [OF assms] digits_loop_digs [of 10 "- v" "[]" 32] by (simp add: itoa_def Let_def)
    then show ?thesis using l atoi_digit_string(2) [OF nz] by simp
  qed
qed

theorem itoa_atoi_roundtrip_witness: "\<exists>str. itoa (- 42) 10 = Some str \<and> length str \<le> 11 \<and> atoi str = - 42"
  using itoa_atoi_roundtrip [of "- 42"] by simp

section \<open>Truncation\<close>

text \<open>The output that a buffer of \<open>cap\<close> characters holds, of the output of a larger one.\<close>

definition truncates :: "u32 \<Rightarrow> u32 \<Rightarrow> u8 list \<Rightarrow> u8 list \<Rightarrow> bool" where
  "truncates cap cap' out out' \<longleftrightarrow> out = take (unat cap - 1) out' \<and> length out' \<le> unat cap' - 1"

lemma put_eq: "0 < cap \<Longrightarrow> length out \<le> unat cap - 1 \<Longrightarrow> put cap c out = take (unat cap - 1) (out @ [c])"
proof -
  assume a: "0 < cap" "length out \<le> unat cap - 1"
  have c1: "unat (cap - 1) = unat cap - 1" using a by (intro unat_minus_one) auto
  have l: "unat (of_nat (length out) :: u32) = length out" using a u32_less [of cap] by (intro unat_of_nat_u32) linarith
  show ?thesis using a by (simp add: put_def word_less_nat_alt c1 l)
qed

lemma put_truncates:
  assumes "0 < cap" "cap \<le> cap'" "truncates cap cap' out out'"
  shows "truncates cap cap' (put cap c out) (put cap' c out')"
proof -
  have "unat cap \<le> unat cap'" "0 < cap'" using assms(1,2) by (auto simp: word_le_nat_alt word_less_nat_alt)
  then show ?thesis using assms put_eq [of cap out c] put_eq [of cap' out' c]
    by (cases "length out' \<le> unat cap - 1") (auto simp: truncates_def min_def)
qed

lemma puts_truncates:
  assumes "0 < cap" "cap \<le> cap'" "truncates cap cap' out out'"
  shows "truncates cap cap' (puts cap cs out) (puts cap' cs out')"
  using assms(3) unfolding puts_def
  by (induction cs arbitrary: out out') (use put_truncates [OF assms(1,2)] in auto)

lemma pad_truncates:
  assumes "0 < cap" "cap \<le> cap'" "truncates cap cap' out out'"
  shows "truncates cap cap' (pad_and_put cap sp tmp out) (pad_and_put cap' sp tmp out')"
  using assms by (simp add: pad_and_put_def Let_def puts_truncates)

text \<open>Both outputs after a conversion, or no output twice.\<close>

abbreviation conv_rel :: "u32 \<Rightarrow> u32 \<Rightarrow> (u8 list \<times> u32 list) option \<Rightarrow> (u8 list \<times> u32 list) option \<Rightarrow> bool" where
  "conv_rel cap cap' \<equiv> rel_option (\<lambda>r r'. truncates cap cap' (fst r) (fst r') \<and> snd r = snd r')"

lemma convert_truncates:
  assumes "0 < cap" "cap \<le> cap'" "truncates cap cap' out out'"
  shows "conv_rel cap cap' (convert m cap sp c args out) (convert m cap' sp c args out')"
proof -
  note p = pad_truncates [OF assms]
  have arg: "conv_rel cap cap' (case x of None \<Rightarrow> None | Some a \<Rightarrow> f a) (case x of None \<Rightarrow> None | Some a \<Rightarrow> g a)"
    if "\<And>a. conv_rel cap cap' (f a) (g a)" for x :: "'x option" and f g using that by (cases x) simp_all
  have prod: "conv_rel cap cap' (case x of (a, b) \<Rightarrow> f a b) (case x of (a, b) \<Rightarrow> g a b)"
    if "\<And>a b. conv_rel cap cap' (f a b) (g a b)" for x :: "'x \<times> 'y" and f g using that by (cases x) simp
  have conds: "conv_rel cap cap' (if b then f else g) (if b then f' else g')"
    if "b \<Longrightarrow> conv_rel cap cap' f f'" "\<not> b \<Longrightarrow> conv_rel cap cap' g g'" for b f g f' g' using that by simp
  show ?thesis
    unfolding convert_def Let_def
    by (intro conds arg prod) (simp_all add: p put_truncates [OF assms] assms(3))
qed

lemma format_truncates:
  assumes "0 < cap" "cap \<le> cap'"
  shows "truncates cap cap' out out' \<Longrightarrow> rel_option (truncates cap cap') (format_loop n m cap fmt args out) (format_loop n m cap' fmt args out')"
proof (induction n arbitrary: fmt args out out')
  case 0
  then show ?case by (cases fmt) simp_all
next
  case (Suc n)
  note c = convert_truncates [OF assms Suc.prems]
  show ?case
  proof (cases fmt)
    case Nil
    with Suc.prems show ?thesis by simp
  next
    case (Cons c cs)
    show ?thesis
    proof (cases "c = 37")
      case False
      with Suc.IH put_truncates [OF assms Suc.prems] Cons show ?thesis by simp
    next
      case True
      have step: "rel_option (truncates cap cap')
          (case convert m cap sp d as out of None \<Rightarrow> None | Some (o1, a1) \<Rightarrow> format_loop n m cap rest a1 o1)
          (case convert m cap' sp d as out' of None \<Rightarrow> None | Some (o1, a1) \<Rightarrow> format_loop n m cap' rest a1 o1)" for sp d as rest
        using c [of m sp d as] by (cases "convert m cap sp d as out"; cases "convert m cap' sp d as out'") (auto intro!: Suc.IH)
      show ?thesis using True Cons step by (simp split: option.split list.split)
    qed
  qed
qed

lemma vsnprintf_bounded: "vsnprintf m cap fmt args = Some out \<Longrightarrow> 0 < cap \<Longrightarrow> length out < unat cap"
proof -
  assume v: "vsnprintf m cap fmt args = Some out" "0 < cap"
  have "rel_option (truncates cap cap) (vsnprintf m cap fmt args) (vsnprintf m cap fmt args)"
    unfolding vsnprintf_def by (rule format_truncates [OF v(2) order_refl]) (simp add: truncates_def)
  moreover have "0 < unat cap" using v(2) by (simp add: word_less_nat_alt)
  ultimately show ?thesis using v(1) by (auto simp: truncates_def)
qed

text \<open>
  C30. A buffer of \<open>cap\<close> characters, at least one, is never overrun: \<^verbatim>\<open>vsnprintf\<close> stores at most
  \<open>cap - 1\<close> characters before the final zero, and they are the first characters of what it stores
  into any larger buffer.
\<close>

theorem vsnprintf_truncates:
  assumes "0 < cap" "cap \<le> cap'"
  shows "vsnprintf m cap fmt args = map_option (take (unat cap - 1)) (vsnprintf m cap' fmt args)
    \<and> (\<forall>out. vsnprintf m cap fmt args = Some out \<longrightarrow> length out < unat cap)"
proof -
  have "rel_option (truncates cap cap') (vsnprintf m cap fmt args) (vsnprintf m cap' fmt args)"
    unfolding vsnprintf_def by (rule format_truncates [OF assms]) (simp add: truncates_def)
  moreover have "0 < unat cap" using assms(1) by (simp add: word_less_nat_alt)
  ultimately show ?thesis by (cases rule: option.rel_cases) (auto simp: truncates_def)
qed

theorem vsnprintf_truncates_witness:
  "vsnprintf (\<lambda>_. 0) 4 [37, 100, 33] [1234] = map_option (take 3) (vsnprintf (\<lambda>_. 0) 16 [37, 100, 33] [1234])"
  using vsnprintf_truncates [of 4 16 "\<lambda>_. 0" "[37, 100, 33]" "[1234]"] by simp

end
