(* ===== verification/Kernel.thy ===== *)
theory Kernel
  imports Kbd Rtc Fmt Fat
begin

text \<open>
  The state of the whole kernel, its memory as code sees it through pointers, and the table of open
  files, \<^verbatim>\<open>src/src/fs/file.c\<close> and \<^verbatim>\<open>src/src/fs/file.h\<close>.

  Page tables, the frames of processes and the buffers that \<^verbatim>\<open>kmalloc\<close> returns are bytes of \<open>kmem\<close>;
  the headers of the heap, the process structures and the buffers of the file system are kept in
  stores of their own. A user pointer is translated through the loaded page tables byte by byte;
  \<open>None\<close> also stands for a page fault of the kernel.
\<close>

section \<open>State\<close>

abbreviation MAX_OPEN_FILES :: nat where "MAX_OPEN_FILES \<equiv> 128"

record open_file =
  of_in_use :: bool
  of_path :: "u8 list"
  of_offset :: u32
  of_size :: u32
  of_writable :: bool

record kernel = sched_state +
  kheap :: heap_state
  fat :: fat_state
  open_files :: "nat \<Rightarrow> open_file"
  terminal :: term_state
  kbd :: kbd_state
  rtc :: rtc_state
  tick_count :: u32
  next_pid :: u32

abbreviation kbytes :: "kernel \<Rightarrow> bytes" where "kbytes k \<equiv> kmem (vm k)"

definition set_mem :: "bytes \<Rightarrow> kernel \<Rightarrow> kernel" where
  "set_mem m k = k\<lparr>vm := (vm k)\<lparr>kmem := m\<rparr>\<rparr>"

definition k_malloc :: "u32 \<Rightarrow> kernel \<Rightarrow> (u32 \<times> kernel) option" where
  "k_malloc n k = (case kmalloc n (kheap k) of None \<Rightarrow> None | Some (p, h) \<Rightarrow> Some (p, k\<lparr>kheap := h\<rparr>))"

definition k_free :: "u32 \<Rightarrow> kernel \<Rightarrow> kernel option" where
  "k_free p k = (case kfree p (kheap k) of None \<Rightarrow> None | Some (_, h) \<Rightarrow> Some (k\<lparr>kheap := h\<rparr>))"

section \<open>Pointers\<close>

text \<open>Memory seen through a pointer, and memory after a change through the pointer.\<close>

definition mem_at :: "bytes \<Rightarrow> u32 \<Rightarrow> bytes" where
  "mem_at m p = (\<lambda>i. m (p + i))"

definition mem_from :: "u32 \<Rightarrow> bytes \<Rightarrow> bytes" where
  "mem_from p d = (\<lambda>a. d (a - p))"

text \<open>Where the byte at an address lies, for the processor in kernel mode.\<close>

definition translate :: "vm_state \<Rightarrow> u32 \<Rightarrow> u32 option" where
  "translate s a = map_option phys_to_virt (paging_walk (cr3 s) a (kmem s))"

definition user_byte :: "vm_state \<Rightarrow> u32 \<Rightarrow> u8 option" where
  "user_byte s a = map_option (kmem s) (translate s a)"

text \<open>\<^verbatim>\<open>memcpy\<close> from kernel memory to a translated address.\<close>

fun copy_out :: "nat \<Rightarrow> u32 \<Rightarrow> u32 \<Rightarrow> vm_state \<Rightarrow> vm_state option" where
  "copy_out 0 d p s = Some s"
| "copy_out (Suc n) d p s =
     (case translate s d of None \<Rightarrow> None
      | Some a \<Rightarrow> copy_out n (d + 1) (p + 1) (s\<lparr>kmem := (kmem s)(a := kmem s p)\<rparr>))"

text \<open>The same from bytes that are not in memory, such as a structure on the stack.\<close>

fun store_out :: "u8 list \<Rightarrow> u32 \<Rightarrow> vm_state \<Rightarrow> vm_state option" where
  "store_out [] d s = Some s"
| "store_out (b # bs) d s =
     (case translate s d of None \<Rightarrow> None
      | Some a \<Rightarrow> store_out bs (d + 1) (s\<lparr>kmem := (kmem s)(a := b)\<rparr>))"

text \<open>A buffer of a user, as the file system reads it.\<close>

definition user_buffer :: "u32 \<Rightarrow> u32 \<Rightarrow> vm_state \<Rightarrow> bytes option" where
  "user_buffer p len s =
     (if \<forall>i \<in> set [0..<unat len]. translate s (p + of_nat i) \<noteq> None
      then Some (\<lambda>i. case user_byte s (p + i) of None \<Rightarrow> 0 | Some b \<Rightarrow> b) else None)"

text \<open>A string of a user, up to its zero.\<close>

partial_function (option) user_cstr :: "vm_state \<Rightarrow> u32 \<Rightarrow> u8 list option" where
  "user_cstr s p =
     do {c \<leftarrow> user_byte s p; if c = 0 then Some [] else do {cs \<leftarrow> user_cstr s (p + 1); Some (c # cs)}}"

section \<open>Open files\<close>

text \<open>\<open>- 1\<close> stands for the failure of each of these functions. \<open>junk\<close> is the uninitialised slot of \<^verbatim>\<open>fat.c\<close>.\<close>

definition free_file_slot :: "kernel \<Rightarrow> nat option" where
  "free_file_slot k = find (\<lambda>i. \<not> of_in_use (open_files k i)) [0..<MAX_OPEN_FILES]"

definition file_open :: "dir_slot \<Rightarrow> u8 list \<Rightarrow> bool \<Rightarrow> kernel \<Rightarrow> (int \<times> kernel) option" where
  "file_open junk path writable k =
     (case fat_stat path (fat k) of None \<Rightarrow> None
      | Some (st, info, fs1) \<Rightarrow>
          (let k1 = k\<lparr>fat := fs1\<rparr>; exists = (st = 0) in
           if \<not> writable \<and> \<not> exists then Some (- 1, k1)
           else (case free_file_slot k1 of None \<Rightarrow> Some (- 1, k1)
                 | Some slot \<Rightarrow>
                     (case (if writable then fat_write_file junk path (\<lambda>_. 0) 0 fs1 else Some (0, fs1)) of None \<Rightarrow> None
                      | Some (st2, fs2) \<Rightarrow>
                          if st2 \<noteq> 0 then Some (- 1, k1\<lparr>fat := fs2\<rparr>)
                          else Some (int slot, k1\<lparr>fat := fs2,
                                 open_files := (open_files k1)(slot := \<lparr>of_in_use = True, of_path = take 63 path, of_offset = 0,
                                   of_size = (if writable then 0 else fs_size (the info)), of_writable = writable\<rparr>)\<rparr>)))))"

definition file_close :: "int \<Rightarrow> kernel \<Rightarrow> kernel" where
  "file_close idx k =
     (if idx < 0 \<or> int MAX_OPEN_FILES \<le> idx then k
      else k\<lparr>open_files := (open_files k)(nat idx := (open_files k (nat idx))\<lparr>of_in_use := False\<rparr>)\<rparr>)"

definition file_read :: "int \<Rightarrow> u32 \<Rightarrow> u32 \<Rightarrow> kernel \<Rightarrow> (u32 \<times> kernel) option" where
  "file_read idx buf len k =
     (if idx < 0 \<or> int MAX_OPEN_FILES \<le> idx \<or> \<not> of_in_use (open_files k (nat idx)) then Some (- 1, k)
      else
        (let f = open_files k (nat idx) in
         case k_malloc (fat_read_alloc_size (of_size f) (fat k)) k of None \<Rightarrow> None
         | Some (tmp, k1) \<Rightarrow>
             if tmp = 0 then Some (- 1, k1)
             else (case fat_read_file (of_path f) (mem_at (kbytes k1) tmp) (fat k1) of None \<Rightarrow> None
                   | Some (st, actual_size, d, fs2) \<Rightarrow>
                       (let k2 = set_mem (mem_from tmp d) (k1\<lparr>fat := fs2\<rparr>) in
                        if st \<noteq> 0 then map_option (Pair (- 1)) (k_free tmp k2)
                        else
                          (let remaining = of_size f - of_offset f;
                               to_copy = (if len < remaining then len else remaining)
                           in case copy_out (unat to_copy) buf (tmp + of_offset f) (vm k2) of None \<Rightarrow> None
                              | Some v3 \<Rightarrow>
                                  (case k_free tmp (k2\<lparr>vm := v3\<rparr>) of None \<Rightarrow> None
                                   | Some k4 \<Rightarrow>
                                       Some (to_copy, k4\<lparr>open_files := (open_files k4)(nat idx := f\<lparr>of_offset := of_offset f + to_copy\<rparr>)\<rparr>)))))))"

definition file_write :: "dir_slot \<Rightarrow> int \<Rightarrow> u32 \<Rightarrow> u32 \<Rightarrow> kernel \<Rightarrow> (u32 \<times> kernel) option" where
  "file_write junk idx buf len k =
     (if idx < 0 \<or> int MAX_OPEN_FILES \<le> idx \<or> \<not> of_in_use (open_files k (nat idx)) \<or> \<not> of_writable (open_files k (nat idx))
      then Some (- 1, k)
      else
        (let f = open_files k (nat idx) in
         case user_buffer buf len (vm k) of None \<Rightarrow> None
         | Some data \<Rightarrow>
             (case fat_write_at junk (of_path f) (of_offset f) data len (fat k) of None \<Rightarrow> None
              | Some (st, fs1) \<Rightarrow>
                  if st \<noteq> 0 then Some (- 1, k\<lparr>fat := fs1\<rparr>)
                  else (let off = of_offset f + len;
                            f1 = f\<lparr>of_offset := off, of_size := (if of_size f < off then off else of_size f)\<rparr>
                        in Some (len, k\<lparr>fat := fs1, open_files := (open_files k)(nat idx := f1)\<rparr>)))))"

end
