(* ===== verification/Lifecycle.thy ===== *)
theory Lifecycle
  imports Kernel
begin

text \<open>
  The life of a process: loading an executable, \<^verbatim>\<open>src/src/userspace/exe.c\<close>, creation and clean-up,
  \<^verbatim>\<open>src/src/multi/process.c\<close>, and the timer interrupt of \<^verbatim>\<open>src/src/devices/pit.c\<close>, which cleans up
  dead processes and wakes sleeping ones.
\<close>

section \<open>Loading\<close>

abbreviation USER_STACK_TOP :: u32 where "USER_STACK_TOP \<equiv> 0xbffff000"
abbreviation USER_STACK_SIZE :: u32 where "USER_STACK_SIZE \<equiv> 0x4000"
abbreviation USER_HEAP_MAX :: u32 where "USER_HEAP_MAX \<equiv> USER_STACK_TOP - USER_STACK_SIZE - 0x1000"
abbreviation EXE_MAGIC :: u32 where "EXE_MAGIC \<equiv> 0x46414f4c"
abbreviation EXE_HEADER_SIZE :: u32 where "EXE_HEADER_SIZE \<equiv> 32"

record exe_header =
  ex_magic :: u32
  ex_entry_point :: u32
  ex_code_vaddr :: u32
  ex_code_size :: u32
  ex_data_vaddr :: u32
  ex_data_size :: u32
  ex_bss_vaddr :: u32
  ex_bss_size :: u32

definition get_exe_header :: "bytes \<Rightarrow> u32 \<Rightarrow> exe_header" where
  "get_exe_header m p = \<lparr>ex_magic = ld32 m p, ex_entry_point = ld32 m (p + 4),
     ex_code_vaddr = ld32 m (p + 8), ex_code_size = ld32 m (p + 12), ex_data_vaddr = ld32 m (p + 16),
     ex_data_size = ld32 m (p + 20), ex_bss_vaddr = ld32 m (p + 24), ex_bss_size = ld32 m (p + 28)\<rparr>"

text \<open>
  The frame of a page in \<^verbatim>\<open>map_and_copy\<close>: the one that is mapped there, or a fresh zeroed one. The first
  component is False for the return value 1.
\<close>

definition page_frame :: "u32 \<Rightarrow> u32 \<Rightarrow> u32 \<Rightarrow> vm_state \<Rightarrow> (bool \<times> u32 \<times> vm_state) option" where
  "page_frame pd va flags s =
     (case paging_walk pd va (kmem s) of
        Some phys \<Rightarrow>
          (let frame = page_down phys in
           if flags AND PAGE_RW \<noteq> 0
           then (case paging_map_page pd va frame flags s of None \<Rightarrow> None | Some (_, s1) \<Rightarrow> Some (True, frame, s1))
           else Some (True, frame, s))
      | None \<Rightarrow>
          (case vm_alloc s of None \<Rightarrow> None
           | Some (frame, s1) \<Rightarrow>
               if frame = 0 then Some (False, frame, s1)
               else (case paging_map_page pd va frame flags s1 of None \<Rightarrow> None
                     | Some (st, s2) \<Rightarrow>
                         if st \<noteq> 0 then Some (False, frame, s2)
                         else Some (True, frame, s2\<lparr>kmem := memset (phys_to_virt frame) 0 PAGE_SIZE (kmem s2)\<rparr>))))"

text \<open>
  The loop of \<^verbatim>\<open>map_and_copy\<close>; \<open>done\<close> is the number of bytes that \<^verbatim>\<open>s\<close> is ahead of \<^verbatim>\<open>src\<close>. The status
  is 1 when memory runs out.
\<close>

partial_function (option) map_loop ::
    "u32 \<Rightarrow> u32 \<Rightarrow> u32 \<Rightarrow> u32 \<Rightarrow> u32 \<Rightarrow> u32 \<Rightarrow> u32 \<Rightarrow> u32 \<Rightarrow> vm_state \<Rightarrow> (nat \<times> vm_state) option" where
  "map_loop pd vaddr src sz flags va end_va copied s =
     (if va < end_va then
        (case page_frame pd va flags s of None \<Rightarrow> None
         | Some (ok, frame, s1) \<Rightarrow>
             if \<not> ok then Some (1, s1)
             else
               (let start = page_down vaddr;
                    page_off = (if va = start then vaddr - start else 0);
                    copy_len0 = PAGE_SIZE - page_off;
                    remaining = sz - copied;
                    copy_len = (if remaining < copy_len0 then remaining else copy_len0);
                    s2 = (if src \<noteq> 0 \<and> 0 < copy_len
                          then s1\<lparr>kmem := memcpy (phys_to_virt frame + page_off) (src + copied) copy_len (kmem s1)\<rparr>
                          else s1)
                in map_loop pd vaddr src sz flags (va + PAGE_SIZE) end_va (copied + copy_len) s2))
      else Some (0, s))"

definition map_and_copy :: "u32 \<Rightarrow> u32 \<Rightarrow> u32 \<Rightarrow> u32 \<Rightarrow> u32 \<Rightarrow> vm_state \<Rightarrow> (nat \<times> vm_state) option" where
  "map_and_copy pd vaddr src sz flags s =
     map_loop pd vaddr src sz flags (page_down vaddr) (page_down (vaddr + sz + 0xfff)) 0 s"

text \<open>The four segments, in order: status to return when one fails, address, source, size, flags.\<close>

definition user_flags :: "bool \<Rightarrow> u32" where
  "user_flags w = PAGE_PRESENT OR PAGE_USER OR (if w then PAGE_RW else 0)"

definition segments :: "exe_header \<Rightarrow> u32 \<Rightarrow> (nat \<times> u32 \<times> u32 \<times> u32 \<times> u32) list" where
  "segments h buf =
     (if ex_code_size h \<noteq> 0 then [(5, ex_code_vaddr h, buf + EXE_HEADER_SIZE, ex_code_size h, user_flags False)] else [])
     @ (if ex_data_size h \<noteq> 0
        then [(6, ex_data_vaddr h, buf + EXE_HEADER_SIZE + ex_code_size h, ex_data_size h, user_flags True)] else [])
     @ (if ex_bss_size h \<noteq> 0 then [(7, ex_bss_vaddr h, 0, ex_bss_size h, user_flags True)] else [])
     @ [(8, USER_STACK_TOP - USER_STACK_SIZE, 0, USER_STACK_SIZE, user_flags True)]"

fun load_segments :: "u32 \<Rightarrow> (nat \<times> u32 \<times> u32 \<times> u32 \<times> u32) list \<Rightarrow> vm_state \<Rightarrow> (nat \<times> vm_state) option" where
  "load_segments pd [] s = Some (0, s)"
| "load_segments pd ((code, vaddr, src, sz, flags) # segs) s =
     (case map_and_copy pd vaddr src sz flags s of None \<Rightarrow> None
      | Some (st, s1) \<Rightarrow> if st \<noteq> 0 then Some (code, s1) else load_segments pd segs s1)"

text \<open>
  The part of \<^verbatim>\<open>exec_load\<close> behind the reading of the file into \<open>buf\<close>. It returns the status, 0 for
  success; \<open>proc\<close> is the address of the process structure.
\<close>

definition load_image :: "u32 \<Rightarrow> u32 \<Rightarrow> kernel \<Rightarrow> (nat \<times> kernel) option" where
  "load_image proc buf k =
     (let h = get_exe_header (kbytes k) buf in
      if ex_magic h \<noteq> EXE_MAGIC then Some (4, k)
      else (case paging_create_address_space (vm k) of None \<Rightarrow> None
        | Some (pd, v1) \<Rightarrow>
            (case load_segments pd (segments h buf) v1 of None \<Rightarrow> None
             | Some (st, v2) \<Rightarrow>
                 if st \<noteq> 0 then Some (st, k\<lparr>vm := v2\<rparr>)
                 else (case k_free buf (k\<lparr>vm := v2\<rparr>) of None \<Rightarrow> None
                   | Some k3 \<Rightarrow>
                       (let h3 = get_exe_header (kbytes k3) buf;
                            hs = page_down (ex_bss_vaddr h3 + ex_bss_size h3 + 0xfff)
                        in Some (0, upd_proc proc (\<lambda>x. x\<lparr>p_pd_phys := pd, p_entry_point := ex_entry_point h3,
                             p_user_stack_top := USER_STACK_TOP, p_heap_start := hs, p_heap_break := hs,
                             p_heap_max := USER_HEAP_MAX\<rparr>) k3))))))"

definition exec_load :: "u8 list \<Rightarrow> u32 \<Rightarrow> kernel \<Rightarrow> (nat \<times> kernel) option" where
  "exec_load path proc k =
     (case fat_stat path (fat k) of None \<Rightarrow> None
      | Some (st, info, fs1) \<Rightarrow>
          if st \<noteq> 0 then Some (1, k\<lparr>fat := fs1\<rparr>)
          else (case k_malloc (fat_read_alloc_size (fs_size (the info)) fs1) (k\<lparr>fat := fs1\<rparr>) of None \<Rightarrow> None
            | Some (buf, k2) \<Rightarrow>
                if buf = 0 then Some (2, k2)
                else (case fat_read_file path (mem_at (kbytes k2) buf) (fat k2) of None \<Rightarrow> None
                  | Some (st2, fsize, d, fs3) \<Rightarrow>
                      (let k3 = set_mem (mem_from buf d) (k2\<lparr>fat := fs3\<rparr>)
                       in if st2 \<noteq> 0 then Some (3, k3) else load_image proc buf k3))))"

section \<open>Creation\<close>

abbreviation KERNEL_STACK_SIZE :: u32 where "KERNEL_STACK_SIZE \<equiv> 8192"
abbreviation PROCESS_SIZE :: u32 where "PROCESS_SIZE \<equiv> 392"

text \<open>\<^verbatim>\<open>*--sp = value\<close>.\<close>

fun push_words :: "u32 list \<Rightarrow> u32 \<Rightarrow> bytes \<Rightarrow> u32 \<times> bytes" where
  "push_words [] sp m = (sp, m)"
| "push_words (w # ws) sp m = push_words ws (sp - 4) (st32 (sp - 4) w m)"

text \<open>
  The frame a new process starts from: what the processor pops on return to user mode, the registers
  that the interrupt stub pops, and what \<^verbatim>\<open>context_switch\<close> pops. \<open>ret\<close> is the address of
  \<^verbatim>\<open>isr_return\<close>.
\<close>

definition initial_frame :: "u32 \<Rightarrow> u32 \<Rightarrow> u32 \<Rightarrow> u32 list" where
  "initial_frame ret user_sp entry_point =
     [0x23, user_sp, 0x202, 0x1b, entry_point] @ [0, 0] @ replicate 8 0 @ replicate 4 0x23 @ [ret] @ replicate 4 0"

definition init_fake_stack :: "u32 \<Rightarrow> u32 \<Rightarrow> kernel \<Rightarrow> kernel" where
  "init_fake_stack ret proc k =
     (let x = procs k proc in
      case push_words (initial_frame ret (p_user_stack_top x) (p_entry_point x)) (p_kstack x + KERNEL_STACK_SIZE) (kbytes k) of
        (sp, m) \<Rightarrow> upd_proc proc (\<lambda>x. x\<lparr>p_saved_esp := sp\<rparr>) (set_mem m k))"

definition copy_to_user :: "u32 \<Rightarrow> u32 \<Rightarrow> u32 \<Rightarrow> u32 \<Rightarrow> vm_state \<Rightarrow> vm_state option" where
  "copy_to_user pd dest src len s =
     (case copy_out (unat len) dest src (paging_switch_directory pd s) of None \<Rightarrow> None
      | Some s1 \<Rightarrow> Some (paging_switch_directory (cr3 s) s1))"

text \<open>The second loop of \<^verbatim>\<open>setup_user_argv\<close>: the strings and the pointers to them.\<close>

fun store_args :: "u8 list list \<Rightarrow> u32 \<Rightarrow> u32 \<Rightarrow> u32 \<Rightarrow> u32 \<Rightarrow> bytes \<Rightarrow> bytes" where
  "store_args [] kbuf ptr esp cursor m = m"
| "store_args (a # as) kbuf ptr esp cursor m =
     store_args as kbuf (ptr + 4) esp (cursor + of_nat (length a) + 1)
       (st32 ptr (esp + cursor) (store_bytes (kbuf + cursor) (a @ [0]) m))"

text \<open>Returns the stack pointer of the new process.\<close>

definition setup_user_argv :: "u32 \<Rightarrow> u32 \<Rightarrow> u8 list list \<Rightarrow> kernel \<Rightarrow> (u32 \<times> kernel) option" where
  "setup_user_argv pd stack_top argv k =
     (let argc = of_nat (length argv);
          str_len = of_nat (sum_list (map (\<lambda>a. length a + 1) argv));
          ptr_block = (argc + 1) * 4;
          block_size = (4 + ptr_block + str_len + 15) AND NOT 15
      in case k_malloc block_size k of None \<Rightarrow> None
         | Some (kbuf, k1) \<Rightarrow>
             if kbuf = 0 then None
             else
               (let esp = stack_top - block_size;
                    str_off = 4 + ptr_block;
                    m1 = memset kbuf 0 block_size (kbytes k1);
                    m2 = store_args argv kbuf (kbuf + 4) esp str_off m1;
                    m3 = st32 kbuf argc (st32 (kbuf + 4 + 4 * argc) 0 m2)
                in case copy_to_user pd esp kbuf block_size ((vm k1)\<lparr>kmem := m3\<rparr>) of None \<Rightarrow> None
                   | Some v \<Rightarrow> map_option (Pair esp) (k_free kbuf (k1\<lparr>vm := v\<rparr>))))"

text \<open>\<open>Inl\<close> is the error code, \<open>Inr\<close> the address of the process structure.\<close>

definition process_create :: "u32 \<Rightarrow> u8 list \<Rightarrow> u8 list list \<Rightarrow> kernel \<Rightarrow> ((int + u32) \<times> kernel) option" where
  "process_create ret path argv k =
     (case k_malloc PROCESS_SIZE k of None \<Rightarrow> None
      | Some (proc, k1) \<Rightarrow>
          if proc = 0 then Some (Inl (- 1), k1)
          else (case exec_load path proc k1 of None \<Rightarrow> None
            | Some (r, k2) \<Rightarrow>
                if r \<noteq> 0 then Some (Inl (int r), k2)
                else (case k_malloc KERNEL_STACK_SIZE k2 of None \<Rightarrow> None
                  | Some (kstack, k3) \<Rightarrow>
                      if kstack = 0 then Some (Inl (- 2), k3)
                      else
                        (let k4 = (upd_proc proc (\<lambda>x. x\<lparr>p_pid := next_pid k3, p_ppid := - 1, p_target_pid := - 1, p_next := 0,
                                     p_kstack := kstack, p_esp0 := kstack + KERNEL_STACK_SIZE, p_resume_tick := - 1\<rparr>) k3)
                                   \<lparr>next_pid := next_pid k3 + 1\<rparr>;
                             x = procs k4 proc
                         in case setup_user_argv (p_pd_phys x) (p_user_stack_top x) argv k4 of None \<Rightarrow> None
                            | Some (sp, k5) \<Rightarrow>
                                (let k6 = init_fake_stack ret proc (upd_proc proc (\<lambda>x. x\<lparr>p_user_stack_top := sp\<rparr>) k5);
                                     k7 = upd_proc proc (\<lambda>x. x\<lparr>p_fds := (\<lambda>i. if i < MAX_FDS_PER_PROC then - 1 else p_fds x i),
                                            p_dirs := (\<lambda>i. if i < MAX_DIRS_PER_PROC then (p_dirs x i)\<lparr>dh_in_use := False\<rparr> else p_dirs x i),
                                            p_exit_code := - 1, p_state := PROC_READY, p_block := PROC_NONE, p_cleaned_up := False\<rparr>) k6;
                                     k8 = upd_proc proc (\<lambda>x. set_proc_cwd None (set_proc_name path x)) k7
                                 in Some (Inr proc, k8))))))"

section \<open>The end of a process\<close>

fun close_fds :: "nat list \<Rightarrow> u32 \<Rightarrow> kernel \<Rightarrow> kernel" where
  "close_fds [] p k = k"
| "close_fds (i # is) p k =
     (let fd = p_fds (procs k p) i in
      close_fds is p
        (if fd \<noteq> - 1 then upd_proc p (\<lambda>x. x\<lparr>p_fds := (p_fds x)(i := - 1)\<rparr>) (file_close fd k) else k))"

definition process_cleanup :: "u32 \<Rightarrow> kernel \<Rightarrow> kernel option" where
  "process_cleanup p k =
     (let k1 = close_fds [0..<MAX_FDS_PER_PROC] p k;
          k2 = upd_proc p (\<lambda>x. x\<lparr>p_dirs := (\<lambda>i. if i < MAX_DIRS_PER_PROC then (p_dirs x i)\<lparr>dh_in_use := False\<rparr> else p_dirs x i)\<rparr>) k1;
          k3 = (if p_pd_phys (procs k2 p) \<noteq> 0
                then upd_proc p (\<lambda>x. x\<lparr>p_pd_phys := 0\<rparr>) (k2\<lparr>vm := paging_destroy_address_space (p_pd_phys (procs k2 p)) (vm k2)\<rparr>)
                else k2)
      in if p_kstack (procs k3 p) \<noteq> 0
         then map_option (upd_proc p (\<lambda>x. x\<lparr>p_kstack := 0\<rparr>)) (k_free (p_kstack (procs k3 p)) k3)
         else Some k3)"

section \<open>The timer interrupt\<close>

definition tick_proc :: "u32 \<Rightarrow> kernel \<Rightarrow> kernel option" where
  "tick_proc p k =
     (let x = procs k p in
      if p_state x = PROC_DEAD \<and> \<not> p_cleaned_up x
      then (if p \<noteq> curr_proc k then map_option (upd_proc p (\<lambda>x. x\<lparr>p_cleaned_up := True\<rparr>)) (process_cleanup p k) else Some k)
      else if p_state x \<noteq> PROC_BLOCKED \<or> p_block x \<noteq> PROC_SLEEP then Some k
      else if tick_count k < p_resume_tick x then Some k
      else Some (upd_proc p (\<lambda>x. x\<lparr>p_state := PROC_READY, p_block := PROC_NONE, p_resume_tick := - 1\<rparr>) k))"

partial_function (option) tick_procs :: "u32 \<Rightarrow> kernel \<Rightarrow> kernel option" where
  "tick_procs p k =
     (if p = 0 then Some k
      else case tick_proc p k of None \<Rightarrow> None | Some k1 \<Rightarrow> tick_procs (p_next (procs k1 p)) k1)"

definition pit_handler :: "kernel \<Rightarrow> kernel option" where
  "pit_handler k =
     (let k1 = k\<lparr>tick_count := tick_count k + 1\<rparr>
      in if scheduler_ready k1 then tick_procs (proc_list k1) k1 else Some k1)"

end
