(* ===== verification/Syscalls.thy ===== *)
theory Syscalls
  imports Lifecycle
begin

text \<open>
  System calls and interrupts, \<^verbatim>\<open>src/src/userspace/syscalls.c\<close> and \<^verbatim>\<open>src/src/idt/isr.c\<close>.

  \<^verbatim>\<open>schedule\<close> switches to another process in the middle of a call; what remains of the call runs when
  the process is switched to again. The model splits such a call at that point: \<open>Sys_resched\<close> carries
  what remains, and \<open>sys_resume\<close> runs it. A call that ends is \<open>Sys_done\<close> with the value of
  \<^verbatim>\<open>eax\<close>.
\<close>

section \<open>Interface\<close>

text \<open>What the code does not determine: the clock's registers, the address of \<^verbatim>\<open>isr_return\<close>, and uninitialised locals.\<close>

record env =
  env_cmos :: "u8 \<Rightarrow> u8"
  env_isr_return :: u32
  env_slot :: dir_slot
  env_stack :: bytes

record registers =
  r_eax :: u32
  r_ebx :: u32
  r_ecx :: u32
  r_edx :: u32
  r_int_no :: u32
  r_err_code :: u32
  r_eip :: u32
  r_cs :: u32

datatype pending = Then_return u32 | Then_wait u32 | Then_getchar | Then_keep

datatype sys_result = Sys_done u32 | Sys_resched pending

definition ascii :: "string \<Rightarrow> u8 list" where
  "ascii s = map of_char s"

definition current :: "kernel \<Rightarrow> process" where
  "current k = procs k (curr_proc k)"

definition upd_current :: "(process \<Rightarrow> process) \<Rightarrow> kernel \<Rightarrow> kernel" where
  "upd_current f k = upd_proc (curr_proc k) f k"

definition valid_user :: "u32 \<Rightarrow> u32 \<Rightarrow> bool \<Rightarrow> kernel \<Rightarrow> bool" where
  "valid_user p len w k = paging_validate_user_range (p_pd_phys (current k)) p len w (kbytes k)"

definition sys_ok :: "u32 \<Rightarrow> kernel \<Rightarrow> (sys_result \<times> kernel) option" where
  "sys_ok v k = Some (Sys_done v, k)"

definition resched :: "pending \<Rightarrow> kernel \<Rightarrow> (sys_result \<times> kernel) option" where
  "resched pnd k = map_option (Pair (Sys_resched pnd)) (schedule k)"

definition k_print :: "u8 list \<Rightarrow> u32 list \<Rightarrow> kernel \<Rightarrow> kernel option" where
  "k_print fmt args k = (case printf (kbytes k) fmt args (terminal k) of None \<Rightarrow> None | Some (_, t) \<Rightarrow> Some (k\<lparr>terminal := t\<rparr>))"

section \<open>Strings of the user\<close>

text \<open>
  The loop of \<^verbatim>\<open>copy_user_str\<close> over at most \<open>n\<close> characters: the outer option is a page fault, the inner
  one the failure that the loop reports. The loop of \<^verbatim>\<open>SYS_PRINT\<close> instead stops at a page that is
  not valid.
\<close>

fun copy_str_loop :: "bool \<Rightarrow> nat \<Rightarrow> u32 \<Rightarrow> kernel \<Rightarrow> u8 list option option" where
  "copy_str_loop stops 0 addr k = Some (Some [])"
| "copy_str_loop stops (Suc n) addr k =
     (if addr AND 0xfff = 0 \<and> \<not> valid_user addr 1 False k then Some (if stops then Some [] else None)
      else (case user_byte (vm k) addr of None \<Rightarrow> None
            | Some c \<Rightarrow> if c = 0 then Some (Some [])
                        else map_option (map_option ((#) c)) (copy_str_loop stops n (addr + 1) k)))"

definition copy_user_str :: "u32 \<Rightarrow> nat \<Rightarrow> kernel \<Rightarrow> u8 list option option" where
  "copy_user_str p max_len k = (if \<not> valid_user p 1 False k then Some None else copy_str_loop False (max_len - 1) p k)"

text \<open>A call with a path of at most 63 characters.\<close>

definition with_path :: "u32 \<Rightarrow> (u8 list \<Rightarrow> (sys_result \<times> kernel) option) \<Rightarrow> kernel \<Rightarrow> (sys_result \<times> kernel) option" where
  "with_path p f k =
     (case copy_user_str p 64 k of None \<Rightarrow> None
      | Some None \<Rightarrow> sys_ok (- 1) k
      | Some (Some path) \<Rightarrow> f path)"

section \<open>Processes\<close>

definition sys_exit :: "registers \<Rightarrow> kernel \<Rightarrow> (sys_result \<times> kernel) option" where
  "sys_exit r k =
     (let k1 = upd_current (\<lambda>x. x\<lparr>p_state := PROC_DEAD, p_exit_code := r_ebx r\<rparr>) k
      in case wake_waiters (p_pid (current k1)) k1 of None \<Rightarrow> None | Some k2 \<Rightarrow> resched Then_keep k2)"

definition sys_yield :: "kernel \<Rightarrow> (sys_result \<times> kernel) option" where
  "sys_yield k = resched (Then_return 0) k"

definition sys_kill :: "registers \<Rightarrow> kernel \<Rightarrow> (sys_result \<times> kernel) option" where
  "sys_kill r k =
     (case process_find (r_ebx r) k of None \<Rightarrow> None
      | Some p \<Rightarrow>
          if p = 0 then sys_ok (- 1) k
          else (let k1 = set_state p PROC_DEAD k in
                case wake_waiters (p_pid (procs k1 p)) k1 of None \<Rightarrow> None
                | Some k2 \<Rightarrow> if p = curr_proc k2 then resched (Then_return 0) k2 else sys_ok 0 k2))"

definition sys_wait :: "registers \<Rightarrow> kernel \<Rightarrow> (sys_result \<times> kernel) option" where
  "sys_wait r k =
     (case process_find (r_ebx r) k of None \<Rightarrow> None
      | Some p \<Rightarrow>
          if p = 0 then sys_ok (- 1) k
          else if p_state (procs k p) = PROC_DEAD then sys_ok (p_exit_code (procs k p)) k
          else resched (Then_wait (r_ebx r))
                 (upd_current (\<lambda>x. x\<lparr>p_state := PROC_BLOCKED, p_block := PROC_PID, p_target_pid := p_pid (procs k p)\<rparr>) k))"

text \<open>What \<^verbatim>\<open>SYS_WAIT\<close> does when the waiting process runs again; a null pointer is a fault.\<close>

definition finish_wait :: "u32 \<Rightarrow> kernel \<Rightarrow> (u32 \<times> kernel) option" where
  "finish_wait pid k =
     (case process_find pid k of None \<Rightarrow> None
      | Some p \<Rightarrow>
          if p = 0 then None
          else (let code = p_exit_code (procs k p) in
                case proc_unlink p k of None \<Rightarrow> None
                | Some k1 \<Rightarrow> map_option (Pair code) (k_free p k1)))"

definition sys_sleep :: "registers \<Rightarrow> kernel \<Rightarrow> (sys_result \<times> kernel) option" where
  "sys_sleep r k =
     resched (Then_return 0)
       (upd_current (\<lambda>x. x\<lparr>p_state := PROC_BLOCKED, p_block := PROC_SLEEP, p_resume_tick := tick_count k + r_ebx r\<rparr>) k)"

definition k_getchar :: "kernel \<Rightarrow> u32 \<times> kernel" where
  "k_getchar k = (case kbd_getchar (kbd k) of (c, b) \<Rightarrow> (c, k\<lparr>kbd := b\<rparr>))"

definition sys_getchar :: "kernel \<Rightarrow> (sys_result \<times> kernel) option" where
  "sys_getchar k =
     (case k_getchar k of (c, k1) \<Rightarrow>
        if sint c < 0 then resched Then_getchar (upd_current (\<lambda>x. x\<lparr>p_state := PROC_BLOCKED, p_block := PROC_INPUT\<rparr>) k1)
        else sys_ok c k1)"

definition sys_getchar_nb :: "kernel \<Rightarrow> (sys_result \<times> kernel) option" where
  "sys_getchar_nb k = (case k_getchar k of (c, k1) \<Rightarrow> sys_ok c k1)"

text \<open>
  The arguments of \<^verbatim>\<open>SYS_SPAWN\<close>. When one cannot be copied the code goes on with uninitialised
  pointers, which is undefined: \<open>None\<close>.
\<close>

definition user_word :: "vm_state \<Rightarrow> u32 \<Rightarrow> u32 option" where
  "user_word s p =
     do {a \<leftarrow> user_byte s p; b \<leftarrow> user_byte s (p + 1); c \<leftarrow> user_byte s (p + 2); d \<leftarrow> user_byte s (p + 3);
         Some (ld32 (\<lambda>i. if i = 0 then a else if i = 1 then b else if i = 2 then c else d) 0)}"

fun copy_args :: "nat \<Rightarrow> u32 \<Rightarrow> kernel \<Rightarrow> u8 list list option" where
  "copy_args 0 p k = Some []"
| "copy_args (Suc n) p k =
     do {q \<leftarrow> user_word (vm k) p; r \<leftarrow> copy_user_str q 64 k; a \<leftarrow> r; as \<leftarrow> copy_args n (p + 4) k; Some (a # as)}"

definition sys_spawn :: "env \<Rightarrow> registers \<Rightarrow> kernel \<Rightarrow> (sys_result \<times> kernel) option" where
  "sys_spawn e r k =
     with_path (r_ebx r) (\<lambda>path.
       let argc = r_ecx r in
       if sint argc < 0 \<or> 16 < sint argc then sys_ok (- 1) k
       else if argc \<noteq> 0 \<and> r_edx r \<noteq> 0 \<and> \<not> valid_user (r_edx r) (argc * 4) False k then sys_ok (- 1) k
       else (case (if argc = 0 \<or> r_edx r = 0 then Some [take 63 path] else copy_args (unat argc) (r_edx r) k) of None \<Rightarrow> None
         | Some argv \<Rightarrow>
             (case process_create (env_isr_return e) path argv k of None \<Rightarrow> None
              | Some (Inl err, k1) \<Rightarrow> sys_ok (- 1) k1
              | Some (Inr child, k1) \<Rightarrow>
                  (let k2 = upd_proc child (\<lambda>x. set_proc_cwd (Some (p_cwd (current k1))) (x\<lparr>p_ppid := p_pid (current k1)\<rparr>)) k1;
                       k3 = scheduler_add child k2
                   in sys_ok (p_pid (procs k3 child)) k3)))) k"

section \<open>Memory of the process\<close>

text \<open>The two loops of \<^verbatim>\<open>SYS_SBRK\<close>; growing stops early when there is no memory.\<close>

partial_function (option) grow_loop :: "u32 \<Rightarrow> u32 \<Rightarrow> u32 \<Rightarrow> vm_state \<Rightarrow> vm_state option" where
  "grow_loop pd va new_top s =
     (if va < new_top then
        (case vm_alloc s of None \<Rightarrow> None
         | Some (frame, s1) \<Rightarrow>
             if frame = 0 then Some s1
             else (case paging_map_page pd va frame (PAGE_PRESENT OR PAGE_RW OR PAGE_USER) s1 of None \<Rightarrow> None
               | Some (st, s2) \<Rightarrow>
                   if st \<noteq> 0 then Some (vm_free frame s2)
                   else grow_loop pd (va + PAGE_SIZE) new_top (s2\<lparr>kmem := memset (phys_to_virt frame) 0 PAGE_SIZE (kmem s2)\<rparr>)))
      else Some s)"

definition unmap_and_free :: "u32 \<Rightarrow> u32 \<Rightarrow> vm_state \<Rightarrow> vm_state" where
  "unmap_and_free pd va s =
     (case paging_walk pd va (kmem s) of None \<Rightarrow> s
      | Some paddr \<Rightarrow> vm_free (page_down paddr) (paging_unmap_page pd va s))"

definition sys_sbrk :: "registers \<Rightarrow> kernel \<Rightarrow> (sys_result \<times> kernel) option" where
  "sys_sbrk r k =
     (let x = current k;
          old_break = p_heap_break x;
          new_break = old_break + r_ebx r
      in if new_break < p_heap_start x \<or> p_heap_max x < new_break then sys_ok (- 1) k
         else
           (let old_top = page_up old_break; new_top = page_up new_break in
            case (if old_top < new_top then grow_loop (p_pd_phys x) old_top new_top (vm k)
                  else if new_top < old_top then page_loop (unmap_and_free (p_pd_phys x)) new_top old_top (vm k)
                  else Some (vm k)) of None \<Rightarrow> None
            | Some v \<Rightarrow> sys_ok old_break (upd_current (\<lambda>x. x\<lparr>p_heap_break := new_break\<rparr>) (k\<lparr>vm := v\<rparr>))))"

section \<open>Files and directories\<close>

definition alloc_fd :: "process \<Rightarrow> nat option" where
  "alloc_fd x = find (\<lambda>i. p_fds x i = - 1) [0..<MAX_FDS_PER_PROC]"

definition alloc_dirfd :: "process \<Rightarrow> nat option" where
  "alloc_dirfd x = find (\<lambda>i. \<not> dh_in_use (p_dirs x i)) [0..<MAX_DIRS_PER_PROC]"

text \<open>A descriptor argument is a signed number.\<close>

definition bad_fd :: "u32 \<Rightarrow> kernel \<Rightarrow> bool" where
  "bad_fd fd k \<longleftrightarrow> sint fd < 0 \<or> int MAX_FDS_PER_PROC \<le> sint fd \<or> p_fds (current k) (unat fd) = - 1"

definition bad_dirfd :: "u32 \<Rightarrow> kernel \<Rightarrow> bool" where
  "bad_dirfd fd k \<longleftrightarrow> sint fd < 0 \<or> int MAX_DIRS_PER_PROC \<le> sint fd \<or> \<not> dh_in_use (p_dirs (current k) (unat fd))"

definition sys_open :: "env \<Rightarrow> registers \<Rightarrow> kernel \<Rightarrow> (sys_result \<times> kernel) option" where
  "sys_open e r k =
     (if \<not> valid_user (r_ebx r) 1 False k then sys_ok (- 1) k
      else (case alloc_fd (current k) of None \<Rightarrow> sys_ok (- 1) k
        | Some slot \<Rightarrow>
            (case user_cstr (vm k) (r_ebx r) of None \<Rightarrow> None
             | Some path \<Rightarrow>
                 (case file_open (env_slot e) path (r_ecx r \<noteq> 0) k of None \<Rightarrow> None
                  | Some (idx, k1) \<Rightarrow>
                      if idx < 0 then sys_ok (- 1) k1
                      else sys_ok (of_nat slot) (upd_current (\<lambda>x. x\<lparr>p_fds := (p_fds x)(slot := idx)\<rparr>) k1)))))"

definition sys_close :: "registers \<Rightarrow> kernel \<Rightarrow> (sys_result \<times> kernel) option" where
  "sys_close r k =
     (if bad_fd (r_ebx r) k then sys_ok (- 1) k
      else (let fd = unat (r_ebx r) in
            sys_ok 0 (upd_current (\<lambda>x. x\<lparr>p_fds := (p_fds x)(fd := - 1)\<rparr>) (file_close (p_fds (current k) fd) k))))"

definition sys_read :: "registers \<Rightarrow> kernel \<Rightarrow> (sys_result \<times> kernel) option" where
  "sys_read r k =
     (if bad_fd (r_ebx r) k \<or> \<not> valid_user (r_ecx r) (r_edx r) True k then sys_ok (- 1) k
      else (case file_read (p_fds (current k) (unat (r_ebx r))) (r_ecx r) (r_edx r) k of None \<Rightarrow> None
            | Some (n, k1) \<Rightarrow> sys_ok n k1))"

definition sys_write :: "env \<Rightarrow> registers \<Rightarrow> kernel \<Rightarrow> (sys_result \<times> kernel) option" where
  "sys_write e r k =
     (if bad_fd (r_ebx r) k \<or> \<not> valid_user (r_ecx r) (r_edx r) False k then sys_ok (- 1) k
      else (case file_write (env_slot e) (p_fds (current k) (unat (r_ebx r))) (r_ecx r) (r_edx r) k of None \<Rightarrow> None
            | Some (n, k1) \<Rightarrow> sys_ok n k1))"

text \<open>
  The 24 bytes of a \<^verbatim>\<open>fat_stat_t\<close> that lies on the stack: behind the name and between the fields are
  the bytes the stack held.
\<close>

definition stat_bytes :: "bytes \<Rightarrow> fat_stat_t \<Rightarrow> u8 list" where
  "stat_bytes stk info =
     bytes_at (store_bytes 0 (fs_name info @ [0])
       (st32 16 (fs_size info) (st16 20 (fs_first_cluster info) (stk(22 := fs_attr info))))) 0 24"

definition store_user :: "u32 \<Rightarrow> u8 list \<Rightarrow> kernel \<Rightarrow> kernel option" where
  "store_user p bs k = (case store_out bs p (vm k) of None \<Rightarrow> None | Some v \<Rightarrow> Some (k\<lparr>vm := v\<rparr>))"

definition sys_stat :: "env \<Rightarrow> registers \<Rightarrow> kernel \<Rightarrow> (sys_result \<times> kernel) option" where
  "sys_stat e r k =
     with_path (r_ebx r) (\<lambda>path.
       if \<not> valid_user (r_ecx r) 24 True k then sys_ok (- 1) k
       else (case fat_stat path (fat k) of None \<Rightarrow> None
         | Some (st, info, fs) \<Rightarrow>
             if st \<noteq> 0 then sys_ok (- 1) (k\<lparr>fat := fs\<rparr>)
             else (case store_user (r_ecx r) (stat_bytes (env_stack e) (the info)) (k\<lparr>fat := fs\<rparr>) of None \<Rightarrow> None
               | Some k1 \<Rightarrow> sys_ok 0 k1))) k"

text \<open>Calls that pass a path to the file system and return 0 or - 1.\<close>

definition sys_fat :: "(u8 list \<Rightarrow> fat_state \<Rightarrow> (nat \<times> fat_state) option) \<Rightarrow> registers \<Rightarrow> kernel \<Rightarrow> (sys_result \<times> kernel) option" where
  "sys_fat f r k =
     with_path (r_ebx r) (\<lambda>path.
       (case f path (fat k) of None \<Rightarrow> None
        | Some (st, fs) \<Rightarrow> sys_ok (if st \<noteq> 0 then - 1 else 0) (k\<lparr>fat := fs\<rparr>))) k"

definition sys_unlink :: "registers \<Rightarrow> kernel \<Rightarrow> (sys_result \<times> kernel) option" where
  "sys_unlink r k = sys_fat fat_delete_file r k"

definition sys_mkdir :: "registers \<Rightarrow> kernel \<Rightarrow> (sys_result \<times> kernel) option" where
  "sys_mkdir r k = sys_fat fat_mkdir r k"

definition sys_rmdir :: "registers \<Rightarrow> kernel \<Rightarrow> (sys_result \<times> kernel) option" where
  "sys_rmdir r k = sys_fat fat_rmdir r k"

definition upd_dir :: "nat \<Rightarrow> (dir_handle \<Rightarrow> dir_handle) \<Rightarrow> kernel \<Rightarrow> kernel" where
  "upd_dir i f k = upd_current (\<lambda>x. x\<lparr>p_dirs := (p_dirs x)(i := f (p_dirs x i))\<rparr>) k"

definition sys_opendir :: "registers \<Rightarrow> kernel \<Rightarrow> (sys_result \<times> kernel) option" where
  "sys_opendir r k =
     with_path (r_ebx r) (\<lambda>path.
       (case alloc_dirfd (current k) of None \<Rightarrow> sys_ok (- 1) k
        | Some slot \<Rightarrow>
            (case fat_opendir path (fat k) of None \<Rightarrow> None
             | Some (st, cluster, fs) \<Rightarrow>
                 if st \<noteq> 0 then sys_ok (- 1) (k\<lparr>fat := fs\<rparr>)
                 else sys_ok (of_nat slot)
                        (upd_dir slot (\<lambda>_. \<lparr>dh_cluster = the cluster, dh_index = 0, dh_in_use = True\<rparr>) (k\<lparr>fat := fs\<rparr>))))) k"

definition sys_readdir :: "env \<Rightarrow> registers \<Rightarrow> kernel \<Rightarrow> (sys_result \<times> kernel) option" where
  "sys_readdir e r k =
     (if bad_dirfd (r_ebx r) k then sys_ok (- 1) k
      else if \<not> valid_user (r_ecx r) 24 True k then sys_ok (- 1) k
      else
        (let i = unat (r_ebx r); dh = p_dirs (current k) i in
         case fat_readdir (dh_cluster dh) (dh_index dh) (fat k) of None \<Rightarrow> None
         | Some (err, info, fs) \<Rightarrow>
             if err \<noteq> 0 then sys_ok 0 (k\<lparr>fat := fs\<rparr>)
             else (case store_user (r_ecx r) (stat_bytes (env_stack e) (the info))
                          (upd_dir i (\<lambda>d. d\<lparr>dh_index := dh_index d + 1\<rparr>) (k\<lparr>fat := fs\<rparr>)) of None \<Rightarrow> None
               | Some k1 \<Rightarrow> sys_ok 1 k1)))"

definition sys_closedir :: "registers \<Rightarrow> kernel \<Rightarrow> (sys_result \<times> kernel) option" where
  "sys_closedir r k =
     (if bad_dirfd (r_ebx r) k then sys_ok (- 1) k
      else sys_ok 0 (upd_dir (unat (r_ebx r)) (\<lambda>d. d\<lparr>dh_in_use := False\<rparr>) k))"

text \<open>The test of \<^verbatim>\<open>SYS_CHDIR\<close>; the attribute is uninitialised when \<^verbatim>\<open>fat_stat\<close> fails.\<close>

definition sys_chdir :: "env \<Rightarrow> registers \<Rightarrow> kernel \<Rightarrow> (sys_result \<times> kernel) option" where
  "sys_chdir e r k =
     (case copy_user_str (r_ebx r) 128 k of None \<Rightarrow> None
      | Some None \<Rightarrow> sys_ok (- 1) k
      | Some (Some path) \<Rightarrow>
          (case fat_stat path (fat k) of None \<Rightarrow> None
           | Some (st, info, fs) \<Rightarrow>
               (let attr = (case info of Some i \<Rightarrow> fs_attr i | None \<Rightarrow> env_stack e 22);
                    k1 = k\<lparr>fat := fs\<rparr>
                in if st \<noteq> 0 \<and> attr AND 0x10 = 0 then sys_ok (- 1) k1
                   else sys_ok 0 (upd_current (set_proc_cwd (Some path)) k1))))"

text \<open>A buffer of size 0 makes \<^verbatim>\<open>max - 1\<close> wrap: the copy then faults.\<close>

definition sys_getcwd :: "registers \<Rightarrow> kernel \<Rightarrow> (sys_result \<times> kernel) option" where
  "sys_getcwd r k =
     (if \<not> valid_user (r_ebx r) (r_ecx r) True k then sys_ok (- 1) k
      else if r_ecx r = 0 then None
      else (let cwd = p_cwd (current k);
                n = (if unat (r_ecx r) \<le> length cwd then unat (r_ecx r) - 1 else length cwd)
            in case store_user (r_ebx r) (take n cwd @ [0]) k of None \<Rightarrow> None | Some k1 \<Rightarrow> sys_ok 0 k1))"

section \<open>Output, time and the list of processes\<close>

definition sys_print :: "registers \<Rightarrow> kernel \<Rightarrow> (sys_result \<times> kernel) option" where
  "sys_print r k =
     (if \<not> valid_user (r_ebx r) 1 False k then sys_ok (- 1) k
      else (case copy_str_loop True 255 (r_ebx r) k of None \<Rightarrow> None
            | Some s \<Rightarrow> sys_ok 0 (k\<lparr>terminal := term_write (the s) (terminal k)\<rparr>)))"

definition sys_datetime :: "env \<Rightarrow> registers \<Rightarrow> kernel \<Rightarrow> (sys_result \<times> kernel) option" where
  "sys_datetime e r k =
     (let out = r_ebx r in
      if \<not> valid_user out 8 True k
      then (case k_print (ascii ''[W] syscalls.c: SYS_DATETIME rejected invalid user pointer 0x%x (pid %d)'' @ [10])
                   [out, p_pid (current k)] k of None \<Rightarrow> None
            | Some k1 \<Rightarrow> sys_ok (- 1) k1)
      else (case rtc_now (env_cmos e) (tick_count k) (rtc k) of None \<Rightarrow> None
        | Some (t, c) \<Rightarrow>
            (case store_user out [rt_seconds t, rt_minutes t, rt_hours t, rt_day t, rt_month t] (k\<lparr>rtc := c\<rparr>) of None \<Rightarrow> None
             | Some k1 \<Rightarrow>
                 (case store_user (out + 6) (le16 (rt_year t)) k1 of None \<Rightarrow> None | Some k2 \<Rightarrow> sys_ok 0 k2))))"

definition sys_getuptime :: "kernel \<Rightarrow> (sys_result \<times> kernel) option" where
  "sys_getuptime k = sys_ok (tick_count k) k"

definition state_code :: "proc_state \<Rightarrow> u32" where
  "state_code st = (case st of PROC_READY \<Rightarrow> 0 | PROC_RUNNING \<Rightarrow> 1 | PROC_BLOCKED \<Rightarrow> 2 | PROC_DEAD \<Rightarrow> 3)"

text \<open>The 44 bytes of a \<^verbatim>\<open>proc_info_t\<close>.\<close>

definition proc_info :: "process \<Rightarrow> u8 list" where
  "proc_info x = le32 (p_pid x) @ le32 (p_ppid x) @ le32 (state_code (p_state x))
     @ take 31 (p_name x @ replicate 31 0) @ [0]"

partial_function (option) count_procs :: "u32 \<Rightarrow> u32 \<Rightarrow> kernel \<Rightarrow> u32 option" where
  "count_procs p n k = (if p = 0 then Some n else count_procs (p_next (procs k p)) (n + 1) k)"

partial_function (option) ps_loop :: "u32 \<Rightarrow> u32 \<Rightarrow> u32 \<Rightarrow> u32 \<Rightarrow> kernel \<Rightarrow> (u32 \<times> kernel) option" where
  "ps_loop p i max_procs out k =
     (if p \<noteq> 0 \<and> i < max_procs then
        (case store_user (out + 44 * i) (proc_info (procs k p)) k of None \<Rightarrow> None
         | Some k1 \<Rightarrow> ps_loop (p_next (procs k1 p)) (i + 1) max_procs out k1)
      else Some (i, k))"

definition sys_ps :: "registers \<Rightarrow> kernel \<Rightarrow> (sys_result \<times> kernel) option" where
  "sys_ps r k =
     (case count_procs (proc_list k) 0 k of None \<Rightarrow> None
      | Some n \<Rightarrow>
          if r_ebx r = 0 \<or> r_ecx r = 0 then sys_ok n k
          else if \<not> valid_user (r_ebx r) (r_ecx r * 44) True k then sys_ok (- 1) k
          else (case ps_loop (proc_list k) 0 (r_ecx r) (r_ebx r) k of None \<Rightarrow> None | Some (i, k1) \<Rightarrow> sys_ok i k1))"

section \<open>Dispatch\<close>

definition syscall_dispatch :: "env \<Rightarrow> registers \<Rightarrow> kernel \<Rightarrow> (sys_result \<times> kernel) option" where
  "syscall_dispatch e r k =
     (let n = r_eax r in
      if n = 1 then sys_exit r k
      else if n = 2 then sys_yield k
      else if n = 3 then sys_print r k
      else if n = 4 then sys_datetime e r k
      else if n = 5 then sys_sbrk r k
      else if n = 6 then sys_open e r k
      else if n = 7 then sys_close r k
      else if n = 8 then sys_read r k
      else if n = 9 then sys_write e r k
      else if n = 10 then sys_stat e r k
      else if n = 11 then sys_unlink r k
      else if n = 12 then sys_mkdir r k
      else if n = 13 then sys_rmdir r k
      else if n = 14 then sys_opendir r k
      else if n = 15 then sys_readdir e r k
      else if n = 16 then sys_closedir r k
      else if n = 17 then sys_spawn e r k
      else if n = 18 then sys_kill r k
      else if n = 19 then sys_wait r k
      else if n = 20 then sys_sleep r k
      else if n = 21 then sys_getchar k
      else if n = 22 then sys_getchar_nb k
      else if n = 23 then sys_getuptime k
      else if n = 24 then sys_ps r k
      else if n = 25 then sys_chdir e r k
      else if n = 26 then sys_getcwd r k
      else (case k_print (ascii ''[W] syscalls.c: syscall_dispatch() -> unknown syscall: %d'' @ [10]) [n] k of None \<Rightarrow> None
            | Some k1 \<Rightarrow> sys_ok (- 1) k1))"

text \<open>The rest of a call, when its process runs again; \<open>eax\<close> is the register as the call found it.\<close>

definition sys_resume :: "u32 \<Rightarrow> pending \<Rightarrow> kernel \<Rightarrow> (u32 \<times> kernel) option" where
  "sys_resume eax pnd k =
     (case pnd of
        Then_return v \<Rightarrow> Some (v, k)
      | Then_wait pid \<Rightarrow> finish_wait pid k
      | Then_getchar \<Rightarrow> Some (k_getchar k)
      | Then_keep \<Rightarrow> Some (eax, k))"

section \<open>Interrupts\<close>

text \<open>The \<^verbatim>\<open>do\<close> loop of \<^verbatim>\<open>handle_fault\<close>.\<close>

definition wake_faulted :: "u32 \<Rightarrow> u32 \<Rightarrow> kernel \<Rightarrow> kernel option" where
  "wake_faulted pid p k =
     Some (if p_target_pid (procs k p) = pid \<and> p_state (procs k p) = PROC_BLOCKED
           then upd_proc p (\<lambda>x. x\<lparr>p_state := PROC_READY, p_target_pid := - 1\<rparr>) k else k)"

text \<open>A fault of the kernel panics; an empty list of processes is a null pointer.\<close>

definition handle_fault :: "u32 \<Rightarrow> registers \<Rightarrow> kernel \<Rightarrow> kernel option" where
  "handle_fault cr2 r k =
     (if r_cs r AND 0x3 = 3 then
        (case k_print (ascii ''[E] process pid=%d faulted: int=%d err=0x%x eip=0x%x cr2=0x%x'' @ [10])
                [if curr_proc k \<noteq> 0 then p_pid (current k) else - 1, r_int_no r, r_err_code r, r_eip r,
                 if r_int_no r = 14 then cr2 else 0] k of None \<Rightarrow> None
         | Some k1 \<Rightarrow>
             (let k2 = upd_current (\<lambda>x. x\<lparr>p_state := PROC_DEAD\<rparr>) k1 in
              if proc_list k2 = 0 then None
              else (case for_procs (wake_faulted (p_pid (current k2))) (proc_list k2) k2 of None \<Rightarrow> None
                | Some k3 \<Rightarrow> schedule k3)))
      else None)"

text \<open>
  The common handler; the acknowledgement of the interrupt controller is left out. \<open>scancode\<close> is the
  byte of the keyboard's data port. The first component is the result of a system call.
\<close>

definition isr_handler :: "env \<Rightarrow> u8 \<Rightarrow> u32 \<Rightarrow> registers \<Rightarrow> kernel \<Rightarrow> (sys_result option \<times> kernel) option" where
  "isr_handler e scancode cr2 r k =
     (let n = r_int_no r in
      if n = 32 then (case pit_handler k of None \<Rightarrow> None | Some k1 \<Rightarrow> map_option (Pair None) (schedule k1))
      else if n = 33 then
        (case kbd_handler scancode (kbd k) k of None \<Rightarrow> None | Some (b, k1) \<Rightarrow> Some (None, k1\<lparr>kbd := b\<rparr>))
      else if n = 128 then map_option (\<lambda>(res, k1). (Some res, k1)) (syscall_dispatch e r k)
      else if n < 15 \<or> n \<in> {16, 17, 18, 19} then map_option (Pair None) (handle_fault cr2 r k)
      else map_option (Pair None) (k_print (ascii ''unhandled interrupt: %d'' @ [10]) [n] k))"

end
