(* ===== verification/User_Mem.thy ===== *)
theory User_Mem
  imports Kernel
begin

text \<open>
  The memory of a process as it sees it: the bytes behind its page tables. The lemmas here say what a
  write of the kernel through a user pointer, or to a frame of the process, changes in this view: the
  bytes that were written and nothing else, neither other bytes nor the page tables.
\<close>

section \<open>Bytes of a process\<close>

definition frame_of :: "bytes \<Rightarrow> u32 \<Rightarrow> u32 \<Rightarrow> u32" where
  "frame_of m pd va = page_down (leaf m pd va)"

definition byte_at :: "bytes \<Rightarrow> u32 \<Rightarrow> u32 \<Rightarrow> u32" where
  "byte_at m pd va = phys_to_virt (frame_of m pd va) + (va AND 0xfff)"

abbreviation mapped :: "bytes \<Rightarrow> u32 \<Rightarrow> u32 \<Rightarrow> bool" where
  "mapped m pd va \<equiv> bit (leaf m pd va) 0"

text \<open>The byte a process finds at an address, if there is one.\<close>

definition peek :: "bytes \<Rightarrow> u32 \<Rightarrow> u32 \<Rightarrow> u8 option" where
  "peek m pd va = (if mapped m pd va then Some (m (byte_at m pd va)) else None)"

lemma frame_of_aligned [simp]: "page_aligned (frame_of m pd va)"
  by (simp add: frame_of_def)

lemma unat_offset: "unat (va AND 0xfff) = unat va mod 4096" for va :: u32
proof -
  have "va AND 0xfff = take_bit 12 va" by (simp only: page_mask take_bit_eq_mask)
  then have "unat (va AND 0xfff) = take_bit 12 (unat va)" by (simp only: unsigned_take_bit_eq)
  then show ?thesis by (simp only: take_bit_eq_mod) simp
qed

lemma or_offset: "page_aligned f \<Longrightarrow> f OR (va AND 0xfff) = f + (va AND 0xfff)"
  by (rule disjunctive_add_eq_or [symmetric]) (auto intro!: bit_word_eqI simp: bit_simps page_mask dest: page_aligned_bit)

lemma translate_leaf:
  "translate s va = (if mapped (kmem s) (cr3 s) va then Some (byte_at (kmem s) (cr3 s) va) else None)"
  by (simp add: translate_def paging_walk_leaf byte_at_def frame_of_def or_offset phys_to_virt_def)

lemma user_byte_peek: "user_byte s va = peek (kmem s) (cr3 s) va"
  by (simp add: user_byte_def translate_leaf peek_def)

lemma byte_at_page: "in_range (byte_at m pd va) (phys_to_virt (frame_of m pd va)) 4096"
  by (simp add: byte_at_def in_range_def unat_offset)

lemma byte_at_other: "page_aligned f \<Longrightarrow> f \<noteq> frame_of m pd va \<Longrightarrow> \<not> in_range (byte_at m pd va) (phys_to_virt f) 4096"
  using page_bytes [of f "frame_of m pd va" "va AND 0xfff"] by (simp add: byte_at_def unat_offset)

text \<open>The directory and the tables of an address space.\<close>

definition tables_of :: "bytes \<Rightarrow> u32 \<Rightarrow> u32 set" where
  "tables_of m pd = insert pd {table_at m pd i |i. i < 1024 \<and> pd_present m pd i}"

text \<open>Memory that differs in one page at most.\<close>

definition agrees :: "u32 \<Rightarrow> bytes \<Rightarrow> bytes \<Rightarrow> bool" where
  "agrees f m m' \<longleftrightarrow> (\<forall>a. \<not> in_range a (phys_to_virt f) 4096 \<longrightarrow> m' a = m a)"

lemma agrees_entry:
  assumes "agrees f m m'" "page_aligned f" "page_aligned g" "g \<noteq> f" "j < 1024"
  shows "entry m' g j = entry m g j"
proof -
  have "m' (phys_to_virt g + 4 * j + l) = m (phys_to_virt g + 4 * j + l)" if "l < 4" for l
    using assms(1) page_bytes [OF assms(2,3) assms(4) [symmetric] unat_entry_byte(2) [OF assms(5) that]]
    by (simp add: agrees_def add.assoc)
  from this [of 0] this [of 1] this [of 2] this [of 3] show ?thesis
    unfolding entry_def by (intro ld32_cong) auto
qed

lemma agrees_tables:
  assumes "agrees f m m'" "page_aligned f" "f \<notin> tables_of m pd" "tables_ok m pd"
  shows "j < 1024 \<Longrightarrow> entry m' pd j = entry m pd j" "leaf m' pd va = leaf m pd va" "tables_of m' pd = tables_of m pd"
    "tables_ok m' pd" "tables_rw m' pd = tables_rw m pd" "upper_user m' pd va = upper_user m pd va"
    "frame_of m' pd va = frame_of m pd va" "byte_at m' pd va = byte_at m pd va"
    "j < 1024 \<Longrightarrow> pd_present m' pd j = pd_present m pd j" "j < 1024 \<Longrightarrow> table_at m' pd j = table_at m pd j"
proof -
  have pd: "pd \<noteq> f" "page_aligned pd" using assms(3) tables_ok_aligned [OF assms(4)] by (auto simp: tables_of_def)
  have e: "entry m' pd j = entry m pd j" if "j < 1024" for j using agrees_entry [OF assms(1,2) pd(2,1) that] .
  then have p: "pd_present m' pd j = pd_present m pd j" "table_at m' pd j = table_at m pd j" if "j < 1024" for j
    using that by (simp_all add: pd_present_def table_at_def)
  have t: "entry m' (table_at m pd j) k = entry m (table_at m pd j) k" if "j < 1024" "k < 1024" "pd_present m pd j" for j k
    using assms(3) that by (intro agrees_entry [OF assms(1,2)]) (auto simp: tables_of_def)
  show l: "leaf m' pd va = leaf m pd va" for va
    using t [OF pd_index_less pt_index_less] by (simp add: leaf_def p)
  show "j < 1024 \<Longrightarrow> entry m' pd j = entry m pd j" "j < 1024 \<Longrightarrow> pd_present m' pd j = pd_present m pd j"
    "j < 1024 \<Longrightarrow> table_at m' pd j = table_at m pd j" by (simp_all add: e p)
  show "tables_of m' pd = tables_of m pd" by (auto simp: tables_of_def p) (use p in metis)+
  show "tables_ok m' pd" using assms(4) by (simp add: tables_ok_def p)
  show "tables_rw m' pd = tables_rw m pd" by (simp add: tables_rw_def p e)
  show "upper_user m' pd va = upper_user m pd va" by (simp add: upper_user_def p e)
  show "frame_of m' pd va = frame_of m pd va" by (simp add: frame_of_def l)
  show "byte_at m' pd va = byte_at m pd va" by (simp add: byte_at_def frame_of_def l)
qed

section \<open>Well-formed processes' memory\<close>

text \<open>
  Beyond \<open>aspace_ok\<close>: the frames behind the user's pages are allocated, hold no page tables, and no two
  pages share one.
\<close>

definition space_ok :: "vm_state \<Rightarrow> u32 \<Rightarrow> bool" where
  "space_ok s pd \<longleftrightarrow> aspace_ok s pd
     \<and> (\<forall>va < KERNEL_VIRT_BASE. mapped (kmem s) pd va \<longrightarrow>
          frame_used (vpm s) (pgno (frame_of (kmem s) pd va)) \<and> frame_of (kmem s) pd va \<notin> tables_of (kmem s) pd)
     \<and> (\<forall>va < KERNEL_VIRT_BASE. \<forall>vb < KERNEL_VIRT_BASE. mapped (kmem s) pd va \<longrightarrow> mapped (kmem s) pd vb \<longrightarrow>
          frame_of (kmem s) pd va = frame_of (kmem s) pd vb \<longrightarrow> pgno va = pgno vb)"

lemma space_ok_tables: "space_ok s pd \<Longrightarrow> tables_ok (kmem s) pd"
  by (simp add: space_ok_def aspace_ok_def)

lemma agrees_space:
  assumes "space_ok s pd" "agrees f (kmem s) m'" "page_aligned f" "f \<notin> tables_of (kmem s) pd"
  shows "space_ok (s\<lparr>kmem := m'\<rparr>) pd"
proof -
  note A = agrees_tables [OF assms(2-4) space_ok_tables [OF assms(1)]]
  have "space_ok (s\<lparr>kmem := m'\<rparr>) pd = space_ok s pd"
    using A(4) space_ok_tables [OF assms(1)] by (simp add: space_ok_def aspace_ok_def A(2,3,7,9,10))
  with assms(1) show ?thesis by simp
qed

lemma user_frame: "space_ok s pd \<Longrightarrow> va < KERNEL_VIRT_BASE \<Longrightarrow> mapped (kmem s) pd va \<Longrightarrow> frame_of (kmem s) pd va \<notin> tables_of (kmem s) pd"
  by (simp add: space_ok_def)

lemma user_frames_differ:
  "space_ok s pd \<Longrightarrow> va < KERNEL_VIRT_BASE \<Longrightarrow> vb < KERNEL_VIRT_BASE \<Longrightarrow> mapped (kmem s) pd va \<Longrightarrow> mapped (kmem s) pd vb \<Longrightarrow>
   frame_of (kmem s) pd va = frame_of (kmem s) pd vb \<longleftrightarrow> pgno va = pgno vb"
  using leaf_cong [of va vb "kmem s" pd] unfolding space_ok_def frame_of_def by metis

lemma split_address: "pgno a = pgno b \<Longrightarrow> a AND 0xfff = b AND 0xfff \<Longrightarrow> a = b" for a b :: u32
proof -
  assume a: "pgno a = pgno b" "a AND 0xfff = b AND 0xfff"
  then have "unat a mod 4096 = unat b mod 4096" by (metis unat_offset)
  with a(1) have "unat a = unat b" unfolding pgno_def by (metis div_mult_mod_eq)
  then show ?thesis by (simp add: word_unat_eq_iff)
qed

lemma byte_at_inj:
  assumes "space_ok s pd" "va < KERNEL_VIRT_BASE" "vb < KERNEL_VIRT_BASE" "mapped (kmem s) pd va" "mapped (kmem s) pd vb"
  shows "byte_at (kmem s) pd va = byte_at (kmem s) pd vb \<longleftrightarrow> va = vb"
proof
  assume "byte_at (kmem s) pd va = byte_at (kmem s) pd vb"
  then have "frame_of (kmem s) pd va + (va AND 0xfff) = frame_of (kmem s) pd vb + (vb AND 0xfff)"
    by (simp add: byte_at_def phys_to_virt_def algebra_simps)
  then have "frame_of (kmem s) pd va = frame_of (kmem s) pd vb \<and> va AND 0xfff = vb AND 0xfff"
    by (subst (asm) page_split) (simp_all add: unat_offset)
  then show "va = vb" using user_frames_differ [OF assms] split_address by blast
qed simp

text \<open>A write to a byte of the process.\<close>

lemma write_user:
  fixes b :: u8
  assumes "space_ok s pd" "va < KERNEL_VIRT_BASE" "mapped (kmem s) pd va"
  defines "m' \<equiv> (kmem s)(byte_at (kmem s) pd va := b)"
  shows "space_ok (s\<lparr>kmem := m'\<rparr>) pd" "leaf m' pd vb = leaf (kmem s) pd vb"
    "vb < KERNEL_VIRT_BASE \<Longrightarrow> peek m' pd vb = (if vb = va then Some b else peek (kmem s) pd vb)"
    "tables_rw m' pd = tables_rw (kmem s) pd" "upper_user m' pd vb = upper_user (kmem s) pd vb"
    "j < 1024 \<Longrightarrow> entry m' pd j = entry (kmem s) pd j"
proof -
  let ?f = "frame_of (kmem s) pd va"
  have ag: "agrees ?f (kmem s) m'" using byte_at_page by (auto simp: agrees_def m'_def)
  note nt = user_frame [OF assms(1-3)]
  note A = agrees_tables [OF ag frame_of_aligned nt space_ok_tables [OF assms(1)]]
  show "space_ok (s\<lparr>kmem := m'\<rparr>) pd" by (rule agrees_space [OF assms(1) ag frame_of_aligned nt])
  show "leaf m' pd vb = leaf (kmem s) pd vb" "tables_rw m' pd = tables_rw (kmem s) pd" "upper_user m' pd vb = upper_user (kmem s) pd vb"
    "j < 1024 \<Longrightarrow> entry m' pd j = entry (kmem s) pd j"
    using A by simp_all
  show "peek m' pd vb = (if vb = va then Some b else peek (kmem s) pd vb)" if "vb < KERNEL_VIRT_BASE"
    using A(2,8) byte_at_inj [OF assms(1,2) that assms(3)] assms(3) by (auto simp: peek_def m'_def)
qed

section \<open>Address spaces of user processes\<close>

text \<open>The kernel's half of the directory is closed to the user, and directory entries are writable.\<close>

definition user_space :: "vm_state \<Rightarrow> u32 \<Rightarrow> bool" where
  "user_space s pd \<longleftrightarrow> space_ok s pd \<and> tables_rw (kmem s) pd
     \<and> (\<forall>va. KERNEL_VIRT_BASE \<le> va \<longrightarrow> \<not> upper_user (kmem s) pd va)"

lemma user_access_mapped:
  assumes "user_space s pd" "user_access (kmem s) pd w a"
  shows "a < KERNEL_VIRT_BASE" "mapped (kmem s) pd a"
proof -
  have "upper_user (kmem s) pd a" using assms(2) by (simp add: user_access_def)
  then show "a < KERNEL_VIRT_BASE" using assms(1) not_le unfolding user_space_def by blast
  show "mapped (kmem s) pd a" using assms(2) by (simp add: user_access_def)
qed

lemma user_write:
  fixes b :: u8
  assumes "user_space s pd" "va < KERNEL_VIRT_BASE" "mapped (kmem s) pd va"
  shows "user_space (s\<lparr>kmem := (kmem s)(byte_at (kmem s) pd va := b)\<rparr>) pd"
    "user_access ((kmem s)(byte_at (kmem s) pd va := b)) pd w vb = user_access (kmem s) pd w vb"
proof -
  have sp: "space_ok s pd" using assms(1) by (simp add: user_space_def)
  note W = write_user [OF sp assms(2,3), where b = b]
  show "user_space (s\<lparr>kmem := (kmem s)(byte_at (kmem s) pd va := b)\<rparr>) pd"
    using assms(1) W(1,4,5) by (simp add: user_space_def)
  show "user_access ((kmem s)(byte_at (kmem s) pd va := b)) pd w vb = user_access (kmem s) pd w vb"
    using W(2,5,6) by (simp add: user_access_def)
qed

text \<open>A range of addresses of which every byte can be accessed.\<close>

definition usable :: "vm_state \<Rightarrow> u32 \<Rightarrow> u32 \<Rightarrow> nat \<Rightarrow> bool" where
  "usable s pd p n \<longleftrightarrow> (\<forall>i < n. p + of_nat i < KERNEL_VIRT_BASE \<and> mapped (kmem s) pd (p + of_nat i))"

lemma usable_Suc: "usable s pd p (Suc n) \<longleftrightarrow> p < KERNEL_VIRT_BASE \<and> mapped (kmem s) pd p \<and> usable s pd (p + 1) n"
  by (simp add: usable_def All_less_Suc2 add.assoc)

lemma valid_usable:
  assumes "user_space s pd" "paging_validate_user_range pd p len w (kmem s)"
  shows "usable s pd p (unat len)"
proof (cases "len = 0")
  case False
  have "tables_rw (kmem s) pd" using assms(1) by (simp add: user_space_def)
  then have "user_access (kmem s) pd w a" if "in_range a p (unat len)" for a
    using assms(2) False that validate_user_range [of "kmem s" pd p len w] by simp
  moreover have "in_range (p + of_nat i) p (unat len)" if "i < unat len" for i
    using that u32_less [of len] by (intro in_range_offset) simp_all
  ultimately show ?thesis using user_access_mapped [OF assms(1)] unfolding usable_def by blast
qed (simp add: usable_def)

text \<open>What a write of bytes through a user pointer leads to.\<close>

definition user_stored :: "vm_state \<Rightarrow> u32 \<Rightarrow> u32 \<Rightarrow> u8 list \<Rightarrow> vm_state \<Rightarrow> bool" where
  "user_stored s pd d bs t \<longleftrightarrow> (\<exists>m'. t = s\<lparr>kmem := m'\<rparr>) \<and> user_space t pd
     \<and> (\<forall>va < KERNEL_VIRT_BASE. peek (kmem t) pd va = (if unat (va - d) < length bs then Some (bs ! unat (va - d)) else peek (kmem s) pd va))
     \<and> (\<forall>va. leaf (kmem t) pd va = leaf (kmem s) pd va) \<and> (\<forall>w va. user_access (kmem t) pd w va = user_access (kmem s) pd w va)
     \<and> (\<forall>a. (\<forall>va < KERNEL_VIRT_BASE. mapped (kmem s) pd va \<longrightarrow> byte_at (kmem s) pd va \<noteq> a) \<longrightarrow> kmem t a = kmem s a)"

lemma store_out_ok:
  assumes "user_space s pd" "cr3 s = pd" "usable s pd d (length bs)" "length bs \<le> 2 ^ 32"
  shows "\<exists>t. store_out bs d s = Some t \<and> user_stored s pd d bs t"
  using assms
proof (induction bs arbitrary: d s)
  case Nil
  then show ?case by (auto simp: user_stored_def intro: exI [of _ "kmem s"])
next
  case (Cons b bs)
  have d: "d < KERNEL_VIRT_BASE" "mapped (kmem s) pd d" and u: "usable s pd (d + 1) (length bs)"
    using Cons.prems(3) by (simp_all add: usable_Suc)
  obtain m1 where m1: "m1 = (kmem s)(byte_at (kmem s) pd d := b)" by blast
  obtain s1 where s1: "s1 = s\<lparr>kmem := m1\<rparr>" by blast
  have sp: "space_ok s pd" using Cons.prems(1) by (simp add: user_space_def)
  note W = write_user [OF sp d, where b = b, folded m1] and U = user_write [OF Cons.prems(1) d, where b = b, folded m1]
  have us1: "user_space s1 pd" using U(1) by (simp add: s1)
  have us: "usable s1 pd (d + 1) (length bs)" using u W(2) by (simp add: usable_def s1)
  have cr: "cr3 s1 = pd" using Cons.prems(2) by (simp add: s1)
  have len: "length bs \<le> 2 ^ 32" using Cons.prems(4) by simp
  from Cons.IH [OF us1 cr us len] obtain t where t: "store_out bs (d + 1) s1 = Some t" "user_stored s1 pd (d + 1) bs t" by blast
  from t(2) obtain m' where m': "t = s1\<lparr>kmem := m'\<rparr>" by (auto simp: user_stored_def)
  have step: "store_out (b # bs) d s = Some t"
    using d t(1) Cons.prems(2) by (simp add: translate_leaf s1 m1)
  have idx: "unat (va - (d + 1)) = unat (va - d) - 1" if "va \<noteq> d" for va
    using that CMem.unat_minus_one [of "va - d"] by (simp add: diff_diff_eq)
  have start: "\<not> unat (d - (d + 1)) < length bs"
    using in_range_start [of "length bs" d] Cons.prems(4) by (simp add: in_range_def)
  have view: "peek m' pd va = (if unat (va - d) < length (b # bs) then Some ((b # bs) ! unat (va - d)) else peek (kmem s) pd va)"
    if "va < KERNEL_VIRT_BASE" for va
  proof (cases "va = d")
    case True
    then show ?thesis using that t(2) W(3) [OF that] start by (simp add: user_stored_def m' s1)
  next
    case False
    then have "0 < unat (va - d)" by (simp add: unat_gt_0)
    then obtain q where q: "unat (va - d) = Suc q" by (cases "unat (va - d)") auto
    show ?thesis using that t(2) W(3) [OF that] False idx [OF False] q by (simp add: user_stored_def m' s1)
  qed
  have "user_stored s pd d (b # bs) t"
    unfolding user_stored_def
  proof (intro conjI allI impI)
    show "\<exists>m'. t = s\<lparr>kmem := m'\<rparr>" using m' s1 by auto
    show "user_space t pd" using t(2) by (simp add: user_stored_def)
    show "peek (kmem t) pd va = (if unat (va - d) < length (b # bs) then Some ((b # bs) ! unat (va - d)) else peek (kmem s) pd va)"
      if "va < KERNEL_VIRT_BASE" for va using view [OF that] by (simp add: m')
    show "leaf (kmem t) pd va = leaf (kmem s) pd va" for va using t(2) W(2) by (simp add: user_stored_def s1)
    show "user_access (kmem t) pd w va = user_access (kmem s) pd w va" for w va using t(2) U(2) by (simp add: user_stored_def s1)
    show "kmem t a = kmem s a" if a: "\<forall>va < KERNEL_VIRT_BASE. mapped (kmem s) pd va \<longrightarrow> byte_at (kmem s) pd va \<noteq> a" for a
    proof -
      have "byte_at m1 pd va = byte_at (kmem s) pd va" for va by (simp add: byte_at_def frame_of_def W(2))
      then have "kmem t a = m1 a" using t(2) a W(2) by (simp add: user_stored_def s1)
      moreover have "a \<noteq> byte_at (kmem s) pd d" using a d by auto
      ultimately show ?thesis by (simp add: m1)
    qed
  qed
  with step show ?case by blast
qed

section \<open>Mapping a page\<close>

definition agrees_off :: "u32 set \<Rightarrow> bytes \<Rightarrow> bytes \<Rightarrow> bool" where
  "agrees_off fs m m' \<longleftrightarrow> (\<forall>a. (\<forall>f \<in> fs. \<not> in_range a (phys_to_virt f) 4096) \<longrightarrow> m' a = m a)"

lemma agrees_off_refl [simp]: "agrees_off fs m m"
  by (simp add: agrees_off_def)

lemma agrees_off_trans: "agrees_off fs m m1 \<Longrightarrow> agrees_off fs m1 m2 \<Longrightarrow> agrees_off fs m m2"
  by (simp add: agrees_off_def)

lemma set_entry_agrees_off: "f \<in> fs \<Longrightarrow> page_aligned f \<Longrightarrow> i < 1024 \<Longrightarrow> agrees_off fs m (set_entry f i v m)"
proof -
  assume f: "f \<in> fs" "page_aligned f" "i < 1024"
  have "in_range (phys_to_virt f + 4 * i + l) (phys_to_virt f) 4096" if "l < 4" for l
    using unat_entry_byte(2) [OF f(3) that] by (simp add: in_range_def add.assoc)
  from this [of 0] this [of 1] this [of 2] this [of 3] f(1) show ?thesis
    by (auto simp: agrees_off_def set_entry_def intro!: st32_other)
qed

lemma memset_agrees_off: "f \<in> fs \<Longrightarrow> agrees_off fs m (memset (phys_to_virt f) c PAGE_SIZE m)"
  by (auto simp: agrees_off_def memset_at)

lemma ensure_table_tables:
  assumes ok: "aspace_ok s pd" and en: "ensure_table pd va flags s = Some (0, s1)"
  shows "f \<in> tables_of (kmem s1) pd \<Longrightarrow> f \<in> tables_of (kmem s) pd \<or> \<not> frame_used (vpm s) (pgno f)"
    "agrees_off (tables_of (kmem s1) pd) (kmem s) (kmem s1)"
proof -
  let ?i = "pd_index va" and ?e = "entry (kmem s) pd (pd_index va)"
  from ok have pm: "pmm_ok (vpm s)" and tabs: "tables_ok (kmem s) pd" and pd: "frame_used (vpm s) (pgno pd)"
    and tu: "\<And>i. i < 1024 \<Longrightarrow> pd_present (kmem s) pd i \<Longrightarrow> frame_used (vpm s) (pgno (table_at (kmem s) pd i))"
    by (auto simp: aspace_ok_def)
  have al: "page_aligned pd" using tabs by (rule tables_ok_aligned)
  have "(\<forall>f \<in> tables_of (kmem s1) pd. f \<in> tables_of (kmem s) pd \<or> \<not> frame_used (vpm s) (pgno f))
    \<and> agrees_off (tables_of (kmem s1) pd) (kmem s) (kmem s1)"
  proof (cases "pd_present (kmem s) pd ?i")
    case False
    with en obtain a s0 where a: "vm_alloc s = Some (a, s0)" "a \<noteq> 0"
      "s1 = s0\<lparr>kmem := set_entry pd ?i (a OR 1 OR 2 OR (flags AND 4)) (memset (phys_to_virt a) 0 PAGE_SIZE (kmem s0))\<rparr>"
      by (auto simp: ensure_table_def Let_def pd_present_def split: option.splits if_splits)
    from a(1) pm obtain p where p: "s0 = s\<lparr>vpm := p\<rparr>" "page_aligned a" "\<not> frame_used (vpm s) (pgno a)"
      by (rule vm_alloc_SomeE) blast
    let ?v = "a OR 1 OR 2 OR (flags AND 4)"
    have m1: "kmem s1 = set_entry pd ?i ?v (memset (phys_to_virt a) 0 PAGE_SIZE (kmem s))" by (simp add: a(3) p(1))
    have ne: "a \<noteq> pd" "\<forall>j < 1024. pd_present (kmem s) pd j \<longrightarrow> table_at (kmem s) pd j \<noteq> a" using p(3) pd tu by auto
    have eb: "bit ?v 0" "page_down ?v = a" using page_down_id [OF p(2)] by (auto simp: bit_simps)
    note N = new_table(1) [OF tabs p(2) ne(1) pd_index_less False ne(2) eb m1]
    have P: "pd_present (kmem s1) pd j = (j = ?i \<or> pd_present (kmem s) pd j)"
      "table_at (kmem s1) pd j = (if j = ?i then a else table_at (kmem s) pd j)" if "j < 1024" for j
      using N [OF that] eb by (auto simp: pd_present_def table_at_def)
    have T: "f = a \<or> f \<in> tables_of (kmem s) pd" if "f \<in> tables_of (kmem s1) pd" for f
      using that by (auto simp: tables_of_def P split: if_splits)
    have A: "a \<in> tables_of (kmem s1) pd" "pd \<in> tables_of (kmem s1) pd"
      using P(1,2) [OF pd_index_less, of va] by (auto simp: tables_of_def intro!: exI [of _ ?i])
    have "agrees_off (tables_of (kmem s1) pd) (kmem s) (set_entry pd ?i ?v (memset (phys_to_virt a) 0 PAGE_SIZE (kmem s)))"
      by (rule agrees_off_trans [OF memset_agrees_off [OF A(1)] set_entry_agrees_off [OF A(2) al pd_index_less]])
    then show ?thesis using T p(3) by (auto simp: m1)
  next
    case True
    show ?thesis
    proof (cases "bit flags 2")
      case False
      with True en have "s1 = s" by (simp add: ensure_table_def Let_def pd_present_def)
      then show ?thesis by simp
    next
      case user: True
      from True user en have k: "kmem s1 = set_entry pd ?i (?e OR 4) (kmem s)"
        by (auto simp: ensure_table_def Let_def pd_present_def)
      note F = set_dir_flag(1) [OF tabs pd_index_less True k]
      have P: "pd_present (kmem s1) pd j = pd_present (kmem s) pd j" "table_at (kmem s1) pd j = table_at (kmem s) pd j" if "j < 1024" for j
        using F [OF that] True by (auto simp: pd_present_def table_at_def bit_simps)
      have T: "tables_of (kmem s1) pd = tables_of (kmem s) pd" by (auto simp: tables_of_def P) (use P in metis)+
      have "agrees_off (tables_of (kmem s1) pd) (kmem s) (kmem s1)"
        unfolding T unfolding k by (rule set_entry_agrees_off [OF _ al pd_index_less]) (simp add: tables_of_def)
      then show ?thesis using T by simp
    qed
  qed
  then show "f \<in> tables_of (kmem s1) pd \<Longrightarrow> f \<in> tables_of (kmem s) pd \<or> \<not> frame_used (vpm s) (pgno f)"
    "agrees_off (tables_of (kmem s1) pd) (kmem s) (kmem s1)" by auto
qed

lemma map_page_tables:
  assumes ok: "aspace_ok s pd" and mp: "paging_map_page pd va pa flags s = Some (0, s')"
  shows "f \<in> tables_of (kmem s') pd \<Longrightarrow> f \<in> tables_of (kmem s) pd \<or> \<not> frame_used (vpm s) (pgno f)"
    "agrees_off (tables_of (kmem s') pd) (kmem s) (kmem s')"
proof -
  from mp obtain s1 where en: "ensure_table pd va flags s = Some (0, s1)"
    by (auto simp: paging_map_page_def split: option.splits if_splits)
  let ?pt = "table_at (kmem s1) pd (pd_index va)"
  obtain v where k: "kmem s' = set_entry ?pt (pt_index va) v (kmem s1)"
    using mp en by (auto simp: paging_map_page_def Let_def table_at_def invlpg_def split: if_splits)
  note E = ensure_table_ok(1,2) [OF ok en] and T = ensure_table_tables [OF ok en]
  have ok1: "aspace_ok s1 pd" using E(1) by (simp add: prepares_def)
  then have tabs: "tables_ok (kmem s1) pd" by (simp add: aspace_ok_def)
  note S = set_table_entry(2,3) [OF tabs E(2) [OF refl] pd_index_less pt_index_less k]
  have tb: "tables_of (kmem s') pd = tables_of (kmem s1) pd" by (auto simp: tables_of_def S) (use S in metis)+
  show "f \<in> tables_of (kmem s') pd \<Longrightarrow> f \<in> tables_of (kmem s) pd \<or> \<not> frame_used (vpm s) (pgno f)" using T(1) tb by simp
  have "?pt \<in> tables_of (kmem s1) pd" using E(2) [OF refl] pd_index_less by (auto simp: tables_of_def)
  then have "agrees_off (tables_of (kmem s1) pd) (kmem s1) (kmem s')"
    unfolding k by (rule set_entry_agrees_off) simp_all
  then show "agrees_off (tables_of (kmem s') pd) (kmem s) (kmem s')" unfolding tb by (rule agrees_off_trans [OF T(2)])
qed

text \<open>
  Mapping a page to a frame that is allocated, holds no table and is behind no other page: the page
  shows the frame, and nothing else changes for the process.
\<close>

lemma page_byte_off: "f \<in> fs \<Longrightarrow> page_aligned f \<Longrightarrow> g \<notin> fs \<Longrightarrow> page_aligned g \<Longrightarrow> \<not> in_range (phys_to_virt g + (va AND 0xfff)) (phys_to_virt f) 4096"
  using page_bytes [of f g "va AND 0xfff"] by (auto simp: unat_offset)

lemma tables_of_aligned: "tables_ok m pd \<Longrightarrow> f \<in> tables_of m pd \<Longrightarrow> page_aligned f"
  using tables_ok_aligned by (auto simp: tables_of_def)

lemma map_page_space:
  assumes us: "user_space s pd" and mp: "paging_map_page pd va pa flags s = Some (0, s')"
    and va: "va < KERNEL_VIRT_BASE" and pa: "page_aligned pa" "frame_used (vpm s) (pgno pa)" "pa \<notin> tables_of (kmem s) pd"
    and uniq: "\<forall>vb < KERNEL_VIRT_BASE. mapped (kmem s) pd vb \<longrightarrow> frame_of (kmem s) pd vb = pa \<longrightarrow> pgno vb = pgno va"
  shows "user_space s' pd" "frame_of (kmem s') pd vb = (if pgno vb = pgno va then pa else frame_of (kmem s) pd vb)"
    "mapped (kmem s') pd vb \<longleftrightarrow> pgno vb = pgno va \<or> mapped (kmem s) pd vb"
    "vb < KERNEL_VIRT_BASE \<Longrightarrow> peek (kmem s') pd vb =
      (if pgno vb = pgno va then Some (kmem s (phys_to_virt pa + (vb AND 0xfff))) else peek (kmem s) pd vb)"
    "agrees_off (tables_of (kmem s') pd) (kmem s) (kmem s')"
    "f \<in> tables_of (kmem s') pd \<Longrightarrow> f \<in> tables_of (kmem s) pd \<or> \<not> frame_used (vpm s) (pgno f)"
    "n < frame_limit \<Longrightarrow> frame_used (vpm s) n \<Longrightarrow> frame_used (vpm s') n" "cr3 s' = cr3 s"
    "bit flags 2 \<Longrightarrow> pgno vb = pgno va \<Longrightarrow> user_access (kmem s') pd (bit flags 1) vb"
proof -
  have sp: "space_ok s pd" and rw: "tables_rw (kmem s) pd" using us by (simp_all add: user_space_def)
  have ok: "aspace_ok s pd" using sp by (simp add: space_ok_def)
  note M = map_page [OF ok mp] and T = map_page_tables [OF ok mp]
  show "agrees_off (tables_of (kmem s') pd) (kmem s) (kmem s')" by (rule T)
  show tf: "f \<in> tables_of (kmem s') pd \<Longrightarrow> f \<in> tables_of (kmem s) pd \<or> \<not> frame_used (vpm s) (pgno f)" for f by (rule T)
  show used: "n < frame_limit \<Longrightarrow> frame_used (vpm s) n \<Longrightarrow> frame_used (vpm s') n" for n by (rule M)
  show "cr3 s' = cr3 s" by (rule M)
  have pp: "page_down pa = pa" using pa(1) by (rule page_down_id)
  show F: "frame_of (kmem s') pd vb = (if pgno vb = pgno va then pa else frame_of (kmem s) pd vb)" for vb
    by (simp add: frame_of_def M(2) pp)
  show P: "mapped (kmem s') pd vb \<longleftrightarrow> pgno vb = pgno va \<or> mapped (kmem s) pd vb" for vb
    by (auto simp: M(2) bit_simps)
  have uf: "frame_used (vpm s) (pgno (frame_of (kmem s) pd vb))" "frame_of (kmem s) pd vb \<notin> tables_of (kmem s) pd"
    if "vb < KERNEL_VIRT_BASE" "mapped (kmem s) pd vb" for vb
    using sp that by (simp_all add: space_ok_def)
  have nt: "frame_used (vpm s) (pgno (frame_of (kmem s') pd vb)) \<and> frame_of (kmem s') pd vb \<notin> tables_of (kmem s') pd"
    if "vb < KERNEL_VIRT_BASE" "mapped (kmem s') pd vb" for vb
    using that P [of vb] F [of vb] pa uf [OF that(1)] tf by auto
  have "space_ok s' pd"
    unfolding space_ok_def
  proof (intro conjI allI impI)
    show "aspace_ok s' pd" by (rule M)
    show "frame_used (vpm s') (pgno (frame_of (kmem s') pd vb))" "frame_of (kmem s') pd vb \<notin> tables_of (kmem s') pd"
      if "vb < KERNEL_VIRT_BASE" "mapped (kmem s') pd vb" for vb
      using nt [OF that] used pgno_less by blast+
    show "pgno vb = pgno vc" if h: "vb < KERNEL_VIRT_BASE" "vc < KERNEL_VIRT_BASE" "mapped (kmem s') pd vb" "mapped (kmem s') pd vc"
      "frame_of (kmem s') pd vb = frame_of (kmem s') pd vc" for vb vc
    proof (cases "pgno vb = pgno va \<or> pgno vc = pgno va")
      case True
      then show ?thesis using h uniq P F by (metis (full_types))
    next
      case False
      then have "mapped (kmem s) pd vb" "mapped (kmem s) pd vc" "frame_of (kmem s) pd vb = frame_of (kmem s) pd vc"
        using h P F by simp_all
      then show ?thesis using user_frames_differ [OF sp h(1,2)] by blast
    qed
  qed
  moreover have "\<not> upper_user (kmem s') pd vb" if "KERNEL_VIRT_BASE \<le> vb" for vb
  proof -
    have "pd_index vb \<noteq> pd_index va" using pd_index_kernel [of vb] pd_index_kernel [of va] that va by auto
    then show ?thesis using M(7) [of vb] us that by (simp add: user_space_def)
  qed
  ultimately show "user_space s' pd" using M(6) [OF rw] by (simp add: user_space_def)
  show "peek (kmem s') pd vb = (if pgno vb = pgno va then Some (kmem s (phys_to_virt pa + (vb AND 0xfff))) else peek (kmem s) pd vb)"
    if vb: "vb < KERNEL_VIRT_BASE" for vb
  proof (cases "mapped (kmem s') pd vb")
    case False
    then show ?thesis using P [of vb] by (simp add: peek_def)
  next
    case True
    have tok: "tables_ok (kmem s') pd" using M(1) by (simp add: aspace_ok_def)
    have "kmem s' (byte_at (kmem s') pd vb) = kmem s (byte_at (kmem s') pd vb)"
      using T(2) nt [OF vb True] tables_of_aligned [OF tok] page_byte_off [where g = "frame_of (kmem s') pd vb"]
      unfolding agrees_off_def byte_at_def by (meson frame_of_aligned)
    then show ?thesis using True P [of vb] F [of vb] by (auto simp: peek_def byte_at_def)
  qed
  show "user_access (kmem s') pd (bit flags 1) vb" if "bit flags 2" "pgno vb = pgno va" for vb
  proof -
    have pi: "pd_index vb = pd_index va" using page_of_indices [of vb va] that(2) by simp
    have "\<not> bit pa 1" "\<not> bit pa 2" using page_aligned_bit [OF pa(1)] by simp_all
    moreover have "bit (0xfff :: u32) 1" "bit (0xfff :: u32) 2" by simp_all
    ultimately have l: "bit (leaf (kmem s') pd vb) 0" "bit (leaf (kmem s') pd vb) 2" "bit (leaf (kmem s') pd vb) 1 \<longleftrightarrow> bit flags 1"
      using that by (simp_all add: M(2) pp bit_simps)
    have u: "upper_user (kmem s') pd vb" using M(7) [of vb] pi that by simp
    then have "bit (entry (kmem s') pd (pd_index vb)) 1"
      using M(6) [OF rw] pd_index_less [of vb] by (simp add: upper_user_def tables_rw_def)
    then show ?thesis using l u by (simp add: user_access_def)
  qed
qed

end
