(* ===== verification/Loader.thy ===== *)
theory Loader
  imports Lifecycle User_Mem
begin

text \<open>
  The loader: what \<^verbatim>\<open>map_and_copy\<close> of \<^verbatim>\<open>src/src/userspace/exe.c\<close> leaves in the address space of the
  new process.
\<close>

section \<open>Free frames\<close>

definition free_frames :: "vm_state \<Rightarrow> nat" where
  "free_frames s = card {n. n < pmm_frames (vpm s) \<and> \<not> frame_used (vpm s) n}"

lemma vm_alloc_counts:
  assumes "pmm_ok (vpm s)" "frame_used (vpm s) 0" "0 < free_frames s"
  shows "\<exists>a s1. vm_alloc s = Some (a, s1) \<and> a \<noteq> 0 \<and> free_frames s1 + 1 = free_frames s \<and> frame_used (vpm s1) 0 \<and> pmm_ok (vpm s1)"
proof -
  have "{n. n < pmm_frames (vpm s) \<and> \<not> frame_used (vpm s) n} \<noteq> {}"
    using assms(3) unfolding free_frames_def by (metis card.empty less_irrefl)
  then have "pmm_alloc_frame (vpm s) \<noteq> None" using pmm_alloc_frame_None [OF assms(1)] by auto
  then obtain a p where al: "pmm_alloc_frame (vpm s) = Some (a, p)" by auto
  from pmm_alloc_frame_SomeE [OF assms(1) al] obtain n where
    n: "n < pmm_frames (vpm s)" "\<not> frame_used (vpm s) n" "a = frame_addr n" "p = set_frame a (vpm s)" by metis
  have lim: "n < frame_limit" using n(1) pmm_total_frames(2) [OF assms(1)] by simp
  have u: "frame_used p m \<longleftrightarrow> m = n \<or> frame_used (vpm s) m" if "m < frame_limit" for m
    using that lim by (simp add: n frame_used_set)
  have "{m. m < pmm_frames p \<and> \<not> frame_used p m} = {m. m < pmm_frames (vpm s) \<and> \<not> frame_used (vpm s) m} - {n}"
    using u pmm_total_frames(2) [OF assms(1)] by (auto simp: n(4))
  then have "card {m. m < pmm_frames p \<and> \<not> frame_used p m} + 1 = free_frames s"
    using n(1,2) assms(3) by (simp add: free_frames_def card_Diff_singleton)
  moreover have "a \<noteq> 0" using n(2,3) assms(2) unat_frame_addr [OF lim] by (cases "n = 0") auto
  moreover have "frame_used p 0" using u [of 0] assms(2) by (simp add: frame_limit_def)
  ultimately show ?thesis
    using al pmm.alloc_wf [OF assms(1) al] by (auto simp: vm_alloc_def free_frames_def)
qed

lemma map_page_counts:
  assumes "aspace_ok s pd" "frame_used (vpm s) 0" "0 < free_frames s"
  shows "\<exists>s'. paging_map_page pd va pa flags s = Some (0, s') \<and> free_frames s \<le> free_frames s' + 1 \<and> frame_used (vpm s') 0"
proof -
  have pm: "pmm_ok (vpm s)" using assms(1) by (simp add: aspace_ok_def)
  have "\<exists>s1. ensure_table pd va flags s = Some (0, s1) \<and> free_frames s \<le> free_frames s1 + 1 \<and> frame_used (vpm s1) 0"
    using vm_alloc_counts [OF pm assms(2,3)] assms(2)
    by (auto simp: ensure_table_def Let_def free_frames_def)
  then obtain s1 where s1: "ensure_table pd va flags s = Some (0, s1)" "free_frames s \<le> free_frames s1 + 1" "frame_used (vpm s1) 0" by blast
  then show ?thesis by (auto simp: paging_map_page_def Let_def free_frames_def invlpg_def)
qed

lemma remap_counts:
  assumes "pd_present (kmem s) pd (pd_index va)"
  shows "\<exists>s'. paging_map_page pd va pa flags s = Some (0, s') \<and> vpm s' = vpm s"
proof -
  have "\<exists>s1. ensure_table pd va flags s = Some (0, s1) \<and> vpm s1 = vpm s"
    using assms by (auto simp: ensure_table_def Let_def pd_present_def)
  then show ?thesis by (auto simp: paging_map_page_def Let_def invlpg_def)
qed

section \<open>Kernel memory\<close>

text \<open>A byte of the kernel that is in an allocated frame which the process neither has nor keeps tables in.\<close>

definition apart :: "vm_state \<Rightarrow> u32 \<Rightarrow> u32 \<Rightarrow> bool" where
  "apart s pd a \<longleftrightarrow> frame_used (vpm s) (pgno (virt_to_phys a)) \<and> page_down (virt_to_phys a) \<notin> tables_of (kmem s) pd
     \<and> (\<forall>va < KERNEL_VIRT_BASE. mapped (kmem s) pd va \<longrightarrow> frame_of (kmem s) pd va \<noteq> page_down (virt_to_phys a))"

lemma in_page:
  assumes "page_aligned f"
  shows "in_range a (phys_to_virt f) 4096 \<longleftrightarrow> page_down (virt_to_phys a) = f"
proof -
  let ?p = "virt_to_phys a"
  have d: "a - phys_to_virt f = ?p - f" by (simp add: phys_to_virt_def virt_to_phys_def)
  show ?thesis
  proof
    assume "in_range a (phys_to_virt f) 4096"
    then have x: "unat (?p - f) < 4096" by (simp add: in_range_def d)
    have "unat (f + (?p - f)) = unat f + unat (?p - f)" by (rule unat_page_offset [OF assms x])
    then have "unat ?p = unat f + unat (?p - f)" by simp
    moreover obtain k where "unat f = 4096 * k" using assms by (rule page_alignedE)
    ultimately have "unat ?p div 4096 = k" using x by simp
    then show "page_down ?p = f" using \<open>unat f = 4096 * k\<close> by (simp add: word_unat_eq_iff unat_page_down)
  next
    assume "page_down ?p = f"
    then have "?p - f = ?p AND 0xfff"
      using or_offset [OF page_down_aligned, of ?p ?p] page_down_or_offset [of ?p] by (metis add_diff_cancel_left')
    then show "in_range a (phys_to_virt f) 4096" by (simp add: in_range_def d unat_offset)
  qed
qed

lemma apart_off:
  assumes "apart s pd a" "agrees_off (tables_of m' pd) (kmem s) m'" "tables_ok m' pd"
    and "\<And>f. f \<in> tables_of m' pd \<Longrightarrow> f \<in> tables_of (kmem s) pd \<or> \<not> frame_used (vpm s) (pgno f)"
  shows "m' a = kmem s a"
proof -
  have "\<not> in_range a (phys_to_virt f) 4096" if "f \<in> tables_of m' pd" for f
    using assms(1,4) that in_page [OF tables_of_aligned [OF assms(3) that], of a]
    by (auto simp: apart_def pgno_page_down [of "virt_to_phys a", symmetric] simp del: pgno_page_down)
  with assms(2) show ?thesis by (simp add: agrees_off_def)
qed

section \<open>A page of a segment\<close>

lemma write_frame:
  assumes us: "user_space s pd" and va: "va < KERNEL_VIRT_BASE" "mapped (kmem s) pd va"
    and ag: "agrees (frame_of (kmem s) pd va) (kmem s) m'"
  shows "user_space (s\<lparr>kmem := m'\<rparr>) pd" "leaf m' pd vb = leaf (kmem s) pd vb" "tables_of m' pd = tables_of (kmem s) pd"
    "vb < KERNEL_VIRT_BASE \<Longrightarrow> peek m' pd vb =
      (if pgno vb = pgno va then Some (m' (byte_at (kmem s) pd vb)) else peek (kmem s) pd vb)"
    "user_access m' pd w vb = user_access (kmem s) pd w vb"
    "apart s pd a \<Longrightarrow> apart (s\<lparr>kmem := m'\<rparr>) pd a \<and> m' a = kmem s a"
proof -
  have sp: "space_ok s pd" using us by (simp add: user_space_def)
  note nt = user_frame [OF sp va]
  note A = agrees_tables [OF ag frame_of_aligned nt space_ok_tables [OF sp]]
  show "user_space (s\<lparr>kmem := m'\<rparr>) pd"
    using us agrees_space [OF sp ag frame_of_aligned nt] A(5,6) by (simp add: user_space_def)
  show "leaf m' pd vb = leaf (kmem s) pd vb" "tables_of m' pd = tables_of (kmem s) pd" by (rule A)+
  show "user_access m' pd w vb = user_access (kmem s) pd w vb"
    using A(1) [OF pd_index_less, of vb] by (simp add: user_access_def A(2,6))
  show "peek m' pd vb = (if pgno vb = pgno va then Some (m' (byte_at (kmem s) pd vb)) else peek (kmem s) pd vb)"
    if "vb < KERNEL_VIRT_BASE"
  proof (cases "pgno vb = pgno va")
    case True
    then have "mapped (kmem s) pd vb" using va(2) leaf_cong [of vb va] by simp
    with True show ?thesis by (simp add: peek_def A(2,8))
  next
    case False
    have "m' (byte_at (kmem s) pd vb) = kmem s (byte_at (kmem s) pd vb)" if "mapped (kmem s) pd vb"
      using ag byte_at_other [of "frame_of (kmem s) pd va" "kmem s" pd vb] user_frames_differ [OF sp va(1) \<open>vb < KERNEL_VIRT_BASE\<close> va(2) that] False
      by (auto simp: agrees_def)
    with False show ?thesis by (simp add: peek_def A(2,8))
  qed
  show "apart (s\<lparr>kmem := m'\<rparr>) pd a \<and> m' a = kmem s a" if "apart s pd a"
  proof
    show "apart (s\<lparr>kmem := m'\<rparr>) pd a" using that by (simp add: apart_def A(2,3,7))
    have "\<not> in_range a (phys_to_virt (frame_of (kmem s) pd va)) 4096"
      using that va in_page [OF frame_of_aligned, of a] by (auto simp: apart_def)
    then show "m' a = kmem s a" using ag by (simp add: agrees_def)
  qed
qed

text \<open>What \<open>page_frame\<close> leaves behind: a page of the process, zeroed when it was not there before.\<close>

definition page_ready :: "u32 \<Rightarrow> u32 \<Rightarrow> u32 \<Rightarrow> u32 \<Rightarrow> vm_state \<Rightarrow> vm_state \<Rightarrow> bool" where
  "page_ready pd va flags f s s' \<longleftrightarrow> user_space s' pd \<and> mapped (kmem s') pd va \<and> frame_of (kmem s') pd va = f
     \<and> (\<forall>vb. mapped (kmem s') pd vb \<longleftrightarrow> pgno vb = pgno va \<or> mapped (kmem s) pd vb)
     \<and> (\<forall>vb < KERNEL_VIRT_BASE. peek (kmem s') pd vb =
          (if pgno vb = pgno va \<and> \<not> mapped (kmem s) pd vb then Some 0 else peek (kmem s) pd vb))
     \<and> (\<forall>a. apart s pd a \<longrightarrow> apart s' pd a \<and> kmem s' a = kmem s a)
     \<and> ((bit flags 1 \<or> \<not> mapped (kmem s) pd va) \<and> bit flags 2 \<longrightarrow> (\<forall>vb. pgno vb = pgno va \<longrightarrow> user_access (kmem s') pd (bit flags 1) vb))
     \<and> (\<forall>w vb. pgno vb \<noteq> pgno va \<longrightarrow> user_access (kmem s) pd w vb \<longrightarrow> user_access (kmem s') pd w vb)
     \<and> cr3 s' = cr3 s"

lemma other_access:
  assumes "aspace_ok s pd" "paging_map_page pd va pa flags s = Some (0, s')" "tables_rw (kmem s) pd"
    and "pgno vb \<noteq> pgno va" "user_access (kmem s) pd w vb"
  shows "user_access (kmem s') pd w vb"
proof -
  note M = map_page [OF assms(1,2)]
  have "upper_user (kmem s') pd vb" using assms(5) M(7) [of vb] by (simp add: user_access_def)
  moreover from this have "bit (entry (kmem s') pd (pd_index vb)) 1"
    using M(6) [OF assms(3)] pd_index_less [of vb] by (simp add: upper_user_def tables_rw_def)
  ultimately show ?thesis using assms(4,5) M(2) [of vb] by (simp add: user_access_def)
qed

lemma map_page_apart:
  assumes us: "user_space s pd" and mp: "paging_map_page pd va pa flags s = Some (0, s')"
    and va: "va < KERNEL_VIRT_BASE" and pa: "page_aligned pa" "frame_used (vpm s) (pgno pa)" "pa \<notin> tables_of (kmem s) pd"
    and uniq: "\<forall>vb < KERNEL_VIRT_BASE. mapped (kmem s) pd vb \<longrightarrow> frame_of (kmem s) pd vb = pa \<longrightarrow> pgno vb = pgno va"
    and a: "apart s pd a" "page_down (virt_to_phys a) \<noteq> pa"
  shows "apart s' pd a \<and> kmem s' a = kmem s a"
proof -
  note M = map_page_space [OF us mp va pa uniq]
  have tok: "tables_ok (kmem s') pd" using M(1) by (simp add: user_space_def space_ok_def aspace_ok_def)
  have "page_down (virt_to_phys a) \<notin> tables_of (kmem s') pd"
    using M(6) [of "page_down (virt_to_phys a)"] a(1) by (auto simp: apart_def)
  moreover have "frame_of (kmem s') pd vb \<noteq> page_down (virt_to_phys a)" if "vb < KERNEL_VIRT_BASE" "mapped (kmem s') pd vb" for vb
    using M(2,3) [of vb] that a by (auto simp: apart_def)
  moreover have "frame_used (vpm s) (pgno (virt_to_phys a))" using a(1) by (simp add: apart_def)
  then have "frame_used (vpm s') (pgno (virt_to_phys a))" by (rule M(7) [OF pgno_less])
  ultimately have "apart s' pd a" by (simp add: apart_def)
  with apart_off [OF a(1) M(5) tok M(6)] show ?thesis by simp
qed

lemma page_frame_existing:
  assumes us: "user_space s pd" and va: "va < KERNEL_VIRT_BASE" "mapped (kmem s) pd va"
  shows "\<exists>s'. page_frame pd va flags s = Some (True, frame_of (kmem s) pd va, s')
    \<and> page_ready pd va flags (frame_of (kmem s) pd va) s s' \<and> vpm s' = vpm s"
proof -
  let ?f = "frame_of (kmem s) pd va"
  have sp: "space_ok s pd" and rw: "tables_rw (kmem s) pd" using us by (simp_all add: user_space_def)
  have ok: "aspace_ok s pd" using sp by (simp add: space_ok_def)
  have w: "paging_walk pd va (kmem s) = Some (?f OR (va AND 0xfff))" using va(2) by (simp add: paging_walk_leaf frame_of_def)
  have fd: "page_down (?f OR (va AND 0xfff)) = ?f" by (simp add: page_down_id)
  have lp: "pgno vb = pgno va \<Longrightarrow> mapped (kmem s) pd vb" for vb using va(2) leaf_cong [of vb va] by simp
  show ?thesis
  proof (cases "bit flags 1")
    case False
    then have "page_frame pd va flags s = Some (True, ?f, s)" by (simp add: page_frame_def w fd Let_def page_down_id)
    moreover have "page_ready pd va flags ?f s s" using us va False lp by (auto simp: page_ready_def)
    ultimately show ?thesis by auto
  next
    case True
    have "pd_present (kmem s) pd (pd_index va)" using va(2) by (simp add: leaf_def split: if_splits)
    from remap_counts [OF this] obtain s' where mp: "paging_map_page pd va ?f flags s = Some (0, s')" and v: "vpm s' = vpm s" by blast
    have used: "frame_used (vpm s) (pgno ?f)" and nt: "?f \<notin> tables_of (kmem s) pd" using sp va by (simp_all add: space_ok_def)
    have uniq: "\<forall>vb < KERNEL_VIRT_BASE. mapped (kmem s) pd vb \<longrightarrow> frame_of (kmem s) pd vb = ?f \<longrightarrow> pgno vb = pgno va"
      using user_frames_differ [OF sp _ va(1) _ va(2)] by blast
    note M = map_page_space [OF us mp va(1) frame_of_aligned used nt uniq]
    have pk: "peek (kmem s') pd vb = peek (kmem s) pd vb" if "vb < KERNEL_VIRT_BASE" for vb
    proof (cases "pgno vb = pgno va")
      case True
      then have "frame_of (kmem s) pd vb = ?f" using leaf_cong [of vb va] by (simp add: frame_of_def)
      then show ?thesis using M(4) [OF that] True lp by (simp add: peek_def byte_at_def)
    qed (use M(4) [OF that] in simp)
    have ap: "apart s' pd a \<and> kmem s' a = kmem s a" if "apart s pd a" for a
      using map_page_apart [OF us mp va(1) frame_of_aligned used nt uniq that] that va by (auto simp: apart_def)
    have "page_frame pd va flags s = Some (True, ?f, s')" using True mp by (simp add: page_frame_def w fd Let_def page_down_id)
    moreover have "page_ready pd va flags ?f s s'"
      using M(1,2,3,8,9) pk ap other_access [OF ok mp rw] lp True by (auto simp: page_ready_def)
    ultimately show ?thesis using v by blast
  qed
qed

lemma user_frame_used: "space_ok s pd \<Longrightarrow> va < KERNEL_VIRT_BASE \<Longrightarrow> mapped (kmem s) pd va \<Longrightarrow> frame_used (vpm s) (pgno (frame_of (kmem s) pd va))"
  unfolding space_ok_def by blast

text \<open>The same state with more frames in use.\<close>

lemma user_space_alloc:
  assumes "user_space s pd" "pmm_ok p" "\<And>n. n < frame_limit \<Longrightarrow> frame_used (vpm s) n \<Longrightarrow> frame_used p n"
  shows "user_space (s\<lparr>vpm := p\<rparr>) pd" "apart s pd a \<Longrightarrow> apart (s\<lparr>vpm := p\<rparr>) pd a"
proof -
  have u: "frame_used (vpm s) (pgno f) \<Longrightarrow> frame_used p (pgno f)" for f using assms(3) [OF pgno_less] .
  have e: "vpm (s\<lparr>vpm := p\<rparr>) = p" "kmem (s\<lparr>vpm := p\<rparr>) = kmem s" by simp_all
  show "user_space (s\<lparr>vpm := p\<rparr>) pd"
    using assms(1,2) u unfolding user_space_def space_ok_def aspace_ok_def e by blast
  show "apart s pd a \<Longrightarrow> apart (s\<lparr>vpm := p\<rparr>) pd a" using u by (simp add: apart_def)
qed

lemma page_frame_fresh:
  assumes us: "user_space s pd" and va: "va < KERNEL_VIRT_BASE" "\<not> mapped (kmem s) pd va"
    and fr: "frame_used (vpm s) 0" "2 \<le> free_frames s"
  shows "\<exists>f s'. page_frame pd va flags s = Some (True, f, s') \<and> page_ready pd va flags f s s'
    \<and> free_frames s \<le> free_frames s' + 2 \<and> frame_used (vpm s') 0"
proof -
  have rw: "tables_rw (kmem s) pd" using us by (simp add: user_space_def)
  have pm: "pmm_ok (vpm s)" using us by (simp add: user_space_def space_ok_def aspace_ok_def)
  from vm_alloc_counts [OF pm fr(1)] fr(2) obtain f s1 where al: "vm_alloc s = Some (f, s1)" "f \<noteq> 0"
    "free_frames s1 + 1 = free_frames s" "frame_used (vpm s1) 0" by fastforce
  from al(1) pm obtain p where p: "s1 = s\<lparr>vpm := p\<rparr>" "pmm_ok p" "page_aligned f" "\<not> frame_used (vpm s) (pgno f)"
    "\<And>n. n < frame_limit \<Longrightarrow> frame_used p n \<longleftrightarrow> n = pgno f \<or> frame_used (vpm s) n"
    by (rule vm_alloc_SomeE) blast
  have us1: "user_space s1 pd" unfolding p(1) by (rule user_space_alloc [OF us p(2)]) (simp add: p(5))
  have sp: "space_ok s pd" using us by (simp add: user_space_def)
  then have ok: "aspace_ok s pd" by (simp add: space_ok_def)
  have ok1: "aspace_ok s1 pd" using us1 by (simp add: user_space_def space_ok_def)
  from map_page_counts [OF ok1 al(4)] al(3) fr(2) obtain s2 where
    mp: "paging_map_page pd va f flags s1 = Some (0, s2)" "free_frames s1 \<le> free_frames s2 + 1" "frame_used (vpm s2) 0" by fastforce
  have used: "frame_used (vpm s1) (pgno f)" using p(5) [OF pgno_less] by (simp add: p(1))
  have nt: "f \<notin> tables_of (kmem s1) pd" using ok p(4) by (auto simp: tables_of_def aspace_ok_def p(1))
  have uniq: "\<forall>vb < KERNEL_VIRT_BASE. mapped (kmem s1) pd vb \<longrightarrow> frame_of (kmem s1) pd vb = f \<longrightarrow> pgno vb = pgno va"
    using user_frame_used [OF sp] p(4) unfolding p(1) by auto
  note M = map_page_space [OF us1 mp(1) va(1) p(3) used nt uniq]
  have mf: "mapped (kmem s2) pd va" "frame_of (kmem s2) pd va = f" using M(2,3) [of va] by simp_all
  obtain m' where m': "m' = memset (phys_to_virt f) 0 PAGE_SIZE (kmem s2)" by blast
  obtain s' where s': "s' = s2\<lparr>kmem := m'\<rparr>" by blast
  have ag: "agrees (frame_of (kmem s2) pd va) (kmem s2) m'" by (simp add: mf agrees_def m' memset_at)
  note W = write_frame [OF M(1) va(1) mf(1) ag]
  have zero: "m' (byte_at (kmem s2) pd vb) = 0" if "pgno vb = pgno va" for vb
  proof -
    have "frame_of (kmem s2) pd vb = f" using M(2) [of vb] that by simp
    then show ?thesis using byte_at_page [of "kmem s2" pd vb] by (simp add: m' memset_at)
  qed
  have lp: "\<not> mapped (kmem s) pd vb" if "pgno vb = pgno va" for vb using va(2) leaf_cong [OF that, of "kmem s" pd] by simp
  have pk: "peek m' pd vb = (if pgno vb = pgno va \<and> \<not> mapped (kmem s) pd vb then Some 0 else peek (kmem s) pd vb)"
    if "vb < KERNEL_VIRT_BASE" for vb
    using W(4) [OF that] M(4) [OF that] zero lp by (auto simp: p(1))
  have ap: "apart s' pd a \<and> m' a = kmem s a" if "apart s pd a" for a
  proof -
    have "apart s1 pd a" unfolding p(1) by (rule user_space_alloc(2) [OF us p(2) _ that]) (simp add: p(5))
    moreover have "page_down (virt_to_phys a) \<noteq> f"
      using that p(4) pgno_page_down [of "virt_to_phys a"] by (auto simp: apart_def simp del: pgno_page_down)
    ultimately have "apart s2 pd a \<and> kmem s2 a = kmem s1 a"
      using map_page_apart [OF us1 mp(1) va(1) p(3) used nt uniq] by blast
    then show ?thesis using W(6) by (simp add: s' p(1))
  qed
  have w: "paging_walk pd va (kmem s) = None" using va(2) by (simp add: paging_walk_leaf)
  have run: "page_frame pd va flags s = Some (True, f, s')"
    using al(1,2) mp(1) by (simp add: page_frame_def w s' m')
  have "page_ready pd va flags f s s'"
    unfolding page_ready_def s'
  proof (intro conjI allI impI)
    show "user_space (s2\<lparr>kmem := m'\<rparr>) pd" by (rule W)
    show "mapped (kmem (s2\<lparr>kmem := m'\<rparr>)) pd va" "frame_of (kmem (s2\<lparr>kmem := m'\<rparr>)) pd va = f"
      using mf by (simp_all add: W(2) frame_of_def)
    show "mapped (kmem (s2\<lparr>kmem := m'\<rparr>)) pd vb \<longleftrightarrow> pgno vb = pgno va \<or> mapped (kmem s) pd vb" for vb
      using M(3) [of vb] by (simp add: W(2) p(1))
    show "peek (kmem (s2\<lparr>kmem := m'\<rparr>)) pd vb = (if pgno vb = pgno va \<and> \<not> mapped (kmem s) pd vb then Some 0 else peek (kmem s) pd vb)"
      if "vb < KERNEL_VIRT_BASE" for vb using pk [OF that] by simp
    show "apart (s2\<lparr>kmem := m'\<rparr>) pd a" "kmem (s2\<lparr>kmem := m'\<rparr>) a = kmem s a" if "apart s pd a" for a
      using ap [OF that] by (simp_all add: s')
    show "user_access (kmem (s2\<lparr>kmem := m'\<rparr>)) pd (bit flags 1) vb"
      if "(bit flags 1 \<or> \<not> mapped (kmem s) pd va) \<and> bit flags 2" "pgno vb = pgno va" for vb
      using M(9) [of vb] that W(5) [of "bit flags 1" vb] by simp
    show "user_access (kmem (s2\<lparr>kmem := m'\<rparr>)) pd w vb" if "pgno vb \<noteq> pgno va" "user_access (kmem s) pd w vb" for w vb
      using other_access [OF ok1 mp(1) _ that(1)] that(2) W(5) [of w vb] rw by (simp add: p(1))
    show "cr3 (s2\<lparr>kmem := m'\<rparr>) = cr3 s" using M(8) by (simp add: p(1))
  qed
  moreover have "free_frames s \<le> free_frames s' + 2" using al(3) mp(2) by (simp add: s' free_frames_def)
  moreover have "frame_used (vpm s') 0" using mp(3) by (simp add: s')
  ultimately show ?thesis using run by blast
qed

lemma page_frame_ready:
  assumes us: "user_space s pd" and va: "va < KERNEL_VIRT_BASE" and fr: "frame_used (vpm s) 0" "2 \<le> free_frames s"
  shows "\<exists>f s'. page_frame pd va flags s = Some (True, f, s') \<and> page_ready pd va flags f s s'
    \<and> free_frames s \<le> free_frames s' + 2 \<and> frame_used (vpm s') 0"
proof (cases "mapped (kmem s) pd va")
  case True
  from page_frame_existing [OF us va True, of flags] fr show ?thesis by (fastforce simp: free_frames_def)
next
  case False
  show ?thesis by (rule page_frame_fresh [OF us va False fr])
qed

section \<open>A segment\<close>

text \<open>
  The byte of the process at \<open>vb\<close> when the segment of \<open>n\<close> bytes at \<open>vaddr\<close> is loaded from kernel memory
  at \<open>src\<close>: the bytes of the segment, or zeros for a null source, and zeros around them in fresh pages.
\<close>

definition segment_byte :: "bytes \<Rightarrow> u32 \<Rightarrow> u32 \<Rightarrow> u32 \<Rightarrow> u32 \<Rightarrow> u32 \<Rightarrow> u8 option" where
  "segment_byte m pd vaddr src sz vb =
     (if src \<noteq> 0 \<and> in_range vb vaddr (unat sz) then Some (m (src + (vb - vaddr)))
      else if mapped m pd vb then peek m pd vb else Some 0)"

definition source_ok :: "vm_state \<Rightarrow> u32 \<Rightarrow> u32 \<Rightarrow> u32 \<Rightarrow> bool" where
  "source_ok s pd src sz \<longleftrightarrow> src \<noteq> 0 \<longrightarrow> (\<forall>i < unat sz. apart s pd (src + of_nat i))"

text \<open>The pages of a process that lie between two addresses, and the state after loading them.\<close>

definition loaded :: "u32 \<Rightarrow> u32 \<Rightarrow> u32 \<Rightarrow> u32 \<Rightarrow> u32 \<Rightarrow> nat \<Rightarrow> nat \<Rightarrow> vm_state \<Rightarrow> vm_state \<Rightarrow> bool" where
  "loaded pd vaddr src sz flags a e s s' \<longleftrightarrow> user_space s' pd
     \<and> (\<forall>vb < KERNEL_VIRT_BASE. peek (kmem s') pd vb =
          (if a \<le> unat vb \<and> unat vb < e then segment_byte (kmem s) pd vaddr src sz vb else peek (kmem s) pd vb))
     \<and> (\<forall>vb. mapped (kmem s') pd vb \<longleftrightarrow> a \<le> unat vb \<and> unat vb < e \<or> mapped (kmem s) pd vb)
     \<and> (\<forall>x. apart s pd x \<longrightarrow> apart s' pd x \<and> kmem s' x = kmem s x)
     \<and> ((bit flags 1 \<or> (\<forall>vb. a \<le> unat vb \<and> unat vb < e \<longrightarrow> \<not> mapped (kmem s) pd vb)) \<and> bit flags 2 \<longrightarrow>
          (\<forall>vb. a \<le> unat vb \<and> unat vb < e \<longrightarrow> user_access (kmem s') pd (bit flags 1) vb))
     \<and> (\<forall>w vb. \<not> (a \<le> unat vb \<and> unat vb < e) \<longrightarrow> user_access (kmem s) pd w vb \<longrightarrow> user_access (kmem s') pd w vb)
     \<and> cr3 s' = cr3 s"

lemma page_range: "page_aligned va \<Longrightarrow> pgno vb = pgno va \<longleftrightarrow> unat va \<le> unat vb \<and> unat vb < unat va + 4096"
proof -
  assume "page_aligned va"
  then obtain k where "unat va = 4096 * k" by (rule page_alignedE)
  then show ?thesis by (simp add: pgno_def) linarith
qed

text \<open>The copy into one page.\<close>

lemma copy_page:
  assumes us: "user_space s pd" and va: "va < KERNEL_VIRT_BASE" "page_aligned va" "mapped (kmem s) pd va"
    and src: "\<forall>i < unat n. apart s pd (p + of_nat i)" and n: "unat off + unat n \<le> 4096"
  defines "m' \<equiv> memcpy (phys_to_virt (frame_of (kmem s) pd va) + off) p n (kmem s)"
  shows "agrees (frame_of (kmem s) pd va) (kmem s) m'"
    "pgno vb = pgno va \<Longrightarrow> m' (byte_at (kmem s) pd vb) =
      (if unat va + unat off \<le> unat vb \<and> unat vb < unat va + unat off + unat n
       then kmem s (p + (vb - (va + off))) else kmem s (byte_at (kmem s) pd vb))"
proof -
  let ?f = "frame_of (kmem s) pd va"
  let ?d = "phys_to_virt ?f + off"
  have d: "in_range x (phys_to_virt ?f) 4096" if "in_range x ?d (unat n)" for x
  proof -
    have "unat (x - ?d) < unat n" using that by (simp add: in_range_def)
    then have "unat (off + (x - ?d)) = unat off + unat (x - ?d)" using n by (subst unat_add_lem [THEN iffD1]) auto
    moreover have "off + (x - ?d) = x - phys_to_virt ?f" by simp
    ultimately show ?thesis using n \<open>unat (x - ?d) < unat n\<close> by (simp add: in_range_def)
  qed
  have no: "\<not> in_range ?d p (unat n)"
  proof
    assume r: "in_range ?d p (unat n)"
    then have "0 < unat n" by (auto simp: in_range_def)
    then have "in_range ?d (phys_to_virt ?f) 4096" by (intro d) (simp add: in_range_def)
    then have "page_down (virt_to_phys ?d) = ?f" by (simp add: in_page)
    moreover have "unat (?d - p) < unat n" using r by (simp add: in_range_def)
    then have "apart s pd (p + of_nat (unat (?d - p)))" by (rule src [rule_format])
    then have "apart s pd ?d" by simp
    ultimately show False using va by (auto simp: apart_def)
  qed
  have m': "m' x = (if in_range x ?d (unat n) then kmem s (p + (x - ?d)) else kmem s x)" for x
    unfolding m'_def by (rule memcpy_at) (use no in simp)
  show "agrees ?f (kmem s) m'" using d m' by (auto simp: agrees_def)
  show "m' (byte_at (kmem s) pd vb) = (if unat va + unat off \<le> unat vb \<and> unat vb < unat va + unat off + unat n
       then kmem s (p + (vb - (va + off))) else kmem s (byte_at (kmem s) pd vb))" if pg: "pgno vb = pgno va"
  proof -
    have fr: "frame_of (kmem s) pd vb = ?f" using leaf_cong [OF pg] by (simp add: frame_of_def)
    obtain o' where o': "o' = vb - va" by blast
    have r: "unat va \<le> unat vb" "unat vb < unat va + 4096" using page_range [OF va(2), of vb] pg by simp_all
    then have uo: "unat o' = unat vb - unat va" by (simp add: o' unat_sub_if_size)
    have of: "vb AND 0xfff = o'"
    proof -
      from va(2) obtain k where k: "unat va = 4096 * k" by (rule page_alignedE)
      have m: "(4096 * k + x) mod 4096 = x" if "x < 4096" for x :: nat using that by simp
      have "4096 * k + (unat vb - unat va) = unat vb" "unat vb - unat va < 4096" using r k by linarith+
      then have "unat vb mod 4096 = unat vb - unat va" using m [of "unat vb - unat va"] by simp
      then show ?thesis by (simp add: word_unat_eq_iff unat_offset uo)
    qed
    have x: "byte_at (kmem s) pd vb - ?d = o' - off" by (simp add: byte_at_def fr of)
    have "in_range (byte_at (kmem s) pd vb) ?d (unat n) \<longleftrightarrow> unat (o' - off) < unat n" by (simp add: in_range_def x)
    also have "\<dots> \<longleftrightarrow> unat off \<le> unat o' \<and> unat o' < unat off + unat n"
      using n uo r by (auto simp: unat_sub_if_size word_size)
    also have "\<dots> \<longleftrightarrow> unat va + unat off \<le> unat vb \<and> unat vb < unat va + unat off + unat n" using uo r by auto
    finally have c: "in_range (byte_at (kmem s) pd vb) ?d (unat n) \<longleftrightarrow> unat va + unat off \<le> unat vb \<and> unat vb < unat va + unat off + unat n" .
    have e: "o' - off = vb - (va + off)" by (simp add: o' diff_diff_add)
    show ?thesis unfolding m' c x e by simp
  qed
qed


text \<open>The part of the segment that falls into a page, as \<^verbatim>\<open>map_and_copy\<close> computes it.\<close>

definition page_off :: "u32 \<Rightarrow> u32 \<Rightarrow> u32" where
  "page_off vaddr va = (if va = page_down vaddr then vaddr - page_down vaddr else 0)"

definition page_len :: "u32 \<Rightarrow> u32 \<Rightarrow> u32 \<Rightarrow> u32 \<Rightarrow> u32" where
  "page_len vaddr sz va copied = min (sz - copied) (PAGE_SIZE - page_off vaddr va)"

definition copied_at :: "u32 \<Rightarrow> u32 \<Rightarrow> u32 \<Rightarrow> nat" where
  "copied_at vaddr sz va = min (unat va - unat vaddr) (unat sz)"

lemma unat_page_off:
  assumes "page_aligned va" "unat (page_down vaddr) \<le> unat va"
  shows "unat va + unat (page_off vaddr va) = max (unat va) (unat vaddr)" "unat (page_off vaddr va) < 4096"
    "va + page_off vaddr va = (if va = page_down vaddr then vaddr else va)"
proof -
  from assms(1) obtain k where k: "unat va = 4096 * k" by (rule page_alignedE)
  have d: "unat (page_down vaddr) = 4096 * (unat vaddr div 4096)" by (simp add: unat_page_down)
  have o: "unat (vaddr - page_down vaddr) = unat vaddr mod 4096"
    using d by (simp add: unat_sub_if_size minus_mult_div_eq_mod)
  have ne: "unat vaddr < unat va" if "va \<noteq> page_down vaddr"
  proof -
    have "unat va \<noteq> 4096 * (unat vaddr div 4096)" using that d by (auto simp: word_unat_eq_iff)
    then show ?thesis using assms(2) k d by simp
  qed
  show "unat va + unat (page_off vaddr va) = max (unat va) (unat vaddr)"
    using o d ne by (auto simp: page_off_def)
  show "unat (page_off vaddr va) < 4096" using o by (simp add: page_off_def)
  show "va + page_off vaddr va = (if va = page_down vaddr then vaddr else va)" by (simp add: page_off_def)
qed

lemma page_part:
  assumes fit: "unat vaddr + unat sz \<le> 0xc0000000" and va: "page_aligned va" "unat (page_down vaddr) \<le> unat va" "va < KERNEL_VIRT_BASE"
    and c: "unat copied = copied_at vaddr sz va"
  defines "off \<equiv> page_off vaddr va" and "n \<equiv> page_len vaddr sz va copied"
  shows "unat off + unat n \<le> 4096" "unat copied + unat n \<le> unat sz"
    "unat (copied + n) = copied_at vaddr sz (va + PAGE_SIZE)"
    "pgno vb = pgno va \<Longrightarrow> unat va + unat off \<le> unat vb \<and> unat vb < unat va + unat off + unat n \<longleftrightarrow> in_range vb vaddr (unat sz)"
    "pgno vb = pgno va \<Longrightarrow> in_range vb vaddr (unat sz) \<Longrightarrow> copied + (vb - (va + off)) = vb - vaddr"
proof -
  note O = unat_page_off [OF va(1,2), folded off_def]
  have cz: "unat copied \<le> unat sz" by (simp add: c copied_at_def)
  have n: "unat n = min (unat sz - unat copied) (4096 - unat off)"
    using O(2) cz by (simp add: n_def page_len_def off_def unat_sub_if_size min_def word_le_nat_alt)
  show "unat off + unat n \<le> 4096" using O(2) n by simp
  show cn: "unat copied + unat n \<le> unat sz" using n cz by simp
  have va4: "unat (va + PAGE_SIZE) = unat va + 4096"
    using va(3) by (simp add: word_less_nat_alt unat_word_ariths KERNEL_VIRT_BASE_def)
  have "unat (copied + n) = unat copied + unat n"
    using cn u32_less [of sz] by (subst unat_add_lem [THEN iffD1]) simp_all
  then show "unat (copied + n) = copied_at vaddr sz (va + PAGE_SIZE)"
    using O(1,2) n c va4 unfolding copied_at_def by linarith
  have ir: "in_range vb vaddr (unat sz) \<longleftrightarrow> unat vaddr \<le> unat vb \<and> unat vb < unat vaddr + unat sz"
    using fit by (auto simp: in_range_def unat_sub_if_size word_size)
  show "unat va + unat off \<le> unat vb \<and> unat vb < unat va + unat off + unat n \<longleftrightarrow> in_range vb vaddr (unat sz)"
    if "pgno vb = pgno va"
    using page_range [OF va(1), of vb] that O(1,2) n c unfolding ir copied_at_def by linarith
  show "copied + (vb - (va + off)) = vb - vaddr" if "pgno vb = pgno va" "in_range vb vaddr (unat sz)"
  proof (cases "va = page_down vaddr")
    case True
    have "unat va \<le> unat vaddr" using True by (simp add: unat_page_down)
    then have "copied = 0" using c by (simp add: copied_at_def word_unat_eq_iff)
    then show ?thesis using O(3) True by simp
  next
    case False
    then have "unat vaddr \<le> unat va" using O(1,3) by (metis max.cobounded2 O(3) off_def page_off_def unat_0 add_0_right)
    moreover have "unat va \<le> unat vb" using page_range [OF va(1), of vb] that(1) by simp
    ultimately have "unat copied = unat (va - vaddr)" using c that(2) ir by (auto simp: copied_at_def unat_sub_if_size)
    then have "copied = va - vaddr" by (simp add: word_unat_eq_iff)
    then show ?thesis using O(3) False by simp
  qed
qed


text \<open>One more page of the segment.\<close>

lemma loaded_step:
  assumes ld: "loaded pd vaddr src sz flags a (unat va) s s1" and rd: "page_ready pd va flags f s1 s2"
    and fit: "unat vaddr + unat sz \<le> 0xc0000000" and va: "page_aligned va" "unat (page_down vaddr) \<le> unat va" "va < KERNEL_VIRT_BASE"
    and a: "a \<le> unat va" and c: "unat copied = copied_at vaddr sz va" and src: "source_ok s pd src sz"
  defines "n \<equiv> page_len vaddr sz va copied"
  defines "s3 \<equiv> (if src \<noteq> 0 \<and> 0 < n then s2\<lparr>kmem := memcpy (phys_to_virt f + page_off vaddr va) (src + copied) n (kmem s2)\<rparr> else s2)"
  shows "loaded pd vaddr src sz flags a (unat va + 4096) s s3"
proof -
  note P = page_part [OF fit va c, folded n_def]
  have us: "user_space s2 pd" and mp: "mapped (kmem s2) pd va" and f: "frame_of (kmem s2) pd va = f"
    using rd by (simp_all add: page_ready_def)
  have ap: "apart s2 pd x \<and> kmem s2 x = kmem s x" if "apart s pd x" for x
    using that ld rd unfolding loaded_def page_ready_def by metis
  have sr: "apart s pd (src + of_nat i)" if "src \<noteq> 0" "i < unat sz" for i
    using src that by (simp add: source_ok_def)
  have pg: "pgno vb = pgno va \<longleftrightarrow> unat va \<le> unat vb \<and> unat vb < unat va + 4096" for vb by (rule page_range [OF va(1)])
  have p2: "peek (kmem s2) pd vb = (if pgno vb = pgno va \<and> \<not> mapped (kmem s) pd vb then Some 0
      else if a \<le> unat vb \<and> unat vb < unat va then segment_byte (kmem s) pd vaddr src sz vb else peek (kmem s) pd vb)"
    if "vb < KERNEL_VIRT_BASE" for vb
    using ld rd that pg [of vb] by (auto simp: loaded_def page_ready_def)
  have p3: "user_space s3 pd \<and> (\<forall>vb. leaf (kmem s3) pd vb = leaf (kmem s2) pd vb)
      \<and> (\<forall>vb < KERNEL_VIRT_BASE. peek (kmem s3) pd vb =
           (if pgno vb = pgno va \<and> src \<noteq> 0 \<and> in_range vb vaddr (unat sz) then Some (kmem s (src + (vb - vaddr))) else peek (kmem s2) pd vb))
      \<and> (\<forall>w vb. user_access (kmem s3) pd w vb = user_access (kmem s2) pd w vb)
      \<and> (\<forall>x. apart s2 pd x \<longrightarrow> apart s3 pd x \<and> kmem s3 x = kmem s2 x) \<and> cr3 s3 = cr3 s2"
  proof (cases "src \<noteq> 0 \<and> 0 < n")
    case False
    then have "\<not> in_range vb vaddr (unat sz)" if "pgno vb = pgno va" "src \<noteq> 0" for vb
      using P(4) [OF that(1)] that(2) by (auto simp: word_gt_0)
    then show ?thesis using False us by (auto simp: s3_def)
  next
    case True
    have so: "\<forall>i < unat n. apart s2 pd (src + copied + of_nat i)"
    proof (intro allI impI)
      fix i assume "i < unat n"
      then have "unat copied + i < unat sz" using P(2) by linarith
      from sr [OF _ this] True have "apart s pd (src + of_nat (unat copied + i))" by simp
      then show "apart s2 pd (src + copied + of_nat i)" using ap by (simp add: add.assoc)
    qed
    note C = copy_page [OF us va(3,1) mp so P(1), unfolded f]
    obtain m' where m': "m' = memcpy (phys_to_virt f + page_off vaddr va) (src + copied) n (kmem s2)" by blast
    have s3: "s3 = s2\<lparr>kmem := m'\<rparr>" using True by (simp add: s3_def m')
    note W = write_frame [OF us va(3) mp C(1) [folded f], unfolded f, folded m']
    have by3: "m' (byte_at (kmem s2) pd vb) = (if in_range vb vaddr (unat sz) then kmem s (src + (vb - vaddr)) else kmem s2 (byte_at (kmem s2) pd vb))"
      if h: "pgno vb = pgno va" for vb
    proof (cases "in_range vb vaddr (unat sz)")
      case False
      then show ?thesis using C(2) [OF h, folded m'] P(4) [OF h] by simp
    next
      case ir: True
      have e: "src + copied + (vb - (va + page_off vaddr va)) = src + (vb - vaddr)"
        using P(5) [OF h ir] by (simp add: add.assoc)
      have "unat (vb - vaddr) < unat sz" using ir by (simp add: in_range_def)
      from sr [OF _ this] True have "kmem s2 (src + (vb - vaddr)) = kmem s (src + (vb - vaddr))" using ap by simp
      then show ?thesis using C(2) [OF h, folded m', unfolded e] P(4) [OF h] ir by simp
    qed
    have pk: "peek m' pd vb = (if pgno vb = pgno va \<and> src \<noteq> 0 \<and> in_range vb vaddr (unat sz) then Some (kmem s (src + (vb - vaddr))) else peek (kmem s2) pd vb)"
      if "vb < KERNEL_VIRT_BASE" for vb
    proof (cases "pgno vb = pgno va")
      case True
      then have "mapped (kmem s2) pd vb" using mp leaf_cong [OF True] by simp
      then show ?thesis using W(4) [OF that] by3 [OF True] True \<open>src \<noteq> 0 \<and> 0 < n\<close> by (simp add: peek_def)
    qed (use W(4) [OF that] in simp)
    show ?thesis using W(1,2,5,6) pk by (simp add: s3)
  qed
  have m3: "mapped (kmem s3) pd vb \<longleftrightarrow> a \<le> unat vb \<and> unat vb < unat va + 4096 \<or> mapped (kmem s) pd vb" for vb
  proof -
    have "mapped (kmem s3) pd vb \<longleftrightarrow> pgno vb = pgno va \<or> a \<le> unat vb \<and> unat vb < unat va \<or> mapped (kmem s) pd vb"
      using p3 ld rd by (simp add: loaded_def page_ready_def)
    then show ?thesis using pg [of vb] a by auto
  qed
  have m1: "mapped (kmem s1) pd vb \<longleftrightarrow> mapped (kmem s) pd vb" if "pgno vb = pgno va" for vb
    using ld that pg [of vb] by (auto simp: loaded_def)
  show ?thesis
    unfolding loaded_def
  proof (intro conjI allI impI)
    show "user_space s3 pd" using p3 by simp
    show "peek (kmem s3) pd vb = (if a \<le> unat vb \<and> unat vb < unat va + 4096 then segment_byte (kmem s) pd vaddr src sz vb else peek (kmem s) pd vb)"
      if "vb < KERNEL_VIRT_BASE" for vb
      using p2 [OF that] p3 that pg [of vb] a by (auto simp: segment_byte_def)
    show "mapped (kmem s3) pd vb \<longleftrightarrow> a \<le> unat vb \<and> unat vb < unat va + 4096 \<or> mapped (kmem s) pd vb" for vb by (rule m3)
    show "apart s3 pd x" "kmem s3 x = kmem s x" if "apart s pd x" for x using ap [OF that] p3 by auto
    show "user_access (kmem s3) pd (bit flags 1) vb"
      if h: "(bit flags 1 \<or> (\<forall>vb. a \<le> unat vb \<and> unat vb < unat va + 4096 \<longrightarrow> \<not> mapped (kmem s) pd vb)) \<and> bit flags 2"
        "a \<le> unat vb \<and> unat vb < unat va + 4096" for vb
    proof (cases "pgno vb = pgno va")
      case True
      have "bit flags 1 \<or> \<not> mapped (kmem s1) pd va" using h(1) m1 [of va] a by auto
      then show ?thesis using rd h(1) True p3 by (simp add: page_ready_def)
    next
      case False
      then have "user_access (kmem s1) pd (bit flags 1) vb" using ld h pg [of vb] by (auto simp: loaded_def)
      then show ?thesis using rd False p3 by (simp add: page_ready_def)
    qed
    show "user_access (kmem s3) pd w vb" if "\<not> (a \<le> unat vb \<and> unat vb < unat va + 4096)" "user_access (kmem s) pd w vb" for w vb
    proof -
      have "user_access (kmem s1) pd w vb" "pgno vb \<noteq> pgno va" using ld that pg [of vb] a by (auto simp: loaded_def)
      then show ?thesis using rd p3 by (simp add: page_ready_def)
    qed
    show "cr3 s3 = cr3 s" using p3 ld rd by (simp add: loaded_def page_ready_def)
  qed
qed


lemma loaded_refl: "user_space s pd \<Longrightarrow> loaded pd vaddr src sz flags a a s s"
  by (auto simp: loaded_def)

lemma map_loop_step:
  assumes ld: "loaded pd vaddr src sz flags a (unat va) s s1" and fit: "unat vaddr + unat sz \<le> 0xc0000000"
    and va: "page_aligned va" "unat (page_down vaddr) \<le> unat va" "va < KERNEL_VIRT_BASE" "va < end_va"
    and a: "a \<le> unat va" and c: "unat copied = copied_at vaddr sz va" and src: "source_ok s pd src sz"
    and fr: "frame_used (vpm s1) 0" "2 \<le> free_frames s1"
  shows "\<exists>s3 copied'. map_loop pd vaddr src sz flags va end_va copied s1 = map_loop pd vaddr src sz flags (va + PAGE_SIZE) end_va copied' s3
    \<and> unat copied' = copied_at vaddr sz (va + PAGE_SIZE) \<and> loaded pd vaddr src sz flags a (unat va + 4096) s s3
    \<and> frame_used (vpm s3) 0 \<and> free_frames s1 \<le> free_frames s3 + 2"
proof -
  have us: "user_space s1 pd" using ld by (simp add: loaded_def)
  from page_frame_ready [OF us va(3) fr, of flags] obtain f s2 where
    pf: "page_frame pd va flags s1 = Some (True, f, s2)" "page_ready pd va flags f s1 s2" "free_frames s1 \<le> free_frames s2 + 2" "frame_used (vpm s2) 0"
    by blast
  let ?n = "page_len vaddr sz va copied"
  let ?s3 = "if src \<noteq> 0 \<and> 0 < ?n then s2\<lparr>kmem := memcpy (phys_to_virt f + page_off vaddr va) (src + copied) ?n (kmem s2)\<rparr> else s2"
  have n: "?n = (if sz - copied < PAGE_SIZE - page_off vaddr va then sz - copied else PAGE_SIZE - page_off vaddr va)"
    by (auto simp: page_len_def min_def)
  have "map_loop pd vaddr src sz flags va end_va copied s1 = map_loop pd vaddr src sz flags (va + PAGE_SIZE) end_va (copied + ?n) ?s3"
    unfolding n by (subst map_loop.simps) (simp add: va(4) pf(1) Let_def page_off_def)
  moreover have "loaded pd vaddr src sz flags a (unat va + 4096) s ?s3"
    by (rule loaded_step [OF ld pf(2) fit va(1,2,3) a c src])
  moreover have "unat (copied + ?n) = copied_at vaddr sz (va + PAGE_SIZE)" by (rule page_part(3) [OF fit va(1,2,3) c])
  moreover have "frame_used (vpm ?s3) 0 \<and> free_frames s1 \<le> free_frames ?s3 + 2" using pf(3,4) by (simp add: free_frames_def)
  ultimately show ?thesis by blast
qed

lemma map_loop_loads:
  assumes "loaded pd vaddr src sz flags a (unat va) s s1" "unat vaddr + unat sz \<le> 0xc0000000"
    and "page_aligned va" "unat (page_down vaddr) \<le> unat va" "unat end_va = unat va + 4096 * k" "unat end_va \<le> 0xc0000000"
    and "a \<le> unat va" "unat copied = copied_at vaddr sz va" "source_ok s pd src sz"
    and "frame_used (vpm s1) 0" "2 * k \<le> free_frames s1"
  shows "\<exists>s'. map_loop pd vaddr src sz flags va end_va copied s1 = Some (0, s') \<and> loaded pd vaddr src sz flags a (unat end_va) s s'
    \<and> frame_used (vpm s') 0 \<and> free_frames s1 \<le> free_frames s' + 2 * k"
  using assms
proof (induction k arbitrary: va copied s1)
  case 0
  then have e: "va = end_va" by (simp add: word_unat_eq_iff)
  then have "map_loop pd vaddr src sz flags va end_va copied s1 = Some (0, s1)" by (subst map_loop.simps) simp
  then show ?case using 0(1,10) e by simp
next
  case (Suc k)
  have lt: "va < end_va" "va < KERNEL_VIRT_BASE"
    using Suc.prems(5,6) by (simp_all add: word_less_nat_alt KERNEL_VIRT_BASE_def)
  have f2: "2 \<le> free_frames s1" using Suc.prems(11) by simp
  from map_loop_step [OF Suc.prems(1,2,3,4) lt(2,1) Suc.prems(7,8,9,10) f2] obtain s3 copied' where
    st: "map_loop pd vaddr src sz flags va end_va copied s1 = map_loop pd vaddr src sz flags (va + PAGE_SIZE) end_va copied' s3"
      "unat copied' = copied_at vaddr sz (va + PAGE_SIZE)" "loaded pd vaddr src sz flags a (unat va + 4096) s s3"
      "frame_used (vpm s3) 0" "free_frames s1 \<le> free_frames s3 + 2" by blast
  have va4: "unat (va + PAGE_SIZE) = unat va + 4096"
    using lt(2) by (simp add: word_less_nat_alt unat_word_ariths KERNEL_VIRT_BASE_def)
  have "\<exists>s'. map_loop pd vaddr src sz flags (va + PAGE_SIZE) end_va copied' s3 = Some (0, s')
    \<and> loaded pd vaddr src sz flags a (unat end_va) s s' \<and> frame_used (vpm s') 0 \<and> free_frames s3 \<le> free_frames s' + 2 * k"
  proof (rule Suc.IH)
    show "loaded pd vaddr src sz flags a (unat (va + PAGE_SIZE)) s s3" using st(3) by (simp add: va4)
    show "page_aligned (va + PAGE_SIZE)" using Suc.prems(3) va4 by (simp add: page_aligned_def)
    show "unat (page_down vaddr) \<le> unat (va + PAGE_SIZE)" "a \<le> unat (va + PAGE_SIZE)" using Suc.prems(4,7) va4 by simp_all
    show "unat end_va = unat (va + PAGE_SIZE) + 4096 * k" using Suc.prems(5) va4 by simp
    show "2 * k \<le> free_frames s3" using Suc.prems(11) st(5) by simp
  qed (use Suc.prems(2,6,9) st(2,4) in simp_all)
  then obtain s' where "map_loop pd vaddr src sz flags (va + PAGE_SIZE) end_va copied' s3 = Some (0, s')"
    "loaded pd vaddr src sz flags a (unat end_va) s s'" "frame_used (vpm s') 0" "free_frames s3 \<le> free_frames s' + 2 * k" by blast
  then show ?case using st(1,5) by auto
qed

lemma segment_end:
  assumes "unat vaddr + unat sz \<le> 0xc0000000"
  shows "unat (page_down (vaddr + sz + 0xfff)) = 4096 * ((unat vaddr + unat sz + 4095) div 4096)"
    "unat (page_down vaddr) \<le> unat (page_down (vaddr + sz + 0xfff))"
proof -
  have "unat (vaddr + sz) = unat vaddr + unat sz" using assms by (subst unat_add_lem [THEN iffD1]) simp_all
  then have "unat (vaddr + sz + 0xfff) = unat vaddr + unat sz + 4095"
    using assms by (subst unat_add_lem [THEN iffD1]) simp_all
  then show e: "unat (page_down (vaddr + sz + 0xfff)) = 4096 * ((unat vaddr + unat sz + 4095) div 4096)" by (simp add: unat_page_down)
  have "unat vaddr div 4096 \<le> (unat vaddr + unat sz + 4095) div 4096" by (rule div_le_mono) simp
  then show "unat (page_down vaddr) \<le> unat (page_down (vaddr + sz + 0xfff))" unfolding e by (simp add: unat_page_down)
qed

lemma map_and_copy_ok:
  assumes "user_space s pd" "unat vaddr + unat sz \<le> 0xc0000000" "source_ok s pd src sz" "frame_used (vpm s) 0"
    and "unat (page_down (vaddr + sz + 0xfff)) \<le> unat (page_down vaddr) + 2048 * free_frames s"
  shows "\<exists>s'. map_and_copy pd vaddr src sz flags s = Some (0, s')
    \<and> loaded pd vaddr src sz flags (unat (page_down vaddr)) (unat (page_down (vaddr + sz + 0xfff))) s s'
    \<and> frame_used (vpm s') 0
    \<and> 2048 * free_frames s + unat (page_down vaddr) \<le> 2048 * free_frames s' + unat (page_down (vaddr + sz + 0xfff))"
proof -
  obtain va where va: "va = page_down vaddr" by blast
  obtain ev where ev: "ev = page_down (vaddr + sz + 0xfff)" by blast
  have e: "unat ev = 4096 * ((unat vaddr + unat sz + 4095) div 4096)" using segment_end(1) [OF assms(2)] by (simp add: ev)
  have v: "unat va = 4096 * (unat vaddr div 4096)" by (simp add: va unat_page_down)
  obtain k where k: "k = (unat vaddr + unat sz + 4095) div 4096 - unat vaddr div 4096" by blast
  have "unat vaddr div 4096 \<le> (unat vaddr + unat sz + 4095) div 4096" by (rule div_le_mono) simp
  then have ek: "unat ev = unat va + 4096 * k" unfolding e v k by (metis add_mult_distrib2 le_add_diff_inverse)
  have "(unat vaddr + unat sz + 4095) div 4096 \<le> (0xc0000000 + 4095) div 4096" by (rule div_le_mono) (use assms(2) in simp)
  then have le: "unat ev \<le> 0xc0000000" using e by simp
  have "unat va \<le> unat vaddr" using v by simp
  then have c: "unat (0 :: u32) = copied_at vaddr sz va" by (simp add: copied_at_def)
  have fr: "2 * k \<le> free_frames s" using assms(5) ek by (simp add: va ev)
  have al: "page_aligned va" by (simp add: va)
  from map_loop_loads [OF loaded_refl [OF assms(1)] assms(2) al _ ek le order_refl c assms(3,4) fr, of flags]
  obtain s' where "map_and_copy pd vaddr src sz flags s = Some (0, s')" "loaded pd vaddr src sz flags (unat va) (unat ev) s s'"
    "frame_used (vpm s') 0" "free_frames s \<le> free_frames s' + 2 * k" by (auto simp: map_and_copy_def va ev)
  moreover from this(4) have "2048 * free_frames s + unat va \<le> 2048 * free_frames s' + unat ev" using ek by simp
  ultimately show ?thesis unfolding va ev by blast
qed

text \<open>
  C23. Loading a segment. When the segment lies below the kernel, its source is kernel memory that the
  process cannot reach, and two frames are free for every page, \<^verbatim>\<open>map_and_copy\<close> returns 0, and afterwards
  the process finds in the pages of the segment: the bytes of the source at their addresses, and around
  them what was there before, or zeros in pages that are new. Everything else the process sees is
  unchanged, the address space stays well formed, the memory of the kernel that is apart from the
  process is unchanged, and the new pages can be used by the process as the flags say.
\<close>

theorem map_and_copy_loads:
  assumes "user_space s pd" "unat vaddr + unat sz \<le> 0xc0000000" "source_ok s pd src sz" "frame_used (vpm s) 0"
    and "unat (page_down (vaddr + sz + 0xfff)) \<le> unat (page_down vaddr) + 2048 * free_frames s"
  shows "\<exists>s'. map_and_copy pd vaddr src sz flags s = Some (0, s')
    \<and> loaded pd vaddr src sz flags (unat (page_down vaddr)) (unat (page_down (vaddr + sz + 0xfff))) s s'"
  using map_and_copy_ok [OF assms] by blast

text \<open>An empty address space and two bytes of text in the memory of the kernel.\<close>

definition loader_example :: vm_state where
  "loader_example = vm_example\<lparr>kmem := (kmem vm_example)(0xc0000100 := 104, 0xc0000101 := 105)\<rparr>"

lemma vm_example_space: "user_space vm_example 0x14000"
  using vm_example_ok by (simp add: user_space_def space_ok_def tables_rw_def upper_user_def leaf_def pd_present_def vm_example_def entry_def ld32_def)

lemma loader_example_space: "user_space loader_example 0x14000" "i < 4 \<Longrightarrow> apart loader_example 0x14000 (0xc0000100 + of_nat i)"
  "leaf (kmem loader_example) 0x14000 va = 0"
proof -
  let ?m = "(kmem vm_example)(0xc0000100 := 104, 0xc0000101 := 105)"
  have us: "user_space vm_example 0x14000" by (rule vm_example_space)
  then have sp: "space_ok vm_example 0x14000" by (simp add: user_space_def)
  have ag: "agrees 0 (kmem vm_example) ?m" by (auto simp: agrees_def in_range_def phys_to_virt_def KERNEL_VIRT_BASE_def)
  have l: "leaf (kmem vm_example) 0x14000 va = 0" for va by (simp add: leaf_def pd_present_def vm_example_def entry_def ld32_def)
  have t: "tables_of (kmem vm_example) 0x14000 = {0x14000}"
    by (auto simp: tables_of_def pd_present_def vm_example_def entry_def ld32_def)
  have nt: "0 \<notin> tables_of (kmem vm_example) 0x14000" by (simp add: t)
  have al: "page_aligned 0" by (simp add: page_aligned_def)
  note A = agrees_tables [OF ag al nt space_ok_tables [OF sp]]
  have sp': "space_ok loader_example 0x14000" unfolding loader_example_def by (rule agrees_space [OF sp ag al nt])
  then show "user_space loader_example 0x14000" using us by (simp add: user_space_def loader_example_def A(5,6))
  show "leaf (kmem loader_example) 0x14000 va = 0" by (simp add: loader_example_def A(2) l)
  show "apart loader_example 0x14000 (0xc0000100 + of_nat i)" if "i < 4"
  proof -
    have i: "unat (0x100 + of_nat i :: u32) = 256 + i" using that by (simp add: unat_word_ariths)
    have v: "virt_to_phys (0xc0000100 + of_nat i) = 0x100 + of_nat i" by (simp add: virt_to_phys_def KERNEL_VIRT_BASE_def)
    have "page_down (0x100 + of_nat i :: u32) = 0" using i that by (simp add: word_unat_eq_iff unat_page_down)
    moreover have "pgno (0x100 + of_nat i :: u32) = 0" using i that by (simp add: pgno_def)
    moreover have "frame_used (vpm loader_example) 0" by (simp add: loader_example_def vm_example_def frame_used_def pmm_example_def)
    ultimately show ?thesis by (simp add: apart_def v loader_example_def A(2,3) t l)
  qed
qed

lemma loader_example_frames: "frame_used (vpm loader_example) 0" "2 \<le> free_frames loader_example"
proof -
  show "frame_used (vpm loader_example) 0" by (simp add: loader_example_def vm_example_def frame_used_def pmm_example_def)
  have "card {1, 2 :: nat} \<le> free_frames loader_example"
    unfolding free_frames_def
    by (rule card_mono) (simp_all add: loader_example_def vm_example_def frame_used_def pmm_example_def pmm_frames_def)
  then show "2 \<le> free_frames loader_example" by simp
qed

lemma map_and_copy_loads_witness:
  "\<exists>s'. map_and_copy 0x14000 0x400ffe 0xc0000100 1 7 loader_example = Some (0, s')
    \<and> peek (kmem s') 0x14000 0x400ffe = Some 104 \<and> peek (kmem s') 0x14000 0x400fff = Some 0 \<and> peek (kmem s') 0x14000 0x401000 = None
    \<and> user_access (kmem s') 0x14000 True 0x400123"
proof -
  have src: "source_ok loader_example 0x14000 0xc0000100 1"
    using loader_example_space(2) [of 0] by (simp add: source_ok_def)
  have pd: "page_down 0x400ffe = 0x400000" "page_down 0x401ffe = 0x401000"
    by (simp_all add: page_down_def)
  obtain s' where s': "map_and_copy 0x14000 0x400ffe 0xc0000100 1 7 loader_example = Some (0, s')"
    "loaded 0x14000 0x400ffe 0xc0000100 1 7 0x400000 0x401000 loader_example s'"
    using map_and_copy_loads [OF loader_example_space(1) _ src loader_example_frames(1), of "0x400ffe" 7] loader_example_frames(2)
    by (auto simp: pd)
  have k: "kmem loader_example 0xc0000100 = 104" by (simp add: loader_example_def)
  have e: "peek (kmem loader_example) 0x14000 vb = None" "\<not> mapped (kmem loader_example) 0x14000 vb" for vb
    by (simp_all add: peek_def loader_example_space(3))
  have "peek (kmem s') 0x14000 vb = (if 0x400000 \<le> unat vb \<and> unat vb < 0x401000
      then if in_range vb 0x400ffe 1 then Some (kmem loader_example (0xc0000100 + (vb - 0x400ffe))) else Some 0 else None)"
    if "vb < KERNEL_VIRT_BASE" for vb
    using s'(2) that e by (simp add: loaded_def segment_byte_def)
  from this [of "0x400ffe"] this [of "0x400fff"] this [of "0x401000"]
  have "peek (kmem s') 0x14000 0x400ffe = Some 104" "peek (kmem s') 0x14000 0x400fff = Some 0" "peek (kmem s') 0x14000 0x401000 = None"
    by (simp_all add: KERNEL_VIRT_BASE_def in_range_def k)
  moreover have "\<forall>vb. 0x400000 \<le> unat vb \<and> unat vb < 0x401000 \<longrightarrow> user_access (kmem s') 0x14000 True vb"
    using s'(2) by (simp add: loaded_def)
  then have "user_access (kmem s') 0x14000 True 0x400123" by simp
  ultimately show ?thesis using s'(1) by blast
qed

end
