(* ===== verification/Sys_User.thy ===== *)
theory Sys_User
  imports Syscalls Loader
begin

text \<open>
  System calls and the memory of the calling process: whatever a user passes as a pointer, the kernel
  does not fault, reads no byte and writes no byte that the process could not access itself.
\<close>

section \<open>The calling process\<close>

text \<open>The loaded address space is the one of the current process, and well-formed.\<close>

abbreviation cur_pd :: "kernel \<Rightarrow> u32" where "cur_pd k \<equiv> p_pd_phys (current k)"

definition user_loaded :: "kernel \<Rightarrow> bool" where
  "user_loaded k \<longleftrightarrow> user_space (vm k) (cur_pd k) \<and> cr3 (vm k) = cur_pd k"

abbreviation may_access :: "kernel \<Rightarrow> bool \<Rightarrow> u32 \<Rightarrow> bool" where
  "may_access k w a \<equiv> user_access (kbytes k) (cur_pd k) w a"

lemma user_loaded_rw: "user_loaded k \<Longrightarrow> tables_rw (kbytes k) (cur_pd k)"
  by (simp add: user_loaded_def user_space_def)

lemma valid_user_iff:
  "user_loaded k \<Longrightarrow> valid_user p len w k \<longleftrightarrow>
    len = 0 \<or> unat p + unat len < 2 ^ 32 \<and> (\<forall>a. in_range a p (unat len) \<longrightarrow> may_access k w a)"
  by (simp add: valid_user_def validate_user_range [OF user_loaded_rw])

lemma access_below: "user_loaded k \<Longrightarrow> may_access k w a \<Longrightarrow> a < KERNEL_VIRT_BASE"
  using user_access_mapped(1) [of "vm k" "cur_pd k" w a] by (simp add: user_loaded_def)

lemma valid_user_byte: "user_loaded k \<Longrightarrow> valid_user p 1 w k \<longleftrightarrow> may_access k w p"
proof -
  assume k: "user_loaded k"
  have "in_range a p 1 \<longleftrightarrow> a = p" for a by (simp add: in_range_def unat_eq_0)
  then have "valid_user p 1 w k \<longleftrightarrow> unat p + 1 < 2 ^ 32 \<and> may_access k w p"
    using valid_user_iff [OF k, of p 1 w] by simp
  moreover have "unat p + 1 < 2 ^ 32" if "may_access k w p"
    using access_below [OF k that] by (simp add: KERNEL_VIRT_BASE_def word_less_nat_alt)
  ultimately show ?thesis by blast
qed

lemma access_byte: "user_loaded k \<Longrightarrow> may_access k w a \<Longrightarrow> \<exists>c. user_byte (vm k) a = Some c \<and> peek (kbytes k) (cur_pd k) a = Some c"
  using user_access_mapped(2) [of "vm k" "cur_pd k" w a] by (simp add: user_byte_peek peek_def user_loaded_def)

section \<open>Strings\<close>

text \<open>
  The text at an address, as the process can read it: up to a zero, to a byte that is out of reach, or
  to \<open>n\<close> characters.
\<close>

fun user_text :: "nat \<Rightarrow> u32 \<Rightarrow> kernel \<Rightarrow> u8 list" where
  "user_text 0 a k = []"
| "user_text (Suc n) a k =
     (if \<not> may_access k False a then []
      else case peek (kbytes k) (cur_pd k) a of None \<Rightarrow> [] | Some c \<Rightarrow> if c = 0 then [] else c # user_text n (a + 1) k)"

lemma user_text_numeral: "user_text (numeral v) a k =
    (if \<not> may_access k False a then []
     else case peek (kbytes k) (cur_pd k) a of None \<Rightarrow> [] | Some c \<Rightarrow> if c = 0 then [] else c # user_text (pred_numeral v) (a + 1) k)"
  by (simp add: numeral_eq_Suc)

text \<open>Whether the process can read all of that text and the zero behind it, if it is short enough.\<close>

fun readable_text :: "nat \<Rightarrow> u32 \<Rightarrow> kernel \<Rightarrow> bool" where
  "readable_text 0 a k \<longleftrightarrow> True"
| "readable_text (Suc n) a k \<longleftrightarrow> may_access k False a
     \<and> (case peek (kbytes k) (cur_pd k) a of None \<Rightarrow> False | Some c \<Rightarrow> c = 0 \<or> readable_text n (a + 1) k)"

lemma same_page_next: "(a + 1) AND 0xfff \<noteq> 0 \<Longrightarrow> pgno (a + 1) = pgno a" for a :: u32
proof -
  assume a: "(a + 1) AND 0xfff \<noteq> 0"
  then have m: "unat (a + 1) mod 4096 \<noteq> 0" using unat_offset [of "a + 1"] by (metis unat_eq_0)
  then have "a + 1 \<noteq> 0" by auto
  then have "unat (a + 1) = unat a + 1" using unatSuc [of a] by (simp add: add.commute)
  with m show ?thesis unfolding pgno_def by (metis div_Suc mod_Suc Suc_eq_plus1)
qed

lemma copy_str_text:
  assumes "user_loaded k"
  shows "a AND 0xfff = 0 \<or> may_access k False a \<Longrightarrow>
    copy_str_loop stops n a k = Some (if stops \<or> readable_text n a k then Some (user_text n a k) else None)"
proof (induction n arbitrary: a)
  case 0
  then show ?case by simp
next
  case (Suc n)
  show ?case
  proof (cases "may_access k False a")
    case False
    with Suc.prems valid_user_byte [OF assms, of a False] show ?thesis by simp
  next
    case True
    then obtain c where c: "user_byte (vm k) a = Some c" "peek (kbytes k) (cur_pd k) a = Some c"
      using access_byte [OF assms] by blast
    have "(a + 1) AND 0xfff = 0 \<or> may_access k False (a + 1)"
      using True same_page_next [of a] user_access_cong [of "a + 1" a] by blast
    then show ?thesis using Suc.IH [of "a + 1"] True valid_user_byte [OF assms, of a False] c by auto
  qed
qed

lemma copy_user_str_text:
  assumes "user_loaded k" "0 < n"
  shows "copy_user_str p (Suc n) k = Some (if readable_text n p k then Some (user_text n p k) else None)"
  using copy_str_text [OF assms(1), of p False n] valid_user_byte [OF assms(1), of p False] assms(2)
  by (cases n) (auto simp: copy_user_str_def)

section \<open>An example state\<close>

text \<open>A process with the text ``hi'' at 0x400000, in a page that it may write.\<close>

definition user_example :: kernel where
  "user_example = \<lparr>procs = (\<lambda>p. (procs sched_example p)\<lparr>p_pd_phys := 0x14000\<rparr>),
     proc_list = 0x100, curr_proc = 0x100, idle_proc = 0x400, scheduler_ready = True, tss_esp0 = 0,
     vm = snd (the (map_and_copy 0x14000 0x400000 0xc0000100 2 7 loader_example)),
     kheap = heap_example, fat = fat_example,
     open_files = (\<lambda>_. \<lparr>of_in_use = False, of_path = [], of_offset = 0, of_size = 0, of_writable = False\<rparr>),
     terminal = term_example, kbd = kbd_example,
     rtc = \<lparr>boot_time = \<lparr>rt_seconds = 0, rt_minutes = 0, rt_hours = 0, rt_day = 1, rt_month = 1, rt_year = 2026\<rparr>, boot_epoch = 0, boot_ticks = 0\<rparr>,
     tick_count = 0, next_pid = 4\<rparr>"

definition regs_example :: "u32 \<Rightarrow> u32 \<Rightarrow> registers" where
  "regs_example b c = \<lparr>r_eax = 0, r_ebx = b, r_ecx = c, r_edx = 0, r_int_no = 0x80, r_err_code = 0, r_eip = 0x400100, r_cs = 0x1b\<rparr>"

lemma user_example_loaded:
  "loaded 0x14000 0x400000 0xc0000100 2 7 0x400000 0x401000 loader_example (vm user_example)"
proof -
  have src: "source_ok loader_example 0x14000 0xc0000100 2"
    using loader_example_space(2) by (simp add: source_ok_def)
  have pd: "page_down 0x400000 = 0x400000" "page_down 0x401001 = 0x401000" by (simp_all add: page_down_def)
  show ?thesis
    using map_and_copy_ok [OF loader_example_space(1) _ src loader_example_frames(1), of "0x400000" 7] loader_example_frames(2)
    by (auto simp: pd user_example_def)
qed

lemma user_example_mem:
  "user_loaded user_example" "cur_pd user_example = 0x14000"
  "\<forall>vb. 0x400000 \<le> unat vb \<and> unat vb < 0x401000 \<longrightarrow> may_access user_example w vb"
  "vb < KERNEL_VIRT_BASE \<Longrightarrow> peek (kbytes user_example) 0x14000 vb = (if 0x400000 \<le> unat vb \<and> unat vb < 0x401000
      then Some (if vb = 0x400000 then 104 else if vb = 0x400001 then 105 else 0) else None)"
proof -
  show pd: "cur_pd user_example = 0x14000" by (simp add: current_def user_example_def)
  note L = user_example_loaded [unfolded loaded_def]
  have "cr3 loader_example = 0x14000" by (simp add: loader_example_def vm_example_def)
  then show "user_loaded user_example" using L by (simp add: user_loaded_def pd)
  have e: "peek (kmem loader_example) 0x14000 vb = None" "\<not> mapped (kmem loader_example) 0x14000 vb" for vb
    by (simp_all add: peek_def loader_example_space(3))
  have w: "\<forall>vb. 0x400000 \<le> unat vb \<and> unat vb < 0x401000 \<longrightarrow> may_access user_example True vb" using L by (simp add: pd)
  then show "\<forall>vb. 0x400000 \<le> unat vb \<and> unat vb < 0x401000 \<longrightarrow> may_access user_example w vb"
    by (cases w) (auto simp: user_access_def)
  have two: "in_range vb 0x400000 2 \<longleftrightarrow> vb = 0x400000 \<or> vb = 0x400001"
    using u32_less [of vb] by (auto simp: in_range_def unat_sub_if_size word_size word_unat_eq_iff)
  show "peek (kbytes user_example) 0x14000 vb = (if 0x400000 \<le> unat vb \<and> unat vb < 0x401000
      then Some (if vb = 0x400000 then 104 else if vb = 0x400001 then 105 else 0) else None)" if "vb < KERNEL_VIRT_BASE"
  proof -
    have "peek (kbytes user_example) 0x14000 vb = (if 0x400000 \<le> unat vb \<and> unat vb < 0x401000
        then segment_byte (kmem loader_example) 0x14000 0x400000 0xc0000100 2 vb else peek (kmem loader_example) 0x14000 vb)"
      using L that by blast
    then show ?thesis using e two by (auto simp: segment_byte_def loader_example_def)
  qed
qed

section \<open>Printing\<close>

lemma sys_print_ok:
  assumes "user_loaded k"
  shows "sys_print r k = Some (if may_access k False (r_ebx r)
    then (Sys_done 0, k\<lparr>terminal := term_write (user_text 255 (r_ebx r) k) (terminal k)\<rparr>) else (Sys_done (- 1), k))"
  using copy_str_text [OF assms, of "r_ebx r" True 255] valid_user_byte [OF assms, of "r_ebx r" False]
  by (simp add: sys_print_def sys_ok_def)

text \<open>
  C13. Printing is safe for every pointer: \<^verbatim>\<open>SYS_PRINT\<close> shows the text that the process can read at the
  address, at most 255 characters, fails when it cannot read the first byte, and never faults or
  changes anything but the terminal.
\<close>

theorem sys_print_safe:
  assumes "user_loaded k"
  shows "sys_print r k = Some (if may_access k False (r_ebx r)
    then (Sys_done 0, k\<lparr>terminal := term_write (user_text 255 (r_ebx r) k) (terminal k)\<rparr>) else (Sys_done (- 1), k))"
  by (rule sys_print_ok [OF assms])

lemma sys_print_safe_witness:
  "sys_print (regs_example 0x400000 0) user_example = Some (Sys_done 0, user_example\<lparr>terminal := term_write [104, 105] term_example\<rparr>)"
proof -
  have a: "may_access user_example False 0x400000" "may_access user_example False 0x400001" "may_access user_example False 0x400002"
    using user_example_mem(3) [of False] by simp_all
  have p: "peek (kbytes user_example) 0x14000 0x400000 = Some 104" "peek (kbytes user_example) 0x14000 0x400001 = Some 105"
    "peek (kbytes user_example) 0x14000 0x400002 = Some 0"
    using user_example_mem(4) [of "0x400000"] user_example_mem(4) [of "0x400001"] user_example_mem(4) [of "0x400002"]
    by (simp_all add: KERNEL_VIRT_BASE_def)
  have "user_text 255 0x400000 user_example = [104, 105]"
    by (simp add: user_text_numeral a [unfolded user_example_mem(2)] p user_example_mem(2))
  moreover have "terminal user_example = term_example" by (simp add: user_example_def)
  ultimately show ?thesis using sys_print_safe [OF user_example_mem(1), of "regs_example 0x400000 0"] a(1) by (simp add: regs_example_def)
qed

section \<open>Results in buffers of the user\<close>

lemma current_vm [simp]: "current (k\<lparr>vm := v\<rparr>) = current k"
  by (simp add: current_def)

lemma store_user_ok:
  assumes "user_loaded k" "valid_user p len True k" "length bs \<le> unat len"
  shows "\<exists>t. store_user p bs k = Some (k\<lparr>vm := t\<rparr>) \<and> user_stored (vm k) (cur_pd k) p bs t"
proof -
  have us: "user_space (vm k) (cur_pd k)" and cr: "cr3 (vm k) = cur_pd k" using assms(1) by (simp_all add: user_loaded_def)
  have "usable (vm k) (cur_pd k) p (unat len)" using valid_usable [OF us] assms(2) by (simp add: valid_user_def)
  then have u: "usable (vm k) (cur_pd k) p (length bs)" using assms(3) by (simp add: usable_def)
  have "length bs \<le> 2 ^ 32" using assms(3) u32_less [of len] by simp
  from store_out_ok [OF us cr u this] show ?thesis by (auto simp: store_user_def)
qed

lemma user_stored_loaded: "user_loaded k \<Longrightarrow> user_stored (vm k) (cur_pd k) p bs t \<Longrightarrow> user_loaded (k\<lparr>vm := t\<rparr>)"
  by (auto simp: user_loaded_def user_stored_def)

lemma user_cstr_read:
  assumes "\<forall>i < length cs. user_byte s (p + of_nat i) = Some (cs ! i)" "0 \<notin> set cs" "user_byte s (p + of_nat (length cs)) = Some 0"
  shows "user_cstr s p = Some cs"
  using assms
proof (induction cs arbitrary: p)
  case Nil
  then show ?case by (simp add: user_cstr.simps)
next
  case (Cons c cs)
  have "user_byte s p = Some c" using Cons.prems(1) by force
  moreover have "user_cstr s (p + 1) = Some cs"
  proof (rule Cons.IH)
    show "\<forall>i < length cs. user_byte s (p + 1 + of_nat i) = Some (cs ! i)"
      using Cons.prems(1) by (auto simp: add.assoc dest: spec [of _ "Suc _"])
    show "0 \<notin> set cs" using Cons.prems(2) by simp
    show "user_byte s (p + 1 + of_nat (length cs)) = Some 0" using Cons.prems(3) by (simp add: add.assoc)
  qed
  ultimately show ?case using Cons.prems(2) by (subst user_cstr.simps) auto
qed

lemma stored_bytes:
  assumes "user_loaded k" "valid_user p len True k" "length bs \<le> unat len" "user_stored (vm k) (cur_pd k) p bs t" "i < length bs"
  shows "user_byte t (p + of_nat i) = Some (bs ! i)"
proof -
  have i: "i < unat len" "i < 2 ^ 32" using assms(3,5) u32_less [of len] by simp_all
  have us: "user_space (vm k) (cur_pd k)" and cr: "cr3 (vm k) = cur_pd k" using assms(1) by (simp_all add: user_loaded_def)
  have "usable (vm k) (cur_pd k) p (unat len)" using valid_usable [OF us] assms(2) by (simp add: valid_user_def)
  then have "p + of_nat i < KERNEL_VIRT_BASE" using i by (simp add: usable_def)
  moreover have "cr3 t = cur_pd k" using assms(4) cr by (auto simp: user_stored_def)
  moreover have "unat (p + of_nat i - p) = i" using i(2) by simp
  ultimately show ?thesis using assms(4,5) by (simp add: user_byte_peek user_stored_def)
qed

lemma sys_getcwd_ok:
  assumes "user_loaded k" "r_ecx r \<noteq> 0" "0 \<notin> set (p_cwd (current k))"
  shows "if valid_user (r_ebx r) (r_ecx r) True k
    then (\<exists>t. sys_getcwd r k = Some (Sys_done 0, k\<lparr>vm := t\<rparr>) \<and> user_loaded (k\<lparr>vm := t\<rparr>)
      \<and> user_cstr t (r_ebx r) = Some (take (unat (r_ecx r) - 1) (p_cwd (current k)))
      \<and> (\<forall>va < KERNEL_VIRT_BASE. \<not> in_range va (r_ebx r) (unat (r_ecx r)) \<longrightarrow> user_byte t va = user_byte (vm k) va))
    else sys_getcwd r k = Some (Sys_done (- 1), k)"
proof (cases "valid_user (r_ebx r) (r_ecx r) True k")
  case False
  then show ?thesis by (simp add: sys_getcwd_def sys_ok_def)
next
  case True
  let ?cwd = "p_cwd (current k)" and ?p = "r_ebx r"
  obtain n where n: "n = (if unat (r_ecx r) \<le> length ?cwd then unat (r_ecx r) - 1 else length ?cwd)" by blast
  obtain bs where bs: "bs = take n ?cwd @ [0]" by blast
  have pos: "0 < unat (r_ecx r)" using assms(2) by (simp add: unat_gt_0)
  have len: "length bs \<le> unat (r_ecx r)" "length (take n ?cwd) = n" using pos by (auto simp: bs n)
  have lb: "length bs = Suc n" using len(2) unfolding bs length_append by (simp only: list.size)
  have bn: "bs ! n = 0" unfolding bs using nth_append_length [of "take n ?cwd" 0 "[]"] len(2) by simp
  have tk: "take n ?cwd = take (unat (r_ecx r) - 1) ?cwd" using pos by (auto simp: n)
  from store_user_ok [OF assms(1) True len(1)] obtain t where
    t: "store_user ?p bs k = Some (k\<lparr>vm := t\<rparr>)" "user_stored (vm k) (cur_pd k) ?p bs t" by blast
  have call: "sys_getcwd r k = Some (Sys_done 0, k\<lparr>vm := t\<rparr>)"
    using True assms(2) t(1) unfolding sys_getcwd_def Let_def n [symmetric] bs [symmetric] by (simp add: sys_ok_def)
  note B = stored_bytes [OF assms(1) True len(1) t(2)]
  have str: "user_cstr t ?p = Some (take n ?cwd)"
  proof (rule user_cstr_read)
    show "\<forall>i < length (take n ?cwd). user_byte t (?p + of_nat i) = Some (take n ?cwd ! i)"
    proof (intro allI impI)
      fix i assume i: "i < length (take n ?cwd)"
      then have "bs ! i = take n ?cwd ! i" unfolding bs by (rule nth_append_left)
      moreover have "i < length bs" using i by (auto simp: bs min_def)
      ultimately show "user_byte t (?p + of_nat i) = Some (take n ?cwd ! i)" using B [of i] by simp
    qed
    show "0 \<notin> set (take n ?cwd)" using assms(3) set_take_subset by fastforce
    show "user_byte t (?p + of_nat (length (take n ?cwd))) = Some 0"
      using B [of n] lb bn unfolding len(2) by simp
  qed
  have same: "user_byte t va = user_byte (vm k) va" if "va < KERNEL_VIRT_BASE" "\<not> in_range va ?p (unat (r_ecx r))" for va
  proof -
    have "\<not> unat (va - ?p) < length bs" using that(2) len(1) by (simp add: in_range_def)
    then have "peek (kmem t) (cur_pd k) va = peek (kbytes k) (cur_pd k) va" using t(2) that(1) by (simp add: user_stored_def)
    moreover have "cr3 t = cr3 (vm k)" using t(2) by (auto simp: user_stored_def)
    ultimately show ?thesis using assms(1) by (simp add: user_byte_peek user_loaded_def)
  qed
  show ?thesis using True call user_stored_loaded [OF assms(1) t(2)] str same by (auto simp: tk)
qed



end
