(* ===== verification/Image.thy ===== *)
theory Image
  imports Sys_User
begin

text \<open>
  Loading a whole executable: \<^verbatim>\<open>load_image\<close>, the part of \<^verbatim>\<open>exec_load\<close> of
  \<^verbatim>\<open>src/src/userspace/exe.c\<close> behind the reading of the file, as a composition of the kernel heap, the
  frame allocator, address spaces and \<^verbatim>\<open>map_and_copy\<close>.
\<close>

section \<open>A list of segments\<close>

type_synonym segment = "nat \<times> u32 \<times> u32 \<times> u32 \<times> u32"

text \<open>The addresses of the pages a segment touches.\<close>

fun seg_pages :: "segment \<Rightarrow> nat set" where
  "seg_pages (_, vaddr, _, sz, _) = {unat (page_down vaddr) ..< unat (page_down (vaddr + sz + 0xfff))}"

text \<open>The byte at \<open>vb\<close> after a segment is loaded from the memory \<open>m\<close>, when it was \<open>v\<close> before.\<close>

fun seg_view :: "bytes \<Rightarrow> segment \<Rightarrow> u32 \<Rightarrow> u8 option \<Rightarrow> u8 option" where
  "seg_view m (code, vaddr, src, sz, flags) vb v =
     (if unat vb \<in> seg_pages (code, vaddr, src, sz, flags)
      then (if src \<noteq> 0 \<and> in_range vb vaddr (unat sz) then Some (m (src + (vb - vaddr)))
            else if v = None then Some 0 else v)
      else v)"

definition segs_view :: "bytes \<Rightarrow> segment list \<Rightarrow> u32 \<Rightarrow> u8 option \<Rightarrow> u8 option" where
  "segs_view m segs vb v = fold (\<lambda>seg. seg_view m seg vb) segs v"

fun seg_ok :: "vm_state \<Rightarrow> u32 \<Rightarrow> segment \<Rightarrow> bool" where
  "seg_ok s pd (_, vaddr, src, sz, _) \<longleftrightarrow> unat vaddr + unat sz \<le> 0xc0000000 \<and> source_ok s pd src sz"

fun seg_writable :: "segment \<Rightarrow> bool" where
  "seg_writable (_, _, _, _, flags) \<longleftrightarrow> bit flags 1 \<and> bit flags 2"

definition segs_size :: "segment list \<Rightarrow> nat" where
  "segs_size segs = (\<Sum>seg \<leftarrow> segs. card (seg_pages seg))"

lemma segs_size_simps [simp]: "segs_size [] = 0" "segs_size (x # segs) = card (seg_pages x) + segs_size segs"
  by (simp_all add: segs_size_def)

text \<open>What holds after loading \<open>segs\<close>: their bytes, and nothing else that matters.\<close>

definition segs_loaded :: "u32 \<Rightarrow> segment list \<Rightarrow> vm_state \<Rightarrow> vm_state \<Rightarrow> bool" where
  "segs_loaded pd segs s s' \<longleftrightarrow> user_space s' pd
     \<and> (\<forall>vb < KERNEL_VIRT_BASE. peek (kmem s') pd vb = segs_view (kmem s) segs vb (peek (kmem s) pd vb))
     \<and> (\<forall>x. apart s pd x \<longrightarrow> apart s' pd x \<and> kmem s' x = kmem s x) \<and> cr3 s' = cr3 s"

lemma user_access_mono: "user_access m pd True vb \<Longrightarrow> user_access m pd w vb"
  by (simp add: user_access_def)

lemma source_ok_step: "source_ok s pd src sz \<Longrightarrow> (\<And>x. apart s pd x \<Longrightarrow> apart s' pd x) \<Longrightarrow> source_ok s' pd src sz"
  by (simp add: source_ok_def)

lemma seg_view_cong:
  assumes "seg_ok s pd seg" "\<And>x. apart s pd x \<Longrightarrow> m' x = kmem s x"
  shows "seg_view m' seg vb v = seg_view (kmem s) seg vb v"
proof -
  obtain c va src sz fl where seg: "seg = (c, va, src, sz, fl)" by (cases seg) auto
  have "m' (src + (vb - va)) = kmem s (src + (vb - va))" if "src \<noteq> 0" "in_range vb va (unat sz)"
  proof -
    have "unat (vb - va) < unat sz" using that(2) by (simp add: in_range_def)
    then have "apart s pd (src + of_nat (unat (vb - va)))" using assms(1) that(1) unfolding seg seg_ok.simps source_ok_def by blast
    then show ?thesis using assms(2) by simp
  qed
  then show ?thesis by (simp add: seg)
qed

lemma segs_view_cong:
  assumes "\<forall>seg \<in> set segs. seg_ok s pd seg" "\<And>x. apart s pd x \<Longrightarrow> m' x = kmem s x"
  shows "segs_view m' segs vb v = segs_view (kmem s) segs vb v"
  using assms(1)
proof (induction segs arbitrary: v)
  case (Cons seg segs)
  then show ?case using seg_view_cong [of s pd seg m', OF _ assms(2)] by (simp add: segs_view_def)
qed (simp add: segs_view_def)

text \<open>One segment, seen through \<open>seg_view\<close>.\<close>

lemma loaded_seg:
  assumes "loaded pd vaddr src sz flags (unat (page_down vaddr)) (unat (page_down (vaddr + sz + 0xfff))) s s'"
  shows "segs_loaded pd [(c, vaddr, src, sz, flags)] s s'"
    "seg_writable (c, vaddr, src, sz, flags) \<Longrightarrow> user_access (kmem s) pd w vb \<Longrightarrow> user_access (kmem s') pd w vb"
    "seg_writable (c, vaddr, src, sz, flags) \<Longrightarrow> unat vb \<in> seg_pages (c, vaddr, src, sz, flags) \<Longrightarrow> user_access (kmem s') pd True vb"
proof -
  have m: "(peek (kmem s) pd vb = None) = (\<not> mapped (kmem s) pd vb)" for vb by (simp add: peek_def)
  have "peek (kmem s') pd vb = segs_view (kmem s) [(c, vaddr, src, sz, flags)] vb (peek (kmem s) pd vb)"
    if "vb < KERNEL_VIRT_BASE" for vb
  proof -
    have "peek (kmem s') pd vb = (if unat vb \<in> seg_pages (c, vaddr, src, sz, flags)
        then segment_byte (kmem s) pd vaddr src sz vb else peek (kmem s) pd vb)"
      using assms that unfolding loaded_def by simp
    then show ?thesis by (simp add: segs_view_def segment_byte_def m)
  qed
  then show "segs_loaded pd [(c, vaddr, src, sz, flags)] s s'"
    using assms by (simp add: segs_loaded_def loaded_def)
  show w: "user_access (kmem s') pd True vb"
    if "seg_writable (c, vaddr, src, sz, flags)" "unat vb \<in> seg_pages (c, vaddr, src, sz, flags)" for vb
    using assms that unfolding loaded_def by simp
  show "user_access (kmem s') pd w vb" if "seg_writable (c, vaddr, src, sz, flags)" "user_access (kmem s) pd w vb" for w vb
  proof (cases "unat vb \<in> seg_pages (c, vaddr, src, sz, flags)")
    case True
    then show ?thesis using w that by (blast intro: user_access_mono)
  next
    case False
    then show ?thesis using assms that unfolding loaded_def by simp
  qed
qed

lemma segs_loaded_Cons:
  assumes "segs_loaded pd [seg] s s1" "segs_loaded pd segs s1 s'" "\<forall>x \<in> set segs. seg_ok s pd x"
  shows "segs_loaded pd (seg # segs) s s'"
proof -
  have "segs_view (kmem s1) segs vb v = segs_view (kmem s) segs vb v" for vb v
    by (rule segs_view_cong [OF assms(3)]) (use assms(1) in \<open>simp add: segs_loaded_def\<close>)
  then show ?thesis using assms(1,2) by (simp add: segs_loaded_def segs_view_def)
qed

lemma seg_ok_step: "seg_ok s pd seg \<Longrightarrow> segs_loaded pd segs s s' \<Longrightarrow> seg_ok s' pd seg"
  using source_ok_step [of s pd _ _ s'] by (cases seg) (auto simp: segs_loaded_def)

text \<open>Loading writable segments.\<close>

lemma load_segments_step:
  assumes "user_space s pd" "frame_used (vpm s) 0" "seg_ok s pd (c, vaddr, src, sz, flags)"
    and "card (seg_pages (c, vaddr, src, sz, flags)) + n \<le> 2048 * free_frames s"
  shows "\<exists>s1. map_and_copy pd vaddr src sz flags s = Some (0, s1)
    \<and> loaded pd vaddr src sz flags (unat (page_down vaddr)) (unat (page_down (vaddr + sz + 0xfff))) s s1
    \<and> frame_used (vpm s1) 0 \<and> n \<le> 2048 * free_frames s1"
proof -
  have "\<exists>s'. map_and_copy pd vaddr src sz flags s = Some (0, s')
    \<and> loaded pd vaddr src sz flags (unat (page_down vaddr)) (unat (page_down (vaddr + sz + 0xfff))) s s'
    \<and> frame_used (vpm s') 0
    \<and> 2048 * free_frames s + unat (page_down vaddr) \<le> 2048 * free_frames s' + unat (page_down (vaddr + sz + 0xfff))"
    using assms by (intro map_and_copy_ok) simp_all
  then obtain s1 where s1: "map_and_copy pd vaddr src sz flags s = Some (0, s1)"
    "loaded pd vaddr src sz flags (unat (page_down vaddr)) (unat (page_down (vaddr + sz + 0xfff))) s s1" "frame_used (vpm s1) 0"
    "2048 * free_frames s + unat (page_down vaddr) \<le> 2048 * free_frames s1 + unat (page_down (vaddr + sz + 0xfff))" by blast
  have "unat (page_down vaddr) \<le> unat (page_down (vaddr + sz + 0xfff))" using assms(3) by (intro segment_end(2)) simp
  then have "n \<le> 2048 * free_frames s1" using assms(4) s1(4) by simp
  then show ?thesis using s1 by blast
qed

lemma load_segments_writable:
  assumes "user_space s pd" "frame_used (vpm s) 0" "\<forall>seg \<in> set segs. seg_ok s pd seg \<and> seg_writable seg" "segs_size segs \<le> 2048 * free_frames s"
  shows "\<exists>s'. load_segments pd segs s = Some (0, s') \<and> segs_loaded pd segs s s'
    \<and> (\<forall>w vb. user_access (kmem s) pd w vb \<longrightarrow> user_access (kmem s') pd w vb)
    \<and> (\<forall>seg \<in> set segs. \<forall>vb. unat vb \<in> seg_pages seg \<longrightarrow> user_access (kmem s') pd True vb)"
  using assms
proof (induction segs arbitrary: s)
  case Nil
  then show ?case by (simp add: segs_loaded_def segs_view_def)
next
  case (Cons seg segs)
  obtain c va src sz fl where seg: "seg = (c, va, src, sz, fl)" by (cases seg) auto
  from load_segments_step [OF Cons.prems(1,2), of c va src sz fl "segs_size segs"] Cons.prems(3,4) obtain s1 where
    s1: "map_and_copy pd va src sz fl s = Some (0, s1)"
    "loaded pd va src sz fl (unat (page_down va)) (unat (page_down (va + sz + 0xfff))) s s1"
    "frame_used (vpm s1) 0" "segs_size segs \<le> 2048 * free_frames s1" by (auto simp del: seg_pages.simps simp: seg)
  note L = loaded_seg [OF s1(2), of c, folded seg]
  have us: "user_space s1 pd" using L(1) by (simp add: segs_loaded_def)
  have ok: "\<forall>x \<in> set segs. seg_ok s1 pd x \<and> seg_writable x" using Cons.prems(3) seg_ok_step [OF _ L(1)] by simp
  from Cons.IH [OF us s1(3) ok s1(4)] obtain s' where s': "load_segments pd segs s1 = Some (0, s')" "segs_loaded pd segs s1 s'"
    "\<forall>w vb. user_access (kmem s1) pd w vb \<longrightarrow> user_access (kmem s') pd w vb"
    "\<forall>x \<in> set segs. \<forall>vb. unat vb \<in> seg_pages x \<longrightarrow> user_access (kmem s') pd True vb" by blast
  have w: "seg_writable seg" using Cons.prems(3) by simp
  have "segs_loaded pd (seg # segs) s s'" using segs_loaded_Cons [OF L(1) s'(2)] Cons.prems(3) by simp
  moreover have "load_segments pd (seg # segs) s = Some (0, s')" using s1(1) s'(1) by (simp add: seg)
  ultimately show ?case using s'(3,4) L(2,3) [OF w] by (intro exI [of _ s']) auto
qed

section \<open>An executable\<close>

text \<open>
  What the process is meant to find at an address: the bytes of the file for the data and the code,
  zeros in the rest of the pages, nothing elsewhere.
\<close>

definition image_view :: "bytes \<Rightarrow> exe_header \<Rightarrow> u32 \<Rightarrow> u32 \<Rightarrow> u8 option" where
  "image_view m h buf vb =
     (if in_range vb (ex_data_vaddr h) (unat (ex_data_size h))
      then Some (m (buf + EXE_HEADER_SIZE + ex_code_size h + (vb - ex_data_vaddr h)))
      else if in_range vb (ex_code_vaddr h) (unat (ex_code_size h))
      then Some (m (buf + EXE_HEADER_SIZE + (vb - ex_code_vaddr h)))
      else if \<exists>seg \<in> set (segments h buf). unat vb \<in> seg_pages seg then Some 0 else None)"

lemma range_in_pages:
  assumes "unat vaddr + unat sz \<le> 0xc0000000" "in_range vb vaddr (unat sz)"
  shows "unat vb \<in> seg_pages (c, vaddr, src, sz, fl)"
proof -
  have r: "unat vaddr \<le> unat vb" "unat vb < unat vaddr + unat sz"
    using assms by (auto simp: in_range_def unat_sub_if_size word_size split: if_splits)
  have "unat (page_down vaddr) \<le> unat vaddr" by (simp add: unat_page_down)
  moreover have "n \<le> 4096 * ((n + 4095) div 4096)" for n :: nat
    using mult_div_mod_eq [of 4096 "n + 4095"] mod_less_divisor [of 4096 "n + 4095"] by linarith
  then have "unat vaddr + unat sz \<le> 4096 * ((unat vaddr + unat sz + 4095) div 4096)" .
  ultimately show ?thesis using r by (simp add: segment_end(1) [OF assms(1)])
qed

lemma segs_view_append: "segs_view m (xs @ ys) vb v = segs_view m ys vb (segs_view m xs vb v)"
  by (simp add: segs_view_def)

text \<open>Segments without a source.\<close>

fun seg_source :: "segment \<Rightarrow> u32" where
  "seg_source (_, _, src, _, _) = src"

lemma segs_view_zero:
  "\<forall>seg \<in> set segs. seg_source seg = 0 \<Longrightarrow>
    segs_view m segs vb v = (if v = None \<and> (\<exists>seg \<in> set segs. unat vb \<in> seg_pages seg) then Some 0 else v)"
proof (induction segs arbitrary: v)
  case (Cons seg segs)
  obtain c va src sz fl where seg: "seg = (c, va, src, sz, fl)" by (cases seg) auto
  have "segs_view m (seg # segs) vb v = segs_view m segs vb (if v = None \<and> unat vb \<in> seg_pages seg then Some 0 else v)"
    using Cons.prems by (simp add: seg segs_view_def)
  then show ?case using Cons.IH Cons.prems by auto
qed (simp add: segs_view_def)

definition code_segment :: "exe_header \<Rightarrow> u32 \<Rightarrow> segment list" where
  "code_segment h buf =
     (if ex_code_size h \<noteq> 0 then [(5, ex_code_vaddr h, buf + EXE_HEADER_SIZE, ex_code_size h, user_flags False)] else [])"

definition data_segment :: "exe_header \<Rightarrow> u32 \<Rightarrow> segment list" where
  "data_segment h buf =
     (if ex_data_size h \<noteq> 0
      then [(6, ex_data_vaddr h, buf + EXE_HEADER_SIZE + ex_code_size h, ex_data_size h, user_flags True)] else [])"

definition zero_segments :: "exe_header \<Rightarrow> segment list" where
  "zero_segments h =
     (if ex_bss_size h \<noteq> 0 then [(7, ex_bss_vaddr h, 0, ex_bss_size h, user_flags True)] else [])
     @ [(8, USER_STACK_TOP - USER_STACK_SIZE, 0, USER_STACK_SIZE, user_flags True)]"

lemma segments_split: "segments h buf = code_segment h buf @ data_segment h buf @ zero_segments h"
  by (simp add: segments_def code_segment_def data_segment_def zero_segments_def)

lemma one_segment:
  assumes "seg_ok s pd (c, va, src, sz, fl)" "src \<noteq> 0"
  shows "segs_view m [(c, va, src, sz, fl)] vb v =
    (if in_range vb va (unat sz) then Some (m (src + (vb - va)))
     else if v = None \<and> unat vb \<in> seg_pages (c, va, src, sz, fl) then Some 0 else v)"
  using assms range_in_pages [of va sz vb c src fl] by (auto simp: segs_view_def simp del: seg_pages.simps)

lemma segs_view_image:
  assumes ok: "\<forall>seg \<in> set (segments h buf). seg_ok s pd seg" and nz: "buf + EXE_HEADER_SIZE \<noteq> 0" "buf + EXE_HEADER_SIZE + ex_code_size h \<noteq> 0"
  shows "segs_view m (segments h buf) vb None = image_view m h buf vb"
proof -
  let ?in = "\<lambda>segs. \<exists>seg \<in> set segs. unat vb \<in> seg_pages seg"
  have c: "segs_view m (code_segment h buf) vb v =
      (if in_range vb (ex_code_vaddr h) (unat (ex_code_size h)) then Some (m (buf + EXE_HEADER_SIZE + (vb - ex_code_vaddr h)))
       else if v = None \<and> ?in (code_segment h buf) then Some 0 else v)" for v
  proof (cases "ex_code_size h = 0")
    case True
    then show ?thesis by (simp add: code_segment_def segs_view_def)
  next
    case False
    then have "seg_ok s pd (5, ex_code_vaddr h, buf + EXE_HEADER_SIZE, ex_code_size h, user_flags False)"
      using ok by (simp add: segments_def)
    from one_segment [OF this nz(1)] False show ?thesis by (simp add: code_segment_def del: seg_pages.simps)
  qed
  have d: "segs_view m (data_segment h buf) vb v =
      (if in_range vb (ex_data_vaddr h) (unat (ex_data_size h)) then Some (m (buf + EXE_HEADER_SIZE + ex_code_size h + (vb - ex_data_vaddr h)))
       else if v = None \<and> ?in (data_segment h buf) then Some 0 else v)" for v
  proof (cases "ex_data_size h = 0")
    case True
    then show ?thesis by (simp add: data_segment_def segs_view_def)
  next
    case False
    then have "seg_ok s pd (6, ex_data_vaddr h, buf + EXE_HEADER_SIZE + ex_code_size h, ex_data_size h, user_flags True)"
      using ok by (simp add: segments_def)
    from one_segment [OF this nz(2)] False show ?thesis by (simp add: data_segment_def del: seg_pages.simps)
  qed
  have z: "segs_view m (zero_segments h) vb v = (if v = None \<and> ?in (zero_segments h) then Some 0 else v)" for v
    by (rule segs_view_zero) (simp add: zero_segments_def)
  have i: "?in (segments h buf) \<longleftrightarrow> ?in (code_segment h buf) \<or> ?in (data_segment h buf) \<or> ?in (zero_segments h)"
    unfolding segments_split by auto
  show ?thesis
    unfolding image_view_def i unfolding segments_split segs_view_append c d z by auto
qed

text \<open>
  The pages of an executable in a fresh address space: what the process finds there, and that it may
  read all of it and write everything but the pages that belong to the code alone.
\<close>

definition image_loaded :: "u32 \<Rightarrow> exe_header \<Rightarrow> u32 \<Rightarrow> vm_state \<Rightarrow> vm_state \<Rightarrow> bool" where
  "image_loaded pd h buf s s' \<longleftrightarrow> user_space s' pd
     \<and> (\<forall>vb < KERNEL_VIRT_BASE. peek (kmem s') pd vb = image_view (kmem s) h buf vb)
     \<and> (\<forall>seg \<in> set (segments h buf). \<forall>vb. unat vb \<in> seg_pages seg \<longrightarrow> user_access (kmem s') pd False vb)
     \<and> (\<forall>seg \<in> set (data_segment h buf @ zero_segments h). \<forall>vb. unat vb \<in> seg_pages seg \<longrightarrow> user_access (kmem s') pd True vb)
     \<and> (\<forall>x. apart s pd x \<longrightarrow> apart s' pd x \<and> kmem s' x = kmem s x) \<and> cr3 s' = cr3 s"

lemma user_flags_bits: "bit (user_flags w) 1 = w" "bit (user_flags w) (Suc 0) = w" "bit (user_flags w) 2"
  by (simp_all add: user_flags_def)

lemma rest_writable: "\<forall>seg \<in> set (data_segment h buf @ zero_segments h). seg_writable seg"
  by (auto simp: data_segment_def zero_segments_def user_flags_bits)

lemma load_segments_image:
  assumes us: "user_space s pd" and fr: "frame_used (vpm s) 0" "segs_size (segments h buf) \<le> 2048 * free_frames s"
    and fresh: "\<forall>vb < KERNEL_VIRT_BASE. \<not> mapped (kmem s) pd vb"
    and ok: "\<forall>seg \<in> set (segments h buf). seg_ok s pd seg" and nz: "buf + EXE_HEADER_SIZE \<noteq> 0" "buf + EXE_HEADER_SIZE + ex_code_size h \<noteq> 0"
  shows "\<exists>s'. load_segments pd (segments h buf) s = Some (0, s') \<and> image_loaded pd h buf s s'"
proof -
  let ?rest = "data_segment h buf @ zero_segments h"
  have "\<exists>s1. load_segments pd (code_segment h buf @ ?rest) s = load_segments pd ?rest s1 \<and> segs_loaded pd (code_segment h buf) s s1
      \<and> (\<forall>seg \<in> set (code_segment h buf). \<forall>vb. unat vb \<in> seg_pages seg \<longrightarrow> user_access (kmem s1) pd False vb)
      \<and> frame_used (vpm s1) 0 \<and> segs_size ?rest \<le> 2048 * free_frames s1"
  proof (cases "ex_code_size h = 0")
    case True
    then show ?thesis using us fr by (intro exI [of _ s]) (simp add: code_segment_def segs_loaded_def segs_view_def segments_split)
  next
    case False
    let ?va = "ex_code_vaddr h" and ?src = "buf + EXE_HEADER_SIZE" and ?sz = "ex_code_size h"
    have sok: "seg_ok s pd (5, ?va, ?src, ?sz, user_flags False)" using ok False by (simp add: segments_def)
    from load_segments_step [OF us fr(1) sok, of "segs_size ?rest"] fr(2) False obtain s1 where
      s1: "map_and_copy pd ?va ?src ?sz (user_flags False) s = Some (0, s1)"
      "loaded pd ?va ?src ?sz (user_flags False) (unat (page_down ?va)) (unat (page_down (?va + ?sz + 0xfff))) s s1"
      "frame_used (vpm s1) 0" "segs_size ?rest \<le> 2048 * free_frames s1"
      by (auto simp: segments_split code_segment_def simp del: seg_pages.simps)
    have "unat (page_down (?va + ?sz + 0xfff)) \<le> 0xc0000000"
    proof -
      have "(unat ?va + unat ?sz + 4095) div 4096 \<le> (0xc0000000 + 4095) div 4096" by (rule div_le_mono) (use sok in simp)
      then show ?thesis using sok by (simp add: segment_end(1))
    qed
    then have "\<not> mapped (kmem s) pd vb" if "unat vb < unat (page_down (?va + ?sz + 0xfff))" for vb
      using fresh that by (simp add: word_less_nat_alt KERNEL_VIRT_BASE_def)
    then have "\<forall>vb. unat vb \<in> seg_pages (5, ?va, ?src, ?sz, user_flags False) \<longrightarrow> user_access (kmem s1) pd False vb"
      using s1(2) unfolding loaded_def by (simp add: user_flags_bits)
    then show ?thesis
      using s1 loaded_seg(1) [OF s1(2), of 5] False
      by (intro exI [of _ s1]) (simp add: code_segment_def del: seg_pages.simps)
  qed
  then obtain s1 where s1: "load_segments pd (segments h buf) s = load_segments pd ?rest s1" "segs_loaded pd (code_segment h buf) s s1"
    "\<forall>seg \<in> set (code_segment h buf). \<forall>vb. unat vb \<in> seg_pages seg \<longrightarrow> user_access (kmem s1) pd False vb"
    "frame_used (vpm s1) 0" "segs_size ?rest \<le> 2048 * free_frames s1" unfolding segments_split by blast
  have us1: "user_space s1 pd" using s1(2) by (simp add: segs_loaded_def)
  have okr: "\<forall>seg \<in> set ?rest. seg_ok s pd seg" using ok by (simp add: segments_split)
  then have "\<forall>seg \<in> set ?rest. seg_ok s1 pd seg \<and> seg_writable seg"
    using seg_ok_step [OF _ s1(2)] rest_writable [of h buf] by blast
  from load_segments_writable [OF us1 s1(4) this s1(5)] obtain s' where
    s': "load_segments pd ?rest s1 = Some (0, s')" "segs_loaded pd ?rest s1 s'"
    "\<forall>w vb. user_access (kmem s1) pd w vb \<longrightarrow> user_access (kmem s') pd w vb"
    "\<forall>seg \<in> set ?rest. \<forall>vb. unat vb \<in> seg_pages seg \<longrightarrow> user_access (kmem s') pd True vb" by blast
  have "segs_view (kmem s1) ?rest vb v = segs_view (kmem s) ?rest vb v" for vb v
    by (rule segs_view_cong [OF okr]) (use s1(2) in \<open>simp add: segs_loaded_def\<close>)
  then have "segs_loaded pd (segments h buf) s s'"
    using s1(2) s'(2) unfolding segs_loaded_def segments_split segs_view_append by simp
  moreover have "peek (kmem s) pd vb = None" if "vb < KERNEL_VIRT_BASE" for vb using fresh that by (simp add: peek_def)
  ultimately have "user_space s' pd \<and> (\<forall>vb < KERNEL_VIRT_BASE. peek (kmem s') pd vb = image_view (kmem s) h buf vb)
    \<and> (\<forall>x. apart s pd x \<longrightarrow> apart s' pd x \<and> kmem s' x = kmem s x) \<and> cr3 s' = cr3 s"
    using segs_view_image [OF ok nz] by (simp add: segs_loaded_def)
  moreover have "\<forall>seg \<in> set (segments h buf). \<forall>vb. unat vb \<in> seg_pages seg \<longrightarrow> user_access (kmem s') pd False vb"
    using s1(3) s'(3,4) user_access_mono unfolding segments_split set_append by blast
  ultimately show ?thesis using s1(1) s'(1,4) by (auto simp: image_loaded_def simp del: seg_pages.simps)
qed

section \<open>The address space of a new process\<close>

text \<open>The directory of the kernel: well-formed, writable for the kernel, closed to user mode.\<close>

definition kernel_dir_ok :: "vm_state \<Rightarrow> bool" where
  "kernel_dir_ok s \<longleftrightarrow> aspace_ok s (kernel_directory_phys s) \<and> tables_rw (kmem s) (kernel_directory_phys s)
     \<and> (\<forall>va. KERNEL_VIRT_BASE \<le> va \<longrightarrow> \<not> upper_user (kmem s) (kernel_directory_phys s) va) \<and> frame_used (vpm s) 0"

text \<open>Kernel memory in an allocated frame that holds no table of the kernel.\<close>

definition kernel_data :: "vm_state \<Rightarrow> u32 \<Rightarrow> bool" where
  "kernel_data s a \<longleftrightarrow> frame_used (vpm s) (pgno (virt_to_phys a))
     \<and> page_down (virt_to_phys a) \<notin> tables_of (kmem s) (kernel_directory_phys s)"

lemma create_user_space:
  assumes ok: "kernel_dir_ok s" and fr: "0 < free_frames s"
  shows "\<exists>pd s1. paging_create_address_space s = Some (pd, s1) \<and> user_space s1 pd
    \<and> (\<forall>vb < KERNEL_VIRT_BASE. \<not> mapped (kmem s1) pd vb) \<and> frame_used (vpm s1) 0 \<and> free_frames s1 + 1 = free_frames s
    \<and> cr3 s1 = cr3 s \<and> (\<forall>a. kernel_data s a \<longrightarrow> apart s1 pd a \<and> kmem s1 a = kmem s a)"
proof -
  let ?k = "kernel_directory_phys s"
  from ok have aok: "aspace_ok s ?k" and rw: "tables_rw (kmem s) ?k" and f0: "frame_used (vpm s) 0"
    and up: "\<And>va. KERNEL_VIRT_BASE \<le> va \<Longrightarrow> \<not> upper_user (kmem s) ?k va" by (auto simp: kernel_dir_ok_def)
  have pm: "pmm_ok (vpm s)" using aok by (simp add: aspace_ok_def)
  from vm_alloc_counts [OF pm f0 fr] obtain pd s0 where al: "vm_alloc s = Some (pd, s0)" "pd \<noteq> 0"
    "free_frames s0 + 1 = free_frames s" "frame_used (vpm s0) 0" by blast
  obtain s1 where cr: "paging_create_address_space s = Some (pd, s1)" "vpm s1 = vpm s0"
    using al(1) by (auto simp: paging_create_address_space_def Let_def)
  note C = create_address_space [OF aok cr(1)]
  have fresh: "\<not> mapped (kmem s1) pd vb" if "vb < KERNEL_VIRT_BASE" for vb using C(3) [of vb] that by simp
  have te: "table_at (kmem s1) pd j = table_at (kmem s) ?k j" if "j < 1024" "KERNEL_PDE_START \<le> j" for j
    using C(12) [OF that] by (simp add: table_at_def)
  have tabs: "tables_of (kmem s1) pd \<subseteq> insert pd (tables_of (kmem s) ?k)"
    using C(11) te by (auto simp: tables_of_def)
  have "\<not> upper_user (kmem s1) pd va" if "KERNEL_VIRT_BASE \<le> va" for va
    using up [OF that] C(11,12) [OF pd_index_less, of va] pd_index_kernel [of va] that by (auto simp: upper_user_def not_less)
  then have us: "user_space s1 pd" using C(1) C(4) [OF rw] fresh by (simp add: user_space_def space_ok_def)
  have pal: "page_aligned pd" using C(1) tables_ok_aligned [of "kmem s1" pd] by (simp add: aspace_ok_def)
  have "apart s1 pd a \<and> kmem s1 a = kmem s a" if kd: "kernel_data s a" for a
  proof -
    let ?p = "virt_to_phys a"
    have u: "frame_used (vpm s) (pgno ?p)" and nt: "page_down ?p \<notin> tables_of (kmem s) ?k" using kd by (simp_all add: kernel_data_def)
    have ne: "page_down ?p \<noteq> pd" using u C(6) pgno_page_down [of ?p] by (auto simp del: pgno_page_down)
    have "frame_used (vpm s1) (pgno ?p)" using C(7) [OF pgno_less] u by simp
    then have "apart s1 pd a" using ne nt tabs fresh by (auto simp: apart_def)
    moreover have "\<not> in_range a (phys_to_virt pd) 4096" using in_page [OF pal, of a] ne by simp
    ultimately show ?thesis using C(13) by blast
  qed
  moreover have "free_frames s1 + 1 = free_frames s" "frame_used (vpm s1) 0" using al(3,4) cr(2) by (simp_all add: free_frames_def)
  ultimately show ?thesis using cr(1) us fresh C(9) by blast
qed

text \<open>The file of an executable in a buffer of the kernel, as \<^verbatim>\<open>exec_load\<close> has read it.\<close>

definition file_in_kernel :: "vm_state \<Rightarrow> exe_header \<Rightarrow> u32 \<Rightarrow> bool" where
  "file_in_kernel s h buf \<longleftrightarrow> get_exe_header (kmem s) buf = h \<and> ex_magic h = EXE_MAGIC
     \<and> unat buf + 32 + unat (ex_code_size h) + unat (ex_data_size h) < 2 ^ 32
     \<and> (\<forall>i < 32 + unat (ex_code_size h) + unat (ex_data_size h). kernel_data s (buf + of_nat i))
     \<and> (\<forall>(c, va, src, sz, fl) \<in> set (segments h buf). unat va + unat sz \<le> 0xc0000000)"

lemma header_cong: "(\<And>i. i < 32 \<Longrightarrow> m' (buf + of_nat i) = m (buf + of_nat i)) \<Longrightarrow> get_exe_header m' buf = get_exe_header m buf"
proof -
  assume a: "\<And>i. i < 32 \<Longrightarrow> m' (buf + of_nat i) = m (buf + of_nat i)"
  have "ld32 m' (buf + of_nat i) = ld32 m (buf + of_nat i)" if "i \<le> 28" for i
    using a [of i] a [of "i + 1"] a [of "i + 2"] a [of "i + 3"] that by (intro ld32_cong) (auto simp: ac_simps)
  from this [of 0] this [of 4] this [of 8] this [of 12] this [of 16] this [of 20] this [of 24] this [of 28]
  show ?thesis by (simp add: get_exe_header_def)
qed

lemma file_segments_ok:
  assumes f: "file_in_kernel s h buf" and ap: "\<And>a. kernel_data s a \<Longrightarrow> apart s1 pd a"
  shows "\<forall>seg \<in> set (segments h buf). seg_ok s1 pd seg" "buf + EXE_HEADER_SIZE \<noteq> 0" "buf + EXE_HEADER_SIZE + ex_code_size h \<noteq> 0"
proof -
  have data: "apart s1 pd (buf + of_nat i)" if "i < 32 + unat (ex_code_size h) + unat (ex_data_size h)" for i
    using f ap that by (simp add: file_in_kernel_def)
  have u: "unat (buf + 32) = unat buf + 32" "unat (buf + 32 + ex_code_size h) = unat buf + 32 + unat (ex_code_size h)"
    using f by (auto simp: file_in_kernel_def unat_word_ariths)
  then show "buf + EXE_HEADER_SIZE \<noteq> 0" "buf + EXE_HEADER_SIZE + ex_code_size h \<noteq> 0" by (auto simp: word_unat_eq_iff)
  have c: "source_ok s1 pd (buf + EXE_HEADER_SIZE) (ex_code_size h)"
    using data [of "32 + i" for i] by (auto simp: source_ok_def add.assoc)
  have d: "source_ok s1 pd (buf + EXE_HEADER_SIZE + ex_code_size h) (ex_data_size h)"
  proof -
    have "apart s1 pd (buf + 32 + ex_code_size h + of_nat i)" if "i < unat (ex_data_size h)" for i
      using data [of "32 + unat (ex_code_size h) + i"] that by (simp add: add.assoc)
    then show ?thesis by (simp add: source_ok_def)
  qed
  have z: "source_ok s1 pd 0 sz" for sz by (simp add: source_ok_def)
  have fit: "\<forall>(c, va, src, sz, fl) \<in> set (segments h buf). unat va + unat sz \<le> 0xc0000000" using f by (simp add: file_in_kernel_def)
  show "\<forall>seg \<in> set (segments h buf). seg_ok s1 pd seg"
    using fit c d z by (auto simp: segments_def)
qed

lemma load_image_ok:
  assumes "kernel_dir_ok (vm k)" "file_in_kernel (vm k) h buf" "segs_size (segments h buf) + 2048 \<le> 2048 * free_frames (vm k)"
    and "heap_rep (kheap k) L" "(unat buf, n) \<in> L" "12 < n"
  shows "\<exists>k'. load_image proc buf k = Some (0, k') \<and> heap_rep (kheap k') (L - {(unat buf, n)})
    \<and> (let x = procs k' proc; pd = p_pd_phys x in user_space (vm k') pd
      \<and> (\<forall>vb < KERNEL_VIRT_BASE. peek (kbytes k') pd vb = image_view (kbytes k) h buf vb)
      \<and> (\<forall>seg \<in> set (segments h buf). \<forall>vb. unat vb \<in> seg_pages seg \<longrightarrow> user_access (kbytes k') pd False vb)
      \<and> (\<forall>seg \<in> set (data_segment h buf @ zero_segments h). \<forall>vb. unat vb \<in> seg_pages seg \<longrightarrow> user_access (kbytes k') pd True vb)
      \<and> p_entry_point x = ex_entry_point h \<and> p_user_stack_top x = USER_STACK_TOP
      \<and> p_heap_start x = page_down (ex_bss_vaddr h + ex_bss_size h + 0xfff) \<and> p_heap_break x = p_heap_start x)"
proof -
  have hd: "get_exe_header (kbytes k) buf = h" "ex_magic h = EXE_MAGIC" using assms(2) by (simp_all add: file_in_kernel_def)
  have "0 < free_frames (vm k)" using assms(3) by simp
  from create_user_space [OF assms(1) this] obtain pd s1 where
    c: "paging_create_address_space (vm k) = Some (pd, s1)" "user_space s1 pd" "\<forall>vb < KERNEL_VIRT_BASE. \<not> mapped (kmem s1) pd vb"
    "frame_used (vpm s1) 0" "free_frames s1 + 1 = free_frames (vm k)"
    "\<forall>a. kernel_data (vm k) a \<longrightarrow> apart s1 pd a \<and> kmem s1 a = kbytes k a" by blast
  have room: "segs_size (segments h buf) \<le> 2048 * free_frames s1" using assms(3) c(5) by simp
  have ap: "kernel_data (vm k) a \<Longrightarrow> apart s1 pd a" for a using c(6) by blast
  note ok = file_segments_ok [OF assms(2) ap]
  from load_segments_image [OF c(2,4) room c(3) ok] obtain s2 where
    s2: "load_segments pd (segments h buf) s1 = Some (0, s2)" "image_loaded pd h buf s1 s2" by blast
  from kfree_rep [OF assms(4-6)] obtain hp where hp: "kfree buf (kheap k) = Some (Kfree_done, hp)"
    "heap_rep hp (L - {(unat buf, n)})" by blast
  have same: "kmem s2 (buf + of_nat i) = kbytes k (buf + of_nat i) \<and> kmem s1 (buf + of_nat i) = kbytes k (buf + of_nat i)"
    if "i < 32 + unat (ex_code_size h) + unat (ex_data_size h)" for i
  proof -
    have "kernel_data (vm k) (buf + of_nat i)" using assms(2) that by (simp add: file_in_kernel_def)
    then show ?thesis using c(6) s2(2) by (simp add: image_loaded_def)
  qed
  have h3: "get_exe_header (kmem s2) buf = h" using header_cong [of "kmem s2" buf "kbytes k"] same hd(1) by simp
  have view: "image_view (kmem s1) h buf vb = image_view (kbytes k) h buf vb" for vb
  proof -
    have "kmem s1 (buf + 32 + ex_code_size h + (vb - ex_data_vaddr h)) = kbytes k (buf + 32 + ex_code_size h + (vb - ex_data_vaddr h))"
      if "in_range vb (ex_data_vaddr h) (unat (ex_data_size h))"
      using same [of "32 + unat (ex_code_size h) + unat (vb - ex_data_vaddr h)"] that by (simp add: in_range_def add.assoc)
    moreover have "kmem s1 (buf + 32 + (vb - ex_code_vaddr h)) = kbytes k (buf + 32 + (vb - ex_code_vaddr h))"
      if "in_range vb (ex_code_vaddr h) (unat (ex_code_size h))"
      using same [of "32 + unat (vb - ex_code_vaddr h)"] that by (simp add: in_range_def add.assoc)
    ultimately show ?thesis by (simp add: image_view_def)
  qed
  obtain x where x: "x = (procs k proc)\<lparr>p_pd_phys := pd, p_entry_point := ex_entry_point h, p_user_stack_top := USER_STACK_TOP,
      p_heap_start := page_down (ex_bss_vaddr h + ex_bss_size h + 0xfff), p_heap_break := page_down (ex_bss_vaddr h + ex_bss_size h + 0xfff),
      p_heap_max := USER_HEAP_MAX\<rparr>" by blast
  obtain k' where k': "k' = k\<lparr>procs := (procs k)(proc := x), vm := s2, kheap := hp\<rparr>" by blast
  have "load_image proc buf k = Some (0, k')"
    using c(1) s2(1) hp(1) h3 hd by (simp add: load_image_def k_free_def Let_def upd_proc_def k' x)
  moreover have "p_pd_phys (procs k' proc) = pd" by (simp add: k' x)
  ultimately show ?thesis
    using s2(2) hp(2) view by (intro exI [of _ k']) (simp add: Let_def image_loaded_def k' x del: seg_pages.simps)
qed

text \<open>
  Loading an executable. When its file is in a live block of the kernel heap, its segments lie below
  the kernel and enough frames are free, \<^verbatim>\<open>load_image\<close> (the part of \<^verbatim>\<open>exec_load\<close> behind the
  reading of the file) returns 0 and gives the process an address space of its own, in which it finds
  exactly its data, its code, and zeros in the rest of its pages, may read all of them, and may write the
  data, the uninitialised data and the stack; the entry point, the stack and the heap are set as the
  header says, and the buffer is free again.
\<close>

theorem load_image_runs:
  assumes "kernel_dir_ok (vm k)" "file_in_kernel (vm k) h buf" "segs_size (segments h buf) + 2048 \<le> 2048 * free_frames (vm k)"
    and "heap_rep (kheap k) L" "(unat buf, n) \<in> L" "12 < n"
  shows "\<exists>k'. load_image proc buf k = Some (0, k') \<and> heap_rep (kheap k') (L - {(unat buf, n)})
    \<and> (let x = procs k' proc; pd = p_pd_phys x in user_space (vm k') pd
      \<and> (\<forall>vb < KERNEL_VIRT_BASE. peek (kbytes k') pd vb = image_view (kbytes k) h buf vb)
      \<and> (\<forall>seg \<in> set (segments h buf). \<forall>vb. unat vb \<in> seg_pages seg \<longrightarrow> user_access (kbytes k') pd False vb)
      \<and> (\<forall>seg \<in> set (data_segment h buf @ zero_segments h). \<forall>vb. unat vb \<in> seg_pages seg \<longrightarrow> user_access (kbytes k') pd True vb)
      \<and> p_entry_point x = ex_entry_point h \<and> p_user_stack_top x = USER_STACK_TOP
      \<and> p_heap_start x = page_down (ex_bss_vaddr h + ex_bss_size h + 0xfff) \<and> p_heap_break x = p_heap_start x)"
  by (rule load_image_ok [OF assms])

text \<open>A file of three bytes of code to be loaded at 0x400000, in the block of the example heap.\<close>

definition file_example :: "u8 list" where
  "file_example = [0x4c, 0x4f, 0x41, 0x46, 0, 0, 0x40, 0, 0, 0, 0x40, 0, 3, 0, 0, 0, 0, 0, 0, 0,
     0, 0, 0, 0, 0, 0, 0, 0, 0, 0, 0, 0, 0xeb, 0xfe, 0x90]"

definition image_example :: kernel where
  "image_example = user_example\<lparr>vm := vm_example\<lparr>kmem := (\<lambda>a. if in_range a 0xc010000c 35
     then file_example ! unat (a - 0xc010000c) else 0)\<rparr>\<rparr>"

lemma image_example_header: "get_exe_header (kbytes image_example) 0xc010000c =
    \<lparr>ex_magic = EXE_MAGIC, ex_entry_point = 0x400000, ex_code_vaddr = 0x400000, ex_code_size = 3,
     ex_data_vaddr = 0, ex_data_size = 0, ex_bss_vaddr = 0, ex_bss_size = 0\<rparr>"
  by (simp add: get_exe_header_def image_example_def ld32_def in_range_def file_example_def)

lemma image_example_kernel:
  "kernel_dir_ok (vm image_example)" "i < 35 \<Longrightarrow> kernel_data (vm image_example) (0xc010000c + of_nat i)"
  "11 \<le> free_frames (vm image_example)"
proof -
  let ?m = "\<lambda>a. if in_range a 0xc010000c 35 then file_example ! unat (a - 0xc010000c) else 0"
  have e: "vm image_example = vm_example\<lparr>kmem := ?m\<rparr>" "kernel_directory_phys vm_example = 0x14000"
    by (simp_all add: image_example_def vm_example_def)
  have us: "user_space vm_example 0x14000" by (rule vm_example_space)
  then have sp: "space_ok vm_example 0x14000" by (simp add: user_space_def)
  have ag: "agrees 0x100000 (kmem vm_example) ?m"
  proof -
    have "in_range a 0xc0100000 4096" if "in_range a 0xc010000c 35" for a :: u32
    proof -
      obtain d where d: "d = a - 0xc010000c" by blast
      then have "unat d < 35" using that by (simp add: in_range_def)
      then have "unat (d + 12) < 4096" by (simp add: unat_word_ariths)
      moreover have "d + 12 = a - 0xc0100000" by (simp add: d)
      ultimately show ?thesis by (simp add: in_range_def)
    qed
    then show ?thesis by (auto simp: agrees_def phys_to_virt_def KERNEL_VIRT_BASE_def vm_example_def)
  qed
  have t: "tables_of (kmem vm_example) 0x14000 = {0x14000}"
    by (auto simp: tables_of_def pd_present_def vm_example_def entry_def ld32_def)
  have nt: "0x100000 \<notin> tables_of (kmem vm_example) 0x14000" by (simp add: t)
  have al: "page_aligned 0x100000" by (simp add: page_aligned_def)
  note A = agrees_tables [OF ag al nt space_ok_tables [OF sp]]
  have "aspace_ok (vm_example\<lparr>kmem := ?m\<rparr>) 0x14000"
    using agrees_space [OF sp ag al nt] by (simp add: space_ok_def)
  moreover have f0: "frame_used (vpm vm_example) 0" "frame_used (vpm vm_example) 256"
    by (simp_all add: vm_example_def frame_used_def pmm_example_def)
  ultimately show "kernel_dir_ok (vm image_example)"
    using us by (simp add: kernel_dir_ok_def e user_space_def A(5,6))
  show "kernel_data (vm image_example) (0xc010000c + of_nat i)" if "i < 35"
  proof -
    have i: "unat (0x10000c + of_nat i :: u32) = 0x10000c + i" using that by (simp add: unat_word_ariths)
    have v: "virt_to_phys (0xc010000c + of_nat i) = 0x10000c + of_nat i" by (simp add: virt_to_phys_def KERNEL_VIRT_BASE_def)
    have d: "(0x10000c + i) div 4096 = 256" using that by simp
    then have "page_down (0x10000c + of_nat i :: u32) = 0x100000" using i by (simp add: word_unat_eq_iff unat_page_down)
    moreover have "pgno (0x10000c + of_nat i :: u32) = 256" using i d by (simp add: pgno_def)
    ultimately show ?thesis using f0 by (simp add: kernel_data_def v e A(3) t)
  qed
  have "card {1, 2, 3, 4, 5, 6, 7, 8, 9, 10, 11 :: nat} \<le> free_frames (vm image_example)"
    unfolding free_frames_def e(1)
    by (rule card_mono) (simp_all add: vm_example_def frame_used_def pmm_example_def pmm_frames_def)
  then show "11 \<le> free_frames (vm image_example)" by simp
qed

lemma image_example_segments:
  "segments (get_exe_header (kbytes image_example) 0xc010000c) 0xc010000c =
    [(5, 0x400000, 0xc010002c, 3, user_flags False), (8, 0xbfffb000, 0, 0x4000, user_flags True)]"
  "segs_size (segments (get_exe_header (kbytes image_example) 0xc010000c) 0xc010000c) + 2048 \<le> 2048 * free_frames (vm image_example)"
proof -
  have pd: "page_down 0x400000 = 0x400000" "page_down 0x401002 = 0x401000" "page_down 0xbfffb000 = 0xbfffb000" "page_down 0xbfffffff = 0xbffff000"
    by (simp_all add: page_down_def)
  show seg: "segments (get_exe_header (kbytes image_example) 0xc010000c) 0xc010000c =
      [(5, 0x400000, 0xc010002c, 3, user_flags False), (8, 0xbfffb000, 0, 0x4000, user_flags True)]"
    by (simp add: image_example_header segments_def)
  show "segs_size (segments (get_exe_header (kbytes image_example) 0xc010000c) 0xc010000c) + 2048 \<le> 2048 * free_frames (vm image_example)"
    unfolding seg using image_example_kernel(3) by (simp add: pd)
qed

lemma load_image_runs_witness:
  "\<exists>k'. load_image 0x100 0xc010000c image_example = Some (0, k')
    \<and> peek (kbytes k') (p_pd_phys (procs k' 0x100)) 0x400001 = Some 0xfe \<and> peek (kbytes k') (p_pd_phys (procs k' 0x100)) 0x400003 = Some 0
    \<and> user_access (kbytes k') (p_pd_phys (procs k' 0x100)) True 0xbfffeffc"
proof -
  let ?h = "get_exe_header (kbytes image_example) 0xc010000c"
  note H = image_example_header
  note seg = image_example_segments(1) and room = image_example_segments(2)
  have pd: "page_down 0x400000 = 0x400000" "page_down 0x401002 = 0x401000" "page_down 0xbfffb000 = 0xbfffb000" "page_down 0xbfffffff = 0xbffff000"
    by (simp_all add: page_down_def)
  have f: "file_in_kernel (vm image_example) ?h 0xc010000c"
    unfolding file_in_kernel_def seg using image_example_kernel(2) by (simp add: H)
  have hp: "heap_rep (kheap image_example) {(0xc010000c, 16)}"
    using heap_example_rep by (simp add: image_example_def user_example_def)
  have "(unat (0xc010000c :: u32), 16) \<in> {(0xc010000c :: nat, 16 :: nat)}" by simp
  from load_image_runs [OF image_example_kernel(1) f room hp this, of "0x100"] obtain k' where
    k': "load_image 0x100 0xc010000c image_example = Some (0, k')"
      "\<forall>vb < KERNEL_VIRT_BASE. peek (kbytes k') (p_pd_phys (procs k' 0x100)) vb = image_view (kbytes image_example) ?h 0xc010000c vb"
      "\<forall>seg \<in> set (data_segment ?h 0xc010000c @ zero_segments ?h). \<forall>vb. unat vb \<in> seg_pages seg \<longrightarrow> user_access (kbytes k') (p_pd_phys (procs k' 0x100)) True vb"
    unfolding Let_def by auto
  have "image_view (kbytes image_example) ?h 0xc010000c 0x400001 = Some 0xfe" "image_view (kbytes image_example) ?h 0xc010000c 0x400003 = Some 0"
    unfolding image_view_def seg by (simp_all add: H in_range_def pd) (simp add: image_example_def in_range_def file_example_def)
  moreover have "user_access (kbytes k') (p_pd_phys (procs k' 0x100)) True 0xbfffeffc"
    using k'(3) by (simp add: H zero_segments_def pd)
  ultimately show ?thesis using k'(1,2) by (auto simp: KERNEL_VIRT_BASE_def)
qed

end
