(* ===== verification/Mkexe.thy ===== *)
theory Mkexe
  imports Image
begin

text \<open>
  The host tool \<^verbatim>\<open>src/tools/mkexe.c\<close>, which turns a linked ELF file and its flat binary into the
  executable format that \<^verbatim>\<open>exec_load\<close> reads. Files are lists of bytes; an access outside of a buffer is
  \<open>None\<close>; bytes of the string table that the file does not have are uninitialised memory, \<open>junk\<close>.
\<close>

section \<open>ELF structures\<close>

record elf32_hdr =
  e_entry :: u32
  e_shoff :: u32
  e_shnum :: u16
  e_shstrndx :: u16

record elf32_shdr =
  sh_name :: u32
  sh_flags :: u32
  sh_addr :: u32
  sh_offset :: u32
  sh_size :: u32

definition file_bytes :: "u8 list \<Rightarrow> nat \<Rightarrow> bytes" where
  "file_bytes f off = (\<lambda>a. f ! (off + unat a))"

definition read_elf_hdr :: "u8 list \<Rightarrow> elf32_hdr" where
  "read_elf_hdr f = (let m = file_bytes f 0 in
     \<lparr>e_entry = ld32 m 24, e_shoff = ld32 m 32, e_shnum = ld16 m 48, e_shstrndx = ld16 m 50\<rparr>)"

definition read_elf_shdr :: "u8 list \<Rightarrow> nat \<Rightarrow> elf32_shdr" where
  "read_elf_shdr f off = (let m = file_bytes f off in
     \<lparr>sh_name = ld32 m 0, sh_flags = ld32 m 8, sh_addr = ld32 m 12, sh_offset = ld32 m 16, sh_size = ld32 m 20\<rparr>)"

text \<open>\<^verbatim>\<open>strcmp(shstrtab + sh->sh_name, s) == 0\<close>\<close>

definition section_named :: "(nat \<Rightarrow> u8) \<Rightarrow> u32 \<Rightarrow> string \<Rightarrow> bool" where
  "section_named tab n s \<longleftrightarrow> (\<forall>i \<le> length s. tab (unat n + i) = (map of_char s @ [0]) ! i)"

section \<open>The regions of the image\<close>

record elf_regions =
  lowest_addr :: u32
  data_start_addr :: u32
  data_end_addr :: u32
  data_file_size :: u32
  bss_start_addr :: u32
  bss_size :: u32
  code_region_end :: u32

definition no_regions :: elf_regions where
  "no_regions = \<lparr>lowest_addr = 0xffffffff, data_start_addr = 0xffffffff, data_end_addr = 0, data_file_size = 0,
     bss_start_addr = 0xffffffff, bss_size = 0, code_region_end = 0\<rparr>"

definition scan_section :: "(nat \<Rightarrow> u8) \<Rightarrow> elf32_shdr \<Rightarrow> elf_regions \<Rightarrow> elf_regions" where
  "scan_section tab sh r =
     (if sh_addr sh = 0 then r
      else
        (let r1 = (if sh_addr sh < lowest_addr r then r\<lparr>lowest_addr := sh_addr sh\<rparr> else r) in
         if section_named tab (sh_name sh) ''.data''
         then r1\<lparr>data_start_addr := sh_addr sh, data_end_addr := sh_addr sh + sh_size sh, data_file_size := sh_size sh\<rparr>
         else if section_named tab (sh_name sh) ''.bss''
         then r1\<lparr>bss_start_addr := sh_addr sh, bss_size := sh_size sh\<rparr>
         else if sh_flags sh AND 2 \<noteq> 0
         then (let e = sh_addr sh + sh_size sh in
               if code_region_end r1 < e then r1\<lparr>code_region_end := e\<rparr> else r1)
         else r1))"

definition section_table :: "u8 list \<Rightarrow> elf32_hdr \<Rightarrow> elf32_shdr list" where
  "section_table f eh = map (\<lambda>i. read_elf_shdr f (unat (e_shoff eh) + 40 * i)) [0..<unat (e_shnum eh)]"

definition string_table :: "(nat \<Rightarrow> u8) \<Rightarrow> u8 list \<Rightarrow> elf32_shdr \<Rightarrow> nat \<Rightarrow> u8" where
  "string_table junk f sh i =
     (let off = unat (sh_offset sh) + i in if i < unat (sh_size sh) \<and> off < length f then f ! off else junk i)"

section \<open>The output\<close>

definition code_end_addr :: "elf_regions \<Rightarrow> u32" where
  "code_end_addr r =
     (if data_start_addr r \<noteq> 0xffffffff then data_start_addr r
      else if bss_start_addr r \<noteq> 0xffffffff then bss_start_addr r else code_region_end r)"

definition image_header :: "u32 \<Rightarrow> u32 \<Rightarrow> elf_regions \<Rightarrow> exe_header" where
  "image_header entry_addr code_vaddr r =
     (let code_size = code_end_addr r - lowest_addr r;
          data_vaddr = (if data_start_addr r \<noteq> 0xffffffff then data_start_addr r else 0);
          bss_vaddr = (if bss_start_addr r \<noteq> 0xffffffff then bss_start_addr r
                       else if data_end_addr r \<noteq> 0 then data_end_addr r else 0)
      in \<lparr>ex_magic = EXE_MAGIC, ex_entry_point = entry_addr, ex_code_vaddr = code_vaddr, ex_code_size = code_size,
          ex_data_vaddr = (if data_vaddr \<noteq> 0 then code_vaddr + code_size else 0),
          ex_data_size = (if data_vaddr \<noteq> 0 then data_file_size r else 0),
          ex_bss_vaddr = (if bss_vaddr \<noteq> 0 then code_vaddr + (bss_vaddr - lowest_addr r) else 0),
          ex_bss_size = bss_size r\<rparr>)"

definition header_bytes :: "exe_header \<Rightarrow> u8 list" where
  "header_bytes h = concat (map le32 [ex_magic h, ex_entry_point h, ex_code_vaddr h, ex_code_size h,
     ex_data_vaddr h, ex_data_size h, ex_bss_vaddr h, ex_bss_size h])"

text \<open>\<^verbatim>\<open>fwrite\<close> of \<open>n\<close> bytes of the flat binary from \<open>off\<close>.\<close>

definition flat_part :: "u8 list \<Rightarrow> u32 \<Rightarrow> u32 \<Rightarrow> u8 list option" where
  "flat_part flat off n =
     (if unat off + unat n \<le> length flat then Some (take (unat n) (drop (unat off) flat)) else None)"

definition write_image :: "u32 \<Rightarrow> u32 \<Rightarrow> elf_regions \<Rightarrow> u8 list \<Rightarrow> u8 list option" where
  "write_image entry_addr code_vaddr r flat =
     (let h = image_header entry_addr code_vaddr r;
          data_vaddr = (if data_start_addr r \<noteq> 0xffffffff then data_start_addr r else 0)
      in case flat_part flat 0 (ex_code_size h) of None \<Rightarrow> None
         | Some code \<Rightarrow>
             if data_vaddr \<noteq> 0 \<and> data_file_size r \<noteq> 0
             then map_option (\<lambda>data. header_bytes h @ code @ data) (flat_part flat (data_vaddr - lowest_addr r) (data_file_size r))
             else Some (header_bytes h @ code))"

text \<open>
  \<open>elf\<close> and \<open>flat\<close> are \<open>None\<close> when the file cannot be opened, \<open>out\<close> is whether the output can,
  \<open>code_vaddr\<close> is the parsed argument.
  \<open>Inl\<close> is the exit status, \<open>Inr\<close> the file that is written.
\<close>

definition mkexe :: "(nat \<Rightarrow> u8) \<Rightarrow> u8 list option \<Rightarrow> u8 list option \<Rightarrow> u32 \<Rightarrow> bool \<Rightarrow> (nat + u8 list) option" where
  "mkexe junk elf flat code_vaddr out =
     (case elf of None \<Rightarrow> Some (Inl 1)
      | Some f \<Rightarrow>
          if length f < 52 then Some (Inl 1)
          else
            (let eh = read_elf_hdr f in
             if e_shnum eh \<noteq> 0 \<and> length f < unat (e_shoff eh) + 40 * unat (e_shnum eh) then Some (Inl 1)
             else if unat (e_shnum eh) \<le> unat (e_shstrndx eh) then None
             else
               (let shdrs = section_table f eh;
                    tab = string_table junk f (shdrs ! unat (e_shstrndx eh));
                    r = fold (scan_section tab) shdrs no_regions
                in case flat of None \<Rightarrow> Some (Inl 1)
                   | Some fl \<Rightarrow> if \<not> out then Some (Inl 1) else map_option Inr (write_image (e_entry eh) code_vaddr r fl))))"

section \<open>What the file holds\<close>

lemma length_header_bytes: "length (header_bytes h) = 32"
  by (simp add: header_bytes_def le32_def)

text \<open>The header and then one contiguous part of the flat binary.\<close>

lemma write_image_file:
  assumes "write_image e v r flat = Some file"
  defines "h \<equiv> image_header e v r"
  defines "n \<equiv> unat (ex_code_size h) + unat (ex_data_size h)"
  shows "file = header_bytes h @ take n flat" "n \<le> length flat"
proof -
  have h: "image_header e v r = h" by (simp add: h_def)
  have "file = header_bytes h @ take n flat \<and> n \<le> length flat"
  proof (cases "data_start_addr r \<noteq> 0xffffffff \<and> data_start_addr r \<noteq> 0 \<and> data_file_size r \<noteq> 0")
    case True
    then have c: "ex_code_size h = data_start_addr r - lowest_addr r" "ex_data_size h = data_file_size r"
      by (simp_all add: h_def image_header_def Let_def code_end_addr_def)
    have "file = header_bytes h @ take (unat (ex_code_size h)) flat @ take (unat (ex_data_size h)) (drop (unat (ex_code_size h)) flat)"
      "n \<le> length flat"
      using assms(1) True unfolding write_image_def h
      by (auto simp: Let_def flat_part_def c n_def split: if_splits)
    then show ?thesis by (simp add: n_def take_add)
  next
    case False
    then have c: "ex_data_size h = 0"
      by (auto simp: h_def image_header_def Let_def)
    show ?thesis using assms(1) False unfolding write_image_def h
      by (auto simp: Let_def flat_part_def c n_def split: if_splits)
  qed
  then show "file = header_bytes h @ take n flat" "n \<le> length flat" by blast+
qed

lemma ld32_le32: "(\<And>j. j < 4 \<Longrightarrow> m (a + of_nat j) = le32 v ! j) \<Longrightarrow> ld32 m a = v"
proof -
  assume j: "\<And>j. j < 4 \<Longrightarrow> m (a + of_nat j) = le32 v ! j"
  have "ld32 m a = ld32 (st32 a v m) a"
    using j [of 0] j [of 1] j [of 2] j [of 3] by (intro ld32_cong) (auto simp: st32_def le32_def)
  then show ?thesis by (simp add: ld32_st32)
qed

lemma header_bytes_read:
  assumes "\<And>i. i < 32 \<Longrightarrow> m (buf + of_nat i) = header_bytes h ! i"
  shows "get_exe_header m buf = h"
proof -
  have w: "ld32 m (buf + of_nat (4 * k)) = [ex_magic h, ex_entry_point h, ex_code_vaddr h, ex_code_size h,
     ex_data_vaddr h, ex_data_size h, ex_bss_vaddr h, ex_bss_size h] ! k" if "k < 8" for k
  proof (rule ld32_le32)
    fix j :: nat assume "j < 4"
    then have "m (buf + of_nat (4 * k + j)) = header_bytes h ! (4 * k + j)" using that by (intro assms) simp
    moreover have "k \<in> {0, 1, 2, 3, 4, 5, 6, 7}" "j \<in> {0, 1, 2, 3}" using that \<open>j < 4\<close> by auto
    then have "header_bytes h ! (4 * k + j) = le32 ([ex_magic h, ex_entry_point h, ex_code_vaddr h, ex_code_size h,
       ex_data_vaddr h, ex_data_size h, ex_bss_vaddr h, ex_bss_size h] ! k) ! j"
      by (auto simp: header_bytes_def le32_def)
    ultimately show "m (buf + of_nat (4 * k) + of_nat j) = le32 ([ex_magic h, ex_entry_point h, ex_code_vaddr h, ex_code_size h,
       ex_data_vaddr h, ex_data_size h, ex_bss_vaddr h, ex_bss_size h] ! k) ! j" by (simp add: add.assoc)
  qed
  from w [of 0] w [of 1] w [of 2] w [of 3] w [of 4] w [of 5] w [of 6] w [of 7]
  show ?thesis by (simp add: get_exe_header_def)
qed

lemma mkexe_file:
  assumes "mkexe junk (Some elf) (Some flat) v out = Some (Inr file)"
  shows "\<exists>h. ex_magic h = EXE_MAGIC \<and> ex_entry_point h = e_entry (read_elf_hdr elf) \<and> ex_code_vaddr h = v
    \<and> (ex_data_size h \<noteq> 0 \<longrightarrow> ex_data_vaddr h = v + ex_code_size h)
    \<and> file = header_bytes h @ take (unat (ex_code_size h) + unat (ex_data_size h)) flat
    \<and> unat (ex_code_size h) + unat (ex_data_size h) \<le> length flat"
proof -
  from assms obtain r where r: "write_image (e_entry (read_elf_hdr elf)) v r flat = Some file"
    by (auto simp: mkexe_def Let_def split: if_splits)
  note W = write_image_file [OF r]
  show ?thesis
    using W by (intro exI [of _ "image_header (e_entry (read_elf_hdr elf)) v r"]) (auto simp: image_header_def Let_def)
qed

text \<open>The loaded image is the flat binary.\<close>

lemma image_view_flat:
  assumes fb: "\<And>i. i < length flat \<Longrightarrow> i < unat (ex_code_size h) + unat (ex_data_size h) \<Longrightarrow> m (buf + 32 + of_nat i) = flat ! i"
    and len: "unat (ex_code_size h) + unat (ex_data_size h) \<le> length flat"
    and data: "ex_data_size h \<noteq> 0 \<longrightarrow> ex_data_vaddr h = ex_code_vaddr h + ex_code_size h"
    and fit: "unat (ex_code_size h) + unat (ex_data_size h) < 2 ^ 32"
    and off: "off < unat (ex_code_size h) + unat (ex_data_size h)"
  shows "image_view m h buf (ex_code_vaddr h + of_nat off) = Some (flat ! off)"
proof -
  have b: "m (buf + 32 + of_nat off) = flat ! off" using fb len off by simp
  have o: "unat (of_nat off :: u32) = off" using off fit by simp
  show ?thesis
  proof (cases "off < unat (ex_code_size h)")
    case True
    have "\<not> in_range (ex_code_vaddr h + of_nat off) (ex_data_vaddr h) (unat (ex_data_size h))"
    proof (cases "ex_data_size h = 0")
      case False
      have "unat (of_nat off - ex_code_size h) = 2 ^ 32 + off - unat (ex_code_size h)"
        using True o by (simp add: unat_sub_if_size word_size)
      then show ?thesis using data False fit by (simp add: in_range_def)
    qed simp
    moreover have "in_range (ex_code_vaddr h + of_nat off) (ex_code_vaddr h) (unat (ex_code_size h))"
      using True o by (simp add: in_range_def)
    ultimately show ?thesis using b by (simp add: image_view_def)
  next
    case False
    then have d: "ex_data_vaddr h = ex_code_vaddr h + ex_code_size h" using data off by (cases "ex_data_size h = 0") auto
    have "unat (of_nat off - ex_code_size h) = off - unat (ex_code_size h)"
      using False o by (simp add: unat_sub_if_size)
    then have "in_range (ex_code_vaddr h + of_nat off) (ex_data_vaddr h) (unat (ex_data_size h))"
      using False off by (simp add: in_range_def d)
    then show ?thesis using b by (simp add: image_view_def d add.assoc)
  qed
qed


text \<open>An ELF file with the names of the sections and a section of three bytes of code.\<close>

definition elf_example :: "u8 list" where
  "elf_example =
    [0, 0, 0, 0, 0, 0, 0, 0, 0, 0, 0, 0, 0, 0, 0, 0, 2, 0, 3, 0, 1, 0, 0, 0, 0, 0, 64, 0, 0, 0, 0, 0, 52, 0,
    0, 0, 0, 0, 0, 0, 52, 0, 0, 0, 0, 0, 40, 0, 2, 0, 0, 0, 0, 0, 0, 0, 3, 0, 0, 0, 0, 0, 0, 0, 0, 0, 0, 0,
    132, 0, 0, 0, 7, 0, 0, 0, 0, 0, 0, 0, 0, 0, 0, 0, 0, 0, 0, 0, 0, 0, 0, 0, 1, 0, 0, 0, 1, 0, 0, 0, 6, 0, 0,
    0, 0, 0, 64, 0, 0, 0, 0, 0, 3, 0, 0, 0, 0, 0, 0, 0, 0, 0, 0, 0, 0, 0, 0, 0, 0, 0, 0, 0, 0, 46, 116, 101,
    120, 116, 0]"

lemma mkexe_example: "mkexe (\<lambda>_. 0) (Some elf_example) (Some [0xeb, 0xfe, 0x90]) 0x400000 True = Some (Inr file_example)"
proof -
  have h: "read_elf_hdr elf_example = \<lparr>e_entry = 0x400000, e_shoff = 52, e_shnum = 2, e_shstrndx = 0\<rparr>"
    by (simp add: read_elf_hdr_def Let_def ld32_def ld16_def file_bytes_def elf_example_def)
  have l: "length elf_example = 139" by (simp add: elf_example_def)
  have t: "section_table elf_example (read_elf_hdr elf_example) =
      [\<lparr>sh_name = 0, sh_flags = 0, sh_addr = 0, sh_offset = 132, sh_size = 7\<rparr>,
       \<lparr>sh_name = 1, sh_flags = 6, sh_addr = 0x400000, sh_offset = 0, sh_size = 3\<rparr>]"
    unfolding h by (simp add: section_table_def read_elf_shdr_def Let_def ld32_def file_bytes_def elf_example_def upt_rec)
  have s: "\<not> section_named tab 1 ''.data'' \<and> \<not> section_named tab 1 ''.bss''"
    if "tab = string_table (\<lambda>_. 0) elf_example \<lparr>sh_name = 0, sh_flags = 0, sh_addr = 0, sh_offset = 132, sh_size = 7\<rparr>" for tab
  proof -
    have "tab 2 = 116" by (simp add: that string_table_def Let_def l) (simp add: elf_example_def)
    then have "tab (Suc (Suc 0)) = 116" by (simp only: numeral_2_eq_2)
    then show ?thesis by (auto simp: section_named_def intro!: exI [of _ 1])
  qed
  show ?thesis
    using s [OF refl] l
    by (simp add: mkexe_def Let_def t) (simp add: h scan_section_def no_regions_def write_image_def image_header_def
      Let_def code_end_addr_def flat_part_def header_bytes_def le32_def file_example_def)
qed


end
