(* ===== verification/Sbrk.thy ===== *)
theory Sbrk
  imports Sys_User
begin

text \<open>
  The heap of a process: what \<^verbatim>\<open>SYS_SBRK\<close> of \<^verbatim>\<open>src/src/userspace/syscalls.c\<close> does to the address space
  when the break grows.
\<close>

section \<open>Pages that are added\<close>

abbreviation HEAP_FLAGS :: u32 where "HEAP_FLAGS \<equiv> PAGE_PRESENT OR PAGE_RW OR PAGE_USER"

text \<open>On a page that is not there yet the loop does what \<^verbatim>\<open>map_and_copy\<close> does.\<close>

lemma grow_loop_page:
  assumes "va < hi" "\<not> mapped (kmem s) pd va" "page_frame pd va HEAP_FLAGS s = Some (True, f, s')"
  shows "grow_loop pd va hi s = grow_loop pd (va + PAGE_SIZE) hi s'"
proof -
  have "paging_walk pd va (kmem s) = None" using assms(2) by (simp add: paging_walk_leaf)
  with assms(1,3) show ?thesis
    by (subst grow_loop.simps) (auto simp: page_frame_def split: option.splits if_splits prod.splits)
qed

text \<open>Growing is loading a segment without source: \<open>loaded\<close> then says that the pages are zero.\<close>

lemma grow_loop_loads:
  assumes "loaded pd v 0 0 HEAP_FLAGS a (unat va) s s1" "unat v \<le> 0xc0000000"
    and "page_aligned va" "unat (page_down v) \<le> unat va" "unat hi = unat va + 4096 * k" "unat hi \<le> 0xc0000000" "a \<le> unat va"
    and "\<forall>vb. unat va \<le> unat vb \<and> unat vb < unat hi \<longrightarrow> \<not> mapped (kmem s) pd vb"
    and "frame_used (vpm s1) 0" "2 * k \<le> free_frames s1"
  shows "\<exists>s'. grow_loop pd va hi s1 = Some s' \<and> loaded pd v 0 0 HEAP_FLAGS a (unat hi) s s'
    \<and> frame_used (vpm s') 0 \<and> free_frames s1 \<le> free_frames s' + 2 * k"
  using assms
proof (induction k arbitrary: va s1)
  case 0
  then have "hi = va" by (simp add: word_unat_eq_iff)
  then show ?case using 0 by (subst grow_loop.simps) auto
next
  case (Suc k)
  have lt: "va < hi" "va < KERNEL_VIRT_BASE"
    using Suc.prems(5,6) by (simp_all add: word_less_nat_alt KERNEL_VIRT_BASE_def)
  have va4: "unat (va + PAGE_SIZE) = unat va + 4096"
    using lt(2) by (simp add: word_less_nat_alt unat_word_ariths KERNEL_VIRT_BASE_def)
  have "\<not> mapped (kmem s) pd va" using Suc.prems(8) lt(1) by (simp add: word_less_nat_alt)
  then have nm: "\<not> mapped (kmem s1) pd va" using Suc.prems(1) by (simp add: loaded_def)
  have us: "user_space s1 pd" using Suc.prems(1) by (simp add: loaded_def)
  have f2: "2 \<le> free_frames s1" using Suc.prems(10) by simp
  from page_frame_fresh [OF us lt(2) nm Suc.prems(9) f2, of HEAP_FLAGS] obtain f s2 where
    pf: "page_frame pd va HEAP_FLAGS s1 = Some (True, f, s2)" "page_ready pd va HEAP_FLAGS f s1 s2"
      "free_frames s1 \<le> free_frames s2 + 2" "frame_used (vpm s2) 0" by blast
  have fit: "unat v + unat (0 :: u32) \<le> 0xc0000000" using Suc.prems(2) by simp
  have c: "unat (0 :: u32) = copied_at v 0 va" by (simp add: copied_at_def)
  have so: "source_ok s pd 0 0" by (simp add: source_ok_def)
  have ld: "loaded pd v 0 0 HEAP_FLAGS a (unat va + 4096) s s2"
    using loaded_step [OF Suc.prems(1) pf(2) fit Suc.prems(3,4) lt(2) Suc.prems(7) c so] by simp
  have "\<exists>s'. grow_loop pd (va + PAGE_SIZE) hi s2 = Some s' \<and> loaded pd v 0 0 HEAP_FLAGS a (unat hi) s s'
    \<and> frame_used (vpm s') 0 \<and> free_frames s2 \<le> free_frames s' + 2 * k"
  proof (rule Suc.IH)
    show "loaded pd v 0 0 HEAP_FLAGS a (unat (va + PAGE_SIZE)) s s2" using ld by (simp add: va4)
    show "page_aligned (va + PAGE_SIZE)" using Suc.prems(3) va4 by (simp add: page_aligned_def)
    show "unat (page_down v) \<le> unat (va + PAGE_SIZE)" "a \<le> unat (va + PAGE_SIZE)" using Suc.prems(4,7) va4 by simp_all
    show "unat hi = unat (va + PAGE_SIZE) + 4096 * k" using Suc.prems(5) va4 by simp
    show "\<forall>vb. unat (va + PAGE_SIZE) \<le> unat vb \<and> unat vb < unat hi \<longrightarrow> \<not> mapped (kmem s) pd vb" using Suc.prems(8) va4 by simp
    show "2 * k \<le> free_frames s2" using Suc.prems(10) pf(3) by simp
  qed (use Suc.prems(2,6) pf(4) in simp_all)
  then show ?case using grow_loop_page [OF lt(1) nm pf(1)] pf(3) by auto
qed

section \<open>The break\<close>

text \<open>
  The heap of the current process: its pages are accessible up to the break and free above it, and
  memory suffices for all of it (a page may need a frame and a table).
\<close>

definition heap_room :: "kernel \<Rightarrow> bool" where
  "heap_room k \<longleftrightarrow>
     (let x = current k; e = unat (page_up (p_heap_break x)) in
      user_loaded k \<and> frame_used (vpm (vm k)) 0 \<and> page_aligned (p_heap_max x) \<and> unat (p_heap_max x) \<le> 0xc0000000
      \<and> 4 \<le> unat (p_heap_start x) \<and> p_heap_start x \<le> p_heap_break x \<and> p_heap_break x \<le> p_heap_max x
      \<and> unat (p_heap_max x) \<le> e + 2048 * free_frames (vm k)
      \<and> (\<forall>va. unat (p_heap_start x) \<le> unat va \<and> unat va < e \<longrightarrow> may_access k True va)
      \<and> (\<forall>va. e \<le> unat va \<and> unat va < unat (p_heap_max x) \<longrightarrow> \<not> mapped (kbytes k) (cur_pd k) va))"

lemma page_up_down: "page_up a = page_down (a + 0xfff)"
  by (simp add: page_up_def page_down_def)

lemma unat_page_up: "unat a \<le> 0xc0000000 \<Longrightarrow> unat (page_up a) = 4096 * ((unat a + 4095) div 4096)"
  using segment_end(1) [of a 0] by (simp add: page_up_down)

lemma page_up_mono: "unat a \<le> unat b \<Longrightarrow> unat b \<le> 0xc0000000 \<Longrightarrow> unat (page_up a) \<le> unat (page_up b)"
  by (simp add: unat_page_up div_le_mono)

lemma page_up_max:
  assumes "page_aligned m" "unat b \<le> unat m" "unat m \<le> 0xc0000000"
  shows "unat (page_up b) \<le> unat m" "unat b \<le> unat (page_up b)"
proof -
  obtain k where k: "unat m = 4096 * k" using assms(1) by (rule page_alignedE)
  have b: "unat b \<le> 0xc0000000" using assms(2,3) by simp
  have "(unat b + 4095) div 4096 \<le> (4096 * k + 4095) div 4096" using assms(2) k by (intro div_le_mono) simp
  also have "\<dots> = k" by simp
  finally show "unat (page_up b) \<le> unat m" unfolding unat_page_up [OF b] k by simp
  show "unat b \<le> unat (page_up b)" unfolding unat_page_up [OF b] by linarith
qed

lemma upd_current_break [simp]:
  "current (upd_current f k) = f (current k)" "vm (upd_current f k) = vm k"
  by (simp_all add: upd_current_def upd_proc_def current_def)

text \<open>The new bytes are zero, the old ones and everything else are as before.\<close>

definition heap_grown :: "kernel \<Rightarrow> nat \<Rightarrow> nat \<Rightarrow> kernel \<Rightarrow> bool" where
  "heap_grown k a e k' \<longleftrightarrow> (\<forall>va < KERNEL_VIRT_BASE. peek (kbytes k') (cur_pd k) va =
     (if a \<le> unat va \<and> unat va < e then Some 0 else peek (kbytes k) (cur_pd k) va))"

lemma grow_break:
  assumes room: "heap_room k" and fit: "unat (p_heap_break (current k)) + unat n \<le> unat (p_heap_max (current k))"
  defines "old \<equiv> p_heap_break (current k)"
  defines "a \<equiv> page_up old" and "e \<equiv> page_up (old + n)"
  shows "\<exists>v. (if a < e then grow_loop (cur_pd k) a e (vm k) else Some (vm k)) = Some v \<and> unat a \<le> unat e
    \<and> loaded (cur_pd k) a 0 0 HEAP_FLAGS (unat a) (unat e) (vm k) v \<and> frame_used (vpm v) 0
    \<and> unat e + 2048 * free_frames (vm k) \<le> unat e + 2048 * free_frames v + (unat e - unat a)"
proof -
  let ?x = "current k"
  have R: "user_loaded k" "frame_used (vpm (vm k)) 0" "page_aligned (p_heap_max ?x)" "unat (p_heap_max ?x) \<le> 0xc0000000"
    "unat (p_heap_max ?x) \<le> unat a + 2048 * free_frames (vm k)"
    "\<And>va. unat a \<le> unat va \<Longrightarrow> unat va < unat (p_heap_max ?x) \<Longrightarrow> \<not> mapped (kbytes k) (cur_pd k) va"
    using room by (simp_all add: heap_room_def Let_def a_def old_def)
  have us: "user_space (vm k) (cur_pd k)" using R(1) by (simp add: user_loaded_def)
  have nb: "unat (old + n) = unat old + unat n"
    using fit R(4) by (subst unat_add_lem [THEN iffD1]) (simp_all add: old_def)
  have lim: "unat old \<le> 0xc0000000" "unat (old + n) \<le> 0xc0000000" "unat (old + n) \<le> unat (p_heap_max ?x)"
    using fit R(4) nb by (simp_all add: old_def)
  have ae: "unat a \<le> unat e" unfolding a_def e_def by (rule page_up_mono) (use nb lim in simp_all)
  have em: "unat e \<le> unat (p_heap_max ?x)" unfolding e_def by (rule page_up_max [OF R(3) lim(3) R(4)])
  note ua = unat_page_up [OF lim(1), folded a_def] and ue = unat_page_up [OF lim(2), folded e_def]
  obtain i j where ij: "unat a = 4096 * i" "unat e = 4096 * j" using ua ue by blast
  then obtain c where c: "unat e = unat a + 4096 * c" using ae le_Suc_ex [of i j] by auto
  have al: "page_aligned a" by (simp add: a_def page_up_down)
  have pd: "page_down a = a" using al by (rule page_down_id)
  show ?thesis
  proof (cases "a < e")
    case False
    then have "unat a = unat e" using ae by (simp add: word_less_nat_alt)
    then show ?thesis using False loaded_refl [OF us] R(2) by auto
  next
    case True
    have "\<exists>s'. grow_loop (cur_pd k) a e (vm k) = Some s' \<and> loaded (cur_pd k) a 0 0 HEAP_FLAGS (unat a) (unat e) (vm k) s'
      \<and> frame_used (vpm s') 0 \<and> free_frames (vm k) \<le> free_frames s' + 2 * c"
    proof (rule grow_loop_loads)
      show "loaded (cur_pd k) a 0 0 HEAP_FLAGS (unat a) (unat a) (vm k) (vm k)" by (rule loaded_refl [OF us])
      show "unat a \<le> 0xc0000000" "unat e \<le> 0xc0000000" using ae em R(4) by simp_all
      show "\<forall>vb. unat a \<le> unat vb \<and> unat vb < unat e \<longrightarrow> \<not> mapped (kbytes k) (cur_pd k) vb" using R(6) em by simp
      show "2 * c \<le> free_frames (vm k)" using R(5) em c by simp
    qed (simp_all add: al pd c R(2))
    then show ?thesis using True ae c by auto
  qed
qed

lemma heap_room_D:
  assumes "heap_room k"
  shows "user_loaded k" "4 \<le> unat (p_heap_start (current k))" "p_heap_start (current k) \<le> p_heap_break (current k)"
    "p_heap_break (current k) \<le> p_heap_max (current k)" "unat (p_heap_max (current k)) \<le> 0xc0000000"
    "unat (p_heap_start (current k)) \<le> unat va \<Longrightarrow> unat va < unat (p_heap_break (current k)) \<Longrightarrow> may_access k True va"
proof -
  note R = assms [unfolded heap_room_def Let_def]
  show "user_loaded k" "4 \<le> unat (p_heap_start (current k))" "p_heap_start (current k) \<le> p_heap_break (current k)"
    "p_heap_break (current k) \<le> p_heap_max (current k)" "unat (p_heap_max (current k)) \<le> 0xc0000000"
    using R by simp_all
  have "unat (p_heap_break (current k)) \<le> unat (page_up (p_heap_break (current k)))"
    using R by (intro page_up_max(2) [of "p_heap_max (current k)"]) (simp_all add: word_le_nat_alt)
  then show "unat (p_heap_start (current k)) \<le> unat va \<Longrightarrow> unat va < unat (p_heap_break (current k)) \<Longrightarrow> may_access k True va"
    using R by simp
qed

lemma sys_sbrk_up:
  assumes room: "heap_room k" and fit: "unat (p_heap_break (current k)) + unat (r_ebx r) \<le> unat (p_heap_max (current k))"
  defines "old \<equiv> p_heap_break (current k)"
  shows "\<exists>k'. sys_sbrk r k = Some (Sys_done old, k') \<and> heap_room k'
    \<and> heap_grown k (unat (page_up old)) (unat (page_up (old + r_ebx r))) k'
    \<and> current k' = (current k)\<lparr>p_heap_break := old + r_ebx r\<rparr>"
proof -
  let ?x = "current k" and ?n = "r_ebx r"
  let ?a = "page_up old" and ?e = "page_up (old + ?n)"
  from grow_break [OF room fit, folded old_def] obtain v where
    v: "(if ?a < ?e then grow_loop (cur_pd k) ?a ?e (vm k) else Some (vm k)) = Some v" "unat ?a \<le> unat ?e"
      "loaded (cur_pd k) ?a 0 0 HEAP_FLAGS (unat ?a) (unat ?e) (vm k) v" "frame_used (vpm v) 0"
      "unat ?e + 2048 * free_frames (vm k) \<le> unat ?e + 2048 * free_frames v + (unat ?e - unat ?a)" by blast
  note D = heap_room_D [OF room]
  have mx: "unat (p_heap_max ?x) \<le> 0xc0000000" by (rule D)
  have nb: "unat (old + ?n) = unat old + unat ?n"
    using fit mx by (subst unat_add_lem [THEN iffD1]) (simp_all add: old_def)
  have rng: "\<not> old + ?n < p_heap_start ?x" "\<not> p_heap_max ?x < old + ?n"
    using D(3) fit nb by (simp_all add: word_less_nat_alt word_le_nat_alt old_def)
  obtain k' where k': "k' = upd_current (\<lambda>x. x\<lparr>p_heap_break := old + ?n\<rparr>) (k\<lparr>vm := v\<rparr>)" by blast
  have call: "sys_sbrk r k = Some (Sys_done old, k')"
    using v(1,2) rng unfolding sys_sbrk_def Let_def k' old_def [symmetric]
    by (auto simp: sys_ok_def word_less_nat_alt split: if_splits)
  have cur: "current k' = ?x\<lparr>p_heap_break := old + ?n\<rparr>" "vm k' = v" by (simp_all add: k')
  note L = v(3) [unfolded loaded_def]
  have R: "page_aligned (p_heap_max ?x)" "unat (p_heap_max ?x) \<le> unat ?a + 2048 * free_frames (vm k)"
    "\<forall>va. unat (p_heap_start ?x) \<le> unat va \<and> unat va < unat ?a \<longrightarrow> may_access k True va"
    "\<forall>va. unat ?a \<le> unat va \<and> unat va < unat (p_heap_max ?x) \<longrightarrow> \<not> mapped (kbytes k) (cur_pd k) va" "cr3 (vm k) = cur_pd k"
    using room by (simp_all add: heap_room_def Let_def old_def user_loaded_def)
  have em: "unat ?e \<le> unat (p_heap_max ?x)"
    using R(1) mx nb fit by (intro page_up_max(1)) (simp_all add: old_def)
  have "\<not> mapped (kbytes k) (cur_pd k) va" if "unat ?a \<le> unat va" "unat va < unat ?e" for va using R(4) that em by simp
  then have "heap_grown k (unat ?a) (unat ?e) k'"
    using L by (auto simp: heap_grown_def cur segment_byte_def)
  moreover have "heap_room k'"
  proof -
    have "unat (p_heap_max ?x) \<le> unat ?e + 2048 * free_frames v" using R(2) v(2,5) by linarith
    moreover have "user_access (kmem v) (cur_pd k) True va" if h: "unat (p_heap_start ?x) \<le> unat va" "unat va < unat ?e" for va
    proof (cases "unat va < unat ?a")
      case True
      then have "may_access k True va" "\<not> (unat ?a \<le> unat va \<and> unat va < unat ?e)" using R(3) h by simp_all
      then show ?thesis using L by blast
    next
      case False
      have "(bit HEAP_FLAGS 1 \<or> (\<forall>vb. unat ?a \<le> unat vb \<and> unat vb < unat ?e \<longrightarrow> \<not> mapped (kbytes k) (cur_pd k) vb)) \<and> bit HEAP_FLAGS 2"
        by simp
      then have "user_access (kmem v) (cur_pd k) (bit HEAP_FLAGS 1) va" using L h False by (meson not_le)
      then show ?thesis by simp
    qed
    moreover have "\<not> mapped (kmem v) (cur_pd k) va" if "unat ?e \<le> unat va" "unat va < unat (p_heap_max ?x)" for va
      using L R(4) that v(2) by auto
    moreover have "user_loaded k'" using L R(5) by (simp add: user_loaded_def cur)
    ultimately show ?thesis
      using v(4) R(1) mx D(2) rng by (simp add: heap_room_def Let_def cur not_less)
  qed
  ultimately show ?thesis using call cur(1) by blast
qed

lemma sys_sbrk_full:
  assumes "heap_room k" "unat (p_heap_break (current k)) + unat (r_ebx r) < 2 ^ 32"
    "unat (p_heap_max (current k)) < unat (p_heap_break (current k)) + unat (r_ebx r)"
  shows "sys_sbrk r k = Some (Sys_done (- 1), k)"
proof -
  have "unat (p_heap_break (current k) + r_ebx r) = unat (p_heap_break (current k)) + unat (r_ebx r)"
    using assms(2) by (subst unat_add_lem [THEN iffD1]) simp_all
  then show ?thesis using assms(3) by (simp add: sys_sbrk_def Let_def sys_ok_def word_less_nat_alt)
qed

section \<open>Properties\<close>


text \<open>The example process with a heap of up to two pages at 0x401000.\<close>

definition sbrk_example :: kernel where
  "sbrk_example = upd_current (\<lambda>x. x\<lparr>p_heap_start := 0x401000, p_heap_break := 0x401000, p_heap_max := 0x403000\<rparr>) user_example"

lemma user_example_frames: "frame_used (vpm (vm user_example)) 0" "4 \<le> free_frames (vm user_example)"
proof -
  have "card {40, 41, 42, 43, 44, 45 :: nat} \<le> free_frames loader_example"
    unfolding free_frames_def
    by (rule card_mono) (simp_all add: loader_example_def vm_example_def frame_used_def pmm_example_def pmm_frames_def)
  then have six: "6 \<le> free_frames loader_example" by simp
  have src: "source_ok loader_example 0x14000 0xc0000100 2"
    using loader_example_space(2) by (simp add: source_ok_def)
  have pd: "page_down 0x400000 = 0x400000" "page_down 0x401001 = 0x401000" by (simp_all add: page_down_def)
  have "\<exists>s'. map_and_copy 0x14000 0x400000 0xc0000100 2 7 loader_example = Some (0, s') \<and> frame_used (vpm s') 0
    \<and> 2048 * free_frames loader_example + 0x400000 \<le> 2048 * free_frames s' + 0x401000"
    using map_and_copy_ok [OF loader_example_space(1) _ src loader_example_frames(1), of "0x400000" 7] six by (auto simp: pd)
  then show "frame_used (vpm (vm user_example)) 0" "4 \<le> free_frames (vm user_example)"
    using six by (auto simp: user_example_def)
qed

lemma sbrk_example_room: "heap_room sbrk_example"
proof -
  have pu: "page_up 0x401000 = 0x401000" by (simp add: page_up_def)
  have c: "current sbrk_example = (current user_example)\<lparr>p_heap_start := 0x401000, p_heap_break := 0x401000, p_heap_max := 0x403000\<rparr>"
    "vm sbrk_example = vm user_example" by (simp_all add: sbrk_example_def)
  have L: "user_loaded sbrk_example" using user_example_mem(1) by (simp add: user_loaded_def c)
  have "\<not> mapped (kbytes user_example) 0x14000 va" if "0x401000 \<le> unat va" "unat va < 0x403000" for va
  proof -
    have "peek (kbytes user_example) 0x14000 va = None"
      using user_example_mem(4) [of va] that by (simp add: KERNEL_VIRT_BASE_def word_less_nat_alt)
    then show ?thesis by (simp add: peek_def split: if_splits)
  qed
  then show ?thesis
    using L user_example_frames user_example_mem(2) by (auto simp: heap_room_def Let_def c pu page_aligned_def)
qed


end
