(* ===== verification/Libc_Calls.thy ===== *)
theory Libc_Calls
  imports Sbrk
begin

text \<open>
  The system calls of the C library: \<^verbatim>\<open>src/src/libc/unistd.c\<close>, \<^verbatim>\<open>syscall.c\<close>, \<^verbatim>\<open>stat.c\<close> and \<^verbatim>\<open>time.c\<close>.
  Each function puts its number and arguments into registers and raises interrupt 128; the result is
  the one of the call, or what remains of it when it gives up the processor.
\<close>

section \<open>The functions\<close>

text \<open>\<^verbatim>\<open>int $0x80\<close> with the registers \<open>r\<close>; the scan code and \<^verbatim>\<open>cr2\<close> play no part in a system call.\<close>

definition int80 :: "env \<Rightarrow> registers \<Rightarrow> kernel \<Rightarrow> (sys_result \<times> kernel) option" where
  "int80 e r k =
     (case isr_handler e 0 0 (r\<lparr>r_int_no := 128\<rparr>) k of None \<Rightarrow> None
      | Some (res, k1) \<Rightarrow> map_option (\<lambda>x. (x, k1)) res)"

text \<open>The registers that a function does not set keep what they held, \<open>r\<close>.\<close>

definition u_yield_hlt :: "env \<Rightarrow> registers \<Rightarrow> kernel \<Rightarrow> (sys_result \<times> kernel) option" where
  "u_yield_hlt e r k = int80 e (r\<lparr>r_eax := 2\<rparr>) k"

definition u_print :: "env \<Rightarrow> registers \<Rightarrow> u32 \<Rightarrow> kernel \<Rightarrow> (sys_result \<times> kernel) option" where
  "u_print e r msg k = int80 e (r\<lparr>r_eax := 3, r_ebx := msg\<rparr>) k"

definition u_open :: "env \<Rightarrow> registers \<Rightarrow> u32 \<Rightarrow> u32 \<Rightarrow> kernel \<Rightarrow> (sys_result \<times> kernel) option" where
  "u_open e r path writable k = int80 e (r\<lparr>r_eax := 6, r_ebx := path, r_ecx := writable\<rparr>) k"

definition u_close :: "env \<Rightarrow> registers \<Rightarrow> u32 \<Rightarrow> kernel \<Rightarrow> (sys_result \<times> kernel) option" where
  "u_close e r fd k = int80 e (r\<lparr>r_eax := 7, r_ebx := fd\<rparr>) k"

definition u_read :: "env \<Rightarrow> registers \<Rightarrow> u32 \<Rightarrow> u32 \<Rightarrow> u32 \<Rightarrow> kernel \<Rightarrow> (sys_result \<times> kernel) option" where
  "u_read e r fd buf len k = int80 e (r\<lparr>r_eax := 8, r_ebx := fd, r_ecx := buf, r_edx := len\<rparr>) k"

definition u_write :: "env \<Rightarrow> registers \<Rightarrow> u32 \<Rightarrow> u32 \<Rightarrow> u32 \<Rightarrow> kernel \<Rightarrow> (sys_result \<times> kernel) option" where
  "u_write e r fd buf len k = int80 e (r\<lparr>r_eax := 9, r_ebx := fd, r_ecx := buf, r_edx := len\<rparr>) k"

definition u_unlink :: "env \<Rightarrow> registers \<Rightarrow> u32 \<Rightarrow> kernel \<Rightarrow> (sys_result \<times> kernel) option" where
  "u_unlink e r path k = int80 e (r\<lparr>r_eax := 11, r_ebx := path\<rparr>) k"

definition u_mkdir :: "env \<Rightarrow> registers \<Rightarrow> u32 \<Rightarrow> kernel \<Rightarrow> (sys_result \<times> kernel) option" where
  "u_mkdir e r path k = int80 e (r\<lparr>r_eax := 12, r_ebx := path\<rparr>) k"

definition u_rmdir :: "env \<Rightarrow> registers \<Rightarrow> u32 \<Rightarrow> kernel \<Rightarrow> (sys_result \<times> kernel) option" where
  "u_rmdir e r path k = int80 e (r\<lparr>r_eax := 13, r_ebx := path\<rparr>) k"

definition u_opendir :: "env \<Rightarrow> registers \<Rightarrow> u32 \<Rightarrow> kernel \<Rightarrow> (sys_result \<times> kernel) option" where
  "u_opendir e r path k = int80 e (r\<lparr>r_eax := 14, r_ebx := path\<rparr>) k"

definition u_readdir :: "env \<Rightarrow> registers \<Rightarrow> u32 \<Rightarrow> u32 \<Rightarrow> kernel \<Rightarrow> (sys_result \<times> kernel) option" where
  "u_readdir e r fd out k = int80 e (r\<lparr>r_eax := 15, r_ebx := fd, r_ecx := out\<rparr>) k"

definition u_closedir :: "env \<Rightarrow> registers \<Rightarrow> u32 \<Rightarrow> kernel \<Rightarrow> (sys_result \<times> kernel) option" where
  "u_closedir e r fd k = int80 e (r\<lparr>r_eax := 16, r_ebx := fd\<rparr>) k"

definition u_chdir :: "env \<Rightarrow> registers \<Rightarrow> u32 \<Rightarrow> kernel \<Rightarrow> (sys_result \<times> kernel) option" where
  "u_chdir e r path k = int80 e (r\<lparr>r_eax := 25, r_ebx := path\<rparr>) k"

definition u_getcwd :: "env \<Rightarrow> registers \<Rightarrow> u32 \<Rightarrow> u32 \<Rightarrow> kernel \<Rightarrow> (sys_result \<times> kernel) option" where
  "u_getcwd e r buf len k = int80 e (r\<lparr>r_eax := 26, r_ebx := buf, r_ecx := len\<rparr>) k"

definition u_spawn :: "env \<Rightarrow> registers \<Rightarrow> u32 \<Rightarrow> u32 \<Rightarrow> u32 \<Rightarrow> kernel \<Rightarrow> (sys_result \<times> kernel) option" where
  "u_spawn e r path argc argv k = int80 e (r\<lparr>r_eax := 17, r_ebx := path, r_ecx := argc, r_edx := argv\<rparr>) k"

definition u_kill :: "env \<Rightarrow> registers \<Rightarrow> u32 \<Rightarrow> kernel \<Rightarrow> (sys_result \<times> kernel) option" where
  "u_kill e r pid k = int80 e (r\<lparr>r_eax := 18, r_ebx := pid\<rparr>) k"

definition u_wait :: "env \<Rightarrow> registers \<Rightarrow> u32 \<Rightarrow> kernel \<Rightarrow> (sys_result \<times> kernel) option" where
  "u_wait e r pid k = int80 e (r\<lparr>r_eax := 19, r_ebx := pid\<rparr>) k"

definition u_usleep :: "env \<Rightarrow> registers \<Rightarrow> u32 \<Rightarrow> kernel \<Rightarrow> (sys_result \<times> kernel) option" where
  "u_usleep e r ms k = int80 e (r\<lparr>r_eax := 20, r_ebx := ms\<rparr>) k"

definition u_ps :: "env \<Rightarrow> registers \<Rightarrow> u32 \<Rightarrow> u32 \<Rightarrow> kernel \<Rightarrow> (sys_result \<times> kernel) option" where
  "u_ps e r buf len k = int80 e (r\<lparr>r_eax := 24, r_ebx := buf, r_ecx := len\<rparr>) k"

definition u_stat :: "env \<Rightarrow> registers \<Rightarrow> u32 \<Rightarrow> u32 \<Rightarrow> kernel \<Rightarrow> (sys_result \<times> kernel) option" where
  "u_stat e r path out k = int80 e (r\<lparr>r_eax := 10, r_ebx := path, r_ecx := out\<rparr>) k"

definition u_gettime :: "env \<Rightarrow> registers \<Rightarrow> u32 \<Rightarrow> kernel \<Rightarrow> (sys_result \<times> kernel) option" where
  "u_gettime e r out k = int80 e (r\<lparr>r_eax := 4, r_ebx := out\<rparr>) k"

definition u_getuptime :: "env \<Rightarrow> registers \<Rightarrow> kernel \<Rightarrow> (sys_result \<times> kernel) option" where
  "u_getuptime e r k = int80 e (r\<lparr>r_eax := 23\<rparr>) k"

definition u_getchar :: "env \<Rightarrow> registers \<Rightarrow> u32 \<Rightarrow> kernel \<Rightarrow> (sys_result \<times> kernel) option" where
  "u_getchar e r blocking k =
     (if blocking \<noteq> 0 then int80 e (r\<lparr>r_eax := 21\<rparr>) k else int80 e (r\<lparr>r_eax := 22\<rparr>) k)"

text \<open>If the call ever returned, the function would loop.\<close>

definition u_exit :: "env \<Rightarrow> registers \<Rightarrow> u32 \<Rightarrow> kernel \<Rightarrow> (sys_result \<times> kernel) option" where
  "u_exit e r code k =
     (case int80 e (r\<lparr>r_eax := 1, r_ebx := code\<rparr>) k of
        Some (Sys_resched p, k1) \<Rightarrow> Some (Sys_resched p, k1)
      | _ \<Rightarrow> None)"

definition u_sbrk :: "env \<Rightarrow> registers \<Rightarrow> u32 \<Rightarrow> kernel \<Rightarrow> (sys_result \<times> kernel) option" where
  "u_sbrk e r delta k =
     (case int80 e (r\<lparr>r_eax := 5, r_ebx := delta\<rparr>) k of
        Some (Sys_done ret, k1) \<Rightarrow> Some (Sys_done (if ret = - 1 then 0 else ret), k1)
      | res \<Rightarrow> res)"

section \<open>The handlers they reach\<close>

lemma int80_dispatch: "int80 e r k = syscall_dispatch e (r\<lparr>r_int_no := 128\<rparr>) k"
  by (cases "syscall_dispatch e (r\<lparr>r_int_no := 128\<rparr>) k") (auto simp: int80_def isr_handler_def)

lemma libc_handlers:
  "u_yield_hlt e r k = sys_yield k"
  "u_print e r msg k = sys_print (r\<lparr>r_eax := 3, r_ebx := msg, r_int_no := 128\<rparr>) k"
  "u_open e r path writable k = sys_open e (r\<lparr>r_eax := 6, r_ebx := path, r_ecx := writable, r_int_no := 128\<rparr>) k"
  "u_close e r fd k = sys_close (r\<lparr>r_eax := 7, r_ebx := fd, r_int_no := 128\<rparr>) k"
  "u_read e r fd buf len k = sys_read (r\<lparr>r_eax := 8, r_ebx := fd, r_ecx := buf, r_edx := len, r_int_no := 128\<rparr>) k"
  "u_write e r fd buf len k = sys_write e (r\<lparr>r_eax := 9, r_ebx := fd, r_ecx := buf, r_edx := len, r_int_no := 128\<rparr>) k"
  "u_unlink e r path k = sys_unlink (r\<lparr>r_eax := 11, r_ebx := path, r_int_no := 128\<rparr>) k"
  "u_mkdir e r path k = sys_mkdir (r\<lparr>r_eax := 12, r_ebx := path, r_int_no := 128\<rparr>) k"
  "u_rmdir e r path k = sys_rmdir (r\<lparr>r_eax := 13, r_ebx := path, r_int_no := 128\<rparr>) k"
  "u_opendir e r path k = sys_opendir (r\<lparr>r_eax := 14, r_ebx := path, r_int_no := 128\<rparr>) k"
  "u_readdir e r fd out k = sys_readdir e (r\<lparr>r_eax := 15, r_ebx := fd, r_ecx := out, r_int_no := 128\<rparr>) k"
  "u_closedir e r fd k = sys_closedir (r\<lparr>r_eax := 16, r_ebx := fd, r_int_no := 128\<rparr>) k"
  "u_chdir e r path k = sys_chdir e (r\<lparr>r_eax := 25, r_ebx := path, r_int_no := 128\<rparr>) k"
  "u_getcwd e r buf len k = sys_getcwd (r\<lparr>r_eax := 26, r_ebx := buf, r_ecx := len, r_int_no := 128\<rparr>) k"
  "u_spawn e r path argc argv k = sys_spawn e (r\<lparr>r_eax := 17, r_ebx := path, r_ecx := argc, r_edx := argv, r_int_no := 128\<rparr>) k"
  "u_kill e r pid k = sys_kill (r\<lparr>r_eax := 18, r_ebx := pid, r_int_no := 128\<rparr>) k"
  "u_wait e r pid k = sys_wait (r\<lparr>r_eax := 19, r_ebx := pid, r_int_no := 128\<rparr>) k"
  "u_usleep e r ms k = sys_sleep (r\<lparr>r_eax := 20, r_ebx := ms, r_int_no := 128\<rparr>) k"
  "u_ps e r buf len k = sys_ps (r\<lparr>r_eax := 24, r_ebx := buf, r_ecx := len, r_int_no := 128\<rparr>) k"
  "u_stat e r path out k = sys_stat e (r\<lparr>r_eax := 10, r_ebx := path, r_ecx := out, r_int_no := 128\<rparr>) k"
  "u_gettime e r out k = sys_datetime e (r\<lparr>r_eax := 4, r_ebx := out, r_int_no := 128\<rparr>) k"
  "u_getuptime e r k = sys_getuptime k"
  by (simp_all add: u_yield_hlt_def u_print_def u_open_def u_close_def u_read_def u_write_def u_unlink_def u_mkdir_def u_rmdir_def u_opendir_def u_readdir_def u_closedir_def u_chdir_def u_getcwd_def u_spawn_def u_kill_def u_wait_def u_usleep_def u_ps_def u_stat_def u_gettime_def u_getuptime_def int80_dispatch syscall_dispatch_def)

lemma user_text_nonzero: "0 \<notin> set (user_text n a k)"
  by (induction n arbitrary: a) (auto split: option.splits)

lemma length_user_text: "length (user_text n a k) \<le> n"
  by (induction n arbitrary: a) (auto split: option.splits)

text \<open>What a working directory becomes when it is set.\<close>

lemma set_proc_cwd_text: "p_cwd (set_proc_cwd (Some c) x) = (if c = [] then [47] else take 127 c)"
  "p_pd_phys (set_proc_cwd (Some c) x) = p_pd_phys x"
  by (simp_all add: set_proc_cwd_def)

lemma chdir_sets:
  assumes "user_loaded k" "u_chdir e r path k = Some (Sys_done 0, k1)"
  shows "user_loaded k1" "vm k1 = vm k" "cur_pd k1 = cur_pd k"
    "p_cwd (current k1) = (if user_text 127 path k = [] then [47] else user_text 127 path k)"
proof -
  let ?r = "r\<lparr>r_eax := 25, r_ebx := path, r_int_no := 128\<rparr>" and ?t = "user_text 127 path k"
  have call: "sys_chdir e ?r k = Some (Sys_done 0, k1)" using assms(2) by (simp add: libc_handlers)
  have cp: "copy_user_str path 128 k = Some (if readable_text 127 path k then Some ?t else None)"
    using copy_user_str_text [OF assms(1), of 127 path] by (simp add: numeral_eq_Suc)
  have t: "take 127 ?t = ?t" using length_user_text [of 127 path k] by simp
  from call cp obtain fs where k1: "k1 = upd_current (set_proc_cwd (Some ?t)) (k\<lparr>fat := fs\<rparr>)"
    by (auto simp: sys_chdir_def sys_ok_def Let_def split: if_splits option.splits prod.splits)
  have cur: "current k1 = set_proc_cwd (Some ?t) (current k)" "vm k1 = vm k"
    by (simp_all add: k1 upd_current_def upd_proc_def current_def)
  then show "vm k1 = vm k" "cur_pd k1 = cur_pd k" by (simp_all add: set_proc_cwd_text)
  with assms(1) show "user_loaded k1" by (simp add: user_loaded_def)
  show "p_cwd (current k1) = (if ?t = [] then [47] else ?t)" by (simp add: cur set_proc_cwd_text t)
qed

section \<open>Properties\<close>

text \<open>
  C31. \<^verbatim>\<open>chdir\<close> and \<^verbatim>\<open>getcwd\<close> of the C library. When \<^verbatim>\<open>chdir\<close> has returned 0, a following
  \<^verbatim>\<open>getcwd\<close> into a buffer that the process may write returns 0 and leaves in the buffer the text
  that \<^verbatim>\<open>chdir\<close> was given (its first 127 characters, cut to the buffer; a slash for the empty text), and
  nothing but the buffer has changed in the memory of the process.
\<close>

theorem chdir_getcwd:
  assumes "user_loaded k" "u_chdir e r path k = Some (Sys_done 0, k1)" "len \<noteq> 0" "valid_user buf len True k"
  defines "dir \<equiv> (if user_text 127 path k = [] then [47] else user_text 127 path k)"
  shows "\<exists>k2. u_getcwd e r' buf len k1 = Some (Sys_done 0, k2) \<and> user_loaded k2
    \<and> user_cstr (vm k2) buf = Some (take (unat len - 1) dir)
    \<and> (\<forall>va < KERNEL_VIRT_BASE. \<not> in_range va buf (unat len) \<longrightarrow> user_byte (vm k2) va = user_byte (vm k) va)"
proof -
  let ?r = "r'\<lparr>r_eax := 26, r_ebx := buf, r_ecx := len, r_int_no := 128\<rparr>"
  note S = chdir_sets [OF assms(1,2), folded dir_def]
  have "0 \<notin> set (p_cwd (current k1))" using user_text_nonzero [of 127 path k] by (simp add: S(4) dir_def)
  moreover have "valid_user buf len True k1" using assms(4) by (simp add: valid_user_def S(2,3))
  ultimately obtain t where t: "sys_getcwd ?r k1 = Some (Sys_done 0, k1\<lparr>vm := t\<rparr>)" "user_loaded (k1\<lparr>vm := t\<rparr>)"
    "user_cstr t buf = Some (take (unat len - 1) dir)"
    "\<forall>va < KERNEL_VIRT_BASE. \<not> in_range va buf (unat len) \<longrightarrow> user_byte t va = user_byte (vm k1) va"
    using sys_getcwd_ok [OF S(1), of ?r] assms(3) by (auto simp: S(4))
  then show ?thesis by (intro exI [of _ "k1\<lparr>vm := t\<rparr>"]) (simp add: libc_handlers S(2))
qed

text \<open>The empty path, at the zero behind the text of the example, names the root.\<close>

definition env_example :: env where
  "env_example = \<lparr>env_cmos = (\<lambda>_. 0), env_isr_return = 0xc0100000, env_slot = no_slot, env_stack = (\<lambda>_. 0)\<rparr>"

lemma fat_stat_root: "fat_stat [] fs = Some (0, Some \<lparr>fs_name = [47], fs_size = 0, fs_first_cluster = 0, fs_attr = ATTR_DIRECTORY\<rparr>, fs)"
  by (simp add: fat_stat_def existing_entry_def locate_def resolve_path_def resolve_loop.simps split_next_def)

lemma example_empty_text: "user_text 127 0x400002 user_example = []" "readable_text 127 0x400002 user_example"
proof -
  have a: "may_access user_example False 0x400002" using user_example_mem(3) [of False] by simp
  have p: "peek (kbytes user_example) 0x14000 0x400002 = Some 0"
    using user_example_mem(4) [of "0x400002"] by (simp add: KERNEL_VIRT_BASE_def)
  show "user_text 127 0x400002 user_example = []" "readable_text 127 0x400002 user_example"
    using a by (simp_all add: numeral_eq_Suc p user_example_mem(2))
qed

lemma chdir_getcwd_witness:
  "\<exists>k1 k2. u_chdir env_example (regs_example 0 0) 0x400002 user_example = Some (Sys_done 0, k1)
    \<and> u_getcwd env_example (regs_example 0 0) 0x400800 16 k1 = Some (Sys_done 0, k2) \<and> user_cstr (vm k2) 0x400800 = Some [47]"
proof -
  have cp: "copy_user_str 0x400002 128 user_example = Some (Some [])"
    using copy_user_str_text [OF user_example_mem(1), of 127 "0x400002"] example_empty_text by (simp add: numeral_eq_Suc)
  obtain k1 where k1: "u_chdir env_example (regs_example 0 0) 0x400002 user_example = Some (Sys_done 0, k1)"
    by (simp add: libc_handlers sys_chdir_def cp fat_stat_root sys_ok_def Let_def)
  have v: "valid_user 0x400800 16 True user_example"
    using user_example_mem(3) [of True] by (auto simp: valid_user_iff [OF user_example_mem(1)] in_range_def unat_sub_if_size word_size split: if_splits)
  show ?thesis
    using chdir_getcwd [OF user_example_mem(1) k1 _ v, of "regs_example 0 0"] k1 by (auto simp: example_empty_text)
qed

end
