(* ===== verification/Umalloc.thy ===== *)
theory Umalloc
  imports Libc_Calls
begin

text \<open>
  The allocator of the C library, \<^verbatim>\<open>src/src/libc/malloc.c\<close>, over the system call that moves the break.
  As in \<open>Kheap\<close> the headers are kept in a store of their own; of \<open>heap_state\<close> only the headers,
  \<^verbatim>\<open>free_list\<close> and \<^verbatim>\<open>heap_end\<close> are used. The state is this heap and whatever \<^verbatim>\<open>sys_sbrk\<close> works on.
\<close>

section \<open>The code\<close>

abbreviation MIN_GROWTH :: u32 where "MIN_GROWTH \<equiv> 4096"

text \<open>The last block of the list; it does not exist on a cyclic list.\<close>

partial_function (option) last_block :: "u32 \<Rightarrow> heap_state \<Rightarrow> u32 option" where
  "last_block cur h = (if bh_next (hdrs h cur) \<noteq> 0 then last_block (bh_next (hdrs h cur)) h else Some cur)"

text \<open>The first component is the return value, 0 when the system refuses.\<close>

definition grow_heap :: "(u32 \<Rightarrow> 's \<Rightarrow> (u32 \<times> 's) option) \<Rightarrow> u32 \<Rightarrow> heap_state \<times> 's \<Rightarrow> (nat \<times> heap_state \<times> 's) option" where
  "grow_heap sbrk need st =
     (let grow_amount = (if MIN_GROWTH < need then need else MIN_GROWTH) in
      case sbrk grow_amount (snd st) of None \<Rightarrow> None
      | Some (base, s1) \<Rightarrow>
          if base = 0 then Some (0, fst st, s1)
          else
            (let h1 = set_hdr base \<lparr>bh_size = grow_amount - BLOCK_HEADER_SIZE, bh_next = 0, bh_free = 1\<rparr> (fst st) in
             case (if free_list h1 = 0 then Some (h1\<lparr>free_list := base\<rparr>)
                   else map_option (\<lambda>l. set_hdr l ((hdrs h1 l)\<lparr>bh_next := base\<rparr>) h1) (last_block (free_list h1) h1)) of
               None \<Rightarrow> None
             | Some h2 \<Rightarrow> Some (1, h2\<lparr>heap_end := base + grow_amount\<rparr>, s1)))"

text \<open>The search of \<^verbatim>\<open>malloc\<close>, 0 when it reaches the end, and what it does to the block it finds.\<close>

partial_function (option) find_fit :: "u32 \<Rightarrow> u32 \<Rightarrow> heap_state \<Rightarrow> u32 option" where
  "find_fit bytes cur h =
     (if cur = 0 then Some 0
      else if bh_free (hdrs h cur) \<noteq> 0 \<and> bytes \<le> bh_size (hdrs h cur) then Some cur
      else find_fit bytes (bh_next (hdrs h cur)) h)"

definition take_fit :: "u32 \<Rightarrow> u32 \<Rightarrow> heap_state \<Rightarrow> heap_state" where
  "take_fit bytes cur h =
     (let c = hdrs h cur;
          h1 = (if bytes + BLOCK_HEADER_SIZE + 4 \<le> bh_size c
                then (let new_block = cur + BLOCK_HEADER_SIZE + bytes;
                          h' = set_hdr new_block \<lparr>bh_size = bh_size c - bytes - BLOCK_HEADER_SIZE, bh_next = bh_next c, bh_free = 1\<rparr> h
                      in set_hdr cur ((hdrs h' cur)\<lparr>bh_size := bytes, bh_next := new_block\<rparr>) h')
                else h)
      in set_hdr cur ((hdrs h1 cur)\<lparr>bh_free := 0\<rparr>) h1)"

partial_function (option) malloc :: "(u32 \<Rightarrow> 's \<Rightarrow> (u32 \<times> 's) option) \<Rightarrow> u32 \<Rightarrow> heap_state \<times> 's \<Rightarrow> (u32 \<times> heap_state \<times> 's) option" where
  "malloc sbrk bytes st =
     (let sz = (bytes + 3) AND NOT 3 in
      case find_fit sz (free_list (fst st)) (fst st) of None \<Rightarrow> None
      | Some cur \<Rightarrow>
          if cur \<noteq> 0 then Some (cur + BLOCK_HEADER_SIZE, take_fit sz cur (fst st), snd st)
          else (case grow_heap sbrk (sz + BLOCK_HEADER_SIZE) st of None \<Rightarrow> None
                | Some (ok, st1) \<Rightarrow> if ok = 0 then Some (0, st1) else malloc sbrk sz st1))"

definition u_free :: "u32 \<Rightarrow> heap_state \<times> 's \<Rightarrow> (unit \<times> heap_state \<times> 's) option" where
  "u_free ptr st =
     (if ptr = 0 then Some ((), st)
      else
        (let block = ptr - BLOCK_HEADER_SIZE; h = fst st in
         case kfree_loop (free_list h) (set_hdr block ((hdrs h block)\<lparr>bh_free := 1\<rparr>) h) of None \<Rightarrow> None
         | Some h' \<Rightarrow> Some ((), h', snd st)))"

section \<open>Blocks\<close>

text \<open>Searching and taking is what the loop of \<^verbatim>\<open>kmalloc\<close> does.\<close>

lemma find_fit_kmalloc:
  assumes "tiles (hdrs h) p bs"
  shows "\<exists>c. find_fit n (block_ptr p bs) h = Some c
    \<and> kmalloc_loop n (block_ptr p bs) h = (if c = 0 then Some (0, h) else Some (c + 12, take_fit n c h))
    \<and> (c \<noteq> 0 \<longrightarrow> c + 12 \<noteq> 0)"
  using assms
proof (induction bs arbitrary: p)
  case Nil
  then show ?case by (simp add: block_ptr_def find_fit.simps kmalloc_loop.simps)
next
  case (Cons b bs)
  obtain sz fr where b: "b = (sz, fr)" by force
  have t: "tiles (hdrs h) (p + 12 + sz) bs" "bh_next (hdrs h (of_nat p)) = block_ptr (p + 12 + sz) bs" "p + 12 < 2 ^ 32"
    using Cons.prems by (simp_all add: b)
  have ptr: "block_ptr p (b # bs) = of_nat p" "(of_nat p :: u32) \<noteq> 0" using block_ptr_nonzero [OF Cons.prems] by simp_all
  have nz: "(of_nat p :: u32) + 12 \<noteq> 0" using of_nat_u32_eq [of "p + 12" 0] t(3) by simp
  show ?case
  proof (cases "bh_free (hdrs h (of_nat p)) \<noteq> 0 \<and> n \<le> bh_size (hdrs h (of_nat p))")
    case True
    then show ?thesis unfolding ptr(1)
      by (subst find_fit.simps, subst kmalloc_loop.simps) (use ptr(2) nz in \<open>auto simp: take_fit_def Let_def\<close>)
  next
    case False
    then show ?thesis using Cons.IH [OF t(1)] unfolding ptr(1)
      by (subst find_fit.simps, subst kmalloc_loop.simps) (auto simp: ptr(2) t(2))
  qed
qed

lemma tiles_upd_above: "p + span bs \<le> a \<Longrightarrow> a < 2 ^ 32 \<Longrightarrow> tiles (m(of_nat a := x)) p bs = tiles m p bs"
proof (induction bs arbitrary: p)
  case (Cons b bs)
  obtain sz fr where b: "b = (sz, fr)" by force
  have "(of_nat p :: u32) \<noteq> of_nat a" using Cons.prems by (subst of_nat_u32_eq) (auto simp: b)
  then show ?case using Cons.prems Cons.IH [of "p + 12 + sz"] by (simp add: b)
qed simp

text \<open>A free block is put behind the last one.\<close>

lemma append_block:
  assumes "tiles (hdrs h) p bs" "bs \<noteq> []" "e = p + span bs" "e + 12 + sz < 2 ^ 32"
    and q: "hdrs h (of_nat e) = \<lparr>bh_size = of_nat sz, bh_next = 0, bh_free = 1\<rparr>"
  shows "\<exists>l. last_block (of_nat p) h = Some l
    \<and> tiles ((hdrs h)(l := (hdrs h l)\<lparr>bh_next := of_nat e\<rparr>)) p (bs @ [(sz, True)]) \<and> (\<forall>a < p. l \<noteq> of_nat a)"
  using assms(1,2,3)
proof (induction bs arbitrary: p)
  case (Cons b bs)
  obtain s0 fr where b: "b = (s0, fr)" by force
  let ?p = "of_nat p :: u32" and ?r = "p + 12 + s0"
  have c: "bh_size (hdrs h ?p) = of_nat s0" "(bh_free (hdrs h ?p) \<noteq> 0) = fr" "bh_next (hdrs h ?p) = block_ptr ?r bs"
    "4 \<le> p" "?r < 2 ^ 32" and t: "tiles (hdrs h) ?r bs"
    using Cons.prems(1) by (auto simp: b)
  have e: "e = ?r + span bs" using Cons.prems(3) by (simp add: b)
  have low: "?p \<noteq> of_nat a" if "a < p" for a using that c(5) by (subst of_nat_u32_eq) auto
  show ?case
  proof (cases bs)
    case Nil
    have ne: "?p \<noteq> of_nat ?r" using c(5) by (subst of_nat_u32_eq) auto
    have r: "?r = e" using e Nil by simp
    have e4: "4 \<le> e" using c(4) r by linarith
    have "last_block ?p h = Some ?p" using c(3) Nil by (subst last_block.simps) (simp add: block_ptr_def)
    moreover have "tiles ((hdrs h)(?p := (hdrs h ?p)\<lparr>bh_next := of_nat e\<rparr>)) p ((b # bs) @ [(sz, True)])"
      using ne [unfolded r] c [unfolded r] e4 assms(4) q unfolding Nil b append.simps tiles.simps r
      by (simp add: block_ptr_def)
    ultimately show ?thesis using low by blast
  next
    case (Cons y ys)
    then have bs: "bs \<noteq> []" by simp
    from Cons.IH [OF t bs e] obtain l where
      l: "last_block (of_nat ?r) h = Some l" "tiles ((hdrs h)(l := (hdrs h l)\<lparr>bh_next := of_nat e\<rparr>)) ?r (bs @ [(sz, True)])"
        "\<forall>a < ?r. l \<noteq> of_nat a" by blast
    have nz: "block_ptr ?r bs = of_nat ?r" "(of_nat ?r :: u32) \<noteq> 0" using block_ptr_nonzero t Cons by blast+
    have "last_block ?p h = Some l" using l(1) nz c(3) by (subst last_block.simps) simp
    moreover have "l \<noteq> ?p" using l(3) by auto
    moreover have "block_ptr ?r (bs @ [(sz, True)]) = block_ptr ?r bs" using bs by (simp add: block_ptr_def)
    moreover obtain m where m: "m = (hdrs h)(l := (hdrs h l)\<lparr>bh_next := of_nat e\<rparr>)" by blast
    ultimately have mp: "m ?p = hdrs h ?p" by simp
    have "tiles m p ((b # bs) @ [(sz, True)])"
      using l(2) [folded m] c nz \<open>block_ptr ?r (bs @ [(sz, True)]) = block_ptr ?r bs\<close>
      unfolding b append.simps tiles.simps mp by auto
    moreover have "\<forall>a < p. l \<noteq> of_nat a" using l(3) by simp
    ultimately show ?thesis using \<open>last_block ?p h = Some l\<close> unfolding m by blast
  qed
qed simp

section \<open>The interface of the break\<close>

text \<open>
  What the allocator needs of \<^verbatim>\<open>sys_sbrk\<close>: below the limit the break moves and the old one is
  returned, beyond it the call returns 0 and changes nothing. The area starts at \<open>start\<close>.
\<close>

locale break_area =
  fixes sbrk :: "u32 \<Rightarrow> 's \<Rightarrow> (u32 \<times> 's) option"
    and good :: "'s \<Rightarrow> bool" and start brk limit :: "'s \<Rightarrow> nat"
  assumes area_bounds: "good s \<Longrightarrow> 4 \<le> start s \<and> start s \<le> brk s \<and> brk s \<le> limit s \<and> limit s \<le> 0xc0000000"
    and sbrk_grow: "good s \<Longrightarrow> unat n < 0x40000000 \<Longrightarrow> brk s + unat n \<le> limit s \<Longrightarrow>
      \<exists>s'. sbrk n s = Some (of_nat (brk s), s') \<and> good s' \<and> brk s' = brk s + unat n \<and> start s' = start s \<and> limit s' = limit s"
    and sbrk_full: "good s \<Longrightarrow> unat n < 0x40000000 \<Longrightarrow> limit s < brk s + unat n \<Longrightarrow> sbrk n s = Some (0, s)"

text \<open>The blocks of the heap end at the break; before the first call there are none.\<close>

definition area :: "('s \<Rightarrow> bool) \<Rightarrow> ('s \<Rightarrow> nat) \<Rightarrow> ('s \<Rightarrow> nat) \<Rightarrow> heap_state \<times> 's \<Rightarrow> blocks \<Rightarrow> bool" where
  "area good start brk st bs \<longleftrightarrow> good (snd st) \<and>
     (if bs = [] then free_list (fst st) = 0
      else start (snd st) \<le> unat (free_list (fst st)) \<and> tiles (hdrs (fst st)) (unat (free_list (fst st))) bs
        \<and> unat (free_list (fst st)) + span bs = brk (snd st))"

lemma area_ptr: "area good start brk st bs \<Longrightarrow> block_ptr (unat (free_list (fst st))) bs = free_list (fst st)"
  by (auto simp: area_def block_ptr_def split: if_splits)

text \<open>The block that growing adds, for a request of \<open>n\<close> bytes.\<close>

definition growth :: "nat \<Rightarrow> nat" where
  "growth n = max (n + 12) 4096"

lemma round_round:
  assumes "unat bytes \<le> 0x3fffffe0"
  shows "kmalloc_round bytes < 0x3ffffff0" "kmalloc_round ((bytes + 3) AND NOT 3) = kmalloc_round bytes"
    "unat (((bytes + 3) AND NOT 3) + 12) = kmalloc_round bytes + 12"
proof -
  have r: "kmalloc_round bytes = 4 * ((unat bytes + 3) div 4)" using assms by (intro kmalloc_round_eq) simp
  then show lt: "kmalloc_round bytes < 0x3ffffff0" using assms by linarith
  have u: "unat ((bytes + 3) AND NOT 3) = kmalloc_round bytes" by (simp add: kmalloc_round_def)
  have "kmalloc_round ((bytes + 3) AND NOT 3) = 4 * ((kmalloc_round bytes + 3) div 4)"
    using lt kmalloc_round_eq [of "(bytes + 3) AND NOT 3"] unfolding u by simp
  then show "kmalloc_round ((bytes + 3) AND NOT 3) = kmalloc_round bytes" unfolding r by simp
  show "unat (((bytes + 3) AND NOT 3) + 12) = kmalloc_round bytes + 12"
    using lt u by (subst unat_add_lem [THEN iffD1]) simp_all
qed

context break_area begin

abbreviation "heap_area \<equiv> area good start brk"

lemma grow_heap_ok:
  assumes st: "heap_area st bs" and n: "unat need = n + 12" "n < 0x3ffffff0"
  shows "if brk (snd st) + growth n \<le> limit (snd st)
    then (\<exists>st'. grow_heap sbrk need st = Some (1, st') \<and> heap_area st' (bs @ [(growth n - 12, True)])
      \<and> unat (free_list (fst st')) = (if bs = [] then brk (snd st) else unat (free_list (fst st)))
      \<and> brk (snd st') = brk (snd st) + growth n \<and> limit (snd st') = limit (snd st))
    else grow_heap sbrk need st = Some (0, st)"
proof -
  obtain h s where st_eq: "st = (h, s)" by (cases st)
  let ?g = "if MIN_GROWTH < need then need else MIN_GROWTH"
  obtain g where g: "g = ?g" by blast
  have ug: "unat g = growth n" "unat g < 0x40000000" "12 \<le> unat g"
    using n by (auto simp: g growth_def word_less_nat_alt max_def)
  have gd: "good s" using st by (simp add: area_def st_eq)
  note bounds = area_bounds [OF gd]
  show ?thesis
  proof (cases "brk s + growth n \<le> limit s")
    case False
    then have "sbrk g s = Some (0, s)" using sbrk_full [OF gd ug(2)] ug(1) by simp
    then show ?thesis using False by (simp add: grow_heap_def Let_def st_eq g)
  next
    case True
    then obtain s1 where s1: "sbrk g s = Some (of_nat (brk s), s1)" "good s1" "brk s1 = brk s + growth n" "start s1 = start s" "limit s1 = limit s"
      using sbrk_grow [OF gd ug(2)] ug(1) by auto
    let ?e = "brk s" and ?sz = "growth n - 12"
    let ?b = "of_nat ?e :: u32"
    have e: "?e + 12 + ?sz < 2 ^ 32" "?b \<noteq> 0" "unat ?b = ?e"
      using bounds True ug(1,3) of_nat_u32_eq [of ?e 0] by auto
    have usz: "unat (g - 12) = ?sz" using ug(1,3) by (simp add: unat_sub_if_size)
    have sz: "g - 12 = of_nat ?sz" unfolding usz [symmetric] by simp
    obtain h1 where h1: "h1 = set_hdr ?b \<lparr>bh_size = g - 12, bh_next = 0, bh_free = 1\<rparr> h" by blast
    have fl: "free_list h1 = free_list h" "hdrs h1 ?b = \<lparr>bh_size = of_nat ?sz, bh_next = 0, bh_free = 1\<rparr>"
      using sz by (simp_all add: h1 set_hdr_def)
    show ?thesis
    proof (cases "bs = []")
      case Nil: True
      then have "free_list h = 0" using st by (simp add: area_def st_eq)
      then have "grow_heap sbrk need st = Some (1, h1\<lparr>free_list := ?b, heap_end := ?b + g\<rparr>, s1)"
        using s1(1) e(2) by (simp add: grow_heap_def Let_def st_eq g [symmetric] h1 set_hdr_def)
      moreover have "heap_area (h1\<lparr>free_list := ?b, heap_end := ?b + g\<rparr>, s1) [(?sz, True)]"
        using s1 e bounds ug fl by (simp add: area_def block_ptr_def)
      ultimately show ?thesis using True Nil s1 e(3) by (simp add: st_eq)
    next
      case False
      let ?p = "unat (free_list h)"
      have a: "start s \<le> ?p" "tiles (hdrs h) ?p bs" "?e = ?p + span bs"
        using st False by (simp_all add: area_def st_eq)
      have nz: "free_list h \<noteq> 0" using a(1) bounds by auto
      have t1: "tiles (hdrs h1) ?p bs" using tiles_upd_above [of ?p bs ?e "hdrs h"] a(2,3) e(1) by (simp add: h1 set_hdr_def)
      from append_block [OF t1 False a(3) e(1) fl(2)] obtain l where
        l: "last_block (free_list h) h1 = Some l" "tiles ((hdrs h1)(l := (hdrs h1 l)\<lparr>bh_next := ?b\<rparr>)) ?p (bs @ [(?sz, True)])" by auto
      obtain h2 where h2: "h2 = (set_hdr l ((hdrs h1 l)\<lparr>bh_next := ?b\<rparr>) h1)\<lparr>heap_end := ?b + g\<rparr>" by blast
      have "grow_heap sbrk need st = Some (1, h2, s1)"
        using s1(1) e(2) nz l(1) by (simp add: grow_heap_def Let_def st_eq g [symmetric] h1 [symmetric] fl(1) h2)
      moreover have "heap_area (h2, s1) (bs @ [(?sz, True)])"
        using s1 a l(2) ug fl(1) by (simp add: area_def h2 set_hdr_def)
      ultimately show ?thesis using True False s1 fl(1) by (simp add: st_eq h2 set_hdr_def)
    qed
  qed
qed

lemma malloc_step:
  fixes bytes :: u32
  assumes st: "heap_area st bs"
  defines "n \<equiv> (bytes + 3) AND NOT 3"
  shows "case alloc_blocks (unat n) bs of
      Some (off, bs') \<Rightarrow> (\<exists>h'. malloc sbrk bytes st = Some (free_list (fst st) + of_nat off, h', snd st) \<and> heap_area (h', snd st) bs'
        \<and> free_list h' = free_list (fst st))
    | None \<Rightarrow> malloc sbrk bytes st = (case grow_heap sbrk (n + 12) st of None \<Rightarrow> None
        | Some (ok, st1) \<Rightarrow> if ok = 0 then Some (0, st1) else malloc sbrk n st1)"
proof -
  obtain h s where st_eq: "st = (h, s)" by (cases st)
  let ?p = "unat (free_list h)"
  have t: "tiles (hdrs h) ?p bs" using st by (cases "bs = []") (simp_all add: area_def st_eq)
  have bp: "block_ptr ?p bs = free_list h" using area_ptr [OF st] by (simp add: st_eq)
  from find_fit_kmalloc [OF t, of n] obtain c where c: "find_fit n (free_list h) h = Some c"
    "kmalloc_loop n (free_list h) h = (if c = 0 then Some (0, h) else Some (c + 12, take_fit n c h))" "c \<noteq> 0 \<longrightarrow> c + 12 \<noteq> 0"
    by (auto simp: bp)
  note K = kmalloc_loop_tiles [OF t, of n, unfolded bp]
  have call: "malloc sbrk bytes st = (if c \<noteq> 0 then Some (c + 12, take_fit n c h, s)
      else (case grow_heap sbrk (n + 12) st of None \<Rightarrow> None | Some (ok, st1) \<Rightarrow> if ok = 0 then Some (0, st1) else malloc sbrk n st1))"
    by (subst malloc.simps, unfold Let_def n_def [symmetric]) (simp add: st_eq c(1))
  show ?thesis
  proof (cases "alloc_blocks (unat n) bs")
    case None
    then show ?thesis using K c(2,3) call by (auto split: if_splits)
  next
    case (Some r)
    obtain off bs' where r: "r = (off, bs')" by force
    with K Some obtain m where m: "kmalloc_loop n (free_list h) h = Some (of_nat (?p + off), h\<lparr>hdrs := m\<rparr>)" "tiles m ?p bs'" by auto
    have ne: "bs \<noteq> []" using Some r by auto
    have sp: "span bs' = span bs" "bs' \<noteq> []" "12 \<le> off" "off \<le> span bs"
      using alloc_blocks_span [of _ bs off bs'] alloc_blocks_ptr [of _ bs off bs'] Some r by auto
    have "?p + span bs < 2 ^ 32" by (rule tiles_span [OF t ne])
    then have "(of_nat (?p + off) :: u32) \<noteq> 0" using sp of_nat_u32_eq [of "?p + off" 0] by simp
    then have "c \<noteq> 0" "c + 12 = of_nat (?p + off)" "take_fit n c h = h\<lparr>hdrs := m\<rparr>"
      using m(1) c(2) by (auto split: if_splits)
    then show ?thesis
      using Some r call st m(2) sp ne by (auto simp: st_eq area_def)
  qed
qed

lemma malloc_ok:
  assumes st: "heap_area st bs" and b: "unat bytes \<le> 0x3fffffe0"
  defines "n \<equiv> kmalloc_round bytes"
  defines "p \<equiv> (if bs = [] then brk (snd st) else unat (free_list (fst st)))"
  shows "case alloc_blocks n bs of
      Some (off, bs') \<Rightarrow> (\<exists>h'. malloc sbrk bytes st = Some (free_list (fst st) + of_nat off, h', snd st) \<and> heap_area (h', snd st) bs'
        \<and> free_list h' = free_list (fst st))
    | None \<Rightarrow>
        if brk (snd st) + growth n \<le> limit (snd st)
        then (\<exists>off bs' st'. alloc_blocks n (bs @ [(growth n - 12, True)]) = Some (off, bs')
          \<and> malloc sbrk bytes st = Some (of_nat (p + off), st') \<and> heap_area st' bs'
          \<and> unat (free_list (fst st')) = p \<and> brk (snd st') = brk (snd st) + growth n)
        else malloc sbrk bytes st = Some (0, st)"
proof -
  obtain m where m: "m = (bytes + 3) AND NOT 3" by blast
  note R = round_round [OF b, folded n_def m]
  have um: "unat m = n" by (simp add: n_def kmalloc_round_def m)
  have S: "case alloc_blocks n bs of
      Some (off, bs') \<Rightarrow> (\<exists>h'. malloc sbrk bytes st = Some (free_list (fst st) + of_nat off, h', snd st) \<and> heap_area (h', snd st) bs'
        \<and> free_list h' = free_list (fst st))
    | None \<Rightarrow> malloc sbrk bytes st = (case grow_heap sbrk (m + 12) st of None \<Rightarrow> None
        | Some (ok, st1) \<Rightarrow> if ok = 0 then Some (0, st1) else malloc sbrk m st1)"
    using malloc_step [OF st, of bytes] unfolding m [symmetric] um .
  show ?thesis
  proof (cases "alloc_blocks n bs")
    case (Some r)
    with S show ?thesis by auto
  next
    case None
    note call = S [unfolded None option.case]
    note G = grow_heap_ok [OF st R(3,1)]
    show ?thesis
    proof (cases "brk (snd st) + growth n \<le> limit (snd st)")
      case False
      then show ?thesis using G call None by simp
    next
      case True
      with G obtain st1 where st1: "grow_heap sbrk (m + 12) st = Some (1, st1)" "heap_area st1 (bs @ [(growth n - 12, True)])"
        "unat (free_list (fst st1)) = p" "brk (snd st1) = brk (snd st) + growth n" by (auto simp: p_def)
      have "alloc_blocks n (bs @ [(growth n - 12, True)]) \<noteq> None"
        unfolding alloc_blocks_None by (auto simp: growth_def)
      then obtain off bs' where ob: "alloc_blocks n (bs @ [(growth n - 12, True)]) = Some (off, bs')" by force
      have rn: "unat ((m + 3) AND NOT 3) = n" using R(2) by (simp add: kmalloc_round_def n_def)
      from malloc_step [OF st1(2), of m, unfolded rn] ob obtain h' where
        h': "malloc sbrk m st1 = Some (free_list (fst st1) + of_nat off, h', snd st1)" "heap_area (h', snd st1) bs'"
          "free_list h' = free_list (fst st1)" by auto
      have "free_list (fst st1) + of_nat off = of_nat (p + off)" using st1(3) by (metis of_nat_add of_nat_unat ucast_id)
      then have "malloc sbrk bytes st = Some (of_nat (p + off), h', snd st1)" using call st1(1) h'(1) by simp
      then show ?thesis using True None ob h'(2,3) st1(3,4) by auto
    qed
  qed
qed

lemma u_free_ok:
  assumes st: "heap_area st (bs1 @ (k, False) # bs2)" and p: "unat ptr = unat (free_list (fst st)) + span bs1 + 12"
  shows "\<exists>h'. u_free ptr st = Some ((), h', snd st) \<and> heap_area (h', snd st) (coalesce (bs1 @ (k, True) # bs2))
    \<and> free_list h' = free_list (fst st)"
proof -
  obtain h s where st_eq: "st = (h, s)" by (cases st)
  let ?p = "unat (free_list h)" and ?bs = "bs1 @ (k, True) # bs2"
  define a :: u32 where "a = of_nat (?p + span bs1)"
  have t: "tiles (hdrs h) ?p (bs1 @ (k, False) # bs2)" using st by (simp add: area_def st_eq)
  have "ptr = of_nat (?p + span bs1 + 12)" unfolding p [unfolded st_eq fst_conv, symmetric] by simp
  then have a: "ptr - 12 = a" by (simp add: a_def)
  note free = tiles_set_free [OF t a_def]
  have "block_ptr ?p ?bs = free_list h" by (simp add: block_ptr_def)
  with free kfree_loop_tiles [of "set_hdr a ((hdrs h a)\<lparr>bh_free := 1\<rparr>) h" ?p ?bs]
  obtain m where m: "kfree_loop (free_list h) (set_hdr a ((hdrs h a)\<lparr>bh_free := 1\<rparr>) h) = Some (h\<lparr>hdrs := m\<rparr>)"
    "tiles m ?p (coalesce ?bs)" by (auto simp: set_hdr_def)
  have "ptr \<noteq> 0" using p by auto
  with a m(1) have "u_free ptr st = Some ((), h\<lparr>hdrs := m\<rparr>, s)" by (simp add: u_free_def Let_def st_eq)
  moreover have "heap_area (h\<lparr>hdrs := m\<rparr>, s) (coalesce ?bs)" using st m(2) by (simp add: area_def st_eq)
  ultimately show ?thesis by (simp add: st_eq)
qed

end

text \<open>The blocks in use are the live allocations: the area is an allocator in the sense of \<open>Kheap\<close>.\<close>

definition area_rep :: "('s \<Rightarrow> bool) \<Rightarrow> ('s \<Rightarrow> nat) \<Rightarrow> ('s \<Rightarrow> nat) \<Rightarrow> heap_state \<times> 's \<Rightarrow> (nat \<times> nat) set \<Rightarrow> bool" where
  "area_rep good start brk st L \<longleftrightarrow> (\<exists>bs. area good start brk st bs \<and> L = payloads (unat (free_list (fst st))) bs)"

context break_area begin

abbreviation "heap_live \<equiv> area_rep good start brk"

lemma live_in_area:
  assumes "heap_live st L" "x \<in> L"
  shows "start (snd st) + 12 \<le> fst x \<and> fst x + snd x \<le> brk (snd st) \<and> good (snd st)"
proof -
  from assms(1) obtain bs where bs: "heap_area st bs" "L = payloads (unat (free_list (fst st))) bs" by (auto simp: area_rep_def)
  then have "bs \<noteq> []" using assms(2) by auto
  moreover have "unat (free_list (fst st)) + 12 \<le> fst x \<and> fst x + snd x \<le> unat (free_list (fst st)) + span bs"
    using assms(2) unfolding bs(2) by (rule payload_range)
  ultimately show ?thesis using bs by (auto simp: area_def)
qed

lemma malloc_live:
  assumes "heap_live st L" "unat n \<le> 0x3fffffe0"
  shows "\<exists>p st'. malloc sbrk n st = Some (p, st') \<and>
    (if p = 0 then st' = st else (\<exists>k \<ge> unat n. heap_live st' (insert (unat p, k) L) \<and> (\<forall>j. (unat p, j) \<notin> L)))"
proof -
  from assms(1) obtain bs where bs: "heap_area st bs" and L: "L = payloads (unat (free_list (fst st))) bs" by (auto simp: area_rep_def)
  have gd: "good (snd st)" using bs by (simp add: area_def)
  have le: "unat n \<le> kmalloc_round n" using assms(2) by (intro kmalloc_round_ge) simp
  note M = malloc_ok [OF bs assms(2)]
  have live: "(\<exists>k \<ge> unat n. heap_live st' (insert (unat ptr, k) L) \<and> (\<forall>j. (unat ptr, j) \<notin> L)) \<and> ptr \<noteq> 0"
    if h: "alloc_blocks (kmalloc_round n) cs = Some (off, bs')" "payloads q cs = L" "heap_area st' bs'"
      "unat (free_list (fst st')) = q" "ptr = (of_nat (q + off) :: u32)" "q + span cs < 2 ^ 32" for cs off bs' st' q ptr
  proof -
    from alloc_blocks_payloads [OF h(1), of q] obtain sz where
      sz: "kmalloc_round n \<le> sz" "payloads q bs' = insert (q + off, sz) L" "\<forall>k. (q + off, k) \<notin> L" "12 \<le> off" "off + sz \<le> span cs"
      by (auto simp: h(2))
    have "q + off < 2 ^ 32" using h(6) sz(5) by simp
    then have up: "unat ptr = q + off" unfolding h(5) by (simp del: of_nat_add)
    have "heap_live st' (insert (unat ptr, sz) L)" using h(3,4) sz(2) by (auto simp: area_rep_def up)
    moreover have "ptr \<noteq> 0" using up sz(4) by auto
    moreover have "unat n \<le> sz" using le sz(1) by simp
    ultimately show ?thesis using sz(3) up by (intro conjI exI [of _ sz]) simp_all
  qed
  show ?thesis
  proof (cases "alloc_blocks (kmalloc_round n) bs")
    case (Some x)
    obtain off bs' where x: "x = (off, bs')" by force
    with Some M obtain h' where h': "malloc sbrk n st = Some (free_list (fst st) + of_nat off, h', snd st)" "heap_area (h', snd st) bs'"
      "free_list h' = free_list (fst st)" by auto
    have ne: "bs \<noteq> []" using Some by auto
    then have "unat (free_list (fst st)) + span bs < 2 ^ 32" using bs area_bounds [OF gd] by (simp add: area_def)
    moreover have "free_list (fst st) + of_nat off = of_nat (unat (free_list (fst st)) + off)" by simp
    ultimately show ?thesis
      using live [of bs off bs' "unat (free_list (fst st))" "(h', snd st)" "free_list (fst st) + of_nat off"] Some x h' L by auto
  next
    case None
    show ?thesis
    proof (cases "brk (snd st) + growth (kmalloc_round n) \<le> limit (snd st)")
      case False
      then show ?thesis using M None by simp
    next
      case True
      obtain q where q: "q = (if bs = [] then brk (snd st) else unat (free_list (fst st)))" by blast
      let ?cs = "bs @ [(growth (kmalloc_round n) - 12, True)]"
      from True M None obtain off bs' st' where s: "alloc_blocks (kmalloc_round n) ?cs = Some (off, bs')"
        "malloc sbrk n st = Some (of_nat (q + off), st')" "heap_area st' bs'" "unat (free_list (fst st')) = q" by (auto simp: q)
      have "q + span bs = brk (snd st)" using bs by (simp add: area_def q)
      then have "q + span ?cs < 2 ^ 32" using True area_bounds [OF gd] by (simp add: growth_def max_def split: if_splits)
      moreover have "payloads q ?cs = L" by (simp add: L q)
      ultimately have "(\<exists>k \<ge> unat n. heap_live st' (insert (unat (of_nat (q + off) :: u32), k) L)
          \<and> (\<forall>j. (unat (of_nat (q + off) :: u32), j) \<notin> L)) \<and> (of_nat (q + off) :: u32) \<noteq> 0"
        by (intro live [OF s(1) _ s(3,4) refl])
      then show ?thesis using s(2) by (intro exI [of _ "of_nat (q + off)"] exI [of _ st']) simp
    qed
  qed
qed

lemma free_live:
  assumes "heap_live st L" "(unat p, k) \<in> L"
  shows "\<exists>st'. u_free p st = Some ((), st') \<and> heap_live st' (L - {(unat p, k)})"
proof -
  from assms(1) obtain bs where bs: "heap_area st bs" and L: "L = payloads (unat (free_list (fst st))) bs" by (auto simp: area_rep_def)
  let ?q = "unat (free_list (fst st))"
  have "?q + 12 \<le> unat p" using payload_range [of "(unat p, k)" ?q bs] assms(2) L by simp
  then have "(?q + (unat p - ?q), k) \<in> payloads ?q bs" using assms(2) L by simp
  from payloads_split [OF this] obtain bs1 bs2 where s: "bs = bs1 @ (k, False) # bs2" "unat p - ?q = span bs1 + 12" by auto
  then have pt: "unat p = ?q + span bs1 + 12" using \<open>?q + 12 \<le> unat p\<close> by simp
  from u_free_ok [OF bs [unfolded s(1)] pt] obtain h' where
    h': "u_free p st = Some ((), h', snd st)" "heap_area (h', snd st) (coalesce (bs1 @ (k, True) # bs2))" "free_list h' = free_list (fst st)" by blast
  have "L - {(unat p, k)} = payloads ?q (coalesce (bs1 @ (k, True) # bs2))"
    unfolding payloads_coalesce payloads_free L s(1) pt ..
  then show ?thesis using h' by (auto simp: area_rep_def)
qed

end

sublocale break_area \<subseteq> heap: allocator "malloc sbrk" u_free "area_rep good start brk" 0 "0x3fffffe0" "()"
proof
  fix st L x y assume "heap_live st L" "x \<in> L" "y \<in> L" "x \<noteq> y"
  then show "fst x + snd x \<le> fst y \<or> fst y + snd y \<le> fst x"
    using payloads_disjoint [of x _ _ y] by (fastforce simp: area_rep_def)
next
  fix st L x assume "heap_live st L" "x \<in> L"
  then show "0 < fst x \<and> fst x + snd x < 2 ^ 32"
    using live_in_area [of st L x] area_bounds [of "snd st"] by auto
qed (blast intro: malloc_live free_live)+

section \<open>The allocator of a process\<close>

definition lib_sbrk :: "env \<Rightarrow> registers \<Rightarrow> u32 \<Rightarrow> kernel \<Rightarrow> (u32 \<times> kernel) option" where
  "lib_sbrk e r delta k = (case u_sbrk e r delta k of Some (Sys_done p, k1) \<Rightarrow> Some (p, k1) | _ \<Rightarrow> None)"

abbreviation area_start :: "kernel \<Rightarrow> nat" where "area_start k \<equiv> unat (p_heap_start (current k))"
abbreviation area_break :: "kernel \<Rightarrow> nat" where "area_break k \<equiv> unat (p_heap_break (current k))"
abbreviation area_limit :: "kernel \<Rightarrow> nat" where "area_limit k \<equiv> unat (p_heap_max (current k))"

lemma lib_sbrk_call:
  "sys_sbrk (r\<lparr>r_eax := 5, r_ebx := n, r_int_no := 128\<rparr>) k = Some (Sys_done v, k1) \<Longrightarrow>
    lib_sbrk e r n k = Some (if v = - 1 then 0 else v, k1)"
  by (simp add: lib_sbrk_def u_sbrk_def int80_dispatch syscall_dispatch_def)

interpretation process: break_area "lib_sbrk e r" heap_room area_start area_break area_limit for e r
proof
  fix k assume "heap_room k"
  then show "4 \<le> area_start k \<and> area_start k \<le> area_break k \<and> area_break k \<le> area_limit k \<and> area_limit k \<le> 0xc0000000"
    using heap_room_D(2-5) [of k] by (simp add: word_le_nat_alt)
next
  fix k and n :: u32 assume room: "heap_room k" and fit: "area_break k + unat n \<le> area_limit k"
  let ?r = "r\<lparr>r_eax := 5, r_ebx := n, r_int_no := 128\<rparr>"
  have lim: "area_limit k \<le> 0xc0000000" by (rule heap_room_D(5) [OF room])
  have "area_break k \<noteq> unat (- 1 :: u32)" using lim fit by (simp add: unsigned_minus_1_eq_mask mask_eq_exp_minus_1)
  then have "p_heap_break (current k) \<noteq> - 1" by metis
  moreover from sys_sbrk_up [OF room, of ?r] fit obtain k' where
    "sys_sbrk ?r k = Some (Sys_done (p_heap_break (current k)), k')" "heap_room k'"
    "current k' = (current k)\<lparr>p_heap_break := p_heap_break (current k) + n\<rparr>" by auto
  moreover have "unat (p_heap_break (current k) + n) = area_break k + unat n"
    using fit lim by (subst unat_add_lem [THEN iffD1]) simp_all
  ultimately show "\<exists>k'. lib_sbrk e r n k = Some (of_nat (area_break k), k') \<and> heap_room k' \<and> area_break k' = area_break k + unat n
    \<and> area_start k' = area_start k \<and> area_limit k' = area_limit k"
    by (auto simp: lib_sbrk_call)
next
  fix k and n :: u32 assume "heap_room k" "unat n < 0x40000000" "area_limit k < area_break k + unat n"
  moreover from this(1) have "area_break k \<le> 0xc0000000" using heap_room_D(4,5) [of k] by (simp add: word_le_nat_alt)
  ultimately have "sys_sbrk (r\<lparr>r_eax := 5, r_ebx := n, r_int_no := 128\<rparr>) k = Some (Sys_done (- 1), k)"
    by (intro sys_sbrk_full) simp_all
  then show "lib_sbrk e r n k = Some (0, k)" by (simp add: lib_sbrk_call)
qed

abbreviation process_heap :: "heap_state \<times> kernel \<Rightarrow> blocks \<Rightarrow> bool" where
  "process_heap \<equiv> area heap_room area_start area_break"

abbreviation process_live :: "heap_state \<times> kernel \<Rightarrow> (nat \<times> nat) set \<Rightarrow> bool" where
  "process_live \<equiv> area_rep heap_room area_start area_break"

section \<open>Properties\<close>


text \<open>The example process before its first call.\<close>

definition malloc_example :: "heap_state \<times> kernel" where
  "malloc_example = (heap_example\<lparr>free_list := 0\<rparr>, sbrk_example)"

lemma malloc_example_heap: "process_heap malloc_example []" "process_live malloc_example {}"
proof -
  show "process_heap malloc_example []" by (simp add: area_def malloc_example_def sbrk_example_room)
  then show "process_live malloc_example {}" unfolding area_rep_def by (metis payloads.simps(1))
qed




end
