(* ===== verification/Libc_Text.thy ===== *)
theory Libc_Text
  imports Libc_Calls
begin

text \<open>
  Strings and formatted output in user space: \<^verbatim>\<open>src/src/libc/string.c\<close>, \<^verbatim>\<open>stdio.c\<close> and \<^verbatim>\<open>stdlib.c\<close>. Most
  functions are, character by character, those of the kernel in \<^verbatim>\<open>misc/util.c\<close>, \<^verbatim>\<open>misc/mem.c\<close> and
  \<^verbatim>\<open>misc/printf.c\<close>, so their models are those of \<open>CMem\<close> and \<open>Fmt\<close>; \<^verbatim>\<open>strcat\<close>, \<^verbatim>\<open>strncat\<close>, \<^verbatim>\<open>sprintf\<close> and
  printing are the library's own.
\<close>

section \<open>The functions shared with the kernel\<close>

definition u_memset :: "u32 \<Rightarrow> u32 \<Rightarrow> u32 \<Rightarrow> bytes \<Rightarrow> bytes" where "u_memset = memset"
definition u_memcpy :: "u32 \<Rightarrow> u32 \<Rightarrow> u32 \<Rightarrow> bytes \<Rightarrow> bytes" where "u_memcpy = memcpy"
definition u_memmove :: "u32 \<Rightarrow> u32 \<Rightarrow> u32 \<Rightarrow> bytes \<Rightarrow> bytes" where "u_memmove = memmove"
definition u_memcmp :: "u32 \<Rightarrow> u32 \<Rightarrow> u32 \<Rightarrow> bytes \<Rightarrow> int" where "u_memcmp = memcmp"
definition u_strlen :: "u32 \<Rightarrow> bytes \<Rightarrow> u32 option" where "u_strlen = strlen"
definition u_strnlen :: "u32 \<Rightarrow> u32 \<Rightarrow> bytes \<Rightarrow> u32" where "u_strnlen = strnlen"
definition u_strcpy :: "u32 \<Rightarrow> u32 \<Rightarrow> bytes \<Rightarrow> bytes option" where "u_strcpy = strcpy"
definition u_strncpy :: "u32 \<Rightarrow> u32 \<Rightarrow> u32 \<Rightarrow> bytes \<Rightarrow> bytes" where "u_strncpy = strncpy"
definition u_strcmp :: "u32 \<Rightarrow> u32 \<Rightarrow> bytes \<Rightarrow> int option" where "u_strcmp = strcmp"
definition u_strncmp :: "u32 \<Rightarrow> u32 \<Rightarrow> u32 \<Rightarrow> bytes \<Rightarrow> int" where "u_strncmp = strncmp"
definition u_strchr :: "u32 \<Rightarrow> u8 \<Rightarrow> bytes \<Rightarrow> u32 option" where "u_strchr = strchr"
definition u_strrchr :: "u32 \<Rightarrow> u8 \<Rightarrow> bytes \<Rightarrow> u32 option" where "u_strrchr = strrchr"
definition u_itoa :: "u32 \<Rightarrow> u32 \<Rightarrow> u8 list option" where "u_itoa = itoa"
definition u_utoa :: "u32 \<Rightarrow> u32 \<Rightarrow> u8 list option" where "u_utoa = utoa"
definition u_vsnprintf :: "bytes \<Rightarrow> u32 \<Rightarrow> u8 list \<Rightarrow> u32 list \<Rightarrow> u8 list option" where "u_vsnprintf = vsnprintf"

section \<open>Appending\<close>

partial_function (option) cat_loop :: "u32 \<Rightarrow> u32 \<Rightarrow> bytes \<Rightarrow> bytes option" where
  "cat_loop ptr src m = (if m src \<noteq> 0 then cat_loop (ptr + 1) (src + 1) (m(ptr := m src)) else Some (m(ptr := 0)))"

definition strcat :: "u32 \<Rightarrow> u32 \<Rightarrow> bytes \<Rightarrow> bytes option" where
  "strcat dest src m = (case u_strlen dest m of None \<Rightarrow> None | Some len \<Rightarrow> cat_loop (dest + len) src m)"

text \<open>\<^verbatim>\<open>while (*src && n--)\<close>: the count is the value of \<^verbatim>\<open>n\<close> before the test.\<close>

fun ncat_loop :: "u32 \<Rightarrow> u32 \<Rightarrow> nat \<Rightarrow> bytes \<Rightarrow> bytes" where
  "ncat_loop ptr src 0 m = m(ptr := 0)"
| "ncat_loop ptr src (Suc n) m =
     (if m src \<noteq> 0 then ncat_loop (ptr + 1) (src + 1) n (m(ptr := m src)) else m(ptr := 0))"

definition strncat :: "u32 \<Rightarrow> u32 \<Rightarrow> u32 \<Rightarrow> bytes \<Rightarrow> bytes option" where
  "strncat dest src n m =
     (case u_strlen dest m of None \<Rightarrow> None | Some len \<Rightarrow> Some (ncat_loop (dest + len) src (unat n) m))"

section \<open>Formatted output\<close>

text \<open>The size of the buffer of \<^verbatim>\<open>sprintf\<close> is not known: the limit is the largest number.\<close>

definition u_sprintf :: "bytes \<Rightarrow> u8 list \<Rightarrow> u32 list \<Rightarrow> u8 list option" where
  "u_sprintf m fmt args = u_vsnprintf m (- 1) fmt args"

definition u_snprintf :: "bytes \<Rightarrow> u32 \<Rightarrow> u8 list \<Rightarrow> u32 list \<Rightarrow> u8 list option" where
  "u_snprintf m cap fmt args = u_vsnprintf m cap fmt args"

text \<open>
  The memory of the process, where strings among the arguments are read (they have to be readable: an
  address without a page counts as zero here). \<open>buf\<close> is the address of the local array.
\<close>

definition user_memory :: "kernel \<Rightarrow> bytes" where
  "user_memory k = (\<lambda>a. case user_byte (vm k) a of None \<Rightarrow> 0 | Some b \<Rightarrow> b)"

definition u_vprintf :: "env \<Rightarrow> registers \<Rightarrow> u32 \<Rightarrow> u8 list \<Rightarrow> u32 list \<Rightarrow> kernel \<Rightarrow> (u32 \<times> kernel) option" where
  "u_vprintf e r buf fmt args k =
     (case u_vsnprintf (user_memory k) 1024 fmt args of None \<Rightarrow> None
      | Some out \<Rightarrow>
          (case store_user buf (out @ [0]) k of None \<Rightarrow> None
           | Some k1 \<Rightarrow> (case u_print e r buf k1 of None \<Rightarrow> None | Some (_, k2) \<Rightarrow> Some (of_nat (length out), k2))))"

definition u_printf :: "env \<Rightarrow> registers \<Rightarrow> u32 \<Rightarrow> u8 list \<Rightarrow> u32 list \<Rightarrow> kernel \<Rightarrow> (u32 \<times> kernel) option" where
  "u_printf e r buf fmt args k = u_vprintf e r buf fmt args k"

section \<open>Lemmas\<close>

lemma ncat_loop_at:
  assumes "cstr m src t" "length t < 2 ^ 32 - 1"
    and "\<forall>a. in_range a q (Suc (min n (length t))) \<longrightarrow> \<not> in_range a src (Suc (length t))"
  shows "ncat_loop q src n m a =
    (if in_range a q (min n (length t)) then t ! unat (a - q) else if a = q + of_nat (min n (length t)) then 0 else m a)"
  using assms
proof (induction n arbitrary: q src m t)
  case (Suc n)
  show ?case
  proof (cases t)
    case Nil
    then show ?thesis using Suc.prems(1) by simp
  next
    case (Cons c u)
    have c: "c \<noteq> 0" "m src = c" "cstr m (src + 1) u" using Suc.prems(1) Cons by simp_all
    let ?k = "min n (length u)"
    have k: "?k < 2 ^ 32 - 1" "Suc ?k < 2 ^ 32" "length u < 2 ^ 32 - 1" using Suc.prems(2) Cons by simp_all
    have mk: "min (Suc n) (length t) = Suc ?k" using Cons by simp
    have apart: "\<not> in_range x (src + 1) (Suc (length u))" if "in_range x q (Suc (Suc ?k))" for x
      using Suc.prems(3) that Suc.prems(2) in_range_Suc [of "Suc (length u)" x src] unfolding mk by (auto simp: Cons)
    have "in_range q q (Suc (Suc ?k))" by (simp add: in_range_def)
    then have u: "cstr (m(q := c)) (src + 1) u" using c(3) apart k(3) by (intro cstr_upd) simp_all
    have ap: "\<forall>x. in_range x (q + 1) (Suc ?k) \<longrightarrow> \<not> in_range x (src + 1) (Suc (length u))"
      using apart in_range_Suc [of "Suc ?k"] k(2) by blast
    obtain m1 where m1: "m1 = m(q := c)" by blast
    note IH = Suc.IH [OF u k(3) ap, folded m1]
    have step: "ncat_loop q src (Suc n) m = ncat_loop (q + 1) (src + 1) n m1" "m1 q = c" "a \<noteq> q \<Longrightarrow> m1 a = m a"
      using c by (simp_all add: m1)
    have start: "\<not> in_range q (q + 1) ?k" "q \<noteq> q + 1 + of_nat ?k"
      using in_range_start [of "Suc ?k" q] k in_range_last [of ?k q "q + 1"] by auto
    have idx: "unat (a - q) = Suc (unat (a - (q + 1)))" if "a \<noteq> q"
      using that unat_u32_less_Suc [OF that] by (simp add: unat_gt_0)
    show ?thesis
    proof (cases "a = q")
      case True
      then show ?thesis using IH start k unfolding mk step(1) by (simp add: Cons in_range_Suc step(2))
    next
      case False
      have "in_range a q (Suc ?k) \<longleftrightarrow> in_range a (q + 1) ?k" using in_range_Suc [of ?k a q] k False by simp
      moreover have "q + of_nat (Suc ?k) = q + 1 + of_nat ?k" by simp
      ultimately show ?thesis using IH step(3) False idx [OF False] unfolding mk step(1) by (simp add: Cons)
    qed
  qed
qed simp

lemma in_range_before:
  assumes "i < l" "l + k \<le> 2 ^ 32" "0 < k"
  shows "\<not> in_range (p + of_nat i) (p + of_nat l) k"
proof -
  have "p + of_nat i - (p + of_nat l) = of_nat i - (of_nat l :: u32)" by simp
  moreover have "unat (of_nat i :: u32) = i" "unat (of_nat l :: u32) = l" using assms by simp_all
  ultimately show ?thesis using assms by (simp add: in_range_def unat_sub_if_size word_size)
qed

lemma cstr_char: "cstr m p s \<Longrightarrow> i < length s \<Longrightarrow> m (p + of_nat i) = s ! i"
  using cstr_at [of m p "take i s" "s ! i # drop (Suc i) s"] id_take_nth_drop [of i s] by simp

lemma ncat_appends:
  assumes "cstr m dest s" "cstr m src t" "length s + length t < 2 ^ 32 - 1"
    and "\<forall>a. in_range a (dest + of_nat (length s)) (Suc (min n (length t))) \<longrightarrow> \<not> in_range a src (Suc (length t))"
  defines "m' \<equiv> ncat_loop (dest + of_nat (length s)) src n m"
  shows "cstr m' dest (s @ take n t)"
    "\<not> in_range a (dest + of_nat (length s)) (Suc (min n (length t))) \<Longrightarrow> m' a = m a"
proof -
  let ?l = "length s" and ?k = "min n (length t)"
  let ?q = "dest + of_nat ?l"
  have k: "?l + Suc ?k \<le> 2 ^ 32" "length t < 2 ^ 32 - 1" "?k < 2 ^ 32" using assms(3) by simp_all
  note at = ncat_loop_at [OF assms(2) k(2) assms(4), folded m'_def]
  show "\<not> in_range a ?q (Suc ?k) \<Longrightarrow> m' a = m a" for a
    using at [of a] in_range_last [OF k(3), of a ?q] by simp
  show "cstr m' dest (s @ take n t)"
  proof (rule cstr_nth)
    show "0 \<notin> set (s @ take n t)"
      using cstr_nonzero [OF assms(1)] cstr_nonzero [OF assms(2)] by (auto dest: in_set_takeD)
    fix i assume i: "i \<le> length (s @ take n t)"
    show "m' (dest + of_nat i) = (if i < length (s @ take n t) then (s @ take n t) ! i else 0)"
    proof (cases "i < ?l")
      case True
      have "\<not> in_range (dest + of_nat i) ?q (Suc ?k)" by (rule in_range_before [OF True k(1)]) simp
      then show ?thesis
        using at [of "dest + of_nat i"] in_range_last [OF k(3), of "dest + of_nat i" ?q] True cstr_char [OF assms(1) True]
        by (simp add: nth_append)
    next
      case False
      then obtain j where j: "i = ?l + j" by (metis le_add_diff_inverse not_less)
      have jk: "j \<le> ?k" using i j by simp
      then have "j < 2 ^ 32" using k(3) by linarith
      then have jlt: "j < 4294967296" by simp
      then have u: "unat (of_nat j :: u32) = j" by simp
      have a: "dest + of_nat i - ?q = of_nat j" "dest + of_nat i = ?q + of_nat j" by (simp_all add: j)
      have "in_range (dest + of_nat i) ?q ?k \<longleftrightarrow> j < ?k" by (simp only: in_range_def a(1) u)
      moreover have "?q + of_nat j = ?q + of_nat ?k \<longleftrightarrow> j = ?k" using of_nat_u32_eq [OF jlt, of ?k] k(3) by simp
      ultimately show ?thesis using at [of "dest + of_nat i"] jk unfolding a(1) u by (auto simp: j nth_append)
    qed
  qed
qed

lemma cat_loop_ncat:
  assumes "cstr m src t" "length t < 2 ^ 32 - 1" "\<forall>a. in_range a q (Suc (length t)) \<longrightarrow> \<not> in_range a src (Suc (length t))"
  shows "cat_loop q src m = Some (ncat_loop q src (length t) m)"
  using assms
proof (induction t arbitrary: q src m)
  case Nil
  then show ?case by (subst cat_loop.simps) simp
next
  case (Cons c u)
  have c: "c \<noteq> 0" "m src = c" "cstr m (src + 1) u" and k: "length u < 2 ^ 32 - 1" "Suc (length u) < 2 ^ 32"
    using Cons.prems by simp_all
  have apart: "\<not> in_range x (src + 1) (Suc (length u))" if "in_range x q (Suc (Suc (length u)))" for x
    using Cons.prems(3) that in_range_Suc [of "Suc (length u)" x src] k(2) by auto
  have "in_range q q (Suc (Suc (length u)))" by (simp add: in_range_def)
  then have u: "cstr (m(q := c)) (src + 1) u" using c(3) apart k(1) by (intro cstr_upd) simp_all
  have ap: "\<forall>x. in_range x (q + 1) (Suc (length u)) \<longrightarrow> \<not> in_range x (src + 1) (Suc (length u))"
    using apart in_range_Suc [of "Suc (length u)"] k(2) by blast
  obtain m1 where m1: "m1 = m(q := c)" by blast
  show ?case using c Cons.IH [OF u k(1) ap, folded m1] by (subst cat_loop.simps) (simp flip: m1)
qed

text \<open>The text that a process finds where bytes are stored that contain a zero.\<close>

lemma user_text_bytes:
  assumes "\<forall>i < length bs. may_access k False (a + of_nat i) \<and> peek (kbytes k) (cur_pd k) (a + of_nat i) = Some (bs ! i)" "0 \<in> set bs"
  shows "user_text n a k = take n (takeWhile (\<lambda>c. c \<noteq> 0) bs)"
  using assms
proof (induction n arbitrary: a bs)
  case (Suc n)
  then obtain b cs where bs: "bs = b # cs" by (cases bs) auto
  have b: "may_access k False a" "peek (kbytes k) (cur_pd k) a = Some b"
    using Suc.prems(1) [rule_format, of 0] by (simp_all add: bs)
  have cs: "\<forall>i < length cs. may_access k False (a + 1 + of_nat i) \<and> peek (kbytes k) (cur_pd k) (a + 1 + of_nat i) = Some (cs ! i)"
  proof (intro allI impI)
    fix i assume "i < length cs"
    then show "may_access k False (a + 1 + of_nat i) \<and> peek (kbytes k) (cur_pd k) (a + 1 + of_nat i) = Some (cs ! i)"
      using Suc.prems(1) [rule_format, of "Suc i"] by (simp add: bs add.assoc)
  qed
  show ?case
  proof (cases "b = 0")
    case False
    then have "0 \<in> set cs" using Suc.prems(2) by (simp add: bs)
    then show ?thesis using Suc.IH [OF cs] b False by (simp add: bs)
  qed (use b bs in simp)
qed simp

section \<open>Properties\<close>

text \<open>
  Appending. \<^verbatim>\<open>strncat\<close> and \<^verbatim>\<open>strcat\<close>, with a source that the bytes written do not overlap: the
  destination holds its string followed by the source, for \<^verbatim>\<open>strncat\<close> by the first \<^verbatim>\<open>n\<close> characters of it,
  always with a terminating zero, and nothing else changes.
\<close>

theorem strcat_appends:
  assumes "cstr m dest s" "cstr m src t" "length s + length t < 2 ^ 32 - 1"
    and "\<forall>a. in_range a (dest + of_nat (length s)) (Suc (length t)) \<longrightarrow> \<not> in_range a src (Suc (length t))"
  shows "(\<exists>m'. strncat dest src n m = Some m' \<and> cstr m' dest (s @ take (unat n) t)
      \<and> (\<forall>a. \<not> in_range a (dest + of_nat (length s)) (Suc (min (unat n) (length t))) \<longrightarrow> m' a = m a))
    \<and> (\<exists>m'. strcat dest src m = Some m' \<and> cstr m' dest (s @ t)
      \<and> (\<forall>a. \<not> in_range a (dest + of_nat (length s)) (Suc (length t)) \<longrightarrow> m' a = m a))"
proof (rule conjI)
  have ap: "\<forall>a. in_range a (dest + of_nat (length s)) (Suc (min k (length t))) \<longrightarrow> \<not> in_range a src (Suc (length t))" for k
    using assms(4) by (auto simp: in_range_def)
  note N1 = ncat_appends [where n = "unat n", OF assms(1-3) ap]
  note N2 = ncat_appends [where n = "length t", OF assms(1-3) ap]
  have len: "u_strlen dest m = Some (of_nat (length s))" using strlen_cstr [OF assms(1)] by (simp add: u_strlen_def)
  show "\<exists>m'. strncat dest src n m = Some m' \<and> cstr m' dest (s @ take (unat n) t)
      \<and> (\<forall>a. \<not> in_range a (dest + of_nat (length s)) (Suc (min (unat n) (length t))) \<longrightarrow> m' a = m a)"
    using N1 by (simp add: strncat_def len)
  have "cat_loop (dest + of_nat (length s)) src m = Some (ncat_loop (dest + of_nat (length s)) src (length t) m)"
    using assms(3,4) by (intro cat_loop_ncat [OF assms(2)]) simp_all
  then show "\<exists>m'. strcat dest src m = Some m' \<and> cstr m' dest (s @ t)
      \<and> (\<forall>a. \<not> in_range a (dest + of_nat (length s)) (Suc (length t)) \<longrightarrow> m' a = m a)"
    using N2 by (simp add: strcat_def len)
qed

text \<open>\<^verbatim>\<open>a\<close> and the first character of \<^verbatim>\<open>bc\<close>.\<close>

lemma strcat_appends_witness:
  "\<exists>m'. strncat 100 200 1 ((\<lambda>_. 0)(100 := 97, 200 := 98, 201 := 99)) = Some m' \<and> cstr m' 100 [97, 98]"
proof -
  let ?m = "(\<lambda>_. 0)(100 := 97, 200 := 98, 201 := 99) :: bytes"
  have "\<forall>a. in_range a (100 + of_nat (length [97 :: u8])) (Suc (length [98 :: u8, 99])) \<longrightarrow> \<not> in_range a 200 (Suc (length [98 :: u8, 99]))"
  proof (intro allI impI notI)
    fix a :: u32
    assume "in_range a (100 + of_nat (length [97 :: u8])) (Suc (length [98 :: u8, 99]))" and "in_range a 200 (Suc (length [98 :: u8, 99]))"
    then have u: "unat (a - 101) < 3" "unat (a - 200) < 3" by (simp_all add: in_range_def)
    have "unat (a - 101 - 99 + 99) = unat (a - 101 - 99) + unat (99 :: u32)"
      using u by (subst unat_add_lem [THEN iffD1]) simp_all
    with u show False by simp
  qed
  then show ?thesis using strcat_appends [of ?m 100 "[97]" 200 "[98, 99]" 1] by auto
qed

text \<open>
  C32. \<^verbatim>\<open>printf\<close> of a process. When its stack can hold the buffer, the call returns the number of
  characters that were formatted, and the terminal shows them up to the first zero, but never more than
  255 of them: the rest is lost on the way through \<^verbatim>\<open>SYS_PRINT\<close>. The memory of the process changes in the
  buffer only, and of the kernel only the terminal.
\<close>

theorem u_printf_shows:
  assumes "user_loaded k" "valid_user buf 1024 True k" "u_vsnprintf (user_memory k) 1024 fmt args = Some out"
  shows "\<exists>t. u_printf e r buf fmt args k = Some (of_nat (length out),
      k\<lparr>vm := t, terminal := term_write (take 255 (takeWhile (\<lambda>c. c \<noteq> 0) out)) (terminal k)\<rparr>)
    \<and> (\<forall>va < KERNEL_VIRT_BASE. \<not> in_range va buf 1024 \<longrightarrow> user_byte t va = user_byte (vm k) va)"
proof -
  let ?bs = "out @ [0]"
  have len: "length ?bs \<le> unat (1024 :: u32)"
    using vsnprintf_bounded [of "user_memory k" 1024 fmt args out] assms(3) by (simp add: u_vsnprintf_def)
  from store_user_ok [OF assms(1,2) len] obtain t where
    t: "store_user buf ?bs k = Some (k\<lparr>vm := t\<rparr>)" "user_stored (vm k) (cur_pd k) buf ?bs t" by blast
  let ?k1 = "k\<lparr>vm := t\<rparr>"
  have ld: "user_loaded ?k1" by (rule user_stored_loaded [OF assms(1) t(2)])
  have cr: "cr3 t = cur_pd k" using ld by (simp add: user_loaded_def)
  have acc: "may_access ?k1 False (buf + of_nat i)" if "i < 1024" for i
  proof -
    have "in_range (buf + of_nat i) buf (unat (1024 :: u32))" using that by simp
    then have "may_access k True (buf + of_nat i)" using valid_user_iff [OF assms(1)] assms(2) by simp
    moreover have "\<forall>va. user_access (kmem t) (cur_pd k) True va = may_access k True va" using t(2) by (simp add: user_stored_def)
    ultimately have "user_access (kmem t) (cur_pd k) True (buf + of_nat i)" by simp
    then show ?thesis by (simp add: user_access_def)
  qed
  have stored: "\<forall>i < length ?bs. may_access ?k1 False (buf + of_nat i) \<and> peek (kbytes ?k1) (cur_pd ?k1) (buf + of_nat i) = Some (?bs ! i)"
  proof (intro allI impI conjI)
    fix i assume i: "i < length ?bs"
    show "may_access ?k1 False (buf + of_nat i)" using acc i len by simp
    show "peek (kbytes ?k1) (cur_pd ?k1) (buf + of_nat i) = Some (?bs ! i)"
      using stored_bytes [OF assms(1,2) len t(2) i] by (simp add: user_byte_peek cr)
  qed
  have "takeWhile (\<lambda>c. c \<noteq> 0) ?bs = takeWhile (\<lambda>c. c \<noteq> 0) out" by (induction out) auto
  then have shown: "user_text 255 buf ?k1 = take 255 (takeWhile (\<lambda>c. c \<noteq> 0) out)"
    using user_text_bytes [OF stored, of 255] by simp
  have "u_print e r buf ?k1 = Some (Sys_done 0, ?k1\<lparr>terminal := term_write (take 255 (takeWhile (\<lambda>c. c \<noteq> 0) out)) (terminal k)\<rparr>)"
    using sys_print_ok [OF ld, of "r\<lparr>r_eax := 3, r_ebx := buf, r_int_no := 128\<rparr>"] acc [of 0] by (simp add: libc_handlers shown)
  then have run: "u_printf e r buf fmt args k = Some (of_nat (length out),
      k\<lparr>vm := t, terminal := term_write (take 255 (takeWhile (\<lambda>c. c \<noteq> 0) out)) (terminal k)\<rparr>)"
    using assms(3) t(1) by (simp add: u_printf_def u_vprintf_def)
  have "user_byte t va = user_byte (vm k) va" if "va < KERNEL_VIRT_BASE" "\<not> in_range va buf 1024" for va
  proof -
    have "\<not> unat (va - buf) < length ?bs" using that(2) len by (simp add: in_range_def)
    then have "peek (kmem t) (cur_pd k) va = peek (kbytes k) (cur_pd k) va" using t(2) that(1) by (simp add: user_stored_def)
    then show ?thesis using cr assms(1) by (simp add: user_byte_peek user_loaded_def)
  qed
  then show ?thesis using run by blast
qed

text \<open>\<^verbatim>\<open>h%c\<close> with an \<^verbatim>\<open>i\<close>.\<close>

lemma u_printf_shows_witness:
  "\<exists>t. u_printf env_example (regs_example 0 0) 0x400400 [104, 37, 99] [105] user_example =
    Some (2, user_example\<lparr>vm := t, terminal := term_write [104, 105] (terminal user_example)\<rparr>)"
proof -
  have v: "valid_user 0x400400 1024 True user_example"
    using user_example_mem(3) [of True] by (auto simp: valid_user_iff [OF user_example_mem(1)] in_range_def unat_sub_if_size word_size split: if_splits)
  have "u_vsnprintf (user_memory user_example) 1024 [104, 37, 99] [105] = Some [104, 105]"
    by (simp add: u_vsnprintf_def vsnprintf_def fmt_parse_def fmt_size_def va_arg_def convert_def Let_def
      pad_and_put_def puts_def put_def)
  from u_printf_shows [OF user_example_mem(1) v this, of env_example "regs_example 0 0"] show ?thesis by auto
qed

end
