(* ===== verification/Descriptors.thy ===== *)
theory Descriptors
  imports Prelude
begin

text \<open>
  The descriptor tables of the processor, \<^verbatim>\<open>src/src/gdt/gdt.c\<close> and \<^verbatim>\<open>src/src/idt/idt.c\<close>, as the code
  fills them and as the processor reads them. The addresses of tables and of the assembly stubs are
  parameters; loading the tables into the processor is left out.
\<close>

section \<open>Segments\<close>

record gdt_entry =
  limit_low :: u16
  base_low :: u16
  base_mid :: u8
  access_byte :: u8
  granularity :: u8
  base_high :: u8

definition gdt_set :: "nat \<Rightarrow> u32 \<Rightarrow> u32 \<Rightarrow> u8 \<Rightarrow> u8 \<Rightarrow> (nat \<Rightarrow> gdt_entry) \<Rightarrow> nat \<Rightarrow> gdt_entry" where
  "gdt_set i base limit acc gran gdt =
     gdt(i := \<lparr>limit_low = ucast (limit AND 0xffff), base_low = ucast (base AND 0xffff),
       base_mid = ucast (drop_bit 16 base AND 0xff), access_byte = acc,
       granularity = ucast (drop_bit 16 limit AND 0x0f) OR (gran AND 0xf0),
       base_high = ucast (drop_bit 24 base AND 0xff)\<rparr>)"

text \<open>The fields of the task state segment that the code sets; \<^verbatim>\<open>memset\<close> clears all others.\<close>

record tss_entry =
  t_esp0 :: u32
  t_ss0 :: u32

definition tss_cleared :: tss_entry where
  "tss_cleared = \<lparr>t_esp0 = 0, t_ss0 = 0\<rparr>"

abbreviation TSS_SIZE :: u32 where "TSS_SIZE \<equiv> 104"

definition gdt_init :: "u32 \<Rightarrow> (nat \<Rightarrow> gdt_entry) \<Rightarrow> (nat \<Rightarrow> gdt_entry) \<times> tss_entry" where
  "gdt_init tss_base gdt =
     (let g0 = gdt_set 0 0 0 0 0 gdt;
          g1 = gdt_set 1 0 0xfffff 0x9a 0xcf g0;
          g2 = gdt_set 2 0 0xfffff 0x92 0xcf g1;
          g3 = gdt_set 3 0 0xfffff 0xfa 0xcf g2;
          g4 = gdt_set 4 0 0xfffff 0xf2 0xcf g3;
          tss_limit = tss_base + TSS_SIZE - 1
      in (gdt_set 5 tss_base tss_limit 0x89 0x00 g4, tss_cleared))"

definition tss_set_kernel_stack :: "u32 \<Rightarrow> tss_entry \<Rightarrow> tss_entry" where
  "tss_set_kernel_stack esp0 t = t\<lparr>t_esp0 := esp0, t_ss0 := 0x10\<rparr>"

section \<open>Interrupt gates\<close>

record idt_entry =
  offset_low :: u16
  selector :: u16
  gate_zero :: u8
  type_attr :: u8
  offset_high :: u16

definition idt_set_gate :: "u8 \<Rightarrow> u32 \<Rightarrow> u16 \<Rightarrow> u8 \<Rightarrow> (u8 \<Rightarrow> idt_entry) \<Rightarrow> u8 \<Rightarrow> idt_entry" where
  "idt_set_gate num handler sel attr idt =
     idt(num := \<lparr>offset_low = ucast (handler AND 0xffff), selector = sel, gate_zero = 0, type_attr = attr,
       offset_high = ucast (drop_bit 16 handler AND 0xffff)\<rparr>)"

text \<open>The gates in the order of \<^verbatim>\<open>idt_init\<close>, vector and attributes; \<open>isr n\<close> is the address of the stub.\<close>

definition idt_gates :: "(u8 \<times> u8) list" where
  "idt_gates = [(32, 0x8e), (33, 0x8e), (128, 0xee),
     (0, 0x8e), (1, 0x8e), (2, 0x8e), (3, 0x8e), (4, 0x8e), (5, 0x8e), (6, 0x8e), (7, 0x8e), (8, 0x8e), (9, 0x8e),
     (10, 0x8e), (11, 0x8e), (12, 0x8e), (13, 0x8e), (14, 0x8e), (16, 0x8e), (17, 0x8e), (18, 0x8e), (19, 0x8e)]"

definition idt_init :: "(u8 \<Rightarrow> u32) \<Rightarrow> (u8 \<Rightarrow> idt_entry) \<Rightarrow> u8 \<Rightarrow> idt_entry" where
  "idt_init isr idt = fold (\<lambda>(num, attr). idt_set_gate num (isr num) 0x08 attr) idt_gates idt"

text \<open>The writes of \<^verbatim>\<open>idt_pic_remap\<close>: port and value.\<close>

definition idt_pic_remap :: "(u16 \<times> u8) list" where
  "idt_pic_remap =
     [(0x20, 0x11), (0xa0, 0x11), (0x21, 0x20), (0xa1, 0x28), (0x21, 0x04), (0xa1, 0x02), (0x21, 0x01), (0xa1, 0x01),
      (0x21, 0x00), (0xa1, 0x00)]"

section \<open>What the processor reads\<close>

definition seg_base :: "gdt_entry \<Rightarrow> u32" where
  "seg_base g = ucast (base_low g) OR push_bit 16 (ucast (base_mid g)) OR push_bit 24 (ucast (base_high g))"

definition seg_limit :: "gdt_entry \<Rightarrow> u32" where
  "seg_limit g = ucast (limit_low g) OR push_bit 16 (ucast (granularity g AND 0x0f))"

text \<open>The last offset of a segment; bit 7 of the granularity counts pages.\<close>

definition seg_last :: "gdt_entry \<Rightarrow> u32" where
  "seg_last g = (if bit (granularity g) 7 then seg_limit g * 4096 + 4095 else seg_limit g)"

definition privilege :: "u8 \<Rightarrow> u8" where
  "privilege attr = drop_bit 5 attr AND 3"

definition gate_offset :: "idt_entry \<Rightarrow> u32" where
  "gate_offset g = ucast (offset_low g) OR push_bit 16 (ucast (offset_high g))"

text \<open>A gate that is present, and whether code of a privilege level may raise it with \<^verbatim>\<open>int\<close>.\<close>

definition gate_present :: "idt_entry \<Rightarrow> bool" where
  "gate_present g \<longleftrightarrow> bit (type_attr g) 7"

definition may_raise :: "u8 \<Rightarrow> idt_entry \<Rightarrow> bool" where
  "may_raise cpl g \<longleftrightarrow> gate_present g \<and> cpl \<le> privilege (type_attr g)"

lemma bit_masks_nat:
  "bit (0xffff :: nat) n \<longleftrightarrow> n < 16" "bit (0xff :: nat) n \<longleftrightarrow> n < 8" "bit (0x0f :: nat) n \<longleftrightarrow> n < 4"
  "bit (0xfffff :: nat) n \<longleftrightarrow> n < 20" "bit (0xf0 :: nat) n \<longleftrightarrow> 4 \<le> n \<and> n < 8"
proof -
  have "bit m n \<longleftrightarrow> n < k" if "mask k = m" for m :: nat and k using that by (auto simp: bit_mask_iff)
  from this [of 16 "0xffff"] this [of 8 "0xff"] this [of 4 "0x0f"] this [of 20 "0xfffff"]
  show "bit (0xffff :: nat) n \<longleftrightarrow> n < 16" "bit (0xff :: nat) n \<longleftrightarrow> n < 8" "bit (0x0f :: nat) n \<longleftrightarrow> n < 4"
    "bit (0xfffff :: nat) n \<longleftrightarrow> n < 20" by (simp_all add: mask_eq_exp_minus_1)
  have "push_bit 4 (mask 4 :: nat) = 0xf0" by (simp add: mask_eq_exp_minus_1 push_bit_eq_mult)
  then have "bit (0xf0 :: nat) n \<longleftrightarrow> bit (push_bit 4 (mask 4) :: nat) n" by simp
  then show "bit (0xf0 :: nat) n \<longleftrightarrow> 4 \<le> n \<and> n < 8" by (auto simp: bit_push_bit_iff bit_mask_iff)
qed

lemma bit_masks_int:
  "bit (0xffff :: int) n \<longleftrightarrow> n < 16" "bit (0xff :: int) n \<longleftrightarrow> n < 8" "bit (0x0f :: int) n \<longleftrightarrow> n < 4"
  "bit (0xfffff :: int) n \<longleftrightarrow> n < 20" "bit (0xf0 :: int) n \<longleftrightarrow> 4 \<le> n \<and> n < 8"
proof -
  have "bit m n \<longleftrightarrow> n < k" if "mask k = m" for m :: int and k using that by (auto simp: bit_mask_iff)
  from this [of 16 "0xffff"] this [of 8 "0xff"] this [of 4 "0x0f"] this [of 20 "0xfffff"]
  show "bit (0xffff :: int) n \<longleftrightarrow> n < 16" "bit (0xff :: int) n \<longleftrightarrow> n < 8" "bit (0x0f :: int) n \<longleftrightarrow> n < 4"
    "bit (0xfffff :: int) n \<longleftrightarrow> n < 20" by (simp_all add: mask_eq_exp_minus_1)
  have "push_bit 4 (mask 4 :: int) = 0xf0" by (simp add: mask_eq_exp_minus_1 push_bit_eq_mult)
  then have "bit (0xf0 :: int) n \<longleftrightarrow> bit (push_bit 4 (mask 4) :: int) n" by simp
  then show "bit (0xf0 :: int) n \<longleftrightarrow> 4 \<le> n \<and> n < 8" by (auto simp: bit_push_bit_iff bit_mask_iff)
qed

lemmas desc_bits = bit_masks_nat bit_masks_int bit_simps less_diff_conv not_less

lemma seg_base_set: "seg_base (gdt_set i base limit acc gran gdt i) = base"
proof (rule bit_word_eqI)
  fix n assume "n < LENGTH(32)"
  then consider "n < 16" | "16 \<le> n" "n < 24" | "24 \<le> n" "n < 32" by fastforce
  then show "bit (seg_base (gdt_set i base limit acc gran gdt i)) n = bit base n"
    by cases (auto simp: seg_base_def gdt_set_def desc_bits)
qed

lemma seg_limit_set: "seg_limit (gdt_set i base limit acc gran gdt i) = limit AND 0xfffff"
proof (rule bit_word_eqI)
  fix n assume "n < LENGTH(32)"
  then consider "n < 16" | "16 \<le> n" "n < 20" | "20 \<le> n" "n < 32" by fastforce
  then show "bit (seg_limit (gdt_set i base limit acc gran gdt i)) n = bit (limit AND 0xfffff) n"
    by cases (auto simp: seg_limit_def gdt_set_def desc_bits)
qed

lemma gran_set: "bit (granularity (gdt_set i base limit acc gran gdt i)) 7 = bit gran 7"
  by (simp add: gdt_set_def desc_bits)

lemma gate_offset_set: "gate_offset (idt_set_gate n handler sel attr idt n) = handler"
proof (rule bit_word_eqI)
  fix k assume "k < LENGTH(32)"
  then consider "k < 16" | "16 \<le> k" "k < 32" by fastforce
  then show "bit (gate_offset (idt_set_gate n handler sel attr idt n)) k = bit handler k"
    by cases (auto simp: gate_offset_def idt_set_gate_def desc_bits)
qed

section \<open>The tables after start-up\<close>

lemma gdt_init_entries:
  "fst (gdt_init b g) 0 = gdt_set 0 0 0 0 0 g 0"
  "fst (gdt_init b g) 1 = gdt_set 1 0 0xfffff 0x9a 0xcf g 1"
  "fst (gdt_init b g) 2 = gdt_set 2 0 0xfffff 0x92 0xcf g 2"
  "fst (gdt_init b g) 3 = gdt_set 3 0 0xfffff 0xfa 0xcf g 3"
  "fst (gdt_init b g) 4 = gdt_set 4 0 0xfffff 0xf2 0xcf g 4"
  "fst (gdt_init b g) 5 = gdt_set 5 b (103 + b) 0x89 0 g 5"
  by (simp_all add: gdt_init_def gdt_set_def Let_def)

lemma gdt_set_parts: "access_byte (gdt_set i b l acc gran g i) = acc"
  by (simp add: gdt_set_def)

text \<open>
  The segments: the four code and data segments, for the kernel the selectors 0x08 and 0x10, for
  user mode 0x1b and 0x23, start at 0 and end at the last byte of the address space, are present, and
  have the privilege levels 0, 0, 3 and 3; the fifth descriptor is the task state segment at its address.
\<close>

theorem gdt_segments:
  fixes tss_base gdt
  defines "g \<equiv> fst (gdt_init tss_base gdt)"
  shows "list_all (\<lambda>i. seg_base (g i) = 0 \<and> seg_last (g i) = 0xffffffff \<and> bit (access_byte (g i)) 7
      \<and> privilege (access_byte (g i)) = (if i \<le> 2 then 0 else 3) \<and> bit (access_byte (g i)) 3 = odd i) [1, 2, 3, 4]
    \<and> seg_base (g 5) = tss_base \<and> seg_last (g 5) = (tss_base + 103) AND 0xfffff"
proof -
  have flat: "seg_last (gdt_set i 0 0xfffff acc 0xcf gdt i) = 0xffffffff" for i acc
    by (simp add: seg_last_def gran_set seg_limit_set)
  have "list_all (\<lambda>i. seg_base (g i) = 0 \<and> seg_last (g i) = 0xffffffff \<and> bit (access_byte (g i)) 7
      \<and> privilege (access_byte (g i)) = (if i \<le> 2 then 0 else 3) \<and> bit (access_byte (g i)) 3 = odd i) [1, 2, 3, 4]"
    by (simp add: g_def gdt_init_entries [unfolded One_nat_def] gdt_init_entries seg_base_set flat gdt_set_parts privilege_def)
  moreover have "seg_base (g 5) = tss_base \<and> seg_last (g 5) = (tss_base + 103) AND 0xfffff"
    by (simp add: g_def gdt_init_entries seg_base_set seg_last_def gran_set seg_limit_set add.commute)
  ultimately show ?thesis by blast
qed

text \<open>The table of gates as static storage, before \<^verbatim>\<open>idt_init\<close>.\<close>

definition no_gates :: "u8 \<Rightarrow> idt_entry" where
  "no_gates = (\<lambda>_. \<lparr>offset_low = 0, selector = 0, gate_zero = 0, type_attr = 0, offset_high = 0\<rparr>)"

lemma set_gates:
  "distinct (map fst gs) \<Longrightarrow> fold (\<lambda>(num, attr). idt_set_gate num (isr num) sel attr) gs idt n =
    (case map_of gs n of None \<Rightarrow> idt n | Some attr \<Rightarrow> idt_set_gate n (isr n) sel attr no_gates n)"
proof (induction gs arbitrary: idt)
  case (Cons g gs)
  obtain v a where g: "g = (v, a)" by force
  have "v \<notin> dom (map_of gs)" using Cons.prems by (simp add: g dom_map_of_conv_image_fst)
  then have "map_of gs v = None" by (simp add: domIff)
  then show ?case using Cons by (auto simp: g idt_set_gate_def split: option.splits)
qed simp

text \<open>
  C33. The interrupt table after start-up: exactly the vectors of the processor's exceptions (15 aside),
  the timer, the keyboard and the system call have gates, each leads to its own stub in the kernel's code
  segment, and 128 is the only vector that user mode may raise with \<^verbatim>\<open>int\<close>.
\<close>

theorem idt_user_gate:
  fixes isr n
  defines "g \<equiv> idt_init isr no_gates n"
  shows "if n < 15 \<or> n \<in> {16, 17, 18, 19, 32, 33, 128}
    then gate_present g \<and> gate_offset g = isr n \<and> selector g = 8 \<and> may_raise 3 g = (n = 128)
    else \<not> gate_present g \<and> \<not> may_raise 3 g"
proof -
  have d: "distinct (map fst idt_gates)" by (simp add: idt_gates_def)
  have small: "n < 15 \<longleftrightarrow> n \<in> {0, 1, 2, 3, 4, 5, 6, 7, 8, 9, 10, 11, 12, 13, 14}"
  proof
    assume "n < 15"
    then have "unat n < 15" by (simp add: word_less_nat_alt)
    then have "unat n \<in> {0, 1, 2, 3, 4, 5, 6, 7, 8, 9, 10, 11, 12, 13, 14}" by (simp add: less_Suc_eq eval_nat_numeral)
    then have "word_of_nat (unat n) \<in> (word_of_nat :: nat \<Rightarrow> u8) ` {0, 1, 2, 3, 4, 5, 6, 7, 8, 9, 10, 11, 12, 13, 14 :: nat}" by (rule imageI)
    then show "n \<in> {0, 1, 2, 3, 4, 5, 6, 7, 8, 9, 10, 11, 12, 13, 14}" by simp
  qed auto
  note at = set_gates [OF d, of isr 8 no_gates n, folded idt_init_def g_def]
  show ?thesis
  proof (cases "n < 15 \<or> n \<in> {16, 17, 18, 19, 32, 33, 128}")
    case True
    then have "g = idt_set_gate n (isr n) 8 (if n = 128 then 0xee else 0x8e) no_gates n"
      unfolding small at idt_gates_def by (elim disjE insertE) simp_all
    then show ?thesis
      using True by (simp add: gate_offset_set) (simp add: idt_set_gate_def gate_present_def may_raise_def privilege_def)
  next
    case False
    then have "map_of idt_gates n = None" unfolding small idt_gates_def by simp
    then have "g = no_gates n" by (simp add: at)
    then show ?thesis using False by (simp add: no_gates_def gate_present_def may_raise_def)
  qed
qed

section \<open>Ports in user mode\<close>

text \<open>The bytes of the task state segment, and what the processor makes of them for a byte access in user mode.\<close>

definition tss_byte :: "tss_entry \<Rightarrow> nat \<Rightarrow> u8" where
  "tss_byte t i =
     (if 4 \<le> i \<and> i < 8 then ucast (drop_bit (8 * (i - 4)) (t_esp0 t))
      else if 8 \<le> i \<and> i < 12 then ucast (drop_bit (8 * (i - 8)) (t_ss0 t)) else 0)"

definition io_permitted :: "nat \<Rightarrow> tss_entry \<Rightarrow> nat \<Rightarrow> bool" where
  "io_permitted limit t port =
     (let iomap_base = unat (tss_byte t 102) + 256 * unat (tss_byte t 103); off = iomap_base + port div 8
      in 103 \<le> limit \<and> off + 1 \<le> limit \<and> off < 104 \<and> \<not> bit (tss_byte t off) (port mod 8))"



end
