(* ===== verification/Boot.thy ===== *)
theory Boot
  imports Image Scheduler Descriptors
begin

text \<open>
  The start of the kernel, \<^verbatim>\<open>kmain\<close> of \<^verbatim>\<open>src/src/kernel.c\<close>: the order in which the components are
  initialised, and what they establish together. Addresses that the linker chooses are parameters.
\<close>

section \<open>The code\<close>

text \<open>
  The three steps that set up memory. \<open>kernel_end\<close>, \<open>pdir\<close> and \<open>ptabs\<close> are the addresses of
  \<^verbatim>\<open>_kernel_end\<close>, \<^verbatim>\<open>page_directory\<close> and \<^verbatim>\<open>page_tables\<close>; \<open>None\<close> is a panic.
\<close>

definition highest_address :: "raw_boot_info \<Rightarrow> u32" where
  "highest_address raw = 0x100000 + ucast (ext_kb raw) * 1024"

definition kmain_memory :: "raw_boot_info \<Rightarrow> u32 \<Rightarrow> u32 \<Rightarrow> u32 \<Rightarrow> vm_state \<Rightarrow> heap_state \<Rightarrow> (vm_state \<times> heap_state) option" where
  "kmain_memory raw kernel_end pdir ptabs s h =
     (case pmm_init raw (kernel_end - KERNEL_VIRT_BASE) (highest_address raw) (vpm s) of None \<Rightarrow> None
      | Some p \<Rightarrow>
          (let s1 = paging_init pdir ptabs (highest_address raw) (s\<lparr>vpm := p\<rparr>) in
           case heap_init 256 (vpm s1) h of None \<Rightarrow> None
           | Some (p1, h1) \<Rightarrow> Some (s1\<lparr>vpm := p1\<rparr>, h1)))"

text \<open>What the linker and the machine fix.\<close>

record boot_env =
  be_raw :: raw_boot_info
  be_kernel_end :: u32
  be_pdir :: u32
  be_ptabs :: u32
  be_stack_top :: u32
  be_tss :: u32
  be_isr :: "u8 \<Rightarrow> u32"
  be_pic2_mask :: u8
  be_cmos :: "u8 \<Rightarrow> u8"
  be_isr_return :: u32

text \<open>The processor's tables and the writes to the ports of the interrupt controllers and the timer.\<close>

record machine =
  m_gdt :: "nat \<Rightarrow> gdt_entry"
  m_tss :: tss_entry
  m_idt :: "u8 \<Rightarrow> idt_entry"
  m_ports :: "(u16 \<times> u8) list"

text \<open>The last lines of \<^verbatim>\<open>kmain\<close>: \<open>pinit\<close> and \<open>pidle\<close> are the two processes.\<close>

definition kmain_start :: "u32 \<Rightarrow> u32 \<Rightarrow> 'a sched_state_scheme \<Rightarrow> 'a sched_state_scheme" where
  "kmain_start pinit pidle k =
     process_run pinit ((scheduler_add pinit k)\<lparr>idle_proc := pidle, scheduler_ready := True\<rparr>)"

definition kmain_processes :: "u32 \<Rightarrow> kernel \<Rightarrow> kernel option" where
  "kmain_processes ret k =
     (case process_create ret (map of_char ''/bin/idle'') [map of_char ''idle.bin''] k of
        Some (Inr pidle, k1) \<Rightarrow>
          (case process_create ret (map of_char ''/bin/init'') [map of_char ''init.bin''] k1 of
             Some (Inr pinit, k2) \<Rightarrow> Some (kmain_start pinit pidle k2)
           | _ \<Rightarrow> None)
      | _ \<Rightarrow> None)"

text \<open>
  \<open>k\<close> is the static storage of the kernel. Interrupts are enabled before the processes are created; a
  timer tick that arrives meanwhile only counts, which is left out.
\<close>

definition kmain :: "boot_env \<Rightarrow> machine \<Rightarrow> kernel \<Rightarrow> (machine \<times> kernel) option" where
  "kmain e m k =
     (case gdt_init (be_tss e) (m_gdt m) of (gdt, tss) \<Rightarrow>
        case kmain_memory (be_raw e) (be_kernel_end e) (be_pdir e) (be_ptabs e) (vm k) (kheap k) of None \<Rightarrow> None
        | Some (s, h) \<Rightarrow>
            (case pit_init 1000 of None \<Rightarrow> None
             | Some pit \<Rightarrow>
                 (case rtc_init (be_cmos e) (tick_count k) of None \<Rightarrow> None
                  | Some r \<Rightarrow>
                      (case fat_init (fat k) h of None \<Rightarrow> None
                       | Some (st, f, h1) \<Rightarrow>
                           if st \<noteq> 0 then None
                           else map_option
                             (Pair \<lparr>m_gdt = gdt, m_tss = tss_set_kernel_stack (be_stack_top e) tss,
                                m_idt = idt_init (be_isr e) (m_idt m),
                                m_ports = m_ports m @ idt_pic_remap @ [(0xa1, be_pic2_mask e OR 0x40)] @ pit\<rparr>)
                             (kmain_processes (be_isr_return e)
                               (k\<lparr>vm := s, kheap := h1, fat := f, terminal := term_init (terminal k), rtc := r,
                                  tss_esp0 := be_stack_top e\<rparr>))))))"

section \<open>Memory after start-up\<close>

text \<open>A machine with at least 4 MiB of extended memory, and a kernel image that ends below 2 MiB.\<close>

definition boot_ok :: "raw_boot_info \<Rightarrow> u32 \<Rightarrow> bool" where
  "boot_ok raw kend \<longleftrightarrow> unat (conv_kb raw) \<le> 640 \<and> 4096 \<le> unat (ext_kb raw) \<and> 0x100000 < unat kend \<and> unat kend \<le> 0x1ff000"

lemma highest_address_unat: "unat (highest_address raw) = 0x100000 + 1024 * unat (ext_kb raw)"
  using u16_less [of "ext_kb raw"] by (simp add: highest_address_def unat_plus_if' kb_bytes)

lemma boot_sizes:
  assumes "boot_ok raw kend"
  shows "bitmap_frames (highest_address raw) = 1" "256 < bitmap_first kend" "bitmap_first kend \<le> 511"
    "32 * bitmap_words (highest_address raw) \<le> frame_limit" "1280 \<le> 32 * bitmap_words (highest_address raw)"
proof -
  have e: "4096 \<le> unat (ext_kb raw)" "unat (ext_kb raw) < 65536" using assms u16_less [of "ext_kb raw"] by (simp_all add: boot_ok_def)
  define w where "w = bitmap_words (highest_address raw)"
  have w: "w = ((0x100000 + 1024 * unat (ext_kb raw)) div 4096 + 31) div 32" by (simp add: w_def bitmap_words_def highest_address_unat)
  have "0 < w" "w \<le> 1024" "40 \<le> w" using e by (simp_all add: w)
  then show "bitmap_frames (highest_address raw) = 1" "32 * bitmap_words (highest_address raw) \<le> frame_limit" "1280 \<le> 32 * bitmap_words (highest_address raw)"
    by (simp_all add: bitmap_frames_def w_def [symmetric] frame_limit_def)
  show "256 < bitmap_first kend" "bitmap_first kend \<le> 511" using assms unfolding bitmap_first_def boot_ok_def by linarith+
qed

text \<open>The lowest run of 256 free frames lies behind the bitmap.\<close>

lemma boot_run:
  assumes "boot_ok raw kend"
    and used: "\<And>n. n < frame_limit \<Longrightarrow> frame_used p n \<longleftrightarrow> bitmap_first kend \<le> n \<and> n < bitmap_first kend + 1
        \<or> n = 0 \<or> unat (conv_kb raw) div 4 \<le> n \<and> n < 256 \<or> 1024 + unat (ext_kb raw) \<le> 4 * n \<and> old n"
  shows "free_run p (bitmap_first kend + 1) 256" "q < bitmap_first kend + 1 \<Longrightarrow> \<not> free_run p q 256"
proof -
  note b = boot_sizes(2,3) [OF assms(1)]
  have c: "unat (conv_kb raw) div 4 \<le> 160" and e: "4096 \<le> unat (ext_kb raw)" using assms(1) by (auto simp: boot_ok_def)
  have "\<not> frame_used p n" if "bitmap_first kend + 1 \<le> n" "n < bitmap_first kend + 257" for n
    using that b e by (subst used) (auto simp: frame_limit_def)
  then show "free_run p (bitmap_first kend + 1) 256" by (auto simp: free_run_def)
  assume q: "q < bitmap_first kend + 1"
  obtain n where n: "q \<le> n" "n < q + 256" "n = 0 \<or> n = 255 \<or> n = bitmap_first kend"
  proof (cases "q < 256")
    case True
    then show ?thesis using that [of 0] that [of 255] by (cases "q = 0") auto
  next
    case False
    then show ?thesis using that [of "bitmap_first kend"] q b by auto
  qed
  then have "frame_used p n" using b c by (subst used) (auto simp: frame_limit_def)
  then show "\<not> free_run p q 256" using n(1,2) by (auto simp: free_run_def)
qed

text \<open>The directory and the tables lie in the image, aligned and apart.\<close>

definition layout_ok :: "u32 \<Rightarrow> u32 \<Rightarrow> u32 \<Rightarrow> bool" where
  "layout_ok kend pd pt \<longleftrightarrow> page_aligned pd \<and> page_aligned pt \<and> 0x100000 \<le> unat pd \<and> unat pd + 4096 \<le> unat kend
     \<and> 0x100000 \<le> unat pt \<and> unat pt + 17 * 4096 \<le> unat kend
     \<and> (unat pd < unat pt \<or> unat pt + 17 * 4096 \<le> unat pd)"

text \<open>The directory that \<^verbatim>\<open>paging_init\<close> builds, by its entries.\<close>

lemma kernel_directory:
  assumes dirs: "\<forall>j < 1024. entry m pd j = (if 768 \<le> unat j \<and> unat j < 768 + N then pt + 4096 * (j - 768) OR 3 else 0)"
    and lay: "layout_ok kend pd pt" "N \<le> 17"
  shows "tables_ok m pd" "tables_rw m pd" "\<not> upper_user m pd va"
    "j < 1024 \<Longrightarrow> pd_present m pd j \<Longrightarrow> unat pt \<le> unat (table_at m pd j) \<and> unat (table_at m pd j) + 4096 \<le> unat kend"
proof -
  note dir = dirs [rule_format]
  have pres: "pd_present m pd j \<longleftrightarrow> 768 \<le> unat j \<and> unat j < 768 + N" if "j < 1024" for j
    using dir [OF that] by (simp add: pd_present_def bit_simps)
  have T: "unat (pt + 4096 * (j - 768)) = unat pt + 4096 * (unat j - 768)" if "j < 1024" "pd_present m pd j" for j
  proof -
    have j: "768 \<le> unat j" "unat j < 785" using that pres lay(2) by auto
    have "unat (j - 768) = unat j - 768" using j(1) by (simp add: unat_sub word_le_nat_alt)
    moreover have "unat (4096 * (j - 768)) = 4096 * unat (j - 768)"
      using calculation j by (subst unat_mult_lem [THEN iffD1]) auto
    ultimately show ?thesis using j lay(1) u32_less [of kend] by (subst unat_add_lem [THEN iffD1]) (auto simp: layout_ok_def)
  qed
  have tab: "unat (table_at m pd j) = unat pt + 4096 * (unat j - 768)" if "j < 1024" "pd_present m pd j" for j
  proof -
    have "page_aligned (pt + 4096 * (j - 768))" using T [OF that] lay(1) by (simp add: page_aligned_def layout_ok_def)
    then have "table_at m pd j = pt + 4096 * (j - 768)"
      using dir [OF that(1)] that pres page_down_id by (simp add: table_at_def) (simp add: page_down_def)
    then show ?thesis using T [OF that] by simp
  qed
  have idx: "unat j - 768 \<le> 16" if "j < 1024" "pd_present m pd j" for j using pres that lay(2) by auto
  show "j < 1024 \<Longrightarrow> pd_present m pd j \<Longrightarrow> unat pt \<le> unat (table_at m pd j) \<and> unat (table_at m pd j) + 4096 \<le> unat kend"
    using tab [of j] idx [of j] lay(1) by (simp add: layout_ok_def)
  show "tables_ok m pd"
    unfolding tables_ok_def
  proof (intro conjI allI impI)
    show "page_aligned pd" using lay(1) by (simp add: layout_ok_def)
    show "table_at m pd i \<noteq> pd" if "i < 1024" "pd_present m pd i" for i
      using tab [OF that] idx [OF that] lay(1) by (auto simp: layout_ok_def)
    show "i = j" if "i < 1024" "pd_present m pd i" "j < 1024" "pd_present m pd j" "table_at m pd i = table_at m pd j" for i j
    proof -
      have "unat i - 768 = unat j - 768" using tab [OF that(1,2)] tab [OF that(3,4)] that(5) by simp
      then have "unat i = unat j" using pres [OF that(1)] pres [OF that(3)] that(2,4) by linarith
      then show ?thesis by (simp only: word_unat_eq_iff)
    qed
  qed
  show "tables_rw m pd" using dir pres by (simp add: tables_rw_def bit_simps)
  have "page_aligned (pt + 4096 * (j - 768))" if "j < 1024" "pd_present m pd j" for j
    using T [OF that] lay(1) by (simp add: page_aligned_def layout_ok_def)
  then have "\<not> bit (entry m pd j) 2" if "j < 1024" "pd_present m pd j" for j
    using dir [OF that(1)] that pres page_aligned_bit [of "pt + 4096 * (j - 768)" 2] by (simp add: bit_simps)
  then show "\<not> upper_user m pd va" using pd_index_less [of va] by (auto simp: upper_user_def)
qed

text \<open>What the three steps leave: \<open>p\<close> is the bitmap in between.\<close>

lemma kmain_memory_steps:
  assumes "boot_ok raw kend" "kend = kernel_end - KERNEL_VIRT_BASE"
  shows "\<exists>p1 h'. kmain_memory raw kernel_end pdir ptabs s h =
      Some ((paging_init pdir ptabs (highest_address raw) s)\<lparr>vpm := p1\<rparr>, h')
    \<and> heap_ok h' [(0x100000 - 12, True)] \<and> unat (free_list h') = 0xc0000000 + 4096 * (bitmap_first kend + 1) \<and> pmm_ok p1
    \<and> (\<forall>n < frame_limit. frame_used p1 n \<longleftrightarrow> bitmap_first kend \<le> n \<and> n < bitmap_first kend + 257
        \<or> n = 0 \<or> unat (conv_kb raw) div 4 \<le> n \<and> n < 256 \<or> 1024 + unat (ext_kb raw) \<le> 4 * n \<and> frame_used (vpm s) n)"
proof -
  note sz = boot_sizes [OF assms(1)]
  have "unat (conv_kb raw) \<le> 640" "0 < ext_kb raw" "unat kend \<le> 0x40000000"
    using assms(1) by (auto simp: boot_ok_def word_less_nat_alt)
  from pmm_init_frames [OF this, of "highest_address raw" "vpm s"] obtain p where
    p: "pmm_init raw kend (highest_address raw) (vpm s) = Some p" "pmm_ok p"
      "unat (bitmap_size p) = bitmap_words (highest_address raw)"
    and used: "\<And>n. n < frame_limit \<Longrightarrow> frame_used p n \<longleftrightarrow> bitmap_first kend \<le> n \<and> n < bitmap_first kend + 1
        \<or> n = 0 \<or> unat (conv_kb raw) div 4 \<le> n \<and> n < 256 \<or> 1024 + unat (ext_kb raw) \<le> 4 * n \<and> frame_used (vpm s) n"
    by (auto simp: sz(1))
  let ?r = "bitmap_first kend + 1"
  note run = boot_run [OF assms(1) used]
  have fr: "pmm_frames p = 32 * bitmap_words (highest_address raw)" by (simp add: pmm_frames_def p(3))
  have "pmm_alloc_frames 256 p \<noteq> None"
    using run(1) sz by (subst pmm_alloc_frames_find [OF p(2)]) (auto simp: find_upt_None fr intro!: exI [of _ ?r])
  then obtain a p1 where a: "pmm_alloc_frames 256 p = Some (a, p1)" by auto
  from pmm_alloc_frames_SomeE [OF p(2) a] obtain r where r: "free_run p r 256" "\<forall>q < r. \<not> free_run p q 256" "a = frame_addr r"
    "\<And>n. n < frame_limit \<Longrightarrow> frame_used p1 n \<longleftrightarrow> r \<le> n \<and> n < r + 256 \<or> frame_used p n" "bitmap_size p1 = bitmap_size p"
    by auto
  have rr: "r = ?r" using run r(1,2) by (metis linorder_neqE_nat)
  obtain h' where h: "heap_init 256 p h = Some (p1, h')" using a by (simp add: heap_init_def Let_def)
  have "?r + unat (256 :: u32) < 0x40000" using sz by simp
  from heap_init_ok [OF p(2) h this a [unfolded r(3) rr]] have
    hp: "heap_ok h' [(0x100000 - 12, True)]" "unat (free_list h') = 0xc0000000 + 4096 * ?r" by simp_all
  have pv: "vpm (paging_init pdir ptabs H x) = vpm x" "(paging_init pdir ptabs H (x\<lparr>vpm := y\<rparr>))\<lparr>vpm := z\<rparr> = (paging_init pdir ptabs H x)\<lparr>vpm := z\<rparr>" for H x y z
    by (simp_all add: paging_init_def Let_def paging_switch_directory_def)
  have "kmain_memory raw kernel_end pdir ptabs s h = Some ((paging_init pdir ptabs (highest_address raw) s)\<lparr>vpm := p1\<rparr>, h')"
    using p(1) h by (simp add: kmain_memory_def assms(2) pv)
  moreover have "pmm_ok p1" using p(2) r(5) by (simp add: pmm_ok_def)
  moreover have "frame_used p1 n \<longleftrightarrow> bitmap_first kend \<le> n \<and> n < bitmap_first kend + 257
        \<or> n = 0 \<or> unat (conv_kb raw) div 4 \<le> n \<and> n < 256 \<or> 1024 + unat (ext_kb raw) \<le> 4 * n \<and> frame_used (vpm s) n"
    if "n < frame_limit" for n
    using r(4) [OF that] used [OF that] by (auto simp: rr)
  ultimately show ?thesis using hp by blast
qed

text \<open>The last lines of \<^verbatim>\<open>kmain\<close> establish the invariant of the scheduler.\<close>

lemma kmain_start_sched:
  assumes "proc_list k = 0" "pinit \<noteq> 0" "pidle \<noteq> 0" "pinit \<noteq> pidle"
    and "p_next (procs k pidle) = 0" "p_state (procs k pidle) = PROC_READY"
  shows "sched_ok (kmain_start pinit pidle k) [pinit]"
  using assms by (simp add: sched_ok_def sched_list_def kmain_start_def process_run_def load_proc_def scheduler_add_def
    paging_switch_directory_def)

section \<open>Properties\<close>

text \<open>
  C7. Memory after start-up, on a machine with at least 4 MiB of extended memory and with a kernel image
  that ends below 2 MiB. The heap is one free block of 1 MiB right behind the frame bitmap, which follows
  the image; all memory is mapped at its kernel address and nothing below; but the frames of the image
  itself, the page directory among them, stay free and can be handed out. If they were reserved, the
  kernel directory would satisfy the invariant that address spaces and executables rely on.
\<close>

theorem boot_memory:
  assumes "boot_ok raw kend" "layout_ok kend (pdir - KERNEL_VIRT_BASE) (ptabs - KERNEL_VIRT_BASE)"
    and "kend = kernel_end - KERNEL_VIRT_BASE"
  shows "\<exists>s' h'. kmain_memory raw kernel_end pdir ptabs s h = Some (s', h')
    \<and> heap_ok h' [(0x100000 - 12, True)] \<and> unat (free_list h') = 0xc0000000 + 4096 * (bitmap_first kend + 1)
    \<and> (\<forall>va. if KERNEL_VIRT_BASE \<le> va then unat (virt_to_phys va) < unat (highest_address raw)
                  \<longrightarrow> paging_walk (cr3 s') va (kmem s') = Some (virt_to_phys va)
            else paging_walk (cr3 s') va (kmem s') = None)
    \<and> cr3 s' = pdir - KERNEL_VIRT_BASE \<and> kernel_directory_phys s' = pdir - KERNEL_VIRT_BASE
    \<and> (\<forall>n. 256 \<le> n \<and> n < bitmap_first kend \<longrightarrow> \<not> frame_used (vpm s') n)
    \<and> kernel_dir_ok (s'\<lparr>vpm := mark 0x100000 kend (vpm s')\<rparr>)"
proof -
  let ?pd = "pdir - KERNEL_VIRT_BASE" and ?pt = "ptabs - KERNEL_VIRT_BASE" and ?H = "highest_address raw"
  let ?s = "paging_init pdir ptabs ?H s"
  note sz = boot_sizes [OF assms(1)]
  have e: "unat (ext_kb raw) < 65536" using u16_less [of "ext_kb raw"] by simp
  from kmain_memory_steps [OF assms(1,3), of pdir ptabs s h] obtain p1 h' where
    m: "kmain_memory raw kernel_end pdir ptabs s h = Some (?s\<lparr>vpm := p1\<rparr>, h')"
      "heap_ok h' [(0x100000 - 12, True)]" "unat (free_list h') = 0xc0000000 + 4096 * (bitmap_first kend + 1)" "pmm_ok p1"
    and used: "\<And>n. n < frame_limit \<Longrightarrow> frame_used p1 n \<longleftrightarrow> bitmap_first kend \<le> n \<and> n < bitmap_first kend + 257
        \<or> n = 0 \<or> unat (conv_kb raw) div 4 \<le> n \<and> n < 256 \<or> 1024 + unat (ext_kb raw) \<le> 4 * n \<and> frame_used (vpm s) n"
    by blast
  have lay: "page_aligned ?pd" "page_aligned ?pt" "unat ?pt + 17 * 4096 \<le> 2 ^ 32" "unat ?pd < unat ?pt \<or> unat ?pt + 17 * 4096 \<le> unat ?pd"
    using assms(2) u32_less [of kend] by (auto simp: layout_ok_def)
  note walk = paging_init_linear_map [OF lay refl, of ?H s]
  have cr: "cr3 ?s = ?pd" "kernel_directory_phys ?s = ?pd" by (simp_all add: paging_init_def Let_def paging_switch_directory_def)
  have cover: "unat ?H \<le> num_tables ?H * 2 ^ 22"
  proof -
    have "unat (?H div 0x400000) = unat ?H div 0x400000" by (simp add: unat_div)
    moreover have "unat ?H div 0x400000 \<le> 16" using e by (simp add: highest_address_unat)
    ultimately have "num_tables ?H = unat ?H div 0x400000 + 1"
      by (simp add: num_tables_def MAX_TABLES_def min_def word_le_nat_alt unat_plus_if')
    then show ?thesis by simp
  qed
  have dir: "\<forall>j < 1024. entry (kmem ?s) ?pd j = (if 768 \<le> unat j \<and> unat j < 768 + num_tables ?H then ?pt + 4096 * (j - 768) OR 3 else 0)"
    using init_entry [OF lay refl refl lay(1), of _ ?H s] by simp
  note kd = kernel_directory [OF dir assms(2) num_tables_le]
  let ?p = "mark 0x100000 kend p1"
  have kend: "unat kend \<le> 0x1ff000" using assms(1) by (simp add: boot_ok_def)
  have image: "frame_used ?p (pgno a)" if "0x100000 \<le> unat a" "unat a + 4096 \<le> unat kend" for a
  proof -
    have "pgno 0x100000 = 256" by (simp add: pgno_def)
    moreover have "256 \<le> pgno a" "pgno a < 256 + page_count 0x100000 kend"
      using that by (simp_all add: pgno_def page_count_def)
    ultimately show ?thesis using kend by (simp add: mark_used [OF pgno_less])
  qed
  have "frame_used ?p (pgno ?pd)" using assms(2) by (intro image) (simp_all add: layout_ok_def)
  moreover have "frame_used ?p (pgno (table_at (kmem ?s) ?pd j))" if "j < 1024" "pd_present (kmem ?s) ?pd j" for j
    using kd(4) [OF that] assms(2) by (intro image) (auto simp: layout_ok_def)
  moreover have "frame_used ?p 0" using kend used [of 0] by (simp add: mark_used frame_limit_def)
  moreover have "pmm_ok ?p" using m(4) by (simp add: pmm_ok_def)
  ultimately have "kernel_dir_ok (?s\<lparr>vpm := ?p\<rparr>)" using kd(1-3) by (simp add: kernel_dir_ok_def aspace_ok_def cr)
  moreover have "\<not> frame_used p1 n" if "256 \<le> n" "n < bitmap_first kend" for n
    using that sz e assms(1) by (subst used) (auto simp: frame_limit_def boot_ok_def)
  moreover have "\<forall>va. if KERNEL_VIRT_BASE \<le> va then unat (virt_to_phys va) < unat ?H \<longrightarrow> paging_walk ?pd va (kmem ?s) = Some (virt_to_phys va)
            else paging_walk ?pd va (kmem ?s) = None"
    using walk cover by (auto simp: cr)
  ultimately show ?thesis using m(1-3) by (intro exI [of _ "?s\<lparr>vpm := p1\<rparr>"] exI [of _ h']) (simp add: cr)
qed

text \<open>15 MiB of extended memory and an image of 256 KiB.\<close>

lemma boot_memory_witness:
  "\<exists>s' h'. kmain_memory \<lparr>conv_kb = 639, ext_kb = 15360, ebda_segment = 0x9fc0\<rparr> 0xc0140000 0xc0120000 0xc0121000 vm_example heap_example = Some (s', h')
    \<and> heap_ok h' [(1048564, True)] \<and> unat (free_list h') = 0xc0141000
    \<and> paging_walk (cr3 s') 0xc0400123 (kmem s') = Some 0x400123 \<and> \<not> frame_used (vpm s') 288"
proof -
  let ?raw = "\<lparr>conv_kb = 639, ext_kb = 15360, ebda_segment = 0x9fc0\<rparr>"
  have "boot_ok ?raw 0x140000" by (simp add: boot_ok_def)
  moreover have "layout_ok 0x140000 (0xc0120000 - KERNEL_VIRT_BASE) (0xc0121000 - KERNEL_VIRT_BASE)"
    by (simp add: layout_ok_def KERNEL_VIRT_BASE_def page_aligned_def)
  moreover have "0x140000 = 0xc0140000 - KERNEL_VIRT_BASE" by (simp add: KERNEL_VIRT_BASE_def)
  ultimately have "\<exists>s' h'. kmain_memory ?raw 0xc0140000 0xc0120000 0xc0121000 vm_example heap_example = Some (s', h')
    \<and> heap_ok h' [(0x100000 - 12, True)] \<and> unat (free_list h') = 0xc0000000 + 4096 * (bitmap_first 0x140000 + 1)
    \<and> (\<forall>va. if KERNEL_VIRT_BASE \<le> va then unat (virt_to_phys va) < unat (highest_address ?raw)
                  \<longrightarrow> paging_walk (cr3 s') va (kmem s') = Some (virt_to_phys va)
            else paging_walk (cr3 s') va (kmem s') = None)
    \<and> (\<forall>n. 256 \<le> n \<and> n < bitmap_first 0x140000 \<longrightarrow> \<not> frame_used (vpm s') n)"
    using boot_memory [of ?raw "0x140000" "0xc0120000" "0xc0121000" "0xc0140000" vm_example heap_example] by blast
  then obtain s' h' where b: "kmain_memory ?raw 0xc0140000 0xc0120000 0xc0121000 vm_example heap_example = Some (s', h')"
    "heap_ok h' [(0x100000 - 12, True)]" "unat (free_list h') = 0xc0000000 + 4096 * (bitmap_first 0x140000 + 1)"
    and w: "\<And>va. if KERNEL_VIRT_BASE \<le> va then unat (virt_to_phys va) < unat (highest_address ?raw)
                  \<longrightarrow> paging_walk (cr3 s') va (kmem s') = Some (virt_to_phys va)
            else paging_walk (cr3 s') va (kmem s') = None"
    and f: "\<And>n. 256 \<le> n \<Longrightarrow> n < bitmap_first 0x140000 \<Longrightarrow> \<not> frame_used (vpm s') n" by blast
  have "paging_walk (cr3 s') 0xc0400123 (kmem s') = Some 0x400123"
    using w [of "0xc0400123"] by (simp add: highest_address_unat KERNEL_VIRT_BASE_def virt_to_phys_def)
  then show ?thesis using b f [of 288] by (simp add: bitmap_first_def)
qed

end
