(* ===== verification/Text.thy ===== *)
theory Text
  imports Prelude
begin

text \<open>
  The words of a text, shared by the normalisation of paths and the command line of the shell:
  the maximal runs of characters between separators.
\<close>

section \<open>Words\<close>

text \<open>\<open>w\<close> is the part of the current word that has been read.\<close>

fun words_from :: "('a \<Rightarrow> bool) \<Rightarrow> 'a list \<Rightarrow> 'a list \<Rightarrow> 'a list list" where
  "words_from sep w [] = (if w = [] then [] else [w])"
| "words_from sep w (c # s) =
     (if sep c then (if w = [] then words_from sep [] s else w # words_from sep [] s)
      else words_from sep (w @ [c]) s)"

abbreviation words :: "('a \<Rightarrow> bool) \<Rightarrow> 'a list \<Rightarrow> 'a list list" where
  "words sep s \<equiv> words_from sep [] s"

lemma words_from_word: "w \<noteq> [] \<Longrightarrow>
    words_from sep w s = (w @ takeWhile (\<lambda>c. \<not> sep c) s) # words sep (dropWhile (\<lambda>c. \<not> sep c) s)"
  by (induction s arbitrary: w) auto

lemma words_skip: "words sep (dropWhile sep s) = words sep s"
  by (induction s) auto

lemma words_word: "s \<noteq> [] \<Longrightarrow> \<not> sep (hd s) \<Longrightarrow>
    words sep s = takeWhile (\<lambda>c. \<not> sep c) s # words sep (dropWhile (\<lambda>c. \<not> sep c) s)"
  by (cases s) (auto simp: words_from_word)

lemma words_from_proper: "list_all (\<lambda>x. \<not> sep x) w \<Longrightarrow> list_all (\<lambda>c. c \<noteq> [] \<and> list_all (\<lambda>x. \<not> sep x) c) (words_from sep w s)"
  by (induction s arbitrary: w) auto

lemma words_proper: "c \<in> set (words sep s) \<Longrightarrow> c \<noteq> [] \<and> list_all (\<lambda>x. \<not> sep x) c"
  using words_from_proper [of sep "[]" s] by (simp add: list_all_iff [of _ "words sep s"])

lemma words_append_sep: "sep c \<Longrightarrow> words_from sep w (s @ c # t) = words_from sep w s @ words sep t"
  by (induction sep w s rule: words_from.induct) auto

lemma words_from_last: "\<forall>x \<in> set s. \<not> sep x \<Longrightarrow> words_from sep w s = (if w @ s = [] then [] else [w @ s])"
  by (induction s arbitrary: w) auto

lemma words_single: "w \<noteq> [] \<Longrightarrow> \<forall>x \<in> set w. \<not> sep x \<Longrightarrow> words sep w = [w]"
  by (simp add: words_from_last)

text \<open>The length of the words is bounded by the text.\<close>

lemma dropWhile_shorter: "q \<noteq> [] \<Longrightarrow> P (hd q) \<Longrightarrow> length (dropWhile P q) < length q"
  by (cases q) (auto intro: le_less_trans [OF length_dropWhile_le])

text \<open>Reading one word off the front: the separators, the word and the rest.\<close>

lemma word_rest_shorter:
  assumes "dropWhile sep p \<noteq> []"
  shows "length (dropWhile (\<lambda>c. \<not> sep c) (dropWhile sep p)) < length p"
proof -
  have "\<not> sep (hd (dropWhile sep p))" using hd_dropWhile [OF assms] .
  with assms have "length (dropWhile (\<lambda>c. \<not> sep c) (dropWhile sep p)) < length (dropWhile sep p)"
    by (intro dropWhile_shorter) simp_all
  also have "\<dots> \<le> length p" by (rule length_dropWhile_le)
  finally show ?thesis .
qed

lemma words_step:
  assumes "dropWhile sep p \<noteq> []"
  shows "words sep p = takeWhile (\<lambda>c. \<not> sep c) (dropWhile sep p) # words sep (dropWhile (\<lambda>c. \<not> sep c) (dropWhile sep p))"
  using words_word [of "dropWhile sep p" sep] hd_dropWhile [OF assms] assms words_skip [of sep p] by simp

lemma words_end: "dropWhile sep p = [] \<Longrightarrow> words sep p = []"
  using words_skip [of sep p] by (metis words_from.simps(1))

end
