(* ===== verification/Path.thy ===== *)
theory Path
  imports Text
begin

text \<open>
  Path names in user space, \<^verbatim>\<open>src/src/libc/path.c\<close>. A C string is the list of its characters
  without the terminating zero; the buffers of the code are long enough for what is stored in them,
  except for the output, whose size is an argument.
\<close>

section \<open>The code\<close>

abbreviation SLASH :: u8 where "SLASH \<equiv> 47"
abbreviation DOT :: u8 where "DOT \<equiv> 46"
abbreviation MAX_PATH_DEPTH :: nat where "MAX_PATH_DEPTH \<equiv> 16"

definition is_slash :: "u8 \<Rightarrow> bool" where
  "is_slash c \<longleftrightarrow> c = SLASH"

text \<open>One component: \<^verbatim>\<open>.\<close> is skipped, \<^verbatim>\<open>..\<close> pops, anything else is pushed while there is room.\<close>

definition path_push :: "u8 list list \<Rightarrow> u8 list \<Rightarrow> u8 list list" where
  "path_push stack word =
     (if word = [DOT] then stack
      else if word = [DOT, DOT] then (if stack \<noteq> [] then butlast stack else stack)
      else if length stack < MAX_PATH_DEPTH then stack @ [take 31 word]
      else stack)"

text \<open>The first loop of \<^verbatim>\<open>path_normalize\<close>; a component keeps its first 31 characters.\<close>

function path_split :: "u8 list \<Rightarrow> u8 list list \<Rightarrow> u8 list list" where
  "path_split p stack =
     (let q = dropWhile is_slash p in
      if q = [] then stack
      else path_split (dropWhile (\<lambda>c. \<not> is_slash c) q) (path_push stack (take 31 (takeWhile (\<lambda>c. \<not> is_slash c) q))))"
  by pat_completeness auto

termination path_split
proof (relation "measure (\<lambda>(p, stack). length p)", simp)
  fix p :: "u8 list" and stack :: "u8 list list" and q
  assume "q = dropWhile is_slash p" "q \<noteq> []"
  then have "length (dropWhile (\<lambda>c. \<not> is_slash c) q) < length p" using word_rest_shorter [of is_slash p] by simp
  then show "((dropWhile (\<lambda>c. \<not> is_slash c) q, path_push stack (take 31 (takeWhile (\<lambda>c. \<not> is_slash c) q))), p, stack)
    \<in> measure (\<lambda>(p, stack). length p)" by simp
qed

declare path_split.simps [simp del]

text \<open>The second loop: it stops when a component no longer fits, possibly behind a slash.\<close>

fun path_emit :: "u32 \<Rightarrow> u8 list list \<Rightarrow> u8 list \<Rightarrow> u8 list" where
  "path_emit out_size [] out = out"
| "path_emit out_size (c # cs) out =
     (if unat out_size \<le> length out + length c + 2 then out
      else path_emit out_size cs (if cs \<noteq> [] then out @ c @ [SLASH] else out @ c))"

definition path_normalize :: "u8 list \<Rightarrow> u32 \<Rightarrow> u8 list" where
  "path_normalize s out_size = path_emit out_size (path_split s []) [SLASH]"

text \<open>\<open>cwd\<close> is what \<^verbatim>\<open>getcwd\<close> stores, at most 127 characters.\<close>

definition path_resolve_cwd :: "u8 list \<Rightarrow> u8 list \<Rightarrow> u32 \<Rightarrow> u8 list" where
  "path_resolve_cwd cwd s out_size =
     path_normalize
       (if s \<noteq> [] \<and> hd s = SLASH then take 255 s
        else (let c = take 255 cwd;
                  c1 = (if c \<noteq> [] \<and> last c \<noteq> SLASH \<and> length c < 255 then c @ [SLASH] else c)
              in c1 @ take (255 - length c1) s)) out_size"

lemma is_slash_slash [simp]: "is_slash SLASH"
  by (simp add: is_slash_def)

lemma path_push_simps [simp]:
  "path_push stack [DOT] = stack" "path_push stack [DOT, DOT] = butlast stack"
  "w \<noteq> [DOT] \<Longrightarrow> w \<noteq> [DOT, DOT] \<Longrightarrow> length stack < MAX_PATH_DEPTH \<Longrightarrow> path_push stack w = stack @ [take 31 w]"
  by (auto simp: path_push_def)

section \<open>Components of a path\<close>

abbreviation components :: "u8 list \<Rightarrow> u8 list list" where
  "components \<equiv> words is_slash"

text \<open>The code splits as \<open>components\<close> does, and runs \<open>path_push\<close> on what it finds.\<close>

lemma path_split_fold: "path_split p stack = foldl path_push stack (map (take 31) (components p))"
proof (induction p stack rule: path_split.induct)
  case (1 p stack)
  let ?q = "dropWhile is_slash p"
  show ?case
  proof (cases "?q = []")
    case True
    then show ?thesis using words_end [OF True] by (subst path_split.simps) (simp add: Let_def)
  next
    case False
    from 1 [OF refl False] words_step [OF False] show ?thesis
      by (subst path_split.simps) (simp only: Let_def False if_False list.map foldl.simps)
  qed
qed

text \<open>
  What a path means, read from its end: a name counts unless a later \<^verbatim>\<open>..\<close> takes it back; \<open>n\<close> is
  the number of names that are still to be taken back.
\<close>

fun keep_names :: "nat \<Rightarrow> u8 list list \<Rightarrow> u8 list list" where
  "keep_names n [] = []"
| "keep_names n (c # cs) =
     (if c = [DOT] then keep_names n cs
      else if c = [DOT, DOT] then keep_names (Suc n) cs
      else if 0 < n then keep_names (n - 1) cs
      else c # keep_names 0 cs)"

definition resolve :: "u8 list list \<Rightarrow> u8 list list" where
  "resolve cs = rev (keep_names 0 (rev cs))"

fun join :: "u8 list list \<Rightarrow> u8 list" where
  "join [] = []"
| "join [c] = c"
| "join (c # cs) = c @ SLASH # join cs"

definition render :: "u8 list list \<Rightarrow> u8 list" where
  "render cs = SLASH # join cs"

section \<open>The stack\<close>

text \<open>The stack of the code, popped \<open>n\<close> times, is what \<open>keep_names\<close> keeps.\<close>

lemma take_butlast_minus: "take (length F - Suc n) F = take (length (butlast F) - n) (butlast F)"
  by (simp add: take_butlast butlast_conv_take min_def)

lemma foldl_path_push:
  assumes "length cs \<le> MAX_PATH_DEPTH" "\<forall>c \<in> set cs. length c \<le> 31"
  shows "length (foldl path_push [] cs) \<le> length cs \<and>
    rev (keep_names n (rev cs)) = take (length (foldl path_push [] cs) - n) (foldl path_push [] cs)"
  using assms
proof (induction cs arbitrary: n rule: rev_induct)
  case Nil
  then show ?case by simp
next
  case (snoc c cs)
  let ?F = "foldl path_push [] cs"
  have IH: "length ?F \<le> length cs" "rev (keep_names m (rev cs)) = take (length ?F - m) ?F" for m
    using snoc by simp_all
  have c: "take 31 c = c" "length ?F < MAX_PATH_DEPTH" using snoc.prems IH(1) by simp_all
  show ?case
  proof (cases "c = [DOT] \<or> c = [DOT, DOT]")
    case True
    then show ?thesis using IH take_butlast_minus [of ?F n] by auto
  next
    case False
    then have "foldl path_push [] (cs @ [c]) = ?F @ [c]" using c by simp
    then show ?thesis using IH False by (cases n) auto
  qed
qed

lemma path_split_resolve:
  assumes "length (components s) \<le> MAX_PATH_DEPTH" "\<forall>c \<in> set (components s). length c \<le> 31"
  shows "path_split s [] = resolve (components s)"
proof -
  have "map (take 31) (components s) = components s" using assms(2) by (simp add: map_idI)
  then show ?thesis using foldl_path_push [OF assms, of 0] by (simp add: path_split_fold resolve_def)
qed

text \<open>Whatever the text, the stack holds proper names only.\<close>

definition proper_name :: "u8 list \<Rightarrow> bool" where
  "proper_name c \<longleftrightarrow> c \<noteq> [] \<and> length c \<le> 31 \<and> list_all (\<lambda>x. \<not> is_slash x) c \<and> c \<noteq> [DOT] \<and> c \<noteq> [DOT, DOT]"

lemma path_push_proper:
  assumes "list_all proper_name stack" "length stack \<le> MAX_PATH_DEPTH" "c \<noteq> []" "length c \<le> 31" "list_all (\<lambda>x. \<not> is_slash x) c"
  shows "list_all proper_name (path_push stack c) \<and> length (path_push stack c) \<le> MAX_PATH_DEPTH"
  using assms by (auto simp: path_push_def proper_name_def list_all_iff dest: in_set_butlastD)

lemma foldl_push_proper:
  "list_all (\<lambda>c. c \<noteq> [] \<and> length c \<le> 31 \<and> list_all (\<lambda>x. \<not> is_slash x) c) cs \<Longrightarrow> list_all proper_name stack \<Longrightarrow> length stack \<le> MAX_PATH_DEPTH \<Longrightarrow>
    list_all proper_name (foldl path_push stack cs) \<and> length (foldl path_push stack cs) \<le> MAX_PATH_DEPTH"
  by (induction cs arbitrary: stack) (use path_push_proper in auto)

lemma path_split_proper: "list_all proper_name (path_split s []) \<and> length (path_split s []) \<le> MAX_PATH_DEPTH"
  unfolding path_split_fold
  by (rule foldl_push_proper)
    (auto simp: list_all_iff dest!: words_proper dest: in_set_takeD)

lemma components_join:
  "list_all proper_name cs \<Longrightarrow> components (join cs) = cs \<and> components (join cs @ [SLASH]) = cs"
proof (induction cs rule: join.induct)
  case (2 c)
  have "components c = [c]" using 2 by (simp add: proper_name_def list_all_iff words_single)
  then show ?case using 2 words_append_sep [of is_slash SLASH "[]" c "[]"] by simp
next
  case (3 c d cs)
  have "components c = [c]" using 3 by (simp add: proper_name_def list_all_iff words_single)
  then show ?case
    using 3 words_append_sep [of is_slash SLASH "[]" c "join (d # cs)"] words_append_sep [of is_slash SLASH "[]" c "join (d # cs) @ [SLASH]"]
    by simp
qed simp

lemma keep_proper: "list_all proper_name cs \<Longrightarrow> keep_names 0 cs = cs"
  by (induction cs) (auto simp: proper_name_def)

text \<open>Proper names that are split again are unchanged.\<close>

lemma path_split_join:
  assumes "list_all proper_name cs" "length cs \<le> MAX_PATH_DEPTH" "components s = cs"
  shows "path_split s [] = cs"
  using path_split_resolve [of s] assms by (simp add: resolve_def keep_proper list_all_iff [of proper_name] proper_name_def [of "_ :: u8 list"])

section \<open>The output\<close>

text \<open>
  The output holds the first \<open>k\<close> names; behind the last of them stands a slash when a name is missing.
\<close>

definition cut_path :: "nat \<Rightarrow> u8 list list \<Rightarrow> u8 list" where
  "cut_path k cs = join (take k cs) @ (if 0 < k \<and> k < length cs then [SLASH] else [])"

lemma path_emit_cut:
  "\<exists>k \<le> length cs. path_emit n cs out = out @ cut_path k cs
    \<and> (0 < k \<longrightarrow> length out + length (join (take k cs)) + 2 < unat n)
    \<and> (k < length cs \<longrightarrow> unat n \<le> length out + length (cut_path k cs) + length (cs ! k) + 2)"
proof (induction n cs out rule: path_emit.induct)
  case (1 n out)
  then show ?case by (simp add: cut_path_def)
next
  case (2 n c cs out)
  show ?case
  proof (cases "unat n \<le> length out + length c + 2")
    case True
    then show ?thesis by (intro exI [of _ 0]) (simp add: cut_path_def)
  next
    case False
    let ?o = "if cs \<noteq> [] then out @ c @ [SLASH] else out @ c"
    from 2 [OF False] obtain k where k: "k \<le> length cs" "path_emit n cs ?o = ?o @ cut_path k cs"
      "0 < k \<longrightarrow> length ?o + length (join (take k cs)) + 2 < unat n"
      "k < length cs \<longrightarrow> unat n \<le> length ?o + length (cut_path k cs) + length (cs ! k) + 2" by blast
    have j: "join (take (Suc k) (c # cs)) = (if k = 0 then c else c @ SLASH # join (take k cs))" if "k \<le> length cs" for k
      using that by (cases cs; cases k) auto
    have "out @ cut_path (Suc k) (c # cs) = ?o @ cut_path k cs"
      using k(1) j [OF k(1)] by (auto simp: cut_path_def)
    then show ?thesis
      using k False j [OF k(1)] by (intro exI [of _ "Suc k"]) (auto split: if_splits)
  qed
qed

lemma path_emit_all:
  assumes "cs = [] \<or> length out + length (join cs) + 2 < unat n"
  shows "path_emit n cs out = out @ join cs"
proof -
  obtain k where k: "k \<le> length cs" "path_emit n cs out = out @ cut_path k cs"
    "k < length cs \<longrightarrow> unat n \<le> length out + length (cut_path k cs) + length (cs ! k) + 2"
    using path_emit_cut by blast
  have len: "length (cut_path i ds) + length (ds ! i) \<le> length (join ds)" if "i < length ds" for i ds
    using that
  proof (induction ds arbitrary: i rule: join.induct)
    case (3 c d ds)
    show ?case
    proof (cases i)
      case 0
      then show ?thesis by (simp add: cut_path_def)
    next
      case (Suc j)
      then have "length (cut_path j (d # ds)) + length ((d # ds) ! j) \<le> length (join (d # ds))" using 3 by simp
      moreover have "length (cut_path i (c # d # ds)) \<le> Suc (length c + length (cut_path j (d # ds)))"
        using Suc 3(2) by (cases j) (simp_all add: cut_path_def)
      ultimately show ?thesis using Suc by simp
    qed
  qed (auto simp: cut_path_def)
  have "k = length cs"
  proof (rule ccontr)
    assume "k \<noteq> length cs"
    then have "k < length cs" using k(1) by simp
    with k(3) len [OF this] assms show False by auto
  qed
  then show ?thesis using k(2) by (simp add: cut_path_def)
qed

lemma length_cut_path: "length (cut_path k cs) \<le> Suc (length (join (take k cs)))" "k = 0 \<Longrightarrow> cut_path k cs = []"
  by (simp_all add: cut_path_def)

lemma components_cut: "list_all proper_name cs \<Longrightarrow> components (SLASH # cut_path k cs) = take k cs"
proof -
  assume "list_all proper_name cs"
  then have "list_all proper_name (take k cs)" by (auto simp: list_all_iff dest: in_set_takeD)
  from components_join [OF this] show ?thesis by (simp add: cut_path_def)
qed

text \<open>
  C17. Normalising a path resolves it: a path of at most 16 names of at most 31 characters, whose result
  fits into the output, becomes the absolute path of the names that count, where \<^verbatim>\<open>.\<close> never counts and
  \<^verbatim>\<open>..\<close> takes back the nearest name before it that is not taken back yet (and nothing at the root).
\<close>

theorem path_normalize_resolves:
  assumes "length (components s) \<le> MAX_PATH_DEPTH" "\<forall>c \<in> set (components s). length c \<le> 31"
    and "length (render (resolve (components s))) + 2 < unat out_size"
  shows "path_normalize s out_size = render (resolve (components s))"
  using path_emit_all [of "resolve (components s)" "[SLASH]" out_size] assms(3)
  by (simp add: path_normalize_def path_split_resolve [OF assms(1,2)] render_def)

lemma path_normalize_resolves_witness:
  "path_normalize (map (of_char) ''//usr/./lib/../../bin/../../etc/rc.d/'') 128 = map of_char ''/etc/rc.d''"
  using path_normalize_resolves [of "map (of_char) ''//usr/./lib/../../bin/../../etc/rc.d/''" 128]
  by (simp add: is_slash_def resolve_def render_def)

text \<open>
  C35. For every text and every output of at least two bytes, the result of \<^verbatim>\<open>path_normalize\<close> with its
  terminating zero fits into the output, begins with a slash, and has at most 16 components, all of them
  proper names of at most 31 characters; normalising it changes at most a slash at the end, and doing so
  again changes nothing.
\<close>

theorem path_normalize_canonical:
  assumes "2 \<le> unat out_size"
  shows "(let r = path_normalize s out_size; r2 = path_normalize r out_size in
    length r < unat out_size \<and> hd r = SLASH \<and> length (components r) \<le> MAX_PATH_DEPTH \<and> list_all proper_name (components r)
    \<and> components r2 = components r \<and> path_normalize r2 out_size = r2)"
proof -
  obtain cs where cs: "cs = path_split s []" "list_all proper_name cs" "length cs \<le> MAX_PATH_DEPTH"
    using path_split_proper by blast
  obtain k where k: "k \<le> length cs" "path_emit out_size cs [SLASH] = [SLASH] @ cut_path k cs"
    "0 < k \<longrightarrow> length [SLASH] + length (join (take k cs)) + 2 < unat out_size"
    using path_emit_cut by blast
  obtain r where r: "r = SLASH # cut_path k cs" by blast
  have n: "path_normalize s out_size = r" using k(2) by (simp add: path_normalize_def cs(1) [symmetric] r)
  have "list_all proper_name (take k cs)" "length (take k cs) \<le> MAX_PATH_DEPTH"
    using cs(2,3) by (auto simp: list_all_iff dest: in_set_takeD)
  then obtain ds where ds: "ds = take k cs" "list_all proper_name ds" "length ds \<le> MAX_PATH_DEPTH" by blast
  have c: "components r = ds" using components_cut [OF cs(2)] by (simp add: r ds(1))
  have len: "length r < unat out_size" using k(3) assms length_cut_path [of k cs] by (cases "k = 0") (auto simp: r)
  have again: "path_normalize t out_size = SLASH # join ds" if "components t = ds" for t
    using path_split_join [OF ds(2,3) that] path_emit_all [of ds "[SLASH]" out_size] k(3)
    by (cases "k = 0") (simp_all add: path_normalize_def ds(1))
  have r2: "path_normalize r out_size = SLASH # join ds" by (rule again [OF c])
  have c2: "components (SLASH # join ds) = ds" using components_join [OF ds(2)] by simp
  show ?thesis
    unfolding Let_def n r2 again [OF c2] using len c c2 ds(2,3) by (simp add: r)
qed

lemma path_normalize_canonical_witness:
  "path_normalize (map of_char ''/home/../a/bc/def'') 8 = map of_char ''/a/bc/''
    \<and> path_normalize (map of_char ''/a/bc/'') 8 = map of_char ''/a/bc''
    \<and> path_normalize (path_normalize (path_normalize (map of_char ''/home/../a/bc/def'') 8) 8) 8 = map of_char ''/a/bc''"
proof -
  have 1: "path_normalize (map of_char ''/home/../a/bc/def'') 8 = map of_char ''/a/bc/''"
    by (simp add: path_normalize_def path_split_fold is_slash_def)
  have 2: "path_normalize (map of_char ''/a/bc/'') 8 = map of_char ''/a/bc''"
    by (simp add: path_normalize_def path_split_fold is_slash_def)
  show ?thesis using path_normalize_canonical [of 8 "map of_char ''/home/../a/bc/def''"] unfolding Let_def 1 2 by simp
qed

end
