(* ===== verification/Shell.thy ===== *)
theory Shell
  imports CMem Path
begin

text \<open>
  The shell \<^verbatim>\<open>src/src/init/shell.c\<close>: line editing, splitting of the line into arguments, and the
  path of the command; what the shell does with them is in \<open>Programs\<close>. The line buffer is memory at an
  address, since \<^verbatim>\<open>parse_args\<close> returns pointers
  into the line and terminates the arguments in place; file names are lists of characters, as in \<open>Path\<close>.
\<close>

section \<open>The code\<close>

abbreviation MAX_BUF :: nat where "MAX_BUF \<equiv> 128"
abbreviation MAX_ARGS :: nat where "MAX_ARGS \<equiv> 16"

definition is_blank :: "u8 \<Rightarrow> bool" where
  "is_blank c \<longleftrightarrow> c = 32 \<or> c = 9"

partial_function (option) skip_blanks :: "u32 \<Rightarrow> bytes \<Rightarrow> u32 option" where
  "skip_blanks p m = (if is_blank (m p) then skip_blanks (p + 1) m else Some p)"

partial_function (option) skip_word :: "u32 \<Rightarrow> bytes \<Rightarrow> u32 option" where
  "skip_word p m = (if m p \<noteq> 0 \<and> \<not> is_blank (m p) then skip_word (p + 1) m else Some p)"

partial_function (option) parse_loop :: "nat \<Rightarrow> u32 \<Rightarrow> u32 list \<Rightarrow> bytes \<Rightarrow> (u32 list \<times> bytes) option" where
  "parse_loop max_args p argv m =
     (if m p \<noteq> 0 \<and> length argv < max_args then
        do { q \<leftarrow> skip_blanks p m;
             if m q = 0 then Some (argv, m)
             else do { e \<leftarrow> skip_word q m;
                       if m e \<noteq> 0 then parse_loop max_args (e + 1) (argv @ [q]) (m(e := 0))
                       else parse_loop max_args e (argv @ [q]) m } }
      else Some (argv, m))"

text \<open>The result is \<^verbatim>\<open>argv\<close>, as far as it is set; its length is \<^verbatim>\<open>argc\<close>.\<close>

definition parse_args :: "u32 \<Rightarrow> nat \<Rightarrow> bytes \<Rightarrow> (u32 list \<times> bytes) option" where
  "parse_args line max_args m = parse_loop max_args line [] m"

definition bin_dir :: "u8 list" where
  "bin_dir = [47, 98, 105, 110, 47]"

definition resolve_bin_path :: "u8 list \<Rightarrow> u8 list" where
  "resolve_bin_path nm = (if nm \<noteq> [] \<and> hd nm = SLASH then nm else bin_dir @ take MAX_BUF nm)"

definition resolve_exec_path :: "u8 list \<Rightarrow> u8 list \<Rightarrow> u8 list" where
  "resolve_exec_path cwd nm = (if SLASH \<in> set nm then path_resolve_cwd cwd nm 128 else resolve_bin_path nm)"

text \<open>
  A key that does not complete the line, on the memory and \<^verbatim>\<open>buf_index\<close>; \<open>buffer\<close> is the address of
  the line buffer.
\<close>

definition shell_key :: "u32 \<Rightarrow> u8 \<Rightarrow> bytes \<times> nat \<Rightarrow> bytes \<times> nat" where
  "shell_key buffer c s =
     (case s of (m, i) \<Rightarrow>
        if c = 8 then (if 0 < i then (m(buffer + of_nat (i - 1) := 0), i - 1) else (m, i))
        else if i < MAX_BUF - 1 then (m(buffer + of_nat i := c), i + 1)
        else (m, i))"

definition shell_prompt :: "u32 \<Rightarrow> bytes \<Rightarrow> bytes \<times> nat" where
  "shell_prompt buffer m = (memset buffer 0 128 m, 0)"

section \<open>Splitting\<close>

lemma skip_blanks_cstr: "cstr m p s \<Longrightarrow> skip_blanks p m = Some (p + of_nat (length (takeWhile is_blank s)))"
proof (induction s arbitrary: p)
  case Nil
  then show ?case by (subst skip_blanks.simps) (simp add: is_blank_def)
next
  case (Cons c s)
  then show ?case by (subst skip_blanks.simps) (simp add: add.assoc)
qed

lemma skip_word_cstr: "cstr m p s \<Longrightarrow> skip_word p m = Some (p + of_nat (length (takeWhile (\<lambda>c. \<not> is_blank c) s)))"
proof (induction s arbitrary: p)
  case Nil
  then show ?case by (subst skip_word.simps) simp
next
  case (Cons c s)
  then show ?case by (subst skip_word.simps) (simp add: add.assoc)
qed

text \<open>Cutting a string in two by a zero.\<close>

lemma cstr_cut:
  assumes "cstr m p (w @ b # t)" "unat p + length (w @ b # t) < 2 ^ 32"
  defines "e \<equiv> p + of_nat (length w)"
  shows "cstr (m(e := 0)) p w" "cstr (m(e := 0)) (e + 1) t"
proof -
  have len: "length w < 2 ^ 32" using assms(2) by simp
  show "cstr (m(e := 0)) p w"
    using assms(1) len unfolding e_def
  proof (induction w arbitrary: p)
    case (Cons c w)
    have "p \<noteq> p + of_nat (length (c # w))"
      using Cons.prems(2) of_nat_u32_eq [of "length (c # w)" 0] by simp
    moreover have "p + of_nat (length (c # w)) = p + 1 + of_nat (length w)" by simp
    ultimately show ?case using Cons.prems Cons.IH [of "p + 1"] by (simp add: add.assoc)
  qed simp
  have t: "cstr m (e + 1) t" using cstr_append [of m p "w @ [b]" t] assms(1) by (simp add: e_def ac_simps)
  have "\<not> in_range e (e + 1) (Suc (length t))" using assms(2) by (intro in_range_start) simp
  then show "cstr (m(e := 0)) (e + 1) t" using t assms(2) by (intro cstr_upd) simp_all
qed

lemma cstr_agree: "cstr m p s \<Longrightarrow> (\<And>i. i \<le> length s \<Longrightarrow> m' (p + of_nat i) = m (p + of_nat i)) \<Longrightarrow> cstr m' p s"
proof (induction s arbitrary: p)
  case (Cons c s)
  have "cstr m' (p + 1) s"
  proof (rule Cons.IH)
    show "cstr m (p + 1) s" using Cons.prems(1) by simp
    show "m' (p + 1 + of_nat i) = m (p + 1 + of_nat i)" if "i \<le> length s" for i
      using Cons.prems(2) [of "Suc i"] that by (simp add: add.assoc)
  qed
  then show ?case using Cons.prems(1) Cons.prems(2) [of 0] by simp
qed force

lemma parse_loop_words:
  assumes "cstr m p s" "unat p + length s < 2 ^ 32"
  shows "\<exists>qs m'. parse_loop max_args p argv m = Some (argv @ qs, m')
    \<and> list_all2 (cstr m') qs (take (max_args - length argv) (words is_blank s))
    \<and> (\<forall>a. \<not> in_range a p (length s) \<longrightarrow> m' a = m a)"
  using assms
proof (induction "length s" arbitrary: s p m argv rule: less_induct)
  case less
  note cs = less.prems(1) and fit = less.prems(2)
  let ?b = "takeWhile is_blank s" and ?q = "dropWhile is_blank s"
  let ?w = "takeWhile (\<lambda>c. \<not> is_blank c) ?q" and ?r = "dropWhile (\<lambda>c. \<not> is_blank c) ?q"
  let ?p1 = "p + of_nat (length ?b)"
  let ?e = "?p1 + of_nat (length ?w)"
  have cq: "cstr m ?p1 ?q" using cstr_append [of m p ?b ?q] cs by simp
  have ls: "length s = length ?b + length ?q" "length ?q = length ?w + length ?r"
    by (metis length_append takeWhile_dropWhile_id)+
  have m0: "m p = 0 \<longleftrightarrow> s = []" using cs by (cases s) auto
  show ?case
  proof (cases "s = [] \<or> max_args \<le> length argv")
    case True
    then have "parse_loop max_args p argv m = Some (argv, m)" using m0 by (subst parse_loop.simps) auto
    moreover have "take (max_args - length argv) (words is_blank s) = []" using True by auto
    ultimately show ?thesis by (intro exI [of _ "[]"] exI [of _ m]) simp
  next
    case False
    then have start: "m p \<noteq> 0" "length argv < max_args" using m0 by auto
    show ?thesis
    proof (cases "?q = []")
      case True
      then have "m ?p1 = 0" using cq unfolding True by simp
      then have "parse_loop max_args p argv m = Some (argv, m)"
        using start by (subst parse_loop.simps) (simp add: skip_blanks_cstr [OF cs])
      then show ?thesis using words_end [OF True] by (intro exI [of _ "[]"] exI [of _ m]) simp
    next
      case q: False
      then have mq: "m ?p1 \<noteq> 0" using cq by (cases ?q) auto
      have wz: "?w \<noteq> []" using hd_dropWhile [OF q] q by (cases ?q) auto
      have p1: "unat ?p1 = unat p + length ?b" using fit ls by (subst unat_add_lem [THEN iffD1]) simp_all
      have e: "unat ?e = unat ?p1 + length ?w" using fit ls p1 by (subst unat_add_lem [THEN iffD1]) simp_all
      have me: "m ?e = (case ?r of [] \<Rightarrow> 0 | c # _ \<Rightarrow> c)" using cstr_at [of m ?p1 ?w ?r] cq by simp
      have wd: "words is_blank s = ?w # words is_blank ?r" by (rule words_step [OF q])
      have run: "parse_loop max_args p argv m =
          (if m ?e \<noteq> 0 then parse_loop max_args (?e + 1) (argv @ [?p1]) (m(?e := 0)) else parse_loop max_args ?e (argv @ [?p1]) m)"
        using start mq by (subst parse_loop.simps) (simp add: skip_blanks_cstr [OF cs] skip_word_cstr [OF cq])
      have tk: "take (max_args - length argv) (words is_blank s) = ?w # take (max_args - Suc (length argv)) (words is_blank ?r)"
      proof -
        have "max_args - length argv = Suc (max_args - Suc (length argv))" using start(2) by simp
        then show ?thesis unfolding wd by (simp only: take_Suc_Cons)
      qed
      show ?thesis
      proof (cases ?r)
        case Nil
        then have z: "m ?e = 0" using me by (simp only: list.case)
        then have "parse_loop max_args ?e (argv @ [?p1]) m = Some (argv @ [?p1], m)" by (subst parse_loop.simps) simp
        then have "parse_loop max_args p argv m = Some (argv @ [?p1], m)" unfolding run using z by (simp only: if_False simp_thms)
        moreover have "cstr m ?p1 ?w" using cq Nil by (metis append_Nil2 takeWhile_dropWhile_id)
        ultimately show ?thesis unfolding tk Nil by (intro exI [of _ "[?p1]"] exI [of _ m]) simp
      next
        case (Cons b t)
        have sp: "?q = ?w @ b # t" using Cons takeWhile_dropWhile_id [of "\<lambda>c. \<not> is_blank c" ?q] by simp
        have bl: "is_blank b" using hd_dropWhile [of "\<lambda>c. \<not> is_blank c" ?q] Cons by simp
        have "b \<noteq> 0" using cstr_nonzero [OF cq] sp by (metis in_set_conv_decomp)
        then have run': "parse_loop max_args p argv m = parse_loop max_args (?e + 1) (argv @ [?p1]) (m(?e := 0))"
          unfolding run using me Cons by simp
        have cq': "cstr m ?p1 (?w @ b # t)" using cq sp by simp
        have lt: "length s = length ?b + length ?w + Suc (length t)" using ls Cons by simp
        have f1: "unat ?p1 + length (?w @ b # t) < 2 ^ 32" using fit lt p1 by simp
        note cut = cstr_cut [OF cq' f1]
        have e1: "unat (?e + 1) = unat ?e + 1" using e p1 lt fit by (subst unat_add_lem [THEN iffD1]) simp_all
        have f2: "unat (?e + 1) + length t < 2 ^ 32" using e1 e p1 lt fit by simp
        from less.hyps [OF _ cut(2) f2, of "argv @ [?p1]"] lt obtain qs m' where
          ih: "parse_loop max_args (?e + 1) (argv @ [?p1]) (m(?e := 0)) = Some ((argv @ [?p1]) @ qs, m')"
            "list_all2 (cstr m') qs (take (max_args - length (argv @ [?p1])) (words is_blank t))"
            "\<forall>a. \<not> in_range a (?e + 1) (length t) \<longrightarrow> m' a = (m(?e := 0)) a" by auto
        have wr: "words is_blank ?r = words is_blank t" using Cons bl by simp
        have "cstr m' ?p1 ?w"
        proof (rule cstr_agree [OF cut(1)])
          fix i assume i: "i \<le> length ?w"
          have "unat (?p1 + of_nat i) = unat ?p1 + i" using i e p1 lt fit by (subst unat_add_lem [THEN iffD1]) simp_all
          then have "?p1 + of_nat i < ?e + 1" using i e e1 by (simp add: word_less_nat_alt)
          then have "\<not> in_range (?p1 + of_nat i) (?e + 1) (length t)" using f2 by (intro in_range_not) simp_all
          then show "m' (?p1 + of_nat i) = (m(?e := 0)) (?p1 + of_nat i)" using ih(3) by blast
        qed
        moreover have "m' a = m a" if "\<not> in_range a p (length s)" for a
        proof -
          have "a \<noteq> ?e"
          proof
            assume "a = ?e"
            then have "a = p + of_nat (length ?b + length ?w)" by (simp add: add.assoc)
            moreover have "in_range (p + of_nat (length ?b + length ?w)) p (length s)"
              using lt fit by (intro in_range_offset) simp_all
            ultimately show False using that by simp
          qed
          moreover have "\<not> in_range a (?e + 1) (length t)"
          proof
            assume r: "in_range a (?e + 1) (length t)"
            then have "a = p + of_nat (length ?b + length ?w + 1 + unat (a - (?e + 1)))" by (simp add: add.assoc)
            moreover have "in_range (p + of_nat (length ?b + length ?w + 1 + unat (a - (?e + 1)))) p (length s)"
              using lt fit r by (intro in_range_offset) (simp_all add: in_range_def)
            ultimately show False using that by simp
          qed
          ultimately show ?thesis using ih(3) by simp
        qed
        ultimately show ?thesis
          using ih(1,2) unfolding run' tk wr by (intro exI [of _ "?p1 # qs"] exI [of _ m']) simp
      qed
    qed
  qed
qed

section \<open>Editing\<close>

text \<open>The line that a sequence of keys leaves.\<close>

definition edit_key :: "u8 list \<Rightarrow> u8 \<Rightarrow> u8 list" where
  "edit_key t c = (if c = 8 then butlast t else if length t < MAX_BUF - 1 then t @ [c] else t)"

definition edit :: "u8 list \<Rightarrow> u8 list" where
  "edit keys = foldl edit_key [] keys"

definition typed_keys :: "u32 \<Rightarrow> u8 list \<Rightarrow> bytes \<times> nat \<Rightarrow> bytes \<times> nat" where
  "typed_keys buffer keys s = foldl (\<lambda>s c. shell_key buffer c s) s keys"

text \<open>The buffer holds the line, and zeros behind it.\<close>

definition line_ok :: "u32 \<Rightarrow> bytes \<times> nat \<Rightarrow> u8 list \<Rightarrow> bool" where
  "line_ok buffer s t \<longleftrightarrow> snd s = length t \<and> length t \<le> MAX_BUF - 1 \<and> 0 \<notin> set t
     \<and> (\<forall>i < MAX_BUF. fst s (buffer + of_nat i) = (if i < length t then t ! i else 0))"

lemma buffer_eq: "i < MAX_BUF \<Longrightarrow> j < MAX_BUF \<Longrightarrow> (buffer :: u32) + of_nat i = buffer + of_nat j \<longleftrightarrow> i = j"
  using of_nat_u32_eq [of i j] by simp

lemma line_ok_key:
  assumes "line_ok buffer s t" "c \<noteq> 0" "c \<noteq> 10"
  shows "line_ok buffer (shell_key buffer c s) (edit_key t c)"
proof -
  obtain m i where s: "s = (m, i)" by (cases s)
  have ok: "i = length t" "length t \<le> MAX_BUF - 1" "0 \<notin> set t" "\<And>j. j < MAX_BUF \<Longrightarrow> m (buffer + of_nat j) = (if j < length t then t ! j else 0)"
    using assms(1) by (simp_all add: line_ok_def s)
  consider "c = 8" "t \<noteq> []" | "c = 8" "t = []" | "c \<noteq> 8" "length t < MAX_BUF - 1" | "c \<noteq> 8" "\<not> length t < MAX_BUF - 1" by blast
  then show ?thesis
  proof cases
    case 1
    then show ?thesis using ok assms(3) buffer_eq
      by (auto simp: shell_key_def edit_key_def s line_ok_def nth_butlast dest: in_set_butlastD)
  next
    case 3
    then show ?thesis using ok assms(2,3) buffer_eq
      by (auto simp: shell_key_def edit_key_def s line_ok_def nth_append)
  qed (use assms ok in \<open>auto simp: shell_key_def edit_key_def s line_ok_def\<close>)
qed

lemma line_ok_typed:
  "line_ok buffer s t \<Longrightarrow> 0 \<notin> set keys \<Longrightarrow> 10 \<notin> set keys \<Longrightarrow>
    line_ok buffer (typed_keys buffer keys s) (foldl edit_key t keys)"
proof (induction keys arbitrary: s t)
  case (Cons c keys)
  have "line_ok buffer (shell_key buffer c s) (edit_key t c)" using Cons.prems by (intro line_ok_key) auto
  then show ?case using Cons.IH [of "shell_key buffer c s" "edit_key t c"] Cons.prems by (simp add: typed_keys_def)
qed (simp add: typed_keys_def)

lemma prompt_ok: "line_ok buffer (shell_prompt buffer m) []"
  by (simp add: line_ok_def shell_prompt_def memset_at in_range_def)

lemma line_cstr: "line_ok buffer (m, i) t \<Longrightarrow> cstr m buffer t"
  by (intro cstr_nth) (auto simp: line_ok_def)

lemma line_ok_length: "line_ok buffer s t \<Longrightarrow> length t < MAX_BUF"
  by (simp add: line_ok_def)

lemma typed_line_words:
  assumes "0 \<notin> set keys" "10 \<notin> set keys" "unat buffer + 128 < 2 ^ 32"
  shows "\<exists>argv m'. parse_args buffer MAX_ARGS (fst (typed_keys buffer keys (shell_prompt buffer m))) = Some (argv, m')
    \<and> list_all2 (cstr m') argv (take MAX_ARGS (words is_blank (edit keys)))
    \<and> (\<forall>a. \<not> in_range a buffer 128 \<longrightarrow> m' a = m a)"
proof -
  obtain m1 i where t: "typed_keys buffer keys (shell_prompt buffer m) = (m1, i)" by force
  have ok: "line_ok buffer (m1, i) (edit keys)"
    using line_ok_typed [OF prompt_ok assms(1,2), of buffer m] by (simp add: t edit_def)
  note len = line_ok_length [OF ok]
  have "unat buffer + length (edit keys) < 2 ^ 32" using len assms(3) by simp
  from parse_loop_words [OF line_cstr [OF ok] this, of MAX_ARGS "[]"] obtain argv m' where
    p: "parse_loop MAX_ARGS buffer [] m1 = Some (argv, m')" "list_all2 (cstr m') argv (take MAX_ARGS (words is_blank (edit keys)))"
      "\<forall>a. \<not> in_range a buffer (length (edit keys)) \<longrightarrow> m' a = m1 a" by auto
  have "m1 a = m a" if "\<not> in_range a buffer 128" for a
  proof -
    have key: "fst (shell_key buffer c (m2, j)) a = m2 a \<and> snd (shell_key buffer c (m2, j)) \<le> 128"
      if "j \<le> 128" for c m2 j
    proof -
      have ne: "a \<noteq> buffer + of_nat i" if "i < 128" for i
        using that \<open>\<not> in_range a buffer 128\<close> in_range_offset [of i 128 buffer] by auto
      show ?thesis using \<open>j \<le> 128\<close> ne [of j] ne [of "j - 1"] by (cases j) (simp_all add: shell_key_def)
    qed
    have "fst (typed_keys buffer ks (m2, j)) a = m2 a" if "j \<le> 128" for ks m2 j
      using that
    proof (induction ks arbitrary: m2 j)
      case (Cons c ks)
      obtain m3 j3 where n: "shell_key buffer c (m2, j) = (m3, j3)" by force
      then show ?case using Cons.IH [of j3 m3] key [OF Cons.prems, of c m2] by (simp add: typed_keys_def)
    qed (simp add: typed_keys_def)
    from this [of 0 keys "memset buffer 0 128 m"] t that show ?thesis by (simp add: shell_prompt_def memset_at)
  qed
  moreover have "in_range a buffer (length (edit keys)) \<Longrightarrow> in_range a buffer 128" for a using len by (simp add: in_range_def)
  ultimately have "\<forall>a. \<not> in_range a buffer 128 \<longrightarrow> m' a = m a" using p(3) by metis
  then show ?thesis using p(1,2) by (intro exI [of _ argv] exI [of _ m']) (simp add: parse_args_def t)
qed

text \<open>
  C19. The command line. Whatever is typed after the prompt, backspaces, blanks and overlong lines
  included, \<^verbatim>\<open>parse_args\<close> then returns pointers to exactly the first 16 words of the edited line, as
  zero-terminated strings, and no memory outside of the line buffer has changed.
\<close>

theorem shell_line_words:
  assumes "0 \<notin> set keys" "10 \<notin> set keys" "unat buffer + 128 < 2 ^ 32"
  shows "\<exists>argv m'. parse_args buffer MAX_ARGS (fst (typed_keys buffer keys (shell_prompt buffer m))) = Some (argv, m')
    \<and> list_all2 (cstr m') argv (take MAX_ARGS (words is_blank (edit keys)))
    \<and> (\<forall>a. \<not> in_range a buffer 128 \<longrightarrow> m' a = m a)"
  by (rule typed_line_words [OF assms])

text \<open>\<^verbatim>\<open>cat x\<close>, two backspaces, and \<^verbatim>\<open>y   z\<close>.\<close>

lemma shell_line_words_witness:
  "\<exists>p q m'. parse_args 0x8000 MAX_ARGS (fst (typed_keys 0x8000 ([99, 97, 116, 32, 120, 8, 8, 121] @ [32, 9, 32, 122]) (shell_prompt 0x8000 (\<lambda>_. 7)))) = Some ([p, q], m')
    \<and> cstr m' p [99, 97, 116, 121] \<and> cstr m' q [122] \<and> m' 0x9000 = 7"
proof -
  have w: "words is_blank (edit ([99, 97, 116, 32, 120, 8, 8, 121] @ [32, 9, 32, 122])) = [[99, 97, 116, 121], [122]]"
    by (simp add: edit_def edit_key_def is_blank_def)
  have "\<not> in_range 0x9000 0x8000 128" by (simp add: in_range_def)
  then show ?thesis
    using shell_line_words [of "[99, 97, 116, 32, 120, 8, 8, 121] @ [32, 9, 32, 122]" "0x8000" "\<lambda>_. 7"] unfolding w
    by (auto simp: list_all2_Cons2)
qed

end
