(* ===== verification/Programs.thy ===== *)
theory Programs
  imports Shell Fmt Rtc
begin

text \<open>
  The user programs of \<^verbatim>\<open>src/src/init\<close>. A program is the tree of the calls of the C library that it
  makes, branching on what the calls answer, down to its exit status; its memory is in the tree, so that
  programs can be run on any model of the system. Formatting and cutting of what is printed is the
  matter of \<^verbatim>\<open>printf\<close> (\<open>Fmt\<close>, \<open>Libc_Text\<close>): a call has the format and its arguments.
\<close>

section \<open>Programs\<close>

datatype printf_arg = Arg_int u32 | Arg_str "u8 list"

datatype libc_call =
    Call_printf string "printf_arg list"
  | Call_getchar u32
  | Call_getcwd
  | Call_chdir "u8 list"
  | Call_stat "u8 list"
  | Call_open "u8 list" u32
  | Call_read u32 u32 u32
  | Call_close u32
  | Call_opendir "u8 list"
  | Call_readdir u32
  | Call_closedir u32
  | Call_spawn "u8 list" "u8 list list"
  | Call_wait u32
  | Call_kill u32
  | Call_ps u32 u32
  | Call_gettime
  | Call_getuptime
  | Call_yield
  | Call_malloc u32
  | Call_free u32

record proc_entry =
  pe_pid :: u32
  pe_ppid :: u32
  pe_state :: u32
  pe_name :: "u8 list"

text \<open>
  The value a call returns and what the buffer that it was given holds afterwards: the bytes or the name,
  the size, the attributes, the time or the table of processes.
\<close>

record answer =
  ans_ret :: u32
  ans_text :: "u8 list"
  ans_size :: u32
  ans_attr :: u8
  ans_time :: rtc_time
  ans_procs :: "proc_entry list"

text \<open>\<open>Unseen\<close> is where the observation of a program that goes on ends.\<close>

datatype program = Exit u32 | Unseen | Ask libc_call "answer \<Rightarrow> program"

text \<open>A program on a system: the system afterwards, and the exit status of a program that ends.\<close>

primrec run :: "(libc_call \<Rightarrow> 's \<Rightarrow> answer \<times> 's) \<Rightarrow> program \<Rightarrow> 's \<Rightarrow> 's \<times> u32 option" where
  "run sys (Exit st) s = (s, Some st)"
| "run sys Unseen s = (s, None)"
| "run sys (Ask c k) s = (case sys c s of (a, s1) \<Rightarrow> run sys (k a) s1)"

abbreviation LF :: char where "LF \<equiv> CHR 0x0A"
abbreviation QUOTE :: char where "QUOTE \<equiv> CHR 0x27"
abbreviation BACKSLASH :: char where "BACKSLASH \<equiv> CHR 0x5C"
abbreviation ESC :: char where "ESC \<equiv> CHR 0x1B"

abbreviation say :: "string \<Rightarrow> printf_arg list \<Rightarrow> program \<Rightarrow> program" where
  "say fmt args p \<equiv> Ask (Call_printf fmt args) (\<lambda>_. p)"

text \<open>\<^verbatim>\<open>argv[1]\<close>, which is \<^verbatim>\<open>NULL\<close> when there is no such argument.\<close>

definition arg1 :: "u8 list list \<Rightarrow> u8 list option" where
  "arg1 argv = (if 2 \<le> length argv then Some (argv ! 1) else None)"

text \<open>\<^verbatim>\<open>path_resolve_cwd\<close> into a buffer of 128 bytes.\<close>

definition resolved :: "u8 list \<Rightarrow> (u8 list \<Rightarrow> program) \<Rightarrow> program" where
  "resolved path k = Ask Call_getcwd (\<lambda>a. k (path_resolve_cwd (ans_text a) path 128))"

definition c_string :: "u8 list \<Rightarrow> u8 list" where
  "c_string bs = takeWhile (\<lambda>c. c \<noteq> 0) bs"

section \<open>Files and directories\<close>

text \<open>\<open>after\<close> is the memory behind the buffer, which \<^verbatim>\<open>cat\<close> prints without terminating it.\<close>

definition cat_main :: "u8 list \<Rightarrow> u8 list list \<Rightarrow> program" where
  "cat_main after argv =
     (case arg1 argv of
        None \<Rightarrow> say (''Usage: 'cat <filename>'' @ [QUOTE, LF]) [] (Exit 1)
      | Some path \<Rightarrow> resolved path (\<lambda>file. Ask (Call_stat file) (\<lambda>st.
          if sint (ans_ret st) < 0 then say (''cat: '%s' not found...'' @ [LF]) [Arg_str file] (Exit 1)
          else Ask (Call_malloc (ans_size st)) (\<lambda>buf. Ask (Call_open file 0) (\<lambda>fd.
            if sint (ans_ret fd) < 0 then say (''cat: unable to open '%s'...'' @ [LF]) [Arg_str file] (Exit 1)
            else Ask (Call_read (ans_ret fd) (ans_ret buf) (ans_size st)) (\<lambda>r.
              if sint (ans_ret r) \<le> 0 then say (''cat: unable to read '%s'' @ [QUOTE, LF]) [Arg_str file] (Exit 1)
              else say (''%s'' @ [LF]) [Arg_str (c_string (ans_text r @ after))] (Exit 0)))))))"

text \<open>The loop of \<^verbatim>\<open>ls\<close>, for the first \<open>n\<close> entries.\<close>

primrec ls_loop :: "nat \<Rightarrow> u32 \<Rightarrow> program" where
  "ls_loop 0 fd = Unseen"
| "ls_loop (Suc n) fd =
     Ask (Call_readdir fd) (\<lambda>a.
       if ans_ret a = 1 then say (''%s'' @ [LF]) [Arg_str (ans_text a)] (ls_loop n fd)
       else Ask (Call_closedir fd) (\<lambda>_. Exit 0))"

definition ls_main :: "nat \<Rightarrow> u8 list list \<Rightarrow> program" where
  "ls_main n argv =
     resolved (case arg1 argv of None \<Rightarrow> [DOT] | Some path \<Rightarrow> path) (\<lambda>dir. Ask (Call_opendir dir) (\<lambda>fd.
       if sint (ans_ret fd) < 0 then say (''ls: cannot open %s'' @ [LF]) [Arg_str dir] (Exit 1)
       else ls_loop n (ans_ret fd)))"

section \<open>Processes\<close>

text \<open>\<open>junk\<close> is the uninitialised \<^verbatim>\<open>state\<close>.\<close>

definition state_name :: "u8 list \<Rightarrow> u32 \<Rightarrow> u8 list" where
  "state_name junk st =
     (if st = 0 then map of_char ''ready'' else if st = 1 then map of_char ''running''
      else if st = 2 then map of_char ''blocked'' else if st = 3 then map of_char ''dead'' else junk)"

primrec ps_rows :: "u8 list \<Rightarrow> proc_entry list \<Rightarrow> program" where
  "ps_rows junk [] = Exit 0"
| "ps_rows junk (p # ps) =
     say (''%-4d %-4d %-8s %s'' @ [LF])
       [Arg_int (pe_pid p), Arg_int (pe_ppid p), Arg_str (state_name junk (pe_state p)), Arg_str (pe_name p)] (ps_rows junk ps)"

definition ps_main :: "u8 list \<Rightarrow> program" where
  "ps_main junk =
     Ask (Call_ps 0 0) (\<lambda>n. Ask (Call_malloc (ans_ret n * 44)) (\<lambda>buf. Ask (Call_ps (ans_ret buf) (ans_ret n)) (\<lambda>w.
       say (''PID  PPID STATE    NAME'' @ [LF]) [] (say (''---- ---- -------- --------'' @ [LF]) []
         (ps_rows junk (take (nat (sint (ans_ret w))) (ans_procs w)))))))"

definition pkill_main :: "u8 list list \<Rightarrow> program" where
  "pkill_main argv =
     (case arg1 argv of
        None \<Rightarrow> say (''Usage: 'pkill <pid>'' @ [QUOTE, LF]) [] (Exit 1)
      | Some arg \<Rightarrow>
          (let pid = atoi arg in Ask (Call_kill pid) (\<lambda>r.
             if sint (ans_ret r) < 0 then say (''failed to kill PID %d'' @ [LF]) [Arg_int pid] (Exit 1)
             else Exit 0)))"

section \<open>Small programs\<close>

primrec echo_args :: "u8 list list \<Rightarrow> program" where
  "echo_args [] = say [LF] [] (Exit 0)"
| "echo_args (a # as) = say ''%s '' [Arg_str a] (echo_args as)"

definition echo_main :: "u8 list list \<Rightarrow> program" where
  "echo_main argv =
     (if arg1 argv = None then say (''Usage: 'echo <text>'' @ [QUOTE, LF]) [] (Exit 1)
      else echo_args (drop 1 argv))"

definition time_args :: "rtc_time \<Rightarrow> printf_arg list" where
  "time_args t = [Arg_int (ucast (rt_hours t)), Arg_int (ucast (rt_minutes t)), Arg_int (ucast (rt_seconds t)),
     Arg_int (ucast (rt_month t)), Arg_int (ucast (rt_day t)), Arg_int (ucast (rt_year t))]"

definition datetime_main :: "u8 list list \<Rightarrow> program" where
  "datetime_main argv =
     Ask Call_gettime (\<lambda>t.
       if ans_ret t \<noteq> 0 then say (''datetime: failed to get time...'' @ [LF]) [] (Exit 1)
       else if arg1 argv = Some (map of_char ''-u'')
       then Ask Call_getuptime (\<lambda>u. say (''%u ticks'' @ [LF]) [Arg_int (ans_ret u)] (Exit 0))
       else say (''%02d:%02d:%02d %02d-%02d-%04d'' @ [LF]) (time_args (ans_time t)) (Exit 0))"

definition clear_main :: program where
  "clear_main = say ([ESC] @ ''[2J'' @ [ESC] @ ''[H'') [] (Exit 0)"

primrec idle_main :: "nat \<Rightarrow> program" where
  "idle_main 0 = Unseen"
| "idle_main (Suc n) = Ask Call_yield (\<lambda>_. idle_main n)"

text \<open>The first \<open>n\<close> rounds of the loop of \<^verbatim>\<open>init\<close>.\<close>

definition shell_path :: "u8 list" where
  "shell_path = map of_char ''/bin/shell''"

primrec init_loop :: "nat \<Rightarrow> program" where
  "init_loop 0 = Unseen"
| "init_loop (Suc n) =
     Ask Call_getuptime (\<lambda>u. say (''%u: /bin/shell'' @ [LF]) [Arg_int (ans_ret u)]
       (Ask (Call_spawn shell_path []) (\<lambda>pid.
          if sint (ans_ret pid) < 0 then say (''failed to spawn shell'' @ [LF]) [] (Exit (- 1))
          else Ask (Call_wait (ans_ret pid)) (\<lambda>code.
            say (''shell exited (code %d), restarting...'' @ [LF]) [Arg_int (ans_ret code)] (init_loop n)))))"

definition init_main :: "nat \<Rightarrow> program" where
  "init_main n =
     Ask (Call_stat shell_path) (\<lambda>st.
       if sint (ans_ret st) < 0 then say ([QUOTE] @ ''/bin/shell' not found'' @ [LF]) [] (Exit (- 1))
       else init_loop n)"

section \<open>The shell\<close>

text \<open>Reading the command's path, as in \<^verbatim>\<open>resolve_exec_path\<close>.\<close>

definition exec_path :: "u8 list \<Rightarrow> (u8 list \<Rightarrow> program) \<Rightarrow> program" where
  "exec_path name k = (if SLASH \<in> set name then resolved name k else k (resolve_bin_path name))"

text \<open>What a complete line does; \<open>next\<close> goes on with the prompt.\<close>

definition shell_command :: "u8 list list \<Rightarrow> program \<Rightarrow> program" where
  "shell_command argv next =
     (if argv = [] then next
      else if hd argv = map of_char ''cd''
      then resolved (if 2 \<le> length argv then argv ! 1 else [SLASH]) (\<lambda>dir. Ask (Call_stat dir) (\<lambda>st.
        if ans_ret st \<noteq> 0 then say (''cd: no such directory: %s'' @ [LF]) [Arg_str dir] next
        else if ans_attr st AND 0x10 = 0 then say (''cd: not a directory: %s'' @ [LF]) [Arg_str dir] next
        else Ask (Call_chdir dir) (\<lambda>_. next)))
      else exec_path (hd argv) (\<lambda>path. Ask (Call_spawn path argv) (\<lambda>r.
        if sint (ans_ret r) < 0 then say ''command not found...'' [] next
        else if last argv \<noteq> map of_char ''&'' then Ask (Call_wait (ans_ret r)) (\<lambda>_. next) else next)))"

definition prompt :: "u32 \<Rightarrow> bytes \<Rightarrow> (bytes \<times> nat \<Rightarrow> program) \<Rightarrow> program" where
  "prompt buffer m k =
     Ask Call_getcwd (\<lambda>a. say ''loaf-os:%s> '' [Arg_str (ans_text a)] (k (shell_prompt buffer m)))"

definition shell_line :: "u32 \<Rightarrow> bytes \<Rightarrow> (bytes \<times> nat \<Rightarrow> program) \<Rightarrow> program" where
  "shell_line buffer m k =
     (case parse_args buffer MAX_ARGS m of None \<Rightarrow> Unseen
      | Some (ptrs, m1) \<Rightarrow>
          (case those (map (read_cstr m1) ptrs) of None \<Rightarrow> Unseen
           | Some argv \<Rightarrow> shell_command argv (prompt buffer m1 k)))"

text \<open>The loop, for the first \<open>n\<close> calls of \<^verbatim>\<open>getchar\<close>; \<open>s\<close> is the line buffer and \<^verbatim>\<open>buf_index\<close>.\<close>

primrec shell_loop :: "nat \<Rightarrow> u32 \<Rightarrow> bytes \<times> nat \<Rightarrow> program" where
  "shell_loop 0 buffer s = Unseen"
| "shell_loop (Suc n) buffer s =
     Ask (Call_getchar 1) (\<lambda>a.
       let c = ans_ret a in
       if - 1 < sint c
       then say ''%c'' [Arg_int c]
         (if c = 10 then shell_line buffer (fst s) (shell_loop n buffer)
          else if c = 8 \<and> snd s = 0 then say '' '' [] (shell_loop n buffer (shell_key buffer (ucast c) s))
          else shell_loop n buffer (shell_key buffer (ucast c) s))
       else shell_loop n buffer s)"

text \<open>The greeting with the contents of \<^verbatim>\<open>hello.txt\<close>.\<close>

definition hello :: "u8 list" where
  "hello = map of_char ''hello.txt''"

definition shell_main :: "nat \<Rightarrow> u32 \<Rightarrow> bytes \<Rightarrow> program" where
  "shell_main n buffer m =
     Ask Call_gettime (\<lambda>t.
       if ans_ret t \<noteq> 0 then say (''failed to get time'' @ [LF]) [] (Exit 1)
       else
         say ([ESC] @ ''[2J'' @ [ESC] @ ''[Hloaf-os'' @ [LF, LF] @ ''%02d:%02d:%02d %02d-%02d-%04d'' @ [LF, LF]) (time_args (ans_time t))
         (say (''   /'' @ [BACKSLASH] @ ''_/'' @ [BACKSLASH, LF]) [] (say (''  ( o.o )'' @ [LF]) [] (say (''   > ^ <'' @ [LF]) [] (say (''   )   ('' @ [LF, LF]) []
         (Ask (Call_stat hello) (\<lambda>st.
           if ans_ret st \<noteq> 0 then say (''stat failed on 'hello.txt'' @ [QUOTE, LF]) [] (Exit 1)
           else Ask (Call_malloc (ans_size st + 1)) (\<lambda>buf.
             if ans_ret buf = 0 then say (''out of memory'' @ [LF]) [] (Exit 1)
             else Ask (Call_open hello 0) (\<lambda>fd. Ask (Call_read (ans_ret fd) (ans_ret buf) (ans_size st)) (\<lambda>r.
               Ask (Call_close (ans_ret fd)) (\<lambda>_.
                 if sint (ans_ret r) \<le> 0 then say (''read failed on 'hello.txt'' @ [QUOTE, LF]) [] (Exit 1)
                 else say (''%s'' @ [LF, LF]) [Arg_str (c_string (take (unat (ans_ret r)) (ans_text r)))]
                   (Ask (Call_free (ans_ret buf)) (\<lambda>_. prompt buffer m (shell_loop n buffer))))))))))))))"

section \<open>A session\<close>

text \<open>
  A system where \<open>keys\<close> are typed; it notes every request but output, input and \<^verbatim>\<open>getcwd\<close>, and answers by
  \<open>ans\<close>. When all keys have been read, \<^verbatim>\<open>getchar\<close> returns - 1.
\<close>

definition console :: "(libc_call \<Rightarrow> answer) \<Rightarrow> libc_call \<Rightarrow> u8 list \<times> libc_call list \<Rightarrow> answer \<times> u8 list \<times> libc_call list" where
  "console ans c s =
     (case s of (keys, log) \<Rightarrow>
        (case c of
           Call_getchar b \<Rightarrow>
             (case keys of [] \<Rightarrow> ((ans c)\<lparr>ans_ret := - 1\<rparr>, [], log) | key # keys1 \<Rightarrow> ((ans c)\<lparr>ans_ret := ucast key\<rparr>, keys1, log))
         | Call_printf fmt args \<Rightarrow> (ans c, keys, log)
         | Call_getcwd \<Rightarrow> (ans c, keys, log)
         | _ \<Rightarrow> (ans c, keys, log @ [c])))"

lemma console_simps [simp]:
  "console ans (Call_getchar b) (key # keys, log) = ((ans (Call_getchar b))\<lparr>ans_ret := ucast key\<rparr>, keys, log)"
  "console ans (Call_getchar b) ([], log) = ((ans (Call_getchar b))\<lparr>ans_ret := - 1\<rparr>, [], log)"
  "console ans (Call_printf fmt args) s = (ans (Call_printf fmt args), s)"
  "console ans Call_getcwd s = (ans Call_getcwd, s)"
  "console ans (Call_stat path) (keys, log) = (ans (Call_stat path), keys, log @ [Call_stat path])"
  "console ans (Call_chdir path) (keys, log) = (ans (Call_chdir path), keys, log @ [Call_chdir path])"
  "console ans (Call_spawn path argv) (keys, log) = (ans (Call_spawn path argv), keys, log @ [Call_spawn path argv])"
  "console ans (Call_wait pid) (keys, log) = (ans (Call_wait pid), keys, log @ [Call_wait pid])"
  by (simp_all add: console_def split: prod.splits)

text \<open>The requests of one command.\<close>

definition requests :: "(libc_call \<Rightarrow> answer) \<Rightarrow> u8 list list \<Rightarrow> libc_call list" where
  "requests ans argv =
     (let cwd = ans_text (ans Call_getcwd) in
      case argv of [] \<Rightarrow> []
      | name # args \<Rightarrow>
          if name = map of_char ''cd''
          then (let dir = path_resolve_cwd cwd (if args = [] then [SLASH] else hd args) 128; st = ans (Call_stat dir)
                in Call_stat dir # (if ans_ret st = 0 \<and> ans_attr st AND 0x10 \<noteq> 0 then [Call_chdir dir] else []))
          else (let path = resolve_exec_path cwd name; pid = ans_ret (ans (Call_spawn path argv))
                in Call_spawn path argv # (if 0 \<le> sint pid \<and> last argv \<noteq> map of_char ''&'' then [Call_wait pid] else [])))"

lemma run_command: "run (console ans) (shell_command argv next) (keys, log) = run (console ans) next (keys, log @ requests ans argv)"
proof (cases argv)
  case (Cons name args)
  show ?thesis
  proof (cases "name = map of_char ''cd''")
    case True
    then show ?thesis
      by (cases args) (simp_all add: Cons shell_command_def requests_def resolved_def Let_def)
  next
    case False
    then show ?thesis
      by (auto simp: Cons shell_command_def requests_def exec_path_def resolved_def resolve_exec_path_def Let_def)
  qed
qed (simp add: shell_command_def requests_def)

lemma run_prompt: "run (console ans) (prompt buffer m k) (keys, log) = run (console ans) (k (shell_prompt buffer m)) (keys, log)"
  by (simp add: prompt_def)

lemma read_cstr_cstr: "cstr m p s \<Longrightarrow> read_cstr m p = Some s"
proof (induction s arbitrary: p)
  case Nil
  then show ?case by (subst read_cstr.simps) simp
next
  case (Cons c s)
  then show ?case by (subst read_cstr.simps) simp
qed

lemma read_args: "list_all2 (cstr m) ps ws \<Longrightarrow> those (map (read_cstr m) ps) = Some ws"
  by (induction ps ws rule: list_all2_induct) (simp_all add: read_cstr_cstr)

lemma key_code: "- 1 < sint (ucast (k :: u8) :: u32)" "(ucast k :: u32) = 10 \<longleftrightarrow> k = 10" "(ucast k :: u32) = 8 \<longleftrightarrow> k = 8" "(ucast (ucast k :: u32) :: u8) = k"
proof -
  have "sint (ucast k :: u32) = signed_take_bit 31 (uint k)" by (simp add: signed_ucast_eq)
  also have "\<dots> = uint k" using uint_lt2p [of k] uint_ge_0 [of k] by (intro signed_take_bit_int_eq_self) (auto intro: order_trans [of _ 0])
  finally show "- 1 < sint (ucast k :: u32)" using uint_ge_0 [of k] by linarith
  have k: "unat (ucast k :: u32) = unat k" using unsigned_less [of k] by (simp add: unsigned_ucast_eq take_bit_nat_eq_self)
  show "(ucast k :: u32) = 10 \<longleftrightarrow> k = 10" "(ucast k :: u32) = 8 \<longleftrightarrow> k = 8" unfolding word_unat_eq_iff k by simp_all
  show "(ucast (ucast k :: u32) :: u8) = k"
    by (rule ucast_up_ucast_id) (simp add: is_up_def source_size_def target_size_def word_size)
qed

lemma run_typing:
  assumes "10 \<notin> set keys" "length keys \<le> n"
  shows "run (console ans) (shell_loop n buffer s) (keys @ rest, log) =
    run (console ans) (shell_loop (n - length keys) buffer (typed_keys buffer keys s)) (rest, log)"
  using assms
proof (induction keys arbitrary: n s)
  case (Cons key keys)
  then obtain n' where n: "n = Suc n'" "length keys \<le> n'" by (cases n) auto
  show ?case using Cons.prems Cons.IH [OF _ n(2), of "shell_key buffer key s"]
    by (auto simp: n(1) key_code typed_keys_def Let_def)
qed (simp add: typed_keys_def)

lemma run_waiting: "run (console ans) (shell_loop n buffer s) ([], log) = (([], log), None)"
  by (induction n) simp_all

lemma run_line:
  assumes "0 \<notin> set keys" "10 \<notin> set keys" "unat buffer + 128 < 2 ^ 32" "length keys < n"
  shows "\<exists>m'. run (console ans) (shell_loop n buffer (shell_prompt buffer m)) (keys @ 10 # rest, log) =
    run (console ans) (shell_loop (n - length keys - 1) buffer (shell_prompt buffer m'))
      (rest, log @ requests ans (take MAX_ARGS (words is_blank (edit keys))))"
proof -
  let ?s = "typed_keys buffer keys (shell_prompt buffer m)"
  from typed_line_words [OF assms(1-3), of m] obtain ptrs m' where
    p: "parse_args buffer MAX_ARGS (fst ?s) = Some (ptrs, m')" "list_all2 (cstr m') ptrs (take MAX_ARGS (words is_blank (edit keys)))"
    by blast
  obtain j where j: "n - length keys = Suc j" using assms(4) by (cases "n - length keys") auto
  have "run (console ans) (shell_loop n buffer (shell_prompt buffer m)) (keys @ 10 # rest, log) =
      run (console ans) (shell_loop (Suc j) buffer ?s) (10 # rest, log)"
    using run_typing [OF assms(2), of n ans buffer "shell_prompt buffer m" "10 # rest" log] assms(4) j by simp
  also have "\<dots> = run (console ans) (shell_line buffer (fst ?s) (shell_loop j buffer)) (rest, log)"
    using key_code(1) [of 10] by simp
  also have "\<dots> = run (console ans) (shell_loop j buffer (shell_prompt buffer m'))
      (rest, log @ requests ans (take MAX_ARGS (words is_blank (edit keys))))"
    by (simp add: shell_line_def p(1) read_args [OF p(2)] run_command run_prompt)
  finally show ?thesis using j by (intro exI [of _ m']) simp
qed


text \<open>\<^verbatim>\<open>cd ..\<close> in \<^verbatim>\<open>/home\<close>, an empty line, and \<^verbatim>\<open>ls &\<close> with a slip.\<close>

definition answers_example :: "libc_call \<Rightarrow> answer" where
  "answers_example c =
     \<lparr>ans_ret = (case c of Call_spawn path argv \<Rightarrow> 7 | _ \<Rightarrow> 0), ans_text = map of_char ''/home'', ans_size = 0, ans_attr = 0x10,
      ans_time = \<lparr>rt_seconds = 0, rt_minutes = 0, rt_hours = 0, rt_day = 1, rt_month = 1, rt_year = 2000\<rparr>, ans_procs = []\<rparr>"


end
