(* ===== verification/Calm.thy ===== *)
theory Calm
  imports Syscalls
begin

text \<open>
  What the operations of the kernel leave alone: the list of processes, what the scheduler and the waiting
  calls read of every process, the loaded address space and kernel stack, and the live blocks of the heap.
  One lemma for every system call that only answers, and what \<open>process_create\<close> adds.
\<close>

section \<open>The loaded address space\<close>

lemma cr3_alloc: "vm_alloc s = Some (a, s') \<Longrightarrow> cr3 s' = cr3 s"
  by (auto simp: vm_alloc_def split: option.splits)

lemma cr3_free [simp]: "cr3 (vm_free a s) = cr3 s"
  by (simp add: vm_free_def)

lemma cr3_create: "paging_create_address_space s = Some (pd, s') \<Longrightarrow> cr3 s' = cr3 s"
  by (auto simp: paging_create_address_space_def Let_def split: option.splits dest: cr3_alloc)

lemma cr3_fold: "(\<And>x s. x \<in> set xs \<Longrightarrow> cr3 (f x s) = cr3 s) \<Longrightarrow> cr3 (fold f xs s) = cr3 s"
  by (induction xs arbitrary: s) auto

lemma cr3_free_table [simp]: "cr3 (free_table pt s) = cr3 s"
  by (simp add: free_table_def cr3_fold Let_def)

lemma cr3_destroy [simp]: "cr3 (paging_destroy_address_space pd s) = cr3 s"
  by (simp add: paging_destroy_address_space_def cr3_fold Let_def)

lemma cr3_ensure: "ensure_table pd i fl s = Some (st, s') \<Longrightarrow> cr3 s' = cr3 s"
  by (auto simp: ensure_table_def Let_def split: option.splits if_splits dest!: cr3_alloc)

lemma cr3_map: "paging_map_page pd va pa fl s = Some (st, s') \<Longrightarrow> cr3 s' = cr3 s"
  by (auto simp: paging_map_page_def Let_def invlpg_def split: option.splits if_splits dest!: cr3_ensure)

lemma cr3_unmap [simp]: "cr3 (paging_unmap_page pd va s) = cr3 s"
  by (simp add: paging_unmap_page_def Let_def invlpg_def)

lemma cr3_frame: "page_frame pd va fl s = Some (ok, f, s') \<Longrightarrow> cr3 s' = cr3 s"
  by (auto simp: page_frame_def Let_def split: option.splits if_splits prod.splits dest!: cr3_map cr3_alloc)

lemma cr3_map_loop: "map_loop pd va0 src sz fl va e c s = Some y \<Longrightarrow> cr3 (snd y) = cr3 s"
proof (induction pd va0 src sz fl va e c s y rule: map_loop.raw_induct [rotated, consumes 1, case_names step])
  case (step ml pd va0 src sz fl va e c s y)
  show ?case
  proof (cases "va < e")
    case True
    with step(2) obtain ok f s1 where f: "page_frame pd va fl s = Some (ok, f, s1)" by (auto split: option.splits)
    have s1: "cr3 s1 = cr3 s" by (rule cr3_frame [OF f])
    show ?thesis
    proof (cases ok)
      case ok: True
      let ?start = "page_down va0"
      let ?po = "if va = ?start then va0 - ?start else 0"
      let ?cl = "if sz - c < PAGE_SIZE - ?po then sz - c else PAGE_SIZE - ?po"
      let ?s2 = "if src \<noteq> 0 \<and> 0 < ?cl then s1\<lparr>kmem := memcpy (phys_to_virt f + ?po) (src + c) ?cl (kmem s1)\<rparr> else s1"
      from step(2) True f ok have "ml pd va0 src sz fl (va + PAGE_SIZE) e (c + ?cl) ?s2 = Some y"
        by (simp only: Let_def if_True option.case prod.case not_True_eq_False if_False)
      from step(1) [OF this] have "cr3 (snd y) = cr3 ?s2" .
      also have "cr3 ?s2 = cr3 s1" by simp
      finally show ?thesis using s1 by simp
    qed (use step(2) True f s1 in auto)
  qed (use step(2) in auto)
qed

lemma cr3_map_and_copy: "map_and_copy pd va src sz fl s = Some (st, s') \<Longrightarrow> cr3 s' = cr3 s"
  by (auto simp: map_and_copy_def dest: cr3_map_loop)

lemma cr3_segments: "load_segments pd segs s = Some (st, s') \<Longrightarrow> cr3 s' = cr3 s"
  by (induction pd segs s arbitrary: st s' rule: load_segments.induct)
    (fastforce split: if_splits option.splits prod.splits dest: cr3_map_and_copy)+

lemma cr3_copy_out: "copy_out n d p s = Some s' \<Longrightarrow> cr3 s' = cr3 s"
  by (induction n d p s arbitrary: s' rule: copy_out.induct) (auto split: option.splits)

lemma cr3_store_out: "store_out bs d s = Some s' \<Longrightarrow> cr3 s' = cr3 s"
  by (induction bs d s arbitrary: s' rule: store_out.induct) (auto split: option.splits)

lemma cr3_copy_to_user: "copy_to_user pd d p n s = Some s' \<Longrightarrow> cr3 s' = cr3 s"
  by (auto simp: copy_to_user_def paging_switch_directory_def split: option.splits)

lemma cr3_grow: "grow_loop pd va e s = Some y \<Longrightarrow> cr3 y = cr3 s"
proof (induction pd va e s y rule: grow_loop.raw_induct [rotated, consumes 1, case_names step])
  case (step gl pd va e s y)
  from step(2) show ?case
    by (auto split: if_splits option.splits prod.splits dest!: cr3_map cr3_alloc dest: step(1))
qed

lemma cr3_shrink: "page_loop f va e s = Some y \<Longrightarrow> (\<forall>a s. cr3 (f a s) = cr3 s) \<longrightarrow> cr3 y = cr3 s"
proof (induction f va e s y rule: page_loop.raw_induct [rotated, consumes 1, case_names step])
  case (step pl f va e s y)
  show ?case
  proof (cases "va < e")
    case True
    with step(2) have "pl f (va + PAGE_SIZE) e (f va s) = Some y" by simp
    from step(1) [OF this] show ?thesis by simp
  qed (use step(2) in simp)
qed

lemma cr3_unmap_and_free [simp]: "cr3 (unmap_and_free pd a s) = cr3 s"
  by (simp add: unmap_and_free_def split: option.splits)

section \<open>What the scheduler and the waiting calls read\<close>

text \<open>The fields of a process that scheduling, waiting and reaping depend on.\<close>

definition core :: "process \<Rightarrow> (u32 \<times> u32 \<times> u32 \<times> u32) \<times> (u32 \<times> u32 \<times> proc_state \<times> proc_block)" where
  "core x = ((p_pid x, p_next x, p_pd_phys x, p_esp0 x), (p_kstack x, p_target_pid x, p_state x, p_block x))"

lemma core_eq: "core x = core y \<longleftrightarrow> p_pid x = p_pid y \<and> p_next x = p_next y \<and> p_pd_phys x = p_pd_phys y \<and> p_esp0 x = p_esp0 y
  \<and> p_kstack x = p_kstack y \<and> p_target_pid x = p_target_pid y \<and> p_state x = p_state y \<and> p_block x = p_block y"
  by (auto simp: core_def)

text \<open>\<open>same X k k'\<close>: nothing of this has changed, but for the processes at the addresses in \<open>X\<close>.\<close>

definition same :: "u32 set \<Rightarrow> kernel \<Rightarrow> kernel \<Rightarrow> bool" where
  "same X k k' \<longleftrightarrow> proc_list k' = proc_list k \<and> curr_proc k' = curr_proc k \<and> idle_proc k' = idle_proc k
     \<and> scheduler_ready k' = scheduler_ready k \<and> tss_esp0 k' = tss_esp0 k \<and> next_pid k' = next_pid k
     \<and> cr3 (vm k') = cr3 (vm k) \<and> (\<forall>p. p \<notin> X \<longrightarrow> core (procs k' p) = core (procs k p))"

lemma same_refl [simp]: "same X k k"
  by (simp add: same_def)

lemma same_trans: "same X k k1 \<Longrightarrow> same X k1 k2 \<Longrightarrow> same X k k2"
  by (simp add: same_def)

lemma same_mono: "same X k k1 \<Longrightarrow> X \<subseteq> Y \<Longrightarrow> same Y k k1"
  by (auto simp: same_def)

lemma same_fields [simp]:
  "same X k (k1\<lparr>fat := f\<rparr>) = same X k k1" "same X k (k1\<lparr>open_files := g\<rparr>) = same X k k1"
  "same X k (k1\<lparr>terminal := t\<rparr>) = same X k k1" "same X k (k1\<lparr>kbd := b\<rparr>) = same X k k1"
  "same X k (k1\<lparr>rtc := c\<rparr>) = same X k k1" "same X k (k1\<lparr>kheap := h\<rparr>) = same X k k1"
  "same X k (k1\<lparr>tick_count := n\<rparr>) = same X k k1" "same X k (set_mem m k1) = same X k k1"
  by (simp_all add: same_def set_mem_def)

lemma same_vm: "cr3 v = cr3 (vm k1) \<Longrightarrow> same X k (k1\<lparr>vm := v\<rparr>) = same X k k1"
  by (simp add: same_def)

lemma same_upd: "p \<in> X \<or> (\<forall>x. core (f x) = core x) \<Longrightarrow> same X k (upd_proc p f k1) = same X k k1"
  by (auto simp: same_def upd_proc_def)

lemma same_current: "(\<forall>x. core (f x) = core x) \<Longrightarrow> same X k (upd_current f k1) = same X k k1"
  by (simp add: upd_current_def same_upd)

lemma core_upd [simp]:
  "core (x\<lparr>p_ppid := a\<rparr>) = core x" "core (x\<lparr>p_user_stack_top := a\<rparr>) = core x" "core (x\<lparr>p_saved_esp := a\<rparr>) = core x"
  "core (x\<lparr>p_heap_break := a\<rparr>) = core x" "core (x\<lparr>p_fds := fs\<rparr>) = core x" "core (x\<lparr>p_dirs := ds\<rparr>) = core x"
  "core (x\<lparr>p_exit_code := a\<rparr>) = core x" "core (x\<lparr>p_cleaned_up := b\<rparr>) = core x" "core (x\<lparr>p_resume_tick := a\<rparr>) = core x"
  by (simp_all add: core_def)

lemma core_names [simp]: "core (set_proc_cwd c x) = core x" "core (set_proc_name n x) = core x"
  by (simp_all add: core_def set_proc_cwd_def set_proc_name_def split: option.splits)

lemma kheap_upd [simp]: "kheap (upd_proc p f k) = kheap k" "kheap (upd_current f k) = kheap k" "kheap (set_mem m k) = kheap k"
  by (simp_all add: upd_proc_def upd_current_def set_mem_def)

section \<open>The heap\<close>

lemma k_malloc_cases:
  assumes "k_malloc n k = Some (p, k')" "heap_rep (kheap k) L"
  obtains "p = 0" "k' = k"
    | h j where "p \<noteq> 0" "k' = k\<lparr>kheap := h\<rparr>" "heap_rep h (insert (unat p, j) L)" "\<forall>i. (unat p, i) \<notin> L"
        "unat n \<le> 0xfffffffc \<Longrightarrow> unat n \<le> j"
proof -
  from kmalloc_live [OF assms(2), of n] assms(1) obtain h where k': "k' = k\<lparr>kheap := h\<rparr>"
    and h: "if p = 0 then h = kheap k else (\<exists>j. (unat n \<le> 0xfffffffc \<longrightarrow> unat n \<le> j) \<and> heap_rep h (insert (unat p, j) L) \<and> (\<forall>i. (unat p, i) \<notin> L))"
    by (auto simp: k_malloc_def)
  show thesis
  proof (cases "p = 0")
    case True
    with k' h that(1) show ?thesis by simp
  next
    case False
    with k' h that(2) show ?thesis by auto
  qed
qed

lemma k_free_cases:
  assumes "k_free p k = Some k'" "heap_rep (kheap k) L" "(unat p, j) \<in> L"
  obtains h L' where "k' = k\<lparr>kheap := h\<rparr>" "heap_rep h L'" "L - {(unat p, j)} \<subseteq> L'" "L' \<subseteq> L"
proof -
  from kfree_live [OF assms(2,3)] assms(1) consider h where "k' = k\<lparr>kheap := h\<rparr>" "heap_rep h (L - {(unat p, j)})" | "k' = k"
    by (auto simp: k_free_def split: if_splits)
  then show thesis
  proof cases
    case 1
    then show ?thesis using that by blast
  next
    case 2
    then show ?thesis using that [of "kheap k" L] assms(2) by auto
  qed
qed

section \<open>Calls that only answer\<close>

text \<open>\<open>quiet k y\<close>: the call is over, and neither the heap nor what \<open>same\<close> compares has changed.\<close>

definition quiet :: "kernel \<Rightarrow> sys_result \<times> kernel \<Rightarrow> bool" where
  "quiet k y \<longleftrightarrow> (\<exists>v. fst y = Sys_done v) \<and> same {} k (snd y) \<and> kheap (snd y) = kheap k"

lemma quiet_ok: "sys_ok v k1 = Some y \<Longrightarrow> same {} k k1 \<Longrightarrow> kheap k1 = kheap k \<Longrightarrow> quiet k y"
  by (auto simp: sys_ok_def quiet_def)

lemma quiet_path:
  assumes "with_path p f k = Some y" "\<And>path. f path = Some y \<Longrightarrow> quiet k y"
  shows "quiet k y"
  using assms by (auto simp: with_path_def sys_ok_def quiet_def split: option.splits)

lemma store_user_same: "store_user p bs k = Some k' \<Longrightarrow> same X k0 k' = same X k0 k \<and> kheap k' = kheap k"
  by (auto simp: store_user_def same_vm dest!: cr3_store_out split: option.splits)

lemma k_print_same: "k_print f as k = Some k' \<Longrightarrow> same X k0 k' = same X k0 k \<and> kheap k' = kheap k"
  by (auto simp: k_print_def split: option.splits)

lemma file_open_same:
  "file_open j path w k = Some (i, k') \<Longrightarrow> same X k0 k' = same X k0 k \<and> kheap k' = kheap k"
  by (auto simp: file_open_def Let_def split: option.splits if_splits prod.splits)

lemma file_close_same [simp]: "same X k0 (file_close i k) = same X k0 k" "kheap (file_close i k) = kheap k"
  by (simp_all add: file_close_def)

lemma file_write_same:
  "file_write j i p n k = Some (v, k') \<Longrightarrow> same X k0 k' = same X k0 k \<and> kheap k' = kheap k"
  by (auto simp: file_write_def Let_def split: option.splits if_splits prod.splits)

lemma quiet_print: "sys_print r k = Some y \<Longrightarrow> quiet k y"
  by (auto simp: sys_print_def sys_ok_def quiet_def split: if_splits option.splits)

lemma quiet_datetime: "sys_datetime e r k = Some y \<Longrightarrow> quiet k y"
  by (auto simp: sys_datetime_def Let_def sys_ok_def quiet_def split: if_splits option.splits prod.splits
    dest!: store_user_same k_print_same)

lemma quiet_sbrk: "sys_sbrk r k = Some y \<Longrightarrow> quiet k y"
  by (auto simp: sys_sbrk_def Let_def sys_ok_def quiet_def same_current same_vm split: if_splits option.splits
    dest!: cr3_grow cr3_shrink)

lemma quiet_open: "sys_open e r k = Some y \<Longrightarrow> quiet k y"
  by (auto simp: sys_open_def sys_ok_def quiet_def same_current split: if_splits option.splits prod.splits dest!: file_open_same)

lemma quiet_close: "sys_close r k = Some y \<Longrightarrow> quiet k y"
  by (auto simp: sys_close_def Let_def sys_ok_def quiet_def same_current split: if_splits)

lemma quiet_write: "sys_write e r k = Some y \<Longrightarrow> quiet k y"
  by (auto simp: sys_write_def sys_ok_def quiet_def split: if_splits option.splits prod.splits dest!: file_write_same)

lemma quiet_stat: "sys_stat e r k = Some y \<Longrightarrow> quiet k y"
  unfolding sys_stat_def by (erule quiet_path)
    (auto simp: sys_ok_def quiet_def split: if_splits option.splits prod.splits dest!: store_user_same)

lemma quiet_fat: "sys_fat f r k = Some y \<Longrightarrow> quiet k y"
  unfolding sys_fat_def by (erule quiet_path) (auto simp: sys_ok_def quiet_def split: option.splits prod.splits)

lemma quiet_opendir: "sys_opendir r k = Some y \<Longrightarrow> quiet k y"
  unfolding sys_opendir_def by (erule quiet_path)
    (auto simp: sys_ok_def quiet_def upd_dir_def same_current split: if_splits option.splits prod.splits)

lemma quiet_readdir: "sys_readdir e r k = Some y \<Longrightarrow> quiet k y"
  by (auto simp: sys_readdir_def Let_def sys_ok_def quiet_def upd_dir_def same_current split: if_splits option.splits prod.splits
    dest!: store_user_same)

lemma quiet_closedir: "sys_closedir r k = Some y \<Longrightarrow> quiet k y"
  by (auto simp: sys_closedir_def sys_ok_def quiet_def upd_dir_def same_current split: if_splits)

lemma quiet_chdir: "sys_chdir e r k = Some y \<Longrightarrow> quiet k y"
  by (auto simp: sys_chdir_def Let_def sys_ok_def quiet_def same_current split: if_splits option.splits prod.splits)

lemma quiet_getcwd: "sys_getcwd r k = Some y \<Longrightarrow> quiet k y"
  by (auto simp: sys_getcwd_def Let_def sys_ok_def quiet_def split: if_splits option.splits dest!: store_user_same)

lemma quiet_getchar_nb: "sys_getchar_nb k = Some y \<Longrightarrow> quiet k y"
  by (auto simp: sys_getchar_nb_def k_getchar_def sys_ok_def quiet_def split: prod.splits)

lemma ps_loop_same: "ps_loop p i n out k = Some y \<Longrightarrow> same {} k (snd y) \<and> kheap (snd y) = kheap k"
proof (induction p i n out k y rule: ps_loop.raw_induct [rotated, consumes 1, case_names step])
  case (step pl p i n out k y)
  show ?case
  proof (cases "p \<noteq> 0 \<and> i < n")
    case True
    with step(2) obtain k1 where k1: "store_user (out + 44 * i) (proc_info (procs k p)) k = Some k1"
      and y: "pl (p_next (procs k1 p)) (i + 1) n out k1 = Some y" by (auto split: option.splits)
    from store_user_same [OF k1, of "{}" k] step(1) [OF y] show ?thesis by (auto elim: same_trans)
  qed (use step(2) in auto)
qed

lemma quiet_ps: "sys_ps r k = Some y \<Longrightarrow> quiet k y"
  by (auto simp: sys_ps_def sys_ok_def quiet_def split: if_splits option.splits prod.splits dest!: ps_loop_same)

text \<open>All but the calls that schedule, create or end processes, or allocate.\<close>

lemmas quiet_all = quiet_print quiet_datetime quiet_sbrk quiet_open quiet_close quiet_write quiet_stat quiet_fat quiet_opendir
  quiet_readdir quiet_closedir quiet_chdir quiet_getcwd quiet_getchar_nb quiet_ps

lemma quiet_dispatch:
  assumes "syscall_dispatch e r k = Some y" "r_eax r \<notin> {1, 2, 8, 17, 18, 19, 20, 21}"
  shows "quiet k y"
proof (cases "r_eax r \<in> {3, 4, 5, 6, 7, 9, 10, 11, 12, 13, 14, 15, 16, 22, 23, 24, 25, 26}")
  case True
  then show ?thesis
    using assms(1) unfolding insert_iff empty_iff
    by (elim disjE) (simp_all add: syscall_dispatch_def sys_unlink_def sys_mkdir_def sys_rmdir_def quiet_all
      sys_getuptime_def sys_ok_def, auto simp: quiet_def)
next
  case False
  with assms show ?thesis
    by (auto simp: syscall_dispatch_def Let_def sys_ok_def quiet_def split: option.splits dest!: k_print_same)
qed

section \<open>Calls that allocate\<close>

text \<open>The blocks that were live are still live.\<close>

definition calm :: "u32 set \<Rightarrow> kernel \<Rightarrow> (nat \<times> nat) set \<Rightarrow> kernel \<Rightarrow> bool" where
  "calm X k L k' \<longleftrightarrow> same X k k' \<and> (\<exists>L'. heap_rep (kheap k') L' \<and> L \<subseteq> L')"

abbreviation fresh :: "(nat \<times> nat) set \<Rightarrow> u32 \<Rightarrow> bool" where
  "fresh L p \<equiv> \<forall>n. (unat p, n) \<notin> L"

lemma calm_fields [simp]: "calm X k L (k1\<lparr>open_files := g\<rparr>) = calm X k L k1"
  by (simp add: calm_def)

text \<open>A block that is allocated in between and released.\<close>

lemma k_free_calm:
  assumes "k_free p k2 = Some k3" "same X k k2" "heap_rep (kheap k2) L2" "insert (unat p, j) L \<subseteq> L2" "fresh L p"
  shows "calm X k L k3"
proof -
  have "(unat p, j) \<in> L2" using assms(4) by simp
  from k_free_cases [OF assms(1,3) this] obtain h L' where
    "k3 = k2\<lparr>kheap := h\<rparr>" "heap_rep h L'" "L2 - {(unat p, j)} \<subseteq> L'" by metis
  with assms(2,4,5) show ?thesis unfolding calm_def by auto
qed

lemma file_read_calm:
  assumes "file_read i p n k = Some (v, k')" "heap_rep (kheap k) L"
  shows "calm {} k L k'"
proof (cases "k' = k")
  case False
  let ?f = "open_files k (nat i)"
  from assms(1) False obtain tmp k1 where m: "k_malloc (fat_read_alloc_size (of_size ?f) (fat k)) k = Some (tmp, k1)"
    by (auto simp: file_read_def Let_def split: if_splits option.splits)
  show ?thesis
    using m assms(2)
  proof (cases rule: k_malloc_cases)
    case 1
    with assms(1) m False show ?thesis by (auto simp: file_read_def Let_def split: if_splits)
  next
    case (2 h j)
    with assms(1) m False obtain st sz d fs2 where
      r: "fat_read_file (of_path ?f) (mem_at (kbytes k1) tmp) (fat k1) = Some (st, sz, d, fs2)"
      by (auto simp: file_read_def Let_def split: if_splits option.splits)
    define k2 where "k2 = set_mem (mem_from tmp d) (k1\<lparr>fat := fs2\<rparr>)"
    have k2: "same {} k k2" "kheap k2 = h" by (simp_all add: k2_def 2(2))
    have "calm {} k L k'" if "k_free tmp (k2\<lparr>vm := v3\<rparr>) = Some k4" "cr3 v3 = cr3 (vm k2)" "k' = k4\<lparr>open_files := g\<rparr>" for k4 v3 g
      using k_free_calm [OF that(1), of "{}" k "insert (unat tmp, j) L" j L] that(2,3) k2 2(3,4) by (simp add: same_vm)
    moreover have "k2\<lparr>vm := vm k2\<rparr> = k2" "k'\<lparr>open_files := open_files k'\<rparr> = k'" by simp_all
    ultimately have F: "calm {} k L k'" if "k_free tmp k2 = Some k'" using that by metis
    show ?thesis
    proof (cases "st = 0")
      case True
      with assms(1) m False 2(1) r obtain n' g v3 k4 where "copy_out n' p (tmp + of_offset ?f) (vm k2) = Some v3"
        "k_free tmp (k2\<lparr>vm := v3\<rparr>) = Some k4" "k' = k4\<lparr>open_files := g\<rparr>"
        unfolding file_read_def Let_def k2_def [symmetric]
        by (simp add: k2_def [symmetric] split: if_splits option.splits) blast+
      with \<open>\<And>v3 k4 g. \<lbrakk>k_free tmp (k2\<lparr>vm := v3\<rparr>) = Some k4; cr3 v3 = cr3 (vm k2); k' = k4\<lparr>open_files := g\<rparr>\<rbrakk> \<Longrightarrow> calm {} k L k'\<close>
      show ?thesis using cr3_copy_out by blast
    next
      case st: False
      with assms(1) m False 2(1) r have "k_free tmp k2 = Some k'"
        by (auto simp: file_read_def Let_def k2_def split: if_splits)
      then show ?thesis by (rule F)
    qed
  qed
qed (use assms(2) in \<open>auto simp: calm_def\<close>)

lemma load_image_calm:
  assumes "load_image proc buf k2 = Some (st, k')" "same {proc} k k2" "heap_rep (kheap k2) L2"
    "insert (unat buf, j) L \<subseteq> L2" "fresh L buf"
  shows "calm {proc} k L k'"
proof -
  have keep: "calm {proc} k L x" if "same {proc} k x" "kheap x = kheap k2" for x
    using that assms(3,4) by (auto simp: calm_def)
  show ?thesis
  proof (cases "ex_magic (get_exe_header (kbytes k2) buf) = EXE_MAGIC")
    case False
    with assms(1,2) keep show ?thesis by (simp add: load_image_def Let_def)
  next
    case True
    with assms(1) obtain pd v1 s v2 where v: "paging_create_address_space (vm k2) = Some (pd, v1)"
      "load_segments pd (segments (get_exe_header (kbytes k2) buf) buf) v1 = Some (s, v2)"
      by (auto simp: load_image_def Let_def split: option.splits)
    then have c: "cr3 v2 = cr3 (vm k2)" using cr3_create cr3_segments by metis
    show ?thesis
    proof (cases "s = 0")
      case False
      with assms(1) True v have "k' = k2\<lparr>vm := v2\<rparr>" by (simp add: load_image_def Let_def)
      with assms(2) c show ?thesis by (intro keep) (simp_all add: same_vm)
    next
      case s: True
      with assms(1) True v obtain k3 f where k3: "k_free buf (k2\<lparr>vm := v2\<rparr>) = Some k3" and k': "k' = upd_proc proc f k3"
        by (auto simp: load_image_def Let_def split: option.splits)
      have "calm {proc} k L k3"
        using k_free_calm [OF k3 _ _ assms(4,5), of "{proc}" k] assms(2,3) c by (simp add: same_vm)
      then show ?thesis by (simp add: calm_def k' same_upd)
    qed
  qed
qed

lemma exec_load_calm:
  assumes "exec_load path proc k = Some (st, k')" "heap_rep (kheap k) L"
  shows "calm {proc} k L k'"
proof -
  from assms(1) obtain s info fs1 where f: "fat_stat path (fat k) = Some (s, info, fs1)"
    by (auto simp: exec_load_def split: option.splits)
  show ?thesis
  proof (cases "s = 0")
    case False
    with assms f show ?thesis by (auto simp: exec_load_def calm_def)
  next
    case True
    with assms(1) f obtain buf k2 where m: "k_malloc (fat_read_alloc_size (fs_size (the info)) fs1) (k\<lparr>fat := fs1\<rparr>) = Some (buf, k2)"
      by (auto simp: exec_load_def split: option.splits)
    have hp: "heap_rep (kheap (k\<lparr>fat := fs1\<rparr>)) L" using assms(2) by simp
    show ?thesis
      using m hp
    proof (cases rule: k_malloc_cases)
      case 1
      with assms f m True show ?thesis by (auto simp: exec_load_def calm_def)
    next
      case (2 h j)
      with assms(1) f m True obtain s2 n d fs3 where "fat_read_file path (mem_at (kbytes k2) buf) (fat k2) = Some (s2, n, d, fs3)"
        by (auto simp: exec_load_def split: option.splits)
      define k3 where "k3 = set_mem (mem_from buf d) (k2\<lparr>fat := fs3\<rparr>)"
      have k3: "same {proc} k k3" "heap_rep (kheap k3) (insert (unat buf, j) L)" using 2 by (simp_all add: k3_def)
      from assms(1) f m True 2(1) \<open>fat_read_file _ _ _ = _\<close>
      have "if s2 \<noteq> 0 then k' = k3 else load_image proc buf k3 = Some (st, k')"
        by (simp add: exec_load_def k3_def Let_def split: if_splits)
      then show ?thesis
        using load_image_calm [of proc buf k3 st k' k "insert (unat buf, j) L" j L] k3 2(4) by (auto simp: calm_def split: if_splits)
    qed
  qed
qed

lemma init_fake_stack_same: "same X k0 (init_fake_stack ret p k) = same X k0 k \<and> kheap (init_fake_stack ret p k) = kheap k"
  by (simp add: init_fake_stack_def Let_def same_upd split: prod.splits)

lemma setup_user_argv_calm:
  assumes "setup_user_argv pd stop argv k = Some (sp, k')" "heap_rep (kheap k) L"
  shows "calm {} k L k'"
proof -
  from assms(1) obtain n kbuf k1 v m3 esp where m: "k_malloc n k = Some (kbuf, k1)" "kbuf \<noteq> 0"
    and v: "copy_to_user pd esp kbuf n ((vm k1)\<lparr>kmem := m3\<rparr>) = Some v" "k_free kbuf (k1\<lparr>vm := v\<rparr>) = Some k'"
    by (auto simp: setup_user_argv_def Let_def split: option.splits if_splits)
  obtain h j where h: "k1 = k\<lparr>kheap := h\<rparr>" "heap_rep h (insert (unat kbuf, j) L)" "fresh L kbuf"
    using k_malloc_cases [OF m(1) assms(2)] m(2) by metis
  have "cr3 v = cr3 (vm k1)" using cr3_copy_to_user [OF v(1)] by simp
  then show ?thesis using k_free_calm [OF v(2), of "{}" k "insert (unat kbuf, j) L" j L] h by (simp add: same_vm)
qed

text \<open>A new process: its structure and its kernel stack are new blocks, and it is ready to run.\<close>

lemma process_create_calm:
  assumes "process_create ret path argv k = Some (res, k')" "heap_rep (kheap k) L"
  shows "case res of Inl _ \<Rightarrow> \<exists>X. (\<forall>p \<in> X. fresh L p) \<and> calm X k L k'
    | Inr p \<Rightarrow> \<exists>n m L'. p \<noteq> 0 \<and> fresh L p \<and> same {p} k (k'\<lparr>next_pid := next_pid k\<rparr>) \<and> next_pid k' = next_pid k + 1
        \<and> heap_rep (kheap k') L' \<and> L \<subseteq> L' \<and> (unat p, n) \<in> L' \<and> 392 \<le> n
        \<and> (unat (p_kstack (procs k' p)), m) \<in> L' \<and> 8192 \<le> m \<and> fresh L (p_kstack (procs k' p)) \<and> p_kstack (procs k' p) \<noteq> p
        \<and> p_kstack (procs k' p) \<noteq> 0 \<and> p_esp0 (procs k' p) = p_kstack (procs k' p) + 8192 \<and> p_pid (procs k' p) = next_pid k
        \<and> p_state (procs k' p) = PROC_READY \<and> p_next (procs k' p) = 0"
proof -
  from assms(1) obtain p k1 where m: "k_malloc PROCESS_SIZE k = Some (p, k1)"
    by (auto simp: process_create_def split: option.splits)
  show ?thesis
    using m assms(2)
  proof (cases rule: k_malloc_cases)
    case 1
    with assms m have "res = Inl (- 1)" "k' = k" by (auto simp: process_create_def)
    moreover have "calm {} k L k" using assms(2) by (auto simp: calm_def)
    ultimately show ?thesis by (simp, intro exI [of _ "{}"]) simp
  next
    case (2 h n)
    then have n: "392 \<le> n" by simp
    have h1: "heap_rep (kheap k1) (insert (unat p, n) L)" "same {p} k k1" using 2 by simp_all
    from assms(1) m 2(1) obtain r k2 where e: "exec_load path p k1 = Some (r, k2)"
      by (auto simp: process_create_def split: option.splits)
    from exec_load_calm [OF e h1(1)] obtain L2 where "same {p} k1 k2" and
      L2: "heap_rep (kheap k2) L2" "insert (unat p, n) L \<subseteq> L2" unfolding calm_def by metis
    with h1(2) have s2: "same {p} k k2" using same_trans by blast
    have err: ?thesis if "res = Inl c" "same {p} k k'" "kheap k' = kheap k2" for c
      using that L2 2(4) by (auto simp: calm_def intro!: exI [of _ "{p}"])
    show ?thesis
    proof (cases "r = 0")
      case False
      with assms(1) m 2(1) e have "res = Inl (int r)" "k' = k2" by (auto simp: process_create_def)
      with s2 err show ?thesis by simp
    next
      case r: True
      with assms(1) m 2(1) e obtain ks k3 where k3: "k_malloc KERNEL_STACK_SIZE k2 = Some (ks, k3)"
        by (auto simp: process_create_def split: option.splits)
      show ?thesis
        using k3 L2(1)
      proof (cases rule: k_malloc_cases)
        case 1
        with assms(1) m 2(1) e r k3 have "res = Inl (- 2)" "k' = k2" by (auto simp: process_create_def)
        with s2 err show ?thesis by simp
      next
        case stk: (2 h3 j)
        define k4 where "k4 = (upd_proc p (\<lambda>x. x\<lparr>p_pid := next_pid k3, p_ppid := - 1, p_target_pid := - 1, p_next := 0,
          p_kstack := ks, p_esp0 := ks + KERNEL_STACK_SIZE, p_resume_tick := - 1\<rparr>) k3)\<lparr>next_pid := next_pid k3 + 1\<rparr>"
        let ?x = "procs k4 p"
        from assms(1) m 2(1) e r k3 stk(1) obtain sp k5 where
          k5: "setup_user_argv (p_pd_phys ?x) (p_user_stack_top ?x) argv k4 = Some (sp, k5)"
          by (auto simp: process_create_def Let_def k4_def split: option.splits)
        define k6 where "k6 = init_fake_stack ret p (upd_proc p (\<lambda>x. x\<lparr>p_user_stack_top := sp\<rparr>) k5)"
        have "p_pd_phys ?x = p_pd_phys (procs k3 p)" "p_user_stack_top ?x = p_user_stack_top (procs k3 p)"
          by (simp_all add: k4_def upd_proc_def)
        with assms(1) m 2(1) e r k3 stk(1) k5 have res: "res = Inr p" and
          k': "k' = upd_proc p (\<lambda>x. set_proc_cwd None (set_proc_name path x)) (upd_proc p (\<lambda>x. x\<lparr>
            p_fds := (\<lambda>i. if i < MAX_FDS_PER_PROC then - 1 else p_fds x i),
            p_dirs := (\<lambda>i. if i < MAX_DIRS_PER_PROC then (p_dirs x i)\<lparr>dh_in_use := False\<rparr> else p_dirs x i),
            p_exit_code := - 1, p_state := PROC_READY, p_block := PROC_NONE, p_cleaned_up := False\<rparr>) k6)"
          by (auto simp: process_create_def Let_def k4_def [symmetric] k6_def split: option.splits)
        have "heap_rep (kheap k4) (insert (unat ks, j) L2)" using stk(2,3) by (simp add: k4_def)
        from setup_user_argv_calm [OF k5 this] obtain L5 where s5: "same {} k4 k5" and
          L5: "heap_rep (kheap k5) L5" "insert (unat ks, j) L2 \<subseteq> L5" by (auto simp: calm_def)
        have s6: "same {} k4 k6" "kheap k6 = kheap k5"
          using s5 init_fake_stack_same by (simp_all add: k6_def same_upd)
        then have "core (procs k6 p) = core ?x" by (simp add: same_def)
        then have x: "p_kstack (procs k' p) = ks" "p_esp0 (procs k' p) = ks + 8192" "p_pid (procs k' p) = next_pid k3"
          "p_state (procs k' p) = PROC_READY" "p_next (procs k' p) = 0"
          by (simp_all add: core_eq k' k4_def upd_proc_def set_proc_cwd_def set_proc_name_def)
        have np: "next_pid k3 = next_pid k" using stk(2) s2 by (simp add: same_def)
        have "same {p} k (k'\<lparr>next_pid := next_pid k\<rparr>)" "next_pid k' = next_pid k + 1"
          using s6(1) s2 stk(2) np by (auto simp: same_def k' k4_def upd_proc_def)
        moreover have "heap_rep (kheap k') L5" using L5(1) s6(2) by (simp add: k' del: kheap_upd) (simp add: upd_proc_def)
        moreover have "L \<subseteq> L5" "(unat p, n) \<in> L5" "(unat ks, j) \<in> L5" using L5(2) L2(2) by auto
        moreover have "fresh L ks" "ks \<noteq> p" using stk(4) L2(2) by auto
        moreover have "8192 \<le> j" using stk(5) by simp
        ultimately show ?thesis using res x np n 2(1,4) stk(1) by (simp only: res sum.case x np) blast
      qed
    qed
  qed
qed

end
