(* ===== verification/Reach.thy ===== *)
theory Reach
  imports Calm Boot Libc_Calls
begin

text \<open>
  The kernel as one state machine: interrupts, system calls, faults, and the rest of a call when its
  process runs again. In every state that can be reached, the list of processes, the scheduler, the heap
  blocks that belong to processes, and the calls that are pending fit together.
\<close>

section \<open>Steps\<close>

text \<open>
  The calls that wait for their process to run again, by process identifier: the register \<^verbatim>\<open>eax\<close> as the
  call found it, and what remains to do.
\<close>

type_synonym waits = "u32 \<Rightarrow> (u32 \<times> pending) option"

definition cur_pid :: "kernel \<Rightarrow> u32" where
  "cur_pid k = p_pid (current k)"

definition deferred :: "registers \<Rightarrow> kernel \<Rightarrow> sys_result \<Rightarrow> waits \<Rightarrow> waits" where
  "deferred r k res W = (case res of Sys_done _ \<Rightarrow> W | Sys_resched pnd \<Rightarrow> W(cur_pid k := Some (r_eax r, pnd)))"

text \<open>
  The current process runs, and one of these happens: an interrupt of the timer or the keyboard; a system
  call or an exception, when no call of the process is pending; otherwise the pending call goes on. The
  idle process only yields (\<open>idle_main\<close>), and fewer than \<open>2 ^ 32 - 1\<close> processes have been created.
\<close>

inductive kernel_step :: "kernel \<times> waits \<Rightarrow> kernel \<times> waits \<Rightarrow> bool" where
  irq: "r_int_no r = 32 \<or> r_int_no r = 33 \<Longrightarrow> isr_handler e sc cr2 r k = Some (None, k') \<Longrightarrow> kernel_step (k, W) (k', W)"
| call: "r_int_no r = 128 \<Longrightarrow> W (cur_pid k) = None \<Longrightarrow> curr_proc k \<noteq> idle_proc k \<or> r_eax r = 2 \<Longrightarrow> next_pid k \<noteq> - 1
    \<Longrightarrow> isr_handler e sc cr2 r k = Some (Some res, k') \<Longrightarrow> kernel_step (k, W) (k', deferred r k res W)"
| fault: "r_int_no r \<notin> {32, 33, 128} \<Longrightarrow> W (cur_pid k) = None \<Longrightarrow> curr_proc k \<noteq> idle_proc k
    \<Longrightarrow> isr_handler e sc cr2 r k = Some (None, k') \<Longrightarrow> kernel_step (k, W) (k', W)"
| resume: "W (cur_pid k) = Some (eax, pnd) \<Longrightarrow> sys_resume eax pnd k = Some (v, k') \<Longrightarrow> kernel_step (k, W) (k', W(cur_pid k := None))"

section \<open>The invariant\<close>

definition all_procs :: "kernel \<Rightarrow> u32 list \<Rightarrow> u32 set" where
  "all_procs k ps = insert (idle_proc k) (set ps)"

text \<open>
  The structure of a process is a live block of the heap, and so is its kernel stack, which the processor
  loads for it. Only a dead process may have lost its stack.
\<close>

definition proc_ok :: "kernel \<Rightarrow> (nat \<times> nat) set \<Rightarrow> u32 \<Rightarrow> bool" where
  "proc_ok k L p \<longleftrightarrow> (let x = procs k p in
     (\<exists>n \<ge> 392. (unat p, n) \<in> L) \<and> p_pid x < next_pid k
     \<and> (if p_kstack x = 0 then p \<noteq> idle_proc k \<and> p_state x = PROC_DEAD
        else (\<exists>n \<ge> 8192. (unat (p_kstack x), n) \<in> L) \<and> p_esp0 x = p_kstack x + 8192))"

text \<open>No two processes share an identifier or a block.\<close>

definition apart_ok :: "kernel \<Rightarrow> u32 list \<Rightarrow> bool" where
  "apart_ok k ps \<longleftrightarrow> (\<forall>p \<in> all_procs k ps. \<forall>q \<in> all_procs k ps. p_kstack (procs k p) \<noteq> q
     \<and> (p \<noteq> q \<longrightarrow> p_pid (procs k p) \<noteq> p_pid (procs k q)
        \<and> (p_kstack (procs k p) \<noteq> 0 \<longrightarrow> p_kstack (procs k p) \<noteq> p_kstack (procs k q))))"

text \<open>Nobody with this identifier is alive.\<close>

definition all_dead :: "kernel \<Rightarrow> u32 list \<Rightarrow> u32 \<Rightarrow> bool" where
  "all_dead k ps i \<longleftrightarrow> (\<forall>q \<in> set ps. p_pid (procs k q) = i \<longrightarrow> p_state (procs k q) = PROC_DEAD)"

text \<open>A process that waits for another one is dead, or still blocked on it, or the other one is dead.\<close>

definition wait_ok :: "kernel \<Rightarrow> u32 list \<Rightarrow> u32 \<Rightarrow> u32 \<Rightarrow> bool" where
  "wait_ok k ps p i \<longleftrightarrow> (let x = procs k p in p \<noteq> idle_proc k \<and> i < next_pid k
     \<and> (p_state x = PROC_DEAD \<or> p_state x = PROC_BLOCKED \<and> p_block x = PROC_PID \<and> p_target_pid x = i \<or> all_dead k ps i))"

definition waits_ok :: "kernel \<Rightarrow> waits \<Rightarrow> u32 list \<Rightarrow> bool" where
  "waits_ok k W ps \<longleftrightarrow> (\<forall>p \<in> all_procs k ps. \<forall>a i. W (p_pid (procs k p)) = Some (a, Then_wait i) \<longrightarrow> wait_ok k ps p i)
     \<and> (\<forall>i. next_pid k \<le> i \<longrightarrow> W i = None)"

text \<open>The current process does not count as ready, and the idle process never stops.\<close>

definition cur_ok :: "kernel \<Rightarrow> bool" where
  "cur_ok k \<longleftrightarrow> p_state (current k) \<noteq> PROC_READY \<and> p_state (procs k (idle_proc k)) \<in> {PROC_READY, PROC_RUNNING}"

text \<open>What holds inside the handlers as well, and what holds between the steps.\<close>

definition base_inv :: "kernel \<Rightarrow> waits \<Rightarrow> u32 list \<Rightarrow> (nat \<times> nat) set \<Rightarrow> bool" where
  "base_inv k W ps L \<longleftrightarrow> sched_ok k ps \<and> heap_rep (kheap k) L \<and> (\<forall>p \<in> all_procs k ps. proc_ok k L p)
     \<and> apart_ok k ps \<and> waits_ok k W ps \<and> cur_ok k"

definition kernel_inv :: "kernel \<Rightarrow> waits \<Rightarrow> u32 list \<Rightarrow> (nat \<times> nat) set \<Rightarrow> bool" where
  "kernel_inv k W ps L \<longleftrightarrow> base_inv k W ps L \<and> p_state (current k) = PROC_RUNNING"

lemma all_procs_simps [simp]: "idle_proc k \<in> all_procs k ps" "p \<in> set ps \<Longrightarrow> p \<in> all_procs k ps"
  by (simp_all add: all_procs_def)

lemma base_invD:
  assumes "base_inv k W ps L"
  shows "sched_ok k ps" "heap_rep (kheap k) L" "\<And>p. p \<in> all_procs k ps \<Longrightarrow> proc_ok k L p" "apart_ok k ps" "waits_ok k W ps" "cur_ok k"
  using assms by (auto simp: base_inv_def)

lemma base_list: "base_inv k W ps L \<Longrightarrow> plist (procs k) (proc_list k) ps"
  by (simp add: base_inv_def sched_ok_def sched_list_def)

lemma base_cur: "base_inv k W ps L \<Longrightarrow> curr_proc k \<in> all_procs k ps"
  by (auto simp: base_inv_def sched_ok_def sched_list_def all_procs_def)

lemma base_live: "base_inv k W ps L \<Longrightarrow> p \<in> all_procs k ps \<Longrightarrow> \<exists>n \<ge> 392. (unat p, n) \<in> L"
  using base_invD(3) unfolding proc_ok_def Let_def by blast

section \<open>States that agree on the processes\<close>

text \<open>
  The parts of the invariant only read the list of processes and what \<open>core\<close> compares; the identity
  and the resources of a process change less often than its state.
\<close>

definition same_ids :: "kernel \<Rightarrow> kernel \<Rightarrow> u32 list \<Rightarrow> bool" where
  "same_ids k k' ps \<longleftrightarrow> proc_list k' = proc_list k \<and> idle_proc k' = idle_proc k \<and> next_pid k' = next_pid k
     \<and> scheduler_ready k' = scheduler_ready k
     \<and> (\<forall>p \<in> all_procs k ps. p_pid (procs k' p) = p_pid (procs k p) \<and> p_next (procs k' p) = p_next (procs k p)
          \<and> p_kstack (procs k' p) = p_kstack (procs k p) \<and> p_esp0 (procs k' p) = p_esp0 (procs k p)
          \<and> (p_state (procs k p) = PROC_DEAD \<longrightarrow> p_state (procs k' p) = PROC_DEAD))"

lemma same_idsD:
  assumes "same_ids k k' ps"
  shows "proc_list k' = proc_list k" "idle_proc k' = idle_proc k" "next_pid k' = next_pid k" "scheduler_ready k' = scheduler_ready k"
    "all_procs k' ps = all_procs k ps"
    "\<And>p. p \<in> all_procs k ps \<Longrightarrow> p_pid (procs k' p) = p_pid (procs k p)"
    "\<And>p. p \<in> all_procs k ps \<Longrightarrow> p_next (procs k' p) = p_next (procs k p)"
    "\<And>p. p \<in> all_procs k ps \<Longrightarrow> p_kstack (procs k' p) = p_kstack (procs k p)"
    "\<And>p. p \<in> all_procs k ps \<Longrightarrow> p_esp0 (procs k' p) = p_esp0 (procs k p)"
    "\<And>p. p \<in> all_procs k ps \<Longrightarrow> p_state (procs k p) = PROC_DEAD \<Longrightarrow> p_state (procs k' p) = PROC_DEAD"
  using assms by (auto simp: same_ids_def all_procs_def)

lemma ids_plist: "same_ids k k' ps \<Longrightarrow> plist (procs k) p ps \<Longrightarrow> plist (procs k') p ps"
  using same_idsD(7) plist_cong [of ps "procs k'" "procs k" p] by simp

lemma ids_proc_ok: "same_ids k k' ps \<Longrightarrow> L \<subseteq> L' \<Longrightarrow> p \<in> all_procs k ps \<Longrightarrow> proc_ok k L p \<Longrightarrow> proc_ok k' L' p"
  unfolding proc_ok_def Let_def by (simp add: same_idsD split: if_splits; blast)

lemma ids_apart: "same_ids k k' ps \<Longrightarrow> apart_ok k ps \<Longrightarrow> apart_ok k' ps"
  unfolding apart_ok_def by (simp add: same_idsD)

lemma ids_dead: "same_ids k k' ps \<Longrightarrow> all_dead k ps i \<Longrightarrow> all_dead k' ps i"
  unfolding all_dead_def by (simp add: same_idsD)

lemma ids_sched:
  assumes ids: "same_ids k k' ps" and s: "sched_ok k ps"
    and g: "curr_proc k' = curr_proc k" "tss_esp0 k' = tss_esp0 k" "cr3 (vm k') = cr3 (vm k)"
      "p_pd_phys (procs k' (curr_proc k)) = p_pd_phys (procs k (curr_proc k))"
    and r: "\<And>p. p \<in> all_procs k ps \<Longrightarrow> p_state (procs k' p) = PROC_RUNNING \<Longrightarrow> p_state (procs k p) = PROC_RUNNING"
  shows "sched_ok k' ps"
proof -
  note d = same_idsD [OF ids]
  have l: "sched_list k ps" using s by (simp add: sched_ok_def)
  have c: "curr_proc k \<in> all_procs k ps" using l by (auto simp: sched_list_def all_procs_def)
  have "sched_list k' ps"
    using l ids_plist [OF ids, of "proc_list k"] d(7) [of "idle_proc k"] unfolding sched_list_def d(1,2,4) g by simp
  moreover have "\<forall>p \<in> all_procs k ps. p_state (procs k p) = PROC_RUNNING \<longrightarrow> p = curr_proc k"
    using s unfolding sched_ok_def all_procs_def by blast
  with r have "\<forall>p \<in> insert (idle_proc k) (set ps). p_state (procs k' p) = PROC_RUNNING \<longrightarrow> p = curr_proc k"
    unfolding all_procs_def by blast
  ultimately show ?thesis using s d(9) [OF c] unfolding sched_ok_def d(2) g by simp
qed

text \<open>A wait goes on, or is over because nobody is left to wait for.\<close>

lemma ids_waits:
  assumes "same_ids k k' ps" "waits_ok k W ps"
    and "\<And>p. p \<in> all_procs k ps \<Longrightarrow> p_state (procs k p) = PROC_BLOCKED \<Longrightarrow> p_block (procs k p) = PROC_PID \<Longrightarrow>
      p_state (procs k' p) = PROC_DEAD \<or> all_dead k ps (p_target_pid (procs k p))
      \<or> p_state (procs k' p) = PROC_BLOCKED \<and> p_block (procs k' p) = PROC_PID \<and> p_target_pid (procs k' p) = p_target_pid (procs k p)"
  shows "waits_ok k' W ps"
proof -
  note d = same_idsD [OF assms(1)]
  have "wait_ok k' ps p i" if "p \<in> all_procs k ps" "wait_ok k ps p i" for p i
    using that(2) assms(3) [OF that(1)] d(10) [OF that(1)] ids_dead [OF assms(1), of i]
    unfolding wait_ok_def Let_def d(2,3) by blast
  then show ?thesis using assms(2) unfolding waits_ok_def d(3,5) using d(6) by metis
qed

section \<open>Steps that leave processes alone\<close>

lemma base_same:
  assumes b: "base_inv k W ps L" and s: "same X k k'" and f: "\<forall>p \<in> X. fresh L p" and h: "heap_rep (kheap k') L'" "L \<subseteq> L'"
  shows "base_inv k' W ps L'" "p_state (current k') = p_state (current k)"
proof -
  have "p \<notin> X" if "p \<in> all_procs k ps" for p using base_live [OF b that] f by blast
  then have c: "core (procs k' p) = core (procs k p)" if "p \<in> all_procs k ps" for p
    using s that by (simp add: same_def)
  have g: "curr_proc k' = curr_proc k" "idle_proc k' = idle_proc k" "tss_esp0 k' = tss_esp0 k" "cr3 (vm k') = cr3 (vm k)"
    using s by (simp_all add: same_def)
  have ids: "same_ids k k' ps" using s c by (simp add: same_ids_def same_def core_eq)
  note cc = c [OF base_cur [OF b]]
  show st: "p_state (current k') = p_state (current k)" using cc g by (simp add: current_def core_eq)
  have "sched_ok k' ps" using c cc g by (intro ids_sched [OF ids base_invD(1) [OF b]]) (simp_all add: core_eq)
  moreover have "waits_ok k' W ps" using c by (intro ids_waits [OF ids base_invD(5) [OF b]]) (simp add: core_eq)
  moreover have "cur_ok k'" using base_invD(6) [OF b] st g c [of "idle_proc k"] by (simp add: cur_ok_def core_eq)
  moreover have "\<forall>p \<in> all_procs k' ps. proc_ok k' L' p"
    using base_invD(3) [OF b] ids_proc_ok [OF ids h(2)] same_idsD(5) [OF ids] by simp
  ultimately show "base_inv k' W ps L'" using h(1) ids_apart [OF ids base_invD(4) [OF b]] by (simp add: base_inv_def)
qed

lemma inv_same:
  "kernel_inv k W ps L \<Longrightarrow> same X k k' \<Longrightarrow> \<forall>p \<in> X. fresh L p \<Longrightarrow> heap_rep (kheap k') L' \<Longrightarrow> L \<subseteq> L' \<Longrightarrow> kernel_inv k' W ps L'"
  using base_same unfolding kernel_inv_def by metis

lemma inv_calm: "kernel_inv k W ps L \<Longrightarrow> calm X k L k' \<Longrightarrow> \<forall>p \<in> X. fresh L p \<Longrightarrow> \<exists>L'. kernel_inv k' W ps L'"
  unfolding calm_def using inv_same by blast

lemma inv_kheap: "kernel_inv k W ps L \<Longrightarrow> same {} k k' \<Longrightarrow> kheap k' = kheap k \<Longrightarrow> kernel_inv k' W ps L"
  by (rule inv_same [of k W ps L "{}"]) (auto simp: kernel_inv_def base_inv_def)

lemma inv_quiet: "kernel_inv k W ps L \<Longrightarrow> quiet k y \<Longrightarrow> kernel_inv (snd y) W ps L"
  unfolding quiet_def using inv_kheap by blast

section \<open>Changes of a process\<close>

text \<open>A change of \<open>p\<close> that keeps what belongs to it, does not revive it, and ends a wait only for the dead.\<close>

lemma base_upd:
  assumes b: "base_inv k W ps L" and p: "p \<in> set ps" and x: "x = procs k p"
    and keep: "p_pid (f x) = p_pid x" "p_next (f x) = p_next x" "p_pd_phys (f x) = p_pd_phys x" "p_esp0 (f x) = p_esp0 x"
      "p_kstack (f x) = p_kstack x"
    and state: "p_state (f x) = PROC_RUNNING \<Longrightarrow> p_state x = PROC_RUNNING" "p_state x = PROC_DEAD \<Longrightarrow> p_state (f x) = PROC_DEAD"
    and cur: "p = curr_proc k \<Longrightarrow> p_state (f x) \<noteq> PROC_READY"
    and wait: "p_state x = PROC_BLOCKED \<Longrightarrow> p_block x = PROC_PID \<Longrightarrow> p_state (f x) = PROC_DEAD \<or> all_dead k ps (p_target_pid x)"
  shows "base_inv (upd_proc p f k) W ps L"
proof -
  let ?k = "upd_proc p f k"
  have "p \<noteq> idle_proc k" using p base_invD(1) [OF b] by (auto simp: sched_ok_def sched_list_def)
  have np: "next_pid ?k = next_pid k" by (simp add: upd_proc_def)
  have ids: "same_ids k ?k ps" using keep state(2) x np by (auto simp: same_ids_def)
  have "sched_ok ?k ps" using keep state x by (intro ids_sched [OF ids base_invD(1) [OF b]]) (auto split: if_splits)
  moreover have "waits_ok ?k W ps" using wait x by (intro ids_waits [OF ids base_invD(5) [OF b]]) auto
  moreover have "cur_ok ?k" using base_invD(6) [OF b] cur x \<open>p \<noteq> idle_proc k\<close> by (auto simp: cur_ok_def current_def)
  moreover have "\<forall>p \<in> all_procs ?k ps. proc_ok ?k L p"
    using base_invD(3) [OF b] ids_proc_ok [OF ids order_refl] same_idsD(5) [OF ids] by simp
  ultimately show ?thesis
    using base_invD(2) [OF b] ids_apart [OF ids base_invD(4) [OF b]] by (simp add: base_inv_def)
qed

section \<open>The scheduler\<close>

lemma schedule_inv:
  assumes b: "base_inv k W ps L" and s: "schedule k = Some k'"
  shows "kernel_inv k' W ps L"
proof -
  let ?q = "chosen k ps"
  note ok = base_invD(1) [OF b]
  have k': "k' = switched ?q k" using s schedule_switched [of k ps] ok by (simp add: sched_ok_def)
  have q: "?q = idle_proc k \<or> ?q \<in> set ps \<and> p_state (procs k ?q) = PROC_READY"
    using chosen_cases [of k ps] by (auto simp: ready_def)
  have idle: "p_state (procs k (idle_proc k)) \<in> {PROC_READY, PROC_RUNNING}" using base_invD(6) [OF b] by (simp add: cur_ok_def)
  have cur: "p_state (procs k (curr_proc k)) \<noteq> PROC_READY" using base_invD(6) [OF b] by (simp add: cur_ok_def current_def)
  have np: "next_pid k' = next_pid k" "kheap k' = kheap k"
    by (simp_all add: k' switched_def load_proc_def set_state_def upd_proc_def)
  have keep: "p_pid (procs k' p) = p_pid (procs k p)" "p_kstack (procs k' p) = p_kstack (procs k p)"
    "p_block (procs k' p) = p_block (procs k p)" "p_target_pid (procs k' p) = p_target_pid (procs k p)" for p
    by (simp_all add: k' switched_def load_proc_def)
  have st: "p_state (procs k' p) = p_state (procs k p)" if "p_state (procs k p) \<in> {PROC_BLOCKED, PROC_DEAD}" for p
    using that q idle by (auto simp: k')
  have ids: "same_ids k k' ps"
    using st np keep by (simp add: same_ids_def k')
  have "sched_ok k' ps" using switched_ok [OF ok, of ?q] q by (auto simp: k')
  moreover have "waits_ok k' W ps" using st keep by (intro ids_waits [OF ids base_invD(5) [OF b]]) simp
  moreover have run: "p_state (current k') = PROC_RUNNING"
  proof (cases "?q = curr_proc k")
    case True
    then have "curr_proc k = idle_proc k" using q cur by auto
    then show ?thesis using True idle cur by (simp add: k' current_def)
  qed (simp add: k' current_def)
  moreover have "cur_ok k'" using run idle by (auto simp: cur_ok_def k')
  moreover have "\<forall>p \<in> all_procs k' ps. proc_ok k' L p"
    using base_invD(3) [OF b] ids_proc_ok [OF ids order_refl] same_idsD(5) [OF ids] by simp
  ultimately show ?thesis
    using base_invD(2) [OF b] np ids_apart [OF ids base_invD(4) [OF b]] by (simp add: base_inv_def kernel_inv_def)
qed

text \<open>A process that gives up the processor notes what remains to do.\<close>

lemma base_waits:
  assumes b: "base_inv k W ps L" and p: "p \<in> all_procs k ps"
    and w: "\<And>a i. w = Some (a, Then_wait i) \<Longrightarrow> wait_ok k ps p i"
  shows "base_inv k (W(p_pid (procs k p) := w)) ps L"
proof -
  have "p_pid (procs k p) < next_pid k" using base_invD(3) [OF b p] by (simp add: proc_ok_def Let_def)
  moreover have "q = p" if "q \<in> all_procs k ps" "p_pid (procs k q) = p_pid (procs k p)" for q
    using that p base_invD(4) [OF b] unfolding apart_ok_def by blast
  ultimately have "waits_ok k (W(p_pid (procs k p) := w)) ps"
    using base_invD(5) [OF b] w unfolding waits_ok_def by (auto simp: linorder_not_le [symmetric])
  with b show ?thesis by (simp add: base_inv_def)
qed

lemma resched_inv:
  assumes "resched pnd k1 = Some (res, k')" "base_inv k1 W ps L" "curr_proc k1 = curr_proc k" "cur_pid k1 = cur_pid k"
    and "\<And>i. pnd = Then_wait i \<Longrightarrow> wait_ok k1 ps (curr_proc k) i"
  shows "kernel_inv k' (deferred r k res W) ps L"
proof -
  from assms(1) have r: "res = Sys_resched pnd" "schedule k1 = Some k'" by (auto simp: resched_def)
  have "base_inv k1 (W(p_pid (procs k1 (curr_proc k1)) := Some (r_eax r, pnd))) ps L"
    using assms(3,5) by (intro base_waits [OF assms(2) base_cur [OF assms(2)]]) simp
  then have "base_inv k1 (deferred r k res W) ps L"
    using assms(4) r(1) by (simp add: deferred_def cur_pid_def current_def)
  then show ?thesis using r(2) by (rule schedule_inv)
qed

lemma deferred_done [simp]: "deferred r k (Sys_done v) W = W"
  by (simp add: deferred_def)

lemma done_inv: "sys_ok v k1 = Some (res, k') \<Longrightarrow> kernel_inv k1 W ps L \<Longrightarrow> kernel_inv k' (deferred r k res W) ps L"
  by (auto simp: sys_ok_def)

section \<open>Loops over the processes\<close>

text \<open>A loop over the list whose body keeps the list and \<open>P\<close>.\<close>

lemma for_procs_inv:
  assumes "plist (procs s) p xs" "P s" "for_procs body p s = Some s'"
    and "\<And>x s s1. x \<in> set xs \<Longrightarrow> P s \<Longrightarrow> body x s = Some s1 \<Longrightarrow> P s1 \<and> (\<forall>y. p_next (procs s1 y) = p_next (procs s y))"
  shows "P s'"
  using assms
proof (induction xs arbitrary: p s)
  case Nil
  then show ?case by (simp add: for_procs.simps)
next
  case (Cons x xs)
  then have p: "p = x" "x \<noteq> 0" "plist (procs s) (p_next (procs s x)) xs" by auto
  with Cons.prems(3) obtain s1 where s1: "body x s = Some s1" "for_procs body (p_next (procs s1 x)) s1 = Some s'"
    by (auto simp: for_procs.simps [of body x] split: option.splits)
  from Cons.prems(4) [OF _ Cons.prems(2) s1(1)] have P1: "P s1" and nx: "p_next (procs s1 y) = p_next (procs s y)" for y by auto
  have "plist (procs s1) (p_next (procs s1 x)) xs" using p(3) nx plist_cong [of xs "procs s1" "procs s"] by simp
  then show ?case by (rule Cons.IH [OF _ P1 s1(2)]) (rule Cons.prems(4); simp)
qed

section \<open>Waking up and ending\<close>

text \<open>The current process goes on, and everybody with the identifier \<open>i\<close> is dead.\<close>

definition waking :: "kernel \<Rightarrow> u32 \<Rightarrow> waits \<Rightarrow> u32 list \<Rightarrow> (nat \<times> nat) set \<Rightarrow> kernel \<Rightarrow> bool" where
  "waking k i W ps L s \<longleftrightarrow> base_inv s W ps L \<and> all_dead s ps i \<and> curr_proc s = curr_proc k \<and> current s = current k"

lemma waking_upd:
  assumes w: "waking k i W ps L s" and p: "p \<in> set ps" and x: "x = procs s p" "p_state x = PROC_BLOCKED"
    "p_block x = PROC_PID \<Longrightarrow> p_target_pid x = i"
    and f: "p_pid (f x) = p_pid x" "p_next (f x) = p_next x" "p_pd_phys (f x) = p_pd_phys x" "p_esp0 (f x) = p_esp0 x"
      "p_kstack (f x) = p_kstack x" "p_state (f x) = PROC_READY"
    and cur: "p_state (current k) \<noteq> PROC_BLOCKED"
  shows "waking k i W ps L (upd_proc p f s)"
proof -
  have c: "curr_proc s = curr_proc k" "current s = current k" and b: "base_inv s W ps L" and d: "all_dead s ps i"
    using w by (auto simp: waking_def)
  have ne: "p \<noteq> curr_proc s" using x cur c by (auto simp: current_def)
  have "base_inv (upd_proc p f s) W ps L"
    using f x(2,3) d ne by (intro base_upd [OF b p x(1)]) auto
  moreover have "all_dead (upd_proc p f s) ps i" using d x f(1) unfolding all_dead_def by auto
  moreover have "current (upd_proc p f s) = current s" using ne by (simp add: current_def)
  ultimately show ?thesis using c by (simp add: waking_def)
qed

lemma wake_waiters_inv:
  assumes "waking k i W ps L k" "wake_waiters i k = Some k'" "p_state (current k) \<noteq> PROC_BLOCKED"
  shows "waking k i W ps L k'"
proof -
  have "plist (procs k) (proc_list k) ps" using assms(1) base_list by (auto simp: waking_def)
  then show ?thesis
    using assms(1,2) unfolding wake_waiters_def
  proof (rule for_procs_inv)
    fix x s s1 assume "x \<in> set ps" "waking k i W ps L s" "wake_waiter i x s = Some s1"
    then show "waking k i W ps L s1 \<and> (\<forall>y. p_next (procs s1 y) = p_next (procs s y))"
      using assms(3) by (auto simp: wake_waiter_def split: if_splits intro!: waking_upd)
  qed
qed

lemma wake_faulted_inv:
  assumes "waking k i W ps L k" "for_procs (wake_faulted i) (proc_list k) k = Some k'" "p_state (current k) \<noteq> PROC_BLOCKED"
  shows "waking k i W ps L k'"
proof -
  have "plist (procs k) (proc_list k) ps" using assms(1) base_list by (auto simp: waking_def)
  then show ?thesis
    using assms(1,2)
  proof (rule for_procs_inv)
    fix x s s1 assume "x \<in> set ps" "waking k i W ps L s" "wake_faulted i x s = Some s1"
    then show "waking k i W ps L s1 \<and> (\<forall>y. p_next (procs s1 y) = p_next (procs s y))"
      using assms(3) by (auto simp: wake_faulted_def split: if_splits intro!: waking_upd)
  qed
qed

text \<open>The end of a process: nobody with its identifier is left.\<close>

lemma kill_inv:
  assumes b: "base_inv k W ps L" and p: "p \<in> set ps" and x: "x = procs k p"
    and f: "p_pid (f x) = p_pid x" "p_next (f x) = p_next x" "p_pd_phys (f x) = p_pd_phys x" "p_esp0 (f x) = p_esp0 x"
      "p_kstack (f x) = p_kstack x" "p_state (f x) = PROC_DEAD"
  shows "waking (upd_proc p f k) (p_pid x) W ps L (upd_proc p f k)"
proof -
  have "q = p" if "q \<in> set ps" "p_pid (procs k q) = p_pid (procs k p)" for q
    using that p base_invD(4) [OF b] unfolding apart_ok_def by (meson all_procs_simps(2))
  then have "all_dead (upd_proc p f k) ps (p_pid x)" using f(1,6) x unfolding all_dead_def by auto
  moreover have "base_inv (upd_proc p f k) W ps L" using f by (intro base_upd [OF b p x]) auto
  ultimately show ?thesis by (simp add: waking_def)
qed

lemma cur_in_list: "base_inv k W ps L \<Longrightarrow> curr_proc k \<noteq> idle_proc k \<Longrightarrow> curr_proc k \<in> set ps"
  using base_cur [of k W ps L] by (simp add: all_procs_def)

lemma sys_exit_inv:
  assumes "kernel_inv k W ps L" "sys_exit r k = Some (res, k')" "curr_proc k \<noteq> idle_proc k"
  shows "kernel_inv k' (deferred r k res W) ps L"
proof -
  have b: "base_inv k W ps L" using assms(1) by (simp add: kernel_inv_def)
  define k1 where "k1 = upd_current (\<lambda>x. x\<lparr>p_state := PROC_DEAD, p_exit_code := r_ebx r\<rparr>) k"
  have pid: "p_pid (current k1) = cur_pid k" "p_state (current k1) = PROC_DEAD" "curr_proc k1 = curr_proc k"
    by (simp_all add: k1_def upd_current_def current_def cur_pid_def)
  from assms(2) pid obtain k2 where k2: "wake_waiters (cur_pid k) k1 = Some k2" "resched Then_keep k2 = Some (res, k')"
    by (auto simp: sys_exit_def Let_def k1_def [symmetric] split: option.splits)
  have "waking k1 (cur_pid k) W ps L k1"
    unfolding k1_def upd_current_def cur_pid_def current_def by (rule kill_inv [OF b cur_in_list [OF b assms(3)] refl]) simp_all
  from wake_waiters_inv [OF this k2(1)] pid have "waking k1 (cur_pid k) W ps L k2" by simp
  then show ?thesis using resched_inv [OF k2(2), of W ps L k r] pid by (simp add: waking_def cur_pid_def)
qed

section \<open>Calls that give up the processor\<close>

lemma find_loop_find:
  "plist (procs s) p ps \<Longrightarrow> find_loop i p s = Some (case find (\<lambda>q. p_pid (procs s q) = i) ps of None \<Rightarrow> 0 | Some q \<Rightarrow> q)"
  by (induction ps arbitrary: p) (auto simp: find_loop.simps)

lemma process_find_cases:
  assumes "process_find i k = Some p" "plist (procs k) (proc_list k) ps"
  shows "p = 0 \<or> p \<in> set ps \<and> p_pid (procs k p) = i"
  using assms find_loop_find [OF assms(2), of i]
  by (auto simp: process_find_def find_Some_iff split: option.splits)

lemma yield_inv:
  assumes "kernel_inv k W ps L" "sys_yield k = Some (res, k')"
  shows "kernel_inv k' (deferred r k res W) ps L"
  using assms resched_inv [of "Then_return 0" k res k' W ps L k r] by (simp add: sys_yield_def kernel_inv_def)

lemma sys_kill_inv:
  assumes "kernel_inv k W ps L" "sys_kill r k = Some (res, k')"
  shows "kernel_inv k' (deferred r k res W) ps L"
proof -
  have b: "base_inv k W ps L" and run: "p_state (current k) = PROC_RUNNING" using assms(1) by (simp_all add: kernel_inv_def)
  from assms(2) obtain p where p: "process_find (r_ebx r) k = Some p" by (auto simp: sys_kill_def split: option.splits)
  show ?thesis
  proof (cases "p = 0")
    case True
    with assms p show ?thesis by (simp add: sys_kill_def done_inv)
  next
    case False
    define k1 where "k1 = set_state p PROC_DEAD k"
    have ps: "p \<in> set ps" using process_find_cases [OF p base_list [OF b]] False by simp
    have c: "curr_proc k1 = curr_proc k" "p_pid (procs k1 q) = p_pid (procs k q)" for q by (simp_all add: k1_def)
    from assms(2) p False obtain k2 where k2: "wake_waiters (p_pid (procs k p)) k1 = Some k2"
      "if p = curr_proc k2 then resched (Then_return 0) k2 = Some (res, k') else sys_ok 0 k2 = Some (res, k')"
      unfolding sys_kill_def by (simp add: Let_def k1_def [symmetric] c split: option.splits if_splits)
    have "waking k1 (p_pid (procs k p)) W ps L k1"
      unfolding k1_def set_state_def by (rule kill_inv [OF b ps refl]) simp_all
    moreover have "p_state (current k1) \<noteq> PROC_BLOCKED" using run by (simp add: k1_def current_def)
    ultimately have w: "waking k1 (p_pid (procs k p)) W ps L k2" using wake_waiters_inv k2(1) by blast
    show ?thesis
    proof (cases "p = curr_proc k")
      case True
      have "cur_pid k2 = cur_pid k1" using w by (simp add: waking_def cur_pid_def)
      moreover have "cur_pid k1 = cur_pid k" by (simp add: c cur_pid_def current_def)
      ultimately show ?thesis
        using True w k2(2) c resched_inv [of "Then_return 0" k2 res k' W ps L k r] by (simp add: waking_def)
    next
      case False
      then have "current k1 = current k" by (simp add: k1_def current_def)
      then have "p_state (current k2) = PROC_RUNNING" using w run by (simp add: waking_def)
      then show ?thesis using False w k2(2) c by (auto simp: waking_def kernel_inv_def sys_ok_def)
    qed
  qed
qed

text \<open>A current process that blocks.\<close>

lemma block_inv:
  assumes b: "base_inv k W ps L" "p_state (current k) = PROC_RUNNING" "curr_proc k \<noteq> idle_proc k"
    and f: "\<And>x. p_pid (f x) = p_pid x" "\<And>x. p_next (f x) = p_next x" "\<And>x. p_pd_phys (f x) = p_pd_phys x"
      "\<And>x. p_esp0 (f x) = p_esp0 x" "\<And>x. p_kstack (f x) = p_kstack x" "\<And>x. p_state (f x) = PROC_BLOCKED"
  shows "base_inv (upd_current f k) W ps L"
  unfolding upd_current_def
  by (rule base_upd [OF b(1) cur_in_list [OF b(1,3)] refl]) (use b(2) f in \<open>simp_all add: current_def\<close>)

lemma sys_wait_inv:
  assumes "kernel_inv k W ps L" "sys_wait r k = Some (res, k')" "curr_proc k \<noteq> idle_proc k"
  shows "kernel_inv k' (deferred r k res W) ps L"
proof -
  have b: "base_inv k W ps L" and run: "p_state (current k) = PROC_RUNNING" using assms(1) by (simp_all add: kernel_inv_def)
  from assms(2) obtain p where p: "process_find (r_ebx r) k = Some p" by (auto simp: sys_wait_def split: option.splits)
  show ?thesis
  proof (cases "p = 0 \<or> p_state (procs k p) = PROC_DEAD")
    case True
    with assms p show ?thesis by (auto simp: sys_wait_def intro: done_inv split: if_splits)
  next
    case False
    then have ps: "p \<in> set ps" "p_pid (procs k p) = r_ebx r" using process_find_cases [OF p base_list [OF b]] by simp_all
    define k1 where "k1 = upd_current (\<lambda>x. x\<lparr>p_state := PROC_BLOCKED, p_block := PROC_PID, p_target_pid := p_pid (procs k p)\<rparr>) k"
    have k1: "resched (Then_wait (r_ebx r)) k1 = Some (res, k')" using assms(2) p False by (simp add: sys_wait_def k1_def)
    have "base_inv k1 W ps L" unfolding k1_def by (rule block_inv [OF b run assms(3)]) simp_all
    moreover have "curr_proc k1 = curr_proc k" "cur_pid k1 = cur_pid k" by (simp_all add: k1_def upd_current_def cur_pid_def current_def)
    moreover have "r_ebx r < next_pid k" using base_invD(3) [OF b, of p] ps by (simp add: proc_ok_def Let_def)
    then have "wait_ok k1 ps (curr_proc k) (r_ebx r)"
      using assms(3) ps(2) by (simp add: wait_ok_def k1_def upd_current_def) (simp add: upd_proc_def)
    ultimately show ?thesis using resched_inv [OF k1] by blast
  qed
qed

lemma sys_sleep_inv:
  assumes "kernel_inv k W ps L" "sys_sleep r k = Some (res, k')" "curr_proc k \<noteq> idle_proc k"
  shows "kernel_inv k' (deferred r k res W) ps L"
proof -
  let ?f = "\<lambda>x. x\<lparr>p_state := PROC_BLOCKED, p_block := PROC_SLEEP, p_resume_tick := tick_count k + r_ebx r\<rparr>"
  have b: "base_inv (upd_current ?f k) W ps L"
    using assms(1,3) by (intro block_inv) (simp_all add: kernel_inv_def)
  show ?thesis
    by (rule resched_inv [OF assms(2) [unfolded sys_sleep_def] b]) (simp_all add: upd_current_def cur_pid_def current_def)
qed

lemma k_getchar_same: "same {} k (snd (k_getchar k))" "kheap (snd (k_getchar k)) = kheap k"
  by (simp_all add: k_getchar_def split: prod.splits)

lemma getchar_inv: "kernel_inv k W ps L \<Longrightarrow> kernel_inv (snd (k_getchar k)) W ps L"
  using inv_kheap [OF _ k_getchar_same] .

lemma sys_getchar_inv:
  assumes "kernel_inv k W ps L" "sys_getchar k = Some (res, k')" "curr_proc k \<noteq> idle_proc k"
  shows "kernel_inv k' (deferred r k res W) ps L"
proof -
  let ?f = "\<lambda>x. x\<lparr>p_state := PROC_BLOCKED, p_block := PROC_INPUT\<rparr>"
  define k1 where "k1 = snd (k_getchar k)"
  have i: "kernel_inv k1 W ps L" using getchar_inv [OF assms(1)] by (simp add: k1_def)
  have g: "curr_proc k1 = curr_proc k" "idle_proc k1 = idle_proc k" "procs k1 = procs k"
    by (simp_all add: k1_def k_getchar_def split: prod.splits)
  then have b: "base_inv (upd_current ?f k1) W ps L"
    using i assms(3) by (intro block_inv) (simp_all add: kernel_inv_def)
  show ?thesis
  proof (cases "sint (fst (k_getchar k)) < 0")
    case True
    then have r: "resched Then_getchar (upd_current ?f k1) = Some (res, k')"
      using assms(2) by (simp add: sys_getchar_def k1_def split: prod.splits)
    show ?thesis by (rule resched_inv [OF r b]) (simp_all add: g upd_current_def cur_pid_def current_def)
  next
    case False
    with assms(2) i show ?thesis by (auto simp: sys_getchar_def sys_ok_def k1_def split: prod.splits)
  qed
qed

section \<open>New processes and released ones\<close>

lemma unat_succ:
  assumes "(x :: u32) \<noteq> - 1"
  shows "unat (x + 1) = Suc (unat x)"
proof -
  have "unat (- 1 :: u32) = 2 ^ 32 - 1" by (simp add: unsigned_minus_1_eq_mask mask_eq_exp_minus_1)
  then have "unat x \<noteq> 2 ^ 32 - 1" using assms by (metis word_unat_eq_iff)
  then show ?thesis using u32_less [of x] by (subst unat_add_lem [THEN iffD1]) auto
qed

lemma base_add:
  assumes b: "base_inv k W ps L" "next_pid k \<noteq> - 1"
    and s: "same {p} k k1" "kheap k' = kheap k1" "heap_rep (kheap k1) L'" "L \<subseteq> L'"
    and p: "p \<noteq> 0" "fresh L p" "(unat p, n) \<in> L'" "392 \<le> n" "(unat ks, m) \<in> L'" "8192 \<le> m" "fresh L ks" "ks \<noteq> p" "ks \<noteq> 0"
    and k': "proc_list k' = p" "curr_proc k' = curr_proc k1" "idle_proc k' = idle_proc k1" "scheduler_ready k' = scheduler_ready k1"
      "tss_esp0 k' = tss_esp0 k1" "vm k' = vm k1" "next_pid k' = next_pid k + 1" "\<And>q. q \<noteq> p \<Longrightarrow> procs k' q = procs k1 q"
    and x: "p_kstack (procs k' p) = ks" "p_esp0 (procs k' p) = ks + 8192" "p_pid (procs k' p) = next_pid k"
      "p_state (procs k' p) = PROC_READY" "p_next (procs k' p) = proc_list k"
  shows "base_inv k' W (p # ps) L'" "current k' = current k1"
proof -
  have old: "q \<noteq> p" "core (procs k' q) = core (procs k q)" if "q \<in> all_procs k ps" for q
  proof -
    show "q \<noteq> p" using base_live [OF b(1) that] p(2) by auto
    then show "core (procs k' q) = core (procs k q)" using s(1) k'(8) [of q] by (simp add: same_def)
  qed
  have g: "curr_proc k' = curr_proc k" "idle_proc k' = idle_proc k" "scheduler_ready k' = scheduler_ready k" "tss_esp0 k' = tss_esp0 k"
    "cr3 (vm k') = cr3 (vm k)" "curr_proc k1 = curr_proc k" using s(1) k' by (simp_all add: same_def)
  note cur = old [OF base_cur [OF b(1)]] and idle = old [of "idle_proc k", simplified]
  have all: "all_procs k' (p # ps) = insert p (all_procs k ps)" by (auto simp: all_procs_def g)
  have "unat (next_pid k + 1) = Suc (unat (next_pid k))" by (rule unat_succ [OF b(2)])
  then have np: "i < next_pid k + 1 \<longleftrightarrow> i < next_pid k \<or> i = next_pid k" for i
    by (auto simp: word_less_nat_alt less_Suc_eq word_unat_eq_iff)
  have "plist (procs k') (proc_list k) ps"
    using base_list [OF b(1)] old(2) plist_cong [of ps "procs k'" "procs k"] by (simp add: core_eq)
  then have "sched_list k' (p # ps)"
    using base_invD(1) [OF b(1)] p(1) x(5) idle unfolding sched_ok_def sched_list_def g k'(1) by (auto simp: core_eq)
  moreover have "q = curr_proc k" if "q \<in> insert p (all_procs k ps)" "p_state (procs k' q) = PROC_RUNNING" for q
    using that x(4) old(2) [of q] base_invD(1) [OF b(1)] by (auto simp: sched_ok_def core_eq all_procs_def)
  then have "\<forall>q \<in> insert (idle_proc k) (set (p # ps)). p_state (procs k' q) = PROC_RUNNING \<longrightarrow> q = curr_proc k"
    by (auto simp: all_procs_def)
  ultimately have "sched_ok k' (p # ps)"
    using base_invD(1) [OF b(1)] cur(2) unfolding sched_ok_def g by (simp add: core_eq)
  moreover have "proc_ok k' L' q" if q: "q \<in> all_procs k ps" for q
    using base_invD(3) [OF b(1) q] old(2) [OF q] s(4) np unfolding proc_ok_def Let_def g k'(7)
    by (auto simp: core_eq split: if_splits)
  moreover have "proc_ok k' L' p" using p x np k'(7) by (auto simp: proc_ok_def Let_def)
  moreover have "apart_ok k' (p # ps)"
  proof -
    have o: "p_pid (procs k' q) = p_pid (procs k q)" "p_kstack (procs k' q) = p_kstack (procs k q)" if "q \<in> all_procs k ps" for q
      using old(2) [OF that] by (simp_all add: core_eq)
    have n: "p_pid (procs k q) \<noteq> next_pid k" "p_kstack (procs k q) \<noteq> p" "ks \<noteq> q" "p_kstack (procs k q) \<noteq> ks" if "q \<in> all_procs k ps" for q
      using base_invD(3) [OF b(1) that] p unfolding proc_ok_def Let_def by (auto split: if_splits)
    show ?thesis
      using base_invD(4) [OF b(1)] o n n(1,4) [symmetric] p(8) x(1,3) unfolding apart_ok_def all by simp
  qed
  moreover have "waits_ok k' W (p # ps)"
  proof -
    have o: "p_pid (procs k' q) = p_pid (procs k q)" "p_state (procs k' q) = p_state (procs k q)" if "q \<in> all_procs k ps" for q
      using old(2) [OF that] by (simp_all add: core_eq)
    have "all_dead k' (p # ps) i" if "all_dead k ps i" "i < next_pid k" for i
      using that o x(3) unfolding all_dead_def by auto
    then have "wait_ok k' (p # ps) q i" if "q \<in> all_procs k ps" "wait_ok k ps q i" for q i
      using that(2) old(2) [OF that(1)] np unfolding wait_ok_def Let_def g k'(7) by (auto simp: core_eq)
    then show ?thesis
      using base_invD(5) [OF b(1)] o x(3) np unfolding waits_ok_def all k'(7) by (auto simp: linorder_not_less [symmetric])
  qed
  moreover have "cur_ok k'"
    using base_invD(6) [OF b(1)] cur(2) idle(2) by (simp add: cur_ok_def current_def g core_eq)
  ultimately show "base_inv k' W (p # ps) L'" using s(2,3) by (simp add: base_inv_def all)
  show "current k' = current k1" using k'(8) cur(1) by (simp add: current_def g)
qed

lemma sys_spawn_inv:
  assumes i: "kernel_inv k W ps L" and c: "sys_spawn e r k = Some (res, k')" and np: "next_pid k \<noteq> - 1"
  shows "\<exists>ps' L'. kernel_inv k' (deferred r k res W) ps' L'"
proof (cases "\<exists>v. res = Sys_done v \<and> k' = k")
  case True
  then obtain v where "res = Sys_done v" "k' = k" by blast
  with i show ?thesis by (intro exI) simp
next
  case False
  then have no: "sys_ok v k \<noteq> Some (res, k')" for v by (auto simp: sys_ok_def)
  with c obtain path where path: "copy_user_str (r_ebx r) 64 k = Some (Some path)"
    by (auto simp: sys_spawn_def with_path_def split: option.splits)
  define body where "body = (\<lambda>argv. case process_create (env_isr_return e) path argv k of None \<Rightarrow> None
    | Some (Inl err, k1) \<Rightarrow> sys_ok (- 1) k1
    | Some (Inr child, k1) \<Rightarrow>
        (let k2 = upd_proc child (\<lambda>x. set_proc_cwd (Some (p_cwd (current k1))) (x\<lparr>p_ppid := p_pid (current k1)\<rparr>)) k1;
             k3 = scheduler_add child k2
         in sys_ok (p_pid (procs k3 child)) k3))"
  let ?argc = "r_ecx r"
  have "sys_spawn e r k = (if sint ?argc < 0 \<or> 16 < sint ?argc then sys_ok (- 1) k
     else if ?argc \<noteq> 0 \<and> r_edx r \<noteq> 0 \<and> \<not> valid_user (r_edx r) (?argc * 4) False k then sys_ok (- 1) k
     else (case (if ?argc = 0 \<or> r_edx r = 0 then Some [take 63 path] else copy_args (unat ?argc) (r_edx r) k) of
       None \<Rightarrow> None | Some argv \<Rightarrow> body argv))"
    unfolding sys_spawn_def with_path_def path option.case body_def Let_def ..
  with c no obtain argv where "body argv = Some (res, k')" by (auto split: if_split_asm option.split_asm)
  then obtain cr k1 where pc: "process_create (env_isr_return e) path argv k = Some (cr, k1)"
    by (auto simp: body_def split: option.splits)
  have k': "case cr of Inl _ \<Rightarrow> sys_ok (- 1) k1 = Some (res, k') | Inr child \<Rightarrow>
      (\<exists>f v. (\<forall>x. core (f x) = core x) \<and> sys_ok v (scheduler_add child (upd_proc child f k1)) = Some (res, k'))"
  proof (cases cr)
    case (Inl c')
    with \<open>body argv = _\<close> pc show ?thesis by (simp add: body_def)
  next
    case (Inr child)
    let ?f = "\<lambda>x. set_proc_cwd (Some (p_cwd (current k1))) (x\<lparr>p_ppid := p_pid (current k1)\<rparr>)"
    have "sys_ok (p_pid (procs (scheduler_add child (upd_proc child ?f k1)) child)) (scheduler_add child (upd_proc child ?f k1)) = Some (res, k')"
      using \<open>body argv = _\<close> pc Inr by (simp add: body_def Let_def)
    moreover have "\<forall>x. core (?f x) = core x" by simp
    ultimately show ?thesis unfolding Inr sum.case by (intro exI [of _ ?f] exI conjI)
  qed
  have b: "base_inv k W ps L" and run: "p_state (current k) = PROC_RUNNING" using i by (simp_all add: kernel_inv_def)
  note pc = process_create_calm [OF pc base_invD(2) [OF b]]
  show ?thesis
  proof (cases cr)
    case (Inl c')
    with pc obtain X where "\<forall>p \<in> X. fresh L p" "calm X k L k1" by auto
    from inv_calm [OF i this(2,1)] obtain L' where "kernel_inv k1 W ps L'" ..
    moreover have "sys_ok (- 1) k1 = Some (res, k')" using k' Inl by simp
    ultimately show ?thesis using done_inv by blast
  next
    case (Inr p)
    let ?x = "procs k1 p"
    from pc Inr obtain n m L' where h: "p \<noteq> 0" "fresh L p" "same {p} k (k1\<lparr>next_pid := next_pid k\<rparr>)" "next_pid k1 = next_pid k + 1"
      "heap_rep (kheap k1) L'" "L \<subseteq> L'" "(unat p, n) \<in> L'" "392 \<le> n" "(unat (p_kstack ?x), m) \<in> L'" "8192 \<le> m"
      "fresh L (p_kstack ?x)" "p_kstack ?x \<noteq> p" "p_kstack ?x \<noteq> 0" "p_esp0 ?x = p_kstack ?x + 8192" "p_pid ?x = next_pid k"
      "p_state ?x = PROC_READY" by auto
    from k' Inr obtain f v where f: "\<forall>x. core (f x) = core x" and res: "res = Sys_done v"
      and k3: "k' = scheduler_add p (upd_proc p f k1)" by (auto simp: sys_ok_def)
    have pl: "proc_list k1 = proc_list k" using h(3) by (simp add: same_def)
    have fx: "core (f ?x) = core ?x" using f by simp
    note add = base_add [OF b np h(3), where k' = k' and L' = L' and n = n and ks = "p_kstack ?x" and m = m]
    have "base_inv k' W (p # ps) L'" "current k' = current (k1\<lparr>next_pid := next_pid k\<rparr>)"
      using h pl fx by (intro add; simp add: k3 scheduler_add_def core_eq; simp add: upd_proc_def)+
    moreover have "curr_proc k \<noteq> p" using base_live [OF b base_cur [OF b]] h(2) by auto
    then have "p_state (current k1) = PROC_RUNNING" using h(3) run by (simp add: same_def current_def core_eq)
    ultimately show ?thesis unfolding kernel_inv_def res by (auto simp: current_def)
  qed
qed

text \<open>The list without a process.\<close>

lemma plist_skip:
  "plist P a (cs @ r # q # ds) \<Longrightarrow> plist (P(r := (P r)\<lparr>p_next := p_next (P q)\<rparr>)) a (cs @ r # ds)"
proof (induction cs arbitrary: a)
  case Nil
  then have "r \<notin> set ds" using plist_distinct [of P a "r # q # ds"] by auto
  moreover have "plist P (p_next (P q)) ds" using Nil by auto
  ultimately have "plist (P(r := (P r)\<lparr>p_next := p_next (P q)\<rparr>)) (p_next (P q)) ds"
    by (subst plist_cong [of ds _ P]) auto
  with Nil show ?case by (auto simp del: fun_upd_apply simp add: fun_upd_same)
next
  case (Cons c cs)
  then have "c \<noteq> r" using plist_distinct [OF Cons.prems] by auto
  with Cons show ?case by (auto simp del: fun_upd_apply simp add: fun_upd_other)
qed

lemma unlink_loop_skip:
  "plist (procs s) a (cs @ r # q # ds) \<Longrightarrow> unlink_loop q a s = Some (upd_proc r (p_next_update (\<lambda>_. p_next (procs s q))) s)"
proof (induction cs arbitrary: a)
  case Nil
  then show ?case by (subst unlink_loop.simps) auto
next
  case (Cons c cs)
  then have p: "a = c" "c \<noteq> 0" "plist (procs s) (p_next (procs s c)) (cs @ r # q # ds)" by auto
  have "p_next (procs s c) = hd (cs @ r # q # ds)" using p(3) by (cases cs) auto
  then have "p_next (procs s c) \<noteq> q" using plist_distinct [OF p(3)] by (cases cs) auto
  with p Cons.IH [OF p(3)] show ?case by (subst unlink_loop.simps) simp
qed

lemma proc_unlink_list:
  assumes "plist (procs s) (proc_list s) ps" "q \<in> set ps"
  obtains s' where "proc_unlink q s = Some s'" "plist (procs s') (proc_list s') (remove1 q ps)"
    "\<And>p. procs s' p = procs s p \<or> p \<in> set ps \<and> (\<exists>n. procs s' p = (procs s p)\<lparr>p_next := n\<rparr>)"
    "\<exists>P a. s' = s\<lparr>procs := P, proc_list := a\<rparr>"
proof -
  obtain as ds where d: "ps = as @ q # ds" "q \<notin> set as" using split_list_first [OF assms(2)] by blast
  show thesis
  proof (cases as rule: rev_cases)
    case Nil
    with d assms(1) have u: "proc_unlink q s = Some (s\<lparr>proc_list := p_next (procs s q)\<rparr>)" "plist (procs s) (p_next (procs s q)) ds"
      by (auto simp: proc_unlink_def)
    show ?thesis
    proof (rule that [OF u(1)])
      show "plist (procs (s\<lparr>proc_list := p_next (procs s q)\<rparr>)) (proc_list (s\<lparr>proc_list := p_next (procs s q)\<rparr>)) (remove1 q ps)"
        using u(2) Nil d by simp
      show "\<exists>P a. s\<lparr>proc_list := p_next (procs s q)\<rparr> = s\<lparr>procs := P, proc_list := a\<rparr>"
        by (intro exI [of _ "procs s"] exI [of _ "p_next (procs s q)"]) simp
    qed simp
  next
    case (snoc cs r)
    with d have ps: "ps = cs @ r # q # ds" by simp
    have l: "plist (procs s) (proc_list s) (cs @ r # q # ds)" using assms(1) ps by simp
    have "proc_list s = hd ps" using l ps by (cases cs) auto
    then have "proc_list s \<noteq> q" using ps d snoc by (cases cs) auto
    then have u: "proc_unlink q s = Some (upd_proc r (p_next_update (\<lambda>_. p_next (procs s q))) s)"
      using unlink_loop_skip [OF l] by (simp add: proc_unlink_def)
    have "remove1 q ps = cs @ r # ds" using ps d snoc by (simp add: remove1_append)
    then have l': "plist (procs (upd_proc r (p_next_update (\<lambda>_. p_next (procs s q))) s))
        (proc_list (upd_proc r (p_next_update (\<lambda>_. p_next (procs s q))) s)) (remove1 q ps)"
      using plist_skip [OF l] by (simp add: upd_proc_def del: upd_proc_simps)
    show ?thesis
    proof (rule that [OF u l'])
      show "procs (upd_proc r (p_next_update (\<lambda>_. p_next (procs s q))) s) p = procs s p
        \<or> p \<in> set ps \<and> (\<exists>n. procs (upd_proc r (p_next_update (\<lambda>_. p_next (procs s q))) s) p = (procs s p)\<lparr>p_next := n\<rparr>)" for p
        unfolding upd_proc_simps using ps by (cases "p = r") (simp_all, blast)
      show "\<exists>P a. upd_proc r (p_next_update (\<lambda>_. p_next (procs s q))) s = s\<lparr>procs := P, proc_list := a\<rparr>"
        unfolding upd_proc_def by (intro exI [of _ "(procs s)(r := p_next_update (\<lambda>_. p_next (procs s q)) (procs s r))"] exI [of _ "proc_list s"]) simp
    qed
  qed
qed

lemma base_remove:
  assumes b: "base_inv k W ps L" and q: "q \<in> set ps" "q \<noteq> curr_proc k" "(unat q, n) \<in> L"
    and u: "plist P a (remove1 q ps)" "\<And>p. P p = procs k p \<or> p \<in> set ps \<and> (\<exists>n. P p = (procs k p)\<lparr>p_next := n\<rparr>)"
    and h: "heap_rep h L'" "L - {(unat q, n)} \<subseteq> L'"
    and k': "k' = k\<lparr>procs := P, proc_list := a, kheap := h\<rparr>"
  shows "base_inv k' W (remove1 q ps) L'" "current k' = (current k)\<lparr>p_next := p_next (current k')\<rparr>"
proof -
  have dist: "distinct ps" by (rule plist_distinct [OF base_list [OF b]])
  then have sub: "set (remove1 q ps) = set ps - {q}" by (rule set_remove1_eq)
  have qi: "q \<noteq> idle_proc k" "idle_proc k \<notin> set ps" using q(1) base_invD(1) [OF b] by (auto simp: sched_ok_def sched_list_def)
  have all: "all_procs k' (remove1 q ps) = all_procs k ps - {q}" using qi by (auto simp: all_procs_def k' sub)
  have f: "p_pid (P p) = p_pid (procs k p)" "p_kstack (P p) = p_kstack (procs k p)" "p_esp0 (P p) = p_esp0 (procs k p)"
    "p_pd_phys (P p) = p_pd_phys (procs k p)" "p_state (P p) = p_state (procs k p)" "p_block (P p) = p_block (procs k p)"
    "p_target_pid (P p) = p_target_pid (procs k p)" for p
    using u(2) [of p] by auto
  have "P (idle_proc k) = procs k (idle_proc k)" using u(2) [of "idle_proc k"] qi by auto
  then have "sched_list k' (remove1 q ps)"
    using base_invD(1) [OF b] u(1) qi q(2) unfolding sched_ok_def sched_list_def k' by (auto simp: sub)
  then have "sched_ok k' (remove1 q ps)"
    using base_invD(1) [OF b] unfolding sched_ok_def k' by (auto simp: f sub)
  moreover have "proc_ok k' L' p" if p: "p \<in> all_procs k ps" "p \<noteq> q" for p
  proof -
    have "p_kstack (procs k p) \<noteq> q" using base_invD(4) [OF b] p(1) q(1) by (simp add: apart_ok_def)
    then have "(unat x, j) \<in> L'" if "(unat x, j) \<in> L" "x = p \<or> x = p_kstack (procs k p)" for x j
      using that p(2) by (intro subsetD [OF h(2)]) (auto simp: word_unat_eq_iff)
    then show ?thesis using base_invD(3) [OF b p(1)] unfolding proc_ok_def Let_def k' by (auto simp: f split: if_splits)
  qed
  moreover have "apart_ok k' (remove1 q ps)"
    using base_invD(4) [OF b] unfolding apart_ok_def all unfolding k' by (simp add: f)
  moreover have "waits_ok k' W (remove1 q ps)"
  proof -
    have "all_dead k' (remove1 q ps) i" if "all_dead k ps i" for i using that unfolding all_dead_def sub by (simp add: f k')
    then have "wait_ok k' (remove1 q ps) p i" if "wait_ok k ps p i" for p i
      using that unfolding wait_ok_def Let_def by (auto simp: f k')
    then show ?thesis using base_invD(5) [OF b] unfolding waits_ok_def all by (simp add: f k')
  qed
  moreover have "cur_ok k'" using base_invD(6) [OF b] by (simp add: cur_ok_def current_def f k')
  ultimately show "base_inv k' W (remove1 q ps) L'" using h(1) by (simp add: base_inv_def all) (simp add: k')
  show "current k' = (current k)\<lparr>p_next := p_next (current k')\<rparr>"
    using u(2) [of "curr_proc k"] by (auto simp: current_def k')
qed

text \<open>
  \<^verbatim>\<open>SYS_WAIT\<close> goes on: nobody with the identifier is alive, so that what it unlinks and releases is a dead
  process, and not the current one.
\<close>

lemma finish_wait_inv:
  assumes i: "kernel_inv k W ps L" and w: "W (cur_pid k) = Some (eax, Then_wait pid)" and f: "finish_wait pid k = Some (v, k')"
  shows "\<exists>ps' L'. kernel_inv k' (W(cur_pid k := None)) ps' L'"
proof -
  have b: "base_inv k W ps L" and run: "p_state (current k) = PROC_RUNNING" using i by (simp_all add: kernel_inv_def)
  have pid: "cur_pid k = p_pid (procs k (curr_proc k))" by (simp add: cur_pid_def current_def)
  have b': "base_inv k (W(cur_pid k := None)) ps L" unfolding pid by (rule base_waits [OF b base_cur [OF b]]) simp
  have "wait_ok k ps (curr_proc k) pid" using base_invD(5) [OF b] base_cur [OF b] w unfolding waits_ok_def pid by blast
  then have dead: "all_dead k ps pid" using run by (auto simp: wait_ok_def Let_def current_def)
  from f obtain q where q: "process_find pid k = Some q" "q \<noteq> 0" by (auto simp: finish_wait_def split: option.splits if_splits)
  then have qs: "q \<in> set ps" "p_pid (procs k q) = pid" using process_find_cases [OF q(1) base_list [OF b]] by auto
  then have ne: "q \<noteq> curr_proc k" using dead run by (auto simp: all_dead_def current_def)
  obtain n where n: "392 \<le> n" "(unat q, n) \<in> L" using base_live [OF b, of q] qs by auto
  from proc_unlink_list [OF base_list [OF b] qs(1)] obtain k1 P a where u: "proc_unlink q k = Some k1" "plist (procs k1) (proc_list k1) (remove1 q ps)"
    "\<And>p. procs k1 p = procs k p \<or> p \<in> set ps \<and> (\<exists>n. procs k1 p = (procs k p)\<lparr>p_next := n\<rparr>)"
    "k1 = k\<lparr>procs := P, proc_list := a\<rparr>" by metis
  from f q u(1) have free: "k_free q k1 = Some k'" by (auto simp: finish_wait_def split: option.splits)
  have "heap_rep (kheap k1) L" using base_invD(2) [OF b] by (simp add: u(4))
  from k_free_cases [OF free this n(2)] obtain h L' where h: "k' = k1\<lparr>kheap := h\<rparr>" "heap_rep h L'" "L - {(unat q, n)} \<subseteq> L'" by metis
  have e: "k' = k\<lparr>procs := P, proc_list := a, kheap := h\<rparr>" by (simp add: h(1) u(4))
  have pl: "plist P a (remove1 q ps)" using u(2) by (simp add: u(4))
  have P: "P p = procs k p \<or> p \<in> set ps \<and> (\<exists>n. P p = (procs k p)\<lparr>p_next := n\<rparr>)" for p
    using u(3) [of p] by (simp add: u(4))
  note r = base_remove [OF b' qs(1) ne n(2) pl P h(2,3) e]
  have "p_state (current k') = PROC_RUNNING" using run arg_cong [OF r(2), of p_state] by simp
  with r(1) show ?thesis unfolding kernel_inv_def by blast
qed

lemma resume_inv:
  assumes i: "kernel_inv k W ps L" and w: "W (cur_pid k) = Some (eax, pnd)" and f: "sys_resume eax pnd k = Some (v, k')"
  shows "\<exists>ps' L'. kernel_inv k' (W(cur_pid k := None)) ps' L'"
proof (cases "\<exists>pid. pnd = Then_wait pid")
  case True
  with finish_wait_inv [OF i] w f show ?thesis by (auto simp: sys_resume_def)
next
  case False
  have "base_inv k (W(p_pid (procs k (curr_proc k)) := None)) ps L"
    using i by (intro base_waits [OF _ base_cur]) (auto simp: kernel_inv_def)
  then have k: "kernel_inv k (W(cur_pid k := None)) ps L" using i by (simp add: kernel_inv_def cur_pid_def current_def)
  from False f have "k' = k \<or> k' = snd (k_getchar k)" by (cases pnd) (auto simp: sys_resume_def)
  with k getchar_inv [OF k] show ?thesis by blast
qed

section \<open>Interrupts\<close>

text \<open>A dead process loses its kernel stack.\<close>

lemma base_cleanup:
  assumes b: "base_inv k W ps L" and p: "p \<in> set ps" "p \<noteq> curr_proc k" "p_state (procs k p) = PROC_DEAD"
    and s: "same {p} k k'" and x: "p_pid (procs k' p) = p_pid (procs k p)" "p_next (procs k' p) = p_next (procs k p)"
      "p_state (procs k' p) = PROC_DEAD" "p_kstack (procs k' p) = 0"
    and h: "heap_rep (kheap k') L'" "\<And>a j. (a, j) \<in> L \<Longrightarrow> a \<noteq> unat (p_kstack (procs k p)) \<Longrightarrow> (a, j) \<in> L'"
  shows "base_inv k' W ps L'" "current k' = current k \<or> core (current k') = core (current k)"
proof -
  have g: "proc_list k' = proc_list k" "curr_proc k' = curr_proc k" "idle_proc k' = idle_proc k" "tss_esp0 k' = tss_esp0 k"
    "scheduler_ready k' = scheduler_ready k" "cr3 (vm k') = cr3 (vm k)" "next_pid k' = next_pid k"
    using s by (simp_all add: same_def)
  have c: "core (procs k' q) = core (procs k q)" if "q \<noteq> p" for q using s that by (simp add: same_def)
  have all: "all_procs k' ps = all_procs k ps" by (simp add: all_procs_def g)
  have pi: "p \<noteq> idle_proc k" using p(1) base_invD(1) [OF b] by (auto simp: sched_ok_def sched_list_def)
  have f: "p_pid (procs k' q) = p_pid (procs k q)" "p_next (procs k' q) = p_next (procs k q)" "p_state (procs k' q) = p_state (procs k q)" for q
    using c [of q] x p(3) by (cases "q = p"; simp add: core_eq)+
  have ks: "p_kstack (procs k' q) = (if q = p then 0 else p_kstack (procs k q))" for q using c [of q] x(4) by (simp add: core_eq)
  have nz: "q \<noteq> 0" if "q \<in> all_procs k ps" for q
  proof (cases "q = idle_proc k")
    case True
    then show ?thesis using base_invD(1) [OF b] by (simp add: sched_ok_def sched_list_def)
  next
    case False
    then have "q \<in> set ps" using that by (simp add: all_procs_def)
    then show ?thesis using plist_zero [OF base_list [OF b]] by metis
  qed
  have "plist (procs k') (proc_list k) ps" using base_list [OF b] plist_cong [of ps "procs k'" "procs k"] f(2) by simp
  then have "sched_ok k' ps"
    using base_invD(1) [OF b] c [of "curr_proc k"] p(2) f unfolding sched_ok_def sched_list_def g by (auto simp: core_eq)
  moreover have "proc_ok k' L' q" if q: "q \<in> all_procs k ps" for q
  proof -
    have ne: "q \<noteq> p_kstack (procs k p)" "q \<noteq> p \<Longrightarrow> p_kstack (procs k q) \<noteq> 0 \<Longrightarrow> p_kstack (procs k q) \<noteq> p_kstack (procs k p)"
      using base_invD(4) [OF b] q p(1) unfolding apart_ok_def by (metis all_procs_simps(2))+
    have live: "(unat a, j) \<in> L'" if "(unat a, j) \<in> L" "a \<noteq> p_kstack (procs k p)" for a j
      using that by (intro h(2)) (auto simp: word_unat_eq_iff)
    show ?thesis
    proof (cases "q = p")
      case True
      then have "\<exists>n \<ge> 392. (unat p, n) \<in> L'" using base_live [OF b q] live [of p] ne(1) by blast
      then show ?thesis using base_invD(3) [OF b q] True x p(3) pi g f(1) [of p] by (simp add: proc_ok_def Let_def)
    next
      case False
      have l: "\<exists>n \<ge> 392. (unat q, n) \<in> L'" using base_live [OF b q] live [of q] ne(1) by blast
      have k: "\<exists>n \<ge> 8192. (unat (p_kstack (procs k q)), n) \<in> L'" if "p_kstack (procs k q) \<noteq> 0"
        using base_invD(3) [OF b q] that live [of "p_kstack (procs k q)"] ne(2) [OF False that]
        unfolding proc_ok_def Let_def by auto
      show ?thesis using base_invD(3) [OF b q] l k c [OF False] g by (simp add: proc_ok_def Let_def core_eq split: if_splits)
    qed
  qed
  moreover have "apart_ok k' ps"
    using base_invD(4) [OF b] nz unfolding apart_ok_def all by (simp add: f ks)
  moreover have "waits_ok k' W ps"
  proof -
    have "all_dead k' ps i" if "all_dead k ps i" for i using that unfolding all_dead_def by (simp add: f)
    then have "wait_ok k' ps q i" if "wait_ok k ps q i" for q i
      using that c [of q] p(3) f(3) [of q] unfolding wait_ok_def Let_def g by (cases "q = p") (auto simp: core_eq)
    then show ?thesis using base_invD(5) [OF b] unfolding waits_ok_def all g by (simp add: f)
  qed
  moreover have "cur_ok k'" using base_invD(6) [OF b] by (simp add: cur_ok_def current_def f g)
  ultimately show "base_inv k' W ps L'" using h(1) by (simp add: base_inv_def all)
  show "current k' = current k \<or> core (current k') = core (current k)" using c [of "curr_proc k"] p(2) by (simp add: current_def g)
qed

lemma close_fds_same: "same {} k (close_fds is p k) \<and> kheap (close_fds is p k) = kheap k"
proof (induction "is" arbitrary: k)
  case (Cons i js)
  let ?k1 = "if p_fds (procs k p) i \<noteq> - 1
    then upd_proc p (\<lambda>x. x\<lparr>p_fds := (p_fds x)(i := - 1)\<rparr>) (file_close (p_fds (procs k p) i) k) else k"
  have "same {} k ?k1 \<and> kheap ?k1 = kheap k" by (simp add: same_upd)
  moreover have "close_fds (i # js) p k = close_fds js p ?k1" by (simp add: Let_def)
  ultimately show ?case using Cons.IH [of ?k1] by (auto elim: same_trans)
qed simp

lemma process_cleanup_inv:
  assumes b: "base_inv k W ps L" and p: "p \<in> set ps" "p \<noteq> curr_proc k" "p_state (procs k p) = PROC_DEAD"
    and c: "process_cleanup p k = Some k'"
  shows "\<exists>L'. base_inv k' W ps L' \<and> p_state (current k') = p_state (current k) \<and> (\<forall>y. p_next (procs k' y) = p_next (procs k y))"
proof -
  define k1 where "k1 = close_fds [0..<MAX_FDS_PER_PROC] p k"
  define k2 where "k2 = upd_proc p (\<lambda>x. x\<lparr>p_dirs := (\<lambda>i. if i < MAX_DIRS_PER_PROC then (p_dirs x i)\<lparr>dh_in_use := False\<rparr> else p_dirs x i)\<rparr>) k1"
  define k3 where "k3 = (if p_pd_phys (procs k2 p) \<noteq> 0
    then upd_proc p (\<lambda>x. x\<lparr>p_pd_phys := 0\<rparr>) (k2\<lparr>vm := paging_destroy_address_space (p_pd_phys (procs k2 p)) (vm k2)\<rparr>) else k2)"
  have "same {} k k1" "kheap k1 = kheap k" using close_fds_same by (simp_all add: k1_def)
  then have k2: "same {} k k2" "kheap k2 = kheap k" by (simp_all add: k2_def same_upd)
  then have k3: "same {p} k k3" "kheap k3 = kheap k"
    using same_mono [OF k2(1), of "{p}"] by (simp_all add: k3_def same_upd same_vm)
  have "core (procs k2 p) = core (procs k p)" using k2(1) by (simp add: same_def)
  then have x: "p_pid (procs k3 p) = p_pid (procs k p)" "p_next (procs k3 p) = p_next (procs k p)"
    "p_state (procs k3 p) = PROC_DEAD" "p_kstack (procs k3 p) = p_kstack (procs k p)"
    using p(3) by (simp_all add: k3_def core_eq)
  have k': "if p_kstack (procs k p) \<noteq> 0 then map_option (upd_proc p (\<lambda>x. x\<lparr>p_kstack := 0\<rparr>)) (k_free (p_kstack (procs k p)) k3) = Some k' else k' = k3"
    using c unfolding process_cleanup_def Let_def k1_def [symmetric] k2_def [symmetric] k3_def [symmetric] x(4)
    by (simp split: if_splits)
  have fin: ?thesis if "same {p} k k'" "p_pid (procs k' p) = p_pid (procs k p)" "p_next (procs k' p) = p_next (procs k p)"
    "p_state (procs k' p) = PROC_DEAD" "p_kstack (procs k' p) = 0" "heap_rep (kheap k') L'"
    "\<And>a j. (a, j) \<in> L \<Longrightarrow> a \<noteq> unat (p_kstack (procs k p)) \<Longrightarrow> (a, j) \<in> L'" for L'
  proof -
    note r = base_cleanup [OF b p that]
    have "p_next (procs k' y) = p_next (procs k y)" for y
      using that(1,3) by (cases "y = p") (simp_all add: same_def core_eq)
    with r show ?thesis by (auto simp: core_eq)
  qed
  show ?thesis
  proof (cases "p_kstack (procs k p) = 0")
    case True
    with k' have "k' = k3" by simp
    with True k3 x base_invD(2) [OF b] show ?thesis by (intro fin [of L]) simp_all
  next
    case False
    with k' obtain k4 where k4: "k_free (p_kstack (procs k p)) k3 = Some k4" "k' = upd_proc p (\<lambda>x. x\<lparr>p_kstack := 0\<rparr>) k4" by auto
    from base_invD(3) [OF b, of p] p(1) False obtain n where n: "(unat (p_kstack (procs k p)), n) \<in> L"
      by (auto simp: proc_ok_def Let_def)
    have "heap_rep (kheap k3) L" using base_invD(2) [OF b] k3(2) by simp
    from k_free_cases [OF k4(1) this n] obtain h L' where h: "k4 = k3\<lparr>kheap := h\<rparr>" "heap_rep h L'"
      "L - {(unat (p_kstack (procs k p)), n)} \<subseteq> L'" by metis
    show ?thesis
      using k3(1) x h by (intro fin [of L']) (auto simp: k4(2) same_upd)
  qed
qed

text \<open>The loop of \<^verbatim>\<open>pit_handler\<close>.\<close>

lemma tick_proc_inv:
  assumes b: "base_inv k W ps L" "p_state (current k) = PROC_RUNNING" and p: "p \<in> set ps" and t: "tick_proc p k = Some k'"
  shows "\<exists>L'. base_inv k' W ps L' \<and> p_state (current k') = PROC_RUNNING \<and> (\<forall>y. p_next (procs k' y) = p_next (procs k y))"
proof -
  let ?x = "procs k p"
  consider "k' = k" | k1 where "p_state ?x = PROC_DEAD" "p \<noteq> curr_proc k" "process_cleanup p k = Some k1"
      "k' = upd_proc p (\<lambda>x. x\<lparr>p_cleaned_up := True\<rparr>) k1"
    | "p_state ?x = PROC_BLOCKED" "p_block ?x = PROC_SLEEP"
      "k' = upd_proc p (\<lambda>x. x\<lparr>p_state := PROC_READY, p_block := PROC_NONE, p_resume_tick := - 1\<rparr>) k"
    using t by (auto simp: tick_proc_def Let_def split: if_splits)
  then show ?thesis
  proof cases
    case 1
    with b show ?thesis by blast
  next
    case (2 k1)
    from process_cleanup_inv [OF b(1) p 2(2,1,3)] obtain L' where k1: "base_inv k1 W ps L'" "p_state (current k1) = PROC_RUNNING"
      "\<forall>y. p_next (procs k1 y) = p_next (procs k y)" using b(2) by auto
    have s: "same {} k1 k'" unfolding 2(4) by (simp add: same_upd)
    have h: "heap_rep (kheap k') L'" using base_invD(2) [OF k1(1)] by (simp add: 2(4))
    from base_same [OF k1(1) s _ h] k1 show ?thesis by (auto simp: 2(4))
  next
    case 3
    have ne: "p \<noteq> curr_proc k" using 3(1) b(2) by (auto simp: current_def)
    have "base_inv k' W ps L" unfolding 3(3) by (rule base_upd [OF b(1) p refl]) (use 3(1,2) ne in auto)
    with b(2) ne show ?thesis by (auto simp: 3(3) current_def)
  qed
qed

lemma tick_procs_inv:
  assumes "plist (procs k) p xs" "set xs \<subseteq> set ps" "base_inv k W ps L" "p_state (current k) = PROC_RUNNING" "tick_procs p k = Some k'"
  shows "\<exists>L'. kernel_inv k' W ps L'"
  using assms
proof (induction xs arbitrary: p k L)
  case Nil
  then show ?case by (auto simp: tick_procs.simps kernel_inv_def)
next
  case (Cons x xs)
  then have p: "p = x" "x \<noteq> 0" "plist (procs k) (p_next (procs k x)) xs" by auto
  with Cons.prems(5) obtain k1 where k1: "tick_proc x k = Some k1" "tick_procs (p_next (procs k1 x)) k1 = Some k'"
    by (auto simp: tick_procs.simps [of x] split: option.splits)
  from tick_proc_inv [OF Cons.prems(3,4) _ k1(1)] Cons.prems(2) obtain L1 where
    i: "base_inv k1 W ps L1" "p_state (current k1) = PROC_RUNNING" and nx: "\<forall>y. p_next (procs k1 y) = p_next (procs k y)" by auto
  have "plist (procs k1) (p_next (procs k1 x)) xs" using p(3) nx plist_cong [of xs "procs k1" "procs k"] by simp
  then show ?case using Cons.IH [OF _ _ i k1(2)] Cons.prems(2) by simp
qed

lemma pit_handler_inv:
  assumes i: "kernel_inv k W ps L" and t: "pit_handler k = Some k'"
  shows "\<exists>L'. kernel_inv k' W ps L'"
proof -
  define k1 where "k1 = k\<lparr>tick_count := tick_count k + 1\<rparr>"
  have k1: "kernel_inv k1 W ps L" using i by (rule inv_kheap) (simp_all add: k1_def)
  then have b: "base_inv k1 W ps L" "p_state (current k1) = PROC_RUNNING" by (simp_all add: kernel_inv_def)
  have "scheduler_ready k1" using base_invD(1) [OF b(1)] by (simp add: sched_ok_def sched_list_def)
  then have "tick_procs (proc_list k1) k1 = Some k'" using t by (simp add: pit_handler_def k1_def [symmetric] Let_def)
  then show ?thesis using tick_procs_inv [OF base_list [OF b(1)] order_refl b] by blast
qed

lemma kbd_handler_inv:
  assumes i: "kernel_inv k W ps L" and t: "kbd_handler sc (kbd k) k = Some (b, k1)"
  shows "kernel_inv (k1\<lparr>kbd := b\<rparr>) W ps L"
proof -
  have bi: "base_inv k W ps L" and run: "p_state (current k) = PROC_RUNNING" using i by (simp_all add: kernel_inv_def)
  have "k1 = k \<or> (\<exists>q \<in> set ps. waits_for_input k q \<and> k1 = wake q k)"
    using t wake_reader_find [OF base_list [OF bi]]
    by (auto simp: kbd_handler_def Let_def find_Some_iff split: if_splits option.splits)
  then have "kernel_inv k1 W ps L"
  proof
    assume "\<exists>q \<in> set ps. waits_for_input k q \<and> k1 = wake q k"
    then obtain q where q: "q \<in> set ps" "p_state (procs k q) = PROC_BLOCKED" "p_block (procs k q) = PROC_INPUT" "k1 = wake q k"
      by (auto simp: waits_for_input_def)
    have ne: "q \<noteq> curr_proc k" using q(2) run by (auto simp: current_def)
    have "base_inv k1 W ps L" unfolding q(4) wake_def by (rule base_upd [OF bi q(1) refl]) (use q(2,3) ne in auto)
    with run ne show ?thesis by (auto simp: kernel_inv_def q(4) wake_def current_def)
  qed (use i in simp)
  then show ?thesis by (rule inv_kheap) simp_all
qed

lemma handle_fault_inv:
  assumes i: "kernel_inv k W ps L" and ne: "curr_proc k \<noteq> idle_proc k" and f: "handle_fault cr2 r k = Some k'"
  shows "kernel_inv k' W ps L"
proof -
  from f obtain fmt args k1 where k1: "k_print fmt args k = Some k1"
    and r: "(let k2 = upd_current (\<lambda>x. x\<lparr>p_state := PROC_DEAD\<rparr>) k1 in
              if proc_list k2 = 0 then None
              else (case for_procs (wake_faulted (p_pid (current k2))) (proc_list k2) k2 of None \<Rightarrow> None
                | Some k3 \<Rightarrow> schedule k3)) = Some k'"
    by (auto simp: handle_fault_def split: if_splits option.splits)
  have i1: "kernel_inv k1 W ps L" using i k_print_same [OF k1, of "{}" k] by (intro inv_kheap [OF i]) simp_all
  have s: "same {} k k1" using k_print_same [OF k1, of "{}" k] by simp
  define k2 where "k2 = upd_current (\<lambda>x. x\<lparr>p_state := PROC_DEAD\<rparr>) k1"
  have b: "base_inv k1 W ps L" using i1 by (simp add: kernel_inv_def)
  have "curr_proc k1 \<noteq> idle_proc k1" using ne s by (simp add: same_def)
  from cur_in_list [OF b this] have "waking k2 (p_pid (procs k1 (curr_proc k1))) W ps L k2"
    unfolding k2_def upd_current_def by (intro kill_inv [OF b _ refl]) simp_all
  moreover have c: "p_pid (current k2) = p_pid (procs k1 (curr_proc k1))" "p_state (current k2) = PROC_DEAD"
    by (simp_all add: k2_def upd_current_def current_def)
  moreover have "(if proc_list k2 = 0 then None else (case for_procs (wake_faulted (p_pid (current k2))) (proc_list k2) k2 of
      None \<Rightarrow> None | Some k3 \<Rightarrow> schedule k3)) = Some k'"
    using r unfolding k2_def [symmetric] Let_def .
  then obtain k3 where k3: "for_procs (wake_faulted (p_pid (current k2))) (proc_list k2) k2 = Some k3" "schedule k3 = Some k'"
    by (metis (no_types, lifting) option.case_eq_if option.collapse option.distinct(1))
  ultimately have "waking k2 (p_pid (procs k1 (curr_proc k1))) W ps L k3" using wake_faulted_inv c by simp
  then show ?thesis using schedule_inv [OF _ k3(2)] by (simp add: waking_def)
qed

section \<open>Every step\<close>

lemma sys_read_inv:
  assumes i: "kernel_inv k W ps L" and c: "sys_read r k = Some (res, k')"
  shows "\<exists>L'. kernel_inv k' (deferred r k res W) ps L'"
proof (cases "bad_fd (r_ebx r) k \<or> \<not> valid_user (r_ecx r) (r_edx r) True k")
  case True
  with c have "sys_ok (- 1) k = Some (res, k')" by (simp add: sys_read_def)
  with i done_inv show ?thesis by blast
next
  case False
  then have "sys_read r k = (case file_read (p_fds (current k) (unat (r_ebx r))) (r_ecx r) (r_edx r) k of None \<Rightarrow> None
    | Some (n, k1) \<Rightarrow> sys_ok n k1)" by (simp add: sys_read_def)
  with c obtain v k1 where f: "file_read (p_fds (current k) (unat (r_ebx r))) (r_ecx r) (r_edx r) k = Some (v, k1)"
    "sys_ok v k1 = Some (res, k')" by (auto split: option.splits)
  have "heap_rep (kheap k) L" using i by (simp add: kernel_inv_def base_inv_def)
  from inv_calm [OF i file_read_calm [OF f(1) this]] obtain L' where "kernel_inv k1 W ps L'" by auto
  with f(2) done_inv show ?thesis by blast
qed

lemma dispatch_inv:
  assumes i: "kernel_inv k W ps L" and c: "syscall_dispatch e r k = Some (res, k')" and np: "next_pid k \<noteq> - 1"
    and idle: "curr_proc k \<noteq> idle_proc k \<or> r_eax r = 2"
  shows "\<exists>ps' L'. kernel_inv k' (deferred r k res W) ps' L'"
proof (cases "r_eax r \<in> {1, 2, 8, 17, 18, 19, 20, 21}")
  case False
  from quiet_dispatch [OF c False] have q: "quiet k (res, k')" .
  then obtain v where "res = Sys_done v" by (auto simp: quiet_def)
  with inv_quiet [OF i q] show ?thesis by (intro exI) simp
next
  case True
  with c idle show ?thesis
    by (auto simp: syscall_dispatch_def; blast intro: yield_inv [OF i] sys_kill_inv [OF i] sys_exit_inv [OF i] sys_wait_inv [OF i]
      sys_sleep_inv [OF i] sys_getchar_inv [OF i] sys_read_inv [OF i] sys_spawn_inv [OF i _ np])
qed

lemma isr_inv:
  assumes i: "kernel_inv k W ps L" and h: "isr_handler e sc cr2 r k = Some (None, k')" and f: "r_int_no r = 32 \<or> r_int_no r = 33 \<or> curr_proc k \<noteq> idle_proc k"
  shows "\<exists>L'. kernel_inv k' W ps L'"
proof -
  consider k1 where "r_int_no r = 32" "pit_handler k = Some k1" "schedule k1 = Some k'"
    | b k1 where "r_int_no r = 33" "kbd_handler sc (kbd k) k = Some (b, k1)" "k' = k1\<lparr>kbd := b\<rparr>"
    | "curr_proc k \<noteq> idle_proc k" "handle_fault cr2 r k = Some k'" | fmt args where "k_print fmt args k = Some k'"
    using h f by (auto simp: isr_handler_def Let_def split: if_splits option.splits)
  then show ?thesis
  proof cases
    case (1 k1)
    from pit_handler_inv [OF i 1(2)] obtain L' where "kernel_inv k1 W ps L'" ..
    then show ?thesis using schedule_inv [OF _ 1(3)] by (auto simp: kernel_inv_def)
  next
    case (2 b k1)
    then show ?thesis using kbd_handler_inv [OF i] by blast
  next
    case 3
    then show ?thesis using handle_fault_inv [OF i] by blast
  next
    case (4 fmt args)
    from k_print_same [OF this, of "{}" k] inv_kheap [OF i] show ?thesis by auto
  qed
qed

lemma kernel_step_inv:
  assumes "kernel_step (k, W) (k', W')" "kernel_inv k W ps L"
  shows "\<exists>ps' L'. kernel_inv k' W' ps' L'"
  using assms(1)
proof cases
  case (irq r e sc cr2)
  with isr_inv [OF assms(2)] show ?thesis by blast
next
  case (call r e sc cr2 res)
  then have "syscall_dispatch e r k = Some (res, k')" by (auto simp: isr_handler_def)
  from dispatch_inv [OF assms(2) this] call show ?thesis by auto
next
  case (fault r e sc cr2)
  with isr_inv [OF assms(2)] show ?thesis by blast
next
  case (resume eax pnd v)
  with resume_inv [OF assms(2)] show ?thesis by blast
qed

lemma kernel_steps_inv:
  assumes "kernel_step\<^sup>*\<^sup>* c c'" "kernel_inv (fst c) (snd c) ps L"
  shows "\<exists>ps' L'. kernel_inv (fst c') (snd c') ps' L'"
  using assms
proof (induction rule: rtranclp_induct)
  case (step c1 c2)
  then obtain ps1 L1 where "kernel_inv (fst c1) (snd c1) ps1 L1" by blast
  with step.hyps(2) kernel_step_inv [of "fst c1" "snd c1" "fst c2" "snd c2"] show ?case by simp
qed blast

section \<open>The first state\<close>

text \<open>The two processes that \<^verbatim>\<open>kmain\<close> creates, when both can be loaded: the invariant holds from the start.\<close>

lemma kmain_processes_inv:
  assumes c: "kmain_processes ret k = Some k'" and start: "proc_list k = 0" "next_pid k = 0" "heap_rep (kheap k) L"
  shows "\<exists>pinit L'. kernel_inv k' (\<lambda>_. None) [pinit] L'"
proof -
  from c obtain q k1 p k2 where q: "process_create ret (map of_char ''/bin/idle'') [map of_char ''idle.bin''] k = Some (Inr q, k1)"
    and p: "process_create ret (map of_char ''/bin/init'') [map of_char ''init.bin''] k1 = Some (Inr p, k2)" and k': "k' = kmain_start p q k2"
    by (auto simp: kmain_processes_def split: option.splits prod.splits sum.splits)
  let ?y = "procs k1 q" and ?x = "procs k2 p"
  from process_create_calm [OF q start(3)] obtain n1 m1 L1 where
    y: "q \<noteq> 0" "same {q} k (k1\<lparr>next_pid := next_pid k\<rparr>)" "next_pid k1 = 1" "heap_rep (kheap k1) L1" "(unat q, n1) \<in> L1" "392 \<le> n1"
      "(unat (p_kstack ?y), m1) \<in> L1" "8192 \<le> m1" "p_kstack ?y \<noteq> q" "p_kstack ?y \<noteq> 0" "p_esp0 ?y = p_kstack ?y + 8192" "p_pid ?y = 0"
      "p_state ?y = PROC_READY" "p_next ?y = 0" using start(2) by auto
  from process_create_calm [OF p y(4)] obtain n2 m2 L2 where
    x: "p \<noteq> 0" "fresh L1 p" "same {p} k1 (k2\<lparr>next_pid := next_pid k1\<rparr>)" "next_pid k2 = 2" "heap_rep (kheap k2) L2" "L1 \<subseteq> L2"
      "(unat p, n2) \<in> L2" "392 \<le> n2" "(unat (p_kstack ?x), m2) \<in> L2" "8192 \<le> m2" "fresh L1 (p_kstack ?x)" "p_kstack ?x \<noteq> p"
      "p_kstack ?x \<noteq> 0" "p_esp0 ?x = p_kstack ?x + 8192" "p_pid ?x = 1" "p_state ?x = PROC_READY" using y(3) by auto
  have ne: "p \<noteq> q" "p_kstack ?x \<noteq> q" "p_kstack ?x \<noteq> p_kstack ?y" "p \<noteq> p_kstack ?y" using x(2,11) y(5,7) by auto
  have cy: "core (procs k2 q) = core ?y" using x(3) ne(1) by (simp add: same_def)
  have pl: "proc_list k2 = 0" using x(3) y(2) start(1) by (simp add: same_def)
  have "sched_ok k' [p]"
    unfolding k' using pl x(1) y(1,13,14) ne(1) cy by (intro kmain_start_sched) (simp_all add: core_eq)
  moreover have pr: "core (procs k' q) = core (procs k2 q)" "procs k' p = ?x\<lparr>p_next := 0, p_state := PROC_RUNNING\<rparr>" "kheap k' = kheap k2"
    "next_pid k' = 2" "idle_proc k' = q" "curr_proc k' = p"
    using ne(1) pl x(4) by (simp_all add: k' kmain_start_def process_run_def load_proc_def scheduler_add_def) (simp_all add: upd_proc_def set_state_def)
  moreover have "proc_ok k' L2 q" "proc_ok k' L2 p"
    using pr cy x y by (auto simp: proc_ok_def core_eq)
  moreover have "apart_ok k' [p]" using pr cy ne x y by (auto simp: apart_ok_def all_procs_def core_eq)
  moreover have "cur_ok k'" "p_state (current k') = PROC_RUNNING" using pr cy y by (auto simp: cur_ok_def current_def core_eq)
  ultimately have "kernel_inv k' (\<lambda>_. None) [p] L2"
    using x(5) by (simp add: kernel_inv_def base_inv_def waits_ok_def all_procs_def)
  then show ?thesis by blast
qed

section \<open>Properties\<close>


text \<open>A parent that runs and its child, with the identifiers 2 and 3.\<close>

definition reach_heap :: heap_state where
  "reach_heap = \<lparr>hdrs = (\<lambda>_. \<lparr>bh_size = 100, bh_next = 0, bh_free = 1\<rparr>)
     (0xc0100000 := \<lparr>bh_size = 392, bh_next = 0xc0100194, bh_free = 0\<rparr>,
      0xc0100194 := \<lparr>bh_size = 8192, bh_next = 0xc01021a0, bh_free = 0\<rparr>,
      0xc01021a0 := \<lparr>bh_size = 392, bh_next = 0xc0102334, bh_free = 0\<rparr>,
      0xc0102334 := \<lparr>bh_size = 8192, bh_next = 0xc0104340, bh_free = 0\<rparr>,
      0xc0104340 := \<lparr>bh_size = 392, bh_next = 0xc01044d4, bh_free = 0\<rparr>,
      0xc01044d4 := \<lparr>bh_size = 8192, bh_next = 0xc01064e0, bh_free = 0\<rparr>),
     free_list = 0xc0100000, heap_start = 0x100000, heap_end = 0xc0106544, heap_start_virt = 0xc0100000\<rparr>"

definition reach_proc :: "u32 \<Rightarrow> proc_state \<Rightarrow> u32 \<Rightarrow> u32 \<Rightarrow> process" where
  "reach_proc i st stk nxt = (proc_example st nxt)\<lparr>p_pid := i, p_kstack := stk, p_esp0 := stk + 8192\<rparr>"

definition reach_example :: kernel where
  "reach_example = user_example\<lparr>procs := (\<lambda>_. proc_example PROC_DEAD 0)
      (0xc010000c := reach_proc 1 PROC_READY 0xc01001a0 0, 0xc01021ac := reach_proc 2 PROC_RUNNING 0xc0102340 0xc010434c,
       0xc010434c := reach_proc 3 PROC_READY 0xc01044e0 0),
     proc_list := 0xc01021ac, curr_proc := 0xc01021ac, idle_proc := 0xc010000c, tss_esp0 := 0xc0104340,
     vm := vm_example\<lparr>cr3 := 0x5000\<rparr>, kheap := reach_heap\<rparr>"

lemma reach_heap_rep: "heap_rep reach_heap {(0xc010000c, 392), (0xc01001a0, 8192), (0xc01021ac, 392), (0xc0102340, 8192),
  (0xc010434c, 392), (0xc01044e0, 8192)}"
  unfolding heap_rep_def
  by (rule exI [of _ "[(392, False), (8192, False), (392, False), (8192, False), (392, False), (8192, False), (100, True)]"])
    (auto simp: heap_ok_def reach_heap_def block_ptr_def)

lemma reach_example_inv: "\<exists>L. kernel_inv reach_example (\<lambda>_. None) [0xc01021ac, 0xc010434c] L"
proof (rule exI)
  let ?k = reach_example and ?ps = "[0xc01021ac, 0xc010434c]"
  let ?L = "{(0xc010000c, 392), (0xc01001a0, 8192), (0xc01021ac, 392), (0xc0102340, 8192), (0xc010434c, 392), (0xc01044e0, 8192)}"
  have all: "all_procs ?k ?ps = {0xc010000c, 0xc01021ac, 0xc010434c}" by (simp add: all_procs_def reach_example_def)
  have "sched_ok ?k ?ps"
    by (simp add: sched_ok_def sched_list_def reach_example_def reach_proc_def proc_example_def user_example_def)
  moreover have "heap_rep (kheap ?k) ?L" using reach_heap_rep by (simp add: reach_example_def)
  moreover have "\<forall>p \<in> all_procs ?k ?ps. proc_ok ?k ?L p"
    unfolding all by (simp add: proc_ok_def reach_example_def reach_proc_def proc_example_def user_example_def)
  moreover have "apart_ok ?k ?ps"
    unfolding apart_ok_def all by (simp add: reach_example_def reach_proc_def)
  moreover have "cur_ok ?k" "p_state (current ?k) = PROC_RUNNING"
    by (simp_all add: cur_ok_def current_def reach_example_def reach_proc_def proc_example_def)
  ultimately show "kernel_inv ?k (\<lambda>_. None) ?ps ?L" by (simp add: kernel_inv_def base_inv_def waits_ok_def)
qed

text \<open>The parent waits for the child, which runs, ends, and so wakes the parent.\<close>

definition reach_call :: "u32 \<Rightarrow> u32 \<Rightarrow> registers" where
  "reach_call n b = (regs_example b 0)\<lparr>r_eax := n, r_int_no := 128\<rparr>"

lemma reach_wait: "\<exists>k1. isr_handler e sc cr2 (reach_call 19 3) reach_example = Some (Some (Sys_resched (Then_wait 3)), k1)
    \<and> curr_proc k1 = 0xc010434c \<and> idle_proc k1 = 0xc010000c \<and> next_pid k1 = 4 \<and> proc_list k1 = 0xc01021ac \<and> scheduler_ready k1
    \<and> procs k1 0xc01021ac = (reach_proc 2 PROC_BLOCKED 0xc0102340 0xc010434c)\<lparr>p_block := PROC_PID, p_target_pid := 3\<rparr>
    \<and> procs k1 0xc010434c = reach_proc 3 PROC_RUNNING 0xc01044e0 0"
  by (simp add: isr_handler_def syscall_dispatch_def reach_call_def regs_example_def sys_wait_def process_find_def find_loop.simps
    reach_example_def reach_proc_def proc_example_def user_example_def resched_def schedule_def pick_next_def pick_loop.simps ring_next_def
    upd_current_def upd_proc_def set_state_def load_proc_def current_def Let_def)

lemma reach_exit:
  assumes "curr_proc k1 = 0xc010434c" "idle_proc k1 = 0xc010000c" "proc_list k1 = 0xc01021ac" "scheduler_ready k1"
    "procs k1 0xc01021ac = (reach_proc 2 PROC_BLOCKED 0xc0102340 0xc010434c)\<lparr>p_block := PROC_PID, p_target_pid := 3\<rparr>"
    "procs k1 0xc010434c = reach_proc 3 PROC_RUNNING 0xc01044e0 0"
  shows "\<exists>k2. isr_handler e sc cr2 (reach_call 1 7) k1 = Some (Some (Sys_resched Then_keep), k2)
    \<and> curr_proc k2 = 0xc01021ac \<and> p_state (procs k2 0xc010434c) = PROC_DEAD"
  using assms
  by (simp add: isr_handler_def syscall_dispatch_def reach_call_def regs_example_def sys_exit_def wake_waiters_def for_procs.simps wake_waiter_def
    reach_proc_def proc_example_def resched_def schedule_def pick_next_def pick_loop.simps ring_next_def
    upd_current_def upd_proc_def set_state_def load_proc_def current_def Let_def)


end
