(* ===== verification/Spaces.thy ===== *)
theory Spaces
  imports Image Sbrk
begin

text \<open>
  Isolation: what the kernel does to the memory of one process, and what that process does itself, leaves
  the memory of the other processes as it is (\<^verbatim>\<open>mm/paging.c\<close>, \<^verbatim>\<open>userspace/exe.c\<close>, the copies to user space
  and \<^verbatim>\<open>SYS_SBRK\<close> of \<^verbatim>\<open>userspace/syscalls.c\<close>).
\<close>

section \<open>Changes within one address space\<close>

text \<open>
  The step from \<open>s\<close> to \<open>s'\<close> keeps the address space well formed, changes no byte of an allocated frame
  outside of it, and takes no such frame away.
\<close>

definition confined :: "u32 \<Rightarrow> vm_state \<Rightarrow> vm_state \<Rightarrow> bool" where
  "confined pd s s' \<longleftrightarrow> user_space s' pd
     \<and> (\<forall>a. apart s pd a \<longrightarrow> apart s' pd a \<and> kmem s' a = kmem s a)
     \<and> (\<forall>n < frame_limit. kept s pd n \<longrightarrow> kept s' pd n)
     \<and> kernel_directory_phys s' = kernel_directory_phys s"

lemma confined_refl: "user_space s pd \<Longrightarrow> confined pd s s"
  by (simp add: confined_def)

lemma confined_trans [trans]: "confined pd s s1 \<Longrightarrow> confined pd s1 s2 \<Longrightarrow> confined pd s s2"
  by (simp add: confined_def)

lemma confined_space: "confined pd s s' \<Longrightarrow> user_space s' pd"
  by (simp add: confined_def)

lemma user_spaceD:
  assumes "user_space s pd"
  shows "space_ok s pd" "aspace_ok s pd" "tables_ok (kmem s) pd" "pmm_ok (vpm s)" "tables_rw (kmem s) pd"
proof -
  show sp: "space_ok s pd" and rw: "tables_rw (kmem s) pd" using assms unfolding user_space_def by blast+
  show ok: "aspace_ok s pd" using sp unfolding space_ok_def by blast
  show "tables_ok (kmem s) pd" "pmm_ok (vpm s)" using ok unfolding aspace_ok_def by blast+
qed

lemma confined_frames:
  assumes "user_space s pd" "pmm_ok p" "\<And>n. n < frame_limit \<Longrightarrow> frame_used (vpm s) n \<Longrightarrow> frame_used p n"
  shows "confined pd s (s\<lparr>vpm := p\<rparr>)"
  using user_space_alloc [OF assms] assms(3) by (simp add: confined_def kept_def)

lemma confined_write:
  assumes "user_space s pd" "va < KERNEL_VIRT_BASE" "mapped (kmem s) pd va" "agrees (frame_of (kmem s) pd va) (kmem s) m'"
  shows "confined pd s (s\<lparr>kmem := m'\<rparr>)"
proof -
  note D = user_spaceD [OF assms(1)]
  note W = write_frame [OF assms]
  note A = agrees_tables [OF assms(4) frame_of_aligned user_frame [OF D(1) assms(2,3)] D(3)]
  have "owned m' pd = owned (kmem s) pd" by (rule owned_same [OF A(9,10,2)])
  then show ?thesis using W(1,6) by (simp add: confined_def kept_def)
qed

lemma map_page_kept:
  assumes ok: "aspace_ok s pd" and mp: "paging_map_page pd va pa flags s = Some (0, s')" and va: "va < KERNEL_VIRT_BASE"
    and n: "n < frame_limit" "kept s pd n" "n \<noteq> pgno pa"
  shows "kept s' pd n"
proof -
  from mp obtain s1 where en: "ensure_table pd va flags s = Some (0, s1)"
    by (auto simp: paging_map_page_def split: option.splits if_splits)
  let ?v = "page_down pa OR (flags AND 0xfff) OR 1" and ?pt = "table_at (kmem s1) pd (pd_index va)"
  have k: "kmem s' = set_entry ?pt (pt_index va) ?v (kmem s1)" "vpm s' = vpm s1"
    using mp en by (auto simp: paging_map_page_def Let_def table_at_def invlpg_def split: if_splits)
  note E = ensure_table_ok [OF ok en]
  have ok1: "aspace_ok s1 pd" using E(1) by (simp add: prepares_def)
  note A = aspace_set_entry [OF ok1 E(2) [OF refl] k]
  have lt: "j < 1024" if "j < KERNEL_PDE_START" for j using that by (simp add: kernel_pde_start word_less_nat_alt)
  have p: "pd_present (kmem s') pd j = pd_present (kmem s1) pd j" "table_at (kmem s') pd j = table_at (kmem s1) pd j"
    if "j < KERNEL_PDE_START" for j
    using A(3) [OF lt [OF that]] by (simp_all add: pd_present_def table_at_def)
  have "pgno ?v = pgno pa" by (simp flip: page_down_eq)
  then have "owned (kmem s') pd \<subseteq> insert (pgno pa) (owned (kmem s1) pd)" by (auto simp: owned_def p A(2))
  then show ?thesis using E(4) [OF refl va n(1)] n(2,3) by (auto simp: kept_def k(2))
qed

lemma owned_frame: "va < KERNEL_VIRT_BASE \<Longrightarrow> mapped m pd va \<Longrightarrow> pgno (frame_of m pd va) \<in> owned m pd"
  by (auto simp: owned_def frame_of_def)

lemma memset_page: "agrees f m (memset (phys_to_virt f) c PAGE_SIZE m)"
  by (simp add: agrees_def memset_at)

text \<open>A fresh frame for a page, and when there is no memory for a table.\<close>

lemma fresh_page:
  assumes us: "user_space s pd" and va: "va < KERNEL_VIRT_BASE"
    and al: "vm_alloc s = Some (f, s1)" and mp: "paging_map_page pd va f flags s1 = Some (0, s2)"
  shows "mapped (kmem s2) pd va" "frame_of (kmem s2) pd va = f" "confined pd s s2"
    "confined pd s (s2\<lparr>kmem := memset (phys_to_virt f) 0 PAGE_SIZE (kmem s2)\<rparr>)"
proof -
  note D = user_spaceD [OF us]
  from al D(4) obtain p where p: "s1 = s\<lparr>vpm := p\<rparr>" "pmm_ok p" "page_aligned f" "\<not> frame_used (vpm s) (pgno f)"
    "\<And>n. n < frame_limit \<Longrightarrow> frame_used p n \<longleftrightarrow> n = pgno f \<or> frame_used (vpm s) n"
    by (rule vm_alloc_SomeE) blast
  have c1: "confined pd s s1" unfolding p(1) by (rule confined_frames [OF us p(2)]) (simp add: p(5))
  then have us1: "user_space s1 pd" by (rule confined_space)
  have used: "frame_used (vpm s1) (pgno f)" using p(5) [OF pgno_less] by (simp add: p(1))
  have nt: "f \<notin> tables_of (kmem s1) pd" using D(2) p(4) by (auto simp: tables_of_def aspace_ok_def p(1))
  have uniq: "\<forall>vb < KERNEL_VIRT_BASE. mapped (kmem s1) pd vb \<longrightarrow> frame_of (kmem s1) pd vb = f \<longrightarrow> pgno vb = pgno va"
    using user_frame_used [OF D(1)] p(4) unfolding p(1) by auto
  note M = map_page_space [OF us1 mp va p(3) used nt uniq]
  show mf: "mapped (kmem s2) pd va" "frame_of (kmem s2) pd va = f" using M(2,3) [of va] by simp_all
  have ap: "apart s2 pd a \<and> kmem s2 a = kmem s a" if "apart s pd a" for a
  proof -
    have "apart s1 pd a" using c1 that by (simp add: confined_def)
    moreover have "page_down (virt_to_phys a) \<noteq> f"
      using that p(4) pgno_page_down [of "virt_to_phys a"] by (auto simp: apart_def simp del: pgno_page_down)
    ultimately show ?thesis using map_page_apart [OF us1 mp va p(3) used nt uniq] by (simp add: p(1))
  qed
  have kp: "kept s2 pd n" if "n < frame_limit" "kept s pd n" for n
  proof (rule map_page_kept [OF user_spaceD(2) [OF us1] mp va that(1)])
    show "kept s1 pd n" using c1 that by (simp add: confined_def)
    show "n \<noteq> pgno f" using that(2) p(4) by (auto simp: kept_def)
  qed
  show c2: "confined pd s s2"
    using M(1) ap kp map_page(5) [OF user_spaceD(2) [OF us1] mp] by (simp add: confined_def p(1))
  show "confined pd s (s2\<lparr>kmem := memset (phys_to_virt f) 0 PAGE_SIZE (kmem s2)\<rparr>)"
    by (rule confined_trans [OF c2 confined_write [OF M(1) va mf(1)]]) (simp add: mf memset_page)
qed

lemma alloc_more:
  assumes "pmm_ok (vpm s)" "vm_alloc s = Some (a, s1)"
  shows "\<exists>p. s1 = s\<lparr>vpm := p\<rparr> \<and> pmm_ok p \<and> (\<forall>n < frame_limit. frame_used (vpm s) n \<longrightarrow> frame_used p n)"
  using assms(2,1) by (rule vm_alloc_SomeE) blast

lemma map_page_fails:
  assumes "pmm_ok (vpm s)" "paging_map_page pd va pa flags s = Some (st, s')" "st \<noteq> 0"
  shows "\<exists>p. s' = s\<lparr>vpm := p\<rparr> \<and> pmm_ok p \<and> (\<forall>n < frame_limit. frame_used (vpm s) n \<longrightarrow> frame_used p n)"
proof -
  from assms(2,3) have "ensure_table pd va flags s = Some (st, s')"
    by (auto simp: paging_map_page_def Let_def split: option.splits if_splits)
  with assms(3) have "vm_alloc s = Some (0, s')"
    by (auto simp: ensure_table_def Let_def split: option.splits if_splits)
  with assms(1) show ?thesis by (rule alloc_more)
qed

lemma page_frame_confined:
  assumes us: "user_space s pd" and va: "va < KERNEL_VIRT_BASE" and pf: "page_frame pd va flags s = Some (ok, f, s')"
  shows "confined pd s s'" "ok \<Longrightarrow> mapped (kmem s') pd va" "ok \<Longrightarrow> frame_of (kmem s') pd va = f"
proof -
  note D = user_spaceD [OF us]
  have "confined pd s s' \<and> (ok \<longrightarrow> mapped (kmem s') pd va \<and> frame_of (kmem s') pd va = f)"
  proof (cases "mapped (kmem s) pd va")
    case True
    let ?f = "frame_of (kmem s) pd va"
    from page_frame_existing [OF us va True, of flags] pf have f: "f = ?f" "page_ready pd va flags f s s'" "vpm s' = vpm s" by auto
    have w: "paging_walk pd va (kmem s) = Some (?f OR (va AND 0xfff))" using True by (simp add: paging_walk_leaf frame_of_def)
    have fd: "page_down (?f OR (va AND 0xfff)) = ?f" by (simp add: page_down_id)
    have "(\<forall>n < frame_limit. kept s pd n \<longrightarrow> kept s' pd n) \<and> kernel_directory_phys s' = kernel_directory_phys s"
    proof (cases "bit flags 1")
      case False
      then show ?thesis using pf by (simp add: page_frame_def w fd Let_def)
    next
      case rw: True
      have "pd_present (kmem s) pd (pd_index va)" using True by (simp add: leaf_def split: if_splits)
      from remap_counts [OF this] obtain s2 where "paging_map_page pd va ?f flags s = Some (0, s2)" by blast
      moreover from this pf rw have "s2 = s'" by (simp add: page_frame_def w fd Let_def page_down_id)
      ultimately have mp: "paging_map_page pd va ?f flags s = Some (0, s')" by simp
      have "kept s' pd n" if "n < frame_limit" "kept s pd n" for n
        by (rule map_page_kept [OF D(2) mp va that]) (use owned_frame [OF va True] that(2) in \<open>auto simp: kept_def\<close>)
      then show ?thesis using map_page(5) [OF D(2) mp] by simp
    qed
    then show ?thesis using f(2) by (simp add: confined_def page_ready_def)
  next
    case False
    then have w: "paging_walk pd va (kmem s) = None" by (simp add: paging_walk_leaf)
    with pf obtain s1 where al: "vm_alloc s = Some (f, s1)" by (auto simp: page_frame_def split: option.splits if_splits)
    from alloc_more [OF D(4) al] obtain p where p: "s1 = s\<lparr>vpm := p\<rparr>" "pmm_ok p"
      "\<forall>n < frame_limit. frame_used (vpm s) n \<longrightarrow> frame_used p n" by blast
    have c1: "confined pd s s1" unfolding p(1) by (rule confined_frames [OF us p(2)]) (use p(3) in blast)
    show ?thesis
    proof (cases "f = 0")
      case True
      with pf w al c1 show ?thesis by (simp add: page_frame_def)
    next
      case nz: False
      with pf w al obtain st s2 where mp: "paging_map_page pd va f flags s1 = Some (st, s2)" by (auto simp: page_frame_def split: option.splits)
      show ?thesis
      proof (cases "st = 0")
        case True
        with mp have mp0: "paging_map_page pd va f flags s1 = Some (0, s2)" by simp
        note F = fresh_page [OF us va al mp0]
        have s': "ok" "s' = s2\<lparr>kmem := memset (phys_to_virt f) 0 PAGE_SIZE (kmem s2)\<rparr>"
          using pf w al nz mp True by (simp_all add: page_frame_def)
        note W = write_frame(2) [OF confined_space [OF F(3)] va F(1), unfolded F(2), OF memset_page]
        show ?thesis using F(1,2,4) s' W by (simp add: frame_of_def)
      next
        case False
        from map_page_fails [OF _ mp False] p(2) obtain q where q: "s2 = s1\<lparr>vpm := q\<rparr>" "pmm_ok q"
          "\<forall>n < frame_limit. frame_used (vpm s1) n \<longrightarrow> frame_used q n" by (auto simp: p(1))
        have "confined pd s1 s2" unfolding q(1) by (rule confined_frames [OF confined_space [OF c1] q(2)]) (use q(3) in blast)
        then show ?thesis using pf w al nz mp False confined_trans [OF c1] by (simp add: page_frame_def)
      qed
    qed
  qed
  then show "confined pd s s'" "ok \<Longrightarrow> mapped (kmem s') pd va" "ok \<Longrightarrow> frame_of (kmem s') pd va = f" by simp_all
qed

section \<open>Loading\<close>

lemma copy_up_off: "n \<le> 2 ^ 32 \<Longrightarrow> \<not> in_range a d n \<Longrightarrow> copy_up d s n m a = m a"
proof (induction n arbitrary: d s m)
  case (Suc n)
  then have "a \<noteq> d" "\<not> in_range a (d + 1) n" using in_range_Suc [of n a d] by auto
  then show ?case using Suc by simp
qed simp

lemma memcpy_page:
  assumes "unat off + unat n \<le> 4096"
  shows "agrees f m (memcpy (phys_to_virt f + off) src n m)"
  unfolding agrees_def
proof (intro allI impI)
  fix a assume a: "\<not> in_range a (phys_to_virt f) 4096"
  have "\<not> in_range a (phys_to_virt f + off) (unat n)"
  proof
    assume "in_range a (phys_to_virt f + off) (unat n)"
    then have x: "unat (a - (phys_to_virt f + off)) < unat n" by (simp add: in_range_def)
    then have "unat (off + (a - (phys_to_virt f + off))) = unat off + unat (a - (phys_to_virt f + off))"
      using assms by (subst unat_add_lem [THEN iffD1]) auto
    moreover have "off + (a - (phys_to_virt f + off)) = a - phys_to_virt f" by simp
    ultimately show False using a x assms by (simp add: in_range_def)
  qed
  then show "memcpy (phys_to_virt f + off) src n m a = m a"
    unfolding memcpy_def using u32_less [of n] by (intro copy_up_off) simp_all
qed

lemma page_part_fits: "unat (if va = page_down v then v - page_down v else 0) + unat (if r < PAGE_SIZE - (if va = page_down v then v - page_down v else 0)
    then r else PAGE_SIZE - (if va = page_down v then v - page_down v else 0)) \<le> 4096"
proof -
  let ?o = "if va = page_down v then v - page_down v else 0"
  have "unat (v - page_down v) = unat v mod 4096"
    by (simp add: unat_sub_if_size unat_page_down minus_mult_div_eq_mod)
  then have o: "unat ?o < 4096" by simp
  then have "unat (PAGE_SIZE - ?o) = 4096 - unat ?o" by (subst unat_sub) (simp_all add: word_le_nat_alt)
  with o show ?thesis by (auto simp: word_less_nat_alt)
qed

lemma map_loop_confined:
  "map_loop pd v src sz fl va e c s = Some y \<Longrightarrow> user_space s pd \<Longrightarrow> e \<le> KERNEL_VIRT_BASE \<Longrightarrow> confined pd s (snd y)"
proof (induction pd v src sz fl va e c s y rule: map_loop.raw_induct [rotated, consumes 1, case_names step])
  case (step ml pd v src sz fl va e c s y)
  show ?case
  proof (cases "va < e")
    case True
    then have va: "va < KERNEL_VIRT_BASE" using step(4) by simp
    from True step(2) obtain ok f s1 where f: "page_frame pd va fl s = Some (ok, f, s1)" by (auto split: option.splits)
    note F = page_frame_confined [OF step(3) va f]
    show ?thesis
    proof (cases ok)
      case ok: True
      let ?po = "if va = page_down v then v - page_down v else 0"
      let ?cl = "if sz - c < PAGE_SIZE - ?po then sz - c else PAGE_SIZE - ?po"
      let ?s2 = "if src \<noteq> 0 \<and> 0 < ?cl then s1\<lparr>kmem := memcpy (phys_to_virt f + ?po) (src + c) ?cl (kmem s1)\<rparr> else s1"
      from step(2) True f ok have run: "ml pd v src sz fl (va + PAGE_SIZE) e (c + ?cl) ?s2 = Some y"
        by (simp only: Let_def if_True option.case prod.case not_True_eq_False if_False)
      have us1: "user_space s1 pd" using F(1) by (rule confined_space)
      have "confined pd s1 (s1\<lparr>kmem := memcpy (phys_to_virt f + ?po) (src + c) ?cl (kmem s1)\<rparr>)"
        by (rule confined_write [OF us1 va F(2) [OF ok]]) (simp only: F(3) [OF ok], rule memcpy_page [OF page_part_fits])
      then have c2: "confined pd s ?s2" using confined_trans [OF F(1)] F(1) by simp
      show ?thesis by (rule confined_trans [OF c2 step(1) [OF run confined_space [OF c2] step(4)]])
    qed (use step(2) True f F in auto)
  qed (use step(2,3) confined_refl in auto)
qed

lemma map_and_copy_confined:
  assumes "user_space s pd" "map_and_copy pd v src sz fl s = Some (st, s')" "unat v + unat sz \<le> 0xc0000000"
  shows "confined pd s s'"
proof -
  have "(unat v + unat sz + 4095) div 4096 \<le> (0xc0000000 + 4095) div 4096" using assms(3) by (intro div_le_mono) simp
  then have "unat (page_down (v + sz + 0xfff)) \<le> 0xc0000000" by (simp add: segment_end(1) [OF assms(3)])
  then have "page_down (v + sz + 0xfff) \<le> KERNEL_VIRT_BASE" by (simp add: word_le_nat_alt KERNEL_VIRT_BASE_def)
  from map_loop_confined [OF assms(2) [unfolded map_and_copy_def] assms(1) this] show ?thesis by simp
qed

section \<open>The heap of a process\<close>

lemma grow_loop_confined:
  "grow_loop pd va e s = Some s' \<Longrightarrow> user_space s pd \<Longrightarrow> e \<le> KERNEL_VIRT_BASE \<Longrightarrow> confined pd s s'"
proof (induction pd va e s s' rule: grow_loop.raw_induct [rotated, consumes 1, case_names step])
  case (step gl pd va e s s')
  show ?case
  proof (cases "va < e")
    case True
    then have va: "va < KERNEL_VIRT_BASE" using step(4) by simp
    note D = user_spaceD [OF step(3)]
    from True step(2) obtain f s1 where al: "vm_alloc s = Some (f, s1)" by (auto split: option.splits)
    from al D(4) obtain p where p: "s1 = s\<lparr>vpm := p\<rparr>" "pmm_ok p" "\<not> frame_used (vpm s) (pgno f)"
      "\<And>n. n < frame_limit \<Longrightarrow> frame_used p n \<longleftrightarrow> n = pgno f \<or> frame_used (vpm s) n"
      by (rule vm_alloc_SomeE) blast
    have c1: "confined pd s s1" unfolding p(1) by (rule confined_frames [OF step(3) p(2)]) (simp add: p(4))
    show ?thesis
    proof (cases "f = 0")
      case True
      with step(2) \<open>va < e\<close> al c1 show ?thesis by simp
    next
      case nz: False
      with step(2) True al obtain st s2 where
        mp: "paging_map_page pd va f (PAGE_PRESENT OR PAGE_RW OR PAGE_USER) s1 = Some (st, s2)" by (auto split: option.splits)
      show ?thesis
      proof (cases "st = 0")
        case st: True
        let ?s3 = "s2\<lparr>kmem := memset (phys_to_virt f) 0 PAGE_SIZE (kmem s2)\<rparr>"
        have run: "gl pd (va + PAGE_SIZE) e ?s3 = Some s'" using step(2) True al nz mp st by simp
        have c3: "confined pd s ?s3" by (rule fresh_page(4) [OF step(3) va al mp [unfolded st]])
        show ?thesis by (rule confined_trans [OF c3 step(1) [OF run confined_space [OF c3] step(4)]])
      next
        case False
        from map_page_fails [OF _ mp False] p(2) obtain q where q: "s2 = s\<lparr>vpm := q\<rparr>" "pmm_ok q"
          "\<forall>n < frame_limit. frame_used p n \<longrightarrow> frame_used q n" by (auto simp: p(1))
        have "s' = s\<lparr>vpm := pmm_free_frame f q\<rparr>" using step(2) True al nz mp False by (simp add: vm_free_def q(1))
        moreover have "confined pd s (s\<lparr>vpm := pmm_free_frame f q\<rparr>)"
          by (rule confined_frames [OF step(3)]) (use pmm.release_wf [OF q(2)] pmm.release_used [OF q(2)] q(3) p(3,4) in auto)
        ultimately show ?thesis by simp
      qed
    qed
  qed (use step(2,3) confined_refl in auto)
qed

text \<open>Giving a page back.\<close>

lemma unmap_and_free_confined:
  assumes us: "user_space s pd" and va: "va < KERNEL_VIRT_BASE"
  shows "confined pd s (unmap_and_free pd va s)"
proof (cases "mapped (kmem s) pd va")
  case False
  then show ?thesis using us by (simp add: unmap_and_free_def paging_walk_leaf confined_refl)
next
  case True
  note D = user_spaceD [OF us]
  let ?f = "frame_of (kmem s) pd va" and ?s1 = "paging_unmap_page pd va s" and ?t = "table_at (kmem s) pd (pd_index va)"
  have pr: "pd_present (kmem s) pd (pd_index va)" using True by (simp add: leaf_def split: if_splits)
  have k: "kmem ?s1 = set_entry ?t (pt_index va) 0 (kmem s)" "vpm ?s1 = vpm s" "kernel_directory_phys ?s1 = kernel_directory_phys s"
    using pr by (simp_all add: paging_unmap_page_def Let_def table_at_def pd_present_def invlpg_def)
  note A = aspace_set_entry [OF D(2) pr k(1,2)]
  have P: "pd_present (kmem ?s1) pd j = pd_present (kmem s) pd j" "table_at (kmem ?s1) pd j = table_at (kmem s) pd j" if "j < 1024" for j
    using A(3) [OF that] by (simp_all add: pd_present_def table_at_def)
  have tb: "tables_of (kmem ?s1) pd = tables_of (kmem s) pd" by (auto simp: tables_of_def P) (use P in metis)+
  have m: "mapped (kmem ?s1) pd vb \<longleftrightarrow> pgno vb \<noteq> pgno va \<and> mapped (kmem s) pd vb"
    "pgno vb \<noteq> pgno va \<Longrightarrow> frame_of (kmem ?s1) pd vb = frame_of (kmem s) pd vb" for vb
    by (simp_all add: A(2) frame_of_def)
  define s2 where "s2 = vm_free ?f ?s1"
  have s2: "unmap_and_free pd va s = s2"
    using True by (simp add: unmap_and_free_def paging_walk_leaf page_down_id frame_of_def s2_def)
  have k2: "kmem s2 = kmem ?s1" "kernel_directory_phys s2 = kernel_directory_phys s" by (simp_all add: s2_def vm_free_def k(3))
  have u: "pmm_ok (vpm s2)" "frame_used (vpm s2) n \<longleftrightarrow> n \<noteq> pgno ?f \<and> frame_used (vpm s) n" if "n < frame_limit" for n
    using pmm.release_wf [OF D(4)] pmm.release_used [OF D(4)] that by (simp_all add: s2_def vm_free_def k(2))
  have pg: "frame_used (vpm s2) (pgno g) \<longleftrightarrow> g \<noteq> ?f \<and> frame_used (vpm s) (pgno g)" if "page_aligned g" for g
    using u(2) [OF pgno_less, of g] page_aligned_pgno [OF that frame_of_aligned, of "kmem s" pd va] by simp
  have nt: "?f \<notin> tables_of (kmem s) pd" by (rule user_frame [OF D(1) va True])
  have "aspace_ok s2 pd"
  proof -
    have "pd \<noteq> ?f" "\<forall>i < 1024. pd_present (kmem s) pd i \<longrightarrow> table_at (kmem s) pd i \<noteq> ?f" using nt by (auto simp: tables_of_def)
    then show ?thesis
      using D(2,3) A(1) u(1) [OF pgno_less] tables_ok_aligned [OF D(3)] by (simp add: aspace_ok_def k2 pg P)
  qed
  moreover have "frame_used (vpm s2) (pgno (frame_of (kmem s2) pd vb)) \<and> frame_of (kmem s2) pd vb \<notin> tables_of (kmem s2) pd"
    if "vb < KERNEL_VIRT_BASE" "mapped (kmem s2) pd vb" for vb
  proof -
    have v: "pgno vb \<noteq> pgno va" "mapped (kmem s) pd vb" using that(2) m(1) [of vb] by (simp_all add: k2)
    then have "frame_of (kmem s) pd vb \<noteq> ?f" using user_frames_differ [OF D(1) that(1) va v(2) True] by simp
    then show ?thesis
      using user_frame_used [OF D(1) that(1) v(2)] user_frame [OF D(1) that(1) v(2)] m(2) [OF v(1)] by (simp add: k2 tb pg)
  qed
  moreover have "pgno vb = pgno vc" if "vb < KERNEL_VIRT_BASE" "vc < KERNEL_VIRT_BASE" "mapped (kmem s2) pd vb" "mapped (kmem s2) pd vc"
    "frame_of (kmem s2) pd vb = frame_of (kmem s2) pd vc" for vb vc
    using that m(1) [of vb] m(1) [of vc] m(2) [of vb] m(2) [of vc] user_frames_differ [OF D(1) that(1,2)] by (simp add: k2)
  ultimately have "space_ok s2 pd" unfolding space_ok_def by blast
  moreover have "tables_rw (kmem s2) pd" using D(5) A(3) P by (simp add: tables_rw_def k2)
  moreover have "upper_user (kmem s2) pd vb = upper_user (kmem s) pd vb" for vb
    using A(3) [OF pd_index_less, of vb] P [OF pd_index_less, of vb] by (simp add: upper_user_def k2)
  ultimately have us2: "user_space s2 pd" using us by (simp add: user_space_def)
  have "apart s2 pd a \<and> kmem s2 a = kmem s a" if a: "apart s pd a" for a
  proof
    have "page_down (virt_to_phys a) \<noteq> ?f" using a va True by (auto simp: apart_def)
    then have "frame_used (vpm s2) (pgno (virt_to_phys a))"
      using pg [OF page_down_aligned, of "virt_to_phys a"] a by (simp add: apart_def)
    then show "apart s2 pd a" using a m by (auto simp: apart_def k2 tb)
    have "?t \<in> tables_of (kmem s) pd" using pr pd_index_less by (auto simp: tables_of_def)
    then have "\<not> in_range a (phys_to_virt ?t) 4096" using a in_page [OF table_at_aligned, of a] by (auto simp: apart_def)
    then show "kmem s2 a = kmem s a" by (simp add: k2 k(1) set_entry_off)
  qed
  moreover have "kept s2 pd n" if "n < frame_limit" "kept s pd n" for n
  proof -
    have lt: "j < 1024" if "j < KERNEL_PDE_START" for j using that by (simp add: kernel_pde_start word_less_nat_alt)
    then have "owned (kmem s2) pd \<subseteq> owned (kmem s) pd" by (auto simp: owned_def k2 P A(2))
    moreover have "n \<noteq> pgno ?f" using that(2) owned_frame [OF va True] by (auto simp: kept_def)
    ultimately show ?thesis using that by (auto simp: kept_def u)
  qed
  ultimately show ?thesis unfolding s2 confined_def using us2 k2(2) by blast
qed

lemma shrink_confined:
  "page_loop (unmap_and_free pd) va e s = Some s' \<Longrightarrow> user_space s pd \<Longrightarrow> e \<le> KERNEL_VIRT_BASE \<Longrightarrow> confined pd s s'"
proof (induction "unmap_and_free pd" va e s s' rule: page_loop.raw_induct [rotated, consumes 1, case_names step])
  case (step pl va e s s')
  show ?case
  proof (cases "va < e")
    case True
    with step(2) have run: "pl (unmap_and_free pd) (va + PAGE_SIZE) e (unmap_and_free pd va s) = Some s'" by simp
    have c: "confined pd s (unmap_and_free pd va s)"
      by (rule unmap_and_free_confined [OF step(3)]) (use True step(4) in simp)
    show ?thesis by (rule confined_trans [OF c step(1) [OF run confined_space [OF c] step(4)]])
  qed (use step(2,3) confined_refl in auto)
qed

section \<open>Writes to user memory\<close>

lemma byte_confined:
  fixes b :: u8
  assumes "user_space s pd" "va < KERNEL_VIRT_BASE" "mapped (kmem s) pd va"
  shows "confined pd s (s\<lparr>kmem := (kmem s)(byte_at (kmem s) pd va := b)\<rparr>)"
    "usable s pd p n \<Longrightarrow> usable (s\<lparr>kmem := (kmem s)(byte_at (kmem s) pd va := b)\<rparr>) pd p n"
proof -
  show "confined pd s (s\<lparr>kmem := (kmem s)(byte_at (kmem s) pd va := b)\<rparr>)"
    by (rule confined_write [OF assms]) (use byte_at_page in \<open>auto simp: agrees_def\<close>)
  show "usable s pd p n \<Longrightarrow> usable (s\<lparr>kmem := (kmem s)(byte_at (kmem s) pd va := b)\<rparr>) pd p n"
    using write_user(2) [OF user_spaceD(1) [OF assms(1)] assms(2,3)] by (simp add: usable_def)
qed

lemma store_out_confined:
  "store_out bs d s = Some s' \<Longrightarrow> user_space s pd \<Longrightarrow> cr3 s = pd \<Longrightarrow> usable s pd d (length bs) \<Longrightarrow> confined pd s s'"
proof (induction bs arbitrary: d s)
  case (Cons b bs)
  have d: "d < KERNEL_VIRT_BASE" "mapped (kmem s) pd d" and u: "usable s pd (d + 1) (length bs)"
    using Cons.prems(4) by (simp_all add: usable_Suc)
  note B = byte_confined [OF Cons.prems(2) d, where b = b]
  have "store_out bs (d + 1) (s\<lparr>kmem := (kmem s)(byte_at (kmem s) pd d := b)\<rparr>) = Some s'"
    using Cons.prems(1,3) d(2) by (simp add: translate_leaf)
  from Cons.IH [OF this confined_space [OF B(1)] _ B(2) [OF u]] Cons.prems(3) show ?case using confined_trans [OF B(1)] by simp
qed (simp add: confined_refl)

lemma copy_out_confined:
  "copy_out n d p s = Some s' \<Longrightarrow> user_space s pd \<Longrightarrow> cr3 s = pd \<Longrightarrow> usable s pd d n \<Longrightarrow> confined pd s s'"
proof (induction n arbitrary: d p s)
  case (Suc n)
  have d: "d < KERNEL_VIRT_BASE" "mapped (kmem s) pd d" and u: "usable s pd (d + 1) n"
    using Suc.prems(4) by (simp_all add: usable_Suc)
  note B = byte_confined [OF Suc.prems(2) d, where b = "kmem s p"]
  have "copy_out n (d + 1) (p + 1) (s\<lparr>kmem := (kmem s)(byte_at (kmem s) pd d := kmem s p)\<rparr>) = Some s'"
    using Suc.prems(1,3) d(2) by (simp add: translate_leaf)
  from Suc.IH [OF this confined_space [OF B(1)] _ B(2) [OF u]] Suc.prems(3) show ?case using confined_trans [OF B(1)] by simp
qed (simp add: confined_refl)

section \<open>Several address spaces\<close>

text \<open>
  The address space \<open>pd\<close> is clear of the frames \<open>N\<close>, in which it has neither pages nor tables, and does not
  own the tables \<open>F\<close>; \<open>isolated\<close> says this of the frames and tables of another address space. The tables
  of the kernel's half are shared, and no one's own.
\<close>

definition clear :: "vm_state \<Rightarrow> u32 \<Rightarrow> nat set \<Rightarrow> u32 set \<Rightarrow> bool" where
  "clear s pd N F \<longleftrightarrow> (\<forall>a. pgno (virt_to_phys a) \<in> N \<longrightarrow> apart s pd a) \<and> (\<forall>f \<in> F. kept s pd (pgno f))"

definition isolated :: "vm_state \<Rightarrow> u32 \<Rightarrow> u32 \<Rightarrow> bool" where
  "isolated s pd pd2 \<longleftrightarrow> clear s pd (owned (kmem s) pd2) (tables_of (kmem s) pd2)"

definition off_kernel :: "vm_state \<Rightarrow> u32 \<Rightarrow> bool" where
  "off_kernel s pd \<longleftrightarrow> kept s pd 0
     \<and> clear s pd {pgno (kernel_directory_phys s)} (tables_of (kmem s) (kernel_directory_phys s))"

text \<open>A step leaves the bytes of the frames \<open>N\<close> as they are, and takes neither them nor the tables \<open>F\<close> away.\<close>

definition undisturbed :: "nat set \<Rightarrow> u32 set \<Rightarrow> vm_state \<Rightarrow> vm_state \<Rightarrow> bool" where
  "undisturbed N F s s' \<longleftrightarrow> (\<forall>a. pgno (virt_to_phys a) \<in> N \<longrightarrow> kmem s' a = kmem s a)
     \<and> (\<forall>f. pgno f \<in> N \<or> f \<in> F \<longrightarrow> frame_used (vpm s) (pgno f) \<longrightarrow> frame_used (vpm s') (pgno f))"

text \<open>Every frame below 4 GiB is behind some kernel address.\<close>

lemma phys_virt [simp]: "virt_to_phys (phys_to_virt f) = f"
  by (simp add: virt_to_phys_def phys_to_virt_def)

lemma entry_page:
  assumes "\<And>a. page_down (virt_to_phys a) = g \<Longrightarrow> m' a = m a" "page_aligned g" "j < 1024"
  shows "entry m' g j = entry m g j"
proof -
  have "m' (phys_to_virt g + 4 * j + l) = m (phys_to_virt g + 4 * j + l)" if "l < 4" for l
  proof (rule assms(1))
    have "in_range (phys_to_virt g + (4 * j + l)) (phys_to_virt g) 4096"
      using unat_entry_byte(2) [OF assms(3) that] by (simp add: in_range_def)
    then show "page_down (virt_to_phys (phys_to_virt g + 4 * j + l)) = g" using in_page [OF assms(2)] by (simp add: add.assoc)
  qed
  from this [of 0] this [of 1] this [of 2] this [of 3] show ?thesis unfolding entry_def by (intro ld32_cong) auto
qed

lemma page_pgno: "page_aligned g \<Longrightarrow> page_down x = g \<longleftrightarrow> pgno x = pgno g"
  using page_down_eq [of x g] page_down_id [of g] by auto

lemma owned_table: "pd_present m pd i \<Longrightarrow> i < KERNEL_PDE_START \<Longrightarrow> pgno (table_at m pd i) \<in> owned m pd"
  by (auto simp: owned_def)

lemma private_same:
  assumes al: "page_aligned pd" and same: "\<forall>a. pgno (virt_to_phys a) \<in> owned m pd \<longrightarrow> m' a = m a"
  shows "j < 1024 \<Longrightarrow> entry m' pd j = entry m pd j"
    "va < KERNEL_VIRT_BASE \<Longrightarrow> leaf m' pd va = leaf m pd va"
    "owned m' pd = owned m pd" "tables_of m' pd = tables_of m pd"
    "va < KERNEL_VIRT_BASE \<Longrightarrow> peek m' pd va = peek m pd va"
proof -
  have e: "entry m' g j = entry m g j" if "pgno g \<in> owned m pd" "page_aligned g" "j < 1024" for g j
    by (rule entry_page) (use that same page_pgno [OF that(2)] in auto)
  have pd: "pgno pd \<in> owned m pd" by (simp add: owned_def)
  show d: "entry m' pd j = entry m pd j" if "j < 1024" for j by (rule e [OF pd al that])
  have P: "pd_present m' pd j = pd_present m pd j" "table_at m' pd j = table_at m pd j" if "j < 1024" for j
    using d [OF that] by (simp_all add: pd_present_def table_at_def)
  show l: "leaf m' pd va = leaf m pd va" if "va < KERNEL_VIRT_BASE" for va
    using e [OF owned_table table_at_aligned pt_index_less, of "pd_index va" va] that
    by (simp add: leaf_def P pd_index_kernel)
  have lt: "j < 1024" if "j < KERNEL_PDE_START" for j using that by (simp add: kernel_pde_start word_less_nat_alt)
  have lp: "pd_present m' pd j = pd_present m pd j" "table_at m' pd j = table_at m pd j" if "j < KERNEL_PDE_START" for j
    using P [OF lt [OF that]] by blast+
  show "owned m' pd = owned m pd"
  proof -
    have "{pgno (table_at m' pd i) |i. i < KERNEL_PDE_START \<and> pd_present m' pd i} = {pgno (table_at m pd i) |i. i < KERNEL_PDE_START \<and> pd_present m pd i}"
      using lp by (auto intro: exI) metis+
    moreover have "{pgno (leaf m' pd va) |va. va < KERNEL_VIRT_BASE \<and> bit (leaf m' pd va) 0} = {pgno (leaf m pd va) |va. va < KERNEL_VIRT_BASE \<and> bit (leaf m pd va) 0}"
      using l by (auto intro: exI) metis+
    ultimately show ?thesis by (simp add: owned_def)
  qed
  show "tables_of m' pd = tables_of m pd" by (auto simp: tables_of_def P) (use P in metis)+
  show "peek m' pd va = peek m pd va" if "va < KERNEL_VIRT_BASE"
  proof -
    have "m' (byte_at m pd va) = m (byte_at m pd va)" if m: "mapped m pd va"
    proof (rule same [rule_format])
      have "page_down (virt_to_phys (byte_at m pd va)) = frame_of m pd va"
        using byte_at_page in_page [OF frame_of_aligned] by blast
      then have "pgno (virt_to_phys (byte_at m pd va)) = pgno (frame_of m pd va)" by (simp add: page_pgno)
      then show "pgno (virt_to_phys (byte_at m pd va)) \<in> owned m pd" using owned_frame [OF \<open>va < KERNEL_VIRT_BASE\<close> m] by simp
    qed
    then show ?thesis using l [OF that] by (simp add: peek_def byte_at_def frame_of_def)
  qed
qed

lemma undisturbed_space:
  assumes us: "user_space s pd" and pm: "pmm_ok (vpm s')"
    and un: "undisturbed (owned (kmem s) pd) (tables_of (kmem s) pd) s s'"
  shows "user_space s' pd"
proof -
  note D = user_spaceD [OF us]
  have al: "page_aligned pd" by (rule tables_ok_aligned [OF D(3)])
  have same: "\<forall>a. pgno (virt_to_phys a) \<in> owned (kmem s) pd \<longrightarrow> kmem s' a = kmem s a" using un by (simp add: undisturbed_def)
  note S = private_same [where m = "kmem s" and m' = "kmem s'", OF al same]
  have P: "pd_present (kmem s') pd j = pd_present (kmem s) pd j" "table_at (kmem s') pd j = table_at (kmem s) pd j" if "j < 1024" for j
    using S(1) [OF that] by (simp_all add: pd_present_def table_at_def)
  have ut: "frame_used (vpm s') (pgno f)" if "f \<in> tables_of (kmem s) pd" "frame_used (vpm s) (pgno f)" for f
    using un that by (simp add: undisturbed_def)
  have tb: "pd \<in> tables_of (kmem s) pd" "j < 1024 \<Longrightarrow> pd_present (kmem s) pd j \<Longrightarrow> table_at (kmem s) pd j \<in> tables_of (kmem s) pd" for j
    by (auto simp: tables_of_def)
  have "aspace_ok s' pd"
    using D(2,3) pm ut tb by (simp add: aspace_ok_def tables_ok_def P)
  moreover have "frame_used (vpm s') (pgno (frame_of (kmem s') pd va)) \<and> frame_of (kmem s') pd va \<notin> tables_of (kmem s') pd"
    if va: "va < KERNEL_VIRT_BASE" "mapped (kmem s') pd va" for va
  proof -
    have m: "mapped (kmem s) pd va" "frame_of (kmem s') pd va = frame_of (kmem s) pd va" using va S(2) [OF va(1)] by (simp_all add: frame_of_def)
    then show ?thesis
      using user_frame_used [OF D(1) va(1) m(1)] user_frame [OF D(1) va(1) m(1)] owned_frame [OF va(1) m(1)] un S(4)
      by (simp add: undisturbed_def)
  qed
  moreover have "pgno va = pgno vb" if "va < KERNEL_VIRT_BASE" "vb < KERNEL_VIRT_BASE" "mapped (kmem s') pd va" "mapped (kmem s') pd vb"
    "frame_of (kmem s') pd va = frame_of (kmem s') pd vb" for va vb
    using that S(2) [OF that(1)] S(2) [OF that(2)] user_frames_differ [OF D(1) that(1,2)] by (simp add: frame_of_def)
  ultimately have "space_ok s' pd" unfolding space_ok_def by blast
  moreover have "tables_rw (kmem s') pd" using D(5) S(1) P by (simp add: tables_rw_def)
  moreover have "upper_user (kmem s') pd va = upper_user (kmem s) pd va" for va
    using S(1) [OF pd_index_less, of va] P [OF pd_index_less, of va] by (simp add: upper_user_def)
  ultimately show ?thesis using us by (simp add: user_space_def)
qed

lemma undisturbed_clear:
  assumes us: "user_space s pd" and un: "undisturbed (owned (kmem s) pd) (tables_of (kmem s) pd) s s'"
    and NF: "undisturbed N F s s'" "clear s pd N F"
  shows "clear s' pd N F"
proof -
  have same: "\<forall>a. pgno (virt_to_phys a) \<in> owned (kmem s) pd \<longrightarrow> kmem s' a = kmem s a" using un by (simp add: undisturbed_def)
  note S = private_same [where m = "kmem s" and m' = "kmem s'", OF tables_ok_aligned [OF user_spaceD(3) [OF us]] same]
  show ?thesis
    unfolding clear_def
  proof (intro conjI allI impI ballI)
    show "apart s' pd a" if "pgno (virt_to_phys a) \<in> N" for a
    proof -
      have a: "apart s pd a" using NF(2) that by (simp add: clear_def)
      then have "frame_used (vpm s') (pgno (virt_to_phys a))" using NF(1) that by (simp add: apart_def undisturbed_def)
      with a show ?thesis using S(2,4) by (auto simp: apart_def frame_of_def)
    qed
    show "kept s' pd (pgno f)" if "f \<in> F" for f
      using NF that S(3) by (simp add: kept_def clear_def undisturbed_def)
  qed
qed

text \<open>The directory of the kernel.\<close>

lemma undisturbed_kernel:
  assumes k: "kernel_dir_ok s" and pm: "pmm_ok (vpm s')" "frame_used (vpm s') 0" and kd: "kernel_directory_phys s' = kernel_directory_phys s"
    and un: "undisturbed {pgno (kernel_directory_phys s)} (tables_of (kmem s) (kernel_directory_phys s)) s s'"
  shows "kernel_dir_ok s'" "tables_of (kmem s') (kernel_directory_phys s) = tables_of (kmem s) (kernel_directory_phys s)"
proof -
  let ?k = "kernel_directory_phys s"
  have ok: "aspace_ok s ?k" using k by (simp add: kernel_dir_ok_def)
  then have al: "page_aligned ?k" using tables_ok_aligned by (auto simp: aspace_ok_def)
  have e: "entry (kmem s') ?k j = entry (kmem s) ?k j" if "j < 1024" for j
    by (rule entry_page [OF _ al that]) (use un page_pgno [OF al] in \<open>auto simp: undisturbed_def\<close>)
  have P: "pd_present (kmem s') ?k j = pd_present (kmem s) ?k j" "table_at (kmem s') ?k j = table_at (kmem s) ?k j" if "j < 1024" for j
    using e [OF that] by (simp_all add: pd_present_def table_at_def)
  show "tables_of (kmem s') ?k = tables_of (kmem s) ?k" by (auto simp: tables_of_def P) (use P in metis)+
  have ut: "frame_used (vpm s') (pgno f)" if "f \<in> tables_of (kmem s) ?k" "frame_used (vpm s) (pgno f)" for f
    using un that by (simp add: undisturbed_def)
  have tb: "?k \<in> tables_of (kmem s) ?k" "j < 1024 \<Longrightarrow> pd_present (kmem s) ?k j \<Longrightarrow> table_at (kmem s) ?k j \<in> tables_of (kmem s) ?k" for j
    by (auto simp: tables_of_def)
  have "aspace_ok s' ?k" using ok pm(1) ut tb by (simp add: aspace_ok_def tables_ok_def P)
  then show "kernel_dir_ok s'"
    using k pm(2) e P by (simp add: kernel_dir_ok_def kd tables_rw_def upper_user_def)
qed

lemma ownedE:
  assumes "n \<in> owned m pd" "page_aligned pd"
  obtains g where "page_aligned g" "pgno g = n" "g \<in> tables_of m pd \<or> (\<exists>va < KERNEL_VIRT_BASE. mapped m pd va \<and> frame_of m pd va = g)"
proof -
  have lt: "j < 1024" if "j < KERNEL_PDE_START" for j using that by (simp add: kernel_pde_start word_less_nat_alt)
  consider "n = pgno pd" | i where "i < KERNEL_PDE_START" "pd_present m pd i" "n = pgno (table_at m pd i)"
    | va where "va < KERNEL_VIRT_BASE" "mapped m pd va" "n = pgno (frame_of m pd va)"
    using assms(1) by (auto simp: owned_def frame_of_def)
  then show thesis
  proof cases
    case 1
    then show ?thesis by (intro that [of pd]) (simp_all add: assms(2) tables_of_def)
  next
    case 2
    then show ?thesis using lt by (intro that [of "table_at m pd i"]) (auto simp: tables_of_def)
  next
    case 3
    then show ?thesis by (intro that [of "frame_of m pd va"]) auto
  qed
qed

lemma apart_not_owned:
  assumes "user_space s pd" "apart s pd a"
  shows "pgno (virt_to_phys a) \<notin> owned (kmem s) pd" "kept s pd (pgno (virt_to_phys a))"
proof -
  show no: "pgno (virt_to_phys a) \<notin> owned (kmem s) pd"
  proof
    assume "pgno (virt_to_phys a) \<in> owned (kmem s) pd"
    then obtain g where g: "page_aligned g" "pgno g = pgno (virt_to_phys a)"
      "g \<in> tables_of (kmem s) pd \<or> (\<exists>va < KERNEL_VIRT_BASE. mapped (kmem s) pd va \<and> frame_of (kmem s) pd va = g)"
      by (rule ownedE [OF _ tables_ok_aligned [OF user_spaceD(3) [OF assms(1)]]])
    then have "page_down (virt_to_phys a) = g" using page_pgno [OF g(1)] by simp
    with g(3) assms(2) show False by (auto simp: apart_def)
  qed
  with assms(2) show "kept s pd (pgno (virt_to_phys a))" by (simp add: kept_def apart_def)
qed

lemma owned_used:
  assumes "user_space s pd" "n \<in> owned (kmem s) pd"
  shows "frame_used (vpm s) n"
proof -
  note D = user_spaceD [OF assms(1)]
  obtain g where g: "pgno g = n" "g \<in> tables_of (kmem s) pd \<or> (\<exists>va < KERNEL_VIRT_BASE. mapped (kmem s) pd va \<and> frame_of (kmem s) pd va = g)"
    using ownedE [OF assms(2) tables_ok_aligned [OF D(3)]] by metis
  then show ?thesis using D(2) user_frame_used [OF D(1)] by (auto simp: tables_of_def aspace_ok_def)
qed

lemma tables_used: "aspace_ok s pd \<Longrightarrow> f \<in> tables_of (kmem s) pd \<Longrightarrow> frame_used (vpm s) (pgno f)"
  by (auto simp: aspace_ok_def tables_of_def)

lemma clear_kept: "user_space s pd \<Longrightarrow> clear s pd N F \<Longrightarrow> pgno (virt_to_phys a) \<in> N \<Longrightarrow> kept s pd (pgno (virt_to_phys a))"
  using apart_not_owned(2) unfolding clear_def by blast

lemma isolated_sym:
  assumes us: "user_space s pd" "user_space s pd2" and i: "isolated s pd pd2"
  shows "isolated s pd2 pd"
proof -
  note D = user_spaceD [OF us(1)] and D2 = user_spaceD [OF us(2)]
  have c: "clear s pd (owned (kmem s) pd2) (tables_of (kmem s) pd2)" using i by (simp add: isolated_def)
  have no: "pgno (virt_to_phys a) \<notin> owned (kmem s) pd" if "pgno (virt_to_phys a) \<in> owned (kmem s) pd2" for a
    using apart_not_owned(1) [OF us(1)] c that by (simp add: clear_def)
  show ?thesis
    unfolding isolated_def clear_def
  proof (intro conjI allI impI ballI)
    show "apart s pd2 a" if a: "pgno (virt_to_phys a) \<in> owned (kmem s) pd" for a
      unfolding apart_def
    proof (intro conjI allI impI)
      show "frame_used (vpm s) (pgno (virt_to_phys a))" by (rule owned_used [OF us(1) a])
      show "page_down (virt_to_phys a) \<notin> tables_of (kmem s) pd2"
      proof
        assume "page_down (virt_to_phys a) \<in> tables_of (kmem s) pd2"
        then have "kept s pd (pgno (page_down (virt_to_phys a)))" using c by (simp only: clear_def)
        then show False using a by (simp add: kept_def)
      qed
      show "frame_of (kmem s) pd2 va \<noteq> page_down (virt_to_phys a)" if va: "va < KERNEL_VIRT_BASE" "mapped (kmem s) pd2 va" for va
      proof
        assume "frame_of (kmem s) pd2 va = page_down (virt_to_phys a)"
        then have "pgno (virt_to_phys a) \<in> owned (kmem s) pd2" using owned_frame [OF va] by simp
        then show False using no a by blast
      qed
    qed
    show "kept s pd2 (pgno f)" if f: "f \<in> tables_of (kmem s) pd" for f
    proof -
      have "page_down f = f" by (rule page_down_id [OF tables_of_aligned [OF D(3) f]])
      then have "\<not> apart s pd (phys_to_virt f)" using f by (simp add: apart_def)
      then have "pgno f \<notin> owned (kmem s) pd2" using c unfolding clear_def by (metis phys_virt)
      then show ?thesis using tables_used [OF D(2) f] by (simp add: kept_def)
    qed
  qed
qed

section \<open>All address spaces of the machine\<close>

definition spaces :: "vm_state \<Rightarrow> u32 set \<Rightarrow> bool" where
  "spaces s P \<longleftrightarrow> kernel_dir_ok s \<and> (\<forall>pd \<in> P. user_space s pd \<and> off_kernel s pd)
     \<and> (\<forall>pd \<in> P. \<forall>pd2 \<in> P. pd \<noteq> pd2 \<longrightarrow> isolated s pd pd2)"

text \<open>What a process sees of its memory, and what it may do with it.\<close>

definition same_view :: "u32 \<Rightarrow> vm_state \<Rightarrow> vm_state \<Rightarrow> bool" where
  "same_view pd s s' \<longleftrightarrow> (\<forall>va < KERNEL_VIRT_BASE. peek (kmem s') pd va = peek (kmem s) pd va)
     \<and> (\<forall>w va. user_access (kmem s') pd w va = user_access (kmem s) pd w va)"

abbreviation leaves :: "u32 \<Rightarrow> vm_state \<Rightarrow> vm_state \<Rightarrow> bool" where
  "leaves pd s s' \<equiv> undisturbed (owned (kmem s) pd) (tables_of (kmem s) pd) s s'"

abbreviation leaves_kernel :: "vm_state \<Rightarrow> vm_state \<Rightarrow> bool" where
  "leaves_kernel s s' \<equiv> undisturbed {pgno (kernel_directory_phys s)} (tables_of (kmem s) (kernel_directory_phys s)) s s'
     \<and> kernel_directory_phys s' = kernel_directory_phys s \<and> pmm_ok (vpm s') \<and> frame_used (vpm s') 0"

lemma leaves_owned:
  assumes "user_space s pd" "leaves pd s s'"
  shows "owned (kmem s') pd = owned (kmem s) pd" "tables_of (kmem s') pd = tables_of (kmem s) pd"
proof -
  have same: "\<forall>a. pgno (virt_to_phys a) \<in> owned (kmem s) pd \<longrightarrow> kmem s' a = kmem s a" using assms(2) by (simp add: undisturbed_def)
  note S = private_same [where m = "kmem s" and m' = "kmem s'", OF tables_ok_aligned [OF user_spaceD(3) [OF assms(1)]] same]
  show "owned (kmem s') pd = owned (kmem s) pd" "tables_of (kmem s') pd = tables_of (kmem s) pd" by (rule S)+
qed

lemma leaves_view:
  assumes us: "user_space s pd" and pm: "pmm_ok (vpm s')" and l: "leaves pd s s'"
  shows "same_view pd s s'"
proof -
  have same: "\<forall>a. pgno (virt_to_phys a) \<in> owned (kmem s) pd \<longrightarrow> kmem s' a = kmem s a" using l by (simp add: undisturbed_def)
  note S = private_same [where m = "kmem s" and m' = "kmem s'", OF tables_ok_aligned [OF user_spaceD(3) [OF us]] same]
  have us': "user_space s' pd" by (rule undisturbed_space [OF us pm l])
  have "user_access (kmem s') pd w va = user_access (kmem s) pd w va" for w va
  proof (cases "va < KERNEL_VIRT_BASE")
    case True
    then show ?thesis
      using S(1) [OF pd_index_less, of va] S(2) [OF True] by (simp add: user_access_def upper_user_def pd_present_def)
  next
    case False
    then show ?thesis using user_access_mapped(1) [OF us] user_access_mapped(1) [OF us'] by blast
  qed
  then show ?thesis using S(5) by (simp add: same_view_def)
qed

text \<open>A step that leaves a set of address spaces and the kernel alone.\<close>

lemma spaces_leave:
  assumes sp: "spaces s P" and Q: "Q \<subseteq> P" "\<forall>pd \<in> Q. leaves pd s s'" and k: "leaves_kernel s s'"
  shows "spaces s' Q" "pd \<in> Q \<Longrightarrow> same_view pd s s'"
proof -
  have us: "user_space s pd" "off_kernel s pd" if "pd \<in> Q" for pd using sp Q(1) that by (auto simp: spaces_def)
  have kd: "kernel_dir_ok s" using sp by (simp add: spaces_def)
  have un: "undisturbed {pgno (kernel_directory_phys s)} (tables_of (kmem s) (kernel_directory_phys s)) s s'"
    and kp: "kernel_directory_phys s' = kernel_directory_phys s" and pm: "pmm_ok (vpm s')" "frame_used (vpm s') 0" using k by simp_all
  note K = undisturbed_kernel [OF kd pm kp un]
  have us': "user_space s' pd" if "pd \<in> Q" for pd by (rule undisturbed_space [OF us(1) [OF that] pm(1) bspec [OF Q(2) that]])
  moreover have "off_kernel s' pd" if "pd \<in> Q" for pd
    using undisturbed_clear [OF us(1) [OF that] bspec [OF Q(2) that] un] us(2) [OF that] pm(2) leaves_owned(1) [OF us(1) [OF that] bspec [OF Q(2) that]]
    by (simp add: off_kernel_def kp K(2) kept_def)
  moreover have "isolated s' pd pd2" if "pd \<in> Q" "pd2 \<in> Q" "pd \<noteq> pd2" for pd pd2
  proof -
    have "isolated s pd pd2" using sp Q(1) that by (auto simp: spaces_def)
    then show ?thesis
      using undisturbed_clear [OF us(1) [OF that(1)] bspec [OF Q(2) that(1)] bspec [OF Q(2) that(2)]]
      by (simp add: isolated_def leaves_owned [OF us(1) [OF that(2)] bspec [OF Q(2) that(2)]])
  qed
  ultimately show "spaces s' Q" using K(1) unfolding spaces_def by blast
  show "pd \<in> Q \<Longrightarrow> same_view pd s s'" using leaves_view [OF us(1) pm(1)] Q(2) by blast
qed

lemma spaces_insert:
  assumes "spaces s Q" "user_space s pd" "off_kernel s pd" "\<And>pd2. pd2 \<in> Q \<Longrightarrow> pd2 \<noteq> pd \<Longrightarrow> isolated s pd pd2"
  shows "spaces s (insert pd Q)"
  using assms isolated_sym [OF assms(2)] unfolding spaces_def by blast

lemma confined_leaves:
  assumes "user_space s pd" "clear s pd N F" "confined pd s s'"
  shows "undisturbed N F s s'" "clear s' pd N F"
proof -
  have "kept s pd (pgno f)" if "pgno f \<in> N \<or> f \<in> F" for f
    using assms(2) clear_kept [OF assms(1,2), of "phys_to_virt f"] that by (auto simp: clear_def)
  then have "frame_used (vpm s') (pgno f)" if "pgno f \<in> N \<or> f \<in> F" for f
    using assms(3) that pgno_less by (auto simp: confined_def kept_def)
  then show "undisturbed N F s s'" using assms by (simp add: undisturbed_def clear_def confined_def)
  show "clear s' pd N F" using assms pgno_less by (simp add: clear_def confined_def)
qed

lemma confined_spaces:
  assumes sp: "spaces s P" and pd: "pd \<in> P" and c: "confined pd s s'"
  shows "spaces s' P" "b \<in> P \<Longrightarrow> b \<noteq> pd \<Longrightarrow> same_view b s s'"
    "tables_of (kmem s') (kernel_directory_phys s') = tables_of (kmem s) (kernel_directory_phys s)"
proof -
  let ?k = "kernel_directory_phys s"
  have us: "user_space s pd" and ok: "kept s pd 0" "clear s pd {pgno ?k} (tables_of (kmem s) ?k)"
    and kd: "kernel_dir_ok s" using sp pd by (auto simp: spaces_def off_kernel_def)
  have us': "user_space s' pd" and kp: "kernel_directory_phys s' = ?k" using c by (simp_all add: confined_def)
  have k0: "kept s' pd 0" using c ok(1) by (simp add: confined_def frame_limit_def)
  then have pm: "pmm_ok (vpm s')" "frame_used (vpm s') 0" using user_spaceD(4) [OF us'] by (simp_all add: kept_def)
  note K = confined_leaves [OF us ok(2) c]
  show tb: "tables_of (kmem s') (kernel_directory_phys s') = tables_of (kmem s) ?k"
    using undisturbed_kernel(2) [OF kd pm kp K(1)] by (simp add: kp)
  have iso: "clear s pd (owned (kmem s) b) (tables_of (kmem s) b)" if "b \<in> P - {pd}" for b
    using sp pd that by (auto simp: spaces_def isolated_def)
  have lv: "leaves b s s'" if "b \<in> P - {pd}" for b by (rule confined_leaves(1) [OF us iso [OF that] c])
  have lk: "leaves_kernel s s'" using K(1) kp pm by simp
  have "\<forall>b \<in> P - {pd}. leaves b s s'" using lv by blast
  note L = spaces_leave [OF sp Diff_subset this lk]
  have ub: "user_space s b" if "b \<in> P" for b using sp that by (simp add: spaces_def)
  have "spaces s' (insert pd (P - {pd}))"
  proof (rule spaces_insert [OF L(1) us'])
    show "off_kernel s' pd" using K(2) k0 tb by (simp add: off_kernel_def kp)
    show "isolated s' pd b" if "b \<in> P - {pd}" for b
      using confined_leaves(2) [OF us iso [OF that] c] leaves_owned [OF ub lv] that by (simp add: isolated_def)
  qed
  then show "spaces s' P" using pd by (simp add: insert_absorb)
  show "b \<in> P \<Longrightarrow> b \<noteq> pd \<Longrightarrow> same_view b s s'" using L(2) by simp
qed

lemma create_spaces:
  assumes sp: "spaces s P" and cr: "paging_create_address_space s = Some (pd, s')"
  shows "spaces s' (insert pd P)" "pd \<notin> P" "b \<in> P \<Longrightarrow> same_view b s s'"
    "tables_of (kmem s') (kernel_directory_phys s') = tables_of (kmem s) (kernel_directory_phys s)"
proof -
  let ?k = "kernel_directory_phys s"
  have kd: "kernel_dir_ok s" using sp by (simp add: spaces_def)
  then have ok: "aspace_ok s ?k" and rw: "tables_rw (kmem s) ?k" and f0: "frame_used (vpm s) 0"
    and up: "\<And>va. KERNEL_VIRT_BASE \<le> va \<Longrightarrow> \<not> upper_user (kmem s) ?k va" by (auto simp: kernel_dir_ok_def)
  note C = create_address_space [OF ok cr]
  have ub: "user_space s b" "off_kernel s b" if "b \<in> P" for b using sp that by (simp_all add: spaces_def)
  have al: "page_aligned pd" using C(1) tables_ok_aligned by (auto simp: aspace_ok_def)
  have nu: "pgno x \<noteq> pgno pd" if "frame_used (vpm s) (pgno x)" for x using that C(6) by auto
  have bytes: "kmem s' a = kmem s a" if "frame_used (vpm s) (pgno (virt_to_phys a))" for a
    using C(13) in_page [OF al, of a] nu [OF that] page_pgno [OF al, of "virt_to_phys a"] by simp
  have used: "frame_used (vpm s') (pgno x)" if "frame_used (vpm s) (pgno x)" for x using C(7) [OF pgno_less] that by simp
  have pm: "pmm_ok (vpm s')" "frame_used (vpm s') 0" using C(1) C(7) [of 0] f0 by (simp_all add: aspace_ok_def frame_limit_def)
  have lk: "leaves_kernel s s'"
    using bytes used pm C(10) ok by (auto simp: undisturbed_def aspace_ok_def)
  have tb: "tables_of (kmem s') ?k = tables_of (kmem s) ?k" using undisturbed_kernel(2) [OF kd pm C(10)] lk by blast
  then show "tables_of (kmem s') (kernel_directory_phys s') = tables_of (kmem s) ?k" by (simp add: C(10))
  have lv: "leaves b s s'" if "b \<in> P" for b
    using bytes used owned_used [OF ub(1) [OF that]] by (simp add: undisturbed_def)
  have "\<forall>b \<in> P. leaves b s s'" using lv by blast
  note L = spaces_leave [OF sp order_refl this lk]
  show "b \<in> P \<Longrightarrow> same_view b s s'" by (rule L(2))
  show np: "pd \<notin> P"
  proof
    assume "pd \<in> P"
    then have "aspace_ok s pd" using ub user_spaceD(2) by blast
    then show False using C(6) by (simp add: aspace_ok_def)
  qed
  have fresh: "\<not> mapped (kmem s') pd va" if "va < KERNEL_VIRT_BASE" for va using C(3) [of va] that by simp
  have te: "table_at (kmem s') pd j = table_at (kmem s) ?k j" if "j < 1024" "KERNEL_PDE_START \<le> j" for j
    using C(12) [OF that] by (simp add: table_at_def)
  have tabs: "f = pd \<or> (f \<in> tables_of (kmem s) ?k \<and> f \<noteq> ?k)" if f: "f \<in> tables_of (kmem s') pd" for f
  proof -
    have "f = pd \<or> (\<exists>j < 1024. KERNEL_PDE_START \<le> j \<and> pd_present (kmem s) ?k j \<and> f = table_at (kmem s) ?k j)"
      using f C(11) te by (auto simp: tables_of_def)
    then show ?thesis using ok tables_ok_apart by (auto simp: tables_of_def aspace_ok_def)
  qed
  have us': "user_space s' pd"
  proof -
    have "\<not> upper_user (kmem s') pd va" if "KERNEL_VIRT_BASE \<le> va" for va
      using up [OF that] C(11,12) [OF pd_index_less, of va] pd_index_kernel [of va] that by (auto simp: upper_user_def not_less)
    then show ?thesis using C(1) C(4) [OF rw] fresh by (simp add: user_space_def space_ok_def)
  qed
  have kept': "kept s' pd (pgno f)" if "frame_used (vpm s) (pgno f)" for f
    using that used nu C(5) by (simp add: kept_def)
  have ap: "apart s' pd a" if "frame_used (vpm s) (pgno (virt_to_phys a))"
    "page_down (virt_to_phys a) \<notin> tables_of (kmem s) ?k \<or> page_down (virt_to_phys a) = ?k" for a
    using that used fresh tabs page_pgno [OF al, of "virt_to_phys a"] nu by (auto simp: apart_def)
  have kal: "page_aligned ?k" using ok tables_ok_aligned by (auto simp: aspace_ok_def)
  show "spaces s' (insert pd P)"
  proof (rule spaces_insert [OF L(1) us'])
    have "apart s' pd a" if "pgno (virt_to_phys a) = pgno ?k" for a
      using ap [of a] that page_pgno [OF kal] ok by (simp add: aspace_ok_def)
    moreover have "kept s' pd 0" using f0 kept' [of 0] by (simp add: pgno_def)
    ultimately show "off_kernel s' pd"
      using kept' tables_used [OF ok] tb by (simp add: off_kernel_def clear_def C(10))
    show "isolated s' pd b" if b: "b \<in> P" for b
    proof -
      have "apart s' pd a" if a: "pgno (virt_to_phys a) \<in> owned (kmem s) b" for a
      proof (rule ap)
        show "frame_used (vpm s) (pgno (virt_to_phys a))" by (rule owned_used [OF ub(1) [OF b] a])
        have "kept s b (pgno f)" if "f \<in> tables_of (kmem s) ?k" for f
          using ub(2) [OF b] that by (simp add: off_kernel_def clear_def)
        then show "page_down (virt_to_phys a) \<notin> tables_of (kmem s) ?k \<or> page_down (virt_to_phys a) = ?k"
          using a pgno_page_down [of "virt_to_phys a"] unfolding kept_def by metis
      qed
      then show ?thesis
        using kept' tables_used [OF user_spaceD(2) [OF ub(1) [OF b]]] leaves_owned [OF ub(1) [OF b] lv [OF b]]
        by (simp add: isolated_def clear_def)
    qed
  qed
qed

lemma destroy_spaces:
  assumes sp: "spaces s P" and pd: "pd \<in> P"
  shows "spaces (paging_destroy_address_space pd s) (P - {pd})"
    "b \<in> P \<Longrightarrow> b \<noteq> pd \<Longrightarrow> same_view b s (paging_destroy_address_space pd s)"
proof -
  let ?k = "kernel_directory_phys s" and ?s' = "paging_destroy_address_space pd s"
  have us: "user_space s pd" and ok: "kept s pd 0" "clear s pd {pgno ?k} (tables_of (kmem s) ?k)"
    using sp pd by (auto simp: spaces_def off_kernel_def)
  obtain p where p: "?s' = s\<lparr>vpm := p\<rparr>" "pmm_ok p" "\<And>n. n < frame_limit \<Longrightarrow> frame_used p n \<longleftrightarrow> kept s pd n"
    using destroy_address_space [OF user_spaceD(4) [OF us]] by blast
  have un: "undisturbed N F s ?s'" if "clear s pd N F" for N F
  proof -
    have "kept s pd (pgno f)" if "pgno f \<in> N \<or> f \<in> F" for f
      using \<open>clear s pd N F\<close> clear_kept [OF us \<open>clear s pd N F\<close>, of "phys_to_virt f"] that by (auto simp: clear_def)
    then show ?thesis using p(3) [OF pgno_less] by (simp add: undisturbed_def p(1))
  qed
  have "pmm_ok (vpm ?s')" "frame_used (vpm ?s') 0" using p ok(1) by (simp_all add: frame_limit_def)
  then have lk: "leaves_kernel s ?s'" using un [OF ok(2)] p(1) by simp
  have "\<forall>b \<in> P - {pd}. leaves b s ?s'"
    using sp pd by (intro ballI un) (auto simp: spaces_def isolated_def)
  note L = spaces_leave [OF sp Diff_subset this lk]
  show "spaces ?s' (P - {pd})" "b \<in> P \<Longrightarrow> b \<noteq> pd \<Longrightarrow> same_view b s ?s'" using L by simp_all
qed

section \<open>Isolation\<close>

text \<open>
  The steps that change memory, with the address space they work for (\<open>None\<close>: the kernel's own). A program
  writes where the processor lets it; the kernel copies to a range that it has checked, loads a segment,
  moves the break, creates and destroys address spaces, switches between them, and writes its own data.
\<close>

inductive mem_step :: "u32 option \<Rightarrow> vm_state \<times> u32 set \<Rightarrow> vm_state \<times> u32 set \<Rightarrow> bool" where
  poke: "pd \<in> P \<Longrightarrow> cr3 s = pd \<Longrightarrow> user_access (kmem s) pd True va \<Longrightarrow> translate s va = Some a \<Longrightarrow>
    mem_step (Some pd) (s, P) (s\<lparr>kmem := (kmem s)(a := b)\<rparr>, P)"
| store: "pd \<in> P \<Longrightarrow> cr3 s = pd \<Longrightarrow> paging_validate_user_range pd d (of_nat (length bs)) w (kmem s) \<Longrightarrow> length bs < 2 ^ 32 \<Longrightarrow>
    store_out bs d s = Some s' \<Longrightarrow> mem_step (Some pd) (s, P) (s', P)"
| copy: "pd \<in> P \<Longrightarrow> cr3 s = pd \<Longrightarrow> paging_validate_user_range pd d n w (kmem s) \<Longrightarrow>
    copy_out (unat n) d p s = Some s' \<Longrightarrow> mem_step (Some pd) (s, P) (s', P)"
| load: "pd \<in> P \<Longrightarrow> unat v + unat sz \<le> 0xc0000000 \<Longrightarrow> map_and_copy pd v src sz fl s = Some (st, s') \<Longrightarrow>
    mem_step (Some pd) (s, P) (s', P)"
| grow: "pd \<in> P \<Longrightarrow> e \<le> KERNEL_VIRT_BASE \<Longrightarrow> grow_loop pd va e s = Some s' \<Longrightarrow> mem_step (Some pd) (s, P) (s', P)"
| shrink: "pd \<in> P \<Longrightarrow> e \<le> KERNEL_VIRT_BASE \<Longrightarrow> page_loop (unmap_and_free pd) va e s = Some s' \<Longrightarrow>
    mem_step (Some pd) (s, P) (s', P)"
| create: "paging_create_address_space s = Some (pd, s') \<Longrightarrow> mem_step (Some pd) (s, P) (s', insert pd P)"
| destroy: "pd \<in> P \<Longrightarrow> mem_step (Some pd) (s, P) (paging_destroy_address_space pd s, P - {pd})"
| switch: "mem_step None (s, P) (paging_switch_directory pd s, P)"
| kernel: "\<forall>a. m a \<noteq> kmem s a \<longrightarrow> (\<forall>pd \<in> P. apart s pd a)
      \<and> page_down (virt_to_phys a) \<notin> tables_of (kmem s) (kernel_directory_phys s) \<Longrightarrow>
    mem_step None (s, P) (s\<lparr>kmem := m\<rparr>, P)"

text \<open>Each of them works within one address space, or is the kernel's own.\<close>

lemma step_confined:
  assumes "mem_step (Some pd) (s, P) (s', P')" "user_space s pd" "P' = P" "pd \<in> P"
    and "paging_create_address_space s \<noteq> Some (pd, s')"
  shows "confined pd s s'"
  using assms(1)
proof cases
  case (poke va a b)
  note A = user_access_mapped [OF assms(2) poke(5)]
  have "a = byte_at (kmem s) pd va" using poke A(2) by (simp add: translate_leaf)
  then show ?thesis using byte_confined(1) [OF assms(2) A] poke(1) by simp
next
  case (store d bs w)
  have "unat (of_nat (length bs) :: u32) = length bs" by (rule unat_of_nat_u32) (use store in simp)
  then have "usable s pd d (length bs)" using valid_usable [OF assms(2) store(4)] by simp
  then show ?thesis using store_out_confined [OF store(6) assms(2) store(3)] by simp
next
  case (copy d n w p)
  show ?thesis by (rule copy_out_confined [OF copy(5) assms(2) copy(3) valid_usable [OF assms(2) copy(4)]])
next
  case (load v sz src fl st)
  show ?thesis by (rule map_and_copy_confined [OF assms(2) load(4,3)])
next
  case (grow e va)
  show ?thesis by (rule grow_loop_confined [OF grow(4) assms(2) grow(3)])
next
  case (shrink e va)
  show ?thesis by (rule shrink_confined [OF shrink(4) assms(2) shrink(3)])
qed (use assms in auto)

lemma quiet_spaces:
  assumes sp: "spaces s P" and lv: "\<forall>pd \<in> P. leaves pd s s'" and s': "vpm s' = vpm s" "kernel_directory_phys s' = kernel_directory_phys s"
    and k: "undisturbed {pgno (kernel_directory_phys s)} (tables_of (kmem s) (kernel_directory_phys s)) s s'"
  shows "spaces s' P" "b \<in> P \<Longrightarrow> same_view b s s'"
proof -
  have "leaves_kernel s s'" using sp s' k by (simp add: spaces_def kernel_dir_ok_def aspace_ok_def)
  from spaces_leave [OF sp order_refl lv this] show "spaces s' P" "b \<in> P \<Longrightarrow> same_view b s s'" .
qed

lemma mem_step_spaces:
  assumes st: "mem_step l (s, P) (s', P')" and sp: "spaces s P"
  shows "spaces s' P'" "b \<in> P \<Longrightarrow> l \<noteq> Some b \<Longrightarrow> b \<in> P' \<and> same_view b s s'"
proof -
  have "spaces s' P' \<and> (\<forall>b \<in> P. l \<noteq> Some b \<longrightarrow> b \<in> P' \<and> same_view b s s')"
  proof (cases "\<exists>pd. l = Some pd \<and> paging_create_address_space s = Some (pd, s') \<and> P' = insert pd P")
    case True
    then obtain pd where "l = Some pd" "paging_create_address_space s = Some (pd, s')" "P' = insert pd P" by blast
    with create_spaces [OF sp] show ?thesis by auto
  next
    case nc: False
    show ?thesis
    proof (cases "\<exists>pd. l = Some pd \<and> pd \<in> P \<and> P' = P")
      case True
      then obtain pd where l: "l = Some pd" "pd \<in> P" "P' = P" by blast
      have us: "user_space s pd" using sp l(2) by (simp add: spaces_def)
      have "paging_create_address_space s \<noteq> Some (pd, s')" using nc l by auto
      from confined_spaces [OF sp l(2) step_confined [OF st [unfolded l(1)] us l(3,2) this]] l show ?thesis by auto
    next
      case other: False
      from st show ?thesis
      proof cases
        case (destroy pd)
        with destroy_spaces [OF sp destroy(4)] show ?thesis by auto
      next
        case (switch pd)
        have un: "undisturbed N F s s'" for N F by (simp add: undisturbed_def switch paging_switch_directory_def)
        show ?thesis
          using quiet_spaces [OF sp _ _ _ un] un switch by (simp add: paging_switch_directory_def)
      next
        case (kernel m)
        have "leaves pd s s'" if "pd \<in> P" for pd
        proof -
          have "user_space s pd" using sp that by (simp add: spaces_def)
          then show ?thesis using apart_not_owned(1) kernel that by (fastforce simp: undisturbed_def)
        qed
        moreover have "undisturbed {pgno (kernel_directory_phys s)} (tables_of (kmem s) (kernel_directory_phys s)) s s'"
        proof -
          have "page_aligned (kernel_directory_phys s)"
            using sp tables_ok_aligned by (auto simp: spaces_def kernel_dir_ok_def aspace_ok_def)
          then have "page_down (virt_to_phys a) \<in> tables_of (kmem s) (kernel_directory_phys s)"
            if "pgno (virt_to_phys a) = pgno (kernel_directory_phys s)" for a
            using that page_pgno by (simp add: tables_of_def)
          then show ?thesis using kernel by (auto simp: undisturbed_def)
        qed
        ultimately show ?thesis using quiet_spaces [OF sp] kernel by simp
      qed (use nc other in auto)
    qed
  qed
  then show "spaces s' P'" "b \<in> P \<Longrightarrow> l \<noteq> Some b \<Longrightarrow> b \<in> P' \<and> same_view b s s'" by auto
qed

abbreviation by_others :: "u32 \<Rightarrow> vm_state \<times> u32 set \<Rightarrow> vm_state \<times> u32 set \<Rightarrow> bool" where
  "by_others b x y \<equiv> \<exists>l. l \<noteq> Some b \<and> mem_step l x y"

lemma others_step: "mem_step l x y \<Longrightarrow> l \<noteq> Some b \<Longrightarrow> (by_others b)\<^sup>*\<^sup>* y z \<Longrightarrow> (by_others b)\<^sup>*\<^sup>* x z"
  by (rule converse_rtranclp_into_rtranclp [where r = "by_others b"]) blast

lemma same_view_trans: "same_view b s s1 \<Longrightarrow> same_view b s1 s2 \<Longrightarrow> same_view b s s2"
  by (simp add: same_view_def)

lemma steps_isolated:
  assumes "(by_others b)\<^sup>*\<^sup>* x y" "spaces (fst x) (snd x)" "b \<in> snd x"
  shows "b \<in> snd y \<and> spaces (fst y) (snd y) \<and> same_view b (fst x) (fst y)"
  using assms
proof (induction rule: rtranclp_induct)
  case base
  then show ?case by (simp add: same_view_def)
next
  case (step y z)
  then have y: "b \<in> snd y" "spaces (fst y) (snd y)" "same_view b (fst x) (fst y)" by simp_all
  from step(2) obtain l where l: "l \<noteq> Some b" "mem_step l (fst y, snd y) (fst z, snd z)" by auto
  from mem_step_spaces(1) [OF l(2) y(2)] mem_step_spaces(2) [OF l(2) y(2,1) l(1)] same_view_trans [OF y(3)]
  show ?case by simp
qed

text \<open>The break, and the loading of a new process, as steps.\<close>

lemma page_up_below: "unat a \<le> 0xc0000000 \<Longrightarrow> page_up a \<le> KERNEL_VIRT_BASE"
proof -
  assume a: "unat a \<le> 0xc0000000"
  then have "(unat a + 4095) div 4096 \<le> (0xc0000000 + 4095) div 4096" by (intro div_le_mono) simp
  then show ?thesis using unat_page_up [OF a] by (simp add: word_le_nat_alt KERNEL_VIRT_BASE_def)
qed

lemma sys_sbrk_private:
  assumes run: "sys_sbrk r k = Some (res, k')" and P: "cur_pd k \<in> P"
    and h: "unat (p_heap_max (current k)) \<le> 0xc0000000" "p_heap_break (current k) \<le> p_heap_max (current k)"
  shows "vm k' = vm k \<or> mem_step (Some (cur_pd k)) (vm k, P) (vm k', P)"
proof -
  let ?x = "current k"
  let ?n = "p_heap_break ?x + r_ebx r"
  show ?thesis
  proof (cases "?n < p_heap_start ?x \<or> p_heap_max ?x < ?n")
    case True
    with run show ?thesis by (simp add: sys_sbrk_def sys_ok_def Let_def)
  next
    case False
    then have "?n \<le> p_heap_max ?x" by (simp add: not_less)
    then have "unat ?n \<le> 0xc0000000" "unat (p_heap_break ?x) \<le> 0xc0000000" using h by (simp_all add: word_le_nat_alt)
    note le = page_up_below [OF this(1)] page_up_below [OF this(2)]
    from run False obtain v where v: "(if page_up (p_heap_break ?x) < page_up ?n then grow_loop (cur_pd k) (page_up (p_heap_break ?x)) (page_up ?n) (vm k)
        else if page_up ?n < page_up (p_heap_break ?x) then page_loop (unmap_and_free (cur_pd k)) (page_up ?n) (page_up (p_heap_break ?x)) (vm k)
        else Some (vm k)) = Some v" "vm k' = v"
      by (auto simp: sys_sbrk_def sys_ok_def Let_def split: option.splits)
    then show ?thesis using mem_step.grow [OF P le(1)] mem_step.shrink [OF P le(2)] by (auto split: if_splits)
  qed
qed

lemma load_segments_private:
  "load_segments pd segs s = Some (st, s') \<Longrightarrow> pd \<in> P \<Longrightarrow> \<forall>(c, v, src, n, fl) \<in> set segs. unat v + unat n \<le> 0xc0000000 \<Longrightarrow>
    (mem_step (Some pd))\<^sup>*\<^sup>* (s, P) (s', P)"
proof (induction segs arbitrary: s)
  case (Cons seg segs)
  obtain c v src n fl where seg: "seg = (c, v, src, n, fl)" by (cases seg)
  from Cons.prems(1) obtain st1 s1 where m: "map_and_copy pd v src n fl s = Some (st1, s1)" by (auto simp: seg split: option.splits)
  have step: "mem_step (Some pd) (s, P) (s1, P)" by (rule mem_step.load [OF Cons.prems(2) _ m]) (use Cons.prems(3) seg in auto)
  show ?case
  proof (cases "st1 = 0")
    case True
    with Cons.prems(1) m have "load_segments pd segs s1 = Some (st, s')" by (simp add: seg)
    from Cons.IH [OF this Cons.prems(2)] Cons.prems(3) show ?thesis by (intro converse_rtranclp_into_rtranclp [where r = "mem_step (Some pd)", OF step]) auto
  next
    case False
    with Cons.prems(1) m step show ?thesis by (auto simp: seg)
  qed
qed simp

lemma load_image_private:
  assumes run: "load_image proc buf k = Some (st, k')"
    and segs: "\<forall>(c, v, src, n, fl) \<in> set (segments (get_exe_header (kbytes k) buf) buf). unat v + unat n \<le> 0xc0000000"
    and sp: "spaces (vm k) P"
  shows "vm k' = vm k \<or> (\<exists>pd P'. pd \<notin> P \<and> (mem_step (Some pd))\<^sup>*\<^sup>* (vm k, P) (vm k', P'))"
proof -
  let ?h = "get_exe_header (kbytes k) buf"
  show ?thesis
  proof (cases "ex_magic ?h = EXE_MAGIC")
    case False
    with run show ?thesis by (simp add: load_image_def Let_def)
  next
    case True
    from run True obtain pd v1 st1 v2 where cr: "paging_create_address_space (vm k) = Some (pd, v1)"
      and ld: "load_segments pd (segments ?h buf) v1 = Some (st1, v2)" "vm k' = v2"
      by (auto simp: load_image_def Let_def k_free_def upd_proc_def split: option.splits prod.splits if_splits)
    have "(mem_step (Some pd))\<^sup>*\<^sup>* (v1, insert pd P) (v2, insert pd P)" by (rule load_segments_private [OF ld(1) _ segs]) simp
    from converse_rtranclp_into_rtranclp [where r = "mem_step (Some pd)", OF mem_step.create [OF cr] this] create_spaces(2) [OF sp cr] ld(2) show ?thesis by auto
  qed
qed

lemma close_fds_vm [simp]: "vm (close_fds is p k) = vm k \<and> p_pd_phys (procs (close_fds is p k) q) = p_pd_phys (procs k q)"
proof (induction "is" arbitrary: k)
  case (Cons i js)
  show ?case using Cons.IH by (simp add: Let_def upd_proc_def file_close_def)
qed simp

lemma process_cleanup_private:
  assumes "process_cleanup p k = Some k'" "p_pd_phys (procs k p) \<noteq> 0 \<longrightarrow> p_pd_phys (procs k p) \<in> P"
  shows "vm k' = vm k \<or> mem_step (Some (p_pd_phys (procs k p))) (vm k, P) (vm k', P - {p_pd_phys (procs k p)})"
proof -
  have "vm k' = (if p_pd_phys (procs k p) \<noteq> 0 then paging_destroy_address_space (p_pd_phys (procs k p)) (vm k) else vm k)"
    using assms(1) by (auto simp: process_cleanup_def Let_def upd_proc_def k_free_def split: if_splits option.splits prod.splits)
  then show ?thesis using mem_step.destroy assms(2) by simp
qed


lemma vm_example_kernel: "kernel_dir_ok vm_example" "15 \<le> free_frames vm_example"
proof -
  have "kernel_directory_phys vm_example = 0x14000" "frame_used (vpm vm_example) 0"
    by (simp_all add: vm_example_def frame_used_def pmm_example_def)
  then show "kernel_dir_ok vm_example" using vm_example_space by (simp add: kernel_dir_ok_def user_space_def space_ok_def)
  have "card {1, 2, 3, 4, 5, 6, 7, 8, 9, 10, 11, 12, 13, 14, 15 :: nat} \<le> free_frames vm_example"
    unfolding free_frames_def
    by (rule card_mono) (simp_all add: vm_example_def frame_used_def pmm_example_def pmm_frames_def)
  then show "15 \<le> free_frames vm_example" by simp
qed

text \<open>A new address space with a page at 0x400000.\<close>

lemma spaces_example:
  assumes "spaces s P" "4 \<le> free_frames s"
  obtains pd s1 s2 where "paging_create_address_space s = Some (pd, s1)" "pd \<notin> P"
    "map_and_copy pd 0x400000 0 0x1000 7 s1 = Some (0, s2)" "spaces s2 (insert pd P)"
    "user_access (kmem s2) pd True 0x400000" "free_frames s \<le> free_frames s2 + 3"
    "\<And>a. kernel_data s a \<Longrightarrow> kernel_data s2 a \<and> apart s2 pd a"
proof -
  have kd: "kernel_dir_ok s" using assms(1) by (simp add: spaces_def)
  from create_user_space [OF kd] assms(2) obtain pd s1 where c: "paging_create_address_space s = Some (pd, s1)"
    "user_space s1 pd" "frame_used (vpm s1) 0" "free_frames s1 + 1 = free_frames s"
    and cd: "\<forall>a. kernel_data s a \<longrightarrow> apart s1 pd a" by auto
  have pg: "unat (page_down (0x400000 + 0x1000 + 0xfff)) = 0x401000" "unat (page_down 0x400000) = 0x400000"
    by (simp_all add: page_down_def)
  have "unat (page_down (0x400000 + 0x1000 + 0xfff)) \<le> unat (page_down 0x400000) + 2048 * free_frames s1"
    unfolding pg using c(4) assms(2) by simp
  from map_and_copy_ok [OF c(2) _ _ c(3) this, of 0 7] obtain s2 where m: "map_and_copy pd 0x400000 0 0x1000 7 s1 = Some (0, s2)"
    "loaded pd 0x400000 0 0x1000 7 0x400000 0x401000 s1 s2" "2048 * free_frames s1 + 0x400000 \<le> 2048 * free_frames s2 + 0x401000"
    unfolding pg by (auto simp: source_ok_def)
  note C = create_spaces [OF assms(1) c(1)]
  have cf: "confined pd s1 s2" by (rule map_and_copy_confined [OF c(2) m(1)]) simp
  note S = confined_spaces [OF C(1) insertI1 cf]
  have "kernel_data s2 a \<and> apart s2 pd a" if "kernel_data s a" for a
  proof -
    have "apart s2 pd a" using cd cf that by (simp add: confined_def)
    then show ?thesis using that S(3) C(4) by (simp add: kernel_data_def apart_def)
  qed
  moreover have "user_access (kmem s2) pd True 0x400000" using m(2) by (simp add: loaded_def)
  moreover have "free_frames s \<le> free_frames s2 + 3" using m(3) c(4) by simp
  ultimately show thesis using that [OF c(1) C(2) m(1) S(1)] by blast
qed


end
