(* ===== verification/Exec.thy ===== *)
theory Exec
  imports Spaces Fat_Files
begin

text \<open>
  \<^verbatim>\<open>exec_load\<close> as a whole: from an executable in the root directory of the mounted volume to the process
  that is loaded from it. Here the file system, the heap and paging meet.
\<close>

section \<open>Memory of the kernel that holds no page tables\<close>

text \<open>Memory may change where there are no tables.\<close>

definition off_tables :: "vm_state \<Rightarrow> bytes \<Rightarrow> bool" where
  "off_tables s m \<longleftrightarrow> (\<forall>a. m a \<noteq> kmem s a \<longrightarrow> page_down (virt_to_phys a) \<notin> tables_of (kmem s) (kernel_directory_phys s))"

lemma off_tables_same:
  assumes o: "off_tables s m" and ok: "tables_ok (kmem s) (kernel_directory_phys s)"
  defines "pd \<equiv> kernel_directory_phys s"
  shows "j < 1024 \<Longrightarrow> entry m pd j = entry (kmem s) pd j" "tables_of m pd = tables_of (kmem s) pd"
proof -
  have pd: "page_aligned pd" "pd \<in> tables_of (kmem s) pd" using ok by (simp_all add: tables_ok_def pd_def tables_of_def)
  have e: "entry m pd j = entry (kmem s) pd j" if "j < 1024" for j
    by (rule entry_page [OF _ pd(1) that]) (use o pd(2) in \<open>auto simp: off_tables_def pd_def\<close>)
  then show "j < 1024 \<Longrightarrow> entry m pd j = entry (kmem s) pd j" .
  show "tables_of m pd = tables_of (kmem s) pd"
    by (auto simp: tables_of_def pd_present_def table_at_def e) (use e in metis)+
qed

lemma off_tables_kernel:
  assumes "kernel_dir_ok s" "off_tables s m"
  shows "kernel_dir_ok (s\<lparr>kmem := m\<rparr>)" "kernel_data (s\<lparr>kmem := m\<rparr>) a = kernel_data s a" "free_frames (s\<lparr>kmem := m\<rparr>) = free_frames s"
proof -
  have ok: "tables_ok (kmem s) (kernel_directory_phys s)" using assms(1) by (simp add: kernel_dir_ok_def aspace_ok_def)
  note e = off_tables_same [OF assms(2) ok]
  show "kernel_data (s\<lparr>kmem := m\<rparr>) a = kernel_data s a" by (simp add: kernel_data_def e(2))
  show "free_frames (s\<lparr>kmem := m\<rparr>) = free_frames s" by (simp add: free_frames_def)
  have p: "pd_present m (kernel_directory_phys s) j = pd_present (kmem s) (kernel_directory_phys s) j"
    "table_at m (kernel_directory_phys s) j = table_at (kmem s) (kernel_directory_phys s) j" if "j < 1024" for j
    using e(1) [OF that] by (simp_all add: pd_present_def table_at_def)
  show "kernel_dir_ok (s\<lparr>kmem := m\<rparr>)"
    using assms(1) p e(1) [OF pd_index_less] e(1)
    by (simp add: kernel_dir_ok_def aspace_ok_def tables_ok_def tables_rw_def upper_user_def)
qed

section \<open>The heap\<close>

text \<open>The region of the heap is kernel data.\<close>

definition heap_in_data :: "kernel \<Rightarrow> bool" where
  "heap_in_data k \<longleftrightarrow> (\<forall>a. unat (free_list (kheap k)) \<le> unat a \<and> unat a < unat (heap_end (kheap k)) + 12 \<longrightarrow> kernel_data (vm k) a)"

lemma kmalloc_hdrs:
  assumes "heap_rep h L" "kmalloc n h = Some (p, h')"
  shows "\<exists>m. h' = h\<lparr>hdrs := m\<rparr>"
proof -
  from assms(1) obtain bs where ok: "heap_ok h bs" by (auto simp: heap_rep_def)
  then have t: "tiles (hdrs h) (unat (free_list h)) bs" by (simp add: heap_ok_def)
  have "block_ptr (unat (free_list h)) bs = free_list h" using heap_ok_ptr [OF ok] .
  with kmalloc_loop_tiles [OF t, of "(n + 3) AND NOT 3"] assms(2) show ?thesis
    by (auto simp: kmalloc_def split: option.splits prod.splits intro: exI [of _ "hdrs h"])
qed

lemma live_in_heap:
  assumes "heap_rep h L" "(a, n) \<in> L"
  shows "unat (free_list h) \<le> a" "a + n \<le> unat (heap_end h) + 12" "a + n < 2 ^ 32"
proof -
  from assms(1) obtain bs where ok: "heap_ok h bs" and L: "L = payloads (unat (free_list h)) bs" by (auto simp: heap_rep_def)
  then have "unat (heap_end h) + 12 = unat (free_list h) + span bs" by (simp add: heap_ok_def)
  with payload_range [of "(a, n)" "unat (free_list h)" bs] heap_ok_bound [OF ok] assms(2) L
  show "unat (free_list h) \<le> a" "a + n \<le> unat (heap_end h) + 12" "a + n < 2 ^ 32" by auto
qed

section \<open>The file\<close>

lemma fat_stat_file:
  assumes M: "mounted s m" and p: "root_path path t" and f: "file_at s t k cs"
  shows "\<exists>info b. fat_stat path s = Some (0, Some info, s\<lparr>sector_buf := b\<rparr>) \<and> fs_size info = entry_size (root_entries s k)"
proof -
  have k: "first_match t (root_entries s) (root_size s) k" using f by (simp add: file_at_def)
  then have kN: "k < root_size s" by (simp add: first_match_def)
  define sl where "sl = slot_at (root_start s) k"
  from existing_entry_root [OF M p k sl_def] obtain b where
    ex: "existing_entry path s = Some (Inr (Some (sl\<lparr>ds_exists := True\<rparr>)), s\<lparr>sector_buf := sector_view (disk s) (ds_sector sl) b\<rparr>)" ..
  have "fs_size (entry_info (sector_view (disk s) (ds_sector sl) b) (ds_offset sl)) = entry_size (root_entries s k)"
    using get_root_dirent(2) [OF M kN sl_def, of "disk s" b] by (simp add: entry_info_def get_dirent_def)
  with ex show ?thesis
    by (intro exI [of _ "entry_info (sector_view (disk s) (ds_sector sl) b) (ds_offset sl)"] exI [of _ "sector_view (disk s) (ds_sector sl) b"])
      (simp add: fat_stat_def)
qed

text \<open>\<^verbatim>\<open>fat_read_alloc_size\<close> rounds up to whole clusters, when their size is a power of two.\<close>

lemma alloc_size_clusters:
  assumes "spc s = 2 ^ e" "clusters_for s (unat sz) * (512 * spc s) < 2 ^ 30"
  shows "unat (fat_read_alloc_size sz s) = clusters_for s (unat sz) * (512 * spc s)"
proof -
  let ?c = "ucast (sectors_per_cluster (bpb s)) * 512 :: u32"
  have u8: "unat (sectors_per_cluster (bpb s)) < 256" using unsigned_less [of "sectors_per_cluster (bpb s)"] by simp
  then have "(2 :: nat) ^ e < 2 ^ 8" using assms(1) by (simp add: spc_def)
  then have e: "e < 8" by (rule power_less_imp_less_exp [rotated]) simp
  have c: "unat ?c = 2 ^ (9 + e)"
    using u8 assms(1) by (subst unat_mult_lem [THEN iffD1]) (simp_all add: spc_def power_add)
  have "(2 :: nat) ^ (9 + e) < 2 ^ 32" by (rule power_strict_increasing) (use e in simp_all)
  then have "unat (of_nat (2 ^ (9 + e)) :: u32) = 2 ^ (9 + e)" by (intro unat_of_nat_u32) simp
  then have "unat (2 ^ (9 + e) :: u32) = 2 ^ (9 + e)" by (simp only: of_nat_power of_nat_numeral)
  then have ce: "?c = 2 ^ (9 + e)" using c by (simp only: word_unat_eq_iff)
  then have m: "?c - 1 = mask (9 + e)" by (simp add: mask_eq_exp_minus_1)
  have cl: "512 * spc s = 2 ^ (9 + e)" by (simp add: assms(1) power_add)
  let ?n = "unat sz + 2 ^ (9 + e) - 1"
  have pos: "1 \<le> (2 :: nat) ^ (9 + e)" by simp
  have "?n < 2 ^ (9 + e) + ?n div 2 ^ (9 + e) * 2 ^ (9 + e)" by (rule dividend_less_div_times) simp
  moreover have "?n div 2 ^ (9 + e) * 2 ^ (9 + e) < 2 ^ 30" using assms(2) by (simp add: clusters_for_def cl)
  moreover have "(2 :: nat) ^ (9 + e) < 2 ^ 17" by (rule power_strict_increasing) (use e in simp_all)
  ultimately have lim: "?n < 2 ^ 31" by simp
  have u: "unat (sz + ?c - 1) = ?n"
  proof -
    have "unat (sz + ?c) = unat sz + 2 ^ (9 + e)" using lim pos c by (subst unat_add_lem [THEN iffD1]) auto
    moreover have "1 \<le> sz + ?c" unfolding word_le_nat_alt calculation using pos by (simp only: unat_1 trans_le_add2)
    ultimately show ?thesis by (simp add: unat_sub)
  qed
  have "unat (fat_read_alloc_size sz s) = unat (push_bit (9 + e) (drop_bit (9 + e) (sz + ?c - 1)))"
    by (simp only: fat_read_alloc_size_def Let_def m and_not_mask)
  also have "\<dots> = 2 ^ (9 + e) * (?n div 2 ^ (9 + e))" by (simp only: push_drop_div u)
  finally show ?thesis unfolding clusters_for_def cl by (simp only: mult.commute)
qed

text \<open>The content of a file of the volume, as bytes from address 0.\<close>

definition file_content :: "fat_state \<Rightarrow> u16 list \<Rightarrow> bytes" where
  "file_content s cs = (\<lambda>a. chain_byte s (disk s) cs (unat a))"

lemma header_at: "get_exe_header m p = get_exe_header (mem_at m p) 0"
  by (simp add: get_exe_header_def ld32_def mem_at_def add.assoc)

text \<open>An executable that the kernel can load.\<close>

definition good_image :: "bytes \<Rightarrow> u32 \<Rightarrow> exe_header \<Rightarrow> bool" where
  "good_image fb sz h \<longleftrightarrow> get_exe_header fb 0 = h \<and> ex_magic h = EXE_MAGIC
     \<and> 32 + unat (ex_code_size h) + unat (ex_data_size h) \<le> unat sz
     \<and> (\<forall>(c, va, src, n, fl) \<in> set (segments h 0). unat va + unat n \<le> 0xc0000000)"

lemma segments_buf:
  "(\<forall>(c, va, src, n, fl) \<in> set (segments h buf). P va n) \<longleftrightarrow> (\<forall>(c, va, src, n, fl) \<in> set (segments h 0). P va n)"
  "segs_size (segments h buf) = segs_size (segments h 0)"
  "(\<forall>seg \<in> set (segments h buf). Q (seg_pages seg)) \<longleftrightarrow> (\<forall>seg \<in> set (segments h 0). Q (seg_pages seg))"
  "(\<forall>seg \<in> set (data_segment h buf @ zero_segments h). Q (seg_pages seg)) \<longleftrightarrow> (\<forall>seg \<in> set (data_segment h 0 @ zero_segments h). Q (seg_pages seg))"
  by (auto simp: segments_def data_segment_def)

lemma image_view_buf:
  assumes "\<And>i. i < 32 + unat (ex_code_size h) + unat (ex_data_size h) \<Longrightarrow> m (buf + of_nat i) = fb (of_nat i)"
  shows "image_view m h buf vb = image_view fb h 0 vb"
proof -
  have "m (buf + 32 + ex_code_size h + (vb - ex_data_vaddr h)) = fb (32 + ex_code_size h + (vb - ex_data_vaddr h))"
    if "in_range vb (ex_data_vaddr h) (unat (ex_data_size h))"
    using assms [of "32 + unat (ex_code_size h) + unat (vb - ex_data_vaddr h)"] that by (simp add: in_range_def add.assoc)
  moreover have "m (buf + 32 + (vb - ex_code_vaddr h)) = fb (32 + (vb - ex_code_vaddr h))"
    if "in_range vb (ex_code_vaddr h) (unat (ex_code_size h))"
    using assms [of "32 + unat (vb - ex_code_vaddr h)"] that by (simp add: in_range_def add.assoc)
  moreover have "(\<exists>seg \<in> set (segments h buf). unat vb \<in> seg_pages seg) \<longleftrightarrow> (\<exists>seg \<in> set (segments h 0). unat vb \<in> seg_pages seg)"
    using segments_buf(3) [of h buf "\<lambda>x. unat vb \<notin> x"] by blast
  ultimately show ?thesis by (simp add: image_view_def)
qed

text \<open>The part of \<^verbatim>\<open>exec_load\<close> before \<^verbatim>\<open>load_image\<close>: the file is read into a fresh block of the heap.\<close>

lemma exec_load_read:
  assumes M: "mounted (fat k) m" "spc (fat k) = 2 ^ e" and p: "root_path path t" and f: "file_at (fat k) t i cs"
    and v: "\<forall>c \<in> set cs. volume_cluster m c" and sz: "sz = entry_size (root_entries (fat k) i)" "length cs = clusters_for (fat k) (unat sz)"
    and img: "good_image (file_content (fat k) cs) sz h"
    and mem: "kernel_dir_ok (vm k)" "heap_in_data k"
    and hp: "heap_rep (kheap k) L" "kmalloc (fat_read_alloc_size sz (fat k)) (kheap k) = Some (buf, h1)" "buf \<noteq> 0"
  obtains k3 n where "exec_load path proc k = load_image proc buf k3" "vm k3 = (vm k)\<lparr>kmem := kbytes k3\<rparr>"
    "\<And>a. kbytes k3 a \<noteq> kbytes k a \<Longrightarrow> unat (free_list (kheap k)) \<le> unat a \<and> unat a < unat (heap_end (kheap k)) + 12"
    "file_in_kernel (vm k3) h buf" "kernel_dir_ok (vm k3)" "free_frames (vm k3) = free_frames (vm k)"
    "\<And>vb. image_view (kbytes k3) h buf vb = image_view (file_content (fat k) cs) h 0 vb"
    "heap_rep (kheap k3) (insert (unat buf, n) L)" "(unat buf, n) \<notin> L" "12 < n"
proof -
  let ?s = "fat k" and ?N = "fat_read_alloc_size sz (fat k)"
  have ch: "chain (table ?s) (entry_cluster (root_entries ?s i)) cs" using f by (simp add: file_at_def)
  have cs30: "length cs * (512 * spc ?s) < 2 ^ 30" by (rule chain_size [OF M(1) chain_distinct [OF ch] v])
  then have N: "unat ?N = length cs * (512 * spc ?s)" using alloc_size_clusters [OF M(2)] by (simp add: sz(2))
  have szN: "unat sz \<le> unat ?N" using clusters_for_enough [of ?s "unat sz"] M(1) by (simp add: N sz(2) mounted_def)
  from fat_stat_file [OF M(1) p f] obtain info b where
    st: "fat_stat path ?s = Some (0, Some info, ?s\<lparr>sector_buf := b\<rparr>)" "fs_size info = sz" by (auto simp: sz(1))
  let ?s1 = "?s\<lparr>sector_buf := b\<rparr>"
  have al: "fat_read_alloc_size sz ?s1 = ?N" by (simp add: fat_read_alloc_size_def)
  from kmalloc_live [OF hp(1), of ?N] hp(2,3) obtain n where n: "unat ?N \<le> n" "heap_rep h1 (insert (unat buf, n) L)" "\<forall>j. (unat buf, j) \<notin> L"
    using N cs30 by auto
  define k2 where "k2 = k\<lparr>fat := ?s1, kheap := h1\<rparr>"
  have m2: "k_malloc ?N (k\<lparr>fat := ?s1\<rparr>) = Some (buf, k2)" by (simp add: k_malloc_def hp(2) k2_def)
  have M1: "mounted ?s1 m" by (rule same_volume_mounted [OF _ _ M(1)]) (use M(1) in \<open>simp_all add: mounted_def same_volume_def\<close>)
  have "root_entry ?s1 = root_entry ?s" by (simp add: fun_eq_iff root_entry_def)
  then have f1: "file_at ?s1 t i cs" "entry_size (root_entries ?s1 i) = sz"
    using f by (simp_all add: file_at_def root_size_def sz(1))
  have cb: "chain_byte ?s1 = chain_byte ?s" "spc ?s1 = spc ?s" "disk ?s1 = disk ?s"
    by (simp_all add: chain_byte_def spc_def cluster_base_def fun_eq_iff)
  define d where "d = (\<lambda>a. if in_range a 0 (unat ?N) then chain_byte ?s (disk ?s) cs (unat a) else mem_at (kbytes k2) buf a)"
  from fat_read_file_spec [OF M1 p f1(1) v, of "mem_at (kbytes k2) buf"] obtain s2 where
    rd: "fat_read_file path (mem_at (kbytes k2) buf) ?s1 = Some (0, Some sz, d, s2)"
    using f1(2) unfolding cb N d_def by auto
  define k3 where "k3 = set_mem (mem_from buf d) (k2\<lparr>fat := s2\<rparr>)"
  have run: "exec_load path proc k = load_image proc buf k3"
    using rd hp(3) by (simp add: exec_load_def st al m2 k3_def k2_def)
  have kb: "kbytes k3 a = (if unat (a - buf) < unat ?N then file_content ?s cs (a - buf) else kbytes k a)" for a
    by (simp add: k3_def set_mem_def mem_from_def d_def in_range_def file_content_def mem_at_def k2_def)
  from kmalloc_hdrs [OF hp(1,2)] obtain hm where h1: "h1 = (kheap k)\<lparr>hdrs := hm\<rparr>" ..
  have live: "unat (free_list (kheap k)) \<le> unat buf" "unat buf + n \<le> unat (heap_end (kheap k)) + 12" "unat buf + n < 2 ^ 32"
    using live_in_heap [OF n(2), of "unat buf" n] by (simp_all add: h1)
  have rng: "unat (free_list (kheap k)) \<le> unat a \<and> unat a < unat (heap_end (kheap k)) + 12" if "unat (a - buf) < unat ?N" for a
  proof -
    have "unat (buf + (a - buf)) = unat buf + unat (a - buf)"
      using that n(1) live(3) by (subst unat_add_lem [THEN iffD1]) auto
    then have "unat a = unat buf + unat (a - buf)" by simp
    then show ?thesis using that n(1) live by simp
  qed
  then have data: "kernel_data (vm k) a" if "unat (a - buf) < unat ?N" for a
    using mem(2) that unfolding heap_in_data_def by blast
  have v3: "vm k3 = (vm k)\<lparr>kmem := kbytes k3\<rparr>" by (simp add: k3_def k2_def set_mem_def)
  have off: "off_tables (vm k) (kbytes k3)"
    unfolding off_tables_def using data by (auto simp: kb kernel_data_def split: if_splits)
  note K = off_tables_kernel [OF mem(1) off, folded v3]
  have len: "32 + unat (ex_code_size h) + unat (ex_data_size h) \<le> unat ?N" using img szN by (simp add: good_image_def)
  have at: "kbytes k3 (buf + of_nat j) = file_content ?s cs (of_nat j)" "kernel_data (vm k3) (buf + of_nat j)" if "j < unat ?N" for j
  proof -
    have "unat (of_nat j :: u32) = j" using that u32_less [of ?N] by simp
    then show "kbytes k3 (buf + of_nat j) = file_content ?s cs (of_nat j)" "kernel_data (vm k3) (buf + of_nat j)"
      using that data [of "buf + of_nat j"] by (simp_all add: kb K(2))
  qed
  have "get_exe_header (kbytes k3) buf = get_exe_header (file_content ?s cs) 0"
    using header_cong [of "mem_at (kbytes k3) buf" 0 "file_content ?s cs"] at(1) len header_at [of "kbytes k3" buf] by (simp add: mem_at_def)
  then have fk: "file_in_kernel (vm k3) h buf"
    unfolding file_in_kernel_def segments_buf(1) [of h buf "\<lambda>va n. unat va + unat n \<le> 0xc0000000"]
    using img at(2) len n(1) live(3) by (simp add: good_image_def)
  have view: "image_view (kbytes k3) h buf vb = image_view (file_content ?s cs) h 0 vb" for vb
    by (rule image_view_buf) (use at(1) len in auto)
  have chg: "unat (free_list (kheap k)) \<le> unat a \<and> unat a < unat (heap_end (kheap k)) + 12" if "kbytes k3 a \<noteq> kbytes k a" for a
    using that rng by (auto simp: kb split: if_splits)
  have hp3: "heap_rep (kheap k3) (insert (unat buf, n) L)" using n(2) by (simp add: k3_def k2_def set_mem_def)
  have "12 < n" using len n(1) by simp
  then show thesis using that [OF run v3 chg fk K(1,3) view hp3] n(3) by blast
qed

lemma exec_load_ok:
  assumes "mounted (fat k) m" "spc (fat k) = 2 ^ e" "root_path path t" "file_at (fat k) t i cs"
    and "\<forall>c \<in> set cs. volume_cluster m c" "sz = entry_size (root_entries (fat k) i)" "length cs = clusters_for (fat k) (unat sz)"
    and "good_image (file_content (fat k) cs) sz h"
    and "kernel_dir_ok (vm k)" "heap_in_data k" and room: "segs_size (segments h 0) + 2048 \<le> 2048 * free_frames (vm k)"
    and "heap_rep (kheap k) L" "kmalloc (fat_read_alloc_size sz (fat k)) (kheap k) = Some (buf, h1)" "buf \<noteq> 0"
  shows "\<exists>k'. exec_load path proc k = Some (0, k') \<and> heap_rep (kheap k') L
    \<and> (let x = procs k' proc; pd = p_pd_phys x in user_space (vm k') pd
      \<and> (\<forall>vb < KERNEL_VIRT_BASE. peek (kbytes k') pd vb = image_view (file_content (fat k) cs) h 0 vb)
      \<and> (\<forall>seg \<in> set (segments h 0). \<forall>vb. unat vb \<in> seg_pages seg \<longrightarrow> user_access (kbytes k') pd False vb)
      \<and> (\<forall>seg \<in> set (data_segment h 0 @ zero_segments h). \<forall>vb. unat vb \<in> seg_pages seg \<longrightarrow> user_access (kbytes k') pd True vb)
      \<and> p_entry_point x = ex_entry_point h \<and> p_user_stack_top x = USER_STACK_TOP
      \<and> p_heap_start x = page_down (ex_bss_vaddr h + ex_bss_size h + 0xfff) \<and> p_heap_break x = p_heap_start x)"
proof -
  from exec_load_read [OF assms(1-10,12-14), of proc] obtain k3 n where run: "exec_load path proc k = load_image proc buf k3"
    and fk: "file_in_kernel (vm k3) h buf" and K: "kernel_dir_ok (vm k3)" "free_frames (vm k3) = free_frames (vm k)"
    and view: "\<And>vb. image_view (kbytes k3) h buf vb = image_view (file_content (fat k) cs) h 0 vb"
    and hp3: "heap_rep (kheap k3) (insert (unat buf, n) L)" "(unat buf, n) \<notin> L" "12 < n" by metis
  from load_image_ok [OF K(1) fk _ hp3(1) _ hp3(3), of proc] room K(2) hp3(2) obtain k' where
    k': "load_image proc buf k3 = Some (0, k')" "heap_rep (kheap k') L"
    and r: "let x = procs k' proc; pd = p_pd_phys x in user_space (vm k') pd
      \<and> (\<forall>vb < KERNEL_VIRT_BASE. peek (kbytes k') pd vb = image_view (kbytes k3) h buf vb)
      \<and> (\<forall>seg \<in> set (segments h buf). \<forall>vb. unat vb \<in> seg_pages seg \<longrightarrow> user_access (kbytes k') pd False vb)
      \<and> (\<forall>seg \<in> set (data_segment h buf @ zero_segments h). \<forall>vb. unat vb \<in> seg_pages seg \<longrightarrow> user_access (kbytes k') pd True vb)
      \<and> p_entry_point x = ex_entry_point h \<and> p_user_stack_top x = USER_STACK_TOP
      \<and> p_heap_start x = page_down (ex_bss_vaddr h + ex_bss_size h + 0xfff) \<and> p_heap_break x = p_heap_start x"
    by (auto simp: segments_buf(2) [of h buf])
  with r have "let x = procs k' proc; pd = p_pd_phys x in user_space (vm k') pd
      \<and> (\<forall>vb < KERNEL_VIRT_BASE. peek (kbytes k') pd vb = image_view (file_content (fat k) cs) h 0 vb)
      \<and> (\<forall>seg \<in> set (segments h 0). \<forall>vb. unat vb \<in> seg_pages seg \<longrightarrow> user_access (kbytes k') pd False vb)
      \<and> (\<forall>seg \<in> set (data_segment h 0 @ zero_segments h). \<forall>vb. unat vb \<in> seg_pages seg \<longrightarrow> user_access (kbytes k') pd True vb)
      \<and> p_entry_point x = ex_entry_point h \<and> p_user_stack_top x = USER_STACK_TOP
      \<and> p_heap_start x = page_down (ex_bss_vaddr h + ex_bss_size h + 0xfff) \<and> p_heap_break x = p_heap_start x"
    unfolding Let_def
      view
      segments_buf(3) [of h buf "\<lambda>S. \<forall>vb. unat vb \<in> S \<longrightarrow> user_access (kbytes k') (p_pd_phys (procs k' proc)) False vb"]
      segments_buf(4) [of h buf "\<lambda>S. \<forall>vb. unat vb \<in> S \<longrightarrow> user_access (kbytes k') (p_pd_phys (procs k' proc)) True vb"]
    by simp
  with k' run show ?thesis by (intro exI [of _ k']) simp
qed

section \<open>From the disk to the process\<close>

text \<open>
  C5. Starting a program from the disk. When the volume is mounted, the file is an executable in its root
  directory, whose segments lie below the kernel, the heap has room for the file and enough frames are
  free, \<^verbatim>\<open>exec_load\<close> returns 0 and gives the process an address space of its own, in which it finds
  exactly the data and the code of the file, and zeros in the rest of its pages; it may read all of them
  and write the data, the uninitialised data and the stack; the entry point, the stack and the heap are
  set as the header says, and the heap holds the same live blocks as before.
\<close>

theorem exec_load_runs:
  assumes "mounted (fat k) m" "spc (fat k) = 2 ^ e" "root_path path t" "file_at (fat k) t i cs"
    and "\<forall>c \<in> set cs. volume_cluster m c" "sz = entry_size (root_entries (fat k) i)" "length cs = clusters_for (fat k) (unat sz)"
    and "good_image (file_content (fat k) cs) sz h"
    and "kernel_dir_ok (vm k)" "heap_in_data k" "segs_size (segments h 0) + 2048 \<le> 2048 * free_frames (vm k)"
    and "heap_rep (kheap k) L" "kmalloc (fat_read_alloc_size sz (fat k)) (kheap k) = Some (buf, h1)" "buf \<noteq> 0"
  shows "\<exists>k'. exec_load path proc k = Some (0, k') \<and> heap_rep (kheap k') L
    \<and> (let x = procs k' proc; pd = p_pd_phys x in user_space (vm k') pd
      \<and> (\<forall>vb < KERNEL_VIRT_BASE. peek (kbytes k') pd vb = image_view (file_content (fat k) cs) h 0 vb)
      \<and> (\<forall>seg \<in> set (segments h 0). \<forall>vb. unat vb \<in> seg_pages seg \<longrightarrow> user_access (kbytes k') pd False vb)
      \<and> (\<forall>seg \<in> set (data_segment h 0 @ zero_segments h). \<forall>vb. unat vb \<in> seg_pages seg \<longrightarrow> user_access (kbytes k') pd True vb)
      \<and> p_entry_point x = ex_entry_point h \<and> p_user_stack_top x = USER_STACK_TOP
      \<and> p_heap_start x = page_down (ex_bss_vaddr h + ex_bss_size h + 0xfff) \<and> p_heap_break x = p_heap_start x)"
  by (rule exec_load_ok [OF assms])

section \<open>The other processes\<close>

text \<open>The region of the heap is in no address space of \<open>P\<close>.\<close>

definition heap_off :: "kernel \<Rightarrow> u32 set \<Rightarrow> bool" where
  "heap_off k P \<longleftrightarrow> (\<forall>pd \<in> P. \<forall>a. unat (free_list (kheap k)) \<le> unat a \<and> unat a < unat (heap_end (kheap k)) + 12 \<longrightarrow> apart (vm k) pd a)"

lemma steps_spaces: "(mem_step l)\<^sup>*\<^sup>* x y \<Longrightarrow> spaces (fst x) (snd x) \<Longrightarrow> spaces (fst y) (snd y)"
proof (induction rule: rtranclp_induct)
  case (step y z)
  then have "mem_step l (fst y, snd y) (fst z, snd z)" "spaces (fst y) (snd y)" by simp_all
  then show ?case by (rule mem_step_spaces(1))
qed simp

lemma others_steps: "(mem_step (Some pd))\<^sup>*\<^sup>* x y \<Longrightarrow> pd \<noteq> b \<Longrightarrow> (by_others b)\<^sup>*\<^sup>* x y"
proof (induction rule: converse_rtranclp_induct)
  case (step x z)
  from others_step [OF step(1), of b y] step(3,4) show ?case by blast
qed simp


text \<open>The example file is written to the example volume; the heap is one free block of 1000 bytes.\<close>

definition exec_example :: "vm_state \<Rightarrow> fat_state \<Rightarrow> kernel" where
  "exec_example v s = user_example\<lparr>vm := v, fat := s,
     kheap := \<lparr>hdrs = (\<lambda>_. \<lparr>bh_size = 1000, bh_next = 0, bh_free = 1\<rparr>),
       free_list = 0xc0100000, heap_start = 0x100000, heap_end = 0xc01003e8, heap_start_virt = 0xc0100000\<rparr>\<rparr>"

definition header_example :: exe_header where
  "header_example = \<lparr>ex_magic = EXE_MAGIC, ex_entry_point = 0x400000, ex_code_vaddr = 0x400000, ex_code_size = 3,
     ex_data_vaddr = 0, ex_data_size = 0, ex_bss_vaddr = 0, ex_bss_size = 0\<rparr>"

lemma example_pages: "page_down 0x400000 = 0x400000" "page_down 0x401002 = 0x401000" "page_down 0xbfffb000 = 0xbfffb000"
  "page_down 0xbfffffff = 0xbffff000"
  by (simp_all add: page_down_def)

lemma segments_example: "segments header_example 0 = [(5, 0x400000, 32, 3, user_flags False), (8, 0xbfffb000, 0, 0x4000, user_flags True)]"
  by (simp add: header_example_def segments_def)

lemma exec_example_parts [simp]: "vm (exec_example v s) = v" "fat (exec_example v s) = s"
  by (simp_all add: exec_example_def)

lemma exec_example_heap:
  "heap_rep (kheap (exec_example v s)) {}" "\<exists>h1. kmalloc 512 (kheap (exec_example v s)) = Some (0xc010000c, h1)"
proof -
  have ok: "heap_ok (kheap (exec_example v s)) [(1000, True)]" by (simp add: heap_ok_def exec_example_def block_ptr_def)
  then show "heap_rep (kheap (exec_example v s)) {}"
    unfolding heap_rep_def by (intro exI [of _ "[(1000, True)]"]) simp
  show "\<exists>h1. kmalloc 512 (kheap (exec_example v s)) = Some (0xc010000c, h1)"
    using kmalloc_refines [OF ok, of 512] by (auto simp: kmalloc_round_eq) (auto simp: exec_example_def)
qed

lemma exec_example_region:
  assumes "unat (free_list (kheap (exec_example v s))) \<le> unat a" "unat a < unat (heap_end (kheap (exec_example v s))) + 12"
  shows "kernel_data vm_example a"
proof -
  have a: "0xc0100000 \<le> unat a" "unat a < 0xc01003f4" using assms by (simp_all add: exec_example_def)
  have kd: "kernel_directory_phys vm_example = 0x14000" by (simp add: vm_example_def)
  have t: "tables_of (kmem vm_example) 0x14000 = {0x14000}"
    by (auto simp: tables_of_def pd_present_def vm_example_def entry_def ld32_def)
  have f0: "frame_used (vpm vm_example) 256" by (simp add: vm_example_def frame_used_def pmm_example_def)
  have "unat (virt_to_phys a) = unat a - 0xc0000000"
    using a by (simp add: virt_to_phys_def KERNEL_VIRT_BASE_def unat_sub word_le_nat_alt)
  then have d: "unat (virt_to_phys a) div 4096 = 256" using a by simp
  then have "page_down (virt_to_phys a) = 0x100000" by (simp add: word_unat_eq_iff unat_page_down)
  moreover have "pgno (virt_to_phys a) = 256" using d by (simp add: pgno_def)
  ultimately show ?thesis using f0 by (simp add: kernel_data_def kd t)
qed

lemma exec_example_file:
  obtains s1 i cs where "fat_write_file no_slot [47, 97] (\<lambda>a. file_example ! unat a) 35 fat_example = Some (0, s1)"
    "mounted s1 42" "spc s1 = 2 ^ 0" "root_path [47, 97] (to_fat_name [97])" "file_at s1 (to_fat_name [97]) i cs"
    "\<forall>c \<in> set cs. volume_cluster 42 c" "35 = entry_size (root_entries s1 i)" "length cs = clusters_for s1 (unat (35 :: u32))"
    "good_image (file_content s1 cs) 35 header_example" "fat_read_alloc_size 35 s1 = 512"
    "\<And>a. unat a < 35 \<Longrightarrow> file_content s1 cs a = file_example ! unat a"
proof -
  let ?t = "to_fat_name [97]"
  have old: "old_chain fat_example ?t []" by (simp add: old_chain_def example_empty)
  have c1: "clusters_for fat_example (unat (35 :: u32)) = 1" by (simp add: clusters_for_def spc_def fat_example_def bpb_example_def)
  have "clusters_for fat_example (unat (35 :: u32)) \<le> card (free_clusters (freed (table fat_example) (set [])) (unat (42 :: u32)))"
    using example_space unfolding c1 by (simp add: clusters_for_def spc_def fat_example_def bpb_example_def)
  with fat_write_file_spec [OF example_mounted example_path(1) old, of no_slot "\<lambda>a. file_example ! unat a" 35] obtain s1 i cs where
    w: "fat_write_file no_slot [47, 97] (\<lambda>a. file_example ! unat a) 35 fat_example = Some (0, s1)" and k: "writable_slot fat_example ?t i"
    and F: "file_stored fat_example 42 (table fat_example) i ?t (\<lambda>a. file_example ! unat a) 35 cs s1"
    unfolding writable_slot_def by (auto simp: example_empty)
  have t1: "?t ! 0 \<notin> {0, 0xe5}" by (simp add: example_path)
  note S = stored_file_at [OF example_mounted F k to_fat_name_length t1]
  have sv: "same_volume fat_example s1" using F by (simp add: file_stored_def)
  then have g: "spc s1 = 1" "chain_byte s1 = chain_byte fat_example" "clusters_for s1 = clusters_for fat_example"
    using same_volume_geometry [OF sv] by (simp_all add: chain_byte_def clusters_for_def fun_eq_iff) (simp add: spc_def fat_example_def bpb_example_def)
  let ?fb = "file_content s1 cs"
  have fb: "?fb a = file_example ! unat a" if "unat a < 35" for a
    using F that by (simp add: file_stored_def file_content_def g(2))
  have H: "get_exe_header ?fb 0 = header_example"
    by (simp add: get_exe_header_def ld32_def fb header_example_def) (simp add: file_example_def)
  have img: "good_image ?fb 35 header_example"
    unfolding good_image_def segments_example by (simp add: H) (simp add: header_example_def)
  have al: "fat_read_alloc_size 35 s1 = 512"
    using sv by (simp add: fat_read_alloc_size_def same_volume_def fat_example_def bpb_example_def)
  have "spc s1 = 2 ^ 0" "length cs = clusters_for s1 (unat (35 :: u32))" using F by (simp_all add: g file_stored_def)
  from that [OF w S(1) this(1) example_path(1) S(2,4) S(3) [symmetric] this(2) img al] fb show thesis by blast
qed

lemma exec_load_runs_witness:
  "\<exists>s1 k'. fat_write_file no_slot [47, 97] (\<lambda>a. file_example ! unat a) 35 fat_example = Some (0, s1)
    \<and> exec_load [47, 97] 0x100 (exec_example vm_example s1) = Some (0, k')
    \<and> peek (kbytes k') (p_pd_phys (procs k' 0x100)) 0x400001 = Some 0xfe \<and> peek (kbytes k') (p_pd_phys (procs k' 0x100)) 0x400003 = Some 0
    \<and> user_access (kbytes k') (p_pd_phys (procs k' 0x100)) True 0xbfffeffc \<and> heap_rep (kheap k') {}"
proof (rule exec_example_file)
  fix s1 i cs
  assume w: "fat_write_file no_slot [47, 97] (\<lambda>a. file_example ! unat a) 35 fat_example = Some (0, s1)"
    and F: "mounted s1 42" "spc s1 = 2 ^ 0" "root_path [47, 97] (to_fat_name [97])" "file_at s1 (to_fat_name [97]) i cs"
      "\<forall>c \<in> set cs. volume_cluster 42 c" "35 = entry_size (root_entries s1 i)" "length cs = clusters_for s1 (unat (35 :: u32))"
      "good_image (file_content s1 cs) 35 header_example" "fat_read_alloc_size 35 s1 = 512"
    and fb: "\<And>a. unat a < 35 \<Longrightarrow> file_content s1 cs a = file_example ! unat a"
  let ?k = "exec_example vm_example s1" and ?h = header_example and ?fb = "file_content s1 cs"
  obtain h1 where km: "kmalloc 512 (kheap ?k) = Some (0xc010000c, h1)" using exec_example_heap(2) by blast
  have hd: "heap_in_data ?k" unfolding heap_in_data_def using exec_example_region [of vm_example s1] by simp
  have room: "segs_size (segments ?h 0) + 2048 \<le> 2048 * free_frames (vm ?k)"
    unfolding segments_example using vm_example_kernel(2) by (simp add: example_pages)
  from exec_load_runs [of ?k, unfolded exec_example_parts, OF F(1-8) vm_example_kernel(1) hd room [unfolded exec_example_parts]
      exec_example_heap(1) km [folded F(9)], of "0x100"] obtain k' where
    k': "exec_load [47, 97] 0x100 ?k = Some (0, k')" "heap_rep (kheap k') {}"
      "\<forall>vb < KERNEL_VIRT_BASE. peek (kbytes k') (p_pd_phys (procs k' 0x100)) vb = image_view ?fb ?h 0 vb"
      "\<forall>seg \<in> set (data_segment ?h 0 @ zero_segments ?h). \<forall>vb. unat vb \<in> seg_pages seg \<longrightarrow> user_access (kbytes k') (p_pd_phys (procs k' 0x100)) True vb"
    unfolding Let_def by auto
  have "image_view ?fb ?h 0 0x400001 = Some 0xfe" "image_view ?fb ?h 0 0x400003 = Some 0"
    unfolding image_view_def segments_example
    by (simp_all add: header_example_def in_range_def example_pages fb) (simp add: file_example_def)
  moreover have "user_access (kbytes k') (p_pd_phys (procs k' 0x100)) True 0xbfffeffc"
    using k'(4) by (simp add: header_example_def zero_segments_def example_pages)
  ultimately show ?thesis using k'(1-3) w by (intro exI [of _ s1] exI [of _ k']) (simp add: KERNEL_VIRT_BASE_def)
qed


end
